(* ===== verification/Prelude.thy ===== *)
theory Prelude
  imports Main "HOL-Library.Word" "HOL-Library.Monad_Syntax"
begin

text \<open>
  Types and facts shared by the components.

  The C integer types of \<open>common_type.h\<close> are words of their width: \<open>U8\<close>, \<open>U16\<close> and
  \<open>U32\<close> wrap, and a conversion between them is \<open>ucast\<close>.  \<open>TickType_t\<close> and
  \<open>UBaseType_t\<close> are 32 bits wide on the Cortex-M3 port (\<open>portmacro.h\<close>).  An \<open>option\<close>
  result is \<open>None\<close> where the C code has undefined behaviour (an array read out of
  bounds, a NULL dereference) or never returns.

  The collection \<open>prog_defs\<close> holds the small definitions that proofs unfold freely
  (constants and one-line macros); \<open>list_upd\<close> the facts about lists updated by index.
\<close>

unbundle bit_operations_syntax

type_synonym u8 = "8 word"
type_synonym u16 = "16 word"
type_synonym u32 = "32 word"

named_theorems prog_defs "constants and one-line macros of the program"
named_theorems list_upd "lists updated and read by index"

subsection \<open>Constants of the kernel headers\<close>

definition portMAX_DELAY :: u32 where
  [prog_defs]: "portMAX_DELAY = - 1"

definition pdTRUE :: int where [prog_defs]: "pdTRUE = 1"
definition pdFALSE :: int where [prog_defs]: "pdFALSE = 0"

lemma portMAX_DELAY_top [simp]: "v \<le> portMAX_DELAY"
  by (simp add: portMAX_DELAY_def)

lemma portMAX_DELAY_le [simp]: "portMAX_DELAY \<le> v \<longleftrightarrow> v = portMAX_DELAY"
  using order_antisym by fastforce

subsection \<open>Lists\<close>

lemma takeWhile_all: "(\<And>x. x \<in> set xs \<Longrightarrow> P x) \<Longrightarrow> takeWhile P xs = xs"
  by (induction xs) auto

lemma dropWhile_none: "(\<And>x. x \<in> set xs \<Longrightarrow> P x) \<Longrightarrow> dropWhile P xs = []"
  by (induction xs) auto

lemma nth_list_update_if [list_upd]:
  "i < length xs \<Longrightarrow> xs[i := v] ! j = (if i = j then v else xs ! j)"
  by simp

subsection \<open>Array accesses and loops that can fail\<close>

text \<open>\<open>get\<close> and \<open>put\<close> read and write an array; out of bounds is \<open>None\<close>.\<close>

definition get :: "'a list \<Rightarrow> nat \<Rightarrow> 'a option" where
  "get xs i = (if i < length xs then Some (xs ! i) else None)"

definition put :: "'a list \<Rightarrow> nat \<Rightarrow> 'a \<Rightarrow> 'a list option" where
  "put xs i v = (if i < length xs then Some (xs[i := v]) else None)"

lemma get_Some [list_upd]: "i < length xs \<Longrightarrow> get xs i = Some (xs ! i)"
  by (simp add: get_def)

lemma put_Some [list_upd]: "i < length xs \<Longrightarrow> put xs i v = Some (xs[i := v])"
  by (simp add: put_def)

lemma get_None [list_upd]: "length xs \<le> i \<Longrightarrow> get xs i = None"
  by (simp add: get_def)

lemma put_None [list_upd]: "length xs \<le> i \<Longrightarrow> put xs i v = None"
  by (simp add: put_def)

lemma put_length: "put xs i v = Some ys \<Longrightarrow> length ys = length xs"
  by (auto simp: put_def split: if_splits)

text \<open>A loop body run over a list of loop counters, stopping where it fails.\<close>

fun fold_opt :: "('a \<Rightarrow> 's \<Rightarrow> 's option) \<Rightarrow> 'a list \<Rightarrow> 's \<Rightarrow> 's option" where
  "fold_opt f [] s = Some s"
| "fold_opt f (x # xs) s = do { s' \<leftarrow> f x s; fold_opt f xs s' }"

lemma fold_opt_append:
  "fold_opt f (xs @ ys) s = do { s' \<leftarrow> fold_opt f xs s; fold_opt f ys s' }"
  by (induction xs arbitrary: s) (auto simp: bind_eq_Some_conv split: Option.bind_split)

text \<open>An invariant of such a loop, indexed by how far it has run.\<close>

lemma fold_opt_upt:
  assumes "P 0 s" "\<And>k s. k < n \<Longrightarrow> P k s \<Longrightarrow> \<exists>s'. f k s = Some s' \<and> P (Suc k) s'"
  shows "\<exists>s'. fold_opt f [0..<n] s = Some s' \<and> P n s'"
  using assms
proof (induction n)
  case (Suc n)
  then obtain s' where "fold_opt f [0..<n] s = Some s'" "P n s'" by auto
  with Suc.prems(2) [of n s'] show ?case by (auto simp: fold_opt_append)
qed simp

subsection \<open>Words\<close>

lemma word8_less_iff: "(a::u8) < b \<longleftrightarrow> unat a < unat b"
  by (simp add: word_less_nat_alt)

lemma unat_u8_lt [simp]: "unat (a::u8) < 256"
  using unsigned_less [of a] by simp

lemma unat_u16_lt [simp]: "unat (a::u16) < 65536"
  using unsigned_less [of a] by simp

lemma unat_u32_of_nat: "n < 2 ^ 32 \<Longrightarrow> unat (of_nat n :: u32) = n"
  by (simp add: unat_of_nat take_bit_nat_eq_self)

lemma unat_u8_of_nat: "n < 256 \<Longrightarrow> unat (of_nat n :: u8) = n"
  by (simp add: unat_of_nat)

text \<open>The bits of a byte, most and least significant first.\<close>

definition bits_msb :: "u8 \<Rightarrow> bool list" where
  "bits_msb b = map (bit b) [7, 6, 5, 4, 3, 2, 1, 0]"

definition bits_lsb :: "u8 \<Rightarrow> bool list" where
  "bits_lsb b = map (bit b) [0..<8]"

lemma rev_bits_msb: "rev (bits_msb b) = bits_lsb b"
  by (simp add: bits_msb_def bits_lsb_def upt_rec numeral_eq_Suc)

lemma bits_msb_upt: "bits_msb b = map (\<lambda>k. bit b (7 - k)) [0..<8]"
  by (simp add: bits_msb_def upt_rec)

lemma length_bits_msb [simp]: "length (bits_msb b) = 8"
  by (simp add: bits_msb_def)

lemma length_bits_lsb [simp]: "length (bits_lsb b) = 8"
  by (simp add: bits_lsb_def)

lemma bits_msb_inject [simp]: "bits_msb a = bits_msb b \<longleftrightarrow> a = b"
proof
  assume "bits_msb a = bits_msb b"
  then have "bits_lsb a = bits_lsb b" by (metis rev_bits_msb)
  then have "bit a n = bit b n" if "n < 8" for n
    using that by (simp add: bits_lsb_def list_eq_iff_nth_eq)
  then show "a = b" by (auto intro: bit_word_eqI)
qed simp

lemma bit_single: "(m::u16) = push_bit k 1 \<Longrightarrow> k < 16 \<Longrightarrow> bit m n \<longleftrightarrow> n = k"
  by (auto simp: bit_exp_iff)

text \<open>An array of bytes as its bits.\<close>

definition byte_bits :: "u8 list \<Rightarrow> bool list" where
  "byte_bits bs = concat (map bits_lsb bs)"

lemma length_byte_bits [simp]: "length (byte_bits bs) = 8 * length bs"
  by (induction bs) (auto simp: byte_bits_def)

lemma nth_byte_bits:
  "j < 8 * length bs \<Longrightarrow> byte_bits bs ! j = bit (bs ! (j div 8)) (j mod 8)"
proof (induction bs arbitrary: j)
  case (Cons b bs)
  have 1: "byte_bits (b # bs) = bits_lsb b @ byte_bits bs" by (simp add: byte_bits_def)
  show ?case
  proof (cases "j < 8")
    case True
    then show ?thesis by (simp add: 1 nth_append bits_lsb_def)
  next
    case False
    then have "j div 8 = Suc ((j - 8) div 8)" "j mod 8 = (j - 8) mod 8"
      by (simp_all add: le_div_geq le_mod_geq)
    with False Cons show ?thesis by (simp add: 1 nth_append)
  qed
qed simp

lemma byte_bits_eqI:
  assumes "length bits = 8 * length bs"
    and "\<And>j. j < 8 * length bs \<Longrightarrow> bit (bs ! (j div 8)) (j mod 8) = bits ! j"
  shows "byte_bits bs = bits"
  using assms by (auto simp: list_eq_iff_nth_eq nth_byte_bits)

text \<open>Setting one bit of the array.\<close>

lemma set_bit_in_array:
  assumes "c < 8 * length bs" "j < 8 * length (bs::u8 list)"
  shows "bit (bs[c div 8 := bs ! (c div 8) OR push_bit (c mod 8) 1] ! (j div 8)) (j mod 8) \<longleftrightarrow>
         bit (bs ! (j div 8)) (j mod 8) \<or> j = c"
proof -
  have d: "c div 8 < length bs" "j div 8 < length bs" "j mod 8 < 8" "c mod 8 < 8"
    using assms by auto
  have "j = c \<longleftrightarrow> j div 8 = c div 8 \<and> j mod 8 = c mod 8" by (metis div_mult_mod_eq)
  then show ?thesis using d
    by (cases "j div 8 = c div 8") (auto simp: bit_or_iff bit_exp_iff)
qed

lemma u8_le_3: "(x::u8) \<le> 3 \<Longrightarrow> x = 0 \<or> x = 1 \<or> x = 2 \<or> x = 3"
  by (simp add: word_unat_eq_iff word_le_nat_alt) arith

lemma ucast_u8_u32_u8 [simp]: "(ucast (ucast (x::u8) :: u32) :: u8) = x"
  by (rule bit_word_eqI) (auto simp: bit_ucast_iff)

lemma ucast_u16_u32_u16 [simp]: "(ucast (ucast (x::u16) :: u32) :: u16) = x"
  by (rule bit_word_eqI) (auto simp: bit_ucast_iff)

lemma unat_u8_mod [simp]: "unat (x::u8) mod 65536 = unat x" "unat (x::u8) mod 4294967296 = unat x"
  by (rule mod_less, rule order_less_trans [OF unat_u8_lt], simp)+

lemma unat_u16_mod [simp]: "unat (x::u16) mod 4294967296 = unat x"
  by (rule mod_less, rule order_less_trans [OF unat_u16_lt], simp)

lemma unat_ucast_u8_u32 [simp]: "unat (ucast (x::u8) :: u32) = unat x"
  by (simp add: unsigned_ucast_eq take_bit_eq_mod)

lemma unat_ucast_u16_u32 [simp]: "unat (ucast (x::u16) :: u32) = unat x"
  by (simp add: unsigned_ucast_eq take_bit_eq_mod)

lemma unat_ucast_u8_u16 [simp]: "unat (ucast (x::u8) :: u16) = unat x"
  by (simp add: unsigned_ucast_eq take_bit_eq_mod)

text \<open>Words put together from bytes, and taken apart.\<close>

lemma unat_two_bytes: "unat (push_bit 8 (ucast hi) OR ucast lo :: u16) = 256 * unat (hi :: u8) + unat (lo :: u8)"
proof -
  have d: "\<not> bit (push_bit 8 (ucast hi) :: u16) k \<or> \<not> bit (ucast lo :: u16) k" for k
    using bit_imp_le_length [of lo k] by (auto simp: bit_push_bit_iff bit_ucast_iff)
  have "(push_bit 8 (ucast hi) OR ucast lo :: u16) = push_bit 8 (ucast hi) + ucast lo" using disjunctive_add [OF d] by simp
  also have "unat \<dots> = 256 * unat hi + unat lo"
  proof -
    have "unat hi < 256" "unat lo < 256" by (rule unat_u8_lt)+
    then have "unat hi * 256 + unat lo < 65536" by linarith
    then show ?thesis by (simp add: unat_word_ariths push_bit_eq_mult)
  qed
  finally show ?thesis .
qed

lemma and_low_half: "(w :: 'a::len word) AND 0xffff = take_bit 16 w"
  by (simp add: take_bit_eq_mask mask_eq_exp_minus_1)

lemma and_low_byte: "(w :: 'a::len word) AND 0xff = take_bit 8 w"
  by (simp add: take_bit_eq_mask mask_eq_exp_minus_1)

lemma unat_halves: "unat ((u :: u32) AND 0xffff) = unat u mod 65536" "unat (drop_bit 16 (u :: u32)) = unat u div 65536"
  using unsigned_less [of u, where ?'a = nat]
  by (simp_all only: and_low_half unsigned_take_bit_eq unsigned_drop_bit_eq, simp_all add: take_bit_eq_mod drop_bit_eq_div)

lemma unat_carry: "unat (drop_bit 16 u + (u AND 0xffff)) = unat u div 65536 + unat (u::u32) mod 65536"
proof -
  have "unat u < 65536 * 65536" using unsigned_less [of u] by simp
  then have "unat u div 65536 < 65536" by (rule less_mult_imp_div_less)
  then have "unat u div 65536 + unat u mod 65536 < 2 ^ 32" using mod_less_divisor [of 65536 "unat u"] by simp
  then show ?thesis by (simp add: unat_word_ariths unat_halves)
qed

lemma unat_swap16: "unat (push_bit 8 (n AND 0xff) OR drop_bit 8 (n AND 0xff00) :: u16) = 256 * (unat n mod 256) + unat n div 256"
proof -
  have "push_bit 8 (n AND 0xff) = push_bit 8 (ucast (ucast n :: u8))"
    by (rule bit_word_eqI) (auto simp: and_low_byte bit_simps)
  moreover have m: "(0xff00 :: u16) = push_bit 8 (mask 8)" by (simp add: mask_eq_exp_minus_1 push_bit_eq_mult)
  have "drop_bit 8 (n AND 0xff00) = ucast (ucast (drop_bit 8 n) :: u8)"
    by (rule bit_word_eqI) (auto simp: m bit_simps)
  ultimately have "unat (push_bit 8 (n AND 0xff) OR drop_bit 8 (n AND 0xff00)) =
      256 * unat (ucast n :: u8) + unat (ucast (drop_bit 8 n) :: u8)" by (simp add: unat_two_bytes)
  moreover have "unat n div 256 < 256" by (rule less_mult_imp_div_less) simp
  then have "unat (ucast (drop_bit 8 n) :: u8) = unat n div 256"
    by (simp only: unsigned_ucast_eq unsigned_drop_bit_eq, simp add: take_bit_eq_mod drop_bit_eq_div)
  moreover have "unat (ucast n :: u8) = unat n mod 256" by (simp add: unsigned_ucast_eq take_bit_eq_mod)
  ultimately show ?thesis by simp
qed

end
