(* ===== verification/Hardware.thy ===== *)
theory Hardware
  imports Prelude
begin

text \<open>
  What the program does to the outside: a trace of actions, in program order.

  Pins: \<open>hal/inc/bsp.h\<close> drives them by writing \<open>BSRR\<close> (set) and \<open>BRR\<close> (reset) of a GPIO
  port; \<open>levels\<close> follows the output data register of each port along a trace; configuring a pin as
  an input with pull-up sets its output bit too (\<open>GPIO_Init\<close>), and a read of the inputs is a mark in the
  trace.  A busy
  loop is \<open>Busy n\<close> with its iteration count.  Calls of the kernel that only block or
  schedule (delays, suspend and resume, critical sections, giving a semaphore) are
  actions of the trace as well, in the order the code makes them.
\<close>

section \<open>Actions\<close>

datatype port = GPIOA | GPIOB | GPIOC | GPIOD

datatype pin_mode = Out_PP | In_IPU

datatype task = TASK_HANDLE_CLI | TASK_HANDLE_DISPLAY | TASK_HANDLE_SHT10 | TASK_HANDLE_DS3231
  | TASK_HANDLE_BUZ | TASK_HANDLE_LED | TASK_HANDLE_DATA

datatype action =
    BSRR port u16
  | BRR port u16
  | PinMode port u16 pin_mode
  | Busy nat
  | EnterCritical
  | ExitCritical
  | TaskDelay u32
  | TaskResume task
  | TaskSuspend task
  | GiveDataSync
  | SystemReset
  | PWMOutputs bool
  | ReadIDR port u16

type_synonym pins = "port \<Rightarrow> u16"

fun level :: "pins \<Rightarrow> action \<Rightarrow> pins" where
  "level p (BSRR q m) = p(q := p q OR m)"
| "level p (BRR q m) = p(q := p q AND NOT m)"
| "level p (PinMode q m In_IPU) = p(q := p q OR m)"
| "level p _ = p"

definition levels :: "pins \<Rightarrow> action list \<Rightarrow> pins" where
  "levels p as = foldl level p as"

lemma levels_simps [simp]:
  "levels p [] = p" "levels p (a # as) = levels (level p a) as"
  "levels p (as @ bs) = levels (levels p as) bs"
  by (simp_all add: levels_def)

text \<open>The level of one pin of a port.\<close>

definition high :: "pins \<Rightarrow> port \<times> nat \<Rightarrow> bool" where
  "high p pin = bit (p (fst pin)) (snd pin)"

text \<open>
  The bits a receiver sees that samples the data pin at every rising edge of the clock
  pin: this is what a shift register on the two pins holds, and what an I2C slave reads.
\<close>

fun clocked_bits :: "port \<times> nat \<Rightarrow> port \<times> nat \<Rightarrow> pins \<Rightarrow> action list \<Rightarrow> bool list" where
  "clocked_bits ck d p [] = []"
| "clocked_bits ck d p (a # as) =
     (let p' = level p a in
      if \<not> high p ck \<and> high p' ck then high p' d # clocked_bits ck d p' as
      else clocked_bits ck d p' as)"

lemma clocked_bits_append [simp]:
  "clocked_bits ck d p (as @ bs) = clocked_bits ck d p as @ clocked_bits ck d (levels p as) bs"
  by (induction as arbitrary: p) (auto simp: Let_def)

section \<open>The pins of the display board (bsp.h)\<close>

definition HV_PIN :: u16 where [prog_defs]: "HV_PIN = 0x0100"
definition HC595_OE_PIN :: u16 where [prog_defs]: "HC595_OE_PIN = 0x0002"
definition HC595_LOCK_PIN :: u16 where [prog_defs]: "HC595_LOCK_PIN = 0x0010"
definition HC595_OFFSET_PIN :: u16 where [prog_defs]: "HC595_OFFSET_PIN = 0x0020"
definition HC595_DATA_PIN :: u16 where [prog_defs]: "HC595_DATA_PIN = 0x0040"
definition POINT_LTOP_PIN :: u16 where [prog_defs]: "POINT_LTOP_PIN = 0x0100"
definition POINT_LBOT_PIN :: u16 where [prog_defs]: "POINT_LBOT_PIN = 0x0004"
definition POINT_RTOP_PIN :: u16 where [prog_defs]: "POINT_RTOP_PIN = 0x0002"
definition POINT_RBOT_PIN :: u16 where [prog_defs]: "POINT_RBOT_PIN = 0x0080"

definition SWITCH_ON :: u8 where [prog_defs]: "SWITCH_ON = 1"
definition SWITCH_OFF :: u8 where [prog_defs]: "SWITCH_OFF = 0"

definition bsp_set_hv_state :: "u8 \<Rightarrow> action list" where
  "bsp_set_hv_state state =
     (if state = SWITCH_ON then [BSRR GPIOC HV_PIN] else [BRR GPIOC HV_PIN])"

text \<open>
  \<open>ODR & HV_PIN != (u32)Bit_RESET\<close>: in C \<open>!=\<close> binds tighter than \<open>&\<close>, so the mask is the
  value of the comparison, 1.
\<close>

definition bsp_get_hv_state :: "pins \<Rightarrow> bool" where
  "bsp_get_hv_state p \<longleftrightarrow> p GPIOC AND (if HV_PIN \<noteq> 0 then 1 else 0) \<noteq> 0"

definition bsp_74hc595_set_OE :: "bool \<Rightarrow> action list" where
  "bsp_74hc595_set_OE act = (if act then [BSRR GPIOC HC595_OE_PIN] else [BRR GPIOC HC595_OE_PIN])"

definition bsp_74hc595_set_ST_CP :: "bool \<Rightarrow> action list" where
  "bsp_74hc595_set_ST_CP act =
     (if act then [BSRR GPIOA HC595_LOCK_PIN] else [BRR GPIOA HC595_LOCK_PIN])"

definition bsp_74hc595_set_SH_CP :: "bool \<Rightarrow> action list" where
  "bsp_74hc595_set_SH_CP act =
     (if act then [BSRR GPIOA HC595_OFFSET_PIN] else [BRR GPIOA HC595_OFFSET_PIN])"

definition bsp_74hc595_set_DATA :: "bool \<Rightarrow> action list" where
  "bsp_74hc595_set_DATA act =
     (if act then [BSRR GPIOA HC595_DATA_PIN] else [BRR GPIOA HC595_DATA_PIN])"

lemmas hc595_setters =
  bsp_74hc595_set_OE_def bsp_74hc595_set_ST_CP_def bsp_74hc595_set_SH_CP_def
  bsp_74hc595_set_DATA_def

definition mainDELAY_MS :: "u32 \<Rightarrow> u32" where
  [prog_defs]: "mainDELAY_MS ms = ms div 1"

text \<open>The level of a pin after a write of single-pin masks.\<close>

lemma high_simps [simp]:
  "high (p(q := v)) (r, n) = (if r = q then bit v n else high p (r, n))"
  by (simp add: high_def)

text \<open>The getter does not read back what the setter wrote.\<close>

lemma bsp_get_hv_state_bit0: "bsp_get_hv_state p = high p (GPIOC, 0)"
  by (simp add: bsp_get_hv_state_def prog_defs high_def and_one_eq odd_iff_mod_2_eq_one bit_0)

end
