(* ===== verification/Kernel_List.thy ===== *)
theory Kernel_List
  imports Prelude "HOL-Library.Monad_Syntax" "HOL-Library.Multiset"
begin

text \<open>
  The kernel's doubly linked lists (\<open>FreeRTOS/list.c\<close>, \<open>FreeRTOS/include/list.h\<close>).

  A node is the end marker of a list (\<open>&pxList->xListEnd\<close>) or a \<open>ListItem_t\<close>; both are
  named by numbers.  The memory of all lists is one record of field maps, so that the
  aliasing of list pointers is the C code's.  A pointer field is \<open>None\<close> for NULL, and an
  operation is \<open>None\<close> where it would dereference NULL or loop for ever.

  \<open>list_repr m l xs\<close> says that list \<open>l\<close> holds the items \<open>xs\<close> in order: a closed chain
  of next and previous pointers through the end marker, with the containers, the count
  and the index consistent.  Every operation is proved to refine an operation on \<open>xs\<close>.
  The integrity-check and coverage macros are empty in this configuration.
\<close>

section \<open>Memory\<close>

datatype node = ListEnd nat | Item nat

record list_mem =
  xItemValue :: "node \<Rightarrow> u32"
  pxNext :: "node \<Rightarrow> node option"
  pxPrevious :: "node \<Rightarrow> node option"
  pvOwner :: "node \<Rightarrow> nat option"
  pvContainer :: "node \<Rightarrow> nat option"
  uxNumberOfItems :: "nat \<Rightarrow> u32"
  pxIndex :: "nat \<Rightarrow> node option"

definition set_next :: "node \<Rightarrow> node \<Rightarrow> list_mem \<Rightarrow> list_mem" where
  "set_next n v m = m\<lparr>pxNext := (pxNext m)(n := Some v)\<rparr>"

definition set_prev :: "node \<Rightarrow> node \<Rightarrow> list_mem \<Rightarrow> list_mem" where
  "set_prev n v m = m\<lparr>pxPrevious := (pxPrevious m)(n := Some v)\<rparr>"

definition set_container :: "nat \<Rightarrow> nat option \<Rightarrow> list_mem \<Rightarrow> list_mem" where
  "set_container i c m = m\<lparr>pvContainer := (pvContainer m)(Item i := c)\<rparr>"

definition set_index :: "nat \<Rightarrow> node \<Rightarrow> list_mem \<Rightarrow> list_mem" where
  "set_index l n m = m\<lparr>pxIndex := (pxIndex m)(l := Some n)\<rparr>"

definition set_count :: "nat \<Rightarrow> u32 \<Rightarrow> list_mem \<Rightarrow> list_mem" where
  "set_count l c m = m\<lparr>uxNumberOfItems := (uxNumberOfItems m)(l := c)\<rparr>"

definition set_value :: "node \<Rightarrow> u32 \<Rightarrow> list_mem \<Rightarrow> list_mem" where
  "set_value n v m = m\<lparr>xItemValue := (xItemValue m)(n := v)\<rparr>"

definition set_owner :: "nat \<Rightarrow> nat \<Rightarrow> list_mem \<Rightarrow> list_mem" where
  "set_owner i p m = m\<lparr>pvOwner := (pvOwner m)(Item i := Some p)\<rparr>"

lemmas mem_setters =
  set_next_def set_prev_def set_container_def set_index_def set_count_def set_value_def
  set_owner_def

section \<open>The operations of list.c\<close>

definition vListInitialise :: "nat \<Rightarrow> list_mem \<Rightarrow> list_mem" where
  "vListInitialise l m =
     set_count l 0
      (set_prev (ListEnd l) (ListEnd l)
       (set_next (ListEnd l) (ListEnd l)
        (set_value (ListEnd l) portMAX_DELAY
         (set_index l (ListEnd l) m))))"

definition vListInitialiseItem :: "nat \<Rightarrow> list_mem \<Rightarrow> list_mem" where
  "vListInitialiseItem i m = set_container i None m"

definition vListInsertEnd :: "nat \<Rightarrow> nat \<Rightarrow> list_mem \<Rightarrow> list_mem option" where
  "vListInsertEnd l i m = do {
     idx \<leftarrow> pxIndex m l;
     m \<leftarrow> Some (set_next (Item i) idx m);
     prev \<leftarrow> pxPrevious m idx;
     m \<leftarrow> Some (set_prev (Item i) prev m);
     p \<leftarrow> pxPrevious m idx;
     m \<leftarrow> Some (set_next p (Item i) m);
     m \<leftarrow> Some (set_prev idx (Item i) m);
     m \<leftarrow> Some (set_container i (Some l) m);
     Some (set_count l (uxNumberOfItems m l + 1) m)
   }"

text \<open>The loop of \<open>vListInsert\<close>: stop before the first node with a greater value.\<close>

partial_function (option) insert_walk :: "u32 \<Rightarrow> list_mem \<Rightarrow> node \<Rightarrow> node option" where
  "insert_walk v m it = do {
     nx \<leftarrow> pxNext m it;
     if xItemValue m nx \<le> v then insert_walk v m nx else Some it
   }"

definition vListInsert :: "nat \<Rightarrow> nat \<Rightarrow> list_mem \<Rightarrow> list_mem option" where
  "vListInsert l i m = do {
     let v = xItemValue m (Item i);
     it \<leftarrow> (if v = portMAX_DELAY then pxPrevious m (ListEnd l)
           else insert_walk v m (ListEnd l));
     nx \<leftarrow> pxNext m it;
     m \<leftarrow> Some (set_next (Item i) nx m);
     m \<leftarrow> Some (set_prev nx (Item i) m);
     m \<leftarrow> Some (set_prev (Item i) it m);
     m \<leftarrow> Some (set_next it (Item i) m);
     m \<leftarrow> Some (set_container i (Some l) m);
     Some (set_count l (uxNumberOfItems m l + 1) m)
   }"

definition uxListRemove :: "nat \<Rightarrow> list_mem \<Rightarrow> (u32 \<times> list_mem) option" where
  "uxListRemove i m = do {
     l \<leftarrow> pvContainer m (Item i);
     nx \<leftarrow> pxNext m (Item i);
     pv \<leftarrow> pxPrevious m (Item i);
     m \<leftarrow> Some (set_prev nx pv m);
     pv \<leftarrow> pxPrevious m (Item i);
     nx \<leftarrow> pxNext m (Item i);
     m \<leftarrow> Some (set_next pv nx m);
     m \<leftarrow> (if pxIndex m l = Some (Item i)
           then do { pv \<leftarrow> pxPrevious m (Item i); Some (set_index l pv m) }
           else Some m);
     m \<leftarrow> Some (set_container i None m);
     m \<leftarrow> Some (set_count l (uxNumberOfItems m l - 1) m);
     Some (uxNumberOfItems m l, m)
   }"

section \<open>The macros of list.h that the program uses\<close>

definition listGET_HEAD_ENTRY :: "nat \<Rightarrow> list_mem \<Rightarrow> node option" where
  "listGET_HEAD_ENTRY l m = pxNext m (ListEnd l)"

definition listGET_NEXT :: "node \<Rightarrow> list_mem \<Rightarrow> node option" where
  "listGET_NEXT n m = pxNext m n"

definition listGET_LIST_ITEM_OWNER :: "node \<Rightarrow> list_mem \<Rightarrow> nat option" where
  "listGET_LIST_ITEM_OWNER n m = pvOwner m n"

definition listLIST_IS_EMPTY :: "nat \<Rightarrow> list_mem \<Rightarrow> bool" where
  "listLIST_IS_EMPTY l m \<longleftrightarrow> uxNumberOfItems m l = 0"

definition listIS_CONTAINED_WITHIN :: "nat \<Rightarrow> nat \<Rightarrow> list_mem \<Rightarrow> bool" where
  "listIS_CONTAINED_WITHIN l i m \<longleftrightarrow> pvContainer m (Item i) = Some l"

definition listGET_OWNER_OF_NEXT_ENTRY :: "nat \<Rightarrow> list_mem \<Rightarrow> (nat \<times> list_mem) option" where
  "listGET_OWNER_OF_NEXT_ENTRY l m = do {
     idx \<leftarrow> pxIndex m l;
     nx \<leftarrow> pxNext m idx;
     nx \<leftarrow> (if nx = ListEnd l then pxNext m nx else Some nx);
     m \<leftarrow> Some (set_index l nx m);
     ow \<leftarrow> pvOwner m nx;
     Some (ow, m)
   }"

section \<open>What a list represents\<close>

fun link :: "list_mem \<Rightarrow> node \<Rightarrow> node list \<Rightarrow> node \<Rightarrow> bool" where
  "link m x [] y \<longleftrightarrow> pxNext m x = Some y \<and> pxPrevious m y = Some x"
| "link m x (a # as) y \<longleftrightarrow> pxNext m x = Some a \<and> pxPrevious m a = Some x \<and> link m a as y"

definition list_repr :: "list_mem \<Rightarrow> nat \<Rightarrow> nat list \<Rightarrow> bool" where
  "list_repr m l xs \<longleftrightarrow>
     link m (ListEnd l) (map Item xs) (ListEnd l) \<and> distinct xs \<and>
     (\<forall>i. pvContainer m (Item i) = Some l \<longleftrightarrow> i \<in> set xs) \<and>
     uxNumberOfItems m l = of_nat (length xs) \<and>
     xItemValue m (ListEnd l) = portMAX_DELAY \<and>
     pxIndex m l \<in> Some ` insert (ListEnd l) (Item ` set xs)"

text \<open>The abstract insertion: after every element whose key is not greater.\<close>

definition ins_by :: "('a \<Rightarrow> 'k::linorder) \<Rightarrow> 'a \<Rightarrow> 'a list \<Rightarrow> 'a list" where
  "ins_by key i xs =
     takeWhile (\<lambda>j. key j \<le> key i) xs @ i # dropWhile (\<lambda>j. key j \<le> key i) xs"

definition item_key :: "list_mem \<Rightarrow> nat \<Rightarrow> u32" where
  "item_key m i = xItemValue m (Item i)"

lemma set_ins_by [simp]: "set (ins_by key i xs) = insert i (set xs)"
proof -
  have "set (takeWhile P xs) \<union> set (dropWhile P xs) = set xs" for P
    by (metis set_append takeWhile_dropWhile_id)
  then show ?thesis by (auto simp: ins_by_def)
qed

lemma length_ins_by [simp]: "length (ins_by key i xs) = Suc (length xs)"
proof -
  have "length (takeWhile P xs) + length (dropWhile P xs) = length xs" for P
    by (metis length_append takeWhile_dropWhile_id)
  then show ?thesis by (simp add: ins_by_def)
qed

lemma sorted_wrt_ins_by:
  assumes "sorted_wrt (\<lambda>a b. key a \<le> key b) xs"
  shows "sorted_wrt (\<lambda>a b. key a \<le> key b) (ins_by key i xs)"
  using assms
proof (induction xs)
  case Nil
  then show ?case by (simp add: ins_by_def)
next
  case (Cons a xs)
  show ?case
  proof (cases "key a \<le> key i")
    case True
    then have "ins_by key i (a # xs) = a # ins_by key i xs" by (simp add: ins_by_def)
    with Cons True show ?thesis by simp
  next
    case False
    then have "ins_by key i (a # xs) = i # a # xs" by (simp add: ins_by_def)
    with Cons.prems False show ?thesis by fastforce
  qed
qed

lemma ins_by_top: "(\<And>j. j \<in> set xs \<Longrightarrow> key j \<le> key i) \<Longrightarrow> ins_by key i xs = xs @ [i]"
  by (simp add: ins_by_def takeWhile_all dropWhile_none)

lemma ins_by_first: "(\<And>j. j \<in> set xs \<Longrightarrow> key i < key j) \<Longrightarrow> ins_by key i xs = i # xs"
  by (cases xs) (force simp: ins_by_def)+

section \<open>Chains of nodes\<close>

lemma link_cong:
  assumes "\<And>n. n \<in> set (x # as) \<Longrightarrow> pxNext m' n = pxNext m n"
    and "\<And>n. n \<in> set (as @ [y]) \<Longrightarrow> pxPrevious m' n = pxPrevious m n"
  shows "link m' x as y = link m x as y"
  using assms by (induction as arbitrary: x) auto

lemma link_split:
  "link m x (as @ bs) y \<longleftrightarrow> link m x as (hd (bs @ [y])) \<and> link m (last (x # as)) bs y"
proof (induction as arbitrary: x)
  case Nil
  then show ?case by (cases bs) auto
qed auto

lemma link_last_edge:
  "link m x as u \<Longrightarrow> pxNext m (last (x # as)) = Some u \<and> pxPrevious m u = Some (last (x # as))"
  by (induction as arbitrary: x) auto

lemma link_retarget:
  assumes "link m x as u" "distinct (x # as)"
    and "pxNext m' (last (x # as)) = Some v" "pxPrevious m' v = Some (last (x # as))"
    and "\<And>n. n \<in> set (x # as) \<Longrightarrow> n \<noteq> last (x # as) \<Longrightarrow> pxNext m' n = pxNext m n"
    and "\<And>n. n \<in> set as \<Longrightarrow> pxPrevious m' n = pxPrevious m n"
  shows "link m' x as v"
  using assms
proof (induction as arbitrary: x)
  case Nil
  then show ?case by simp
next
  case (Cons a as)
  have "link m' a as v"
    by (rule Cons.IH) (use Cons.prems in auto)
  moreover have "x \<noteq> last (a # as)"
    using Cons.prems(2) by (metis distinct.simps(2) last_in_set list.distinct(1))
  ultimately show ?case using Cons.prems by auto
qed

lemma link_restart:
  assumes "link m u bs y" "distinct bs"
    and "pxNext m' v = Some (hd (bs @ [y]))" "pxPrevious m' (hd (bs @ [y])) = Some v"
    and "\<And>n. n \<in> set bs \<Longrightarrow> pxNext m' n = pxNext m n"
    and "\<And>n. n \<in> set (tl (bs @ [y])) \<Longrightarrow> pxPrevious m' n = pxPrevious m n"
  shows "link m' v bs y"
proof (cases bs)
  case Nil
  with assms show ?thesis by simp
next
  case (Cons b bs')
  with assms have "link m' b bs' y = link m b bs' y"
    by (intro link_cong) auto
  with Cons assms show ?thesis by simp
qed

text \<open>A new node between the last node of \<open>as\<close> and the first of \<open>bs\<close>.\<close>

lemma link_insert:
  assumes l: "link m x (as @ bs) y"
    and d: "distinct (as @ bs)" "x \<notin> set (as @ bs)" "y \<notin> set (as @ bs)"
    and i: "i \<notin> set (x # y # as @ bs)"
    and nx: "pxNext m' = (pxNext m)(last (x # as) := Some i, i := Some (hd (bs @ [y])))"
    and pv: "pxPrevious m' = (pxPrevious m)(hd (bs @ [y]) := Some i, i := Some (last (x # as)))"
  shows "link m' x (as @ i # bs) y"
proof -
  let ?z = "last (x # as)" and ?w = "hd (bs @ [y])"
  have z: "?z \<in> set (x # as)" by (rule last_in_set) simp
  have w: "?w \<in> set (bs @ [y])" by (rule hd_in_set) simp
  from l have l1: "link m x as ?w" and l2: "link m ?z bs y"
    by (simp_all add: link_split)
  have 1: "link m' x as i"
    by (rule link_retarget [OF l1]) (use d i nx pv z w in auto)
  have tl: "?w \<notin> set (tl (bs @ [y]))" using d by (cases bs) auto
  have tl': "set (tl (bs @ [y])) \<subseteq> set (bs @ [y])" by (cases bs) auto
  have 2: "link m' i bs y"
    by (rule link_restart [OF l2]) (use d i nx pv z w tl tl' in auto)
  have "i \<noteq> ?z" using i z by auto
  then have "pxNext m' ?z = Some i" "pxPrevious m' i = Some ?z" by (simp_all add: nx pv)
  with 1 2 show ?thesis by (simp add: link_split [of m' x as "i # bs"])
qed

text \<open>Unlinking the node after \<open>as\<close>.\<close>

lemma link_remove:
  assumes l: "link m x (as @ i # bs) y"
    and d: "distinct (as @ i # bs)" "x \<notin> set (as @ i # bs)" "y \<notin> set (as @ i # bs)"
    and nx: "pxNext m' = (pxNext m)(last (x # as) := Some (hd (bs @ [y])))"
    and pv: "pxPrevious m' = (pxPrevious m)(hd (bs @ [y]) := Some (last (x # as)))"
  shows "link m' x (as @ bs) y"
proof -
  let ?z = "last (x # as)" and ?w = "hd (bs @ [y])"
  have z: "?z \<in> set (x # as)" by (rule last_in_set) simp
  have w: "?w \<in> set (bs @ [y])" by (rule hd_in_set) simp
  from l have l1: "link m x as i" and l2: "link m i bs y"
    by (simp_all add: link_split [of m x as "i # bs"])
  have 1: "link m' x as ?w"
    by (rule link_retarget [OF l1]) (use d nx pv z w in auto)
  have tl: "?w \<notin> set (tl (bs @ [y]))" using d by (cases bs) auto
  have tl': "set (tl (bs @ [y])) \<subseteq> set (bs @ [y])" by (cases bs) auto
  have 2: "link m' ?z bs y"
    by (rule link_restart [OF l2]) (use d nx pv z w tl tl' in auto)
  from 1 2 show ?thesis by (simp add: link_split [of m' x as bs])
qed

section \<open>Refinement of the operations\<close>

text \<open>What an operation on list \<open>l\<close> and item \<open>i\<close> leaves alone.\<close>

definition list_frame :: "nat \<Rightarrow> nat set \<Rightarrow> list_mem \<Rightarrow> list_mem \<Rightarrow> bool" where
  "list_frame l S m m' \<longleftrightarrow>
     xItemValue m' = xItemValue m \<and> pvOwner m' = pvOwner m \<and>
     (\<forall>l'. l' \<noteq> l \<longrightarrow> pxNext m' (ListEnd l') = pxNext m (ListEnd l') \<and>
        pxPrevious m' (ListEnd l') = pxPrevious m (ListEnd l') \<and>
        uxNumberOfItems m' l' = uxNumberOfItems m l' \<and> pxIndex m' l' = pxIndex m l') \<and>
     (\<forall>i. i \<notin> S \<longrightarrow> pxNext m' (Item i) = pxNext m (Item i) \<and>
        pxPrevious m' (Item i) = pxPrevious m (Item i) \<and>
        pvContainer m' (Item i) = pvContainer m (Item i))"

lemma list_repr_frame:
  assumes f: "list_frame l S m m'" and r: "list_repr m l' ys" and ne: "l' \<noteq> l"
    and d: "S \<inter> set ys = {}"
    and c: "\<And>i. i \<in> S \<Longrightarrow> pvContainer m' (Item i) \<noteq> Some l'"
  shows "list_repr m' l' ys"
proof -
  have "link m' (ListEnd l') (map Item ys) (ListEnd l') =
        link m (ListEnd l') (map Item ys) (ListEnd l')"
    by (rule link_cong) (use f ne d in \<open>auto simp: list_frame_def\<close>)
  moreover have "pvContainer m' (Item i) = Some l' \<longleftrightarrow> i \<in> set ys" for i
    using f r d c [of i] by (cases "i \<in> S") (auto simp: list_frame_def list_repr_def)
  ultimately show ?thesis using f r ne by (simp add: list_repr_def list_frame_def)
qed

lemma list_repr_container:
  "list_repr m l xs \<Longrightarrow> pvContainer m (Item i) = Some l \<longleftrightarrow> i \<in> set xs"
  by (simp add: list_repr_def)

lemma list_repr_fresh:
  "list_repr m l xs \<Longrightarrow> pvContainer m (Item i) = None \<Longrightarrow> i \<notin> set xs"
  by (metis list_repr_container option.distinct(1))

lemma list_repr_disjoint:
  "list_repr m l xs \<Longrightarrow> list_repr m l' ys \<Longrightarrow> l' \<noteq> l \<Longrightarrow> set xs \<inter> set ys = {}"
  by (metis disjoint_iff list_repr_container option.inject)

lemma list_repr_links:
  assumes "list_repr m l (as @ bs)"
  shows "pxNext m (last (ListEnd l # map Item as)) = Some (hd (map Item bs @ [ListEnd l]))"
    and "pxPrevious m (hd (map Item bs @ [ListEnd l])) = Some (last (ListEnd l # map Item as))"
  using assms link_last_edge [of m "ListEnd l" "map Item as"]
  by (simp_all add: list_repr_def link_split [of m "ListEnd l" "map Item as"] del: last.simps)

lemma last_item_in: "last (ListEnd l # map Item as) \<in> insert (ListEnd l) (Item ` set as)"
  by (induction as arbitrary: l rule: rev_induct) auto

lemma hd_item_in: "hd (map Item bs @ [ListEnd l]) \<in> insert (ListEnd l) (Item ` set bs)"
  by (cases bs) auto

lemma splice_ends_ne:
  assumes "i \<notin> set (as @ bs)"
  shows "last (ListEnd l # map Item as) \<noteq> Item i" "hd (map Item bs @ [ListEnd l]) \<noteq> Item i"
  using assms last_item_in [of l as] hd_item_in [of bs l] by (auto simp del: last.simps)

text \<open>The insertion both operations end with.\<close>

definition splice :: "nat \<Rightarrow> nat \<Rightarrow> node \<Rightarrow> node \<Rightarrow> list_mem \<Rightarrow> list_mem" where
  "splice l i z w m =
     m\<lparr>pxNext := (pxNext m)(z := Some (Item i), Item i := Some w),
       pxPrevious := (pxPrevious m)(w := Some (Item i), Item i := Some z),
       pvContainer := (pvContainer m)(Item i := Some l),
       uxNumberOfItems := (uxNumberOfItems m)(l := uxNumberOfItems m l + 1)\<rparr>"

lemma splice_repr:
  assumes r: "list_repr m l (as @ bs)" and c: "pvContainer m (Item i) = None"
  defines "m' \<equiv> splice l i (last (ListEnd l # map Item as)) (hd (map Item bs @ [ListEnd l])) m"
  shows "list_repr m' l (as @ i # bs)" and "list_frame l (insert i (set (as @ bs))) m m'"
proof -
  from r c have i: "i \<notin> set (as @ bs)" by (rule list_repr_fresh)
  have "link m' (ListEnd l) (map Item as @ Item i # map Item bs) (ListEnd l)"
    by (rule link_insert [where m = m])
       (use r i in \<open>auto simp: list_repr_def distinct_map inj_on_def m'_def splice_def\<close>)
  then show "list_repr m' l (as @ i # bs)"
    using r i c by (auto simp: list_repr_def m'_def splice_def)
  show "list_frame l (insert i (set (as @ bs))) m m'"
    using last_item_in [of l as] hd_item_in [of bs l]
    by (auto simp: list_frame_def m'_def splice_def)
qed

text \<open>The two halves of the current list at a position of the index.\<close>

definition ins_at_index :: "node \<Rightarrow> nat \<Rightarrow> nat list \<Rightarrow> nat list" where
  "ins_at_index n i xs =
     takeWhile (\<lambda>j. Item j \<noteq> n) xs @ i # dropWhile (\<lambda>j. Item j \<noteq> n) xs"

lemma ins_at_index_end [simp]: "ins_at_index (ListEnd l) i xs = xs @ [i]"
  by (simp add: ins_at_index_def takeWhile_all dropWhile_none)

lemma index_hd:
  assumes "n \<in> insert (ListEnd l) (Item ` set xs)"
  shows "hd (map Item (dropWhile (\<lambda>j. Item j \<noteq> n) xs) @ [ListEnd l]) = n"
proof (cases n)
  case (ListEnd l')
  with assms show ?thesis by (auto simp: dropWhile_none)
next
  case (Item j)
  with assms have "j \<in> set xs" by auto
  then show ?thesis using Item by (induction xs) auto
qed

lemma vListInsertEnd_splice:
  assumes r: "list_repr m l (as @ bs)" and c: "pvContainer m (Item i) = None"
    and idx: "pxIndex m l = Some (hd (map Item bs @ [ListEnd l]))"
  shows "vListInsertEnd l i m =
     Some (splice l i (last (ListEnd l # map Item as)) (hd (map Item bs @ [ListEnd l])) m)"
proof -
  let ?z = "last (ListEnd l # map Item as)" and ?w = "hd (map Item bs @ [ListEnd l])"
  from r c have i: "i \<notin> set (as @ bs)" by (rule list_repr_fresh)
  note ne = splice_ends_ne [OF this, of l]
  show ?thesis
    using idx list_repr_links(2) [OF r] ne
    by (simp add: vListInsertEnd_def mem_setters splice_def fun_upd_twist del: last.simps)
qed

text \<open>\<open>vListInsertEnd\<close> puts the item just before the index, so it is visited last.\<close>

lemma vListInsertEnd_refines:
  assumes r: "list_repr m l xs" and c: "pvContainer m (Item i) = None"
    and idx: "pxIndex m l = Some n"
  shows "\<exists>m'. vListInsertEnd l i m = Some m' \<and> list_repr m' l (ins_at_index n i xs) \<and>
    list_frame l (insert i (set xs)) m m' \<and> pxIndex m' l = pxIndex m l"
proof -
  let ?as = "takeWhile (\<lambda>j. Item j \<noteq> n) xs" and ?bs = "dropWhile (\<lambda>j. Item j \<noteq> n) xs"
  from r have r': "list_repr m l (?as @ ?bs)" by simp
  from r idx have "n \<in> insert (ListEnd l) (Item ` set xs)" by (auto simp: list_repr_def)
  then have n: "hd (map Item ?bs @ [ListEnd l]) = n" by (rule index_hd)
  from idx n vListInsertEnd_splice [OF r' c] splice_repr [OF r' c] show ?thesis
    by (auto simp: ins_at_index_def splice_def)
qed

lemma insert_walk_link:
  assumes "link m x (as @ bs) y" "\<And>n. n \<in> set as \<Longrightarrow> xItemValue m n \<le> v"
    and "v < xItemValue m (hd (bs @ [y]))"
  shows "insert_walk v m x = Some (last (x # as))"
  using assms
proof (induction as arbitrary: x)
  case Nil
  then have "pxNext m x = Some (hd (bs @ [y]))" by (cases bs) auto
  moreover have "\<not> xItemValue m (hd (bs @ [y])) \<le> v" using Nil.prems by (simp add: not_le)
  ultimately show ?case by (simp add: insert_walk.simps [of v m x])
next
  case (Cons a as)
  then have "insert_walk v m a = Some (last (a # as))" by simp
  with Cons.prems show ?case by (simp add: insert_walk.simps [of v m x])
qed

lemma vListInsert_walk:
  fixes i :: nat
  assumes r: "list_repr m l xs"
  defines "as \<equiv> takeWhile (\<lambda>j. item_key m j \<le> item_key m i) xs"
    and "bs \<equiv> dropWhile (\<lambda>j. item_key m j \<le> item_key m i) xs"
  shows "(if item_key m i = portMAX_DELAY then pxPrevious m (ListEnd l)
          else insert_walk (item_key m i) m (ListEnd l)) = Some (last (ListEnd l # map Item as))"
proof (cases "item_key m i = portMAX_DELAY")
  case True
  then have "as = xs" "bs = []" by (simp_all add: as_def bs_def takeWhile_all dropWhile_none)
  with True r list_repr_links(2) [of m l xs "[]"] show ?thesis by simp
next
  case False
  have "xs = as @ bs" by (simp add: as_def bs_def)
  with r have l: "link m (ListEnd l) (map Item as @ map Item bs) (ListEnd l)"
    by (simp add: list_repr_def)
  have le: "xItemValue m n \<le> item_key m i" if "n \<in> set (map Item as)" for n
    using that by (auto simp: as_def item_key_def dest: set_takeWhileD)
  have "item_key m i < item_key m j" if "bs = j # bs'" for j bs'
    using that unfolding bs_def dropWhile_eq_Cons_conv by (meson not_le)
  moreover have "item_key m i < portMAX_DELAY"
    using False by (simp add: order_less_le)
  ultimately have "item_key m i < xItemValue m (hd (map Item bs @ [ListEnd l]))"
    using r by (cases bs) (auto simp: item_key_def list_repr_def)
  from insert_walk_link [OF l le this] False show ?thesis by simp
qed

lemma vListInsert_refines:
  assumes r: "list_repr m l xs" and c: "pvContainer m (Item i) = None"
  shows "\<exists>m'. vListInsert l i m = Some m' \<and> list_repr m' l (ins_by (item_key m) i xs) \<and>
    list_frame l (insert i (set xs)) m m' \<and> pxIndex m' l = pxIndex m l"
proof -
  let ?as = "takeWhile (\<lambda>j. item_key m j \<le> item_key m i) xs"
    and ?bs = "dropWhile (\<lambda>j. item_key m j \<le> item_key m i) xs"
  let ?z = "last (ListEnd l # map Item ?as)" and ?w = "hd (map Item ?bs @ [ListEnd l])"
  from r have r': "list_repr m l (?as @ ?bs)" by simp
  have i: "i \<notin> set (?as @ ?bs)" using list_repr_fresh [OF r c] by simp
  note ne = splice_ends_ne [OF this, of l]
  have w: "(if xItemValue m (Item i) = portMAX_DELAY then pxPrevious m (ListEnd l)
           else insert_walk (xItemValue m (Item i)) m (ListEnd l)) = Some ?z"
    using vListInsert_walk [OF r, of i] unfolding item_key_def [of m i] .
  have "vListInsert l i m = Some (splice l i ?z ?w m)"
    unfolding vListInsert_def Let_def w using list_repr_links(1) [OF r'] ne
    by (simp add: mem_setters splice_def fun_upd_twist del: last.simps)
  with splice_repr [OF r' c] show ?thesis by (auto simp: ins_by_def splice_def)
qed

lemma uxListRemove_refines:
  assumes r: "list_repr m l (as @ i # bs)"
  shows "\<exists>m'. uxListRemove i m = Some (of_nat (length as + length bs), m') \<and>
    list_repr m' l (as @ bs) \<and> list_frame l (insert i (set (as @ bs))) m m' \<and>
    pvContainer m' (Item i) = None \<and>
    pxIndex m' l = (if pxIndex m l = Some (Item i) then Some (last (ListEnd l # map Item as))
                    else pxIndex m l)"
proof -
  let ?z = "last (ListEnd l # map Item as)" and ?w = "hd (map Item bs @ [ListEnd l])"
  define m' where "m' = m\<lparr>
       pxPrevious := (pxPrevious m)(?w := Some ?z), pxNext := (pxNext m)(?z := Some ?w),
       pxIndex := (pxIndex m)(l := if pxIndex m l = Some (Item i) then Some ?z else pxIndex m l),
       pvContainer := (pvContainer m)(Item i := None),
       uxNumberOfItems := (uxNumberOfItems m)(l := uxNumberOfItems m l - 1)\<rparr>"
  from r have d: "i \<notin> set (as @ bs)" by (simp add: list_repr_def)
  note ne = splice_ends_ne [OF this, of l]
  have e1: "pxPrevious m (Item i) = Some ?z" "pxNext m (Item i) = Some ?w"
    using list_repr_links(2) [of m l as "i # bs"] list_repr_links(1) [of m l "as @ [i]" bs] r
    by simp_all
  have "pvContainer m (Item i) = Some l" using r by (simp add: list_repr_container [OF r])
  then have 1: "uxListRemove i m = Some (uxNumberOfItems m l - 1, m')"
    using e1 ne by (simp add: uxListRemove_def mem_setters m'_def del: last.simps)
  have "link m' (ListEnd l) (map Item as @ map Item bs) (ListEnd l)"
    by (rule link_remove [where m = m and i = "Item i"])
       (use r in \<open>auto simp: list_repr_def distinct_map inj_on_def m'_def\<close>)
  then have 2: "list_repr m' l (as @ bs)"
    using r d last_item_in [of l as] by (auto simp: list_repr_def m'_def)
  have 3: "list_frame l (insert i (set (as @ bs))) m m'"
    using last_item_in [of l as] hd_item_in [of bs l] by (auto simp: list_frame_def m'_def)
  have "uxNumberOfItems m l - 1 = of_nat (length as + length bs)"
    using r by (simp add: list_repr_def)
  with 1 2 3 show ?thesis by (simp add: m'_def)
qed

text \<open>An initialised list is empty, whatever the memory held, unless items name it already.\<close>

lemma vListInitialise_repr:
  assumes "\<And>i. pvContainer m (Item i) \<noteq> Some l"
  shows "list_repr (vListInitialise l m) l []"
  using assms by (simp add: list_repr_def vListInitialise_def mem_setters)

lemma vListInitialise_other:
  assumes "list_repr m l' xs" "l' \<noteq> l"
  shows "list_repr (vListInitialise l m) l' xs"
proof -
  have "link (vListInitialise l m) (ListEnd l') (map Item xs) (ListEnd l') =
        link m (ListEnd l') (map Item xs) (ListEnd l')"
    by (rule link_cong) (use assms(2) in \<open>auto simp: vListInitialise_def mem_setters\<close>)
  with assms show ?thesis by (simp add: list_repr_def vListInitialise_def mem_setters)
qed

lemma vListInitialise_simps [simp]:
  "pvContainer (vListInitialise l m) = pvContainer m"
  "pvOwner (vListInitialise l m) = pvOwner m"
  "xItemValue (vListInitialise l m) (Item i) = xItemValue m (Item i)"
  "item_key (vListInitialise l m) = item_key m"
  by (simp_all add: vListInitialise_def mem_setters item_key_def fun_eq_iff)

section \<open>The contract of an ordered list\<close>

lemma remove1_ins_by: "i \<notin> set xs \<Longrightarrow> remove1 i (ins_by key i xs) = xs"
proof -
  assume i: "i \<notin> set xs"
  have "i \<notin> set (takeWhile (\<lambda>j. key j \<le> key i) xs)" using i by (meson set_takeWhileD)
  then show ?thesis by (simp add: ins_by_def remove1_append)
qed

lemma mset_ins_by [simp]: "mset (ins_by key i xs) = add_mset i (mset xs)"
  by (induction xs) (simp_all add: ins_by_def)

definition ins_all :: "('a \<Rightarrow> 'k::linorder) \<Rightarrow> 'a list \<Rightarrow> 'a list \<Rightarrow> 'a list" where
  "ins_all key is xs = fold (ins_by key) is xs"

lemma ins_all_simps [simp]:
  "ins_all key [] xs = xs" "ins_all key (i # is) xs = ins_all key is (ins_by key i xs)"
  by (simp_all add: ins_all_def)

lemma mset_ins_all: "mset (ins_all key is xs) = mset is + mset xs"
  by (induction "is" arbitrary: xs) simp_all

lemma set_ins_all [simp]: "set (ins_all key is xs) = set is \<union> set xs"
  by (induction "is" arbitrary: xs) auto

lemma sorted_ins_all:
  "sorted_wrt (\<lambda>a b. key a \<le> key b) xs \<Longrightarrow> sorted_wrt (\<lambda>a b. key a \<le> key b) (ins_all key is xs)"
  by (induction "is" arbitrary: xs) (auto intro: sorted_wrt_ins_by)

text \<open>Items with one key stay in the order of their insertion.\<close>

lemma filter_ins_by:
  assumes "sorted_wrt (\<lambda>a b. key a \<le> key b) xs"
  shows "filter (\<lambda>j. key j = k) (ins_by key i xs) =
    filter (\<lambda>j. key j = k) xs @ (if key i = k then [i] else [])"
  using assms
proof (induction xs)
  case Nil
  then show ?case by (simp add: ins_by_def)
next
  case (Cons a xs)
  show ?case
  proof (cases "key a \<le> key i")
    case True
    then have "ins_by key i (a # xs) = a # ins_by key i xs" by (simp add: ins_by_def)
    with Cons show ?thesis by simp
  next
    case False
    then have e: "ins_by key i (a # xs) = i # a # xs" by (simp add: ins_by_def)
    have "key j \<noteq> key i" if "j \<in> set (a # xs)" for j
      using that Cons.prems False by fastforce
    then have "filter (\<lambda>j. key j = key i) (a # xs) = []"
      by (simp add: filter_empty_conv del: filter.simps)
    then show ?thesis unfolding e by (cases "key i = k") simp_all
  qed
qed

lemma filter_ins_all:
  assumes "sorted_wrt (\<lambda>a b. key a \<le> key b) xs"
  shows "filter (\<lambda>j. key j = k) (ins_all key is xs) =
    filter (\<lambda>j. key j = k) xs @ filter (\<lambda>j. key j = k) is"
  using assms
  by (induction "is" arbitrary: xs) (simp_all add: filter_ins_by sorted_wrt_ins_by)

locale ordered_list =
  fixes rep :: "'m \<Rightarrow> 'i list \<Rightarrow> bool"
    and key :: "'m \<Rightarrow> 'i \<Rightarrow> 'k::linorder"
    and free :: "'m \<Rightarrow> 'i \<Rightarrow> bool"
    and ins :: "'i \<Rightarrow> 'm \<Rightarrow> 'm option"
    and del :: "'i \<Rightarrow> 'm \<Rightarrow> 'm option"
  assumes ins: "rep m xs \<Longrightarrow> free m i \<Longrightarrow>
      \<exists>m'. ins i m = Some m' \<and> rep m' (ins_by (key m) i xs) \<and> key m' = key m \<and>
        (\<forall>j. free m' j \<longleftrightarrow> free m j \<and> j \<noteq> i)"
    and del: "rep m xs \<Longrightarrow> i \<in> set xs \<Longrightarrow>
      \<exists>m'. del i m = Some m' \<and> rep m' (remove1 i xs) \<and> key m' = key m \<and>
        (\<forall>j. free m' j \<longleftrightarrow> free m j \<or> j = i)"
    and free_not_in: "rep m xs \<Longrightarrow> free m i \<Longrightarrow> i \<notin> set xs"
begin

lemma insert_many:
  assumes "rep m xs" "distinct is" "\<And>i. i \<in> set is \<Longrightarrow> free m i"
  shows "\<exists>m'. fold_opt ins is m = Some m' \<and> rep m' (ins_all (key m) is xs) \<and> key m' = key m"
  using assms
proof (induction "is" arbitrary: m xs)
  case (Cons i "is")
  from ins [OF Cons.prems(1), of i] Cons.prems(3) obtain m1 where
    1: "ins i m = Some m1" "rep m1 (ins_by (key m) i xs)" "key m1 = key m"
      "\<And>j. free m1 j \<longleftrightarrow> free m j \<and> j \<noteq> i"
    by auto
  have "\<exists>m'. fold_opt ins is m1 = Some m' \<and>
      rep m' (ins_all (key m1) is (ins_by (key m) i xs)) \<and> key m' = key m1"
    by (rule Cons.IH [OF 1(2)]) (use Cons.prems 1(4) in auto)
  with 1 show ?case by auto
qed simp

lemma insert_delete:
  assumes r: "rep m xs" and f: "free m i"
  shows "\<exists>m1 m2. ins i m = Some m1 \<and> del i m1 = Some m2 \<and> rep m2 xs \<and> free m2 i"
proof -
  from ins [OF r f] obtain m1 where
    1: "ins i m = Some m1" "rep m1 (ins_by (key m) i xs)" by blast
  from del [OF 1(2), of i] obtain m2 where
    "del i m1 = Some m2" "rep m2 (remove1 i (ins_by (key m) i xs))" "free m2 i" by auto
  with 1 free_not_in [OF r f] show ?thesis by (simp add: remove1_ins_by)
qed

end

text \<open>The kernel's lists keep the contract, each list \<open>l\<close> of the memory on its own.\<close>

definition unlisted :: "list_mem \<Rightarrow> nat \<Rightarrow> bool" where
  "unlisted m i \<longleftrightarrow> pvContainer m (Item i) = None"

definition remove_item :: "nat \<Rightarrow> list_mem \<Rightarrow> list_mem option" where
  "remove_item i m = map_option snd (uxListRemove i m)"

lemma list_frame_keys: "list_frame l S m m' \<Longrightarrow> item_key m' = item_key m"
  by (simp add: list_frame_def item_key_def fun_eq_iff)

lemma list_frame_unlisted:
  assumes "list_frame l S m m'" "list_repr m' l ys" "j \<notin> S \<or> j \<in> set ys"
  shows "unlisted m' j \<longleftrightarrow> (if j \<in> S then False else unlisted m j)"
  using assms list_repr_container [OF assms(2), of j] by (auto simp: unlisted_def list_frame_def)

interpretation klist: ordered_list "\<lambda>m. list_repr m l" item_key unlisted "vListInsert l" remove_item
  for l :: nat
proof
  fix m xs i
  assume r: "list_repr m l xs" and f: "unlisted m i"
  from vListInsert_refines [OF r] f obtain m' where
    1: "vListInsert l i m = Some m'" "list_repr m' l (ins_by (item_key m) i xs)"
      "list_frame l (insert i (set xs)) m m'" by (auto simp: unlisted_def)
  have "unlisted m' j \<longleftrightarrow> unlisted m j \<and> j \<noteq> i" for j
    using list_frame_unlisted [OF 1(3,2), of j] list_repr_container [OF r, of j]
    by (auto simp: unlisted_def split: if_splits)
  with 1 list_frame_keys [OF 1(3)] show "\<exists>m'. vListInsert l i m = Some m' \<and>
      list_repr m' l (ins_by (item_key m) i xs) \<and> item_key m' = item_key m \<and>
      (\<forall>j. unlisted m' j \<longleftrightarrow> unlisted m j \<and> j \<noteq> i)" by blast
next
  fix m xs i
  assume r: "list_repr m l xs" and i: "i \<in> set xs"
  from i obtain as bs where xs: "xs = as @ i # bs" "i \<notin> set as" by (meson split_list_first)
  from uxListRemove_refines [of m l as i bs] r xs obtain n m' where
    1: "uxListRemove i m = Some (n, m')" "list_repr m' l (as @ bs)"
      "list_frame l (insert i (set (as @ bs))) m m'" "pvContainer m' (Item i) = None" by auto
  have d: "distinct xs" using r by (simp add: list_repr_def)
  have "unlisted m' j \<longleftrightarrow> unlisted m j \<or> j = i" for j
  proof (cases "j = i")
    case True
    with 1(4) show ?thesis by (simp add: unlisted_def)
  next
    case False
    then show ?thesis
      using list_frame_unlisted [OF 1(3,2), of j] list_repr_container [OF r, of j] xs
      by (auto simp: unlisted_def)
  qed
  moreover have "remove1 i xs = as @ bs" using xs by (simp add: remove1_append)
  ultimately show "\<exists>m'. remove_item i m = Some m' \<and> list_repr m' l (remove1 i xs) \<and>
      item_key m' = item_key m \<and> (\<forall>j. unlisted m' j \<longleftrightarrow> unlisted m j \<or> j = i)"
    using 1 list_frame_keys [OF 1(3)] by (auto simp: remove_item_def)
next
  fix m xs i
  assume "list_repr m l xs" "unlisted m i"
  then show "i \<notin> set xs" by (auto simp: unlisted_def dest: list_repr_fresh)
qed

section \<open>Properties of the list operations\<close>

definition empty_mem :: list_mem where
  "empty_mem = \<lparr>xItemValue = (\<lambda>n. case n of ListEnd _ \<Rightarrow> 0 | Item i \<Rightarrow> of_nat (i mod 3)),
    pxNext = (\<lambda>_. None), pxPrevious = (\<lambda>_. None), pvOwner = (\<lambda>_. None), pvContainer = (\<lambda>_. None),
    uxNumberOfItems = (\<lambda>_. 0), pxIndex = (\<lambda>_. None)\<rparr>"

text \<open>
  Inserting items one after another into a freshly initialised list always
  returns (the walk of \<open>vListInsert\<close> ends), and leaves a well-formed doubly linked list
  that holds exactly those items in the order of their values; items with the
  same value stay in the order in which they were inserted.\<close>

theorem vListInsert_sorts:
  assumes "distinct is" and "\<And>i. i \<in> set is \<Longrightarrow> pvContainer m (Item i) = None"
    and "\<And>i. pvContainer m (Item i) \<noteq> Some l"
  shows "\<exists>m' xs. fold_opt (vListInsert l) is (vListInitialise l m) = Some m' \<and> list_repr m' l xs \<and>
    mset xs = mset is \<and> sorted_wrt (\<lambda>i j. item_key m i \<le> item_key m j) xs \<and>
    (\<forall>v. filter (\<lambda>i. item_key m i = v) xs = filter (\<lambda>i. item_key m i = v) is)"
proof -
  let ?xs = "ins_all (item_key m) is []"
  have "list_repr (vListInitialise l m) l []" by (rule vListInitialise_repr) (rule assms(3))
  from klist.insert_many [OF this assms(1)] assms(2) obtain m' where
    "fold_opt (vListInsert l) is (vListInitialise l m) = Some m'" "list_repr m' l ?xs"
    by (auto simp: unlisted_def)
  moreover have "sorted_wrt (\<lambda>i j. item_key m i \<le> item_key m j) ?xs" by (rule sorted_ins_all) simp
  ultimately show ?thesis by (auto simp: mset_ins_all filter_ins_all)
qed

theorem vListInsert_sorts_witness:
  "\<exists>m' xs. fold_opt (vListInsert 0) [5, 4, 3, 2, 1] (vListInitialise 0 empty_mem) = Some m' \<and>
    list_repr m' 0 xs \<and> mset xs = mset [5, 4, 3, 2, 1] \<and>
    sorted_wrt (\<lambda>i j. item_key empty_mem i \<le> item_key empty_mem j) xs \<and>
    (\<forall>v. filter (\<lambda>i. item_key empty_mem i = v) xs =
         filter (\<lambda>i. item_key empty_mem i = v) [5, 4, 3, 2, 1])"
  by (rule vListInsert_sorts) (simp_all add: empty_mem_def)

text \<open>
  \<open>uxListRemove\<close> takes exactly one item out of its list, wherever it stands: it returns the
  new length, the other items keep their order, the item belongs to no list any more, an index that
  stood on the item moves to the item before it, and every other list is untouched.\<close>

theorem uxListRemove_correct:
  assumes "list_repr m l (as @ i # bs)" "list_repr m k ys" "k \<noteq> l"
  shows "\<exists>m'. uxListRemove i m = Some (of_nat (length (as @ bs)), m') \<and>
    list_repr m' l (as @ bs) \<and> list_repr m' k ys \<and> pvContainer m' (Item i) = None \<and>
    (pxIndex m l = Some (Item i) \<longrightarrow> pxIndex m' l = Some (last (ListEnd l # map Item as)))"
proof -
  from uxListRemove_refines [OF assms(1)] obtain m' where
    1: "uxListRemove i m = Some (of_nat (length as + length bs), m')" "list_repr m' l (as @ bs)"
      "list_frame l (insert i (set (as @ bs))) m m'" "pvContainer m' (Item i) = None"
      "pxIndex m' l = (if pxIndex m l = Some (Item i) then Some (last (ListEnd l # map Item as))
                       else pxIndex m l)" by blast
  have "set (as @ i # bs) \<inter> set ys = {}" by (rule list_repr_disjoint [OF assms])
  then have "insert i (set (as @ bs)) \<inter> set ys = {}" by auto
  moreover have "pvContainer m' (Item j) \<noteq> Some k" if "j \<in> insert i (set (as @ bs))" for j
    using that 1(4) list_repr_container [OF 1(2), of j] assms(3) by auto
  ultimately have "list_repr m' k ys" by (rule list_repr_frame [OF 1(3) assms(2,3)])
  with 1 show ?thesis by simp
qed

text \<open>Two lists: list 0 with the items 1, 2, 3 and its index on 2; list 9 with the item 4.\<close>

definition two_lists :: list_mem where
  "two_lists = \<lparr>
     xItemValue = (\<lambda>n. case n of ListEnd _ \<Rightarrow> portMAX_DELAY | Item i \<Rightarrow> of_nat i),
     pxNext = [ListEnd 0 \<mapsto> Item 1, Item 1 \<mapsto> Item 2, Item 2 \<mapsto> Item 3, Item 3 \<mapsto> ListEnd 0,
               ListEnd 9 \<mapsto> Item 4, Item 4 \<mapsto> ListEnd 9],
     pxPrevious = [Item 1 \<mapsto> ListEnd 0, Item 2 \<mapsto> Item 1, Item 3 \<mapsto> Item 2, ListEnd 0 \<mapsto> Item 3,
                   Item 4 \<mapsto> ListEnd 9, ListEnd 9 \<mapsto> Item 4],
     pvOwner = [Item 1 \<mapsto> 11, Item 2 \<mapsto> 12, Item 3 \<mapsto> 13, Item 4 \<mapsto> 14],
     pvContainer = [Item 1 \<mapsto> 0, Item 2 \<mapsto> 0, Item 3 \<mapsto> 0, Item 4 \<mapsto> 9],
     uxNumberOfItems = (\<lambda>l. if l = 0 then 3 else if l = 9 then 1 else 0),
     pxIndex = [0 \<mapsto> Item 2, 9 \<mapsto> ListEnd 9]\<rparr>"

lemma two_lists_repr: "list_repr two_lists 0 ([1] @ 2 # [3])" "list_repr two_lists 9 [4]"
  by (auto simp: list_repr_def two_lists_def)

theorem uxListRemove_correct_witness:
  "\<exists>m'. uxListRemove 2 two_lists = Some (of_nat (length ([1] @ [3::nat])), m') \<and>
    list_repr m' 0 ([1] @ [3]) \<and> list_repr m' 9 [4] \<and> pvContainer m' (Item 2) = None \<and>
    (pxIndex two_lists 0 = Some (Item 2) \<longrightarrow>
      pxIndex m' 0 = Some (last (ListEnd 0 # map Item [1])))"
  by (rule uxListRemove_correct [OF two_lists_repr]) simp

text \<open>One step of the index, to the item after the first \<open>k\<close>, cyclically.\<close>

lemma list_repr_index:
  "list_repr m l xs \<Longrightarrow> i \<in> set xs \<Longrightarrow> list_repr (set_index l (Item i) m) l xs"
  using link_cong [of "ListEnd l" "map Item xs" "set_index l (Item i) m" m "ListEnd l"]
  by (simp add: list_repr_def mem_setters)

lemma next_entry_step:
  assumes r: "list_repr m l (as @ i # bs)" and o: "pvOwner m (Item i) = Some w"
    and idx: "pxIndex m l = Some (last (ListEnd l # map Item as)) \<or>
      as = [] \<and> pxIndex m l = Some (last (map Item (i # bs)))"
  shows "listGET_OWNER_OF_NEXT_ENTRY l m = Some (w, set_index l (Item i) m)"
  using idx
proof
  assume "pxIndex m l = Some (last (ListEnd l # map Item as))"
  then show ?thesis
    using list_repr_links(1) [OF r] o
    by (simp add: listGET_OWNER_OF_NEXT_ENTRY_def mem_setters del: last.simps)
next
  assume *: "as = [] \<and> pxIndex m l = Some (last (map Item (i # bs)))"
  with r have r': "list_repr m l ((i # bs) @ [])" by simp
  from * r have "pxNext m (ListEnd l) = Some (Item i)" by (simp add: list_repr_def)
  with * list_repr_links(1) [OF r'] o show ?thesis
    by (simp add: listGET_OWNER_OF_NEXT_ENTRY_def mem_setters)
qed

fun next_owners :: "nat \<Rightarrow> nat \<Rightarrow> list_mem \<Rightarrow> (nat list \<times> list_mem) option" where
  "next_owners 0 l m = Some ([], m)"
| "next_owners (Suc k) l m = do {
     (w, m) \<leftarrow> listGET_OWNER_OF_NEXT_ENTRY l m;
     (ws, m) \<leftarrow> next_owners k l m;
     Some (w # ws, m)
   }"

lemma next_owners_suffix:
  assumes "list_repr m l (as @ bs)" "\<And>i. i \<in> set bs \<Longrightarrow> pvOwner m (Item i) = Some (own i)"
    and "pxIndex m l = Some (last (ListEnd l # map Item as))"
  shows "\<exists>m'. next_owners (length bs) l m = Some (map own bs, m') \<and> list_repr m' l (as @ bs) \<and>
    pvOwner m' = pvOwner m \<and> pxIndex m' l = Some (last (ListEnd l # map Item (as @ bs)))"
  using assms
proof (induction bs arbitrary: as m)
  case (Cons i bs)
  let ?m = "set_index l (Item i) m"
  have s: "listGET_OWNER_OF_NEXT_ENTRY l m = Some (own i, ?m)"
    by (rule next_entry_step [OF Cons.prems(1)]) (use Cons.prems in auto)
  have r: "list_repr ?m l ((as @ [i]) @ bs)"
    using list_repr_index [OF Cons.prems(1), of i] by simp
  have o: "pvOwner ?m = pvOwner m" by (simp add: mem_setters)
  have "\<exists>m'. next_owners (length bs) l ?m = Some (map own bs, m') \<and>
      list_repr m' l ((as @ [i]) @ bs) \<and> pvOwner m' = pvOwner ?m \<and>
      pxIndex m' l = Some (last (ListEnd l # map Item ((as @ [i]) @ bs)))"
    by (rule Cons.IH [OF r]) (use Cons.prems(2) o in \<open>simp_all add: mem_setters\<close>)
  with s o show ?case by auto
qed simp

text \<open>
  Round robin: \<open>listGET_OWNER_OF_NEXT_ENTRY\<close>, called as often as the list has
  items from the index on the end marker, returns the owner of every item exactly once, in
  the order of the list; the call after that starts again at the first item.\<close>

theorem next_entry_round_robin:
  assumes "list_repr m l (i # xs)" "pxIndex m l = Some (ListEnd l)"
    and "\<And>j. j \<in> set (i # xs) \<Longrightarrow> pvOwner m (Item j) = Some (own j)"
  shows "\<exists>m'. next_owners (length (i # xs)) l m = Some (map own (i # xs), m') \<and>
    (\<exists>m''. listGET_OWNER_OF_NEXT_ENTRY l m' = Some (own i, m'') \<and> list_repr m'' l (i # xs))"
proof -
  from next_owners_suffix [of m l "[]" "i # xs" own] assms obtain m' where
    1: "next_owners (length (i # xs)) l m = Some (map own (i # xs), m')"
      "list_repr m' l ([] @ i # xs)" "pvOwner m' = pvOwner m"
      "pxIndex m' l = Some (last (ListEnd l # map Item (i # xs)))" by auto
  have "listGET_OWNER_OF_NEXT_ENTRY l m' = Some (own i, set_index l (Item i) m')"
    by (rule next_entry_step [OF 1(2)]) (use 1(3,4) assms(3) in auto)
  with 1 list_repr_index [of m' l "i # xs" i] show ?thesis by simp
qed

theorem next_entry_round_robin_witness:
  "\<exists>m'. next_owners (length [4::nat]) 9 two_lists = Some (map (\<lambda>j. j + 10) [4], m') \<and>
    (\<exists>m''. listGET_OWNER_OF_NEXT_ENTRY 9 m' = Some (4 + 10, m'') \<and> list_repr m'' 9 [4])"
  by (rule next_entry_round_robin) (use two_lists_repr(2) in \<open>simp_all add: two_lists_def\<close>)

end
