(* ===== verification/Kernel_Items.thy ===== *)
theory Kernel_Items
  imports Kernel_List
begin

text \<open>
  The lists of the scheduler, at the level of their contents.

  \<open>tasks.c\<close> and \<open>queue.c\<close> work on many lists at once.  Here a list is the sequence of its items
  together with the item its index stands on, and the operations of \<open>list.c\<close> are functions on such
  lists.  The simulation at the end of the theory shows that the pointer operations of
  \<open>Kernel_List\<close> do what these functions say, for all lists of the memory together; the theories of
  the scheduler and of the queues use the functions.

  A task has two list items, one for the list of its state and one for the list of the event it
  waits for; their owner is the task.  Inserting an item that is in a list would corrupt that
  list, so it is \<open>None\<close>, as is removing an item that is in none (a null container).
\<close>

section \<open>Items and lists\<close>

datatype item = StateItem nat | EventItem nat

datatype klist =
    Ready nat
  | DelayedTaskList1
  | DelayedTaskList2
  | PendingReadyList
  | TasksWaitingTermination
  | SuspendedTaskList
  | EventList nat

record lists =
  elems :: "klist \<Rightarrow> item list"
  list_index :: "klist \<Rightarrow> item option"
  item_value :: "item \<Rightarrow> u32"
  container :: "item \<Rightarrow> klist option"

fun owner :: "item \<Rightarrow> nat" where
  "owner (StateItem t) = t" | "owner (EventItem t) = t"

definition before_index :: "item option \<Rightarrow> item \<Rightarrow> item list \<Rightarrow> item list" where
  "before_index n i xs =
     takeWhile (\<lambda>j. Some j \<noteq> n) xs @ i # dropWhile (\<lambda>j. Some j \<noteq> n) xs"

definition pred_in :: "item list \<Rightarrow> item \<Rightarrow> item option" where
  "pred_in xs i = (case rev (takeWhile (\<lambda>j. j \<noteq> i) xs) of [] \<Rightarrow> None | j # _ \<Rightarrow> Some j)"

definition list_initialise :: "klist \<Rightarrow> lists \<Rightarrow> lists" where
  "list_initialise l a = a\<lparr>elems := (elems a)(l := []), list_index := (list_index a)(l := None)\<rparr>"

definition list_insert_end :: "klist \<Rightarrow> item \<Rightarrow> lists \<Rightarrow> lists option" where
  "list_insert_end l i a =
     (if container a i = None
      then Some (a\<lparr>elems := (elems a)(l := before_index (list_index a l) i (elems a l)),
                   container := (container a)(i := Some l)\<rparr>)
      else None)"

definition list_insert :: "klist \<Rightarrow> item \<Rightarrow> lists \<Rightarrow> lists option" where
  "list_insert l i a =
     (if container a i = None
      then Some (a\<lparr>elems := (elems a)(l := ins_by (item_value a) i (elems a l)),
                   container := (container a)(i := Some l)\<rparr>)
      else None)"

text \<open>The number of items left is returned.\<close>

definition list_remove :: "item \<Rightarrow> lists \<Rightarrow> (nat \<times> lists) option" where
  "list_remove i a = do {
     l \<leftarrow> container a i;
     let xs = remove1 i (elems a l);
     Some (length xs,
       a\<lparr>elems := (elems a)(l := xs),
         list_index := (list_index a)
           (l := if list_index a l = Some i then pred_in (elems a l) i else list_index a l),
         container := (container a)(i := None)\<rparr>)
   }"

definition list_set_value :: "item \<Rightarrow> u32 \<Rightarrow> lists \<Rightarrow> lists" where
  "list_set_value i v a = a\<lparr>item_value := (item_value a)(i := v)\<rparr>"

definition head_owner :: "klist \<Rightarrow> lists \<Rightarrow> nat option" where
  "head_owner l a = (case elems a l of [] \<Rightarrow> None | i # _ \<Rightarrow> Some (owner i))"

definition next_in :: "item option \<Rightarrow> item list \<Rightarrow> item option" where
  "next_in n xs =
     (case tl (dropWhile (\<lambda>j. Some j \<noteq> n) xs) @ xs of [] \<Rightarrow> None | j # _ \<Rightarrow> Some j)"

definition next_owner :: "klist \<Rightarrow> lists \<Rightarrow> (nat \<times> lists) option" where
  "next_owner l a = do {
     i \<leftarrow> next_in (list_index a l) (elems a l);
     Some (owner i, a\<lparr>list_index := (list_index a)(l := Some i)\<rparr>)
   }"

lemmas list_op_defs = list_insert_end_def list_insert_def list_remove_def list_set_value_def
  list_initialise_def

section \<open>Well-formed lists\<close>

definition lists_ok :: "lists \<Rightarrow> bool" where
  "lists_ok a \<longleftrightarrow>
     (\<forall>l. distinct (elems a l)) \<and>
     (\<forall>i l. container a i = Some l \<longleftrightarrow> i \<in> set (elems a l)) \<and>
     (\<forall>l i. list_index a l = Some i \<longrightarrow> i \<in> set (elems a l))"

lemma set_before_index [simp]: "set (before_index n i xs) = insert i (set xs)"
proof -
  have "set (takeWhile P xs) \<union> set (dropWhile P xs) = set xs" for P
    by (metis set_append takeWhile_dropWhile_id)
  then show ?thesis by (auto simp: before_index_def)
qed

lemma distinct_before_index [simp]:
  "distinct (before_index n i xs) \<longleftrightarrow> i \<notin> set xs \<and> distinct xs"
proof -
  have "mset (before_index n i xs) = mset (i # xs)"
    unfolding before_index_def
    by (metis mset_append mset.simps(2) takeWhile_dropWhile_id union_mset_add_mset_right)
  then show ?thesis by (metis distinct.simps(2) mset_eq_imp_distinct_iff)
qed

lemma distinct_ins_by [simp]: "distinct (ins_by key i xs) \<longleftrightarrow> i \<notin> set xs \<and> distinct xs"
  by (metis distinct.simps(2) mset.simps(2) mset_eq_imp_distinct_iff mset_ins_by)

lemma pred_in_mem: "pred_in xs i = Some j \<Longrightarrow> j \<in> set xs \<and> j \<noteq> i"
  unfolding pred_in_def
  by (metis (mono_tags, lifting) list.case_eq_if list.set_sel(1) option.distinct(1) option.inject
      set_rev set_takeWhileD)

lemma lists_ok_container: "lists_ok a \<Longrightarrow> container a i = Some l \<longleftrightarrow> i \<in> set (elems a l)"
  by (simp add: lists_ok_def)

lemma lists_ok_unlisted: "lists_ok a \<Longrightarrow> container a i = None \<Longrightarrow> i \<notin> set (elems a l)"
  by (metis lists_ok_container option.distinct(1))

lemma lists_ok_unique:
  "lists_ok a \<Longrightarrow> i \<in> set (elems a l) \<Longrightarrow> i \<in> set (elems a l') \<Longrightarrow> l = l'"
  by (metis lists_ok_container option.inject)

lemma lists_ok_distinct: "lists_ok a \<Longrightarrow> distinct (elems a l)"
  by (simp add: lists_ok_def)

lemma list_insert_end_ok:
  assumes "lists_ok a" "container a i = None"
  shows "\<exists>a'. list_insert_end l i a = Some a' \<and> lists_ok a' \<and>
    elems a' = (elems a)(l := before_index (list_index a l) i (elems a l)) \<and>
    list_index a' = list_index a \<and> item_value a' = item_value a \<and>
    container a' = (container a)(i := Some l)"
  using assms lists_ok_unlisted [OF assms]
  by (auto simp: list_insert_end_def lists_ok_def)

lemma list_insert_ok:
  assumes "lists_ok a" "container a i = None"
  shows "\<exists>a'. list_insert l i a = Some a' \<and> lists_ok a' \<and>
    elems a' = (elems a)(l := ins_by (item_value a) i (elems a l)) \<and>
    list_index a' = list_index a \<and> item_value a' = item_value a \<and>
    container a' = (container a)(i := Some l)"
  using assms lists_ok_unlisted [OF assms]
  by (auto simp: list_insert_def lists_ok_def)

lemma list_remove_ok:
  assumes "lists_ok a" "container a i = Some l"
  shows "\<exists>a'. list_remove i a = Some (length (remove1 i (elems a l)), a') \<and> lists_ok a' \<and>
    elems a' = (elems a)(l := remove1 i (elems a l)) \<and> item_value a' = item_value a \<and>
    container a' = (container a)(i := None)"
proof -
  have d: "distinct (elems a l')" for l' using assms(1) by (simp add: lists_ok_def)
  have i: "i \<in> set (elems a l') \<longleftrightarrow> l' = l" for l'
    by (metis assms lists_ok_container option.inject)
  let ?a = "a\<lparr>elems := (elems a)(l := remove1 i (elems a l)),
         list_index := (list_index a)
           (l := if list_index a l = Some i then pred_in (elems a l) i else list_index a l),
         container := (container a)(i := None)\<rparr>"
  have "lists_ok ?a"
    using assms(1) i pred_in_mem [of "elems a l" i]
    by (auto simp: lists_ok_def d)
  then show ?thesis using assms(2) by (simp add: list_remove_def Let_def)
qed

lemma list_set_value_ok: "lists_ok a \<Longrightarrow> lists_ok (list_set_value i v a)"
  by (simp add: lists_ok_def list_set_value_def)

lemma list_set_value_simps [simp]:
  "elems (list_set_value i v a) = elems a" "container (list_set_value i v a) = container a"
  "list_index (list_set_value i v a) = list_index a"
  "item_value (list_set_value i v a) = (item_value a)(i := v)"
  by (simp_all add: list_set_value_def)

lemma next_in_mem:
  assumes "next_in n xs = Some i"
  shows "i \<in> set xs"
proof -
  have "set (tl ys @ xs) \<subseteq> set ys \<union> set xs" for ys by (cases ys) auto
  moreover have "set (dropWhile P xs) \<subseteq> set xs" for P by (meson set_dropWhileD subsetI)
  ultimately have "set (tl (dropWhile (\<lambda>j. Some j \<noteq> n) xs) @ xs) \<subseteq> set xs" by blast
  with assms show ?thesis
    unfolding next_in_def by (metis (no_types, lifting) list.case_eq_if list.set_sel(1)
      option.distinct(1) option.inject subsetD)
qed

lemma next_in_exists: "xs \<noteq> [] \<Longrightarrow> \<exists>i. next_in n xs = Some i"
  by (auto simp: next_in_def split: list.splits)

lemma next_owner_ok:
  assumes "lists_ok a" "elems a l \<noteq> []"
  shows "\<exists>i a'. next_owner l a = Some (owner i, a') \<and> i \<in> set (elems a l) \<and> lists_ok a' \<and>
    elems a' = elems a \<and> item_value a' = item_value a \<and> container a' = container a"
proof -
  from next_in_exists [OF assms(2)] obtain i where i: "next_in (list_index a l) (elems a l) = Some i"
    by blast
  from next_in_mem [OF i] assms(1) i show ?thesis by (auto simp: next_owner_def lists_ok_def)
qed


section \<open>The pointer lists do the same\<close>

text \<open>Addresses of the lists and of the items in the memory of \<open>Kernel_List\<close>.\<close>

fun list_addr :: "klist \<Rightarrow> nat" where
  "list_addr (Ready p) = 2 * p"
| "list_addr DelayedTaskList1 = 1"
| "list_addr DelayedTaskList2 = 3"
| "list_addr PendingReadyList = 5"
| "list_addr TasksWaitingTermination = 7"
| "list_addr SuspendedTaskList = 9"
| "list_addr (EventList n) = 2 * n + 11"

fun item_addr :: "item \<Rightarrow> nat" where
  "item_addr (StateItem t) = 2 * t" | "item_addr (EventItem t) = 2 * t + 1"

fun index_node :: "klist \<Rightarrow> item option \<Rightarrow> node" where
  "index_node l None = ListEnd (list_addr l)"
| "index_node l (Some i) = Item (item_addr i)"

lemma item_addr_inject [simp]: "item_addr i = item_addr j \<longleftrightarrow> i = j"
  by (cases i; cases j) (auto, presburger+)

lemma list_addr_inject [simp]: "list_addr l = list_addr k \<longleftrightarrow> l = k"
  by (cases l; cases k) (auto, presburger+)

definition lists_sim :: "list_mem \<Rightarrow> lists \<Rightarrow> bool" where
  "lists_sim m a \<longleftrightarrow>
     (\<forall>l. list_repr m (list_addr l) (map item_addr (elems a l)) \<and>
          pxIndex m (list_addr l) = Some (index_node l (list_index a l))) \<and>
     (\<forall>i. item_key m (item_addr i) = item_value a i \<and>
          pvContainer m (Item (item_addr i)) = map_option list_addr (container a i) \<and>
          pvOwner m (Item (item_addr i)) = Some (owner i))"

lemma takeWhile_addr:
  "takeWhile (\<lambda>j. Item j \<noteq> index_node l n) (map item_addr xs) =
     map item_addr (takeWhile (\<lambda>j. Some j \<noteq> n) xs)"
  "dropWhile (\<lambda>j. Item j \<noteq> index_node l n) (map item_addr xs) =
     map item_addr (dropWhile (\<lambda>j. Some j \<noteq> n) xs)"
  by (induction xs; cases n; auto)+

lemma ins_at_index_addr:
  "ins_at_index (index_node l n) (item_addr i) (map item_addr xs) =
     map item_addr (before_index n i xs)"
  by (simp add: ins_at_index_def before_index_def takeWhile_addr)

lemma ins_by_addr:
  assumes "\<And>j. f (item_addr j) = g j"
  shows "ins_by f (item_addr i) (map item_addr xs) = map item_addr (ins_by g i xs)"
  by (simp add: ins_by_def takeWhile_map dropWhile_map comp_def assms)

lemma lists_sim_container:
  assumes "lists_sim m a"
  shows "container a i = Some l \<longleftrightarrow> i \<in> set (elems a l)"
proof -
  have r: "list_repr m (list_addr l) (map item_addr (elems a l))"
    and c: "pvContainer m (Item (item_addr i)) = map_option list_addr (container a i)"
    using assms by (simp_all add: lists_sim_def)
  have "container a i = Some l \<longleftrightarrow> pvContainer m (Item (item_addr i)) = Some (list_addr l)"
    unfolding c by (cases "container a i") auto
  also have "\<dots> \<longleftrightarrow> i \<in> set (elems a l)" by (auto simp: list_repr_container [OF r])
  finally show ?thesis .
qed

text \<open>After an operation on the list \<open>l\<close> and the item \<open>i\<close>, the other lists are still related.\<close>

lemma lists_sim_step:
  assumes s: "lists_sim m a"
    and f: "list_frame (list_addr l) (insert (item_addr i) (item_addr ` set (elems a l))) m m'"
    and r: "list_repr m' (list_addr l) (map item_addr (elems a' l))"
    and x: "pxIndex m' (list_addr l) = Some (index_node l (list_index a' l))"
    and o: "\<And>k. k \<noteq> l \<Longrightarrow> elems a' k = elems a k \<and> list_index a' k = list_index a k"
    and v: "item_value a' = item_value a"
    and c: "\<And>j. j \<noteq> i \<Longrightarrow> container a' j = container a j"
    and ci: "container a i \<in> {None, Some l}" "container a' i \<in> {None, Some l}"
      "pvContainer m' (Item (item_addr i)) = map_option list_addr (container a' i)"
    and same: "set (elems a' l) - {i} = set (elems a l) - {i}"
  shows "lists_sim m' a'"
proof -
  have cont: "pvContainer m' (Item (item_addr j)) = map_option list_addr (container a' j)" for j
  proof (cases "j = i")
    case False
    show ?thesis
    proof (cases "j \<in> set (elems a l)")
      case True
      with same False have "item_addr j \<in> set (map item_addr (elems a' l))" by auto
      with r have "pvContainer m' (Item (item_addr j)) = Some (list_addr l)"
        by (simp add: list_repr_container)
      moreover have "container a j = Some l" using True by (simp add: lists_sim_container [OF s])
      ultimately show ?thesis using c [OF False] by simp
    next
      case out: False
      then have "pvContainer m' (Item (item_addr j)) = pvContainer m (Item (item_addr j))"
      proof -
        have "item_addr j \<notin> insert (item_addr i) (item_addr ` set (elems a l))" using out False by auto
        with f show ?thesis unfolding list_frame_def by blast
      qed
      with s c [OF False] show ?thesis by (simp add: lists_sim_def)
    qed
  qed (simp add: ci(3))
  have oth: "list_repr m' (list_addr k) (map item_addr (elems a' k))" if "k \<noteq> l" for k
  proof -
    have rk: "list_repr m (list_addr k) (map item_addr (elems a k))"
      using s by (simp add: lists_sim_def)
    have "item_addr i \<notin> set (map item_addr (elems a k))"
      using ci(1) that lists_sim_container [OF s, of i k] by auto
    moreover have "item_addr ` set (elems a l) \<inter> set (map item_addr (elems a k)) = {}"
      using list_repr_disjoint [of m "list_addr l" "map item_addr (elems a l)" "list_addr k"
          "map item_addr (elems a k)"] s that by (simp add: lists_sim_def)
    ultimately have d: "insert (item_addr i) (item_addr ` set (elems a l)) \<inter>
        set (map item_addr (elems a k)) = {}" by auto
    have "pvContainer m' (Item n) \<noteq> Some (list_addr k)"
      if n: "n \<in> insert (item_addr i) (item_addr ` set (elems a l))" for n
    proof (cases "n = item_addr i")
      case True
      with ci(2,3) \<open>k \<noteq> l\<close> show ?thesis by auto
    next
      case False
      with n obtain j where j: "n = item_addr j" "j \<in> set (elems a l)" "j \<noteq> i" by auto
      with same have "n \<in> set (map item_addr (elems a' l))" by auto
      with r \<open>k \<noteq> l\<close> show ?thesis by (metis list_addr_inject list_repr_container option.inject)
    qed
    from list_repr_frame [OF f rk _ d this] that o [OF that] show ?thesis by simp
  qed
  have idx: "pxIndex m' (list_addr k) = Some (index_node k (list_index a' k))" for k
    using x s o [of k] f by (cases "k = l") (auto simp: lists_sim_def list_frame_def)
  from oth r have "list_repr m' (list_addr k) (map item_addr (elems a' k))" for k
    by (cases "k = l") auto
  with idx cont s v f show ?thesis
    by (simp add: lists_sim_def list_frame_def item_key_def)
qed

lemma list_insert_end_sim:
  assumes s: "lists_sim m a" and a': "list_insert_end l i a = Some a'"
  shows "\<exists>m'. vListInsertEnd (list_addr l) (item_addr i) m = Some m' \<and> lists_sim m' a'"
proof -
  from a' have c: "container a i = None" by (auto simp: list_insert_end_def split: if_splits)
  with s have u: "pvContainer m (Item (item_addr i)) = None" by (simp add: lists_sim_def)
  have r: "list_repr m (list_addr l) (map item_addr (elems a l))"
    and x: "pxIndex m (list_addr l) = Some (index_node l (list_index a l))"
    using s by (simp_all add: lists_sim_def)
  from vListInsertEnd_refines [OF r u x] obtain m' where
    m': "vListInsertEnd (list_addr l) (item_addr i) m = Some m'"
      "list_repr m' (list_addr l) (map item_addr (before_index (list_index a l) i (elems a l)))"
      "list_frame (list_addr l) (insert (item_addr i) (item_addr ` set (elems a l))) m m'"
      "pxIndex m' (list_addr l) = Some (index_node l (list_index a l))"
    by (auto simp: ins_at_index_addr x)
  from m'(2) have "pvContainer m' (Item (item_addr i)) = Some (list_addr l)"
    by (simp add: list_repr_container)
  with m' a' c s have "lists_sim m' a'"
    by (intro lists_sim_step [OF s m'(3)]) (auto simp: list_insert_end_def)
  with m'(1) show ?thesis by blast
qed

lemma list_insert_sim:
  assumes s: "lists_sim m a" and a': "list_insert l i a = Some a'"
  shows "\<exists>m'. vListInsert (list_addr l) (item_addr i) m = Some m' \<and> lists_sim m' a'"
proof -
  from a' have c: "container a i = None" by (auto simp: list_insert_def split: if_splits)
  with s have u: "pvContainer m (Item (item_addr i)) = None" by (simp add: lists_sim_def)
  have r: "list_repr m (list_addr l) (map item_addr (elems a l))"
    and k: "\<And>j. item_key m (item_addr j) = item_value a j"
    and x: "pxIndex m (list_addr l) = Some (index_node l (list_index a l))"
    using s by (simp_all add: lists_sim_def)
  from vListInsert_refines [OF r u] obtain m' where
    m': "vListInsert (list_addr l) (item_addr i) m = Some m'"
      "list_repr m' (list_addr l) (map item_addr (ins_by (item_value a) i (elems a l)))"
      "list_frame (list_addr l) (insert (item_addr i) (item_addr ` set (elems a l))) m m'"
      "pxIndex m' (list_addr l) = Some (index_node l (list_index a l))"
    by (auto simp: ins_by_addr [of "item_key m", OF k] x)
  from m'(2) have "pvContainer m' (Item (item_addr i)) = Some (list_addr l)"
    by (simp add: list_repr_container)
  with m' a' c s have "lists_sim m' a'"
    by (intro lists_sim_step [OF s m'(3)]) (auto simp: list_insert_def)
  with m'(1) show ?thesis by blast
qed

lemma pred_in_node:
  "last (ListEnd (list_addr l) # map Item (map item_addr (takeWhile (\<lambda>j. j \<noteq> i) xs))) =
     index_node l (pred_in xs i)"
  by (cases "takeWhile (\<lambda>j. j \<noteq> i) xs" rule: rev_cases) (simp_all add: pred_in_def)

lemma split_at_first: "i \<in> set xs \<Longrightarrow> \<exists>bs. xs = takeWhile (\<lambda>j. j \<noteq> i) xs @ i # bs"
  by (induction xs) auto

lemma list_remove_sim:
  assumes s: "lists_sim m a" and a': "list_remove i a = Some (n, a')"
  shows "\<exists>m'. uxListRemove (item_addr i) m = Some (of_nat n, m') \<and> lists_sim m' a'"
proof -
  from a' obtain l where c: "container a i = Some l"
    and n: "n = length (remove1 i (elems a l))"
    by (auto simp: list_remove_def Let_def split: Option.bind_splits)
  have r: "list_repr m (list_addr l) (map item_addr (elems a l))"
    and x: "pxIndex m (list_addr l) = Some (index_node l (list_index a l))"
    using s by (simp_all add: lists_sim_def)
  from c have i: "i \<in> set (elems a l)" by (simp add: lists_sim_container [OF s])
  from i obtain as bs where as: "takeWhile (\<lambda>j. j \<noteq> i) (elems a l) = as"
    and e: "elems a l = as @ i # bs" using split_at_first by metis
  from as have "i \<notin> set as" by (auto dest: set_takeWhileD)
  with e have rem: "remove1 i (elems a l) = as @ bs" by (simp add: remove1_append)
  from r e have r': "list_repr m (list_addr l) (map item_addr as @ item_addr i # map item_addr bs)"
    by simp
  note pn = pred_in_node [of l i "elems a l", unfolded as]
  from uxListRemove_refines [OF r'] obtain m' where
    m': "uxListRemove (item_addr i) m = Some (of_nat (length as + length bs), m')"
      "list_repr m' (list_addr l) (map item_addr (as @ bs))"
      "list_frame (list_addr l) (insert (item_addr i) (set (map item_addr as @ map item_addr bs))) m m'"
      "pvContainer m' (Item (item_addr i)) = None"
      "pxIndex m' (list_addr l) = (if pxIndex m (list_addr l) = Some (Item (item_addr i))
         then Some (index_node l (pred_in (elems a l) i)) else pxIndex m (list_addr l))"
    unfolding pn by auto
  have "insert (item_addr i) (set (map item_addr as @ map item_addr bs)) =
      insert (item_addr i) (item_addr ` set (elems a l))"
    unfolding e by auto
  with m'(3) have f: "list_frame (list_addr l) (insert (item_addr i) (item_addr ` set (elems a l))) m m'"
    by simp
  have idx: "index_node l (list_index a l) = Item (item_addr i) \<longleftrightarrow> list_index a l = Some i"
    by (cases "list_index a l") auto
  have A: "elems a' = (elems a)(l := as @ bs)" "item_value a' = item_value a"
    "container a' = (container a)(i := None)"
    "list_index a' = (list_index a)
       (l := if list_index a l = Some i then pred_in (elems a l) i else list_index a l)"
    using a' c rem by (auto simp: list_remove_def Let_def simp del: fun_upd_apply)
  have "lists_sim m' a'"
  proof (rule lists_sim_step [OF s f])
    show "list_repr m' (list_addr l) (map item_addr (elems a' l))" using m'(2) by (simp add: A)
    show "pxIndex m' (list_addr l) = Some (index_node l (list_index a' l))"
      using m'(5) x idx by (simp add: A)
    show "set (elems a' l) - {i} = set (elems a l) - {i}" by (auto simp: A e)
  qed (use c m'(4) in \<open>simp_all add: A\<close>)
  with m'(1) n rem show ?thesis by auto
qed


lemma next_node:
  assumes r: "list_repr m (list_addr l) (map item_addr xs)"
    and x: "pxIndex m (list_addr l) = Some (index_node l n)"
    and i: "next_in n xs = Some i"
  shows "\<exists>nx. pxNext m (index_node l n) = Some nx \<and>
    (if nx = ListEnd (list_addr l) then pxNext m nx else Some nx) = Some (Item (item_addr i))"
proof -
  let ?E = "ListEnd (list_addr l)"
  have hd: "pxNext m ?E = Some (hd (map Item (map item_addr xs) @ [?E]))"
    using list_repr_links(1) [of m "list_addr l" "[]" "map item_addr xs"] r by simp
  show ?thesis
  proof (cases n)
    case None
    have "dropWhile (\<lambda>j. Some j \<noteq> n) xs = []" by (simp add: None)
    with i obtain ys where "xs = i # ys" by (auto simp: next_in_def split: list.splits)
    with hd None show ?thesis by simp
  next
    case (Some j)
    have "index_node l n \<in> insert ?E (Item ` set (map item_addr xs))"
      using r x unfolding list_repr_def by auto
    with Some have "j \<in> set xs" by auto
    then obtain as bs where as: "takeWhile (\<lambda>k. k \<noteq> j) xs = as" and e: "xs = as @ j # bs"
      using split_at_first by metis
    have "dropWhile (\<lambda>k. Some k \<noteq> n) xs = j # bs"
      using as e Some by (metis (mono_tags, lifting) append_same_eq option.inject same_append_eq
        takeWhile_dropWhile_id takeWhile_cong dropWhile_cong)
    with i have i': "(case bs @ xs of [] \<Rightarrow> None | k # _ \<Rightarrow> Some k) = Some i"
      by (simp add: next_in_def)
    have nx: "pxNext m (Item (item_addr j)) = Some (hd (map Item (map item_addr bs) @ [?E]))"
      using list_repr_links(1) [of m "list_addr l" "map item_addr (as @ [j])" "map item_addr bs"] r e
      by simp
    show ?thesis
    proof (cases bs)
      case Nil
      with i' obtain ys where "xs = i # ys" by (auto split: list.splits)
      with hd nx Nil Some show ?thesis by simp
    next
      case (Cons k ks)
      with i' nx Some show ?thesis by simp
    qed
  qed
qed

lemma next_owner_sim:
  assumes s: "lists_sim m a" and a': "next_owner l a = Some (t, a')"
  shows "\<exists>m'. listGET_OWNER_OF_NEXT_ENTRY (list_addr l) m = Some (t, m') \<and> lists_sim m' a'"
proof -
  let ?n = "list_index a l" and ?xs = "elems a l"
  from a' obtain i where i: "next_in ?n ?xs = Some i" "t = owner i"
    and A: "a' = a\<lparr>list_index := (list_index a)(l := Some i)\<rparr>"
    by (auto simp: next_owner_def split: Option.bind_splits)
  have r: "list_repr m (list_addr l) (map item_addr ?xs)"
    and x: "pxIndex m (list_addr l) = Some (index_node l ?n)"
    and o: "pvOwner m (Item (item_addr i)) = Some (owner i)"
    using s by (simp_all add: lists_sim_def)
  note ri = next_node [OF r x i(1)]
  from i(1) have mem: "i \<in> set ?xs" by (rule next_in_mem)
  let ?m = "set_index (list_addr l) (Item (item_addr i)) m"
  have "listGET_OWNER_OF_NEXT_ENTRY (list_addr l) m = Some (t, ?m)"
  proof -
    from ri obtain nx where "pxNext m (index_node l ?n) = Some nx"
      "(if nx = ListEnd (list_addr l) then pxNext m nx else Some nx) = Some (Item (item_addr i))"
      by blast
    then show ?thesis by (simp add: listGET_OWNER_OF_NEXT_ENTRY_def x i(2) o mem_setters)
  qed
  moreover have "lists_sim ?m a'"
  proof -
    have "list_repr ?m (list_addr k) (map item_addr (elems a k))" for k
    proof -
      have lk: "link ?m x ys y = link m x ys y" for x ys y
        by (rule link_cong) (simp_all add: mem_setters)
      have "list_repr m (list_addr k) (map item_addr (elems a k))" using s by (simp add: lists_sim_def)
      with mem show ?thesis
        by (cases "k = l") (simp_all add: list_repr_def lk, simp_all add: mem_setters)
    qed
    with s show ?thesis by (simp add: lists_sim_def A mem_setters item_key_def)
  qed
  ultimately show ?thesis by blast
qed

lemma set_value_sim:
  assumes "lists_sim m a"
  shows "lists_sim (set_value (Item (item_addr i)) v m) (list_set_value i v a)"
proof -
  let ?m = "set_value (Item (item_addr i)) v m"
  have "list_repr ?m l xs = list_repr m l xs" for l xs
  proof -
    have "link ?m x ys y = link m x ys y" for x ys y
      by (rule link_cong) (simp_all add: mem_setters)
    then show ?thesis by (simp add: list_repr_def) (simp add: mem_setters)
  qed
  with assms show ?thesis by (simp add: lists_sim_def item_key_def) (simp add: mem_setters)
qed

lemma head_owner_sim:
  assumes "lists_sim m a" "head_owner l a = Some t"
  shows "do { n \<leftarrow> listGET_HEAD_ENTRY (list_addr l) m; listGET_LIST_ITEM_OWNER n m } = Some t"
proof -
  from assms(2) obtain i xs where i: "elems a l = i # xs" "t = owner i"
    by (auto simp: head_owner_def split: list.splits)
  have "list_repr m (list_addr l) (map item_addr (elems a l))" "pvOwner m (Item (item_addr i)) = Some (owner i)"
    using assms(1) by (simp_all add: lists_sim_def)
  with i show ?thesis by (simp add: list_repr_def listGET_HEAD_ENTRY_def listGET_LIST_ITEM_OWNER_def)
qed

section \<open>Any sequence of list operations\<close>

text \<open>
  The interface between a machine and its specification: each call that the specification allows is
  answered alike by the machine, and the states stay related.
\<close>

fun run_calls :: "('c \<Rightarrow> 's \<Rightarrow> ('r \<times> 's) option) \<Rightarrow> 'c list \<Rightarrow> 's \<Rightarrow> ('r list \<times> 's) option" where
  "run_calls f [] s = Some ([], s)"
| "run_calls f (c # cs) s = do {
     (r, s) \<leftarrow> f c s;
     (rs, s) \<leftarrow> run_calls f cs s;
     Some (r # rs, s)
   }"

locale simulation =
  fixes R :: "'m \<Rightarrow> 'a \<Rightarrow> bool"
    and spec :: "'c \<Rightarrow> 'a \<Rightarrow> ('r \<times> 'a) option"
    and machine :: "'c \<Rightarrow> 'm \<Rightarrow> ('r \<times> 'm) option"
  assumes call: "R m a \<Longrightarrow> spec c a = Some (r, a') \<Longrightarrow> \<exists>m'. machine c m = Some (r, m') \<and> R m' a'"
begin

lemma calls:
  assumes "R m a" "run_calls spec cs a = Some (rs, a')"
  shows "\<exists>m'. run_calls machine cs m = Some (rs, m') \<and> R m' a'"
  using assms
proof (induction cs arbitrary: m a rs)
  case (Cons c cs)
  from Cons.prems(2) obtain r a1 rs' where
    1: "spec c a = Some (r, a1)" "run_calls spec cs a1 = Some (rs', a')" "rs = r # rs'"
    by (auto split: Option.bind_splits)
  from call [OF Cons.prems(1) 1(1)] obtain m1 where 2: "machine c m = Some (r, m1)" "R m1 a1" by blast
  from Cons.IH [OF 2(2) 1(2)] 2(1) 1(3) show ?case by auto
qed auto

end

datatype list_call =
    InsertEnd klist item
  | Insert klist item
  | RemoveItem item
  | SetValue item u32
  | NextOwner klist
  | HeadOwner klist

datatype list_result = Done | Count u32 | Owner nat

fun spec_call :: "list_call \<Rightarrow> lists \<Rightarrow> (list_result \<times> lists) option" where
  "spec_call (InsertEnd l i) a = map_option (Pair Done) (list_insert_end l i a)"
| "spec_call (Insert l i) a = map_option (Pair Done) (list_insert l i a)"
| "spec_call (RemoveItem i) a = map_option (map_prod (Count \<circ> of_nat) id) (list_remove i a)"
| "spec_call (SetValue i v) a = Some (Done, list_set_value i v a)"
| "spec_call (NextOwner l) a = map_option (map_prod Owner id) (next_owner l a)"
| "spec_call (HeadOwner l) a = map_option (\<lambda>t. (Owner t, a)) (head_owner l a)"

fun mem_call :: "list_call \<Rightarrow> list_mem \<Rightarrow> (list_result \<times> list_mem) option" where
  "mem_call (InsertEnd l i) m = map_option (Pair Done) (vListInsertEnd (list_addr l) (item_addr i) m)"
| "mem_call (Insert l i) m = map_option (Pair Done) (vListInsert (list_addr l) (item_addr i) m)"
| "mem_call (RemoveItem i) m = map_option (map_prod Count id) (uxListRemove (item_addr i) m)"
| "mem_call (SetValue i v) m = Some (Done, set_value (Item (item_addr i)) v m)"
| "mem_call (NextOwner l) m =
     map_option (map_prod Owner id) (listGET_OWNER_OF_NEXT_ENTRY (list_addr l) m)"
| "mem_call (HeadOwner l) m = map_option (\<lambda>t. (Owner t, m))
     (do { n \<leftarrow> listGET_HEAD_ENTRY (list_addr l) m; listGET_LIST_ITEM_OWNER n m })"

lemma list_call_sim:
  assumes s: "lists_sim m a" and c: "spec_call c a = Some (r, a')"
  shows "\<exists>m'. mem_call c m = Some (r, m') \<and> lists_sim m' a'"
proof (cases c)
  case (InsertEnd l i)
  with c list_insert_end_sim [OF s, of l i] show ?thesis by fastforce
next
  case (Insert l i)
  with c list_insert_sim [OF s, of l i] show ?thesis by fastforce
next
  case (RemoveItem i)
  with c list_remove_sim [OF s, of i] show ?thesis by fastforce
next
  case (SetValue i v)
  with c set_value_sim [OF s, of i v] show ?thesis by auto
next
  case (NextOwner l)
  with c next_owner_sim [OF s, of l] show ?thesis by fastforce
next
  case (HeadOwner l)
  with c head_owner_sim [OF s, of l] s show ?thesis by auto
qed

interpretation list_machine: simulation lists_sim spec_call mem_call
  by unfold_locales (rule list_call_sim)

text \<open>All lists empty, all items with the value 0.\<close>

definition fresh_lists :: lists where
  "fresh_lists = \<lparr>elems = \<lambda>_. [], list_index = \<lambda>_. None, item_value = \<lambda>_. 0, container = \<lambda>_. None\<rparr>"

definition fresh_mem :: list_mem where
  "fresh_mem = \<lparr>xItemValue = (\<lambda>n. case n of ListEnd _ \<Rightarrow> portMAX_DELAY | Item _ \<Rightarrow> 0),
    pxNext = (\<lambda>n. Some n), pxPrevious = (\<lambda>n. Some n),
    pvOwner = (\<lambda>n. case n of ListEnd _ \<Rightarrow> None | Item i \<Rightarrow> Some (i div 2)), pvContainer = (\<lambda>_. None),
    uxNumberOfItems = (\<lambda>_. 0), pxIndex = (\<lambda>l. Some (ListEnd l))\<rparr>"

lemma fresh_sim: "lists_sim fresh_mem fresh_lists"
proof -
  have "Some (item_addr i div 2) = Some (owner i)" for i by (cases i) simp_all
  then show ?thesis
    by (simp add: lists_sim_def fresh_mem_def fresh_lists_def list_repr_def item_key_def)
qed

text \<open>
  Claim C4.  Any sequence of list operations that the scheduler and the queues make, on all their lists together,
  has on the pointer lists of \<open>list.c\<close> the effect and the results that it has on sequences of items:
  the lists are sequences, insertion is sorted or before the index, and the index visits the items in
  turn.\<close>

theorem list_calls_refine:
  assumes "lists_sim m a" "run_calls spec_call cs a = Some (rs, a')"
  shows "\<exists>m'. run_calls mem_call cs m = Some (rs, m') \<and> lists_sim m' a'"
  by (rule list_machine.calls [OF assms])

theorem list_calls_refine_witness:
  "\<exists>m'. run_calls mem_call
      [SetValue (StateItem 1) 9, SetValue (StateItem 2) 4, Insert DelayedTaskList1 (StateItem 1),
       Insert DelayedTaskList1 (StateItem 2), HeadOwner DelayedTaskList1, RemoveItem (StateItem 2),
       InsertEnd (Ready 3) (StateItem 2), NextOwner (Ready 3)] fresh_mem =
    Some ([Done, Done, Done, Done, Owner 2, Count 1, Done, Owner 2], m')"
proof -
  let ?cs = "[SetValue (StateItem 1) 9, SetValue (StateItem 2) 4, Insert DelayedTaskList1 (StateItem 1),
       Insert DelayedTaskList1 (StateItem 2), HeadOwner DelayedTaskList1, RemoveItem (StateItem 2),
       InsertEnd (Ready 3) (StateItem 2), NextOwner (Ready 3)]"
  have "map_option fst (run_calls spec_call ?cs fresh_lists) =
    Some [Done, Done, Done, Done, Owner 2, Count 1, Done, Owner 2]" by code_simp
  then obtain a' where "run_calls spec_call ?cs fresh_lists =
      Some ([Done, Done, Done, Done, Owner 2, Count 1, Done, Owner 2], a')"
    by (cases "run_calls spec_call ?cs fresh_lists") (auto simp del: run_calls.simps)
  from list_calls_refine [OF fresh_sim this] show ?thesis by blast
qed

end
