(* ===== verification/Kernel_Tasks.thy ===== *)
theory Kernel_Tasks
  imports Kernel_Items
begin

text \<open>
  The scheduler (\<open>FreeRTOS/tasks.c\<close>), in the configuration of \<open>FreeRTOSConfig.h\<close>: preemption, six
  priorities, mutexes, 32-bit ticks, the bitmap of ready priorities of the port
  (\<open>configUSE_PORT_OPTIMISED_TASK_SELECTION\<close>), and no tick-less idle, no hooks, no timers, no task tags,
  no abort of delays; \<open>configASSERT\<close> is empty.

  The file's statics are the record \<open>kernel\<close>; a task is the number of its control block, and \<open>tcbs\<close> gives
  the block.  Interrupts and critical sections: each definition is a piece of code that runs with
  the kernel's interrupts masked or with the scheduler suspended, so it is atomic; \<open>pendsv\<close> is the
  pending bit that \<open>portYIELD\<close> sets, and the switch happens in \<open>xPortPendSVHandler\<close>.
  \<open>None\<close> is undefined behaviour (a null pointer, an index out of bounds, a corrupted list).
\<close>

section \<open>State\<close>

definition configMAX_PRIORITIES :: u32 where [prog_defs]: "configMAX_PRIORITIES = 6"
definition tskIDLE_PRIORITY :: u32 where [prog_defs]: "tskIDLE_PRIORITY = 0"
definition taskEVENT_LIST_ITEM_VALUE_IN_USE :: u32 where
  [prog_defs]: "taskEVENT_LIST_ITEM_VALUE_IN_USE = 0x80000000"

definition taskNOT_WAITING_NOTIFICATION :: u8 where [prog_defs]: "taskNOT_WAITING_NOTIFICATION = 0"
definition taskWAITING_NOTIFICATION :: u8 where [prog_defs]: "taskWAITING_NOTIFICATION = 1"
definition taskNOTIFICATION_RECEIVED :: u8 where [prog_defs]: "taskNOTIFICATION_RECEIVED = 2"

record tcb =
  uxPriority :: u32
  uxBasePriority :: u32
  uxMutexesHeld :: u32
  uxTCBNumber :: u32
  ulNotifiedValue :: u32
  ucNotifyState :: u8

record kernel =
  lists :: lists
  tcbs :: "nat \<Rightarrow> tcb"
  pxCurrentTCB :: "nat option"
  pxDelayedTaskList :: klist
  pxOverflowDelayedTaskList :: klist
  uxDeletedTasksWaitingCleanUp :: u32
  uxCurrentNumberOfTasks :: u32
  xTickCount :: u32
  uxTopReadyPriority :: u32
  xSchedulerRunning :: bool
  uxPendedTicks :: u32
  xYieldPending :: bool
  xNumOfOverflows :: u32
  uxTaskNumber :: u32
  xNextTaskUnblockTime :: u32
  uxSchedulerSuspended :: u32
  pendsv :: bool

definition set_tcb :: "nat \<Rightarrow> (tcb \<Rightarrow> tcb) \<Rightarrow> kernel \<Rightarrow> kernel" where
  "set_tcb t f k = k\<lparr>tcbs := (tcbs k)(t := f (tcbs k t))\<rparr>"

definition prio :: "kernel \<Rightarrow> nat \<Rightarrow> u32" where
  "prio k t = uxPriority (tcbs k t)"

text \<open>\<open>pxReadyTasksLists[p]\<close>, an array of six.\<close>

definition ready_list :: "u32 \<Rightarrow> klist option" where
  "ready_list p = (if p < configMAX_PRIORITIES then Some (Ready (unat p)) else None)"

definition portYIELD :: "kernel \<Rightarrow> kernel" where
  "portYIELD k = k\<lparr>pendsv := True\<rparr>"

definition prvGetTCBFromHandle :: "nat option \<Rightarrow> kernel \<Rightarrow> nat option" where
  "prvGetTCBFromHandle h k = (case h of None \<Rightarrow> pxCurrentTCB k | Some t \<Rightarrow> Some t)"

section \<open>Lists of the kernel\<close>

text \<open>The list operations of \<open>list.c\<close> on the lists of the kernel.\<close>

definition k_insert_end :: "klist \<Rightarrow> item \<Rightarrow> kernel \<Rightarrow> kernel option" where
  "k_insert_end l i k = do { a \<leftarrow> list_insert_end l i (lists k); Some (k\<lparr>lists := a\<rparr>) }"

definition k_insert :: "klist \<Rightarrow> item \<Rightarrow> kernel \<Rightarrow> kernel option" where
  "k_insert l i k = do { a \<leftarrow> list_insert l i (lists k); Some (k\<lparr>lists := a\<rparr>) }"

definition k_remove :: "item \<Rightarrow> kernel \<Rightarrow> (nat \<times> kernel) option" where
  "k_remove i k = do { (n, a) \<leftarrow> list_remove i (lists k); Some (n, k\<lparr>lists := a\<rparr>) }"

definition k_set_value :: "item \<Rightarrow> u32 \<Rightarrow> kernel \<Rightarrow> kernel" where
  "k_set_value i v k = k\<lparr>lists := list_set_value i v (lists k)\<rparr>"

definition container_of :: "item \<Rightarrow> kernel \<Rightarrow> klist option" where
  "container_of i k = container (lists k) i"

definition items :: "klist \<Rightarrow> kernel \<Rightarrow> item list" where
  "items l k = elems (lists k) l"

definition value_of :: "item \<Rightarrow> kernel \<Rightarrow> u32" where
  "value_of i k = item_value (lists k) i"

section \<open>The ready lists\<close>

definition taskRECORD_READY_PRIORITY :: "u32 \<Rightarrow> kernel \<Rightarrow> kernel" where
  "taskRECORD_READY_PRIORITY p k =
     k\<lparr>uxTopReadyPriority := uxTopReadyPriority k OR push_bit (unat p) 1\<rparr>"

definition portRESET_READY_PRIORITY :: "u32 \<Rightarrow> kernel \<Rightarrow> kernel" where
  "portRESET_READY_PRIORITY p k =
     k\<lparr>uxTopReadyPriority := uxTopReadyPriority k AND NOT (push_bit (unat p) 1)\<rparr>"

definition taskRESET_READY_PRIORITY :: "u32 \<Rightarrow> kernel \<Rightarrow> kernel option" where
  "taskRESET_READY_PRIORITY p k = do {
     l \<leftarrow> ready_list p;
     Some (if items l k = [] then portRESET_READY_PRIORITY p k else k)
   }"

definition prvAddTaskToReadyList :: "nat \<Rightarrow> kernel \<Rightarrow> kernel option" where
  "prvAddTaskToReadyList t k = do {
     let k = taskRECORD_READY_PRIORITY (prio k t) k;
     l \<leftarrow> ready_list (prio k t);
     k_insert_end l (StateItem t) k
   }"

text \<open>\<open>31 - __clz(x)\<close>: the highest bit set; for 0 the index would wrap, far out of the array.\<close>

definition portGET_HIGHEST_PRIORITY :: "u32 \<Rightarrow> u32 option" where
  "portGET_HIGHEST_PRIORITY x = map_option of_nat (find (bit x) (rev [0..<32]))"

definition taskSELECT_HIGHEST_PRIORITY_TASK :: "kernel \<Rightarrow> kernel option" where
  "taskSELECT_HIGHEST_PRIORITY_TASK k = do {
     p \<leftarrow> portGET_HIGHEST_PRIORITY (uxTopReadyPriority k);
     l \<leftarrow> ready_list p;
     (t, a) \<leftarrow> next_owner l (lists k);
     Some (k\<lparr>pxCurrentTCB := Some t, lists := a\<rparr>)
   }"

definition vTaskSwitchContext :: "kernel \<Rightarrow> kernel option" where
  "vTaskSwitchContext k =
     (if uxSchedulerSuspended k \<noteq> 0 then Some (k\<lparr>xYieldPending := True\<rparr>)
      else taskSELECT_HIGHEST_PRIORITY_TASK (k\<lparr>xYieldPending := False\<rparr>))"

text \<open>\<open>xPortPendSVHandler\<close>: save the context, switch, restore.\<close>

definition xPortPendSVHandler :: "kernel \<Rightarrow> kernel option" where
  "xPortPendSVHandler k = vTaskSwitchContext (k\<lparr>pendsv := False\<rparr>)"

section \<open>Creation and deletion\<close>

definition prvInitialiseTaskLists :: "kernel \<Rightarrow> kernel" where
  "prvInitialiseTaskLists k =
     (let a = fold list_initialise
        (map Ready [0..<unat configMAX_PRIORITIES] @
         [DelayedTaskList1, DelayedTaskList2, PendingReadyList, TasksWaitingTermination,
          SuspendedTaskList]) (lists k)
      in k\<lparr>lists := a, pxDelayedTaskList := DelayedTaskList1,
           pxOverflowDelayedTaskList := DelayedTaskList2\<rparr>)"

text \<open>The control block; the stack and the name are not modelled.\<close>

definition prvInitialiseNewTask :: "u32 \<Rightarrow> nat \<Rightarrow> kernel \<Rightarrow> kernel" where
  "prvInitialiseNewTask p t k =
     (let p = (if p \<ge> configMAX_PRIORITIES then configMAX_PRIORITIES - 1 else p);
          k = set_tcb t (\<lambda>c. c\<lparr>uxPriority := p, uxBasePriority := p, uxMutexesHeld := 0\<rparr>) k;
          a = (lists k)\<lparr>container := (container (lists k))(StateItem t := None, EventItem t := None)\<rparr>;
          k = k_set_value (EventItem t) (configMAX_PRIORITIES - p) (k\<lparr>lists := a\<rparr>)
      in set_tcb t (\<lambda>c. c\<lparr>ulNotifiedValue := 0, ucNotifyState := taskNOT_WAITING_NOTIFICATION\<rparr>) k)"

definition prvAddNewTaskToReadyList :: "nat \<Rightarrow> kernel \<Rightarrow> kernel option" where
  "prvAddNewTaskToReadyList t k = do {
     let k = k\<lparr>uxCurrentNumberOfTasks := uxCurrentNumberOfTasks k + 1\<rparr>;
     let k = (case pxCurrentTCB k of
         None \<Rightarrow>
           (let k = k\<lparr>pxCurrentTCB := Some t\<rparr>
            in if uxCurrentNumberOfTasks k = 1 then prvInitialiseTaskLists k else k)
       | Some c \<Rightarrow>
           (if \<not> xSchedulerRunning k \<and> prio k c \<le> prio k t
            then k\<lparr>pxCurrentTCB := Some t\<rparr> else k));
     let k = k\<lparr>uxTaskNumber := uxTaskNumber k + 1\<rparr>;
     let k = set_tcb t (\<lambda>c. c\<lparr>uxTCBNumber := uxTaskNumber k\<rparr>) k;
     k \<leftarrow> prvAddTaskToReadyList t k;
     c \<leftarrow> pxCurrentTCB k;
     Some (if xSchedulerRunning k \<and> prio k c < prio k t then portYIELD k else k)
   }"

text \<open>
  The allocator is a parameter: \<open>alloc\<close> is the control block it gives, \<open>None\<close> when the stack or the
  block does not fit.
\<close>

definition xTaskCreate :: "nat option \<Rightarrow> u32 \<Rightarrow> kernel \<Rightarrow> (bool \<times> kernel) option" where
  "xTaskCreate alloc p k =
     (case alloc of
        None \<Rightarrow> Some (False, k)
      | Some t \<Rightarrow> do { k \<leftarrow> prvAddNewTaskToReadyList t (prvInitialiseNewTask p t k); Some (True, k) })"

text \<open>The end of \<open>vTaskStartScheduler\<close>, once the idle task has been created.\<close>

definition start_scheduler :: "kernel \<Rightarrow> kernel" where
  "start_scheduler k =
     k\<lparr>xNextTaskUnblockTime := portMAX_DELAY, xSchedulerRunning := True, xTickCount := 0\<rparr>"

definition vTaskStartScheduler :: "nat option \<Rightarrow> kernel \<Rightarrow> kernel option" where
  "vTaskStartScheduler alloc k = do {
     (ok, k) \<leftarrow> xTaskCreate alloc tskIDLE_PRIORITY k;
     Some (if ok then start_scheduler k else k)
   }"

definition vTaskEndScheduler :: "kernel \<Rightarrow> kernel" where
  "vTaskEndScheduler k = k\<lparr>xSchedulerRunning := False\<rparr>"

definition xTaskGetCurrentTaskHandle :: "kernel \<Rightarrow> nat option" where
  "xTaskGetCurrentTaskHandle k = pxCurrentTCB k"

definition prvResetNextTaskUnblockTime :: "kernel \<Rightarrow> kernel option" where
  "prvResetNextTaskUnblockTime k =
     (if items (pxDelayedTaskList k) k = [] then Some (k\<lparr>xNextTaskUnblockTime := portMAX_DELAY\<rparr>)
      else do {
        t \<leftarrow> head_owner (pxDelayedTaskList k) (lists k);
        Some (k\<lparr>xNextTaskUnblockTime := value_of (StateItem t) k\<rparr>)
      })"

text \<open>Take a task off the list of its state, resetting the bitmap, and off its event list.\<close>

definition remove_state :: "nat \<Rightarrow> kernel \<Rightarrow> kernel option" where
  "remove_state t k = do {
     (n, k) \<leftarrow> k_remove (StateItem t) k;
     if n = 0 then taskRESET_READY_PRIORITY (prio k t) k else Some k
   }"

definition remove_event :: "nat \<Rightarrow> kernel \<Rightarrow> kernel option" where
  "remove_event t k =
     (if container_of (EventItem t) k \<noteq> None
      then do { (n, k) \<leftarrow> k_remove (EventItem t) k; Some k } else Some k)"

definition vTaskDelete :: "nat option \<Rightarrow> kernel \<Rightarrow> kernel option" where
  "vTaskDelete h k = do {
     t \<leftarrow> prvGetTCBFromHandle h k;
     k \<leftarrow> remove_state t k;
     k \<leftarrow> remove_event t k;
     k \<leftarrow> (if pxCurrentTCB k = Some t
          then do {
            k \<leftarrow> k_insert_end TasksWaitingTermination (StateItem t) k;
            Some (k\<lparr>uxDeletedTasksWaitingCleanUp := uxDeletedTasksWaitingCleanUp k + 1\<rparr>)
          }
          else Some (k\<lparr>uxCurrentNumberOfTasks := uxCurrentNumberOfTasks k - 1\<rparr>));
     let k = k\<lparr>uxTaskNumber := uxTaskNumber k + 1\<rparr>;
     if xSchedulerRunning k
     then (if pxCurrentTCB k = Some t then Some (portYIELD k) else prvResetNextTaskUnblockTime k)
     else Some k
   }"

section \<open>Time\<close>

definition prvAddCurrentTaskToDelayedList :: "u32 \<Rightarrow> bool \<Rightarrow> kernel \<Rightarrow> kernel option" where
  "prvAddCurrentTaskToDelayedList ticks indefinitely k = do {
     t \<leftarrow> pxCurrentTCB k;
     let now = xTickCount k;
     (n, k) \<leftarrow> k_remove (StateItem t) k;
     let k = (if n = 0 then portRESET_READY_PRIORITY (prio k t) k else k);
     if ticks = portMAX_DELAY \<and> indefinitely
     then k_insert_end SuspendedTaskList (StateItem t) k
     else do {
       let wake = now + ticks;
       let k = k_set_value (StateItem t) wake k;
       if wake < now then k_insert (pxOverflowDelayedTaskList k) (StateItem t) k
       else do {
         k \<leftarrow> k_insert (pxDelayedTaskList k) (StateItem t) k;
         Some (if wake < xNextTaskUnblockTime k then k\<lparr>xNextTaskUnblockTime := wake\<rparr> else k)
       }
     }
   }"

definition taskSWITCH_DELAYED_LISTS :: "kernel \<Rightarrow> kernel option" where
  "taskSWITCH_DELAYED_LISTS k =
     prvResetNextTaskUnblockTime
       (k\<lparr>pxDelayedTaskList := pxOverflowDelayedTaskList k,
          pxOverflowDelayedTaskList := pxDelayedTaskList k,
          xNumOfOverflows := xNumOfOverflows k + 1\<rparr>)"

text \<open>The loop that wakes the tasks whose time has come; it carries \<open>xSwitchRequired\<close>.\<close>

partial_function (option) wake_loop :: "u32 \<Rightarrow> bool \<Rightarrow> kernel \<Rightarrow> (bool \<times> kernel) option" where
  "wake_loop now sw k =
     (if items (pxDelayedTaskList k) k = []
      then Some (sw, k\<lparr>xNextTaskUnblockTime := portMAX_DELAY\<rparr>)
      else do {
        t \<leftarrow> head_owner (pxDelayedTaskList k) (lists k);
        let v = value_of (StateItem t) k;
        if now < v then Some (sw, k\<lparr>xNextTaskUnblockTime := v\<rparr>)
        else do {
          (n, k) \<leftarrow> k_remove (StateItem t) k;
          k \<leftarrow> remove_event t k;
          k \<leftarrow> prvAddTaskToReadyList t k;
          c \<leftarrow> pxCurrentTCB k;
          wake_loop now (sw \<or> prio k c \<le> prio k t) k
        }
      })"

definition xTaskIncrementTick :: "kernel \<Rightarrow> (bool \<times> kernel) option" where
  "xTaskIncrementTick k = do {
     (sw, k) \<leftarrow>
       (if uxSchedulerSuspended k = 0 then do {
          let now = xTickCount k + 1;
          let k = k\<lparr>xTickCount := now\<rparr>;
          k \<leftarrow> (if now = 0 then taskSWITCH_DELAYED_LISTS k else Some k);
          (sw, k) \<leftarrow> (if xNextTaskUnblockTime k \<le> now then wake_loop now False k
                     else Some (False, k));
          c \<leftarrow> pxCurrentTCB k;
          l \<leftarrow> ready_list (prio k c);
          Some (sw \<or> length (items l k) > 1, k)
        }
        else Some (False, k\<lparr>uxPendedTicks := uxPendedTicks k + 1\<rparr>));
     Some (sw \<or> xYieldPending k, k)
   }"

text \<open>The tick interrupt, \<open>xPortSysTickHandler\<close>.\<close>

definition xPortSysTickHandler :: "kernel \<Rightarrow> kernel option" where
  "xPortSysTickHandler k = do {
     (sw, k) \<leftarrow> xTaskIncrementTick k;
     Some (if sw then portYIELD k else k)
   }"

section \<open>Suspending the scheduler\<close>

definition vTaskSuspendAll :: "kernel \<Rightarrow> kernel" where
  "vTaskSuspendAll k = k\<lparr>uxSchedulerSuspended := uxSchedulerSuspended k + 1\<rparr>"

text \<open>The loop that empties the pending list; it carries \<open>pxTCB\<close>.\<close>

partial_function (option) pending_loop :: "nat option \<Rightarrow> kernel \<Rightarrow> (nat option \<times> kernel) option" where
  "pending_loop woken k =
     (if items PendingReadyList k = [] then Some (woken, k)
      else do {
        t \<leftarrow> head_owner PendingReadyList (lists k);
        (n, k) \<leftarrow> k_remove (EventItem t) k;
        (n, k) \<leftarrow> k_remove (StateItem t) k;
        k \<leftarrow> prvAddTaskToReadyList t k;
        c \<leftarrow> pxCurrentTCB k;
        pending_loop (Some t) (if prio k c \<le> prio k t then k\<lparr>xYieldPending := True\<rparr> else k)
      })"

fun pended_ticks :: "nat \<Rightarrow> kernel \<Rightarrow> kernel option" where
  "pended_ticks 0 k = Some k"
| "pended_ticks (Suc n) k = do {
     (sw, k) \<leftarrow> xTaskIncrementTick k;
     pended_ticks n (if sw then k\<lparr>xYieldPending := True\<rparr> else k)
   }"

definition xTaskResumeAll :: "kernel \<Rightarrow> (bool \<times> kernel) option" where
  "xTaskResumeAll k = do {
     let k = k\<lparr>uxSchedulerSuspended := uxSchedulerSuspended k - 1\<rparr>;
     if uxSchedulerSuspended k = 0 \<and> uxCurrentNumberOfTasks k > 0 then do {
       (woken, k) \<leftarrow> pending_loop None k;
       k \<leftarrow> (if woken \<noteq> None then prvResetNextTaskUnblockTime k else Some k);
       k \<leftarrow> (if uxPendedTicks k > 0
            then do {
              k \<leftarrow> pended_ticks (unat (uxPendedTicks k)) k;
              Some (k\<lparr>uxPendedTicks := 0\<rparr>)
            }
            else Some k);
       Some (if xYieldPending k then (True, portYIELD k) else (False, k))
     }
     else Some (False, k)
   }"

definition vTaskDelay :: "u32 \<Rightarrow> kernel \<Rightarrow> kernel option" where
  "vTaskDelay ticks k = do {
     (yielded, k) \<leftarrow>
       (if ticks > 0 then do {
          k \<leftarrow> prvAddCurrentTaskToDelayedList ticks False (vTaskSuspendAll k);
          xTaskResumeAll k
        }
        else Some (False, k));
     Some (if yielded then k else portYIELD k)
   }"

text \<open>The decision of \<open>vTaskDelayUntil\<close>: whether to delay, and until when.\<close>

definition delay_until :: "u32 \<Rightarrow> u32 \<Rightarrow> u32 \<Rightarrow> bool \<times> u32" where
  "delay_until prev incr now =
     (let wake = prev + incr
      in (if now < prev then wake < prev \<and> wake > now else wake < prev \<or> wake > now, wake))"

definition vTaskDelayUntil :: "u32 \<Rightarrow> u32 \<Rightarrow> kernel \<Rightarrow> (u32 \<times> kernel) option" where
  "vTaskDelayUntil prev incr k = do {
     let k = vTaskSuspendAll k;
     let (delay, wake) = delay_until prev incr (xTickCount k);
     k \<leftarrow> (if delay then prvAddCurrentTaskToDelayedList (wake - xTickCount k) False k else Some k);
     (yielded, k) \<leftarrow> xTaskResumeAll k;
     Some (wake, if yielded then k else portYIELD k)
   }"

definition xTaskGetTickCount :: "kernel \<Rightarrow> u32" where
  "xTaskGetTickCount k = xTickCount k"

definition uxTaskGetNumberOfTasks :: "kernel \<Rightarrow> u32" where
  "uxTaskGetNumberOfTasks k = uxCurrentNumberOfTasks k"

section \<open>Suspending and resuming a task\<close>

datatype task_state = eRunning | eReady | eBlocked | eSuspended | eDeleted

definition eTaskGetState :: "nat \<Rightarrow> kernel \<Rightarrow> task_state" where
  "eTaskGetState t k =
     (if pxCurrentTCB k = Some t then eRunning
      else
        (let l = container_of (StateItem t) k
         in if l = Some (pxDelayedTaskList k) \<or> l = Some (pxOverflowDelayedTaskList k) then eBlocked
            else if l = Some SuspendedTaskList then
              (if container_of (EventItem t) k = None then eSuspended else eBlocked)
            else if l = Some TasksWaitingTermination \<or> l = None then eDeleted
            else eReady))"

definition vTaskSuspend :: "nat option \<Rightarrow> kernel \<Rightarrow> kernel option" where
  "vTaskSuspend h k = do {
     t \<leftarrow> prvGetTCBFromHandle h k;
     k \<leftarrow> remove_state t k;
     k \<leftarrow> remove_event t k;
     k \<leftarrow> k_insert_end SuspendedTaskList (StateItem t) k;
     k \<leftarrow> (if xSchedulerRunning k then prvResetNextTaskUnblockTime k else Some k);
     if pxCurrentTCB k = Some t then
       (if xSchedulerRunning k then Some (portYIELD k)
        else if of_nat (length (items SuspendedTaskList k)) = uxCurrentNumberOfTasks k
        then Some (k\<lparr>pxCurrentTCB := None\<rparr>)
        else vTaskSwitchContext k)
     else Some k
   }"

definition prvTaskIsTaskSuspended :: "nat \<Rightarrow> kernel \<Rightarrow> bool" where
  "prvTaskIsTaskSuspended t k \<longleftrightarrow>
     container_of (StateItem t) k = Some SuspendedTaskList \<and>
     container_of (EventItem t) k \<noteq> Some PendingReadyList \<and>
     container_of (EventItem t) k = None"

definition vTaskResume :: "nat option \<Rightarrow> kernel \<Rightarrow> kernel option" where
  "vTaskResume h k =
     (case h of
        None \<Rightarrow> Some k
      | Some t \<Rightarrow>
          if pxCurrentTCB k \<noteq> Some t \<and> prvTaskIsTaskSuspended t k then do {
            (n, k) \<leftarrow> k_remove (StateItem t) k;
            k \<leftarrow> prvAddTaskToReadyList t k;
            c \<leftarrow> pxCurrentTCB k;
            Some (if prio k c \<le> prio k t then portYIELD k else k)
          }
          else Some k)"

definition xTaskResumeFromISR :: "nat \<Rightarrow> kernel \<Rightarrow> (bool \<times> kernel) option" where
  "xTaskResumeFromISR t k =
     (if prvTaskIsTaskSuspended t k then
        (if uxSchedulerSuspended k = 0 then do {
           c \<leftarrow> pxCurrentTCB k;
           let y = (prio k c \<le> prio k t);
           (n, k) \<leftarrow> k_remove (StateItem t) k;
           k \<leftarrow> prvAddTaskToReadyList t k;
           Some (y, k)
         }
         else do { k \<leftarrow> k_insert_end PendingReadyList (EventItem t) k; Some (False, k) })
      else Some (False, k))"

section \<open>Waiting for events\<close>

definition vTaskPlaceOnEventList :: "klist \<Rightarrow> u32 \<Rightarrow> kernel \<Rightarrow> kernel option" where
  "vTaskPlaceOnEventList l ticks k = do {
     t \<leftarrow> pxCurrentTCB k;
     k \<leftarrow> k_insert l (EventItem t) k;
     prvAddCurrentTaskToDelayedList ticks True k
   }"

definition xTaskRemoveFromEventList :: "klist \<Rightarrow> kernel \<Rightarrow> (bool \<times> kernel) option" where
  "xTaskRemoveFromEventList l k = do {
     t \<leftarrow> head_owner l (lists k);
     (n, k) \<leftarrow> k_remove (EventItem t) k;
     k \<leftarrow> (if uxSchedulerSuspended k = 0
          then do { (n, k) \<leftarrow> k_remove (StateItem t) k; prvAddTaskToReadyList t k }
          else k_insert_end PendingReadyList (EventItem t) k);
     c \<leftarrow> pxCurrentTCB k;
     Some (if prio k c < prio k t then (True, k\<lparr>xYieldPending := True\<rparr>) else (False, k))
   }"

definition vTaskMissedYield :: "kernel \<Rightarrow> kernel" where
  "vTaskMissedYield k = k\<lparr>xYieldPending := True\<rparr>"

record time_out =
  xOverflowCount :: u32
  xTimeOnEntering :: u32

definition vTaskSetTimeOutState :: "kernel \<Rightarrow> time_out" where
  "vTaskSetTimeOutState k = \<lparr>xOverflowCount = xNumOfOverflows k, xTimeOnEntering = xTickCount k\<rparr>"

definition xTaskCheckForTimeOut :: "time_out \<Rightarrow> u32 \<Rightarrow> kernel \<Rightarrow> bool \<times> time_out \<times> u32" where
  "xTaskCheckForTimeOut to ticks k =
     (let now = xTickCount k
      in if ticks = portMAX_DELAY then (False, to, ticks)
         else if xNumOfOverflows k \<noteq> xOverflowCount to \<and> now \<ge> xTimeOnEntering to
         then (True, to, ticks)
         else if now - xTimeOnEntering to < ticks
         then (False, vTaskSetTimeOutState k, ticks - (now - xTimeOnEntering to))
         else (True, to, ticks))"

section \<open>Priorities\<close>

definition uxTaskPriorityGet :: "nat option \<Rightarrow> kernel \<Rightarrow> u32 option" where
  "uxTaskPriorityGet h k = do { t \<leftarrow> prvGetTCBFromHandle h k; Some (prio k t) }"

definition event_value_free :: "nat \<Rightarrow> kernel \<Rightarrow> bool" where
  "event_value_free t k \<longleftrightarrow> value_of (EventItem t) k AND taskEVENT_LIST_ITEM_VALUE_IN_USE = 0"

definition set_event_value :: "nat \<Rightarrow> u32 \<Rightarrow> kernel \<Rightarrow> kernel" where
  "set_event_value t p k =
     (if event_value_free t k then k_set_value (EventItem t) (configMAX_PRIORITIES - p) k else k)"

definition vTaskPrioritySet :: "nat option \<Rightarrow> u32 \<Rightarrow> kernel \<Rightarrow> kernel option" where
  "vTaskPrioritySet h new k = do {
     let new = (if new \<ge> configMAX_PRIORITIES then configMAX_PRIORITIES - 1 else new);
     t \<leftarrow> prvGetTCBFromHandle h k;
     let base = uxBasePriority (tcbs k t);
     if base \<noteq> new then do {
       c \<leftarrow> pxCurrentTCB k;
       let yield = (if new > base then t \<noteq> c \<and> new \<ge> prio k c else t = c);
       let old = prio k t;
       let k = set_tcb t (\<lambda>b. b\<lparr>uxPriority := if uxBasePriority b = uxPriority b then new else uxPriority b,
                               uxBasePriority := new\<rparr>) k;
       let k = set_event_value t new k;
       l \<leftarrow> ready_list old;
       k \<leftarrow> (if container_of (StateItem t) k = Some l
            then do {
              (n, k) \<leftarrow> k_remove (StateItem t) k;
              prvAddTaskToReadyList t (if n = 0 then portRESET_READY_PRIORITY old k else k)
            }
            else Some k);
       Some (if yield then portYIELD k else k)
     }
     else Some k
   }"

definition pvTaskIncrementMutexHeldCount :: "kernel \<Rightarrow> nat option \<times> kernel" where
  "pvTaskIncrementMutexHeldCount k =
     (case pxCurrentTCB k of
        None \<Rightarrow> (None, k)
      | Some t \<Rightarrow> (Some t, set_tcb t (\<lambda>c. c\<lparr>uxMutexesHeld := uxMutexesHeld c + 1\<rparr>) k))"

definition vTaskPriorityInherit :: "nat option \<Rightarrow> kernel \<Rightarrow> kernel option" where
  "vTaskPriorityInherit holder k =
     (case holder of
        None \<Rightarrow> Some k
      | Some t \<Rightarrow> do {
          c \<leftarrow> pxCurrentTCB k;
          if prio k t < prio k c then do {
            let k = set_event_value t (prio k c) k;
            l \<leftarrow> ready_list (prio k t);
            if container_of (StateItem t) k = Some l
            then do {
              k \<leftarrow> remove_state t k;
              prvAddTaskToReadyList t (set_tcb t (\<lambda>b. b\<lparr>uxPriority := prio k c\<rparr>) k)
            }
            else Some (set_tcb t (\<lambda>b. b\<lparr>uxPriority := prio k c\<rparr>) k)
          }
          else Some k
        })"

definition xTaskPriorityDisinherit :: "nat option \<Rightarrow> kernel \<Rightarrow> (bool \<times> kernel) option" where
  "xTaskPriorityDisinherit holder k =
     (case holder of
        None \<Rightarrow> Some (False, k)
      | Some t \<Rightarrow> do {
          let k = set_tcb t (\<lambda>b. b\<lparr>uxMutexesHeld := uxMutexesHeld b - 1\<rparr>) k;
          if prio k t \<noteq> uxBasePriority (tcbs k t) \<and> uxMutexesHeld (tcbs k t) = 0 then do {
            k \<leftarrow> remove_state t k;
            let k = set_tcb t (\<lambda>b. b\<lparr>uxPriority := uxBasePriority b\<rparr>) k;
            let k = k_set_value (EventItem t) (configMAX_PRIORITIES - prio k t) k;
            k \<leftarrow> prvAddTaskToReadyList t k;
            Some (True, k)
          }
          else Some (False, k)
        })"

section \<open>Notifications\<close>

text \<open>
  The two functions that wait have two critical sections with the switch between them; each
  section is a definition.
\<close>

definition wait_notification :: "u32 \<Rightarrow> nat \<Rightarrow> kernel \<Rightarrow> kernel option" where
  "wait_notification ticks t k = do {
     let k = set_tcb t (\<lambda>c. c\<lparr>ucNotifyState := taskWAITING_NOTIFICATION\<rparr>) k;
     if ticks > 0 then do {
       k \<leftarrow> prvAddCurrentTaskToDelayedList ticks True k;
       Some (portYIELD k)
     }
     else Some k
   }"

definition ulTaskNotifyTake_enter :: "u32 \<Rightarrow> kernel \<Rightarrow> kernel option" where
  "ulTaskNotifyTake_enter ticks k = do {
     t \<leftarrow> pxCurrentTCB k;
     if ulNotifiedValue (tcbs k t) = 0 then wait_notification ticks t k else Some k
   }"

definition ulTaskNotifyTake_leave :: "bool \<Rightarrow> kernel \<Rightarrow> (u32 \<times> kernel) option" where
  "ulTaskNotifyTake_leave clear k = do {
     t \<leftarrow> pxCurrentTCB k;
     let r = ulNotifiedValue (tcbs k t);
     let k = (if r \<noteq> 0 then set_tcb t (\<lambda>c. c\<lparr>ulNotifiedValue := if clear then 0 else r - 1\<rparr>) k else k);
     Some (r, set_tcb t (\<lambda>c. c\<lparr>ucNotifyState := taskNOT_WAITING_NOTIFICATION\<rparr>) k)
   }"

definition xTaskNotifyWait_enter :: "u32 \<Rightarrow> u32 \<Rightarrow> kernel \<Rightarrow> kernel option" where
  "xTaskNotifyWait_enter clear_entry ticks k = do {
     t \<leftarrow> pxCurrentTCB k;
     if ucNotifyState (tcbs k t) \<noteq> taskNOTIFICATION_RECEIVED
     then wait_notification ticks t
            (set_tcb t (\<lambda>c. c\<lparr>ulNotifiedValue := ulNotifiedValue c AND NOT clear_entry\<rparr>) k)
     else Some k
   }"

definition xTaskNotifyWait_leave :: "u32 \<Rightarrow> kernel \<Rightarrow> (bool \<times> u32 \<times> kernel) option" where
  "xTaskNotifyWait_leave clear_exit k = do {
     t \<leftarrow> pxCurrentTCB k;
     let v = ulNotifiedValue (tcbs k t);
     let got = (ucNotifyState (tcbs k t) \<noteq> taskWAITING_NOTIFICATION);
     let k = (if got then set_tcb t (\<lambda>c. c\<lparr>ulNotifiedValue := v AND NOT clear_exit\<rparr>) k else k);
     Some (got, v, set_tcb t (\<lambda>c. c\<lparr>ucNotifyState := taskNOT_WAITING_NOTIFICATION\<rparr>) k)
   }"

datatype notify_action =
    eNoAction
  | eSetBits
  | eIncrement
  | eSetValueWithOverwrite
  | eSetValueWithoutOverwrite

text \<open>The switch over the action: the result (\<open>pdPASS\<close>) and the new value.\<close>

fun notify_value :: "notify_action \<Rightarrow> u32 \<Rightarrow> u8 \<Rightarrow> u32 \<Rightarrow> bool \<times> u32" where
  "notify_value eSetBits v st old = (True, old OR v)"
| "notify_value eIncrement v st old = (True, old + 1)"
| "notify_value eSetValueWithOverwrite v st old = (True, v)"
| "notify_value eSetValueWithoutOverwrite v st old =
     (if st \<noteq> taskNOTIFICATION_RECEIVED then (True, v) else (False, old))"
| "notify_value eNoAction v st old = (True, old)"

definition xTaskGenericNotify ::
    "nat \<Rightarrow> u32 \<Rightarrow> notify_action \<Rightarrow> kernel \<Rightarrow> (bool \<times> u32 \<times> kernel) option" where
  "xTaskGenericNotify t v act k = do {
     let prev = ulNotifiedValue (tcbs k t);
     let st = ucNotifyState (tcbs k t);
     let (ok, new) = notify_value act v st prev;
     let k = set_tcb t (\<lambda>c. c\<lparr>ucNotifyState := taskNOTIFICATION_RECEIVED, ulNotifiedValue := new\<rparr>) k;
     k \<leftarrow> (if st = taskWAITING_NOTIFICATION then do {
            (n, k) \<leftarrow> k_remove (StateItem t) k;
            k \<leftarrow> prvAddTaskToReadyList t k;
            c \<leftarrow> pxCurrentTCB k;
            Some (if prio k c < prio k t then portYIELD k else k)
          }
          else Some k);
     Some (ok, prev, k)
   }"

text \<open>\<open>woken\<close> says whether the caller passes \<open>pxHigherPriorityTaskWoken\<close>; it is returned set or not.\<close>

definition notify_wake_from_isr :: "nat \<Rightarrow> bool \<Rightarrow> kernel \<Rightarrow> (bool \<times> kernel) option" where
  "notify_wake_from_isr t woken k = do {
     k \<leftarrow> (if uxSchedulerSuspended k = 0
          then do { (n, k) \<leftarrow> k_remove (StateItem t) k; prvAddTaskToReadyList t k }
          else k_insert_end PendingReadyList (EventItem t) k);
     c \<leftarrow> pxCurrentTCB k;
     Some (if prio k c < prio k t
           then (if woken then (True, k) else (False, k\<lparr>xYieldPending := True\<rparr>))
           else (False, k))
   }"

definition xTaskGenericNotifyFromISR ::
    "nat \<Rightarrow> u32 \<Rightarrow> notify_action \<Rightarrow> bool \<Rightarrow> kernel \<Rightarrow> (bool \<times> u32 \<times> bool \<times> kernel) option" where
  "xTaskGenericNotifyFromISR t v act woken k = do {
     let prev = ulNotifiedValue (tcbs k t);
     let st = ucNotifyState (tcbs k t);
     let (ok, new) = notify_value act v st prev;
     let k = set_tcb t (\<lambda>c. c\<lparr>ucNotifyState := taskNOTIFICATION_RECEIVED, ulNotifiedValue := new\<rparr>) k;
     (w, k) \<leftarrow> (if st = taskWAITING_NOTIFICATION then notify_wake_from_isr t woken k else Some (False, k));
     Some (ok, prev, w, k)
   }"

definition vTaskNotifyGiveFromISR :: "nat \<Rightarrow> bool \<Rightarrow> kernel \<Rightarrow> (bool \<times> kernel) option" where
  "vTaskNotifyGiveFromISR t woken k = do {
     let st = ucNotifyState (tcbs k t);
     let k = set_tcb t (\<lambda>c. c\<lparr>ucNotifyState := taskNOTIFICATION_RECEIVED,
                             ulNotifiedValue := ulNotifiedValue c + 1\<rparr>) k;
     if st = taskWAITING_NOTIFICATION then notify_wake_from_isr t woken k else Some (False, k)
   }"

definition xTaskNotifyStateClear :: "nat option \<Rightarrow> kernel \<Rightarrow> (bool \<times> kernel) option" where
  "xTaskNotifyStateClear h k = do {
     t \<leftarrow> prvGetTCBFromHandle h k;
     Some (if ucNotifyState (tcbs k t) = taskNOTIFICATION_RECEIVED
           then (True, set_tcb t (\<lambda>c. c\<lparr>ucNotifyState := taskNOT_WAITING_NOTIFICATION\<rparr>) k)
           else (False, k))
   }"

definition uxTaskResetEventItemValue :: "kernel \<Rightarrow> (u32 \<times> kernel) option" where
  "uxTaskResetEventItemValue k = do {
     t \<leftarrow> pxCurrentTCB k;
     Some (value_of (EventItem t) k, k_set_value (EventItem t) (configMAX_PRIORITIES - prio k t) k)
   }"

definition vTaskPlaceOnUnorderedEventList :: "klist \<Rightarrow> u32 \<Rightarrow> u32 \<Rightarrow> kernel \<Rightarrow> kernel option" where
  "vTaskPlaceOnUnorderedEventList l v ticks k = do {
     t \<leftarrow> pxCurrentTCB k;
     k \<leftarrow> k_insert_end l (EventItem t)
          (k_set_value (EventItem t) (v OR taskEVENT_LIST_ITEM_VALUE_IN_USE) k);
     prvAddCurrentTaskToDelayedList ticks True k
   }"

definition xTaskRemoveFromUnorderedEventList :: "nat \<Rightarrow> u32 \<Rightarrow> kernel \<Rightarrow> (bool \<times> kernel) option" where
  "xTaskRemoveFromUnorderedEventList t v k = do {
     let k = k_set_value (EventItem t) (v OR taskEVENT_LIST_ITEM_VALUE_IN_USE) k;
     (n, k) \<leftarrow> k_remove (EventItem t) k;
     (n, k) \<leftarrow> k_remove (StateItem t) k;
     k \<leftarrow> prvAddTaskToReadyList t k;
     c \<leftarrow> pxCurrentTCB k;
     Some (if prio k c < prio k t then (True, k\<lparr>xYieldPending := True\<rparr>) else (False, k))
   }"

section \<open>The idle task\<close>

text \<open>One round of the loop that frees the blocks of deleted tasks; the block freed is returned.\<close>

definition prvCheckTasksWaitingTermination :: "kernel \<Rightarrow> (nat option \<times> kernel) option" where
  "prvCheckTasksWaitingTermination k =
     (if uxDeletedTasksWaitingCleanUp k > 0 then do {
        let k = vTaskSuspendAll k;
        let empty = (items TasksWaitingTermination k = []);
        (y, k) \<leftarrow> xTaskResumeAll k;
        if \<not> empty then do {
          t \<leftarrow> head_owner TasksWaitingTermination (lists k);
          (n, k) \<leftarrow> k_remove (StateItem t) k;
          Some (Some t, k\<lparr>uxCurrentNumberOfTasks := uxCurrentNumberOfTasks k - 1,
            uxDeletedTasksWaitingCleanUp := uxDeletedTasksWaitingCleanUp k - 1\<rparr>)
        }
        else Some (None, k)
      }
      else Some (None, k))"

definition prvIdleTask_yields :: "kernel \<Rightarrow> bool" where
  "prvIdleTask_yields k \<longleftrightarrow> length (items (Ready (unat tskIDLE_PRIORITY)) k) > 1"

section \<open>The state of all tasks\<close>

text \<open>\<open>TaskStatus_t\<close> without names and stacks; \<open>eInvalid\<close> as an argument asks for the actual state.\<close>

record task_status =
  xHandle :: nat
  uxCurrentPriority :: u32
  xTaskNumber :: u32
  status_base :: u32
  eCurrentState :: task_state

definition vTaskGetTaskInfo :: "nat \<Rightarrow> task_state option \<Rightarrow> kernel \<Rightarrow> task_status" where
  "vTaskGetTaskInfo t st k =
     \<lparr>xHandle = t, uxCurrentPriority = prio k t, xTaskNumber = uxTCBNumber (tcbs k t),
      status_base = uxBasePriority (tcbs k t),
      eCurrentState = (case st of Some s \<Rightarrow> s | None \<Rightarrow> eTaskGetState t k)\<rparr>"

text \<open>The walk over a list with its index, until the first owner comes again.\<close>

partial_function (option) list_walk ::
    "klist \<Rightarrow> nat \<Rightarrow> task_state \<Rightarrow> kernel \<Rightarrow> (task_status list \<times> kernel) option" where
  "list_walk l first st k = do {
     (t, a) \<leftarrow> next_owner l (lists k);
     let k = k\<lparr>lists := a\<rparr>;
     (r, k') \<leftarrow> (if t = first then Some ([], k) else list_walk l first st k);
     Some (vTaskGetTaskInfo t (Some st) k # r, k')
   }"

definition prvListTasksWithinSingleList ::
    "klist \<Rightarrow> task_state \<Rightarrow> kernel \<Rightarrow> (task_status list \<times> kernel) option" where
  "prvListTasksWithinSingleList l st k =
     (if length (items l k) > 0 then do {
        (first, a) \<leftarrow> next_owner l (lists k);
        list_walk l first st (k\<lparr>lists := a\<rparr>)
      }
      else Some ([], k))"

fun list_tasks :: "(klist \<times> task_state) list \<Rightarrow> kernel \<Rightarrow> (task_status list \<times> kernel) option" where
  "list_tasks [] k = Some ([], k)"
| "list_tasks ((l, st) # ls) k = do {
     (r, k) \<leftarrow> prvListTasksWithinSingleList l st k;
     (r', k) \<leftarrow> list_tasks ls k;
     Some (r @ r', k)
   }"

definition uxTaskGetSystemState :: "u32 \<Rightarrow> kernel \<Rightarrow> (task_status list \<times> kernel) option" where
  "uxTaskGetSystemState n k = do {
     let k = vTaskSuspendAll k;
     (r, k) \<leftarrow>
       (if n \<ge> uxCurrentNumberOfTasks k
        then list_tasks (map (\<lambda>p. (Ready p, eReady)) (rev [0..<unat configMAX_PRIORITIES]) @
               [(pxDelayedTaskList k, eBlocked), (pxOverflowDelayedTaskList k, eBlocked),
                (TasksWaitingTermination, eDeleted), (SuspendedTaskList, eSuspended)]) k
        else Some ([], k));
     (y, k) \<leftarrow> xTaskResumeAll k;
     Some (r, k)
   }"

declare pending_loop.simps [code] wake_loop.simps [code] list_walk.simps [code]

end
