(* ===== verification/Kernel_Sched.thy ===== *)
theory Kernel_Sched
  imports Kernel_Tasks
begin

text \<open>
  What the scheduler keeps: the invariant of its lists, its effect on the operations of
  \<open>Kernel_Tasks\<close>, and the properties of the tick, of delays and of the choice of the running task.

  The invariant is stated on the parts of the state it speaks of, so that an operation that only
  changes another field keeps it by simplification; \<open>T\<close> is the set of tasks that are in no state
  list, which is empty between operations.
\<close>

section \<open>The invariant\<close>

fun is_event :: "klist \<Rightarrow> bool" where
  "is_event PendingReadyList = True" | "is_event (EventList n) = True" | "is_event _ = False"

definition kinds :: "nat set \<Rightarrow> lists \<Rightarrow> bool" where
  "kinds N a \<longleftrightarrow> (\<forall>l i. i \<in> set (elems a l) \<longrightarrow>
     (\<exists>t\<in>N. i = (if is_event l then EventItem t else StateItem t)))"

definition placed :: "nat set \<Rightarrow> nat set \<Rightarrow> lists \<Rightarrow> bool" where
  "placed N T a \<longleftrightarrow> T \<subseteq> N \<and> (\<forall>t\<in>N. container a (StateItem t) = None \<longleftrightarrow> t \<in> T)"

definition ready_at :: "(nat \<Rightarrow> u32) \<Rightarrow> lists \<Rightarrow> bool" where
  "ready_at P a \<longleftrightarrow> (\<forall>t p. StateItem t \<in> set (elems a (Ready p)) \<longrightarrow> p = unat (P t))"

definition not_waiting :: "nat set \<Rightarrow> lists \<Rightarrow> bool" where
  "not_waiting W a \<longleftrightarrow>
     (\<forall>t p. StateItem t \<in> set (elems a (Ready p)) \<longrightarrow> t \<notin> W \<longrightarrow> container a (EventItem t) = None)"

definition bitmap :: "u32 \<Rightarrow> lists \<Rightarrow> bool" where
  "bitmap b a \<longleftrightarrow> (\<forall>n. bit b n \<longleftrightarrow> n < 6 \<and> elems a (Ready n) \<noteq> [])"

definition by_value :: "lists \<Rightarrow> item list \<Rightarrow> bool" where
  "by_value a xs \<longleftrightarrow> sorted_wrt (\<lambda>i j. item_value a i \<le> item_value a j) xs"

definition timed :: "klist \<Rightarrow> klist \<Rightarrow> u32 \<Rightarrow> u32 \<Rightarrow> lists \<Rightarrow> bool" where
  "timed d ov now nx a \<longleftrightarrow>
     (d, ov) \<in> {(DelayedTaskList1, DelayedTaskList2), (DelayedTaskList2, DelayedTaskList1)} \<and>
     by_value a (elems a d) \<and> by_value a (elems a ov) \<and>
     (\<forall>i \<in> set (elems a d). now < item_value a i \<and> nx \<le> item_value a i) \<and>
     (\<forall>i \<in> set (elems a ov). item_value a i < now)"

definition core :: "nat set \<Rightarrow> nat set \<Rightarrow> nat set \<Rightarrow> kernel \<Rightarrow> bool" where
  "core N T W k \<longleftrightarrow>
     lists_ok (lists k) \<and> kinds N (lists k) \<and> placed N T (lists k) \<and> ready_at (prio k) (lists k) \<and>
     not_waiting W (lists k) \<and> bitmap (uxTopReadyPriority k) (lists k) \<and> (\<forall>t\<in>N. prio k t < 6) \<and>
     (\<exists>c\<in>N. pxCurrentTCB k = Some c)"

definition on_time :: "kernel \<Rightarrow> bool" where
  "on_time k \<longleftrightarrow>
     timed (pxDelayedTaskList k) (pxOverflowDelayedTaskList k) (xTickCount k)
       (xNextTaskUnblockTime k) (lists k)"

text \<open>The lists after an item is taken off the list \<open>l\<close>, and after one is put on it.\<close>

definition taken :: "klist \<Rightarrow> item \<Rightarrow> lists \<Rightarrow> lists \<Rightarrow> bool" where
  "taken l i a a' \<longleftrightarrow> lists_ok a' \<and> elems a' = (elems a)(l := remove1 i (elems a l)) \<and>
     item_value a' = item_value a \<and> container a' = (container a)(i := None)"

definition put_on :: "klist \<Rightarrow> item \<Rightarrow> item list \<Rightarrow> lists \<Rightarrow> lists \<Rightarrow> bool" where
  "put_on l i xs a a' \<longleftrightarrow> lists_ok a' \<and> elems a' = (elems a)(l := xs) \<and>
     set xs = insert i (set (elems a l)) \<and>
     item_value a' = item_value a \<and> container a' = (container a)(i := Some l)"

lemma sorted_wrt_remove1: "sorted_wrt R xs \<Longrightarrow> sorted_wrt R (remove1 i xs)"
  using set_remove1_subset by (induction xs) fastforce+

lemma bit_mask_u32: "bit (push_bit p 1 :: u32) n \<longleftrightarrow> n = p \<and> p < 32"
  by (auto simp: bit_exp_iff possible_bit_def)

lemma takenD:
  assumes "taken l i a a'"
  shows "set (elems a' k) \<subseteq> set (elems a k)" "item_value a' = item_value a"
    "container a' j = None \<longleftrightarrow> container a j = None \<or> j = i"
    "k \<noteq> l \<Longrightarrow> elems a' k = elems a k"
  using assms set_remove1_subset [of i "elems a l"] by (auto simp: taken_def)

lemma taken_kinds: "taken l i a a' \<Longrightarrow> kinds N a \<Longrightarrow> kinds N a'"
  unfolding kinds_def using takenD(1) by blast

lemma taken_ready_at: "taken l i a a' \<Longrightarrow> ready_at P a \<Longrightarrow> ready_at P a'"
  unfolding ready_at_def using takenD(1) by blast

lemma taken_not_waiting: "taken l i a a' \<Longrightarrow> not_waiting W a \<Longrightarrow> not_waiting W a'"
  unfolding not_waiting_def using takenD(1) takenD(3) by blast

lemma taken_timed:
  assumes "taken l i a a'" "timed d ov now nx a"
  shows "timed d ov now nx a'"
proof -
  have "by_value a' (elems a' m)" if "by_value a (elems a m)" for m
    using that assms(1) sorted_wrt_remove1 by (auto simp: taken_def by_value_def)
  with assms takenD(1) [OF assms(1)] show ?thesis
    unfolding timed_def takenD(2) [OF assms(1)] by blast
qed

lemma taken_bitmap:
  assumes "taken l i a a'" "bitmap b a"
    and "\<And>p. l = Ready p \<Longrightarrow> elems a' l \<noteq> []"
  shows "bitmap b a'"
proof -
  have "elems a' (Ready n) \<noteq> [] \<longleftrightarrow> elems a (Ready n) \<noteq> []" for n
    using assms(1,3) by (cases "l = Ready n") (auto simp: taken_def)
  with assms(2) show ?thesis by (simp add: bitmap_def)
qed

lemma taken_bitmap_reset:
  assumes "taken (Ready p) i a a'" "bitmap b a" "elems a' (Ready p) = []"
  shows "bitmap (b AND NOT (push_bit p 1)) a'"
proof -
  have "elems a' (Ready n) = (if n = p then [] else elems a (Ready n))" for n
    using assms(1,3) by (auto simp: taken_def)
  with assms(2) show ?thesis
    by (auto simp: bitmap_def bit_and_iff bit_not_iff bit_mask_u32 simp del: push_bit_of_1)
qed


lemma put_onD:
  assumes "put_on l i xs a a'"
  shows "set (elems a' m) = (if m = l then insert i (set (elems a l)) else set (elems a m))"
    "item_value a' = item_value a"
    "container a' j = (if j = i then Some l else container a j)"
    "m \<noteq> l \<Longrightarrow> elems a' m = elems a m"
  using assms by (auto simp: put_on_def)

lemma put_kinds:
  assumes "put_on l i xs a a'" "kinds N a"
    and "\<exists>t\<in>N. i = (if is_event l then EventItem t else StateItem t)"
  shows "kinds N a'"
  using assms(2,3) unfolding kinds_def put_onD(1) [OF assms(1)] by (metis insert_iff)

lemma put_ready_at:
  assumes "put_on l i xs a a'" "ready_at P a"
    and "\<And>p. l = Ready p \<Longrightarrow> \<exists>t. i = StateItem t \<and> p = unat (P t)"
  shows "ready_at P a'"
  unfolding ready_at_def put_onD(1) [OF assms(1)]
proof (intro allI impI)
  fix t p
  assume "StateItem t \<in> (if Ready p = l then insert i (set (elems a l)) else set (elems a (Ready p)))"
  with assms(3) [of p] have "StateItem t \<in> set (elems a (Ready p)) \<or> p = unat (P t)"
    by (auto split: if_splits)
  with assms(2) show "p = unat (P t)" unfolding ready_at_def by blast
qed

lemma put_not_waiting:
  assumes p: "put_on l i xs a a'" and n: "not_waiting W a"
    and s: "\<And>p t. l = Ready p \<Longrightarrow> i = StateItem t \<Longrightarrow> container a (EventItem t) = None"
    and e: "\<And>p t. i = EventItem t \<Longrightarrow> t \<notin> W \<Longrightarrow>
              StateItem t \<notin> set (elems a (Ready p))"
    and r: "\<And>p t. i = EventItem t \<Longrightarrow> l \<noteq> Ready p"
  shows "not_waiting W a'"
  unfolding not_waiting_def put_onD(1,3) [OF p]
proof (intro allI impI)
  fix t p
  assume m: "StateItem t \<in> (if Ready p = l then insert i (set (elems a l)) else set (elems a (Ready p)))"
    and w: "t \<notin> W"
  show "(if EventItem t = i then Some l else container a (EventItem t)) = None"
  proof (cases "StateItem t \<in> set (elems a (Ready p))")
    case True
    then have "i \<noteq> EventItem t" using e w by blast
    with True n w show ?thesis by (auto simp: not_waiting_def)
  next
    case False
    with m have "l = Ready p" "i = StateItem t" by (auto split: if_splits)
    with s show ?thesis by simp
  qed
qed

lemma put_timed:
  assumes "put_on l i xs a a'" "timed d ov now nx a" "l \<noteq> d" "l \<noteq> ov"
  shows "timed d ov now nx a'"
  using assms by (simp add: timed_def put_on_def by_value_def)

lemma put_bitmap:
  assumes "put_on l i xs a a'" "bitmap b a" "\<And>p. l \<noteq> Ready p"
  shows "bitmap b a'"
proof -
  have "elems a' (Ready n) = elems a (Ready n)" for n
    using put_onD(4) [OF assms(1)] assms(3) by metis
  with assms(2) show ?thesis by (simp add: bitmap_def)
qed

lemma put_bitmap_record:
  assumes "put_on (Ready p) i xs a a'" "bitmap b a" "p < 6"
  shows "bitmap (b OR push_bit p 1) a'"
proof -
  have "elems a' (Ready n) \<noteq> [] \<longleftrightarrow> elems a (Ready n) \<noteq> [] \<or> n = p" for n
    using put_onD(1) [OF assms(1), of "Ready n"] by (metis insert_not_empty klist.inject(1) set_empty)
  with assms(2,3) show ?thesis
    by (auto simp: bitmap_def bit_or_iff bit_mask_u32 simp del: push_bit_of_1)
qed

lemma list_insert_end_put:
  assumes "lists_ok a" "container a i = None"
  shows "\<exists>a'. list_insert_end l i a = Some a' \<and>
    put_on l i (before_index (list_index a l) i (elems a l)) a a'"
  using list_insert_end_ok [OF assms, of l] by (auto simp: put_on_def)

lemma list_insert_put:
  assumes "lists_ok a" "container a i = None"
  shows "\<exists>a'. list_insert l i a = Some a' \<and> put_on l i (ins_by (item_value a) i (elems a l)) a a'"
  using list_insert_ok [OF assms, of l] by (auto simp: put_on_def)

lemma list_remove_taken:
  assumes "lists_ok a" "container a i = Some l"
  shows "\<exists>a'. list_remove i a = Some (length (elems a' l), a') \<and> taken l i a a'"
  using list_remove_ok [OF assms] by (auto simp: taken_def)

section \<open>The moves of a task\<close>

lemma coreD:
  assumes "core N T W k"
  shows "lists_ok (lists k)" "kinds N (lists k)" "placed N T (lists k)"
    "ready_at (prio k) (lists k)" "not_waiting W (lists k)" "bitmap (uxTopReadyPriority k) (lists k)"
    "\<And>t. t \<in> N \<Longrightarrow> prio k t < 6"
  using assms by (auto simp: core_def)

lemma prio_updates [simp]:
  "prio (k\<lparr>lists := a\<rparr>) = prio k" "prio (k\<lparr>uxTopReadyPriority := b\<rparr>) = prio k"
  "prio (k\<lparr>pxCurrentTCB := c\<rparr>) = prio k" "prio (k\<lparr>xNextTaskUnblockTime := n\<rparr>) = prio k"
  "prio (k\<lparr>xTickCount := n\<rparr>) = prio k" "prio (k\<lparr>pendsv := y\<rparr>) = prio k"
  "prio (k\<lparr>xYieldPending := y\<rparr>) = prio k" "prio (k\<lparr>uxSchedulerSuspended := n\<rparr>) = prio k"
  "prio (k\<lparr>uxPendedTicks := n\<rparr>) = prio k" "prio (k\<lparr>pxDelayedTaskList := l\<rparr>) = prio k"
  "prio (k\<lparr>pxOverflowDelayedTaskList := l\<rparr>) = prio k" "prio (k\<lparr>xNumOfOverflows := n\<rparr>) = prio k"
  by (simp_all add: prio_def fun_eq_iff)

lemma state_kind:
  assumes "core N T W k" "i \<in> set (elems (lists k) l)" "\<not> is_event l"
  shows "\<exists>t\<in>N. i = StateItem t"
  using coreD(2) [OF assms(1)] assms(2,3) unfolding kinds_def by metis

lemma event_kind:
  assumes "core N T W k" "i \<in> set (elems (lists k) l)" "is_event l"
  shows "\<exists>t\<in>N. i = EventItem t"
  using coreD(2) [OF assms(1)] assms(2,3) unfolding kinds_def by metis

text \<open>The invariants that taking an item off its list keeps.\<close>

lemma taken_core:
  assumes c: "core N T W k" and tk: "taken l i (lists k) a'"
    and b: "bitmap b a'" and p: "placed N T' a'"
  shows "core N T' W (k\<lparr>lists := a', uxTopReadyPriority := b\<rparr>)"
proof -
  have "lists_ok a'" using tk by (simp add: taken_def)
  with taken_kinds [OF tk] taken_ready_at [OF tk] taken_not_waiting [OF tk] c b p
  show ?thesis unfolding core_def by simp
qed

lemma taken_on_time:
  "on_time k \<Longrightarrow> taken l i (lists k) a' \<Longrightarrow> on_time (k\<lparr>lists := a', uxTopReadyPriority := b\<rparr>)"
  by (simp add: on_time_def taken_timed)

lemma taken_placed_state:
  assumes "placed N T a" "t \<in> N" "taken l (StateItem t) a a'"
  shows "placed N (insert t T) a'"
  using assms takenD(3) [OF assms(3)] by (auto simp: placed_def)

lemma taken_placed_event:
  assumes "placed N T a" "taken l (EventItem t) a a'"
  shows "placed N T a'"
  using assms takenD(3) [OF assms(2)] by (auto simp: placed_def)

lemma reset_bitmap:
  assumes "bitmap b a" "elems a (Ready p) = []"
  shows "bitmap (b AND NOT (push_bit p 1)) a"
  unfolding bitmap_def
proof
  fix n
  from assms(1) have b: "bit b n \<longleftrightarrow> n < 6 \<and> elems a (Ready n) \<noteq> []" by (simp add: bitmap_def)
  have "bit (b AND NOT (push_bit p 1)) n \<longleftrightarrow> bit b n \<and> \<not> (n = p \<and> p < 32)"
    by (simp add: bit_and_iff bit_not_iff bit_mask_u32 del: push_bit_of_1)
       (use b in \<open>auto simp: possible_bit_def\<close>)
  with b assms(2) show "bit (b AND NOT (push_bit p 1)) n \<longleftrightarrow> n < 6 \<and> elems a (Ready n) \<noteq> []"
    by (cases "n = p") auto
qed

lemma state_item_listed:
  assumes "core N T W k" "t \<in> N" "t \<notin> T"
  obtains l where "container (lists k) (StateItem t) = Some l" "StateItem t \<in> set (elems (lists k) l)"
    "\<not> is_event l" "\<And>p. l = Ready p \<Longrightarrow> p = unat (prio k t)"
proof -
  note C = coreD [OF assms(1)]
  from C(3) assms(2,3) obtain l where l: "container (lists k) (StateItem t) = Some l"
    by (auto simp: placed_def)
  with C(1) have m: "StateItem t \<in> set (elems (lists k) l)" by (simp add: lists_ok_container)
  moreover have "\<not> is_event l" using C(2) m by (auto simp: kinds_def split: if_splits)
  moreover have "p = unat (prio k t)" if "l = Ready p" for p
    using C(4) m that by (simp add: ready_at_def)
  ultimately show ?thesis using l that by blast
qed

lemma prio_nat:
  assumes "core N T W k" "t \<in> N"
  shows "unat (prio k t) < 6" "ready_list (prio k t) = Some (Ready (unat (prio k t)))"
  using coreD(7) [OF assms] by (simp_all add: ready_list_def prog_defs word_less_nat_alt)

lemma remove_state_core:
  assumes c: "core N T W k" and t: "t \<in> N" "t \<notin> T"
  shows "\<exists>l a' b. remove_state t k = Some (k\<lparr>lists := a', uxTopReadyPriority := b\<rparr>) \<and>
    container (lists k) (StateItem t) = Some l \<and> taken l (StateItem t) (lists k) a' \<and>
    core N (insert t T) W (k\<lparr>lists := a', uxTopReadyPriority := b\<rparr>)"
proof -
  note C = coreD [OF c]
  from state_item_listed [OF c t] obtain l where l: "container (lists k) (StateItem t) = Some l"
    "\<And>p. l = Ready p \<Longrightarrow> p = unat (prio k t)" by metis
  from list_remove_taken [OF C(1) l(1)] obtain a' where
    a': "list_remove (StateItem t) (lists k) = Some (length (elems a' l), a')"
      "taken l (StateItem t) (lists k) a'" by blast
  let ?p = "unat (prio k t)" and ?b = "uxTopReadyPriority k"
  let ?e = "elems a' l = [] \<and> elems a' (Ready ?p) = []"
  let ?b' = "if ?e then ?b AND NOT (push_bit ?p 1) else ?b"
  have r: "remove_state t k = Some (k\<lparr>lists := a', uxTopReadyPriority := ?b'\<rparr>)"
    using a'(1) prio_nat(2) [OF c t(1)]
    by (simp add: remove_state_def k_remove_def taskRESET_READY_PRIORITY_def items_def prio_def
        portRESET_READY_PRIORITY_def)
  have "bitmap ?b' a'"
  proof (cases "\<exists>p. l = Ready p")
    case True
    with l(2) have lp: "l = Ready ?p" by auto
    show ?thesis
    proof (cases "elems a' (Ready ?p) = []")
      case True
      with taken_bitmap_reset [of ?p "StateItem t" "lists k" a' ?b] a'(2) C(6) lp show ?thesis
        by (simp del: push_bit_of_1)
    next
      case False
      with taken_bitmap [OF a'(2) C(6)] lp show ?thesis by simp
    qed
  next
    case False
    then have "bitmap ?b a'" using taken_bitmap [OF a'(2) C(6)] by blast
    then show ?thesis using reset_bitmap [of ?b a' ?p] by (simp del: push_bit_of_1)
  qed
  from taken_core [OF c a'(2) this taken_placed_state [OF C(3) t(1) a'(2)]] r a'(2) l(1)
  show ?thesis by blast
qed


lemma taken_core_lists:
  assumes "core N T W k" "taken l i (lists k) a'" "bitmap (uxTopReadyPriority k) a'" "placed N T' a'"
  shows "core N T' W (k\<lparr>lists := a'\<rparr>)"
  using taken_core [OF assms] by simp

lemma k_remove_core:
  assumes c: "core N T W k" and t: "t \<in> N" "t \<notin> T"
    and nr: "\<And>p. container (lists k) (StateItem t) \<noteq> Some (Ready p)"
  shows "\<exists>n l a'. k_remove (StateItem t) k = Some (n, k\<lparr>lists := a'\<rparr>) \<and>
    container (lists k) (StateItem t) = Some l \<and> taken l (StateItem t) (lists k) a' \<and>
    core N (insert t T) W (k\<lparr>lists := a'\<rparr>)"
proof -
  note C = coreD [OF c]
  from state_item_listed [OF c t] obtain l where l: "container (lists k) (StateItem t) = Some l"
    by metis
  from list_remove_taken [OF C(1) l] obtain a' where
    a': "list_remove (StateItem t) (lists k) = Some (length (elems a' l), a')"
      "taken l (StateItem t) (lists k) a'" by blast
  have "bitmap (uxTopReadyPriority k) a'" using taken_bitmap [OF a'(2) C(6)] nr l by metis
  from taken_core_lists [OF c a'(2) this taken_placed_state [OF C(3) t(1) a'(2)]] a' l
  show ?thesis by (auto simp: k_remove_def)
qed

lemma remove_event_core:
  assumes c: "core N T W k"
  shows "\<exists>a'. remove_event t k = Some (k\<lparr>lists := a'\<rparr>) \<and> core N T W (k\<lparr>lists := a'\<rparr>) \<and>
    container a' (EventItem t) = None \<and> item_value a' = item_value (lists k) \<and>
    (\<forall>i. i \<noteq> EventItem t \<longrightarrow> container a' i = container (lists k) i) \<and>
    (\<forall>l. \<not> is_event l \<longrightarrow> elems a' l = elems (lists k) l) \<and>
    (\<forall>l. set (elems a' l) \<subseteq> set (elems (lists k) l))"
proof (cases "container (lists k) (EventItem t)")
  case None
  then have "remove_event t k = Some (k\<lparr>lists := lists k\<rparr>)"
    by (simp add: remove_event_def container_of_def)
  with None c show ?thesis by (metis kernel.surjective kernel.update_convs(1) subset_refl)
next
  case (Some l)
  note C = coreD [OF c]
  from list_remove_taken [OF C(1) Some] obtain a' where
    a': "list_remove (EventItem t) (lists k) = Some (length (elems a' l), a')"
      "taken l (EventItem t) (lists k) a'" by blast
  have "EventItem t \<in> set (elems (lists k) l)" using C(1) Some by (simp add: lists_ok_container)
  with C(2) have ev: "is_event l" by (force simp: kinds_def split: if_splits)
  then have b: "bitmap (uxTopReadyPriority k) a'" by (intro taken_bitmap [OF a'(2) C(6)]) auto
  from taken_core_lists [OF c a'(2) b taken_placed_event [OF C(3) a'(2)]]
  have "core N T W (k\<lparr>lists := a'\<rparr>)" .
  moreover have "remove_event t k = Some (k\<lparr>lists := a'\<rparr>)"
    using a'(1) Some by (simp add: remove_event_def k_remove_def container_of_def)
  moreover have "\<not> is_event m \<Longrightarrow> elems a' m = elems (lists k) m" for m
    using takenD(4) [OF a'(2), of m] ev by metis
  moreover have "container a' = (container (lists k))(EventItem t := None)"
    using a'(2) by (simp add: taken_def)
  ultimately show ?thesis
    using takenD(1,2) [OF a'(2)] by (intro exI [of _ a']) simp
qed

lemma put_core:
  assumes c: "core N T W k" and p: "put_on l i xs (lists k) a'"
    and kd: "\<exists>t\<in>N. i = (if is_event l then EventItem t else StateItem t)"
    and pl: "placed N T' a'" and b: "bitmap b a'"
    and r: "\<And>q. l = Ready q \<Longrightarrow> \<exists>t. i = StateItem t \<and> q = unat (prio k t) \<and>
              container (lists k) (EventItem t) = None"
    and e: "\<And>t q. i = EventItem t \<Longrightarrow> t \<notin> W \<Longrightarrow> StateItem t \<notin> set (elems (lists k) (Ready q))"
  shows "core N T' W (k\<lparr>lists := a', uxTopReadyPriority := b\<rparr>)"
proof -
  note C = coreD [OF c]
  have "lists_ok a'" using p by (simp add: put_on_def)
  moreover have "kinds N a'" by (rule put_kinds [OF p C(2) kd])
  moreover have "ready_at (prio k) a'" by (rule put_ready_at [OF p C(4)]) (use r in blast)
  moreover have "not_waiting W a'"
  proof (rule put_not_waiting [OF p C(5)])
    show "container (lists k) (EventItem t) = None" if "l = Ready q" "i = StateItem t" for q t
      using r [OF that(1)] that(2) by auto
    show "StateItem t \<notin> set (elems (lists k) (Ready q))" if "i = EventItem t" "t \<notin> W" for q t
      using e [OF that] .
    show "l \<noteq> Ready q" if "i = EventItem t" for q t
      using r that by (metis item.distinct(1))
  qed
  ultimately show ?thesis using c b pl unfolding core_def by simp
qed

lemma placed_put_state:
  assumes "placed N T a" "t \<in> T" "put_on l (StateItem t) xs a a'"
  shows "placed N (T - {t}) a'"
  using assms put_onD(3) [OF assms(3)] by (auto simp: placed_def)

lemma placed_put_event:
  assumes "placed N T a" "put_on l (EventItem t) xs a a'"
  shows "placed N T a'"
  using assms put_onD(3) [OF assms(2)] by (auto simp: placed_def)

lemma placed_state_unlisted:
  "core N T W k \<Longrightarrow> t \<in> T \<Longrightarrow> container (lists k) (StateItem t) = None \<and> t \<in> N"
  by (auto simp: core_def placed_def)

lemma add_ready_core:
  assumes c: "core N T W k" and t: "t \<in> T" and e: "container (lists k) (EventItem t) = None"
  shows "\<exists>xs a' b. prvAddTaskToReadyList t k = Some (k\<lparr>lists := a', uxTopReadyPriority := b\<rparr>) \<and>
    put_on (Ready (unat (prio k t))) (StateItem t) xs (lists k) a' \<and>
    core N (T - {t}) W (k\<lparr>lists := a', uxTopReadyPriority := b\<rparr>)"
proof -
  note C = coreD [OF c]
  let ?l = "Ready (unat (prio k t))"
  from placed_state_unlisted [OF c t] have u: "container (lists k) (StateItem t) = None" "t \<in> N"
    by auto
  from list_insert_end_put [OF C(1) u(1), of ?l] obtain a' xs where
    a': "list_insert_end ?l (StateItem t) (lists k) = Some a'" "put_on ?l (StateItem t) xs (lists k) a'"
    by blast
  let ?b = "uxTopReadyPriority k OR push_bit (unat (prio k t)) 1"
  have b: "bitmap ?b a'" by (rule put_bitmap_record [OF a'(2) C(6) prio_nat(1) [OF c u(2)]])
  have "core N (T - {t}) W (k\<lparr>lists := a', uxTopReadyPriority := ?b\<rparr>)"
    by (rule put_core [OF c a'(2) _ placed_put_state [OF C(3) t a'(2)] b]) (use u(2) e in auto)
  moreover have "prvAddTaskToReadyList t k = Some (k\<lparr>lists := a', uxTopReadyPriority := ?b\<rparr>)"
    using a'(1) prio_nat(2) [OF c u(2)]
    by (simp add: prvAddTaskToReadyList_def taskRECORD_READY_PRIORITY_def k_insert_end_def
        del: push_bit_of_1)
  ultimately show ?thesis using a'(2) by blast
qed

text \<open>A state item on a list that is not a ready list.\<close>

lemma put_state_core:
  assumes c: "core N T W k" and t: "t \<in> T" and l: "\<And>p. l \<noteq> Ready p" "\<not> is_event l"
    and p: "put_on l (StateItem t) xs (lists k) a'"
  shows "core N (T - {t}) W (k\<lparr>lists := a'\<rparr>)"
proof -
  note C = coreD [OF c]
  from placed_state_unlisted [OF c t] have u: "t \<in> N" by auto
  have b: "bitmap (uxTopReadyPriority k) a'" using put_bitmap [OF p C(6)] l(1) by blast
  from put_core [OF c p _ placed_put_state [OF C(3) t p] b] u l show ?thesis by auto
qed

text \<open>An event item on an event list, for a task that is not ready.\<close>

lemma put_event_core:
  assumes c: "core N T W k" and t: "t \<in> N" and l: "is_event l"
    and r: "\<And>p. t \<notin> W \<Longrightarrow> StateItem t \<notin> set (elems (lists k) (Ready p))"
    and p: "put_on l (EventItem t) xs (lists k) a'"
  shows "core N T W (k\<lparr>lists := a'\<rparr>)"
proof -
  note C = coreD [OF c]
  have nr: "\<And>q. l \<noteq> Ready q" using l by auto
  have b: "bitmap (uxTopReadyPriority k) a'" by (rule put_bitmap [OF p C(6) nr])
  from put_core [OF c p _ placed_put_event [OF C(3) p] b] t l r nr show ?thesis by auto
qed

lemma core_mono: "core N T W k \<Longrightarrow> W \<subseteq> W' \<Longrightarrow> core N T W' k"
  by (auto simp: core_def not_waiting_def)

text \<open>A task in no state list, or in a list of waiting tasks, needs no exemption.\<close>

lemma core_settle:
  assumes "core N T W k" "\<And>p. StateItem t \<notin> set (elems (lists k) (Ready p))"
  shows "core N T (W - {t}) k"
  using assms by (auto simp: core_def not_waiting_def)

lemma on_time_lists:
  assumes "on_time k" and "pxDelayedTaskList k' = pxDelayedTaskList k"
    "pxOverflowDelayedTaskList k' = pxOverflowDelayedTaskList k" "xTickCount k' = xTickCount k"
    "xNextTaskUnblockTime k' = xNextTaskUnblockTime k"
    "timed (pxDelayedTaskList k) (pxOverflowDelayedTaskList k) (xTickCount k) (xNextTaskUnblockTime k) (lists k')"
  shows "on_time k'"
  using assms by (simp add: on_time_def)


section \<open>The running task\<close>

definition sched_ok :: "nat set \<Rightarrow> kernel \<Rightarrow> bool" where
  "sched_ok N k \<longleftrightarrow> core N {} {} k \<and> on_time k"

definition is_ready :: "nat \<Rightarrow> kernel \<Rightarrow> bool" where
  "is_ready t k \<longleftrightarrow> (\<exists>p. container_of (StateItem t) k = Some (Ready p))"

lemma is_ready_code [code]:
  "is_ready t k \<longleftrightarrow> (case container_of (StateItem t) k of Some (Ready p) \<Rightarrow> True | _ \<Rightarrow> False)"
  by (auto simp: is_ready_def split: option.splits klist.splits)

lemma ready_in_list:
  assumes "core N T W k"
  shows "is_ready t k \<longleftrightarrow> StateItem t \<in> set (elems (lists k) (Ready (unat (prio k t))))"
proof -
  note C = coreD [OF assms]
  have "container (lists k) (StateItem t) = Some (Ready p) \<longleftrightarrow>
      StateItem t \<in> set (elems (lists k) (Ready p)) \<and> p = unat (prio k t)" for p
    using C(1,4) by (auto simp: lists_ok_container ready_at_def)
  then show ?thesis by (simp add: is_ready_def container_of_def)
qed

lemma highest_priority:
  assumes b: "bitmap b a" and m: "elems a (Ready m) \<noteq> []" "m < 6"
  shows "\<exists>p. portGET_HIGHEST_PRIORITY b = Some (of_nat p) \<and> p < 6 \<and> elems a (Ready p) \<noteq> [] \<and>
    (\<forall>q<6. elems a (Ready q) \<noteq> [] \<longrightarrow> q \<le> p)"
proof -
  let ?xs = "rev [0..<32 :: nat]"
  have bm: "bit b m" using b m by (simp add: bitmap_def)
  have nth: "?xs ! i = 31 - i" if "i < 32" for i
    using that by (simp add: rev_nth)
  have "find (bit b) ?xs \<noteq> None" using bm m(2) by (auto simp: find_None_iff intro!: exI [of _ m])
  then obtain p where p: "find (bit b) ?xs = Some p" by blast
  then obtain i where i: "i < 32" "bit b (?xs ! i)" "p = ?xs ! i" "\<And>j. j < i \<Longrightarrow> \<not> bit b (?xs ! j)"
    by (auto simp: find_Some_iff)
  then have p': "p = 31 - i" "bit b p" using nth by auto
  then have P: "p < 6" "elems a (Ready p) \<noteq> []" using b by (simp_all add: bitmap_def)
  have "q \<le> p" if "q < 6" "elems a (Ready q) \<noteq> []" for q
  proof (rule ccontr)
    assume "\<not> q \<le> p"
    then have j: "31 - q < i" "q < 32" using p'(1) i(1) that(1) by auto
    have "\<not> bit b (31 - (31 - q))" using i(4) [OF j(1)] nth [of "31 - q"] by simp
    with b that j(2) show False by (simp add: bitmap_def)
  qed
  with P p show ?thesis by (auto simp: portGET_HIGHEST_PRIORITY_def)
qed

lemma list_in_order:
  assumes "core N T W k"
  shows "is_ready t k \<Longrightarrow> t \<in> N"
  using coreD(2) [OF assms] ready_in_list [OF assms, of t] by (force simp: kinds_def)

lemma scheduler_picks_highest:
  assumes s: "sched_ok N k" and u: "uxSchedulerSuspended k = 0" and r: "is_ready r k"
  shows "\<exists>k' t. vTaskSwitchContext k = Some k' \<and> pxCurrentTCB k' = Some t \<and> is_ready t k' \<and>
    (\<forall>q. is_ready q k' \<longrightarrow> prio k' q \<le> prio k' t) \<and> sched_ok N k' \<and>
    (\<forall>q. is_ready q k' \<longleftrightarrow> is_ready q k)"
proof -
  from s have c: "core N {} {} k" and ot: "on_time k" by (simp_all add: sched_ok_def)
  note C = coreD [OF c]
  from r list_in_order [OF c] have rN: "r \<in> N" by blast
  from r have "elems (lists k) (Ready (unat (prio k r))) \<noteq> []"
    using ready_in_list [OF c, of r] by auto
  from highest_priority [OF C(6) this prio_nat(1) [OF c rN]] obtain p where
    p: "portGET_HIGHEST_PRIORITY (uxTopReadyPriority k) = Some (of_nat p)" "p < 6"
      "elems (lists k) (Ready p) \<noteq> []" "\<And>q. q < 6 \<Longrightarrow> elems (lists k) (Ready q) \<noteq> [] \<Longrightarrow> q \<le> p"
    by blast
  from next_owner_ok [OF C(1) p(3)] obtain i a' where
    i: "next_owner (Ready p) (lists k) = Some (owner i, a')" "i \<in> set (elems (lists k) (Ready p))"
      "lists_ok a'" "elems a' = elems (lists k)" "item_value a' = item_value (lists k)"
      "container a' = container (lists k)" by blast
  from C(2) i(2) obtain t where t: "i = StateItem t" "t \<in> N" by (fastforce simp: kinds_def)
  let ?k = "k\<lparr>xYieldPending := False, pxCurrentTCB := Some t, lists := a'\<rparr>"
  have "unat (of_nat p :: u32) = p" "(of_nat p :: u32) < 6"
    using p(2) by (simp_all add: unat_u32_of_nat word_less_nat_alt)
  then have k': "vTaskSwitchContext k = Some ?k"
    using u p(1) i(1) t(1)
    by (simp add: vTaskSwitchContext_def taskSELECT_HIGHEST_PRIORITY_TASK_def ready_list_def prog_defs)
  have same: "is_ready q ?k \<longleftrightarrow> is_ready q k" for q by (simp add: is_ready_def container_of_def i(6))
  have core': "core N {} {} ?k"
    using c i(3-6) t(2)
    by (simp add: core_def kinds_def placed_def ready_at_def not_waiting_def bitmap_def)
  have "on_time ?k" using ot i(4,5) by (simp add: on_time_def timed_def by_value_def)
  moreover have "is_ready t ?k"
    using i(2) t(1) C(1) same by (auto simp: is_ready_def container_of_def lists_ok_container)
  moreover have "prio ?k q \<le> prio ?k t" if q: "is_ready q ?k" for q
  proof -
    have qr: "is_ready q k" using q same by simp
    then have "elems (lists k) (Ready (unat (prio k q))) \<noteq> []"
      using ready_in_list [OF c, of q] by auto
    from p(4) [OF prio_nat(1) [OF c list_in_order [OF c qr]] this]
    have "unat (prio k q) \<le> p" .
    moreover have "p = unat (prio k t)" using C(4) i(2) t(1) by (simp add: ready_at_def)
    ultimately show ?thesis by (simp add: word_le_nat_alt)
  qed
  ultimately show ?thesis using k' core' same by (intro exI [of _ ?k] exI [of _ t]) (simp add: sched_ok_def)
qed


section \<open>The tick\<close>

definition wake_one :: "nat \<Rightarrow> kernel \<Rightarrow> kernel option" where
  "wake_one t k = do {
     (n, k) \<leftarrow> k_remove (StateItem t) k;
     k \<leftarrow> remove_event t k;
     prvAddTaskToReadyList t k
   }"

text \<open>
  One task moves from the list \<open>d\<close> to its ready list: only that list, the ready lists and the event
  lists change, and of the containers only those of its two items.
\<close>

definition woken :: "nat \<Rightarrow> klist \<Rightarrow> lists \<Rightarrow> lists \<Rightarrow> bool" where
  "woken t d a a' \<longleftrightarrow>
     elems a' d = remove1 (StateItem t) (elems a d) \<and>
     (\<forall>l. \<not> is_event l \<longrightarrow> l \<noteq> d \<longrightarrow> (\<forall>p. l \<noteq> Ready p) \<longrightarrow> elems a' l = elems a l) \<and>
     item_value a' = item_value a \<and>
     (\<exists>p. container a' (StateItem t) = Some (Ready p)) \<and> container a' (EventItem t) = None \<and>
     (\<forall>i. i \<noteq> StateItem t \<longrightarrow> i \<noteq> EventItem t \<longrightarrow> container a' i = container a i)"

lemma wake_one_core:
  assumes c: "core N {} {} k" and t: "container (lists k) (StateItem t) = Some d"
    and d: "\<And>p. d \<noteq> Ready p"
  shows "\<exists>a' b. wake_one t k = Some (k\<lparr>lists := a', uxTopReadyPriority := b\<rparr>) \<and>
    core N {} {} (k\<lparr>lists := a', uxTopReadyPriority := b\<rparr>) \<and> woken t d (lists k) a'"
proof -
  note C = coreD [OF c]
  have td: "StateItem t \<in> set (elems (lists k) d)" using C(1) t by (simp add: lists_ok_container)
  with C(2) have tN: "t \<in> N" and nd: "\<not> is_event d" by (auto simp: kinds_def split: if_splits)
  from k_remove_core [OF c tN] t d obtain n a1 where
    1: "k_remove (StateItem t) k = Some (n, k\<lparr>lists := a1\<rparr>)" "taken d (StateItem t) (lists k) a1"
      "core N {t} {} (k\<lparr>lists := a1\<rparr>)" by auto
  from remove_event_core [OF 1(3), of t] obtain a2 where
    2: "remove_event t (k\<lparr>lists := a1\<rparr>) = Some (k\<lparr>lists := a2\<rparr>)" "core N {t} {} (k\<lparr>lists := a2\<rparr>)"
      "container a2 (EventItem t) = None" "item_value a2 = item_value a1"
      "\<And>i. i \<noteq> EventItem t \<Longrightarrow> container a2 i = container a1 i"
      "\<And>l. \<not> is_event l \<Longrightarrow> elems a2 l = elems a1 l" by auto
  from add_ready_core [OF 2(2), of t] 2(3) obtain xs a3 b where
    3: "prvAddTaskToReadyList t (k\<lparr>lists := a2\<rparr>) = Some (k\<lparr>lists := a3, uxTopReadyPriority := b\<rparr>)"
      "put_on (Ready (unat (prio k t))) (StateItem t) xs a2 a3"
      "core N {} {} (k\<lparr>lists := a3, uxTopReadyPriority := b\<rparr>)" by auto
  have w: "wake_one t k = Some (k\<lparr>lists := a3, uxTopReadyPriority := b\<rparr>)"
    by (simp add: wake_one_def 1(1) 2(1) 3(1))
  have "woken t d (lists k) a3"
    unfolding woken_def
  proof (intro conjI allI impI)
    show "elems a3 d = remove1 (StateItem t) (elems (lists k) d)"
      using put_onD(4) [OF 3(2), of d] d 2(6) [OF nd] 1(2) by (simp add: taken_def)
    show "elems a3 l = elems (lists k) l" if "\<not> is_event l" "l \<noteq> d" "\<forall>p. l \<noteq> Ready p" for l
      using put_onD(4) [OF 3(2), of l] that 2(6) [OF that(1)] takenD(4) [OF 1(2) that(2)] by simp
    show "item_value a3 = item_value (lists k)"
      using put_onD(2) [OF 3(2)] 2(4) takenD(2) [OF 1(2)] by simp
    show "\<exists>p. container a3 (StateItem t) = Some (Ready p)"
      using put_onD(3) [OF 3(2), of "StateItem t"] by simp
    show "container a3 (EventItem t) = None"
      using put_onD(3) [OF 3(2), of "EventItem t"] 2(3) by simp
    show "container a3 i = container (lists k) i" if "i \<noteq> StateItem t" "i \<noteq> EventItem t" for i
      using put_onD(3) [OF 3(2), of i] that 2(5) [OF that(2)] 1(2) by (simp add: taken_def)
  qed
  with w 3(3) show ?thesis by blast
qed

lemma wake_one_bind:
  "wake_one t k \<bind> f =
     k_remove (StateItem t) k \<bind>
       (\<lambda>(n, k). remove_event t k \<bind> (\<lambda>k. prvAddTaskToReadyList t k \<bind> f))"
  by (simp add: wake_one_def split: Option.bind_splits prod.splits)

lemma wake_loop_step:
  "wake_loop now sw k =
     (if items (pxDelayedTaskList k) k = []
      then Some (sw, k\<lparr>xNextTaskUnblockTime := portMAX_DELAY\<rparr>)
      else do {
        t \<leftarrow> head_owner (pxDelayedTaskList k) (lists k);
        if now < value_of (StateItem t) k
        then Some (sw, k\<lparr>xNextTaskUnblockTime := value_of (StateItem t) k\<rparr>)
        else do {
          k \<leftarrow> wake_one t k;
          c \<leftarrow> pxCurrentTCB k;
          wake_loop now (sw \<or> prio k c \<le> prio k t) k
        }
      })"
  by (subst wake_loop.simps)
     (simp add: wake_one_bind Let_def cong: if_cong)

text \<open>What the loop leaves: the lists after waking every task of \<open>d\<close> whose time is not after \<open>now\<close>.\<close>

definition all_woken :: "u32 \<Rightarrow> klist \<Rightarrow> lists \<Rightarrow> lists \<Rightarrow> bool" where
  "all_woken now d a a' \<longleftrightarrow>
     elems a' d = filter (\<lambda>i. now < item_value a i) (elems a d) \<and>
     (\<forall>l. \<not> is_event l \<longrightarrow> l \<noteq> d \<longrightarrow> (\<forall>p. l \<noteq> Ready p) \<longrightarrow> elems a' l = elems a l) \<and>
     item_value a' = item_value a \<and>
     (\<forall>t. if container a (StateItem t) = Some d \<and> item_value a (StateItem t) \<le> now
          then (\<exists>p. container a' (StateItem t) = Some (Ready p)) \<and> container a' (EventItem t) = None
          else container a' (StateItem t) = container a (StateItem t) \<and>
               container a' (EventItem t) = container a (EventItem t))"

lemma all_woken_Cons:
  assumes w: "woken t d a a1" and aw: "all_woken now d a1 a'" and e: "elems a d = StateItem t # xs"
    and v: "item_value a (StateItem t) \<le> now" and tc: "container a (StateItem t) = Some d"
  shows "all_woken now d a a'"
proof -
  have W: "elems a1 d = xs" "item_value a1 = item_value a"
    "\<And>l. \<not> is_event l \<Longrightarrow> l \<noteq> d \<Longrightarrow> (\<And>p. l \<noteq> Ready p) \<Longrightarrow> elems a1 l = elems a l"
    "\<And>i. i \<noteq> StateItem t \<Longrightarrow> i \<noteq> EventItem t \<Longrightarrow> container a1 i = container a i"
    using w e by (simp_all add: woken_def)
  obtain p where p: "container a1 (StateItem t) = Some (Ready p)" "container a1 (EventItem t) = None"
    using w by (auto simp: woken_def)
  have A: "elems a' d = filter (\<lambda>i. now < item_value a i) xs" "item_value a' = item_value a"
    "\<And>l. \<not> is_event l \<Longrightarrow> l \<noteq> d \<Longrightarrow> (\<And>p. l \<noteq> Ready p) \<Longrightarrow> elems a' l = elems a1 l"
    using aw W(1,2) by (simp_all add: all_woken_def)
  have B: "if container a1 (StateItem u) = Some d \<and> item_value a (StateItem u) \<le> now
      then (\<exists>p. container a' (StateItem u) = Some (Ready p)) \<and> container a' (EventItem u) = None
      else container a' (StateItem u) = container a1 (StateItem u) \<and>
           container a' (EventItem u) = container a1 (EventItem u)" for u
    using aw W(2) unfolding all_woken_def by simp
  show ?thesis
    unfolding all_woken_def
  proof (intro conjI allI impI)
    show "elems a' d = filter (\<lambda>i. now < item_value a i) (elems a d)" using A(1) v e by (simp add: not_less)
    show "elems a' l = elems a l" if "\<not> is_event l" "l \<noteq> d" "\<forall>p. l \<noteq> Ready p" for l
      using A(3) [of l] W(3) [of l] that by simp
    show "item_value a' = item_value a" by (rule A(2))
    show "if container a (StateItem u) = Some d \<and> item_value a (StateItem u) \<le> now
        then (\<exists>p. container a' (StateItem u) = Some (Ready p)) \<and> container a' (EventItem u) = None
        else container a' (StateItem u) = container a (StateItem u) \<and>
             container a' (EventItem u) = container a (EventItem u)" for u
    proof (cases "u = t")
      case True
      then show ?thesis using B [of t] p tc v by (auto split: if_splits)
    next
      case False
      then show ?thesis using B [of u] W(4) [of "StateItem u"] W(4) [of "EventItem u"] by simp
    qed
  qed
qed

lemma wake_loop_spec:
  assumes "core N {} {} k" "by_value (lists k) (elems (lists k) (pxDelayedTaskList k))"
    and "\<And>p. pxDelayedTaskList k \<noteq> Ready p" "\<not> is_event (pxDelayedTaskList k)"
  shows "\<exists>sw' a' b n. wake_loop now sw k =
      Some (sw', k\<lparr>lists := a', uxTopReadyPriority := b, xNextTaskUnblockTime := n\<rparr>) \<and>
    core N {} {} (k\<lparr>lists := a', uxTopReadyPriority := b, xNextTaskUnblockTime := n\<rparr>) \<and>
    all_woken now (pxDelayedTaskList k) (lists k) a' \<and>
    (\<forall>i \<in> set (elems a' (pxDelayedTaskList k)). n \<le> item_value a' i)"
  using assms
proof (induction "elems (lists k) (pxDelayedTaskList k)" arbitrary: k sw)
  case Nil
  let ?k = "k\<lparr>xNextTaskUnblockTime := portMAX_DELAY\<rparr>"
  have "container (lists k) (StateItem t) \<noteq> Some (pxDelayedTaskList k)" for t
    using coreD(1) [OF Nil.prems(1)] Nil.hyps by (simp add: lists_ok_container)
  then have "all_woken now (pxDelayedTaskList k) (lists k) (lists k)"
    using Nil.hyps by (simp add: all_woken_def)
  moreover have "core N {} {} ?k" using Nil.prems(1) by (simp add: core_def)
  moreover have "wake_loop now sw k = Some (sw, ?k)"
    using Nil.hyps by (simp add: wake_loop_step [of now sw k] items_def)
  moreover have "?k = k\<lparr>lists := lists k, uxTopReadyPriority := uxTopReadyPriority k,
      xNextTaskUnblockTime := portMAX_DELAY\<rparr>" by simp
  ultimately show ?case using Nil.hyps by (metis empty_iff list.set(1))
next
  case (Cons i xs)
  let ?d = "pxDelayedTaskList k"
  note C = coreD [OF Cons.prems(1)]
  have idx: "i \<in> set (elems (lists k) ?d)" using Cons.hyps(2) [symmetric] by simp
  from state_kind [OF Cons.prems(1) this Cons.prems(4)] obtain t where t: "i = StateItem t" "t \<in> N"
    by blast
  with idx C(1) have tc: "container (lists k) (StateItem t) = Some ?d" by (simp add: lists_ok_container)
  have e: "elems (lists k) ?d = StateItem t # xs" using Cons.hyps(2) t(1) by simp
  have srt: "item_value (lists k) (StateItem t) \<le> item_value (lists k) j" if "j \<in> set xs" for j
    using Cons.prems(2) that unfolding by_value_def e by simp
  have ho: "head_owner ?d (lists k) = Some t" by (simp add: head_owner_def e)
  show ?case
  proof (cases "now < item_value (lists k) (StateItem t)")
    case True
    let ?n = "item_value (lists k) (StateItem t)"
    let ?k = "k\<lparr>xNextTaskUnblockTime := ?n\<rparr>"
    have gt: "now < item_value (lists k) j" if "j \<in> set (elems (lists k) ?d)" for j
      using that srt True unfolding e by (auto intro: order_less_le_trans)
    have "all_woken now ?d (lists k) (lists k)"
      unfolding all_woken_def
    proof (intro conjI allI)
      show "elems (lists k) ?d = filter (\<lambda>i. now < item_value (lists k) i) (elems (lists k) ?d)"
        using gt by (simp add: filter_id_conv)
      show "if container (lists k) (StateItem u) = Some ?d \<and> item_value (lists k) (StateItem u) \<le> now
          then (\<exists>p. container (lists k) (StateItem u) = Some (Ready p)) \<and>
               container (lists k) (EventItem u) = None
          else container (lists k) (StateItem u) = container (lists k) (StateItem u) \<and>
               container (lists k) (EventItem u) = container (lists k) (EventItem u)" for u
        using gt [of "StateItem u"] C(1) by (auto simp: lists_ok_container not_le)
    qed simp_all
    moreover have "core N {} {} ?k" using Cons.prems(1) by (simp add: core_def)
    moreover have "wake_loop now sw k = Some (sw, ?k)"
      using e ho True by (simp add: wake_loop_step [of now sw k] items_def value_of_def)
    moreover have "?k = k\<lparr>lists := lists k, uxTopReadyPriority := uxTopReadyPriority k,
        xNextTaskUnblockTime := ?n\<rparr>" by simp
    moreover have "\<forall>j \<in> set (elems (lists k) ?d). ?n \<le> item_value (lists k) j"
      using srt unfolding e by auto
    ultimately show ?thesis by metis
  next
    case False
    from wake_one_core [OF Cons.prems(1) tc Cons.prems(3)] obtain a1 b1 where
      1: "wake_one t k = Some (k\<lparr>lists := a1, uxTopReadyPriority := b1\<rparr>)"
        "core N {} {} (k\<lparr>lists := a1, uxTopReadyPriority := b1\<rparr>)" "woken t ?d (lists k) a1" by blast
    let ?k1 = "k\<lparr>lists := a1, uxTopReadyPriority := b1\<rparr>"
    obtain c where cur: "pxCurrentTCB k = Some c" using Cons.prems(1) by (auto simp: core_def)
    have e1: "elems a1 ?d = xs" and v1: "item_value a1 = item_value (lists k)"
      using 1(3) e by (simp_all add: woken_def)
    have "by_value a1 (elems a1 ?d)"
      using Cons.prems(2) unfolding by_value_def e e1 v1 by simp
    from Cons.hyps(1) [of ?k1 "sw \<or> prio k c \<le> prio k t"] 1(2) this Cons.prems(3,4) e1
    obtain sw' a' b n where
      2: "wake_loop now (sw \<or> prio k c \<le> prio k t) ?k1 =
          Some (sw', k\<lparr>lists := a', uxTopReadyPriority := b, xNextTaskUnblockTime := n\<rparr>)"
        "core N {} {} (k\<lparr>lists := a', uxTopReadyPriority := b, xNextTaskUnblockTime := n\<rparr>)"
        "all_woken now ?d a1 a'" "\<forall>i \<in> set (elems a' ?d). n \<le> item_value a' i"
      by auto
    have "wake_loop now sw k = wake_loop now (sw \<or> prio k c \<le> prio k t) ?k1"
      using e ho False 1(1) cur by (simp add: wake_loop_step [of now sw k] items_def value_of_def)
    moreover have "all_woken now ?d (lists k) a'"
      using all_woken_Cons [OF 1(3) 2(3) e _ tc] False by (simp add: not_less)
    ultimately show ?thesis using 2 by metis
  qed
qed


lemma all_woken_none:
  assumes "lists_ok a" "\<And>i. i \<in> set (elems a d) \<Longrightarrow> now < item_value a i"
  shows "all_woken now d a a"
  unfolding all_woken_def
proof (intro conjI allI)
  show "elems a d = filter (\<lambda>i. now < item_value a i) (elems a d)"
    using assms(2) by (simp add: filter_id_conv)
  show "if container a (StateItem u) = Some d \<and> item_value a (StateItem u) \<le> now
      then (\<exists>p. container a (StateItem u) = Some (Ready p)) \<and> container a (EventItem u) = None
      else container a (StateItem u) = container a (StateItem u) \<and>
           container a (EventItem u) = container a (EventItem u)" for u
    using assms(2) [of "StateItem u"] assms(1) by (auto simp: lists_ok_container not_le)
qed simp_all

text \<open>The part of the tick that wakes tasks, whether it runs the loop or not.\<close>

lemma wake_stage:
  assumes c: "core N {} {} k" and s: "by_value (lists k) (elems (lists k) (pxDelayedTaskList k))"
    and d: "\<And>p. pxDelayedTaskList k \<noteq> Ready p" "\<not> is_event (pxDelayedTaskList k)"
    and n: "\<And>i. i \<in> set (elems (lists k) (pxDelayedTaskList k)) \<Longrightarrow>
              xNextTaskUnblockTime k \<le> item_value (lists k) i"
  shows "\<exists>sw a' b n. (if xNextTaskUnblockTime k \<le> now then wake_loop now False k else Some (False, k)) =
      Some (sw, k\<lparr>lists := a', uxTopReadyPriority := b, xNextTaskUnblockTime := n\<rparr>) \<and>
    core N {} {} (k\<lparr>lists := a', uxTopReadyPriority := b, xNextTaskUnblockTime := n\<rparr>) \<and>
    all_woken now (pxDelayedTaskList k) (lists k) a' \<and>
    (\<forall>i \<in> set (elems a' (pxDelayedTaskList k)). now < item_value a' i \<and> n \<le> item_value a' i)"
proof (cases "xNextTaskUnblockTime k \<le> now")
  case True
  from wake_loop_spec [OF c s d, of now False] obtain sw a' b n where
    w: "wake_loop now False k = Some (sw, k\<lparr>lists := a', uxTopReadyPriority := b, xNextTaskUnblockTime := n\<rparr>)"
      "core N {} {} (k\<lparr>lists := a', uxTopReadyPriority := b, xNextTaskUnblockTime := n\<rparr>)"
      "all_woken now (pxDelayedTaskList k) (lists k) a'"
      "\<forall>i \<in> set (elems a' (pxDelayedTaskList k)). n \<le> item_value a' i" by blast
  have "\<forall>i \<in> set (elems a' (pxDelayedTaskList k)). now < item_value a' i"
    using w(3) by (simp add: all_woken_def)
  with w True show ?thesis by (intro exI [of _ sw] exI [of _ a'] exI [of _ b] exI [of _ n]) simp
next
  case False
  have gt: "now < item_value (lists k) i" if "i \<in> set (elems (lists k) (pxDelayedTaskList k))" for i
    using n [OF that] False by (auto simp: not_le intro: order_less_le_trans)
  have "k = k\<lparr>lists := lists k, uxTopReadyPriority := uxTopReadyPriority k,
      xNextTaskUnblockTime := xNextTaskUnblockTime k\<rparr>" by simp
  moreover have "all_woken now (pxDelayedTaskList k) (lists k) (lists k)"
    by (rule all_woken_none [OF coreD(1) [OF c] gt])
  ultimately show ?thesis using False c gt n by metis
qed

lemma delayed_lists:
  assumes "on_time k"
  shows "\<And>p. pxDelayedTaskList k \<noteq> Ready p" "\<not> is_event (pxDelayedTaskList k)"
    "\<And>p. pxOverflowDelayedTaskList k \<noteq> Ready p" "\<not> is_event (pxOverflowDelayedTaskList k)"
    "pxDelayedTaskList k \<noteq> pxOverflowDelayedTaskList k"
    "{pxDelayedTaskList k, pxOverflowDelayedTaskList k} = {DelayedTaskList1, DelayedTaskList2}"
  using assms by (auto simp: on_time_def timed_def)

lemma reset_unblock:
  assumes c: "core N {} {} k" and s: "by_value (lists k) (elems (lists k) (pxDelayedTaskList k))"
    and d: "\<not> is_event (pxDelayedTaskList k)"
  shows "\<exists>n. prvResetNextTaskUnblockTime k = Some (k\<lparr>xNextTaskUnblockTime := n\<rparr>) \<and>
    (\<forall>i \<in> set (elems (lists k) (pxDelayedTaskList k)). n \<le> item_value (lists k) i)"
proof (cases "elems (lists k) (pxDelayedTaskList k)")
  case Nil
  then show ?thesis
    by (intro exI [of _ portMAX_DELAY]) (simp add: prvResetNextTaskUnblockTime_def items_def)
next
  case (Cons i xs)
  with state_kind [OF c _ d, of i] obtain t where "i = StateItem t" by auto
  with Cons s show ?thesis
    by (auto simp: prvResetNextTaskUnblockTime_def items_def head_owner_def value_of_def by_value_def)
qed

lemma u32_succ:
  fixes t v :: u32
  assumes "t + 1 \<noteq> 0"
  shows "v < t + 1 \<longleftrightarrow> v \<le> t" "t + 1 \<le> v \<longleftrightarrow> t < v"
proof -
  have "unat t + 1 < 2 ^ 32"
  proof (rule ccontr)
    assume "\<not> unat t + 1 < 2 ^ 32"
    moreover have "unat t < 2 ^ 32" by (rule order_less_le_trans [OF unsigned_less]) simp
    ultimately have "unat t + 1 = 2 ^ 32" by simp
    then have "unat (t + 1) = 0" by (simp add: unat_word_ariths)
    with assms show False by (simp add: unat_eq_0)
  qed
  then have "unat (t + 1) = unat t + 1" by (simp add: unat_word_ariths)
  then show "v < t + 1 \<longleftrightarrow> v \<le> t" "t + 1 \<le> v \<longleftrightarrow> t < v"
    by (auto simp: word_less_nat_alt word_le_nat_alt)
qed

lemma u32_top: "t + 1 = 0 \<Longrightarrow> \<not> t < v" for t v :: u32
proof -
  assume "t + 1 = 0"
  then have "t = - 1" by (simp add: eq_neg_iff_add_eq_0)
  then show "\<not> t < v" by (simp add: not_less)
qed

definition waiting :: "nat \<Rightarrow> kernel \<Rightarrow> bool" where
  "waiting t k \<longleftrightarrow> container_of (StateItem t) k \<in> {Some DelayedTaskList1, Some DelayedTaskList2}"

definition wake_time :: "nat \<Rightarrow> kernel \<Rightarrow> u32" where
  "wake_time t k = value_of (StateItem t) k"

text \<open>The lists and the time after the first part of the tick, when the lists may be switched.\<close>

lemma tick_start:
  assumes s: "sched_ok N k"
  defines "now \<equiv> xTickCount k + 1"
  shows "\<exists>d ov q n. (if now = 0 then taskSWITCH_DELAYED_LISTS (k\<lparr>xTickCount := now\<rparr>)
        else Some (k\<lparr>xTickCount := now\<rparr>)) =
      Some (k\<lparr>xTickCount := now, pxDelayedTaskList := d, pxOverflowDelayedTaskList := ov,
        xNumOfOverflows := q, xNextTaskUnblockTime := n\<rparr>) \<and>
    (d, ov) \<in> {(DelayedTaskList1, DelayedTaskList2), (DelayedTaskList2, DelayedTaskList1)} \<and>
    by_value (lists k) (elems (lists k) d) \<and> by_value (lists k) (elems (lists k) ov) \<and>
    (\<forall>i \<in> set (elems (lists k) d). now \<le> item_value (lists k) i \<and> n \<le> item_value (lists k) i) \<and>
    (\<forall>i \<in> set (elems (lists k) ov). item_value (lists k) i < now) \<and>
    q = xNumOfOverflows k + (if now = 0 then 1 else 0)"
proof -
  from s have c: "core N {} {} k" and ot: "on_time k" by (simp_all add: sched_ok_def)
  let ?d = "pxDelayedTaskList k" and ?o = "pxOverflowDelayedTaskList k" and ?a = "lists k"
  from ot have T: "(?d, ?o) \<in> {(DelayedTaskList1, DelayedTaskList2), (DelayedTaskList2, DelayedTaskList1)}"
    "by_value ?a (elems ?a ?d)" "by_value ?a (elems ?a ?o)"
    "\<And>i. i \<in> set (elems ?a ?d) \<Longrightarrow> xTickCount k < item_value ?a i \<and> xNextTaskUnblockTime k \<le> item_value ?a i"
    "\<And>i. i \<in> set (elems ?a ?o) \<Longrightarrow> item_value ?a i < xTickCount k"
    by (simp_all add: on_time_def timed_def)
  show ?thesis
  proof (cases "now = 0")
    case True
    have "elems ?a ?d = []"
    proof (cases "elems ?a ?d")
      case (Cons i xs)
      with T(4) [of i] u32_top [of "xTickCount k" "item_value ?a i"] True show ?thesis
        by (simp add: now_def)
    qed simp
    let ?k = "k\<lparr>xTickCount := 0, pxDelayedTaskList := ?o, pxOverflowDelayedTaskList := ?d,
        xNumOfOverflows := xNumOfOverflows k + 1\<rparr>"
    have "core N {} {} ?k" using c by (simp add: core_def)
    from reset_unblock [OF this] T(3) delayed_lists(4) [OF ot] obtain n where
      n: "prvResetNextTaskUnblockTime ?k = Some (?k\<lparr>xNextTaskUnblockTime := n\<rparr>)"
        "\<forall>i \<in> set (elems ?a ?o). n \<le> item_value ?a i" by auto
    show ?thesis
      by (rule exI [of _ ?o], rule exI [of _ ?d], rule exI [of _ "xNumOfOverflows k + 1"], rule exI [of _ n])
         (use n T True \<open>elems ?a ?d = []\<close> in \<open>auto simp: taskSWITCH_DELAYED_LISTS_def\<close>)
  next
    case False
    show ?thesis
      by (rule exI [of _ ?d], rule exI [of _ ?o], rule exI [of _ "xNumOfOverflows k"],
          rule exI [of _ "xNextTaskUnblockTime k"])
         (use T False u32_succ [of "xTickCount k"] in \<open>auto simp: now_def intro: less_imp_le\<close>)
  qed
qed


text \<open>
  The tick: it is counted, exactly the tasks whose time has come leave the delayed lists, and they
  are ready and wait for no event any more; no other task moves.
\<close>

lemma tick_wakes_exactly:
  assumes s: "sched_ok N k" and u: "uxSchedulerSuspended k = 0"
  shows "\<exists>sw k'. xTaskIncrementTick k = Some (sw, k') \<and> sched_ok N k' \<and>
    xTickCount k' = xTickCount k + 1 \<and> uxSchedulerSuspended k' = 0 \<and>
    pxCurrentTCB k' = pxCurrentTCB k \<and> prio k' = prio k \<and>
    (\<forall>t. waiting t k' \<longleftrightarrow> waiting t k \<and> wake_time t k \<noteq> xTickCount k + 1) \<and>
    (\<forall>t. wake_time t k' = wake_time t k) \<and>
    (\<forall>t. if waiting t k \<and> wake_time t k = xTickCount k + 1
         then is_ready t k' \<and> container_of (EventItem t) k' = None
         else container_of (StateItem t) k' = container_of (StateItem t) k \<and>
              container_of (EventItem t) k' = container_of (EventItem t) k) \<and>
    xNumOfOverflows k' = xNumOfOverflows k + (if xTickCount k + 1 = 0 then 1 else 0)"
proof -
  from s have c: "core N {} {} k" and ot: "on_time k" by (simp_all add: sched_ok_def)
  note C = coreD [OF c]
  let ?now = "xTickCount k + 1" and ?a = "lists k"
  from tick_start [OF s] obtain d ov q n0 where
    1: "(if ?now = 0 then taskSWITCH_DELAYED_LISTS (k\<lparr>xTickCount := ?now\<rparr>)
        else Some (k\<lparr>xTickCount := ?now\<rparr>)) =
      Some (k\<lparr>xTickCount := ?now, pxDelayedTaskList := d, pxOverflowDelayedTaskList := ov,
        xNumOfOverflows := q, xNextTaskUnblockTime := n0\<rparr>)" (is "_ = Some ?k")
    and dov: "(d, ov) \<in> {(DelayedTaskList1, DelayedTaskList2), (DelayedTaskList2, DelayedTaskList1)}"
    and bv: "by_value ?a (elems ?a d)" "by_value ?a (elems ?a ov)"
    and dv: "\<forall>i \<in> set (elems ?a d). ?now \<le> item_value ?a i \<and> n0 \<le> item_value ?a i"
    and ovv: "\<forall>i \<in> set (elems ?a ov). item_value ?a i < ?now"
    and q: "q = xNumOfOverflows k + (if ?now = 0 then 1 else 0)" by blast
  have ck: "core N {} {} ?k" using c by (simp add: core_def)
  have dn: "d \<noteq> Ready p" "\<not> is_event d" "ov \<noteq> Ready p" "\<not> is_event ov" "ov \<noteq> d" for p
    using dov by auto
  from wake_stage [OF ck, of ?now] bv(1) dn(1,2) dv obtain sw a' b n where
    2: "(if n0 \<le> ?now then wake_loop ?now False ?k else Some (False, ?k)) =
        Some (sw, ?k\<lparr>lists := a', uxTopReadyPriority := b, xNextTaskUnblockTime := n\<rparr>)"
      "core N {} {} (?k\<lparr>lists := a', uxTopReadyPriority := b, xNextTaskUnblockTime := n\<rparr>)"
      "all_woken ?now d ?a a'"
      "\<forall>i \<in> set (elems a' d). ?now < item_value a' i \<and> n \<le> item_value a' i" by auto
  let ?k' = "?k\<lparr>lists := a', uxTopReadyPriority := b, xNextTaskUnblockTime := n\<rparr>"
  obtain cu where cu: "pxCurrentTCB k = Some cu" "cu \<in> N" using c by (auto simp: core_def)
  have rl: "ready_list (prio k cu) = Some (Ready (unat (prio k cu)))" by (rule prio_nat(2) [OF c cu(2)])
  have "\<exists>sw'. xTaskIncrementTick k = Some (sw', ?k')"
    using u 1 2(1) cu(1) rl unfolding xTaskIncrementTick_def Let_def by simp
  then obtain sw' where inc: "xTaskIncrementTick k = Some (sw', ?k')" by blast
  have A: "elems a' d = filter (\<lambda>i. ?now < item_value ?a i) (elems ?a d)" "elems a' ov = elems ?a ov"
    "item_value a' = item_value ?a"
    using 2(3) dn by (simp_all add: all_woken_def)
  have "by_value a' (elems a' d)" "by_value a' (elems a' ov)"
    using bv unfolding A by_value_def by (simp_all add: A(3) sorted_wrt_filter)
  with 2(4) dov ovv A have "on_time ?k'" by (simp add: on_time_def timed_def)
  with 2(2) have ok: "sched_ok N ?k'" by (simp add: sched_ok_def)
  have both: "{Some d, Some ov} = {Some DelayedTaskList1, Some DelayedTaskList2}" using dov by auto
  have B: "if container ?a (StateItem t) = Some d \<and> item_value ?a (StateItem t) \<le> ?now
      then (\<exists>p. container a' (StateItem t) = Some (Ready p)) \<and> container a' (EventItem t) = None
      else container a' (StateItem t) = container ?a (StateItem t) \<and>
           container a' (EventItem t) = container ?a (EventItem t)" for t
    using 2(3) by (simp add: all_woken_def)
  have cond: "container ?a (StateItem t) = Some d \<and> item_value ?a (StateItem t) \<le> ?now \<longleftrightarrow>
      waiting t k \<and> wake_time t k = ?now" for t
    using C(1) dv ovv unfolding waiting_def wake_time_def container_of_def value_of_def both [symmetric]
    by (auto simp: lists_ok_container intro: order_antisym)
  have D: "if waiting t k \<and> wake_time t k = ?now
         then is_ready t ?k' \<and> container_of (EventItem t) ?k' = None
         else container_of (StateItem t) ?k' = container_of (StateItem t) k \<and>
              container_of (EventItem t) ?k' = container_of (EventItem t) k" for t
    using B [of t] unfolding cond by (simp add: is_ready_def container_of_def)
  have "waiting t ?k' \<longleftrightarrow> waiting t k \<and> wake_time t k \<noteq> ?now" for t
    using D [of t] by (auto simp: waiting_def is_ready_def split: if_splits)
  moreover have "wake_time t ?k' = wake_time t k" for t using A(3) by (simp add: wake_time_def value_of_def)
  moreover have "xTickCount ?k' = ?now" "uxSchedulerSuspended ?k' = 0"
    "pxCurrentTCB ?k' = pxCurrentTCB k" "prio ?k' = prio k" using u by simp_all
  moreover have "xNumOfOverflows ?k' = xNumOfOverflows k + (if ?now = 0 then 1 else 0)" using q by simp
  ultimately show ?thesis using inc ok D by blast
qed


section \<open>Blocking\<close>

lemma core_set_value [simp]: "core N T W (k_set_value i v k) \<longleftrightarrow> core N T W k"
  by (simp add: core_def k_set_value_def lists_ok_def kinds_def placed_def ready_at_def
      not_waiting_def bitmap_def)

lemma by_value_set_value:
  assumes "i \<notin> set xs"
  shows "by_value (list_set_value i v a) xs = by_value a xs"
proof -
  have "sorted_wrt (\<lambda>j l. ((item_value a)(i := v)) j \<le> ((item_value a)(i := v)) l) xs =
      sorted_wrt (\<lambda>j l. item_value a j \<le> item_value a l) xs"
    using assms by (induction xs) auto
  then show ?thesis by (simp add: by_value_def)
qed

lemma timed_set_value:
  assumes "timed d ov now nx a" "i \<notin> set (elems a d)" "i \<notin> set (elems a ov)"
  shows "timed d ov now nx (list_set_value i v a)"
proof -
  have "\<forall>j \<in> set (elems a d). j \<noteq> i" "\<forall>j \<in> set (elems a ov). j \<noteq> i" using assms(2,3) by auto
  with assms show ?thesis by (simp add: timed_def by_value_set_value)
qed

lemma put_delayed_timed:
  assumes t: "timed d ov now nx a" and p: "put_on d i (ins_by (item_value a) i (elems a d)) a a'"
    and v: "now < item_value a i"
  shows "timed d ov now (if item_value a i < nx then item_value a i else nx) a'"
proof -
  let ?nx = "if item_value a i < nx then item_value a i else nx"
  have T: "(d, ov) \<in> {(DelayedTaskList1, DelayedTaskList2), (DelayedTaskList2, DelayedTaskList1)}"
    "by_value a (elems a d)" "by_value a (elems a ov)"
    "\<And>j. j \<in> set (elems a d) \<Longrightarrow> now < item_value a j \<and> nx \<le> item_value a j"
    "\<And>j. j \<in> set (elems a ov) \<Longrightarrow> item_value a j < now"
    using t by (simp_all add: timed_def)
  then have ne: "ov \<noteq> d" by auto
  have P: "elems a' d = ins_by (item_value a) i (elems a d)" "elems a' ov = elems a ov"
    "item_value a' = item_value a"
    using p ne by (simp_all add: put_on_def)
  have 1: "by_value a' (elems a' d)"
    using sorted_wrt_ins_by [of "item_value a" "elems a d" i] T(2) unfolding by_value_def P by simp
  have 2: "by_value a' (elems a' ov)" using T(3) unfolding by_value_def P by simp
  have 3: "now < item_value a j \<and> ?nx \<le> item_value a j" if "j \<in> set (elems a' d)" for j
    using that v T(4) [of j] unfolding P(1) by (auto intro: order_trans less_imp_le)
  show ?thesis unfolding timed_def P(3) using T(1,5) 1 2 3 P by simp
qed

lemma put_overflow_timed:
  assumes t: "timed d ov now nx a" and p: "put_on ov i (ins_by (item_value a) i (elems a ov)) a a'"
    and v: "item_value a i < now"
  shows "timed d ov now nx a'"
proof -
  have T: "(d, ov) \<in> {(DelayedTaskList1, DelayedTaskList2), (DelayedTaskList2, DelayedTaskList1)}"
    "by_value a (elems a d)" "by_value a (elems a ov)"
    "\<forall>j \<in> set (elems a d). now < item_value a j \<and> nx \<le> item_value a j"
    "\<forall>j \<in> set (elems a ov). item_value a j < now"
    using t by (simp_all add: timed_def)
  then have ne: "d \<noteq> ov" by auto
  have P: "elems a' ov = ins_by (item_value a) i (elems a ov)" "elems a' d = elems a d"
    "item_value a' = item_value a"
    using p ne by (simp_all add: put_on_def)
  have 1: "by_value a' (elems a' ov)"
    using sorted_wrt_ins_by [of "item_value a" "elems a ov" i] T(3) unfolding by_value_def P by simp
  have 2: "by_value a' (elems a' d)" using T(2) unfolding by_value_def P by simp
  show ?thesis unfolding timed_def P(3) using T(1,4,5) 1 2 P v by simp
qed

text \<open>The running task leaves its ready list; the bitmap is reset as \<open>remove_state\<close> resets it.\<close>

lemma add_delayed_remove:
  assumes c: "core N {} W k" and t: "pxCurrentTCB k = Some t" "is_ready t k"
  shows "prvAddCurrentTaskToDelayedList ticks ind k = do {
     k \<leftarrow> remove_state t k;
     if ticks = portMAX_DELAY \<and> ind
     then k_insert_end SuspendedTaskList (StateItem t) k
     else do {
       let wake = xTickCount k + ticks;
       let k = k_set_value (StateItem t) wake k;
       if wake < xTickCount k then k_insert (pxOverflowDelayedTaskList k) (StateItem t) k
       else do {
         k \<leftarrow> k_insert (pxDelayedTaskList k) (StateItem t) k;
         Some (if wake < xNextTaskUnblockTime k then k\<lparr>xNextTaskUnblockTime := wake\<rparr> else k)
       }
     }
   }"
proof -
  note C = coreD [OF c]
  let ?l = "Ready (unat (prio k t))"
  from ready_in_list [OF c] t(2) have m: "StateItem t \<in> set (elems (lists k) ?l)" by simp
  then have ct: "container (lists k) (StateItem t) = Some ?l" using C(1) by (simp add: lists_ok_container)
  from state_kind [OF c m] have tN: "t \<in> N" by auto
  from list_remove_taken [OF C(1) ct] obtain a' where
    a': "list_remove (StateItem t) (lists k) = Some (length (elems a' ?l), a')" by blast
  show ?thesis
    unfolding prvAddCurrentTaskToDelayedList_def remove_state_def k_remove_def t(1)
      taskRESET_READY_PRIORITY_def
    using a' prio_nat(2) [OF c tN]
    by (simp add: Let_def items_def portRESET_READY_PRIORITY_def k_set_value_def prio_def
        del: push_bit_of_1)
qed


lemma u32_add_ne: "(ticks :: u32) \<noteq> 0 \<Longrightarrow> now + ticks \<noteq> now"
  by simp

text \<open>The end of the function, on a task that is in no list and waits in its event list at most.\<close>

lemma block_insert:
  assumes c: "core N {t} {} k" and tm: "on_time k" and u: "container (lists k) (StateItem t) = None"
    and w: "item_value (lists k) (StateItem t) = w" "w \<noteq> xTickCount k"
  shows "\<exists>a' n. (if w < xTickCount k then k_insert (pxOverflowDelayedTaskList k) (StateItem t) k
       else do {
         k \<leftarrow> k_insert (pxDelayedTaskList k) (StateItem t) k;
         Some (if w < xNextTaskUnblockTime k then k\<lparr>xNextTaskUnblockTime := w\<rparr> else k)
       }) = Some (k\<lparr>lists := a', xNextTaskUnblockTime := n\<rparr>) \<and>
    sched_ok N (k\<lparr>lists := a', xNextTaskUnblockTime := n\<rparr>) \<and>
    container a' (StateItem t) \<in> {Some DelayedTaskList1, Some DelayedTaskList2} \<and>
    item_value a' = item_value (lists k) \<and>
    (\<forall>i. i \<noteq> StateItem t \<longrightarrow> container a' i = container (lists k) i)"
proof -
  let ?d = "pxDelayedTaskList k" and ?o = "pxOverflowDelayedTaskList k" and ?now = "xTickCount k"
    and ?nx = "xNextTaskUnblockTime k"
  note dl = delayed_lists [OF tm]
  note l = coreD(1) [OF c]
  from tm have t2: "timed ?d ?o ?now ?nx (lists k)" by (simp add: on_time_def)
  show ?thesis
  proof (cases "w < ?now")
    case True
    from list_insert_put [OF l u, of ?o] obtain a' where
      3: "list_insert ?o (StateItem t) (lists k) = Some a'"
        "put_on ?o (StateItem t) (ins_by (item_value (lists k)) (StateItem t) (elems (lists k) ?o)) (lists k) a'"
      by blast
    have "core N {} {} (k\<lparr>lists := a'\<rparr>)" using put_state_core [OF c _ dl(3,4) 3(2)] by simp
    moreover have "timed ?d ?o ?now ?nx a'"
      by (rule put_overflow_timed [OF t2 3(2)]) (use True w(1) in simp)
    ultimately have "sched_ok N (k\<lparr>lists := a'\<rparr>)" by (simp add: sched_ok_def on_time_def)
    moreover have "k\<lparr>lists := a'\<rparr> = k\<lparr>lists := a', xNextTaskUnblockTime := ?nx\<rparr>" by simp
    moreover have "container a' (StateItem t) \<in> {Some DelayedTaskList1, Some DelayedTaskList2}"
      using put_onD(3) [OF 3(2), of "StateItem t"] dl(6) by auto
    moreover have "\<forall>i. i \<noteq> StateItem t \<longrightarrow> container a' i = container (lists k) i"
      using put_onD(3) [OF 3(2)] by simp
    moreover have "k_insert ?o (StateItem t) k = Some (k\<lparr>lists := a'\<rparr>)"
      using 3(1) by (simp add: k_insert_def)
    ultimately show ?thesis unfolding if_P [OF True] using put_onD(2) [OF 3(2)] by metis
  next
    case False
    from list_insert_put [OF l u, of ?d] obtain a' where
      3: "list_insert ?d (StateItem t) (lists k) = Some a'"
        "put_on ?d (StateItem t) (ins_by (item_value (lists k)) (StateItem t) (elems (lists k) ?d)) (lists k) a'"
      by blast
    let ?n = "if w < ?nx then w else ?nx"
    have "core N {} {} (k\<lparr>lists := a'\<rparr>)" using put_state_core [OF c _ dl(1,2) 3(2)] by simp
    then have "core N {} {} (k\<lparr>lists := a', xNextTaskUnblockTime := ?n\<rparr>)" by (simp add: core_def)
    moreover have "?now < item_value (lists k) (StateItem t)"
      using False w by (simp add: not_less order_less_le)
    then have "timed ?d ?o ?now ?n a'" using put_delayed_timed [OF t2 3(2)] unfolding w(1) by blast
    ultimately have "sched_ok N (k\<lparr>lists := a', xNextTaskUnblockTime := ?n\<rparr>)"
      by (simp add: sched_ok_def on_time_def)
    moreover have "container a' (StateItem t) \<in> {Some DelayedTaskList1, Some DelayedTaskList2}"
      using put_onD(3) [OF 3(2), of "StateItem t"] dl(6) by auto
    moreover have "\<forall>i. i \<noteq> StateItem t \<longrightarrow> container a' i = container (lists k) i"
      using put_onD(3) [OF 3(2)] by simp
    moreover have "k_insert ?d (StateItem t) k \<bind>
        (\<lambda>k. Some (if w < xNextTaskUnblockTime k then k\<lparr>xNextTaskUnblockTime := w\<rparr> else k)) =
        Some (k\<lparr>lists := a', xNextTaskUnblockTime := ?n\<rparr>)"
      using 3(1) by (simp add: k_insert_def)
    ultimately show ?thesis unfolding if_not_P [OF False] using put_onD(2) [OF 3(2)] by metis
  qed
qed


lemma add_delayed_core:
  assumes c: "core N {} W k" and ot: "on_time k" and W: "W \<subseteq> {t}"
    and t: "pxCurrentTCB k = Some t" "is_ready t k" and ticks: "ticks \<noteq> 0"
  shows "\<exists>a' b n. prvAddCurrentTaskToDelayedList ticks ind k =
      Some (k\<lparr>lists := a', uxTopReadyPriority := b, xNextTaskUnblockTime := n\<rparr>) \<and>
    sched_ok N (k\<lparr>lists := a', uxTopReadyPriority := b, xNextTaskUnblockTime := n\<rparr>) \<and>
    (if ticks = portMAX_DELAY \<and> ind then container a' (StateItem t) = Some SuspendedTaskList
     else container a' (StateItem t) \<in> {Some DelayedTaskList1, Some DelayedTaskList2} \<and>
          item_value a' (StateItem t) = xTickCount k + ticks) \<and>
    (\<forall>i. i \<noteq> StateItem t \<longrightarrow>
       container a' i = container (lists k) i \<and> item_value a' i = item_value (lists k) i)"
proof -
  have tN: "t \<in> N" using list_in_order [OF c t(2)] .
  from remove_state_core [OF c tN] obtain l a1 b where
    1: "remove_state t k = Some (k\<lparr>lists := a1, uxTopReadyPriority := b\<rparr>)"
      "taken l (StateItem t) (lists k) a1"
      "core N {t} W (k\<lparr>lists := a1, uxTopReadyPriority := b\<rparr>)" by auto
  define k1 where "k1 = k\<lparr>lists := a1, uxTopReadyPriority := b\<rparr>"
  have k1: "lists k1 = a1" "xTickCount k1 = xTickCount k" by (simp_all add: k1_def)
  have u1: "container a1 (StateItem t) = None" using 1(2) by (simp add: taken_def)
  have l1: "lists_ok a1" using 1(2) by (simp add: taken_def)
  have out: "StateItem t \<notin> set (elems a1 m)" for m using lists_ok_unlisted [OF l1 u1] .
  have "core N {t} (W - {t}) k1" using core_settle [OF 1(3), of t] out by (simp add: k1_def)
  moreover have "W - {t} = {}" using W by auto
  ultimately have c1: "core N {t} {} k1" by simp
  have ot1: "on_time k1" using taken_on_time [OF ot 1(2), of b] by (simp add: k1_def)
  have oth: "container a1 i = container (lists k) i \<and> item_value a1 i = item_value (lists k) i"
    if "i \<noteq> StateItem t" for i using 1(2) that by (simp add: taken_def)
  show ?thesis
  proof (cases "ticks = portMAX_DELAY \<and> ind")
    case True
    from list_insert_end_put [OF l1 u1, of SuspendedTaskList] obtain a' xs where
      2: "list_insert_end SuspendedTaskList (StateItem t) a1 = Some a'"
        "put_on SuspendedTaskList (StateItem t) xs (lists k1) a'" by (auto simp: k1)
    have "core N {} {} (k1\<lparr>lists := a'\<rparr>)" using put_state_core [OF c1 _ _ _ 2(2)] by simp
    moreover have "on_time (k1\<lparr>lists := a'\<rparr>)"
      using put_timed [OF 2(2)] ot1 delayed_lists(6) [OF ot1] by (auto simp: on_time_def)
    ultimately have ok: "sched_ok N (k1\<lparr>lists := a'\<rparr>)" by (simp add: sched_ok_def)
    have run: "prvAddCurrentTaskToDelayedList ticks ind k = Some (k1\<lparr>lists := a'\<rparr>)"
      unfolding add_delayed_remove [OF c t] using 1(1) 2(1) True by (simp add: k_insert_end_def k1_def)
    have eq: "k1\<lparr>lists := a'\<rparr> =
        k\<lparr>lists := a', uxTopReadyPriority := b, xNextTaskUnblockTime := xNextTaskUnblockTime k\<rparr>"
      by (simp add: k1_def)
    have ct: "container a' (StateItem t) = Some SuspendedTaskList"
      using put_onD(3) [OF 2(2)] by simp
    have "container a' i = container (lists k) i \<and> item_value a' i = item_value (lists k) i"
      if "i \<noteq> StateItem t" for i using put_onD(2,3) [OF 2(2)] oth [OF that] that by (simp add: k1)
    with ok run ct True show ?thesis
      unfolding eq by (intro exI [of _ a'] exI [of _ b] exI [of _ "xNextTaskUnblockTime k"]) simp
  next
    case False
    define w where "w = xTickCount k + ticks"
    define k2 where "k2 = k_set_value (StateItem t) w k1"
    have c2: "core N {t} {} k2" using c1 by (simp add: k2_def)
    have k2: "lists k2 = list_set_value (StateItem t) w a1" "xTickCount k2 = xTickCount k"
      by (simp_all add: k2_def k_set_value_def k1)
    have ot2: "on_time k2"
      using timed_set_value [of _ _ _ _ a1 "StateItem t" w] out ot1
      by (simp add: on_time_def k2_def k_set_value_def k1)
    have wn: "w \<noteq> xTickCount k2" using u32_add_ne [OF ticks] by (simp add: k2 w_def)
    have "container (lists k2) (StateItem t) = None" "item_value (lists k2) (StateItem t) = w"
      using u1 by (simp_all add: k2)
    from block_insert [OF c2 ot2 this(1) this(2) wn] obtain a' n where
      3: "(if w < xTickCount k2 then k_insert (pxOverflowDelayedTaskList k2) (StateItem t) k2
       else do {
         k \<leftarrow> k_insert (pxDelayedTaskList k2) (StateItem t) k2;
         Some (if w < xNextTaskUnblockTime k then k\<lparr>xNextTaskUnblockTime := w\<rparr> else k)
       }) = Some (k2\<lparr>lists := a', xNextTaskUnblockTime := n\<rparr>)"
      "sched_ok N (k2\<lparr>lists := a', xNextTaskUnblockTime := n\<rparr>)"
      "container a' (StateItem t) \<in> {Some DelayedTaskList1, Some DelayedTaskList2}"
      "item_value a' = item_value (lists k2)"
      "\<And>i. i \<noteq> StateItem t \<Longrightarrow> container a' i = container (lists k2) i" by blast
    have run: "prvAddCurrentTaskToDelayedList ticks ind k = Some (k2\<lparr>lists := a', xNextTaskUnblockTime := n\<rparr>)"
      unfolding add_delayed_remove [OF c t] 1(1) 3(1) [symmetric]
        if_not_P [OF False]
      by (simp add: Let_def k1_def [symmetric] k1(2) w_def [symmetric] k2_def [symmetric] k2(2)
          cong: if_cong)
    have eq: "k2\<lparr>lists := a', xNextTaskUnblockTime := n\<rparr> =
        k\<lparr>lists := a', uxTopReadyPriority := b, xNextTaskUnblockTime := n\<rparr>"
      by (simp add: k2_def k1_def k_set_value_def)
    have val: "item_value a' (StateItem t) = xTickCount k + ticks" by (simp add: 3(4) k2 w_def)
    have "container a' i = container (lists k) i \<and> item_value a' i = item_value (lists k) i"
      if "i \<noteq> StateItem t" for i using 3(4) 3(5) [OF that] oth [OF that] that by (simp add: k2)
    with 3(2,3) run val False show ?thesis unfolding eq by (intro exI conjI) auto
  qed
qed


text \<open>
  The scheduler suspended and resumed with nothing pending in between: only the requested switch
  is taken.
\<close>

lemma resume_all_quiet:
  assumes "uxSchedulerSuspended k = 1" "items PendingReadyList k = []" "uxPendedTicks k = 0"
    and "uxCurrentNumberOfTasks k > 0"
  shows "xTaskResumeAll k = Some
    (let k = k\<lparr>uxSchedulerSuspended := 0\<rparr>
     in if xYieldPending k then (True, portYIELD k) else (False, k))"
proof -
  have "pending_loop None (k\<lparr>uxSchedulerSuspended := 0\<rparr>) = Some (None, k\<lparr>uxSchedulerSuspended := 0\<rparr>)"
    using assms(2) by (simp add: pending_loop.simps [of None] items_def)
  then show ?thesis using assms unfolding xTaskResumeAll_def Let_def by simp
qed

definition quiet :: "kernel \<Rightarrow> bool" where
  "quiet k \<longleftrightarrow> uxSchedulerSuspended k = 0 \<and> items PendingReadyList k = [] \<and> uxPendedTicks k = 0 \<and>
     uxCurrentNumberOfTasks k > 0"

text \<open>\<open>n\<close> tick interrupts.\<close>

fun ticks :: "nat \<Rightarrow> kernel \<Rightarrow> kernel option" where
  "ticks 0 k = Some k"
| "ticks (Suc n) k = do { k \<leftarrow> xPortSysTickHandler k; ticks n k }"

lemma sched_ok_pendsv [simp]: "sched_ok N (k\<lparr>pendsv := y\<rparr>) \<longleftrightarrow> sched_ok N k"
  by (simp add: sched_ok_def core_def on_time_def)

lemma view_pendsv [simp]:
  "waiting t (k\<lparr>pendsv := y\<rparr>) = waiting t k" "wake_time t (k\<lparr>pendsv := y\<rparr>) = wake_time t k"
  "is_ready t (k\<lparr>pendsv := y\<rparr>) = is_ready t k" "container_of i (k\<lparr>pendsv := y\<rparr>) = container_of i k"
  by (simp_all add: waiting_def wake_time_def is_ready_def container_of_def value_of_def)

lemma tick_handler:
  assumes "sched_ok N k" "uxSchedulerSuspended k = 0"
  shows "\<exists>k'. xPortSysTickHandler k = Some k' \<and> sched_ok N k' \<and> uxSchedulerSuspended k' = 0 \<and>
    xTickCount k' = xTickCount k + 1 \<and>
    (\<forall>t. waiting t k' \<longleftrightarrow> waiting t k \<and> wake_time t k \<noteq> xTickCount k + 1) \<and>
    (\<forall>t. wake_time t k' = wake_time t k) \<and>
    (\<forall>t. waiting t k \<longrightarrow> \<not> waiting t k' \<longrightarrow> is_ready t k') \<and>
    (\<forall>t. is_ready t k \<longrightarrow> is_ready t k')"
proof -
  from tick_wakes_exactly [OF assms] obtain sw k' where
    1: "xTaskIncrementTick k = Some (sw, k')" "sched_ok N k'" "xTickCount k' = xTickCount k + 1"
      "uxSchedulerSuspended k' = 0"
      "\<And>t. waiting t k' \<longleftrightarrow> waiting t k \<and> wake_time t k \<noteq> xTickCount k + 1"
      "\<And>t. wake_time t k' = wake_time t k"
      "\<And>t. if waiting t k \<and> wake_time t k = xTickCount k + 1
         then is_ready t k' \<and> container_of (EventItem t) k' = None
         else container_of (StateItem t) k' = container_of (StateItem t) k \<and>
              container_of (EventItem t) k' = container_of (EventItem t) k" by blast
  have r: "is_ready t k'" if "is_ready t k" for t
    using 1(7) [of t] that by (auto simp: is_ready_def waiting_def split: if_splits)
  have w: "is_ready t k'" if "waiting t k" "\<not> waiting t k'" for t
    using 1(5) [of t] 1(7) [of t] that by (simp split: if_splits)
  have y: "xPortSysTickHandler k = Some (if sw then k'\<lparr>pendsv := True\<rparr> else k')"
    using 1(1) by (simp add: xPortSysTickHandler_def portYIELD_def)
  show ?thesis
    by (rule exI [of _ "if sw then k'\<lparr>pendsv := True\<rparr> else k'"]) (use y 1 r w in \<open>cases sw; simp\<close>)
qed

lemma ready_ticks:
  assumes "sched_ok N k" "uxSchedulerSuspended k = 0" "is_ready t k"
  shows "\<exists>k'. ticks n k = Some k' \<and> sched_ok N k' \<and> uxSchedulerSuspended k' = 0 \<and> xTickCount k' = xTickCount k + of_nat n \<and> is_ready t k'"
  using assms
proof (induction n arbitrary: k)
  case (Suc n)
  from tick_handler [OF Suc.prems(1,2)] Suc.prems(3) obtain k1 where
    1: "xPortSysTickHandler k = Some k1" "sched_ok N k1" "uxSchedulerSuspended k1 = 0"
      "xTickCount k1 = xTickCount k + 1" "is_ready t k1" by blast
  from Suc.IH [OF 1(2,3,5)] 1(1,4) show ?case by (auto simp: add.assoc)
qed simp

lemma ticks_waiting:
  assumes "sched_ok N k" "uxSchedulerSuspended k = 0"
    and "wake_time t k = xTickCount k + w" "n < 2 ^ 32"
    and "if m = 0 then is_ready t k else waiting t k" "w = of_nat m" "m < 2 ^ 32" "n \<le> m \<or> m = 0"
  shows "\<exists>k'. ticks n k = Some k' \<and> sched_ok N k' \<and> uxSchedulerSuspended k' = 0 \<and> xTickCount k' = xTickCount k + of_nat n \<and>
    (if m \<le> n then is_ready t k' else waiting t k')"
  using assms
proof (induction n arbitrary: k w m)
  case 0
  then show ?case by (auto split: if_splits)
next
  case (Suc n)
  from tick_handler [OF Suc.prems(1,2)] obtain k1 where
    1: "xPortSysTickHandler k = Some k1" "sched_ok N k1" "uxSchedulerSuspended k1 = 0"
      "xTickCount k1 = xTickCount k + 1"
      "\<And>t. waiting t k1 \<longleftrightarrow> waiting t k \<and> wake_time t k \<noteq> xTickCount k + 1"
      "\<And>t. wake_time t k1 = wake_time t k" "\<And>t. waiting t k \<Longrightarrow> \<not> waiting t k1 \<Longrightarrow> is_ready t k1"
      "\<And>t. is_ready t k \<Longrightarrow> is_ready t k1" by blast
  have eq1: "wake_time t k = xTickCount k + 1 \<longleftrightarrow> m = 1"
  proof -
    have "of_nat m = (1 :: u32) \<longleftrightarrow> m = 1"
      using Suc.prems(7) unat_u32_of_nat [of m] by (metis of_nat_1 unat_1)
    then show ?thesis using Suc.prems(3,6) by simp
  qed
  show ?case
  proof (cases "m = 0")
    case True
    with Suc.prems(5) 1(8) have r: "is_ready t k1" by simp
    have "wake_time t k1 = xTickCount k1 + (w - 1)" using Suc.prems(3) 1(4,6) by simp
    from ready_ticks [OF 1(2,3) r, of n] obtain k' where
      "ticks n k1 = Some k'" "sched_ok N k'" "uxSchedulerSuspended k' = 0" "xTickCount k' = xTickCount k1 + of_nat n" "is_ready t k'" by blast
    with True 1(1,4) show ?thesis by (auto simp: add.assoc)
  next
    case False
    with Suc.prems(5) have wt: "waiting t k" by simp
    show ?thesis
    proof (cases "m = 1")
      case one: True
      with eq1 wt 1(5,7) have r: "is_ready t k1" by blast
      from ready_ticks [OF 1(2,3) r, of n] obtain k' where
        "ticks n k1 = Some k'" "sched_ok N k'" "uxSchedulerSuspended k' = 0" "xTickCount k' = xTickCount k1 + of_nat n" "is_ready t k'" by blast
      with one 1(1,4) show ?thesis by (auto simp: add.assoc)
    next
      case more: False
      with eq1 wt 1(5) have wt1: "waiting t k1" by blast
      have m: "Suc (m - 1) = m" using False by simp
      have wk: "wake_time t k1 = xTickCount k1 + of_nat (m - 1)"
        using Suc.prems(3,6) 1(4,6) m by (metis add.assoc add.commute of_nat_Suc)
      have "\<exists>k'. ticks n k1 = Some k' \<and> sched_ok N k' \<and> uxSchedulerSuspended k' = 0 \<and> xTickCount k' = xTickCount k1 + of_nat n \<and>
          (if m - 1 \<le> n then is_ready t k' else waiting t k')"
        by (rule Suc.IH [OF 1(2,3) wk]) (use Suc.prems more False wt1 in auto)
      then obtain k' where "ticks n k1 = Some k'" "sched_ok N k'" "uxSchedulerSuspended k' = 0"
        "xTickCount k' = xTickCount k1 + of_nat n" "if m - 1 \<le> n then is_ready t k' else waiting t k'" by blast
      with 1(1,4) False show ?thesis by (auto simp: add.assoc split: if_splits)
    qed
  qed
qed


lemma core_other [simp]:
  "core N T W (k\<lparr>uxSchedulerSuspended := n\<rparr>) \<longleftrightarrow> core N T W k"
  "core N T W (k\<lparr>xYieldPending := y\<rparr>) \<longleftrightarrow> core N T W k"
  "core N T W (k\<lparr>pendsv := y\<rparr>) \<longleftrightarrow> core N T W k"
  "core N T W (k\<lparr>uxPendedTicks := n\<rparr>) \<longleftrightarrow> core N T W k"
  by (simp_all add: core_def)

lemma on_time_other [simp]:
  "on_time (k\<lparr>uxSchedulerSuspended := n\<rparr>) \<longleftrightarrow> on_time k"
  "on_time (k\<lparr>xYieldPending := y\<rparr>) \<longleftrightarrow> on_time k"
  "on_time (k\<lparr>pendsv := y\<rparr>) \<longleftrightarrow> on_time k"
  "on_time (k\<lparr>uxPendedTicks := n\<rparr>) \<longleftrightarrow> on_time k"
  by (simp_all add: on_time_def)

lemma sched_ok_other [simp]:
  "sched_ok N (k\<lparr>uxSchedulerSuspended := n\<rparr>) \<longleftrightarrow> sched_ok N k"
  "sched_ok N (k\<lparr>xYieldPending := y\<rparr>) \<longleftrightarrow> sched_ok N k"
  "sched_ok N (k\<lparr>uxPendedTicks := n\<rparr>) \<longleftrightarrow> sched_ok N k"
  by (simp_all add: sched_ok_def)

text \<open>An event list keeps its items when only a state item moves.\<close>

lemma event_list_kept:
  assumes "core N T W k" "core N T' W' k'" "is_event l"
    and "\<And>i. i \<noteq> StateItem t \<Longrightarrow> container (lists k') i = container (lists k) i"
  shows "set (elems (lists k') l) = set (elems (lists k) l)"
proof -
  have "i \<in> set (elems (lists k') l) \<longleftrightarrow> i \<in> set (elems (lists k) l)" for i
  proof (cases "i = StateItem t")
    case True
    then show ?thesis
      using event_kind [OF assms(1) _ assms(3), of i] event_kind [OF assms(2) _ assms(3), of i] by auto
  next
    case False
    then show ?thesis
      using assms(4) [of i] coreD(1) [OF assms(1)] coreD(1) [OF assms(2)]
      by (metis lists_ok_container)
  qed
  then show ?thesis by blast
qed

lemma block_resume:
  assumes s: "sched_ok N k" and q: "quiet k" and t: "pxCurrentTCB k = Some t" "is_ready t k"
    and n: "n \<noteq> 0"
  shows "\<exists>k1 y k2. prvAddCurrentTaskToDelayedList n False (vTaskSuspendAll k) = Some k1 \<and>
    xTaskResumeAll k1 = Some (y, k2) \<and> (y \<longrightarrow> pendsv k2) \<and> sched_ok N k2 \<and> quiet k2 \<and> waiting t k2 \<and>
    wake_time t k2 = xTickCount k + n \<and> xTickCount k2 = xTickCount k"
proof -
  let ?k = "k\<lparr>uxSchedulerSuspended := 1\<rparr>"
  from s have c: "core N {} {} ?k" and ot: "on_time ?k" by (simp_all add: sched_ok_def)
  have ct: "pxCurrentTCB ?k = Some t" "is_ready t ?k"
    using t by (simp_all add: is_ready_def container_of_def)
  from add_delayed_core [OF c ot _ ct n, of False] obtain a' b m where
    1: "prvAddCurrentTaskToDelayedList n False ?k =
        Some (?k\<lparr>lists := a', uxTopReadyPriority := b, xNextTaskUnblockTime := m\<rparr>)"
      "sched_ok N (?k\<lparr>lists := a', uxTopReadyPriority := b, xNextTaskUnblockTime := m\<rparr>)"
      "container a' (StateItem t) \<in> {Some DelayedTaskList1, Some DelayedTaskList2}"
      "item_value a' (StateItem t) = xTickCount k + n"
      "\<And>i. i \<noteq> StateItem t \<Longrightarrow> container a' i = container (lists k) i" by auto
  define k1 where "k1 = ?k\<lparr>lists := a', uxTopReadyPriority := b, xNextTaskUnblockTime := m\<rparr>"
  have k1: "uxSchedulerSuspended k1 = 1" "uxPendedTicks k1 = 0" "uxCurrentNumberOfTasks k1 > 0"
    "lists k1 = a'" "xTickCount k1 = xTickCount k"
    using q by (simp_all add: k1_def quiet_def)
  from 1(2) have s1: "sched_ok N k1" by (simp add: k1_def)
  then have "core N {} {} k1" by (simp add: sched_ok_def)
  from event_list_kept [OF c this, of PendingReadyList t] 1(5) q
  have p: "items PendingReadyList k1 = []" by (simp add: k1(4) quiet_def items_def)
  define k2 where "k2 = (if xYieldPending k1 then portYIELD (k1\<lparr>uxSchedulerSuspended := 0\<rparr>)
    else k1\<lparr>uxSchedulerSuspended := 0\<rparr>)"
  have same: "lists k2 = a'" "xTickCount k2 = xTickCount k" "uxSchedulerSuspended k2 = 0"
    "uxPendedTicks k2 = 0" "uxCurrentNumberOfTasks k2 > 0"
    using k1 by (simp_all add: k2_def portYIELD_def)
  have "prvAddCurrentTaskToDelayedList n False (vTaskSuspendAll k) = Some k1"
    using q 1(1) by (simp add: vTaskSuspendAll_def quiet_def k1_def)
  moreover have "xTaskResumeAll k1 = Some (xYieldPending k1, k2)" "xYieldPending k1 \<longrightarrow> pendsv k2"
    using resume_all_quiet [OF k1(1) p k1(2,3)] by (simp_all add: k2_def Let_def portYIELD_def)
  moreover have "sched_ok N k2" using s1 by (simp add: k2_def portYIELD_def)
  moreover have "quiet k2" using p same k1(4) by (simp add: quiet_def items_def)
  moreover have "waiting t k2" "wake_time t k2 = xTickCount k + n"
    using 1(3,4) by (simp_all add: waiting_def wake_time_def container_of_def value_of_def same(1))
  ultimately show ?thesis using same(2) by blast
qed

lemma delay_blocks:
  assumes s: "sched_ok N k" and q: "quiet k" and t: "pxCurrentTCB k = Some t" "is_ready t k"
    and n: "n \<noteq> 0"
  shows "\<exists>k'. vTaskDelay n k = Some k' \<and> pendsv k' \<and> sched_ok N k' \<and> quiet k' \<and> waiting t k' \<and>
    wake_time t k' = xTickCount k + n \<and> xTickCount k' = xTickCount k"
proof -
  from block_resume [OF assms] obtain k1 y k2 where
    1: "prvAddCurrentTaskToDelayedList n False (vTaskSuspendAll k) = Some k1"
      "xTaskResumeAll k1 = Some (y, k2)" "y \<longrightarrow> pendsv k2" "sched_ok N k2" "quiet k2" "waiting t k2"
      "wake_time t k2 = xTickCount k + n" "xTickCount k2 = xTickCount k" by blast
  have "vTaskDelay n k = Some (if y then k2 else portYIELD k2)"
    using n 1(1,2) by (simp add: vTaskDelay_def word_gt_0)
  then show ?thesis using 1(3-8)
    by (intro exI [of _ "if y then k2 else portYIELD k2"]) (simp add: portYIELD_def quiet_def items_def)
qed

lemma ticks_add: "ticks (n + m) k = do { k \<leftarrow> ticks n k; ticks m k }"
  by (induction n arbitrary: k) (auto split: Option.bind_splits)

lemma delay_ready:
  assumes "sched_ok N k" "quiet k" "pxCurrentTCB k = Some t" "is_ready t k"
    and "0 < n" "n < 2 ^ 32" "m < 2 ^ 32"
  shows "\<exists>k1 k2. vTaskDelay (of_nat n) k = Some k1 \<and> pendsv k1 \<and> ticks m k1 = Some k2 \<and>
    xTickCount k2 = xTickCount k + of_nat m \<and> (is_ready t k2 \<longleftrightarrow> n \<le> m) \<and> sched_ok N k2"
proof -
  have "of_nat n \<noteq> (0 :: u32)" using assms(5,6) unat_u32_of_nat [of n] by (metis less_numeral_extra(3) unat_0)
  from delay_blocks [OF assms(1-4) this] obtain k1 where
    1: "vTaskDelay (of_nat n) k = Some k1" "pendsv k1" "sched_ok N k1" "quiet k1" "waiting t k1"
      "wake_time t k1 = xTickCount k1 + of_nat n" "xTickCount k1 = xTickCount k" by auto
  have u: "uxSchedulerSuspended k1 = 0" using 1(4) by (simp add: quiet_def)
  have no: "\<not> (waiting t k' \<and> is_ready t k')" for k' by (auto simp: waiting_def is_ready_def)
  show ?thesis
  proof (cases "m \<le> n")
    case True
    from ticks_waiting [OF 1(3) u 1(6), of m n] 1(5) assms(5-7) True obtain k2 where
      "ticks m k1 = Some k2" "sched_ok N k2" "xTickCount k2 = xTickCount k1 + of_nat m"
      "if n \<le> m then is_ready t k2 else waiting t k2" by auto
    with 1 no show ?thesis by (auto split: if_splits)
  next
    case False
    from ticks_waiting [OF 1(3) u 1(6), of n n] 1(5) assms(5-7) obtain k2 where
      2: "ticks n k1 = Some k2" "sched_ok N k2" "xTickCount k2 = xTickCount k1 + of_nat n" "is_ready t k2"
        "uxSchedulerSuspended k2 = 0" by auto
    from ready_ticks [OF 2(2) 2(5,4), of "m - n"] obtain k3 where
      3: "ticks (m - n) k2 = Some k3" "sched_ok N k3" "xTickCount k3 = xTickCount k2 + of_nat (m - n)"
        "is_ready t k3" by blast
    have "ticks (n + (m - n)) k1 = Some k3" using ticks_add [of n "m - n" k1] 2(1) 3(1) by simp
    moreover have "(of_nat n :: u32) + of_nat (m - n) = of_nat m"
      using False by (metis add_diff_inverse_nat le_eq_less_or_eq not_le of_nat_add linorder_not_less)
    ultimately show ?thesis using 1 2 3 False by (auto simp: add.assoc)
  qed
qed

end
