(* ===== verification/Kernel_Frame.thy ===== *)
theory Kernel_Frame
  imports Kernel_Sched
begin

text \<open>
  What the operations of the scheduler leave alone.  Each lemma speaks of a run that succeeds and
  follows from the text of the operation only: which containers change, and that the environment
  (priorities, running task, flags, counters) does not.  \<open>Kernel_Sched\<close> and \<open>Kernel_Run\<close> say when
  the operations succeed.
\<close>

text \<open>Everything but the lists, their bookkeeping and the time.\<close>

definition env :: "kernel \<Rightarrow> (nat \<Rightarrow> tcb) \<times> nat option \<times> bool \<times> u32 \<times> u32 \<times> u32 \<times> bool \<times> bool" where
  "env k = (tcbs k, pxCurrentTCB k, xSchedulerRunning k, uxCurrentNumberOfTasks k,
     uxSchedulerSuspended k, uxPendedTicks k, pendsv k, xYieldPending k)"

lemma envD:
  assumes "env k' = env k"
  shows "tcbs k' = tcbs k" "pxCurrentTCB k' = pxCurrentTCB k" "xSchedulerRunning k' = xSchedulerRunning k"
    "uxCurrentNumberOfTasks k' = uxCurrentNumberOfTasks k"
    "uxSchedulerSuspended k' = uxSchedulerSuspended k" "uxPendedTicks k' = uxPendedTicks k"
    "pendsv k' = pendsv k" "xYieldPending k' = xYieldPending k" "prio k' = prio k"
  using assms by (auto simp: env_def prio_def)

lemma k_remove_frame:
  "k_remove i k = Some (n, k') \<Longrightarrow>
     env k' = env k \<and> (\<forall>j. container_of j k' = (if j = i then None else container_of j k))"
  by (auto simp: k_remove_def list_remove_def Let_def env_def container_of_def split: Option.bind_splits)

lemma k_insert_end_frame:
  "k_insert_end l i k = Some k' \<Longrightarrow>
     env k' = env k \<and> (\<forall>j. container_of j k' = (if j = i then Some l else container_of j k))"
  by (auto simp: k_insert_end_def list_insert_end_def env_def container_of_def
      split: Option.bind_splits if_splits)

lemma k_insert_frame:
  "k_insert l i k = Some k' \<Longrightarrow>
     env k' = env k \<and> (\<forall>j. container_of j k' = (if j = i then Some l else container_of j k))"
  by (auto simp: k_insert_def list_insert_def env_def container_of_def
      split: Option.bind_splits if_splits)

lemma add_ready_frame:
  assumes "prvAddTaskToReadyList t k = Some k'"
  shows "env k' = env k" "container_of j k' =
     (if j = StateItem t then Some (Ready (unat (prio k t))) else container_of j k)"
proof -
  from assms obtain l where l: "ready_list (prio k t) = Some l"
    "k_insert_end l (StateItem t) (taskRECORD_READY_PRIORITY (prio k t) k) = Some k'"
    by (auto simp: prvAddTaskToReadyList_def taskRECORD_READY_PRIORITY_def Let_def
        split: Option.bind_splits)
  then have "l = Ready (unat (prio k t))" by (simp add: ready_list_def split: if_splits)
  with k_insert_end_frame [OF l(2)] show "env k' = env k" "container_of j k' =
     (if j = StateItem t then Some (Ready (unat (prio k t))) else container_of j k)"
    by (simp_all add: taskRECORD_READY_PRIORITY_def env_def container_of_def)
qed

lemma remove_event_frame:
  assumes "remove_event t k = Some k'"
  shows "env k' = env k \<and> (\<forall>j. container_of j k' = (if j = EventItem t then None else container_of j k))"
  using assms k_remove_frame [of "EventItem t" k]
  by (auto simp: remove_event_def split: Option.bind_splits if_splits)

lemma remove_state_frame:
  assumes "remove_state t k = Some k'"
  shows "env k' = env k \<and> (\<forall>j. container_of j k' = (if j = StateItem t then None else container_of j k))"
proof -
  from assms obtain n k1 where 1: "k_remove (StateItem t) k = Some (n, k1)"
    "(if n = 0 then taskRESET_READY_PRIORITY (prio k1 t) k1 else Some k1) = Some k'"
    by (auto simp: remove_state_def split: Option.bind_splits)
  from 1(2) have "env k' = env k1 \<and> (\<forall>j. container_of j k' = container_of j k1)"
    by (auto simp: taskRESET_READY_PRIORITY_def portRESET_READY_PRIORITY_def env_def container_of_def
        split: if_splits Option.bind_splits)
  with k_remove_frame [OF 1(1)] show ?thesis by simp
qed

lemma reset_frame:
  assumes "prvResetNextTaskUnblockTime k = Some k'"
  shows "env k' = env k \<and> (\<forall>j. container_of j k' = container_of j k)"
  using assms by (auto simp: prvResetNextTaskUnblockTime_def env_def container_of_def
      split: if_splits Option.bind_splits)

lemma set_value_frame [simp]: "env (k_set_value i v k) = env k" "container_of j (k_set_value i v k) = container_of j k"
  by (simp_all add: k_set_value_def env_def container_of_def)

lemma not_readyI: "container_of (StateItem t) k \<notin> range (Some \<circ> Ready) \<Longrightarrow> \<not> is_ready t k"
  by (auto simp: is_ready_def)

lemma add_delayed_frame:
  assumes "prvAddCurrentTaskToDelayedList n ind k = Some k'" "pxCurrentTCB k = Some t"
    and "\<And>p. pxDelayedTaskList k \<noteq> Ready p" "\<And>p. pxOverflowDelayedTaskList k \<noteq> Ready p"
  shows "env k' = env k \<and> \<not> is_ready t k' \<and> (\<forall>j. j \<noteq> StateItem t \<longrightarrow> container_of j k' = container_of j k)"
proof -
  from assms(1,2) obtain m k0 where 1: "k_remove (StateItem t) k = Some (m, k0)"
  proof (cases "k_remove (StateItem t) k")
    case None
    with assms(1,2) show thesis by (simp add: prvAddCurrentTaskToDelayedList_def Let_def)
  next
    case (Some p)
    then show thesis using that by (cases p) simp
  qed
  define k1 where "k1 = (if m = 0 then portRESET_READY_PRIORITY (prio k0 t) k0 else k0)"
  have "env k1 = env k0" "container_of j k1 = container_of j k0" for j
    by (simp_all add: k1_def portRESET_READY_PRIORITY_def env_def container_of_def)
  with k_remove_frame [OF 1] have f1: "env k1 = env k" "\<And>j. j \<noteq> StateItem t \<Longrightarrow> container_of j k1 = container_of j k"
    by simp_all
  have d: "pxDelayedTaskList k1 = pxDelayedTaskList k"
    "pxOverflowDelayedTaskList k1 = pxOverflowDelayedTaskList k"
    using 1 by (auto simp: k1_def k_remove_def portRESET_READY_PRIORITY_def split: Option.bind_splits)
  have put: "env k' = env k \<and> \<not> is_ready t k' \<and> (\<forall>j. j \<noteq> StateItem t \<longrightarrow> container_of j k' = container_of j k)"
    if "env k' = env k1" "\<And>j. container_of j k' = (if j = StateItem t then Some l else container_of j k1)"
      "\<And>p. l \<noteq> Ready p" for l
    using that f1 by (auto simp: is_ready_def)
  have eq: "prvAddCurrentTaskToDelayedList n ind k =
      (if n = portMAX_DELAY \<and> ind then k_insert_end SuspendedTaskList (StateItem t) k1
       else let wake = xTickCount k + n; k2 = k_set_value (StateItem t) wake k1
         in if wake < xTickCount k then k_insert (pxOverflowDelayedTaskList k2) (StateItem t) k2
         else do {
           k \<leftarrow> k_insert (pxDelayedTaskList k2) (StateItem t) k2;
           Some (if wake < xNextTaskUnblockTime k then k\<lparr>xNextTaskUnblockTime := wake\<rparr> else k)
         })"
    unfolding prvAddCurrentTaskToDelayedList_def assms(2) Option.bind.bind_lunit 1 Let_def prod.case k1_def ..
  show ?thesis
  proof (cases "n = portMAX_DELAY \<and> ind")
    case True
    then have "k_insert_end SuspendedTaskList (StateItem t) k1 = Some k'"
      using assms(1) unfolding eq by simp
    from k_insert_end_frame [OF this] put [of SuspendedTaskList] show ?thesis by simp
  next
    case False
    define w where "w = xTickCount k + n"
    define k2 where "k2 = k_set_value (StateItem t) w k1"
    have d2: "pxDelayedTaskList k2 = pxDelayedTaskList k" "pxOverflowDelayedTaskList k2 = pxOverflowDelayedTaskList k"
      using d by (simp_all add: k2_def k_set_value_def)
    have run: "(if w < xTickCount k then k_insert (pxOverflowDelayedTaskList k2) (StateItem t) k2
       else do {
         k \<leftarrow> k_insert (pxDelayedTaskList k2) (StateItem t) k2;
         Some (if w < xNextTaskUnblockTime k then k\<lparr>xNextTaskUnblockTime := w\<rparr> else k)
       }) = Some k'"
      using assms(1) unfolding eq if_not_P [OF False] w_def k2_def Let_def .
    show ?thesis
    proof (cases "w < xTickCount k")
      case True
      with run have "k_insert (pxOverflowDelayedTaskList k2) (StateItem t) k2 = Some k'" by simp
      note f = k_insert_frame [OF this, unfolded d2]
      show ?thesis
        by (rule put [of "pxOverflowDelayedTaskList k"])
           (use f in \<open>simp add: k2_def\<close>, use f in \<open>simp add: k2_def\<close>, rule assms(4))
    next
      case False
      with run obtain k3 where 3: "k_insert (pxDelayedTaskList k2) (StateItem t) k2 = Some k3"
        "k' = (if w < xNextTaskUnblockTime k3 then k3\<lparr>xNextTaskUnblockTime := w\<rparr> else k3)"
        by (auto split: Option.bind_splits)
      have e: "env k' = env k3" "container_of j k' = container_of j k3" for j
        by (simp_all add: 3(2) env_def container_of_def)
      note f = k_insert_frame [OF 3(1), unfolded d2]
      show ?thesis
        by (rule put [of "pxDelayedTaskList k"])
           (use e f in \<open>simp add: k2_def\<close>, use e f in \<open>simp add: k2_def\<close>, rule assms(3))
    qed
  qed
qed

text \<open>
  No task leaves the ready lists in the loop, and one that enters them with a priority not below
  that of the running task asks for a switch.
\<close>

definition woke_up :: "bool \<Rightarrow> kernel \<Rightarrow> kernel \<Rightarrow> bool" where
  "woke_up sw k k' \<longleftrightarrow> env k' = env k \<and>
     (\<forall>t. is_ready t k \<longrightarrow> is_ready t k') \<and>
     (\<forall>t c. pxCurrentTCB k = Some c \<longrightarrow> is_ready t k' \<longrightarrow> is_ready t k \<or> sw \<or> prio k t < prio k c) \<and>
     (\<forall>t. container_of (EventItem t) k' \<in> {None, container_of (EventItem t) k})"

lemma woke_up_refl [simp]: "woke_up sw k k"
  by (simp add: woke_up_def)

lemma woke_up_other:
  assumes "env k' = env k" "\<And>j. container_of j k' = container_of j k"
  shows "woke_up sw k k'"
  using assms by (simp add: woke_up_def is_ready_def)

lemma woke_up_trans:
  assumes 1: "woke_up s1 k k1" and 2: "woke_up s2 k1 k2" and s: "s1 \<longrightarrow> s2"
  shows "woke_up s2 k k2"
proof -
  from 1 have e: "env k1 = env k" by (simp add: woke_up_def)
  have r: "is_ready t k \<or> s2 \<or> prio k t < prio k c"
    if "pxCurrentTCB k = Some c" "is_ready t k2" for t c
  proof -
    have "is_ready t k1 \<or> s2 \<or> prio k1 t < prio k1 c"
      using 2 that envD(2) [OF e] by (simp add: woke_up_def)
    then show ?thesis using 1 that(1) s envD(9) [OF e] by (auto simp: woke_up_def)
  qed
  have "container_of (EventItem t) k2 \<in> {None, container_of (EventItem t) k}" for t
    using 1 2 unfolding woke_up_def by (metis insert_iff singletonD)
  with 1 2 r show ?thesis by (simp add: woke_up_def)
qed

lemma woke_up_one:
  assumes "env k' = env k" "container_of (StateItem t) k' = Some (Ready p)"
    and "container_of (EventItem t) k' \<in> {None, container_of (EventItem t) k}"
    and "\<And>j. j \<noteq> StateItem t \<Longrightarrow> j \<noteq> EventItem t \<Longrightarrow> container_of j k' = container_of j k"
    and "\<And>c. pxCurrentTCB k = Some c \<Longrightarrow> prio k c \<le> prio k t \<Longrightarrow> sw"
  shows "woke_up sw k k'"
  unfolding woke_up_def
proof (intro conjI allI impI)
  show "env k' = env k" by fact
  have o: "is_ready q k' \<longleftrightarrow> is_ready q k" if "q \<noteq> t" for q using assms(4) that by (simp add: is_ready_def)
  show "is_ready q k'" if "is_ready q k" for q
    using that o assms(2) by (cases "q = t") (auto simp: is_ready_def)
  show "is_ready q k \<or> sw \<or> prio k q < prio k c" if "pxCurrentTCB k = Some c" "is_ready q k'" for q c
    using that o assms(5) [of c] by (cases "q = t") (auto simp: not_le)
  show "container_of (EventItem q) k' \<in> {None, container_of (EventItem q) k}" for q
    using assms(3,4) by (cases "q = t") auto
qed

lemma wake_loop_frame:
  "wake_loop now sw k = Some r \<Longrightarrow> (sw \<longrightarrow> fst r) \<and> woke_up (fst r) k (snd r)"
proof (induction rule: wake_loop.raw_induct [rotated, consumes 1])
  case (1 f now sw k r)
  have o: "woke_up b k (k\<lparr>xNextTaskUnblockTime := v\<rparr>)" for b v
    by (rule woke_up_other) (simp_all add: env_def container_of_def)
  show ?case
  proof (cases "items (pxDelayedTaskList k) k = []")
    case True
    with 1 o show ?thesis by auto
  next
    case False
    with 1(2) obtain t where t: "head_owner (pxDelayedTaskList k) (lists k) = Some t"
      by (auto split: Option.bind_splits)
    show ?thesis
    proof (cases "now < value_of (StateItem t) k")
      case True
      with 1(2) False t o show ?thesis by (auto simp: Let_def)
    next
      case late: False
      with 1(2) False t obtain n k1 k2 k3 c where
        s: "k_remove (StateItem t) k = Some (n, k1)" "remove_event t k1 = Some k2"
          "prvAddTaskToReadyList t k2 = Some k3" "pxCurrentTCB k3 = Some c"
          "f now (sw \<or> prio k3 c \<le> prio k3 t) k3 = Some r"
        by (auto simp: Let_def split: Option.bind_splits)
      note f1 = k_remove_frame [OF s(1)] and f2 = remove_event_frame [OF s(2)]
        and f3 = add_ready_frame [OF s(3)]
      have e: "env k3 = env k" using f1 f2 f3(1) by simp
      note E = envD [OF e]
      have "woke_up (sw \<or> prio k3 c \<le> prio k3 t) k k3"
      proof (rule woke_up_one [OF e])
        show "container_of (StateItem t) k3 = Some (Ready (unat (prio k2 t)))" using f3(2) by simp
        show "container_of (EventItem t) k3 \<in> {None, container_of (EventItem t) k}" using f3(2) f2 by simp
        show "container_of j k3 = container_of j k" if "j \<noteq> StateItem t" "j \<noteq> EventItem t" for j
          using f1 f2 f3(2) that by simp
        show "sw \<or> prio k3 c \<le> prio k3 t" if "pxCurrentTCB k = Some c'" "prio k c' \<le> prio k t" for c'
          using that s(4) E by simp
      qed
      from woke_up_trans [OF this] 1(1) [OF s(5)] show ?thesis by blast
    qed
  qed
qed

lemma tick_frame:
  assumes t: "xTaskIncrementTick k = Some (sw, k')"
  shows "if uxSchedulerSuspended k = 0 then woke_up sw k k' \<and> (xYieldPending k \<longrightarrow> sw)
    else k' = k\<lparr>uxPendedTicks := uxPendedTicks k + 1\<rparr> \<and> sw = xYieldPending k"
proof (cases "uxSchedulerSuspended k = 0")
  case False
  with t show ?thesis by (auto simp: xTaskIncrementTick_def Let_def)
next
  case True
  define now where "now = xTickCount k + 1"
  define first where "first = (if now = 0 then taskSWITCH_DELAYED_LISTS (k\<lparr>xTickCount := now\<rparr>)
        else Some (k\<lparr>xTickCount := now\<rparr>))"
  define loop where "loop k1 = (if xNextTaskUnblockTime k1 \<le> now then wake_loop now False k1
        else Some (False, k1))" for k1
  have eq: "xTaskIncrementTick k = do {
       k1 \<leftarrow> first;
       (s2, k2) \<leftarrow> loop k1;
       c \<leftarrow> pxCurrentTCB k2;
       l \<leftarrow> ready_list (prio k2 c);
       Some ((s2 \<or> length (items l k2) > 1) \<or> xYieldPending k2, k2)
     }"
    using True unfolding xTaskIncrementTick_def Let_def now_def [symmetric] first_def loop_def
    by (auto split: Option.bind_splits)
  from t obtain k1 where s1: "first = Some k1" unfolding eq by (cases first) auto
  from t obtain s2 k2 where s2: "loop k1 = Some (s2, k2)" unfolding eq s1 by (cases "loop k1") auto
  from t obtain c where s3: "pxCurrentTCB k2 = Some c"
    unfolding eq s1 by (cases "pxCurrentTCB k2") (simp_all add: s2)
  from t obtain l where s4: "ready_list (prio k2 c) = Some l"
    unfolding eq s1 by (cases "ready_list (prio k2 c)") (simp_all add: s2 s3)
  have s: "k' = k2" "s2 \<or> xYieldPending k2 \<Longrightarrow> sw"
    using t unfolding eq s1 by (auto simp add: s2 s3 s4)
  note s1 = s1 [unfolded first_def] and s2 = s2 [unfolded loop_def]
  define k0 where "k0 = k\<lparr>xTickCount := now\<rparr>"
  note s1 = s1 [folded k0_def]
  have f0: "woke_up b k k0" for b
    by (rule woke_up_other) (simp_all add: k0_def env_def container_of_def)
  have f1: "woke_up b k0 k1" for b
  proof (cases "now = 0")
    case True
    with s1 have "prvResetNextTaskUnblockTime
       (k0\<lparr>pxDelayedTaskList := pxOverflowDelayedTaskList k0,
          pxOverflowDelayedTaskList := pxDelayedTaskList k0,
          xNumOfOverflows := xNumOfOverflows k0 + 1\<rparr>) = Some k1" by (simp add: taskSWITCH_DELAYED_LISTS_def)
    from reset_frame [OF this] show ?thesis
      by (intro woke_up_other) (simp_all add: env_def container_of_def)
  qed (use s1 in simp)
  have f2: "woke_up s2 k1 k2"
  proof (cases "xNextTaskUnblockTime k1 \<le> now")
    case True
    with s2 have "wake_loop now False k1 = Some (s2, k2)" by simp
    from wake_loop_frame [OF this] show ?thesis by simp
  qed (use s2 in simp)
  have f01: "woke_up s2 k k1" using woke_up_trans [OF f0 [of s2] f1 [of s2]] by simp
  from woke_up_trans [OF this f2] have w: "woke_up s2 k k2" by simp
  have "woke_up sw k2 k2" by simp
  from woke_up_trans [OF w this] s(2) have "woke_up sw k k'" unfolding s(1) by blast
  moreover have "xYieldPending k2 = xYieldPending k" using w envD(8) [of k2 k] by (simp add: woke_up_def)
  ultimately show ?thesis using True s(2) by simp
qed

end
