(* ===== verification/Kernel_Run.thy ===== *)
theory Kernel_Run
  imports Kernel_Frame
begin

text \<open>
  The operations of the scheduler that move tasks succeed on every well-formed state: a task is
  suspended, resumed, signalled, given another priority, and the scheduler is resumed with ticks
  and wake-ups pending.
\<close>

section \<open>Operations that move one task\<close>

lemma reset_ok:
  assumes s: "sched_ok N k"
  shows "\<exists>n. prvResetNextTaskUnblockTime k = Some (k\<lparr>xNextTaskUnblockTime := n\<rparr>) \<and>
    sched_ok N (k\<lparr>xNextTaskUnblockTime := n\<rparr>)"
proof -
  from s have c: "core N {} {} k" and ot: "on_time k" by (simp_all add: sched_ok_def)
  from ot have T: "by_value (lists k) (elems (lists k) (pxDelayedTaskList k))"
    by (simp add: on_time_def timed_def)
  from reset_unblock [OF c T delayed_lists(2) [OF ot]] obtain n where
    n: "prvResetNextTaskUnblockTime k = Some (k\<lparr>xNextTaskUnblockTime := n\<rparr>)"
      "\<forall>i \<in> set (elems (lists k) (pxDelayedTaskList k)). n \<le> item_value (lists k) i" by blast
  have "on_time (k\<lparr>xNextTaskUnblockTime := n\<rparr>)"
    using ot n(2) by (simp add: on_time_def timed_def)
  moreover have "core N {} {} (k\<lparr>xNextTaskUnblockTime := n\<rparr>)" using c by (simp add: core_def)
  ultimately show ?thesis using n(1) by (auto simp: sched_ok_def)
qed

text \<open>Off its lists and on to the suspended list.\<close>

lemma suspend_moves:
  assumes s: "sched_ok N k" and t: "t \<in> N"
  shows "\<exists>a' b. do { k \<leftarrow> remove_state t k; k \<leftarrow> remove_event t k;
        k_insert_end SuspendedTaskList (StateItem t) k } = Some (k\<lparr>lists := a', uxTopReadyPriority := b\<rparr>) \<and>
    sched_ok N (k\<lparr>lists := a', uxTopReadyPriority := b\<rparr>) \<and>
    container a' (StateItem t) = Some SuspendedTaskList \<and> container a' (EventItem t) = None \<and>
    (\<forall>q. q \<noteq> t \<longrightarrow> container a' (StateItem q) = container (lists k) (StateItem q)) \<and>
    (\<forall>q. q \<noteq> t \<longrightarrow> container a' (EventItem q) = container (lists k) (EventItem q))"
proof -
  from s have c: "core N {} {} k" and ot: "on_time k" by (simp_all add: sched_ok_def)
  from remove_state_core [OF c t] obtain l a1 b where
    1: "remove_state t k = Some (k\<lparr>lists := a1, uxTopReadyPriority := b\<rparr>)"
      "taken l (StateItem t) (lists k) a1" "core N {t} {} (k\<lparr>lists := a1, uxTopReadyPriority := b\<rparr>)"
    by auto
  define k1 where "k1 = k\<lparr>lists := a1, uxTopReadyPriority := b\<rparr>"
  from 1(3) have c1: "core N {t} {} k1" by (simp add: k1_def)
  have ot1: "on_time k1" using taken_on_time [OF ot 1(2)] by (simp add: k1_def)
  from remove_event_core [OF c1, of t] obtain a2 where
    2: "remove_event t k1 = Some (k1\<lparr>lists := a2\<rparr>)" "core N {t} {} (k1\<lparr>lists := a2\<rparr>)"
      "container a2 (EventItem t) = None" "item_value a2 = item_value (lists k1)"
      "\<And>i. i \<noteq> EventItem t \<Longrightarrow> container a2 i = container (lists k1) i"
      "\<And>l. \<not> is_event l \<Longrightarrow> elems a2 l = elems (lists k1) l" by auto
  have ot2: "on_time (k1\<lparr>lists := a2\<rparr>)"
    using ot1 2(4,6) delayed_lists(2,4) [OF ot1] by (simp add: on_time_def timed_def by_value_def)
  have u: "container a2 (StateItem t) = None" using placed_state_unlisted [OF 2(2)] by simp
  from list_insert_end_put [OF coreD(1) [OF 2(2)], of "StateItem t" SuspendedTaskList] u obtain a' xs where
    3: "list_insert_end SuspendedTaskList (StateItem t) a2 = Some a'"
      "put_on SuspendedTaskList (StateItem t) xs a2 a'" by auto
  have "core N {} {} (k1\<lparr>lists := a'\<rparr>)"
    using put_state_core [OF 2(2), of t SuspendedTaskList xs a'] 3(2) by simp
  moreover have "on_time (k1\<lparr>lists := a'\<rparr>)"
    using put_timed [OF 3(2)] ot2 delayed_lists(6) [OF ot2] by (auto simp: on_time_def)
  ultimately have ok: "sched_ok N (k1\<lparr>lists := a'\<rparr>)" by (simp add: sched_ok_def)
  have run: "do { k \<leftarrow> remove_state t k; k \<leftarrow> remove_event t k;
        k_insert_end SuspendedTaskList (StateItem t) k } = Some (k1\<lparr>lists := a'\<rparr>)"
    using 1(1) 2(1) 3(1) by (simp add: k1_def k_insert_end_def)
  have "container a' (StateItem q) = container (lists k) (StateItem q)" if "q \<noteq> t" for q
    using put_onD(3) [OF 3(2)] 2(5) 1(2) that by (simp add: k1_def taken_def)
  moreover have "container a' (EventItem q) = container (lists k) (EventItem q)" if "q \<noteq> t" for q
    using put_onD(3) [OF 3(2)] 2(5) 1(2) that by (simp add: k1_def taken_def)
  moreover have "container a' (StateItem t) = Some SuspendedTaskList" "container a' (EventItem t) = None"
    using put_onD(3) [OF 3(2)] 2(3) by simp_all
  moreover have "k1\<lparr>lists := a'\<rparr> = k\<lparr>lists := a', uxTopReadyPriority := b\<rparr>" by (simp add: k1_def)
  ultimately show ?thesis using ok run by metis
qed

lemma not_ready_list:
  assumes "on_time k"
  shows "Ready p \<noteq> pxDelayedTaskList k" "Ready p \<noteq> pxOverflowDelayedTaskList k"
  using delayed_lists(1,3) [OF assms] by metis+

text \<open>From a list that is no ready list to its ready list, when it waits for no event.\<close>

lemma resume_moves:
  assumes s: "sched_ok N k" and t: "t \<in> N" and e: "container (lists k) (EventItem t) = None"
    and nr: "\<not> is_ready t k"
  shows "\<exists>n a1 a' b. k_remove (StateItem t) k = Some (n, k\<lparr>lists := a1\<rparr>) \<and>
    prvAddTaskToReadyList t (k\<lparr>lists := a1\<rparr>) = Some (k\<lparr>lists := a', uxTopReadyPriority := b\<rparr>) \<and>
    sched_ok N (k\<lparr>lists := a', uxTopReadyPriority := b\<rparr>) \<and>
    is_ready t (k\<lparr>lists := a', uxTopReadyPriority := b\<rparr>) \<and>
    (\<forall>i. i \<noteq> StateItem t \<longrightarrow> container a' i = container (lists k) i) \<and>
    (\<forall>m. is_event m \<longrightarrow> elems a' m = elems (lists k) m)"
proof -
  from s have c: "core N {} {} k" and ot: "on_time k" by (simp_all add: sched_ok_def)
  have "container (lists k) (StateItem t) \<noteq> Some (Ready p)" for p
    using nr by (simp add: is_ready_def container_of_def)
  from k_remove_core [OF c t _ this] obtain n l a1 where
    1: "k_remove (StateItem t) k = Some (n, k\<lparr>lists := a1\<rparr>)" "taken l (StateItem t) (lists k) a1"
      "core N {t} {} (k\<lparr>lists := a1\<rparr>)" and l: "container (lists k) (StateItem t) = Some l" by auto
  from state_item_listed [OF c t, of False] l have ev: "\<not> is_event l" by auto
  have ot1: "on_time (k\<lparr>lists := a1\<rparr>)"
    using taken_timed [OF 1(2)] ot by (simp add: on_time_def)
  have e1: "container a1 (EventItem t) = None" using 1(2) e by (simp add: taken_def)
  from add_ready_core [OF 1(3), of t] e1 obtain xs a' b where
    2: "prvAddTaskToReadyList t (k\<lparr>lists := a1\<rparr>) = Some (k\<lparr>lists := a', uxTopReadyPriority := b\<rparr>)"
      "put_on (Ready (unat (prio k t))) (StateItem t) xs a1 a'"
      "core N {} {} (k\<lparr>lists := a', uxTopReadyPriority := b\<rparr>)" by auto
  have "on_time (k\<lparr>lists := a', uxTopReadyPriority := b\<rparr>)"
    using put_timed [OF 2(2)] ot1 not_ready_list [OF ot] by (simp add: on_time_def)
  moreover have "container a' i = container (lists k) i" if "i \<noteq> StateItem t" for i
    using put_onD(3) [OF 2(2)] 1(2) that by (simp add: taken_def)
  moreover have "container a' (StateItem t) = Some (Ready (unat (prio k t)))"
    using put_onD(3) [OF 2(2)] by simp
  moreover have "elems a' m = elems (lists k) m" if "is_event m" for m
    using put_onD(4) [OF 2(2), of m] takenD(4) [OF 1(2), of m] that ev by (cases "m = l"; cases m) auto
  ultimately show ?thesis using 1(1) 2(1,3) by (auto simp: sched_ok_def is_ready_def container_of_def)
qed

text \<open>The first task of an event list leaves it; it was not ready.\<close>

lemma event_taken:
  assumes s: "sched_ok N k" and l: "is_event l" "head_owner l (lists k) = Some t"
  shows "t \<in> N \<and> \<not> is_ready t k \<and> container_of (EventItem t) k = Some l \<and>
    (\<exists>n a'. k_remove (EventItem t) k = Some (n, k\<lparr>lists := a'\<rparr>) \<and>
      sched_ok N (k\<lparr>lists := a'\<rparr>) \<and> taken l (EventItem t) (lists k) a')"
proof -
  from s have c: "core N {} {} k" and ot: "on_time k" by (simp_all add: sched_ok_def)
  note C = coreD [OF c]
  from l(2) obtain i xs where i: "elems (lists k) l = i # xs" "t = owner i"
    by (auto simp: head_owner_def split: list.splits)
  with event_kind [OF c _ l(1), of i] have t: "t \<in> N" "i = EventItem t" by auto
  then have ct: "container (lists k) (EventItem t) = Some l"
    using C(1) i(1) by (simp add: lists_ok_container)
  have "\<not> is_ready t k"
    using ready_in_list [OF c, of t] C(5) ct by (auto simp: not_waiting_def)
  moreover from list_remove_taken [OF C(1) ct] obtain a' where
    a': "list_remove (EventItem t) (lists k) = Some (length (elems a' l), a')"
      "taken l (EventItem t) (lists k) a'" by blast
  moreover have "bitmap (uxTopReadyPriority k) a'" by (rule taken_bitmap [OF a'(2) C(6)]) (use l in auto)
  with taken_core_lists [OF c a'(2) _ taken_placed_event [OF C(3) a'(2)]] taken_timed [OF a'(2)] ot
  have "sched_ok N (k\<lparr>lists := a'\<rparr>)" by (simp add: sched_ok_def on_time_def)
  ultimately show ?thesis using t ct by (auto simp: k_remove_def container_of_def)
qed

section \<open>Resuming the scheduler\<close>

lemma woke_up_yield:
  assumes "woke_up s k k'"
  shows "woke_up s (k\<lparr>xYieldPending := y\<rparr>) (k'\<lparr>xYieldPending := y\<rparr>)"
  using assms by (simp add: woke_up_def env_def is_ready_def container_of_def)

text \<open>
  The state \<open>k'\<close> comes from \<open>k\<close> by waking tasks, and the flag of a pending switch is set when one of
  them has a priority not below that of the running task.
\<close>

definition woke_flag :: "kernel \<Rightarrow> kernel \<Rightarrow> bool" where
  "woke_flag k k' \<longleftrightarrow>
     woke_up (xYieldPending k') k (k'\<lparr>xYieldPending := xYieldPending k\<rparr>) \<and>
     (xYieldPending k \<longrightarrow> xYieldPending k')"

lemma woke_flag_refl [simp]: "woke_flag k k"
  by (simp add: woke_flag_def)

lemma woke_flag_trans:
  assumes "woke_flag k k1" "woke_flag k1 k2"
  shows "woke_flag k k2"
proof -
  from assms(2) have "woke_up (xYieldPending k2) k1 (k2\<lparr>xYieldPending := xYieldPending k1\<rparr>)"
    by (simp add: woke_flag_def)
  from woke_up_yield [OF this, of "xYieldPending k"]
  have "woke_up (xYieldPending k2) (k1\<lparr>xYieldPending := xYieldPending k\<rparr>)
      (k2\<lparr>xYieldPending := xYieldPending k\<rparr>)" by simp
  with assms woke_up_trans show ?thesis unfolding woke_flag_def by blast
qed

lemma woke_flagD:
  assumes "woke_flag k k'"
  shows "tcbs k' = tcbs k" "prio k' = prio k" "pxCurrentTCB k' = pxCurrentTCB k"
    "xSchedulerRunning k' = xSchedulerRunning k"
    "uxCurrentNumberOfTasks k' = uxCurrentNumberOfTasks k"
    "uxSchedulerSuspended k' = uxSchedulerSuspended k" "uxPendedTicks k' = uxPendedTicks k"
    "pendsv k' = pendsv k" "xYieldPending k \<Longrightarrow> xYieldPending k'"
    "is_ready t k \<Longrightarrow> is_ready t k'"
    "container_of (EventItem t) k' \<in> {None, container_of (EventItem t) k}"
    "pxCurrentTCB k = Some c \<Longrightarrow> is_ready t k' \<Longrightarrow>
       is_ready t k \<or> xYieldPending k' \<or> prio k t < prio k c"
proof -
  let ?k = "k'\<lparr>xYieldPending := xYieldPending k\<rparr>"
  from assms have w: "woke_up (xYieldPending k') k ?k" by (simp add: woke_flag_def)
  then have e: "env ?k = env k" by (simp add: woke_up_def)
  have r: "is_ready q ?k = is_ready q k'" "container_of i ?k = container_of i k'" for q i
    by (simp_all add: is_ready_def container_of_def)
  show "tcbs k' = tcbs k" "prio k' = prio k" "pxCurrentTCB k' = pxCurrentTCB k"
    "xSchedulerRunning k' = xSchedulerRunning k"
    "uxCurrentNumberOfTasks k' = uxCurrentNumberOfTasks k"
    "uxSchedulerSuspended k' = uxSchedulerSuspended k" "uxPendedTicks k' = uxPendedTicks k"
    "pendsv k' = pendsv k"
    using envD [OF e] by simp_all
  show "xYieldPending k \<Longrightarrow> xYieldPending k'" using assms by (simp add: woke_flag_def)
  show "is_ready t k \<Longrightarrow> is_ready t k'"
    "container_of (EventItem t) k' \<in> {None, container_of (EventItem t) k}"
    "pxCurrentTCB k = Some c \<Longrightarrow> is_ready t k' \<Longrightarrow>
       is_ready t k \<or> xYieldPending k' \<or> prio k t < prio k c"
    using w unfolding woke_up_def r by blast+
qed

lemma pending_loop_step:
  "pending_loop w k =
     (if items PendingReadyList k = [] then Some (w, k)
      else do {
        t \<leftarrow> head_owner PendingReadyList (lists k);
        (n, k) \<leftarrow> k_remove (EventItem t) k;
        (n, k) \<leftarrow> k_remove (StateItem t) k;
        k \<leftarrow> prvAddTaskToReadyList t k;
        c \<leftarrow> pxCurrentTCB k;
        pending_loop (Some t) (if prio k c \<le> prio k t then k\<lparr>xYieldPending := True\<rparr> else k)
      })"
  by (rule pending_loop.simps)

text \<open>One round of the loop.\<close>

lemma pending_round:
  assumes s: "sched_ok N k" and e: "elems (lists k) PendingReadyList = EventItem t # xs"
  shows "\<exists>k'. pending_loop w k = pending_loop (Some t) k' \<and> sched_ok N k' \<and>
    elems (lists k') PendingReadyList = xs \<and> woke_flag k k' \<and> is_ready t k' \<and>
    xTickCount k' = xTickCount k \<and>
    (\<forall>q. q \<noteq> t \<longrightarrow> container_of (EventItem q) k' = container_of (EventItem q) k)"
proof -
  have h: "head_owner PendingReadyList (lists k) = Some t" by (simp add: head_owner_def e)
  have ev: "is_event PendingReadyList" by simp
  from event_taken [OF s ev h] obtain n a1 where
    1: "k_remove (EventItem t) k = Some (n, k\<lparr>lists := a1\<rparr>)" "sched_ok N (k\<lparr>lists := a1\<rparr>)"
      "taken PendingReadyList (EventItem t) (lists k) a1" "t \<in> N" "\<not> is_ready t k"
      "container_of (EventItem t) k = Some PendingReadyList" by blast
  define k1 where "k1 = k\<lparr>lists := a1\<rparr>"
  have "\<not> is_ready t k1" "container (lists k1) (EventItem t) = None"
    using 1(3,5) by (simp_all add: k1_def is_ready_def container_of_def taken_def)
  from resume_moves [OF _ 1(4) this(2,1)] 1(2) obtain m a2 a3 b where
    2: "k_remove (StateItem t) k1 = Some (m, k1\<lparr>lists := a2\<rparr>)"
      "prvAddTaskToReadyList t (k1\<lparr>lists := a2\<rparr>) = Some (k1\<lparr>lists := a3, uxTopReadyPriority := b\<rparr>)"
      "sched_ok N (k1\<lparr>lists := a3, uxTopReadyPriority := b\<rparr>)"
      "is_ready t (k1\<lparr>lists := a3, uxTopReadyPriority := b\<rparr>)"
      "\<And>i. i \<noteq> StateItem t \<Longrightarrow> container a3 i = container (lists k1) i"
      "elems a3 PendingReadyList = elems (lists k1) PendingReadyList"
    unfolding k1_def by fastforce
  define k3 where "k3 = k1\<lparr>lists := a3, uxTopReadyPriority := b\<rparr>"
  from s obtain c where c: "pxCurrentTCB k = Some c" by (auto simp: sched_ok_def core_def)
  define k' where "k' = (if prio k c \<le> prio k t then k3\<lparr>xYieldPending := True\<rparr> else k3)"
  have p3: "prio k3 = prio k" "pxCurrentTCB k3 = Some c" using c by (simp_all add: k3_def k1_def)
  have st: "pending_loop w k = pending_loop (Some t) k'"
    by (subst pending_loop_step)
       (simp add: items_def e h 1(1) k1_def [symmetric] 2(1,2) k3_def [symmetric] p3 k'_def)
  have same: "lists k' = a3" "xTickCount k' = xTickCount k" by (simp_all add: k'_def k3_def k1_def)
  have el: "elems (lists k') PendingReadyList = xs"
    using 2(6) 1(3) by (simp add: same k1_def taken_def e)
  have rd: "is_ready t k'" using 2(4) by (simp add: is_ready_def container_of_def same)
  have ok: "sched_ok N k'" using 2(3) by (simp add: k'_def k3_def)
  have cont: "container_of i k' = container_of i k" if "i \<noteq> StateItem t" "i \<noteq> EventItem t" for i
    using 2(5) [OF that(1)] 1(3) that by (simp add: container_of_def same k1_def taken_def)
  have en: "container_of (EventItem t) k' = None"
    using 2(5) [of "EventItem t"] 1(3) by (simp add: container_of_def same k1_def taken_def)
  let ?k = "k'\<lparr>xYieldPending := xYieldPending k\<rparr>"
  have r: "container_of i ?k = container_of i k'" for i by (simp add: container_of_def)
  from rd obtain p where p: "container_of (StateItem t) k' = Some (Ready p)" by (auto simp: is_ready_def)
  have "woke_up (xYieldPending k') k ?k"
  proof (rule woke_up_one [where t = t and p = p])
    show "env ?k = env k" by (simp add: env_def k'_def k3_def k1_def)
    show "xYieldPending k'" if "pxCurrentTCB k = Some c'" "prio k c' \<le> prio k t" for c'
      using that c by (simp add: k'_def)
  qed (use p en cont in \<open>simp_all add: r\<close>)
  moreover have "xYieldPending k \<longrightarrow> xYieldPending k'" by (simp add: k'_def k3_def k1_def)
  ultimately have "woke_flag k k'" by (simp add: woke_flag_def)
  then show ?thesis using st ok el rd same(2) cont by (intro exI [of _ k']) simp
qed

lemma pending_loop_ok:
  assumes "sched_ok N k"
  shows "\<exists>w' k'. pending_loop w k = Some (w', k') \<and> sched_ok N k' \<and> woke_flag k k' \<and>
    items PendingReadyList k' = [] \<and> xTickCount k' = xTickCount k \<and>
    (\<forall>t. container_of (EventItem t) k = Some PendingReadyList \<longrightarrow> is_ready t k')"
  using assms
proof (induction "elems (lists k) PendingReadyList" arbitrary: w k)
  case Nil
  then have "container_of (EventItem t) k \<noteq> Some PendingReadyList" for t
    by (simp add: container_of_def sched_ok_def core_def lists_ok_container)
  with Nil show ?case by (subst pending_loop_step) (simp add: items_def)
next
  case (Cons i xs)
  from Cons.prems have c: "core N {} {} k" by (simp add: sched_ok_def)
  have "i \<in> set (elems (lists k) PendingReadyList)" using Cons.hyps(2) by (metis list.set_intros(1))
  from event_kind [OF c this] obtain t where i: "i = EventItem t" by auto
  from pending_round [OF Cons.prems, of t xs w] Cons.hyps(2) i obtain k1 where
    1: "pending_loop w k = pending_loop (Some t) k1" "sched_ok N k1"
      "elems (lists k1) PendingReadyList = xs" "woke_flag k k1" "is_ready t k1"
      "xTickCount k1 = xTickCount k"
      "\<And>q. q \<noteq> t \<Longrightarrow> container_of (EventItem q) k1 = container_of (EventItem q) k" by metis
  from Cons.hyps(1) [OF 1(3) [symmetric] 1(2), of "Some t"] obtain w' k' where
    2: "pending_loop (Some t) k1 = Some (w', k')" "sched_ok N k'" "woke_flag k1 k'"
      "items PendingReadyList k' = []" "xTickCount k' = xTickCount k1"
      "\<And>q. container_of (EventItem q) k1 = Some PendingReadyList \<Longrightarrow> is_ready q k'" by blast
  have "is_ready q k'" if "container_of (EventItem q) k = Some PendingReadyList" for q
    using that 1(5,7) 2(6) woke_flagD(10) [OF 2(3)] by (cases "q = t") auto
  with 1 2 woke_flag_trans [OF 1(4) 2(3)] show ?case by auto
qed

lemma pended_ticks_ok:
  assumes "sched_ok N k" "uxSchedulerSuspended k = 0"
  shows "\<exists>k'. pended_ticks n k = Some k' \<and> sched_ok N k' \<and> woke_flag k k' \<and>
    xTickCount k' = xTickCount k + of_nat n"
  using assms
proof (induction n arbitrary: k)
  case (Suc n)
  from tick_wakes_exactly [OF Suc.prems] obtain sw k1 where
    1: "xTaskIncrementTick k = Some (sw, k1)" "sched_ok N k1" "xTickCount k1 = xTickCount k + 1"
      "uxSchedulerSuspended k1 = 0" by blast
  from tick_frame [OF 1(1)] Suc.prems(2) have w: "woke_up sw k k1" "xYieldPending k \<Longrightarrow> sw" by simp_all
  then have y: "xYieldPending k1 = xYieldPending k" using envD(8) [of k1 k] by (simp add: woke_up_def)
  define k2 where "k2 = (if sw then k1\<lparr>xYieldPending := True\<rparr> else k1)"
  have "k2\<lparr>xYieldPending := xYieldPending k\<rparr> = k1" by (simp add: k2_def y [symmetric])
  moreover have "xYieldPending k2 = sw" using w(2) y by (auto simp: k2_def)
  ultimately have "woke_flag k k2" using w by (simp add: woke_flag_def)
  moreover have "sched_ok N k2" "uxSchedulerSuspended k2 = 0" "xTickCount k2 = xTickCount k + 1"
    using 1 by (simp_all add: k2_def)
  moreover have "pended_ticks (Suc n) k = pended_ticks n k2" by (simp add: 1(1) k2_def)
  ultimately show ?case using Suc.IH [of k2] woke_flag_trans [of k k2] by (auto simp: add.assoc)
qed simp

lemma woke_flag_other:
  assumes "woke_flag k k'"
  shows "woke_flag (k\<lparr>uxSchedulerSuspended := n, uxPendedTicks := m\<rparr>)
    (k'\<lparr>uxSchedulerSuspended := n, uxPendedTicks := m\<rparr>)"
  using assms by (simp add: woke_flag_def woke_up_def env_def is_ready_def container_of_def)

lemma resume_all_ok:
  assumes s: "sched_ok N k" and u: "uxSchedulerSuspended k = 1" and n: "uxCurrentNumberOfTasks k > 0"
  shows "\<exists>y k'. xTaskResumeAll k = Some (y, k') \<and> sched_ok N k' \<and>
    uxSchedulerSuspended k' = 0 \<and> uxPendedTicks k' = 0 \<and>
    (\<forall>t. container_of (EventItem t) k' \<noteq> Some PendingReadyList) \<and>
    xTickCount k' = xTickCount k + uxPendedTicks k \<and>
    (\<forall>t. container_of (EventItem t) k = Some PendingReadyList \<longrightarrow> is_ready t k') \<and>
    y = xYieldPending k' \<and> pendsv k' = (pendsv k \<or> y) \<and>
    woke_flag k (k'\<lparr>uxSchedulerSuspended := 1, uxPendedTicks := uxPendedTicks k, pendsv := pendsv k\<rparr>)"
proof -
  define k0 where "k0 = k\<lparr>uxSchedulerSuspended := 0\<rparr>"
  have f0: "uxSchedulerSuspended k0 = 0" "uxCurrentNumberOfTasks k0 > 0" using n by (simp_all add: k0_def)
  have s0: "sched_ok N k0" using s by (simp add: k0_def)
  from pending_loop_ok [OF s0, of None] obtain w k1 where
    1: "pending_loop None k0 = Some (w, k1)" "sched_ok N k1" "woke_flag k0 k1"
      "items PendingReadyList k1 = []" "xTickCount k1 = xTickCount k0"
      "\<And>t. container_of (EventItem t) k0 = Some PendingReadyList \<Longrightarrow> is_ready t k1" by blast
  from reset_ok [OF 1(2)] obtain v where
    v: "prvResetNextTaskUnblockTime k1 = Some (k1\<lparr>xNextTaskUnblockTime := v\<rparr>)"
      "sched_ok N (k1\<lparr>xNextTaskUnblockTime := v\<rparr>)" by blast
  define k2 where "k2 = (if w \<noteq> None then k1\<lparr>xNextTaskUnblockTime := v\<rparr> else k1)"
  have s2: "sched_ok N k2" using 1(2) v(2) by (simp add: k2_def)
  have "woke_flag k1 k2" by (simp add: k2_def woke_flag_def woke_up_def env_def is_ready_def container_of_def)
  from woke_flag_trans [OF 1(3) this] have w2: "woke_flag k0 k2" .
  have u2: "uxSchedulerSuspended k2 = 0" "uxPendedTicks k2 = uxPendedTicks k"
    using woke_flagD(6,7) [OF w2] by (simp_all add: k0_def)
  from pended_ticks_ok [OF s2 u2(1), of "unat (uxPendedTicks k)"] obtain k3 where
    3: "pended_ticks (unat (uxPendedTicks k)) k2 = Some k3" "sched_ok N k3" "woke_flag k2 k3"
      "xTickCount k3 = xTickCount k2 + uxPendedTicks k" by auto
  from woke_flag_trans [OF w2 3(3)] have w3: "woke_flag k0 k3" .
  define k4 where "k4 = k3\<lparr>uxPendedTicks := 0\<rparr>"
  have u3: "uxSchedulerSuspended k3 = 0" using woke_flagD(6) [OF w3] by (simp add: k0_def)
  have run2: "(if w \<noteq> None then prvResetNextTaskUnblockTime k1 else Some k1) = Some k2"
    using v(1) by (simp add: k2_def)
  have run3: "(if uxPendedTicks k2 > 0
       then do { k \<leftarrow> pended_ticks (unat (uxPendedTicks k2)) k2; Some (k\<lparr>uxPendedTicks := 0\<rparr>) }
       else Some k2) = Some k4"
  proof (cases "uxPendedTicks k = 0")
    case True
    with 3(1) have "k3 = k2" by simp
    with True show ?thesis by (simp add: u2 k4_def)
  next
    case False
    then show ?thesis using 3(1) by (simp add: u2(2) k4_def word_gt_0)
  qed
  let ?k = "if xYieldPending k4 then portYIELD k4 else k4"
  have "xTaskResumeAll k = Some (xYieldPending k4, ?k)"
    using u f0 1(1) run2 run3 unfolding xTaskResumeAll_def Let_def by (simp add: k0_def [symmetric])
  moreover have "sched_ok N ?k" using 3(2) by (simp add: k4_def portYIELD_def)
  moreover have "uxSchedulerSuspended ?k = 0" "uxPendedTicks ?k = 0"
    using u3 by (simp_all add: k4_def portYIELD_def)
  moreover have cont: "container_of i ?k = container_of i k3" for i
    by (simp add: k4_def portYIELD_def container_of_def)
  have "container_of (EventItem t) k1 \<noteq> Some PendingReadyList" for t
    using 1(2,4) by (simp add: container_of_def items_def sched_ok_def core_def lists_ok_container)
  then have "container_of (EventItem t) k2 \<noteq> Some PendingReadyList" for t
    by (simp add: k2_def container_of_def)
  then have "container_of (EventItem t) k3 \<noteq> Some PendingReadyList" for t
    using woke_flagD(11) [OF 3(3), of t] by (metis insertE option.distinct(1) singletonD)
  then have "\<forall>t. container_of (EventItem t) ?k \<noteq> Some PendingReadyList" by (simp only: cont simp_thms)
  moreover have "xTickCount ?k = xTickCount k + uxPendedTicks k"
    using 3(4) 1(5) by (simp add: k4_def portYIELD_def k2_def k0_def)
  moreover have "is_ready t k3" if "container_of (EventItem t) k = Some PendingReadyList" for t
  proof -
    have "is_ready t k1" using 1(6) [of t] that by (simp add: k0_def container_of_def)
    then have "is_ready t k2" by (simp add: k2_def is_ready_def container_of_def)
    then show ?thesis by (rule woke_flagD(10) [OF 3(3)])
  qed
  then have "\<forall>t. container_of (EventItem t) k = Some PendingReadyList \<longrightarrow> is_ready t ?k"
    by (simp add: is_ready_def cont del: split_paired_Ex)
  moreover have "xYieldPending k4 = xYieldPending ?k" by (simp add: portYIELD_def)
  moreover have "pendsv ?k = (pendsv k \<or> xYieldPending k4)"
    using woke_flagD(8) [OF w3] by (simp add: portYIELD_def k4_def k0_def)
  moreover have "woke_flag k (?k\<lparr>uxSchedulerSuspended := 1, uxPendedTicks := uxPendedTicks k, pendsv := pendsv k\<rparr>)"
  proof -
    have "?k\<lparr>uxSchedulerSuspended := 1, uxPendedTicks := uxPendedTicks k, pendsv := pendsv k\<rparr> =
        k3\<lparr>uxSchedulerSuspended := 1, uxPendedTicks := uxPendedTicks k\<rparr>"
      using woke_flagD(8) [OF w3] by (simp add: k4_def portYIELD_def k0_def)
    moreover have "k = k0\<lparr>uxSchedulerSuspended := 1, uxPendedTicks := uxPendedTicks k\<rparr>"
      using u by (simp add: k0_def)
    ultimately show ?thesis using woke_flag_other [OF w3] by metis
  qed
  ultimately show ?thesis by blast
qed

end
