(* ===== verification/Kernel_Prio.thy ===== *)
theory Kernel_Prio
  imports Kernel_Run
begin

text \<open>
  Priorities: setting one, inheriting one through a mutex and giving it back.  A ready task moves to
  the ready list of its new priority; a task that waits keeps its place in the lists.
\<close>

section \<open>Control blocks and the invariant\<close>

lemma set_tcb_simps [simp]:
  "lists (set_tcb t f k) = lists k" "tcbs (set_tcb t f k) = (tcbs k)(t := f (tcbs k t))"
  "prio (set_tcb t f k) = (prio k)(t := uxPriority (f (tcbs k t)))"
  "pxCurrentTCB (set_tcb t f k) = pxCurrentTCB k" "xTickCount (set_tcb t f k) = xTickCount k"
  "uxTopReadyPriority (set_tcb t f k) = uxTopReadyPriority k"
  "pxDelayedTaskList (set_tcb t f k) = pxDelayedTaskList k"
  "pxOverflowDelayedTaskList (set_tcb t f k) = pxOverflowDelayedTaskList k"
  "xNextTaskUnblockTime (set_tcb t f k) = xNextTaskUnblockTime k"
  "container_of i (set_tcb t f k) = container_of i k"
  "is_ready q (set_tcb t f k) = is_ready q k"
  "value_of i (set_tcb t f k) = value_of i k"
  "pendsv (set_tcb t f k) = pendsv k" "xYieldPending (set_tcb t f k) = xYieldPending k"
  "xSchedulerRunning (set_tcb t f k) = xSchedulerRunning k"
  "uxCurrentNumberOfTasks (set_tcb t f k) = uxCurrentNumberOfTasks k"
  "uxSchedulerSuspended (set_tcb t f k) = uxSchedulerSuspended k"
  "uxPendedTicks (set_tcb t f k) = uxPendedTicks k"
  "xNumOfOverflows (set_tcb t f k) = xNumOfOverflows k"
  by (simp_all add: set_tcb_def prio_def container_of_def is_ready_def value_of_def fun_eq_iff)

lemma set_value_simps [simp]:
  "tcbs (k_set_value i v k) = tcbs k" "prio (k_set_value i v k) = prio k"
  "pxCurrentTCB (k_set_value i v k) = pxCurrentTCB k" "pendsv (k_set_value i v k) = pendsv k"
  "is_ready q (k_set_value i v k) = is_ready q k"
  "xYieldPending (k_set_value i v k) = xYieldPending k"
  "xSchedulerRunning (k_set_value i v k) = xSchedulerRunning k"
  "uxCurrentNumberOfTasks (k_set_value i v k) = uxCurrentNumberOfTasks k"
  "uxSchedulerSuspended (k_set_value i v k) = uxSchedulerSuspended k"
  "uxPendedTicks (k_set_value i v k) = uxPendedTicks k"
  by (simp_all add: k_set_value_def prio_def is_ready_def container_of_def fun_eq_iff)

lemma core_set_tcb:
  assumes c: "core N T W k" and p: "uxPriority (f (tcbs k t)) < 6"
    and r: "uxPriority (f (tcbs k t)) = prio k t \<or> \<not> is_ready t k"
  shows "core N T W (set_tcb t f k)"
proof -
  have "ready_at (prio (set_tcb t f k)) (lists k)"
    using coreD(4) [OF c] r ready_in_list [OF c, of t] by (auto simp: ready_at_def)
  then show ?thesis using c p by (auto simp: core_def)
qed

lemma sched_ok_set_tcb:
  assumes "sched_ok N k" "uxPriority (f (tcbs k t)) < 6"
    and "uxPriority (f (tcbs k t)) = prio k t \<or> \<not> is_ready t k"
  shows "sched_ok N (set_tcb t f k)"
  using assms core_set_tcb by (simp add: sched_ok_def on_time_def)

lemma sched_ok_set_event:
  assumes s: "sched_ok N k"
  shows "sched_ok N (k_set_value (EventItem t) v k)"
proof -
  from s have c: "core N {} {} k" and ot: "on_time k" by (simp_all add: sched_ok_def)
  have out: "EventItem t \<notin> set (elems (lists k) l)" if "\<not> is_event l" for l
    using state_kind [OF c _ that] by auto
  have "on_time (k_set_value (EventItem t) v k)"
    using timed_set_value [of "pxDelayedTaskList k" "pxOverflowDelayedTaskList k"
        "xTickCount k" "xNextTaskUnblockTime k" "lists k" "EventItem t" v]
      out delayed_lists(2,4) [OF ot] ot
    by (simp add: on_time_def k_set_value_def)
  with c show ?thesis by (simp add: sched_ok_def)
qed

lemma sched_ok_set_event_value:
  "sched_ok N k \<Longrightarrow> sched_ok N (set_event_value t p k)"
  by (simp add: set_event_value_def sched_ok_set_event)

lemma set_event_value_simps [simp]:
  "tcbs (set_event_value t p k) = tcbs k" "prio (set_event_value t p k) = prio k"
  "pxCurrentTCB (set_event_value t p k) = pxCurrentTCB k" "env (set_event_value t p k) = env k"
  "container_of i (set_event_value t p k) = container_of i k"
  "is_ready q (set_event_value t p k) = is_ready q k"
  by (simp_all add: set_event_value_def)

text \<open>A block or an event value can be changed before or after a task moves.\<close>

lemma k_remove_set_tcb:
  "k_remove i (set_tcb t f k) = map_option (apsnd (set_tcb t f)) (k_remove i k)"
  by (auto simp: k_remove_def set_tcb_def list_remove_def Let_def split: Option.bind_splits)

lemma k_remove_set_value:
  "k_remove i (k_set_value j v k) = map_option (apsnd (k_set_value j v)) (k_remove i k)"
  by (auto simp: k_remove_def k_set_value_def list_remove_def list_set_value_def Let_def
      split: Option.bind_splits)

lemma add_ready_set_value:
  "prvAddTaskToReadyList t (k_set_value j v k) = map_option (k_set_value j v) (prvAddTaskToReadyList t k)"
  by (auto simp: prvAddTaskToReadyList_def taskRECORD_READY_PRIORITY_def k_insert_end_def k_set_value_def
      list_insert_end_def list_set_value_def prio_def Let_def split: Option.bind_splits)

lemma k_remove_set_event_value:
  "k_remove i (set_event_value t p k) = map_option (apsnd (set_event_value t p)) (k_remove i k)"
proof -
  have "event_value_free t k' = event_value_free t k" if "k_remove i k = Some (n, k')" for n k'
    using that by (auto simp: k_remove_def list_remove_def Let_def event_value_free_def value_of_def
        split: Option.bind_splits)
  then show ?thesis
    by (cases "k_remove i k") (auto simp: set_event_value_def k_remove_set_value apsnd_def map_prod_def)
qed

lemma ready_container:
  assumes "core N T W k"
  shows "container_of (StateItem t) k = Some (Ready (unat (prio k t))) \<longleftrightarrow> is_ready t k"
  using ready_in_list [OF assms, of t] coreD(1) [OF assms]
  by (auto simp: container_of_def lists_ok_container)

text \<open>Taking a ready task off its list, with the bitmap reset in either way of the code.\<close>

lemma remove_ready:
  assumes c: "core N T W k" and r: "is_ready t k"
  shows "\<exists>n k1. k_remove (StateItem t) k = Some (n, k1) \<and>
    remove_state t k = Some (if n = 0 then portRESET_READY_PRIORITY (prio k t) k1 else k1)"
proof -
  note C = coreD [OF c]
  let ?l = "Ready (unat (prio k t))"
  have ct: "container (lists k) (StateItem t) = Some ?l"
    using ready_container [OF c, of t] r by (simp add: container_of_def)
  from list_in_order [OF c r] have tN: "t \<in> N" .
  from list_remove_taken [OF C(1) ct] obtain a' where
    "list_remove (StateItem t) (lists k) = Some (length (elems a' ?l), a')" by blast
  then show ?thesis
    using prio_nat(2) [OF c tN]
    by (simp add: remove_state_def k_remove_def taskRESET_READY_PRIORITY_def items_def prio_def)
qed

text \<open>A ready task moves to the list of the priority that \<open>f\<close> gives it.\<close>

lemma ready_moves:
  assumes s: "sched_ok N k" and r: "is_ready t k" and p: "uxPriority (f (tcbs k t)) < 6"
  shows "\<exists>k1 k2. remove_state t k = Some k1 \<and> prvAddTaskToReadyList t (set_tcb t f k1) = Some k2 \<and>
    sched_ok N k2 \<and> env k2 = env (set_tcb t f k) \<and> (\<forall>q. is_ready q k2 \<longleftrightarrow> is_ready q k) \<and>
    (\<forall>i. i \<noteq> StateItem t \<longrightarrow> container_of i k2 = container_of i k)"
proof -
  from s have c: "core N {} {} k" and ot: "on_time k" by (simp_all add: sched_ok_def)
  from list_in_order [OF c r] have tN: "t \<in> N" .
  from remove_state_core [OF c tN] obtain l a1 b where
    1: "remove_state t k = Some (k\<lparr>lists := a1, uxTopReadyPriority := b\<rparr>)"
      "taken l (StateItem t) (lists k) a1" "core N {t} {} (k\<lparr>lists := a1, uxTopReadyPriority := b\<rparr>)"
    by auto
  define k1 where "k1 = k\<lparr>lists := a1, uxTopReadyPriority := b\<rparr>"
  have u: "\<not> is_ready t k1" using 1(2) by (simp add: k1_def is_ready_def container_of_def taken_def)
  have c1: "core N {t} {} (set_tcb t f k1)"
    by (rule core_set_tcb) (use 1(3) u p in \<open>simp_all add: k1_def\<close>)
  have ot1: "on_time (set_tcb t f k1)" using taken_on_time [OF ot 1(2), of b] by (simp add: on_time_def k1_def)
  have "container (lists k) (EventItem t) = None"
    using coreD(5) [OF c] r ready_in_list [OF c, of t] by (auto simp: not_waiting_def)
  then have e: "container (lists (set_tcb t f k1)) (EventItem t) = None"
    using 1(2) by (simp add: k1_def taken_def)
  define k1' where "k1' = set_tcb t f k1"
  from add_ready_core [OF c1 _ e] obtain xs a' b' where
    2: "prvAddTaskToReadyList t k1' = Some (k1'\<lparr>lists := a', uxTopReadyPriority := b'\<rparr>)"
      "put_on (Ready (unat (prio k1' t))) (StateItem t) xs (lists k1') a'"
      "core N {} {} (k1'\<lparr>lists := a', uxTopReadyPriority := b'\<rparr>)"
    by (auto simp: k1'_def [symmetric])
  define k2 where "k2 = k1'\<lparr>lists := a', uxTopReadyPriority := b'\<rparr>"
  have "on_time k2"
    using put_timed [OF 2(2)] ot1 not_ready_list [OF ot1] by (simp add: on_time_def k2_def k1'_def)
  with 2(3) have ok: "sched_ok N k2" by (simp add: sched_ok_def k2_def)
  note f2 = add_ready_frame [OF 2(1)] and f1 = remove_state_frame [OF 1(1)]
  have o: "container_of i k2 = container_of i k" if "i \<noteq> StateItem t" for i
    using f2(2) [of i] f1 that by (simp add: k2_def k1'_def k1_def)
  have "is_ready q k2 \<longleftrightarrow> is_ready q k" for q
    using o [of "StateItem q"] r f2(2) [of "StateItem t"]
    by (cases "q = t") (auto simp: is_ready_def k2_def)
  moreover have "env k2 = env (set_tcb t f k)"
    using f2(1) by (simp add: env_def k2_def k1'_def k1_def set_tcb_def)
  ultimately show ?thesis using 1(1) 2(1) ok o
    by (intro exI [of _ k1] exI [of _ k2]) (simp add: k1_def k1'_def k2_def)
qed

section \<open>The operations\<close>

text \<open>Only the block of \<open>t\<close> and the place of \<open>t\<close> in the ready lists differ.\<close>

definition reprio :: "nat \<Rightarrow> kernel \<Rightarrow> kernel \<Rightarrow> bool" where
  "reprio t k k' \<longleftrightarrow> env (k'\<lparr>tcbs := tcbs k\<rparr>) = env k \<and> (\<forall>q. q \<noteq> t \<longrightarrow> tcbs k' q = tcbs k q) \<and>
     (\<forall>q. is_ready q k' \<longleftrightarrow> is_ready q k) \<and>
     (\<forall>q. container_of (EventItem q) k' = container_of (EventItem q) k)"

lemma reprioD:
  assumes "reprio t k k'"
  shows "pxCurrentTCB k' = pxCurrentTCB k" "xSchedulerRunning k' = xSchedulerRunning k"
    "uxCurrentNumberOfTasks k' = uxCurrentNumberOfTasks k"
    "uxSchedulerSuspended k' = uxSchedulerSuspended k" "uxPendedTicks k' = uxPendedTicks k"
    "pendsv k' = pendsv k" "xYieldPending k' = xYieldPending k"
    "q \<noteq> t \<Longrightarrow> tcbs k' q = tcbs k q" "q \<noteq> t \<Longrightarrow> prio k' q = prio k q"
    "is_ready q k' \<longleftrightarrow> is_ready q k"
    "container_of (EventItem q) k' = container_of (EventItem q) k"
  using assms by (auto simp: reprio_def env_def prio_def)

lemma reprio_set_tcb: "reprio t k (set_tcb t f k)"
  by (simp add: reprio_def env_def)

lemma reprio_trans: "reprio t k k1 \<Longrightarrow> reprio t k1 k2 \<Longrightarrow> reprio t k k2"
  by (simp add: reprio_def env_def)

lemma reprio_set_value: "reprio t k (k_set_value (EventItem u) v k)"
  by (simp add: reprio_def env_def k_set_value_def is_ready_def container_of_def)

lemma reprio_set_event_value: "reprio t k (set_event_value u p k)"
  by (simp add: set_event_value_def reprio_set_value) (simp add: reprio_def)

lemma reprio_moves:
  assumes "env k2 = env (set_tcb t f k)" "\<And>q. is_ready q k2 \<longleftrightarrow> is_ready q k"
    and "\<And>i. i \<noteq> StateItem t \<Longrightarrow> container_of i k2 = container_of i k"
  shows "reprio t k k2"
  using assms by (simp add: reprio_def env_def)

lemma inherit_ok:
  assumes s: "sched_ok N k" and t: "t \<in> N" and c: "pxCurrentTCB k = Some c"
  shows "\<exists>k'. vTaskPriorityInherit (Some t) k = Some k' \<and> sched_ok N k' \<and> reprio t k k' \<and>
    tcbs k' t = (tcbs k t)\<lparr>uxPriority := max (prio k t) (prio k c)\<rparr>"
proof (cases "prio k t < prio k c")
  case False
  then have "vTaskPriorityInherit (Some t) k = Some k" using c by (simp add: vTaskPriorityInherit_def)
  moreover have "tcbs k t = (tcbs k t)\<lparr>uxPriority := max (prio k t) (prio k c)\<rparr>"
    using False by (simp add: max_def prio_def not_less)
  ultimately show ?thesis using s by (intro exI [of _ k]) (simp add: reprio_def)
next
  case True
  define k0 where "k0 = set_event_value t (prio k c) k"
  define f where "f = (\<lambda>b. b\<lparr>uxPriority := prio k c\<rparr> :: tcb)"
  have s0: "sched_ok N k0" using sched_ok_set_event_value [OF s] by (simp add: k0_def)
  then have c0: "core N {} {} k0" by (simp add: sched_ok_def)
  have p: "prio k0 = prio k" "tcbs k0 = tcbs k" by (simp_all add: k0_def)
  have "c \<in> N" using s c by (auto simp: sched_ok_def core_def)
  then have pc: "prio k c < 6" using s by (simp add: sched_ok_def core_def)
  have r0: "reprio t k k0" by (simp add: k0_def reprio_set_event_value)
  have mx: "max (prio k t) (prio k c) = prio k c" using True by (simp add: max_def less_imp_le)
  from prio_nat(2) [OF c0 t] have rl: "ready_list (prio k t) = Some (Ready (unat (prio k t)))"
    by (simp add: p)
  have rf: "prio k1 = prio k" if "remove_state t k0 = Some k1" for k1
    using remove_state_frame [OF that] envD(9) [of k1 k0] p(1) by simp
  have un: "vTaskPriorityInherit (Some t) k =
      (if is_ready t k0 then do { k1 \<leftarrow> remove_state t k0; prvAddTaskToReadyList t (set_tcb t f k1) }
       else Some (set_tcb t f k0))"
    using True c rl ready_container [OF c0, of t] rf
    by (cases "remove_state t k0")
       (simp_all add: vTaskPriorityInherit_def k0_def [symmetric] p f_def Let_def)
  show ?thesis
  proof (cases "is_ready t k0")
    case True
    from ready_moves [OF s0 True, of f] pc obtain k1 k2 where
      2: "remove_state t k0 = Some k1" "prvAddTaskToReadyList t (set_tcb t f k1) = Some k2"
        "sched_ok N k2" "env k2 = env (set_tcb t f k0)" "\<And>q. is_ready q k2 \<longleftrightarrow> is_ready q k0"
        "\<And>i. i \<noteq> StateItem t \<Longrightarrow> container_of i k2 = container_of i k0"
      by (auto simp: f_def)
    have "tcbs k2 t = (tcbs k t)\<lparr>uxPriority := max (prio k t) (prio k c)\<rparr>"
      using envD(1) [OF 2(4)] by (simp add: f_def p mx)
    moreover have "reprio t k k2" by (rule reprio_trans [OF r0 reprio_moves [OF 2(4-6)]])
    ultimately show ?thesis using 2(1-3) True un by auto
  next
    case False
    have "sched_ok N (set_tcb t f k0)" using sched_ok_set_tcb [OF s0, of f t] pc False by (simp add: f_def)
    moreover have "tcbs (set_tcb t f k0) t = (tcbs k t)\<lparr>uxPriority := max (prio k t) (prio k c)\<rparr>"
      by (simp add: f_def p mx)
    moreover have "reprio t k (set_tcb t f k0)" by (rule reprio_trans [OF r0 reprio_set_tcb])
    ultimately show ?thesis using False un by auto
  qed
qed

lemma disinherit_ok:
  assumes s: "sched_ok N k" and t: "t \<in> N" and b: "uxBasePriority (tcbs k t) < 6"
    and r: "is_ready t k \<or> prio k t = uxBasePriority (tcbs k t) \<or> uxMutexesHeld (tcbs k t) \<noteq> 1"
  shows "\<exists>k'. xTaskPriorityDisinherit (Some t) k =
      Some (prio k t \<noteq> uxBasePriority (tcbs k t) \<and> uxMutexesHeld (tcbs k t) = 1, k') \<and>
    sched_ok N k' \<and> reprio t k k' \<and>
    tcbs k' t = (tcbs k t)\<lparr>uxMutexesHeld := uxMutexesHeld (tcbs k t) - 1,
      uxPriority := if uxMutexesHeld (tcbs k t) = 1 then uxBasePriority (tcbs k t) else prio k t\<rparr>"
proof -
  let ?t = "tcbs k t"
  define k0 where "k0 = set_tcb t (\<lambda>b. b\<lparr>uxMutexesHeld := uxMutexesHeld b - 1\<rparr>) k"
  have pt: "prio k t < 6" using s t by (simp add: sched_ok_def core_def)
  have s0: "sched_ok N k0"
    unfolding k0_def by (rule sched_ok_set_tcb [OF s]) (use pt in \<open>simp_all add: prio_def\<close>)
  have r0: "reprio t k k0" by (simp add: k0_def reprio_set_tcb)
  have k0: "prio k0 t = prio k t" "uxBasePriority (tcbs k0 t) = uxBasePriority ?t"
    "uxMutexesHeld (tcbs k0 t) = uxMutexesHeld ?t - 1"
    "tcbs k0 t = ?t\<lparr>uxMutexesHeld := uxMutexesHeld ?t - 1\<rparr>"
    by (simp_all add: k0_def prio_def)
  have one: "uxMutexesHeld ?t - 1 = 0 \<longleftrightarrow> uxMutexesHeld ?t = 1" by auto
  show ?thesis
  proof (cases "prio k t \<noteq> uxBasePriority ?t \<and> uxMutexesHeld ?t = 1")
    case False
    then have "xTaskPriorityDisinherit (Some t) k = Some (False, k0)"
      unfolding xTaskPriorityDisinherit_def by (simp add: k0_def [symmetric] k0 one Let_def) blast
    moreover have "tcbs k0 t = ?t\<lparr>uxMutexesHeld := uxMutexesHeld ?t - 1,
      uxPriority := if uxMutexesHeld ?t = 1 then uxBasePriority ?t else prio k t\<rparr>"
      using False by (auto simp: k0(4) prio_def)
    ultimately show ?thesis using False s0 r0 by auto
  next
    case True
    with r have rt: "is_ready t k0" by (auto simp: k0_def)
    define f where "f = (\<lambda>b. b\<lparr>uxPriority := uxBasePriority b\<rparr> :: tcb)"
    from ready_moves [OF s0 rt, of f] b obtain k1 k2 where
      2: "remove_state t k0 = Some k1" "prvAddTaskToReadyList t (set_tcb t f k1) = Some k2"
        "sched_ok N k2" "env k2 = env (set_tcb t f k0)" "\<And>q. is_ready q k2 \<longleftrightarrow> is_ready q k0"
        "\<And>i. i \<noteq> StateItem t \<Longrightarrow> container_of i k2 = container_of i k0"
      by (auto simp: f_def k0(2))
    define v where "v = configMAX_PRIORITIES - uxPriority (f (tcbs k1 t))"
    define k3 where "k3 = k_set_value (EventItem t) v k2"
    have "xTaskPriorityDisinherit (Some t) k = Some (True, k3)"
      unfolding xTaskPriorityDisinherit_def
      using True 2(1,2)
      by (simp add: k0_def [symmetric] k0(1-3) Let_def f_def [symmetric] v_def [symmetric]
          add_ready_set_value k3_def)
    moreover have "tcbs k3 t = ?t\<lparr>uxMutexesHeld := uxMutexesHeld ?t - 1, uxPriority := uxBasePriority ?t\<rparr>"
      using envD(1) [OF 2(4)] by (simp add: k3_def f_def k0)
    moreover have "sched_ok N k3" by (simp add: k3_def sched_ok_set_event [OF 2(3)])
    moreover have "reprio t k k3"
      unfolding k3_def
      by (rule reprio_trans [OF r0 reprio_trans [OF reprio_moves [OF 2(4-6)] reprio_set_value]])
    ultimately show ?thesis using True by auto
  qed
qed

lemma add_ready_set_event_value:
  "prvAddTaskToReadyList t (set_event_value u p k) =
     map_option (set_event_value u p) (prvAddTaskToReadyList t k)"
proof -
  have "event_value_free u k' = event_value_free u k" if "prvAddTaskToReadyList t k = Some k'" for k'
    using that by (auto simp: prvAddTaskToReadyList_def taskRECORD_READY_PRIORITY_def k_insert_end_def
        list_insert_end_def event_value_free_def value_of_def Let_def split: Option.bind_splits if_splits)
  then show ?thesis
    by (cases "prvAddTaskToReadyList t k") (auto simp: set_event_value_def add_ready_set_value)
qed

lemma reset_priority_moves:
  "portRESET_READY_PRIORITY q (set_event_value u p (set_tcb t f k)) =
     set_event_value u p (set_tcb t f (portRESET_READY_PRIORITY q k))"
  by (simp add: portRESET_READY_PRIORITY_def set_event_value_def event_value_free_def value_of_def
      k_set_value_def set_tcb_def del: push_bit_of_1)

definition new_priority :: "u32 \<Rightarrow> tcb \<Rightarrow> tcb" where
  "new_priority new b =
     b\<lparr>uxPriority := if uxBasePriority b = uxPriority b then new else uxPriority b, uxBasePriority := new\<rparr>"

lemma priority_set_ok:
  fixes new :: u32
  assumes s: "sched_ok N k" and t: "t \<in> N" and c: "pxCurrentTCB k = Some c"
  defines "p \<equiv> (if new \<ge> configMAX_PRIORITIES then configMAX_PRIORITIES - 1 else new)"
  shows "\<exists>k'. vTaskPrioritySet (Some t) new k = Some
      (if uxBasePriority (tcbs k t) \<noteq> p \<and>
          (if p > uxBasePriority (tcbs k t) then t \<noteq> c \<and> p \<ge> prio k c else t = c)
       then portYIELD k' else k') \<and>
    sched_ok N k' \<and> reprio t k k' \<and> tcbs k' t =
      (if uxBasePriority (tcbs k t) \<noteq> p then new_priority p (tcbs k t) else tcbs k t)"
proof (cases "uxBasePriority (tcbs k t) = p")
  case True
  then have "vTaskPrioritySet (Some t) new k = Some k"
    by (simp add: vTaskPrioritySet_def prvGetTCBFromHandle_def p_def [symmetric])
  with True s show ?thesis by (intro exI [of _ k]) (simp add: reprio_def)
next
  case False
  let ?y = "if p > uxBasePriority (tcbs k t) then t \<noteq> c \<and> p \<ge> prio k c else t = c"
  have p6: "p < 6" by (simp add: p_def configMAX_PRIORITIES_def not_le)
  have pt: "prio k t < 6" using s t by (simp add: sched_ok_def core_def)
  define f where "f = new_priority p"
  have f: "uxPriority (f (tcbs k t)) < 6" using p6 pt by (simp add: f_def new_priority_def prio_def)
  from s have c0: "core N {} {} k" by (simp add: sched_ok_def)
  define k2 where "k2 = set_event_value t p (set_tcb t f k)"
  have run: "vTaskPrioritySet (Some t) new k = do {
      k \<leftarrow> (if is_ready t k
            then do {
              (n, k3) \<leftarrow> k_remove (StateItem t) k2;
              prvAddTaskToReadyList t (if n = 0 then portRESET_READY_PRIORITY (prio k t) k3 else k3)
            }
            else Some k2);
      Some (if ?y then portYIELD k else k) }"
    using False c prio_nat(2) [OF c0 t] ready_container [OF c0, of t]
    unfolding vTaskPrioritySet_def p_def [symmetric]
    by (simp add: prvGetTCBFromHandle_def f_def new_priority_def [abs_def] k2_def cong: if_cong)
  show ?thesis
  proof (cases "is_ready t k")
    case False
    have "sched_ok N k2"
      unfolding k2_def by (intro sched_ok_set_event_value sched_ok_set_tcb [OF s]) (use f False in auto)
    moreover have "reprio t k k2"
      unfolding k2_def by (rule reprio_trans [OF reprio_set_tcb reprio_set_event_value])
    moreover have "tcbs k2 t = new_priority p (tcbs k t)" by (simp add: k2_def f_def)
    ultimately show ?thesis using run False \<open>uxBasePriority (tcbs k t) \<noteq> p\<close>
      by (intro exI [of _ k2]) simp
  next
    case True
    from remove_ready [OF c0 True] obtain n k1 where
      1: "k_remove (StateItem t) k = Some (n, k1)"
        "remove_state t k = Some (if n = 0 then portRESET_READY_PRIORITY (prio k t) k1 else k1)" by blast
    from ready_moves [OF s True, of f] f obtain k3 k4 where
      2: "remove_state t k = Some k3" "prvAddTaskToReadyList t (set_tcb t f k3) = Some k4"
        "sched_ok N k4" "env k4 = env (set_tcb t f k)" "\<And>q. is_ready q k4 \<longleftrightarrow> is_ready q k"
        "\<And>i. i \<noteq> StateItem t \<Longrightarrow> container_of i k4 = container_of i k" by auto
    define k5 where "k5 = set_event_value t p k4"
    have k3: "k3 = (if n = 0 then portRESET_READY_PRIORITY (prio k t) k1 else k1)" using 1(2) 2(1) by simp
    have "(do { (n, k3) \<leftarrow> k_remove (StateItem t) k2;
        prvAddTaskToReadyList t (if n = 0 then portRESET_READY_PRIORITY (prio k t) k3 else k3) }) =
        prvAddTaskToReadyList t (set_event_value t p (set_tcb t f k3))"
      unfolding k2_def k3
      by (cases "n = 0") (simp_all add: k_remove_set_event_value k_remove_set_tcb 1(1) reset_priority_moves)
    also have "\<dots> = Some k5" by (simp add: add_ready_set_event_value 2(2) k5_def)
    finally have "vTaskPrioritySet (Some t) new k = Some (if ?y then portYIELD k5 else k5)"
      using run True by simp
    moreover have "sched_ok N k5" by (simp add: k5_def sched_ok_set_event_value 2(3))
    moreover have "reprio t k k5"
      unfolding k5_def by (rule reprio_trans [OF reprio_moves [OF 2(4-6)] reprio_set_event_value])
    moreover have "tcbs k5 t = new_priority p (tcbs k t)"
      using envD(1) [OF 2(4)] by (simp add: k5_def f_def)
    ultimately show ?thesis using \<open>uxBasePriority (tcbs k t) \<noteq> p\<close> by (intro exI [of _ k5]) simp
  qed
qed

end
