(* ===== verification/Kernel_Calls.thy ===== *)
theory Kernel_Calls
  imports Kernel_Prio
begin

text \<open>
  Suspending and resuming a task, waiting for an event, signalling one and blocking for a time: each
  operation succeeds on a well-formed state, and moves one task only.
\<close>

section \<open>Moves of the waiting tasks\<close>

text \<open>The readiness of the tasks and the events they wait for, apart from those of \<open>t\<close>.\<close>

definition same_but :: "nat \<Rightarrow> kernel \<Rightarrow> kernel \<Rightarrow> bool" where
  "same_but t k k' \<longleftrightarrow> env k' = env k \<and>
     (\<forall>q. q \<noteq> t \<longrightarrow> container_of (StateItem q) k' = container_of (StateItem q) k \<and>
                   container_of (EventItem q) k' = container_of (EventItem q) k)"

lemma same_but_ready: "same_but t k k' \<Longrightarrow> q \<noteq> t \<Longrightarrow> is_ready q k' \<longleftrightarrow> is_ready q k"
  by (simp add: same_but_def is_ready_def)

lemma suspend_ok:
  assumes s: "sched_ok N k" and t: "t \<in> N" and r: "xSchedulerRunning k"
  shows "\<exists>k'. vTaskSuspend (Some t) k = Some (if pxCurrentTCB k = Some t then portYIELD k' else k') \<and>
    sched_ok N k' \<and> same_but t k k' \<and> container_of (StateItem t) k' = Some SuspendedTaskList \<and>
    container_of (EventItem t) k' = None"
proof -
  from suspend_moves [OF s t] obtain a b where
    1: "do { k \<leftarrow> remove_state t k; k \<leftarrow> remove_event t k;
        k_insert_end SuspendedTaskList (StateItem t) k } = Some (k\<lparr>lists := a, uxTopReadyPriority := b\<rparr>)"
      "sched_ok N (k\<lparr>lists := a, uxTopReadyPriority := b\<rparr>)"
      "container a (StateItem t) = Some SuspendedTaskList" "container a (EventItem t) = None"
      "\<And>q. q \<noteq> t \<Longrightarrow> container a (StateItem q) = container (lists k) (StateItem q)"
      "\<And>q. q \<noteq> t \<Longrightarrow> container a (EventItem q) = container (lists k) (EventItem q)" by blast
  define k1 where "k1 = k\<lparr>lists := a, uxTopReadyPriority := b\<rparr>"
  from reset_ok [OF 1(2)] obtain n where
    2: "prvResetNextTaskUnblockTime k1 = Some (k1\<lparr>xNextTaskUnblockTime := n\<rparr>)"
      "sched_ok N (k1\<lparr>xNextTaskUnblockTime := n\<rparr>)" by (auto simp: k1_def)
  define k2 where "k2 = k1\<lparr>xNextTaskUnblockTime := n\<rparr>"
  have rs: "(if xSchedulerRunning k1 then prvResetNextTaskUnblockTime k1 else Some k1) = Some k2"
    using 2(1) r by (simp add: k1_def k2_def)
  have "vTaskSuspend (Some t) k = do {
      k \<leftarrow> do { k \<leftarrow> remove_state t k; k \<leftarrow> remove_event t k; k_insert_end SuspendedTaskList (StateItem t) k };
      k \<leftarrow> (if xSchedulerRunning k then prvResetNextTaskUnblockTime k else Some k);
      if pxCurrentTCB k = Some t then
       (if xSchedulerRunning k then Some (portYIELD k)
        else if of_nat (length (items SuspendedTaskList k)) = uxCurrentNumberOfTasks k
        then Some (k\<lparr>pxCurrentTCB := None\<rparr>)
        else vTaskSwitchContext k)
      else Some k }"
    by (simp add: vTaskSuspend_def prvGetTCBFromHandle_def)
  also have "\<dots> = Some (if pxCurrentTCB k = Some t then portYIELD k2 else k2)"
    unfolding 1(1) k1_def [symmetric] using rs r by (simp add: k2_def k1_def)
  finally show ?thesis
    using 2(2) 1(3-6) by (intro exI [of _ k2]) (simp add: same_but_def k2_def k1_def env_def container_of_def)
qed

lemma resume_step:
  assumes s: "sched_ok N k" and t: "t \<in> N" and p: "prvTaskIsTaskSuspended t k"
  shows "\<exists>n k1 k2. k_remove (StateItem t) k = Some (n, k1) \<and> prvAddTaskToReadyList t k1 = Some k2 \<and>
    sched_ok N k2 \<and> same_but t k k2 \<and> is_ready t k2 \<and> container_of (EventItem t) k2 = None"
proof -
  from p have e: "container (lists k) (EventItem t) = None" and nr: "\<not> is_ready t k"
    by (auto simp: prvTaskIsTaskSuspended_def container_of_def is_ready_def)
  from resume_moves [OF s t e nr] obtain n a1 a' b where
    1: "k_remove (StateItem t) k = Some (n, k\<lparr>lists := a1\<rparr>)"
      "prvAddTaskToReadyList t (k\<lparr>lists := a1\<rparr>) = Some (k\<lparr>lists := a', uxTopReadyPriority := b\<rparr>)"
      "sched_ok N (k\<lparr>lists := a', uxTopReadyPriority := b\<rparr>)"
      "is_ready t (k\<lparr>lists := a', uxTopReadyPriority := b\<rparr>)"
      "\<And>i. i \<noteq> StateItem t \<Longrightarrow> container a' i = container (lists k) i" by blast
  moreover have "same_but t k (k\<lparr>lists := a', uxTopReadyPriority := b\<rparr>)"
    using 1(5) by (simp add: same_but_def env_def container_of_def)
  ultimately show ?thesis using e by (metis container_of_def item.distinct(1) kernel.select_convs(1)
      kernel.surjective kernel.update_convs(1) kernel.update_convs(9))
qed

lemma suspended_task:
  assumes "sched_ok N k" "prvTaskIsTaskSuspended t k"
  shows "t \<in> N" "\<not> is_ready t k"
proof -
  from assms have "StateItem t \<in> set (elems (lists k) SuspendedTaskList)"
    by (simp add: sched_ok_def core_def prvTaskIsTaskSuspended_def container_of_def lists_ok_container)
  with state_kind [of N "{}" "{}" k "StateItem t" SuspendedTaskList] assms(1) show "t \<in> N"
    by (auto simp: sched_ok_def)
  show "\<not> is_ready t k" using assms(2) by (simp add: prvTaskIsTaskSuspended_def is_ready_def)
qed

lemma put_event_on_time:
  assumes ot: "on_time k" and p: "put_on l i xs (lists k) a'" and l: "is_event l"
  shows "on_time (k\<lparr>lists := a'\<rparr>)"
proof -
  have "l \<noteq> pxDelayedTaskList k" "l \<noteq> pxOverflowDelayedTaskList k"
    using l delayed_lists(2,4) [OF ot] by metis+
  with put_timed [OF p] ot show ?thesis by (simp add: on_time_def)
qed

text \<open>The event item of a task that is not ready goes to an event list; nothing else moves.\<close>

lemma pend_ok:
  assumes s: "sched_ok N k" and t: "t \<in> N" "\<not> is_ready t k" and e: "container_of (EventItem t) k = None"
  shows "\<exists>k'. k_insert_end PendingReadyList (EventItem t) k = Some k' \<and> sched_ok N k' \<and>
    same_but t k k' \<and> container_of (StateItem t) k' = container_of (StateItem t) k \<and>
    container_of (EventItem t) k' = Some PendingReadyList"
proof -
  from s have c: "core N {} {} k" and ot: "on_time k" by (simp_all add: sched_ok_def)
  from list_insert_end_put [OF coreD(1) [OF c], of "EventItem t" PendingReadyList] e obtain a' xs where
    1: "list_insert_end PendingReadyList (EventItem t) (lists k) = Some a'"
      "put_on PendingReadyList (EventItem t) xs (lists k) a'" by (auto simp: container_of_def)
  have "core N {} {} (k\<lparr>lists := a'\<rparr>)"
  proof (rule put_event_core [OF c t(1) _ _ 1(2)])
    show "StateItem t \<notin> set (elems (lists k) (Ready p))" for p
      using t(2) coreD(1) [OF c] by (auto simp: is_ready_def container_of_def lists_ok_container)
  qed simp
  moreover have "on_time (k\<lparr>lists := a'\<rparr>)"
    by (rule put_event_on_time [OF ot 1(2)]) simp
  moreover have k: "k_insert_end PendingReadyList (EventItem t) k = Some (k\<lparr>lists := a'\<rparr>)"
    using 1(1) by (simp add: k_insert_end_def)
  ultimately show ?thesis
    using k_insert_end_frame [OF k] by (auto simp: sched_ok_def same_but_def)
qed

lemma place_ok:
  assumes s: "sched_ok N k" and t: "pxCurrentTCB k = Some t" "is_ready t k" and n: "n \<noteq> 0"
  shows "\<exists>k'. vTaskPlaceOnEventList (EventList l) n k = Some k' \<and> sched_ok N k' \<and> same_but t k k' \<and>
    \<not> is_ready t k' \<and> container_of (EventItem t) k' = Some (EventList l) \<and>
    (if n = portMAX_DELAY then container_of (StateItem t) k' = Some SuspendedTaskList
     else waiting t k' \<and> wake_time t k' = xTickCount k + n)"
proof -
  from s have c: "core N {} {} k" and ot: "on_time k" by (simp_all add: sched_ok_def)
  from list_in_order [OF c t(2)] have tN: "t \<in> N" .
  have "container (lists k) (EventItem t) = None"
    using coreD(5) [OF c] t(2) ready_in_list [OF c, of t] by (auto simp: not_waiting_def)
  from list_insert_put [OF coreD(1) [OF c] this, of "EventList l"] obtain a1 xs where
    1: "list_insert (EventList l) (EventItem t) (lists k) = Some a1"
      "put_on (EventList l) (EventItem t) xs (lists k) a1" by blast
  define k1 where "k1 = k\<lparr>lists := a1\<rparr>"
  have "core N {} {t} (k\<lparr>lists := a1\<rparr>)"
    by (rule put_event_core [OF core_mono [OF c] tN _ _ 1(2)]) auto
  then have c1: "core N {} {t} k1" by (simp add: k1_def)
  have ot1: "on_time k1"
    unfolding k1_def by (rule put_event_on_time [OF ot 1(2)]) simp
  have i1: "k_insert (EventList l) (EventItem t) k = Some k1" using 1(1) by (simp add: k_insert_def k1_def)
  note f1 = k_insert_frame [OF i1]
  have t1: "pxCurrentTCB k1 = Some t" "is_ready t k1" using t f1 by (simp_all add: k1_def is_ready_def)
  from add_delayed_core [OF c1 ot1 _ t1 n, of True] obtain a' b m where
    2: "prvAddCurrentTaskToDelayedList n True k1 =
        Some (k1\<lparr>lists := a', uxTopReadyPriority := b, xNextTaskUnblockTime := m\<rparr>)"
      "sched_ok N (k1\<lparr>lists := a', uxTopReadyPriority := b, xNextTaskUnblockTime := m\<rparr>)"
      "if n = portMAX_DELAY \<and> True then container a' (StateItem t) = Some SuspendedTaskList
       else container a' (StateItem t) \<in> {Some DelayedTaskList1, Some DelayedTaskList2} \<and>
          item_value a' (StateItem t) = xTickCount k1 + n"
      "\<And>i. i \<noteq> StateItem t \<Longrightarrow> container a' i = container (lists k1) i" by blast
  define k2 where "k2 = k1\<lparr>lists := a', uxTopReadyPriority := b, xNextTaskUnblockTime := m\<rparr>"
  have cont: "container_of i k2 = (if i = EventItem t then Some (EventList l) else container_of i k)"
    if "i \<noteq> StateItem t" for i
    using f1 2(4) [OF that] by (simp add: k2_def container_of_def)
  have "vTaskPlaceOnEventList (EventList l) n k = Some k2"
    using t(1) i1 2(1) by (simp add: vTaskPlaceOnEventList_def k2_def)
  moreover have "sched_ok N k2" using 2(2) by (simp add: k2_def)
  moreover have "same_but t k k2" using cont by (auto simp: same_but_def k2_def k1_def env_def)
  moreover have "\<not> is_ready t k2"
    using 2(3) by (auto simp: k2_def is_ready_def container_of_def split: if_splits)
  moreover have "if n = portMAX_DELAY then container_of (StateItem t) k2 = Some SuspendedTaskList
     else waiting t k2 \<and> wake_time t k2 = xTickCount k + n"
    using 2(3) by (simp add: k2_def waiting_def wake_time_def container_of_def value_of_def k1_def split: if_splits)
  ultimately show ?thesis using cont [of "EventItem t"] by auto
qed

text \<open>Blocking for a time, in the middle of \<open>vTaskDelay\<close> and \<open>vTaskDelayUntil\<close>.\<close>

lemma block_ok:
  assumes s: "sched_ok N k" and t: "pxCurrentTCB k = Some t" "is_ready t k" and n: "n \<noteq> 0"
  shows "\<exists>k'. prvAddCurrentTaskToDelayedList n False k = Some k' \<and> sched_ok N k' \<and> same_but t k k' \<and>
    \<not> is_ready t k' \<and> container_of (EventItem t) k' = None \<and> waiting t k' \<and> wake_time t k' = xTickCount k + n"
proof -
  from s have c: "core N {} {} k" and ot: "on_time k" by (simp_all add: sched_ok_def)
  have e: "container (lists k) (EventItem t) = None"
    using coreD(5) [OF c] t(2) ready_in_list [OF c, of t] by (auto simp: not_waiting_def)
  from add_delayed_core [OF c ot _ t n, of False] obtain a' b m where
    2: "prvAddCurrentTaskToDelayedList n False k =
        Some (k\<lparr>lists := a', uxTopReadyPriority := b, xNextTaskUnblockTime := m\<rparr>)"
      "sched_ok N (k\<lparr>lists := a', uxTopReadyPriority := b, xNextTaskUnblockTime := m\<rparr>)"
      "container a' (StateItem t) \<in> {Some DelayedTaskList1, Some DelayedTaskList2}"
      "item_value a' (StateItem t) = xTickCount k + n"
      "\<And>i. i \<noteq> StateItem t \<Longrightarrow> container a' i = container (lists k) i" by auto
  define k2 where "k2 = k\<lparr>lists := a', uxTopReadyPriority := b, xNextTaskUnblockTime := m\<rparr>"
  have "same_but t k k2" using 2(5) by (auto simp: same_but_def k2_def env_def container_of_def)
  moreover have "\<not> is_ready t k2" using 2(3) by (auto simp: k2_def is_ready_def container_of_def)
  ultimately show ?thesis using 2 e
    by (intro exI [of _ k2]) (simp add: k2_def waiting_def wake_time_def container_of_def value_of_def)
qed

lemma signal_ok:
  assumes s: "sched_ok N k" and l: "items (EventList l) k \<noteq> []" and c: "pxCurrentTCB k = Some c"
  shows "\<exists>t k'. head_owner (EventList l) (lists k) = Some t \<and>
    xTaskRemoveFromEventList (EventList l) k =
      Some (if prio k c < prio k t then (True, k'\<lparr>xYieldPending := True\<rparr>) else (False, k')) \<and>
    sched_ok N k' \<and> same_but t k k' \<and> \<not> is_ready t k \<and>
    (if uxSchedulerSuspended k = 0 then is_ready t k' \<and> container_of (EventItem t) k' = None
     else \<not> is_ready t k' \<and> container_of (EventItem t) k' = Some PendingReadyList)"
proof -
  from l obtain t where h: "head_owner (EventList l) (lists k) = Some t"
    by (cases "elems (lists k) (EventList l)") (auto simp: items_def head_owner_def)
  have ev: "is_event (EventList l)" by simp
  from event_taken [OF s ev h] obtain n a1 where
    1: "k_remove (EventItem t) k = Some (n, k\<lparr>lists := a1\<rparr>)" "sched_ok N (k\<lparr>lists := a1\<rparr>)"
      "t \<in> N" "\<not> is_ready t k" by blast
  define k1 where "k1 = k\<lparr>lists := a1\<rparr>"
  note f1 = k_remove_frame [OF 1(1), folded k1_def]
  have e1: "container_of (EventItem t) k1 = None" and nr1: "\<not> is_ready t k1" and s1: "sched_ok N k1"
    using f1 1(2,4) by (simp_all add: is_ready_def k1_def)
  have sb1: "same_but t k k1" using f1 by (simp add: same_but_def)
  have sb: "same_but t k k'" if "same_but t k1 k'" for k' using that sb1 by (simp add: same_but_def)
  have fin: "xTaskRemoveFromEventList (EventList l) k =
      Some (if prio k c < prio k t then (True, k'\<lparr>xYieldPending := True\<rparr>) else (False, k'))"
    if "(if uxSchedulerSuspended k1 = 0
         then do { (n, k) \<leftarrow> k_remove (StateItem t) k1; prvAddTaskToReadyList t k }
         else k_insert_end PendingReadyList (EventItem t) k1) = Some k'" "same_but t k k'" for k'
    using that h 1(1) c envD(2,9) [of k' k]
    unfolding xTaskRemoveFromEventList_def by (simp add: k1_def [symmetric] same_but_def)
  have u: "uxSchedulerSuspended k1 = uxSchedulerSuspended k" by (simp add: k1_def)
  show ?thesis
  proof (cases "uxSchedulerSuspended k = 0")
    case True
    from resume_moves [OF s1 1(3)] e1 nr1 obtain m a2 a3 b where
      2: "k_remove (StateItem t) k1 = Some (m, k1\<lparr>lists := a2\<rparr>)"
        "prvAddTaskToReadyList t (k1\<lparr>lists := a2\<rparr>) = Some (k1\<lparr>lists := a3, uxTopReadyPriority := b\<rparr>)"
        "sched_ok N (k1\<lparr>lists := a3, uxTopReadyPriority := b\<rparr>)"
        "is_ready t (k1\<lparr>lists := a3, uxTopReadyPriority := b\<rparr>)"
        "\<And>i. i \<noteq> StateItem t \<Longrightarrow> container a3 i = container (lists k1) i"
      unfolding container_of_def by blast
    define k3 where "k3 = k1\<lparr>lists := a3, uxTopReadyPriority := b\<rparr>"
    have "same_but t k1 k3" using 2(5) by (simp add: k3_def same_but_def env_def container_of_def)
    from sb [OF this] have sb3: "same_but t k k3" .
    have "container_of (EventItem t) k3 = None" using 2(5) e1 by (simp add: k3_def container_of_def)
    with fin [of k3] sb3 2(1-4) True u h 1(4) show ?thesis
      by (intro exI [of _ t] exI [of _ k3]) (simp add: k3_def)
  next
    case False
    from pend_ok [OF s1 1(3) nr1 e1] obtain k2 where
      2: "k_insert_end PendingReadyList (EventItem t) k1 = Some k2" "sched_ok N k2" "same_but t k1 k2"
        "container_of (StateItem t) k2 = container_of (StateItem t) k1"
        "container_of (EventItem t) k2 = Some PendingReadyList" by blast
    have "\<not> is_ready t k2" using 2(4) nr1 by (simp add: is_ready_def)
    with fin [of k2] sb [OF 2(3)] 2 False u h 1(4) show ?thesis
      by (intro exI [of _ t] exI [of _ k2]) simp
  qed
qed

end
