(* ===== verification/Kernel_System.thy ===== *)
theory Kernel_System
  imports Kernel_Calls
begin

text \<open>
  The scheduler as a system.  The steps are the kernel calls of tasks and interrupt handlers, the
  tick and the context switch, in any order that the callers keep to (\<open>enabled\<close>); a call that
  suspends the scheduler in its middle (a delay, a wait for an event) is several steps, so ticks and
  interrupts fall between them.  The system starts with the creation of the tasks.  Every step of a
  reachable state succeeds, and the invariant \<open>run_ok\<close> holds throughout; in it, the running task is
  the one of highest priority unless a switch is due.
\<close>

section \<open>The invariant\<close>

definition top_running :: "kernel \<Rightarrow> bool" where
  "top_running k \<longleftrightarrow> (\<forall>c q. pxCurrentTCB k = Some c \<longrightarrow> is_ready q k \<longrightarrow> prio k q \<le> prio k c)"

definition no_pending :: "kernel \<Rightarrow> bool" where
  "no_pending k \<longleftrightarrow> (\<forall>t. container_of (EventItem t) k \<noteq> Some PendingReadyList)"

text \<open>All but the priority of the running task; \<open>z\<close> is the idle task.\<close>

definition run_weak :: "nat set \<Rightarrow> nat \<Rightarrow> kernel \<Rightarrow> bool" where
  "run_weak N z k \<longleftrightarrow> sched_ok N k \<and> is_ready z k \<and> xSchedulerRunning k \<and>
     uxCurrentNumberOfTasks k > 0 \<and> (\<forall>t\<in>N. uxBasePriority (tcbs k t) < 6) \<and>
     (uxSchedulerSuspended k = 0 \<longrightarrow> uxPendedTicks k = 0 \<and> no_pending k)"

text \<open>
  The whole invariant; \<open>late\<close> says that a mutex given back since the last switch has lowered a
  priority and the yield for it was dropped.
\<close>

definition run_inv :: "bool \<Rightarrow> nat set \<Rightarrow> nat \<Rightarrow> kernel \<Rightarrow> bool" where
  "run_inv late N z k \<longleftrightarrow> run_weak N z k \<and> (late \<or> pendsv k \<or> xYieldPending k \<or> top_running k)"

abbreviation run_ok :: "nat set \<Rightarrow> nat \<Rightarrow> kernel \<Rightarrow> bool" where
  "run_ok \<equiv> run_inv False"

section \<open>Calls\<close>

text \<open>
  \<open>Block\<close> is the part of a delay with the scheduler suspended, \<open>Wait\<close> the same for an event list;
  \<open>Inherit\<close>, \<open>Disinherit\<close> and \<open>TakeMutex\<close> are made by the queues.  \<open>Disinherit\<close> names the holder of the
  mutex and says whether the queue drops the yield that the call asks for, as it does when a task
  waits for the mutex.
\<close>

datatype call =
    Tick | PendSV | Yield | MissedYield
  | SuspendAll | ResumeAll
  | Block u32 | Wait nat u32 | Signal nat
  | Suspend nat | Resume nat | ResumeFromISR nat
  | PrioritySet nat u32 | Inherit nat | Disinherit nat bool | TakeMutex

fun kstep :: "call \<Rightarrow> kernel \<Rightarrow> kernel option" where
  "kstep Tick k = xPortSysTickHandler k"
| "kstep PendSV k = xPortPendSVHandler k"
| "kstep Yield k = Some (portYIELD k)"
| "kstep MissedYield k = Some (vTaskMissedYield k)"
| "kstep SuspendAll k = Some (vTaskSuspendAll k)"
| "kstep ResumeAll k = map_option snd (xTaskResumeAll k)"
| "kstep (Block n) k = prvAddCurrentTaskToDelayedList n False k"
| "kstep (Wait l n) k = vTaskPlaceOnEventList (EventList l) n k"
| "kstep (Signal l) k = map_option snd (xTaskRemoveFromEventList (EventList l) k)"
| "kstep (Suspend t) k = vTaskSuspend (Some t) k"
| "kstep (Resume t) k = vTaskResume (Some t) k"
| "kstep (ResumeFromISR t) k =
     do { (y, k) \<leftarrow> xTaskResumeFromISR t k; Some (if y then portYIELD k else k) }"
| "kstep (PrioritySet t p) k = vTaskPrioritySet (Some t) p k"
| "kstep (Inherit t) k = vTaskPriorityInherit (Some t) k"
| "kstep (Disinherit t lost) k =
     do { (y, k) \<leftarrow> xTaskPriorityDisinherit (Some t) k; Some (if y \<and> \<not> lost then portYIELD k else k) }"
| "kstep TakeMutex k = Some (snd (pvTaskIncrementMutexHeldCount k))"

definition may_block :: "nat \<Rightarrow> kernel \<Rightarrow> bool" where
  "may_block z k \<longleftrightarrow> uxSchedulerSuspended k \<noteq> 0 \<and>
     (case pxCurrentTCB k of None \<Rightarrow> False | Some c \<Rightarrow> c \<noteq> z \<and> is_ready c k)"

text \<open>
  A task gives back its last mutex while it is ready, or has no priority to give back; the second is
  what a mutex given by another task than its holder needs.
\<close>

definition may_disinherit :: "nat \<Rightarrow> kernel \<Rightarrow> bool" where
  "may_disinherit t k \<longleftrightarrow> is_ready t k \<or> prio k t = uxBasePriority (tcbs k t) \<or> uxMutexesHeld (tcbs k t) \<noteq> 1"

text \<open>
  What the callers keep to: the scheduler is resumed as often as it is suspended, the idle task
  \<open>z\<close> never waits, a task waits while it runs with the scheduler suspended, for a time that is not 0,
  an event list is signalled when a task waits in it, and a task does not suspend itself while it
  has suspended the scheduler.
\<close>

fun enabled :: "nat set \<Rightarrow> nat \<Rightarrow> call \<Rightarrow> kernel \<Rightarrow> bool" where
  "enabled N z SuspendAll k = (uxSchedulerSuspended k \<noteq> - 1)"
| "enabled N z ResumeAll k = (uxSchedulerSuspended k \<noteq> 0)"
| "enabled N z (Block n) k = (n \<noteq> 0 \<and> may_block z k)"
| "enabled N z (Wait l n) k = (n \<noteq> 0 \<and> may_block z k)"
| "enabled N z (Signal l) k = (items (EventList l) k \<noteq> [])"
| "enabled N z (Suspend t) k =
     (t \<in> N \<and> t \<noteq> z \<and> (pxCurrentTCB k = Some t \<longrightarrow> uxSchedulerSuspended k = 0))"
| "enabled N z (PrioritySet t p) k = (t \<in> N)"
| "enabled N z (Inherit t) k = (t \<in> N)"
| "enabled N z (Disinherit t lost) k = (t \<in> N \<and> may_disinherit t k)"
| "enabled N z _ k = True"

text \<open>
  A switch that takes place ends the lateness; a yield that is asked for and dropped begins it.
\<close>

definition yield_wanted :: "nat option \<Rightarrow> kernel \<Rightarrow> bool" where
  "yield_wanted t k \<longleftrightarrow> (case xTaskPriorityDisinherit t k of None \<Rightarrow> False | Some (y, _) \<Rightarrow> y)"

fun late_after :: "call \<Rightarrow> kernel \<Rightarrow> bool \<Rightarrow> bool" where
  "late_after PendSV k late = (late \<and> uxSchedulerSuspended k \<noteq> 0)"
| "late_after (Disinherit t lost) k late = (late \<or> lost \<and> yield_wanted (Some t) k)"
| "late_after _ k late = late"

section \<open>Every call keeps the invariant\<close>

lemma run_weakD:
  assumes "run_weak N z k"
  shows "sched_ok N k" "is_ready z k" "xSchedulerRunning k" "uxCurrentNumberOfTasks k > 0"
    "t \<in> N \<Longrightarrow> uxBasePriority (tcbs k t) < 6"
    "uxSchedulerSuspended k = 0 \<Longrightarrow> uxPendedTicks k = 0 \<and> no_pending k"
    "\<exists>c\<in>N. pxCurrentTCB k = Some c"
  using assms by (auto simp: run_weak_def sched_ok_def core_def)

lemma run_okD:
  assumes "run_inv late N z k"
  shows "run_weak N z k" "sched_ok N k" "is_ready z k" "xSchedulerRunning k"
    "\<not> late \<Longrightarrow> \<not> pendsv k \<Longrightarrow> \<not> xYieldPending k \<Longrightarrow> top_running k" "\<exists>c\<in>N. pxCurrentTCB k = Some c"
  using assms run_weakD [of N z k] by (auto simp: run_inv_def)

lemma view_other [simp]:
  "is_ready t (k\<lparr>xYieldPending := y\<rparr>) = is_ready t k" "is_ready t (k\<lparr>uxSchedulerSuspended := n\<rparr>) = is_ready t k"
  "is_ready t (k\<lparr>uxPendedTicks := n\<rparr>) = is_ready t k"
  "container_of i (k\<lparr>xYieldPending := y\<rparr>) = container_of i k"
  "container_of i (k\<lparr>uxSchedulerSuspended := n\<rparr>) = container_of i k"
  "container_of i (k\<lparr>uxPendedTicks := n\<rparr>) = container_of i k"
  by (simp_all add: is_ready_def container_of_def)

lemma no_pending_other [simp]:
  "no_pending (k\<lparr>pendsv := p\<rparr>) = no_pending k" "no_pending (k\<lparr>xYieldPending := y\<rparr>) = no_pending k"
  "no_pending (k\<lparr>uxSchedulerSuspended := n\<rparr>) = no_pending k"
  "no_pending (k\<lparr>uxPendedTicks := n\<rparr>) = no_pending k"
  by (simp_all add: no_pending_def)

lemma top_running_other [simp]:
  "top_running (k\<lparr>pendsv := p\<rparr>) = top_running k" "top_running (k\<lparr>xYieldPending := y\<rparr>) = top_running k"
  "top_running (k\<lparr>uxSchedulerSuspended := n\<rparr>) = top_running k"
  "top_running (k\<lparr>uxPendedTicks := n\<rparr>) = top_running k"
  by (simp_all add: top_running_def)

lemma run_weak_other [simp]:
  "run_weak N z (k\<lparr>pendsv := p\<rparr>) = run_weak N z k" "run_weak N z (k\<lparr>xYieldPending := y\<rparr>) = run_weak N z k"
  "run_weak N z (portYIELD k) = run_weak N z k"
  by (simp_all add: run_weak_def portYIELD_def)

text \<open>With a switch due, nothing is asked of the running task.\<close>

lemma run_ok_due:
  "run_weak N z k \<Longrightarrow> run_inv late N z (portYIELD k)"
  "run_weak N z k \<Longrightarrow> run_inv late N z (k\<lparr>xYieldPending := True\<rparr>)"
  by (simp_all add: run_inv_def) (simp add: portYIELD_def)

lemma run_weak_same_but:
  assumes r: "run_weak N z k" and s: "sched_ok N k'" and b: "same_but t k k'"
    and z: "t = z \<longrightarrow> is_ready t k'"
    and p: "uxSchedulerSuspended k = 0 \<longrightarrow> container_of (EventItem t) k' \<noteq> Some PendingReadyList"
  shows "run_weak N z k'"
proof -
  note R = run_weakD [OF r]
  from b have "env k' = env k" by (simp add: same_but_def)
  note E = envD [OF this]
  have "is_ready z k'" using R(2) same_but_ready [OF b, of z] z by (cases "z = t") auto
  moreover have "no_pending k'" if "uxSchedulerSuspended k = 0"
    unfolding no_pending_def
  proof
    fix q show "container_of (EventItem q) k' \<noteq> Some PendingReadyList"
      using R(6) [OF that] p that b by (cases "q = t") (simp_all add: no_pending_def same_but_def)
  qed
  ultimately show ?thesis using R s unfolding run_weak_def E by auto
qed

text \<open>The task that moved is not ready now, or is no threat to the running one.\<close>

lemma top_same_but:
  assumes "same_but t k k'" "top_running k"
    and "is_ready t k' \<Longrightarrow> is_ready t k \<or> (\<forall>c. pxCurrentTCB k = Some c \<longrightarrow> prio k t \<le> prio k c)"
  shows "top_running k'"
proof -
  from assms(1) have "env k' = env k" by (simp add: same_but_def)
  note E = envD [OF this]
  show ?thesis
    unfolding top_running_def E
  proof (intro allI impI)
    fix c q assume "pxCurrentTCB k = Some c" "is_ready q k'"
    with assms(2,3) same_but_ready [OF assms(1), of q] show "prio k q \<le> prio k c"
      by (cases "q = t") (auto simp: top_running_def)
  qed
qed

lemma run_ok_same_but:
  assumes r: "run_inv late N z k" and s: "sched_ok N k'" and b: "same_but t k k'"
    and t: "is_ready t k' \<Longrightarrow> is_ready t k \<or> (\<forall>c. pxCurrentTCB k = Some c \<longrightarrow> prio k t \<le> prio k c)"
    and z: "t = z \<longrightarrow> is_ready t k'"
    and p: "uxSchedulerSuspended k = 0 \<longrightarrow> container_of (EventItem t) k' \<noteq> Some PendingReadyList"
  shows "run_inv late N z k'"
proof -
  from b have e: "env k' = env k" by (simp add: same_but_def)
  have "top_running k'" if "\<not> late" "\<not> pendsv k'" "\<not> xYieldPending k'"
    using top_same_but [OF b _ t] run_okD(5) [OF r] that envD(7,8) [OF e] by auto
  with run_weak_same_but [OF run_okD(1) [OF r] s b z p] show ?thesis by (auto simp: run_inv_def)
qed

text \<open>Priorities: only the block of \<open>t\<close> changes.\<close>

lemma run_weak_reprio:
  assumes r: "run_weak N z k" and s: "sched_ok N k'" and p: "reprio t k k'"
    and b: "t \<in> N \<Longrightarrow> uxBasePriority (tcbs k' t) < 6"
  shows "run_weak N z k'"
proof -
  note R = run_weakD [OF r] and P = reprioD [OF p]
  have "uxBasePriority (tcbs k' q) < 6" if "q \<in> N" for q
    using R(5) [OF that] P(8) [of q] b that by (cases "q = t") auto
  moreover have "no_pending k'" if "no_pending k" using that P(11) by (simp add: no_pending_def)
  ultimately show ?thesis using R s unfolding run_weak_def P by auto
qed

lemma top_reprio:
  assumes p: "reprio t k k'" and t: "top_running k"
    and r: "\<And>c. pxCurrentTCB k = Some c \<Longrightarrow> t \<noteq> c \<Longrightarrow> prio k' t \<le> prio k t \<or> prio k' t \<le> prio k c"
    and c: "pxCurrentTCB k = Some t \<Longrightarrow> prio k t \<le> prio k' t"
  shows "top_running k'"
  unfolding top_running_def
proof (intro allI impI)
  note P = reprioD [OF p]
  fix c q
  assume h: "pxCurrentTCB k' = Some c" "is_ready q k'"
  then have le: "prio k q \<le> prio k c" using t P(1,10) by (simp add: top_running_def)
  show "prio k' q \<le> prio k' c"
  proof (cases "c = t")
    case True
    then show ?thesis
    proof (cases "q = t")
      case False
      have "prio k t \<le> prio k' t" using c h(1) True P(1) by simp
      with le show ?thesis using True P(9) [OF False] by auto
    qed simp
  next
    case False
    then have "prio k' c = prio k c" by (rule P(9))
    moreover have "prio k' q \<le> prio k c"
    proof (cases "q = t")
      case True
      have "prio k' t \<le> prio k t \<or> prio k' t \<le> prio k c" using r [of c] h(1) P(1) False by auto
      with le True show ?thesis by auto
    next
      case qt: False
      with le show ?thesis using P(9) [OF qt] by simp
    qed
    ultimately show ?thesis by simp
  qed
qed

section \<open>The steps\<close>

lemma run_weak_woke:
  assumes r: "run_weak N z k" and s: "sched_ok N k'" and w: "woke_up sw k k'"
  shows "run_weak N z k'"
proof -
  note R = run_weakD [OF r]
  from w have "env k' = env k" by (simp add: woke_up_def)
  note E = envD [OF this]
  have "no_pending k'" if "no_pending k"
    using that w unfolding no_pending_def woke_up_def by (metis insertE option.distinct(1) singletonD)
  moreover have "is_ready z k'" using R(2) w by (simp add: woke_up_def)
  ultimately show ?thesis using R s unfolding run_weak_def E by auto
qed

lemma tick_step:
  assumes r: "run_inv late N z k"
  shows "\<exists>k'. xPortSysTickHandler k = Some k' \<and> run_inv late N z k'"
proof (cases "uxSchedulerSuspended k = 0")
  case False
  let ?k = "k\<lparr>uxPendedTicks := uxPendedTicks k + 1\<rparr>"
  have w: "run_weak N z ?k" using run_okD(1) [OF r] False by (simp add: run_weak_def)
  have "xTaskIncrementTick k = Some (xYieldPending k, ?k)"
    using False by (simp add: xTaskIncrementTick_def)
  moreover have "run_inv late N z (if xYieldPending k then portYIELD ?k else ?k)"
    using r w run_ok_due(1) [OF w] by (auto simp: run_inv_def)
  ultimately show ?thesis by (simp add: xPortSysTickHandler_def)
next
  case True
  from tick_wakes_exactly [OF run_okD(2) [OF r] True] obtain sw k1 where
    1: "xTaskIncrementTick k = Some (sw, k1)" "sched_ok N k1" by blast
  from tick_frame [OF 1(1)] True have w: "woke_up sw k k1" and y: "xYieldPending k \<longrightarrow> sw" by simp_all
  have weak: "run_weak N z k1" by (rule run_weak_woke [OF run_okD(1) [OF r] 1(2) w])
  from w have e: "env k1 = env k" by (simp add: woke_up_def)
  have "run_inv late N z (if sw then portYIELD k1 else k1)"
  proof (cases sw)
    case False
    have "top_running k1" if "\<not> late" "\<not> pendsv k"
    proof -
      from run_okD(5) [OF r that] False y have t: "top_running k" by simp
      then show ?thesis
        using w False unfolding top_running_def woke_up_def envD(2,9) [OF e] by (metis order_less_imp_le)
    qed
    then show ?thesis using weak False envD(7) [OF e] by (auto simp: run_inv_def)
  qed (use run_ok_due(1) [OF weak] in simp)
  then show ?thesis using 1(1) by (simp add: xPortSysTickHandler_def)
qed

lemma switch_frame:
  assumes "vTaskSwitchContext k = Some k'" "uxSchedulerSuspended k = 0"
  shows "tcbs k' = tcbs k" "xSchedulerRunning k' = xSchedulerRunning k"
    "uxCurrentNumberOfTasks k' = uxCurrentNumberOfTasks k" "uxSchedulerSuspended k' = 0"
    "uxPendedTicks k' = uxPendedTicks k" "container_of i k' = container_of i k"
  using assms
  by (auto simp: vTaskSwitchContext_def taskSELECT_HIGHEST_PRIORITY_TASK_def next_owner_def
      container_of_def split: Option.bind_splits)

lemma switch_step:
  assumes r: "run_inv late N z k"
  shows "\<exists>k'. xPortPendSVHandler k = Some k' \<and> run_inv (late \<and> uxSchedulerSuspended k \<noteq> 0) N z k' \<and>
    (uxSchedulerSuspended k = 0 \<longrightarrow> (\<exists>c. pxCurrentTCB k' = Some c \<and> is_ready c k') \<and> top_running k')"
proof (cases "uxSchedulerSuspended k = 0")
  case False
  have "run_weak N z (k\<lparr>pendsv := False\<rparr>)" using run_okD(1) [OF r] by simp
  from run_ok_due(2) [OF this] show ?thesis
    using False by (simp add: xPortPendSVHandler_def vTaskSwitchContext_def)
next
  case True
  let ?k = "k\<lparr>pendsv := False\<rparr>"
  note R = run_weakD [OF run_okD(1) [OF r]]
  have s: "sched_ok N ?k" "uxSchedulerSuspended ?k = 0" "is_ready z ?k" using R(1,2) True by simp_all
  from scheduler_picks_highest [OF s] obtain k' t where
    1: "vTaskSwitchContext ?k = Some k'" "pxCurrentTCB k' = Some t" "is_ready t k'"
      "\<And>q. is_ready q k' \<Longrightarrow> prio k' q \<le> prio k' t" "sched_ok N k'" "\<And>q. is_ready q k' = is_ready q ?k"
    by blast
  note F = switch_frame [OF 1(1) s(2)]
  have "no_pending k'" using R(6) [OF True] by (simp add: no_pending_def F(6))
  then have "run_weak N z k'"
    using R 1(5,6) True unfolding run_weak_def F by simp
  moreover have "top_running k'" using 1(2,4) by (simp add: top_running_def)
  ultimately show ?thesis using 1(1-3) by (simp add: xPortPendSVHandler_def run_inv_def)
qed

lemma u32_pred_0: "(n :: u32) - 1 = 0 \<longleftrightarrow> n = 1"
  by auto

lemma resume_all_step:
  assumes r: "run_inv late N z k" and u: "uxSchedulerSuspended k \<noteq> 0"
  shows "\<exists>k'. map_option snd (xTaskResumeAll k) = Some k' \<and> run_inv late N z k'"
proof (cases "uxSchedulerSuspended k = 1")
  case False
  let ?k = "k\<lparr>uxSchedulerSuspended := uxSchedulerSuspended k - 1\<rparr>"
  have n: "uxSchedulerSuspended k - 1 \<noteq> 0" using False by (simp add: u32_pred_0)
  then have "xTaskResumeAll k = Some (False, ?k)" by (simp add: xTaskResumeAll_def Let_def)
  moreover have "run_inv late N z ?k" using r n by (simp add: run_inv_def run_weak_def)
  ultimately show ?thesis by simp
next
  case True
  note R = run_weakD [OF run_okD(1) [OF r]]
  from resume_all_ok [OF R(1) True R(4)] obtain y k' where
    1: "xTaskResumeAll k = Some (y, k')" "sched_ok N k'" "uxSchedulerSuspended k' = 0"
      "uxPendedTicks k' = 0" "\<forall>t. container_of (EventItem t) k' \<noteq> Some PendingReadyList"
      "y = xYieldPending k'" "pendsv k' = (pendsv k \<or> y)"
      "woke_flag k (k'\<lparr>uxSchedulerSuspended := 1, uxPendedTicks := uxPendedTicks k, pendsv := pendsv k\<rparr>)"
    by blast
  note W = woke_flagD [OF 1(8)]
  have "is_ready z k'" using W(10) [OF R(2)] by simp
  moreover have tb: "tcbs k' = tcbs k" "pxCurrentTCB k' = pxCurrentTCB k" "prio k' = prio k"
    "xSchedulerRunning k' = xSchedulerRunning k" "uxCurrentNumberOfTasks k' = uxCurrentNumberOfTasks k"
    using W(1-5) by simp_all
  ultimately have "run_weak N z k'"
    using R 1(2-5) unfolding run_weak_def by (simp add: no_pending_def)
  moreover have "top_running k'" if nl: "\<not> late" "\<not> pendsv k'" "\<not> xYieldPending k'"
  proof -
    have "\<not> pendsv k" "\<not> xYieldPending k" using that 1(6,7) W(9) by auto
    with run_okD(5) [OF r nl(1)] have t: "top_running k" by simp
    show ?thesis
      unfolding top_running_def tb
    proof (intro allI impI)
      fix c q assume "pxCurrentTCB k = Some c" "is_ready q k'"
      with W(12) [of c q] that(3) t show "prio k q \<le> prio k c" by (auto simp: top_running_def)
    qed
  qed
  ultimately have "run_inv late N z k'" by (auto simp: run_inv_def)
  with 1(1) show ?thesis by simp
qed

lemma block_step:
  assumes r: "run_inv late N z k" and b: "may_block z k" and n: "n \<noteq> 0"
  shows "\<exists>k'. prvAddCurrentTaskToDelayedList n False k = Some k' \<and> run_inv late N z k'"
    "\<exists>k'. vTaskPlaceOnEventList (EventList l) n k = Some k' \<and> run_inv late N z k'"
proof -
  from b obtain t where t: "pxCurrentTCB k = Some t" "t \<noteq> z" "is_ready t k"
    by (auto simp: may_block_def split: option.splits)
  from block_ok [OF run_okD(2) [OF r] t(1,3) n] obtain k1 where
    1: "prvAddCurrentTaskToDelayedList n False k = Some k1" "sched_ok N k1" "same_but t k k1"
      "\<not> is_ready t k1" "container_of (EventItem t) k1 = None" by blast
  have "run_inv late N z k1" by (rule run_ok_same_but [OF r 1(2,3)]) (use 1(4,5) t(2) in auto)
  with 1(1) show "\<exists>k'. prvAddCurrentTaskToDelayedList n False k = Some k' \<and> run_inv late N z k'" by blast
  from place_ok [OF run_okD(2) [OF r] t(1,3) n, of l] obtain k1 where
    1: "vTaskPlaceOnEventList (EventList l) n k = Some k1" "sched_ok N k1" "same_but t k k1"
      "\<not> is_ready t k1" "container_of (EventItem t) k1 = Some (EventList l)" by blast
  have "run_inv late N z k1" by (rule run_ok_same_but [OF r 1(2,3)]) (use 1(4,5) t(2) in auto)
  with 1(1) show "\<exists>k'. vTaskPlaceOnEventList (EventList l) n k = Some k' \<and> run_inv late N z k'" by blast
qed

lemma signal_step:
  assumes r: "run_inv late N z k" and l: "items (EventList l) k \<noteq> []"
  shows "\<exists>k'. map_option snd (xTaskRemoveFromEventList (EventList l) k) = Some k' \<and> run_inv late N z k'"
proof -
  note R = run_weakD [OF run_okD(1) [OF r]]
  from R(7) obtain c where c: "pxCurrentTCB k = Some c" by blast
  from signal_ok [OF R(1) l c] obtain t k1 where
    1: "xTaskRemoveFromEventList (EventList l) k =
        Some (if prio k c < prio k t then (True, k1\<lparr>xYieldPending := True\<rparr>) else (False, k1))"
      "sched_ok N k1" "same_but t k k1" "\<not> is_ready t k"
      "if uxSchedulerSuspended k = 0 then is_ready t k1 \<and> container_of (EventItem t) k1 = None
       else \<not> is_ready t k1 \<and> container_of (EventItem t) k1 = Some PendingReadyList" by blast
  have z: "t \<noteq> z" using 1(4) R(2) by blast
  show ?thesis
  proof (cases "prio k c < prio k t")
    case True
    have "run_weak N z k1"
      by (rule run_weak_same_but [OF run_okD(1) [OF r] 1(2,3)]) (use 1(5) z in auto)
    from run_ok_due(2) [OF this] 1(1) True show ?thesis by simp
  next
    case False
    have "run_inv late N z k1"
      by (rule run_ok_same_but [OF r 1(2,3)]) (use 1(5) z False c in \<open>auto simp: not_less\<close>)
    with 1(1) False show ?thesis by simp
  qed
qed

lemma suspend_step:
  assumes r: "run_inv late N z k" and t: "t \<in> N" "t \<noteq> z"
  shows "\<exists>k'. vTaskSuspend (Some t) k = Some k' \<and> run_inv late N z k'"
proof -
  from suspend_ok [OF run_okD(2) [OF r] t(1) run_okD(4) [OF r]] obtain k1 where
    1: "vTaskSuspend (Some t) k = Some (if pxCurrentTCB k = Some t then portYIELD k1 else k1)"
      "sched_ok N k1" "same_but t k k1" "container_of (StateItem t) k1 = Some SuspendedTaskList"
      "container_of (EventItem t) k1 = None" by blast
  have "run_inv late N z k1"
    by (rule run_ok_same_but [OF r 1(2,3)]) (use 1(4,5) t(2) in \<open>auto simp: is_ready_def\<close>)
  with 1(1) run_ok_due(1) [OF run_okD(1) [OF this]] show ?thesis by auto
qed

lemma resume_step_ok:
  assumes r: "run_inv late N z k"
  shows "\<exists>k'. vTaskResume (Some t) k = Some k' \<and> run_inv late N z k'"
proof (cases "pxCurrentTCB k \<noteq> Some t \<and> prvTaskIsTaskSuspended t k")
  case False
  have "vTaskResume (Some t) k = Some k" unfolding vTaskResume_def option.case if_not_P [OF False] ..
  with r show ?thesis by simp
next
  case True
  from run_okD(6) [OF r] obtain c where c: "pxCurrentTCB k = Some c" by blast
  note st = suspended_task [OF run_okD(2) [OF r] conjunct2 [OF True]]
  from resume_step [OF run_okD(2) [OF r] st(1) conjunct2 [OF True]] obtain n k1 k2 where
    1: "k_remove (StateItem t) k = Some (n, k1)" "prvAddTaskToReadyList t k1 = Some k2"
      "sched_ok N k2" "same_but t k k2" "is_ready t k2" "container_of (EventItem t) k2 = None" by blast
  have E: "pxCurrentTCB k2 = Some c" "prio k2 = prio k"
    using 1(4) c envD(2,9) [of k2 k] by (simp_all add: same_but_def)
  have run: "vTaskResume (Some t) k = Some (if prio k c \<le> prio k t then portYIELD k2 else k2)"
    unfolding vTaskResume_def option.case if_P [OF True] by (simp add: 1(1,2) E)
  show ?thesis
  proof (cases "prio k c \<le> prio k t")
    case True
    have "run_weak N z k2" by (rule run_weak_same_but [OF run_okD(1) [OF r] 1(3,4)]) (use 1(5,6) in auto)
    from run_ok_due(1) [OF this] run True show ?thesis by simp
  next
    case False
    have "run_inv late N z k2"
      by (rule run_ok_same_but [OF r 1(3,4)]) (use 1(5,6) False c in \<open>auto simp: not_le intro: less_imp_le\<close>)
    with run False show ?thesis by simp
  qed
qed

lemma resume_isr_step:
  assumes r: "run_inv late N z k"
  shows "\<exists>k'. kstep (ResumeFromISR t) k = Some k' \<and> run_inv late N z k'"
proof (cases "prvTaskIsTaskSuspended t k")
  case False
  then have "kstep (ResumeFromISR t) k = Some k" by (simp add: xTaskResumeFromISR_def)
  with r show ?thesis by simp
next
  case True
  note s = run_okD(2) [OF r] and st = suspended_task [OF run_okD(2) [OF r] True]
  from run_okD(6) [OF r] obtain c where c: "pxCurrentTCB k = Some c" by blast
  have e: "container_of (EventItem t) k = None" using True by (simp add: prvTaskIsTaskSuspended_def)
  have tz: "t \<noteq> z" using st(2) run_okD(3) [OF r] by blast
  show ?thesis
  proof (cases "uxSchedulerSuspended k = 0")
    case susp: False
    from pend_ok [OF s st e] obtain k1 where
      1: "k_insert_end PendingReadyList (EventItem t) k = Some k1" "sched_ok N k1" "same_but t k k1"
        "container_of (StateItem t) k1 = container_of (StateItem t) k" by blast
    have nr: "\<not> is_ready t k1" using 1(4) st(2) by (simp add: is_ready_def)
    have "run_inv late N z k1" by (rule run_ok_same_but [OF r 1(2,3)]) (use nr susp tz in auto)
    then show ?thesis using 1(1) True susp by (simp add: xTaskResumeFromISR_def)
  next
    case run: True
    from resume_step [OF s st(1) True] obtain n k1 k2 where
      1: "k_remove (StateItem t) k = Some (n, k1)" "prvAddTaskToReadyList t k1 = Some k2"
        "sched_ok N k2" "same_but t k k2" "is_ready t k2" "container_of (EventItem t) k2 = None" by blast
    have st: "kstep (ResumeFromISR t) k = Some (if prio k c \<le> prio k t then portYIELD k2 else k2)"
      using True run c 1(1,2) by (simp add: xTaskResumeFromISR_def Let_def)
    show ?thesis
    proof (cases "prio k c \<le> prio k t")
      case True
      have "run_weak N z k2" by (rule run_weak_same_but [OF run_okD(1) [OF r] 1(3,4)]) (use 1(5,6) in auto)
      from run_ok_due(1) [OF this] st True show ?thesis by simp
    next
      case False
      have "run_inv late N z k2"
        by (rule run_ok_same_but [OF r 1(3,4)]) (use 1(5,6) False c in \<open>auto simp: not_le intro: less_imp_le\<close>)
      with st False show ?thesis by simp
    qed
  qed
qed

lemma run_ok_reprio:
  assumes r: "run_inv late N z k" and s: "sched_ok N k'" and p: "reprio t k k'"
    and b: "t \<in> N \<Longrightarrow> uxBasePriority (tcbs k' t) < 6"
    and o: "\<And>c. pxCurrentTCB k = Some c \<Longrightarrow> t \<noteq> c \<Longrightarrow> prio k' t \<le> prio k t \<or> prio k' t \<le> prio k c"
    and c: "pxCurrentTCB k = Some t \<Longrightarrow> prio k t \<le> prio k' t"
  shows "run_inv late N z k'"
proof -
  have "top_running k'" if "\<not> late" "\<not> pendsv k" "\<not> xYieldPending k"
    using top_reprio [OF p run_okD(5) [OF r that] o c] by blast
  with run_weak_reprio [OF run_okD(1) [OF r] s p b] reprioD(6,7) [OF p] show ?thesis
    by (auto simp: run_inv_def)
qed

lemma priority_set_step:
  assumes r: "run_inv late N z k" and t: "t \<in> N"
  shows "\<exists>k'. vTaskPrioritySet (Some t) new k = Some k' \<and> run_inv late N z k'"
proof -
  define p where "p = (if new \<ge> configMAX_PRIORITIES then configMAX_PRIORITIES - 1 else new)"
  from run_okD(6) [OF r] obtain c where c: "pxCurrentTCB k = Some c" by blast
  let ?b = "uxBasePriority (tcbs k t)"
  let ?y = "?b \<noteq> p \<and> (if p > ?b then t \<noteq> c \<and> p \<ge> prio k c else t = c)"
  from priority_set_ok [OF run_okD(2) [OF r] t c, of new, folded p_def] obtain k1 where
    1: "vTaskPrioritySet (Some t) new k = Some (if ?y then portYIELD k1 else k1)"
      "sched_ok N k1" "reprio t k k1"
      "tcbs k1 t = (if ?b \<noteq> p then new_priority p (tcbs k t) else tcbs k t)" by blast
  have p6: "p < 6" by (simp add: p_def configMAX_PRIORITIES_def not_le)
  have b6: "uxBasePriority (tcbs k1 t) < 6"
    using p6 run_weakD(5) [OF run_okD(1) [OF r] t] by (simp add: 1(4) new_priority_def)
  have pr: "prio k1 t = (if ?b \<noteq> p \<and> ?b = prio k t then p else prio k t)"
    by (simp add: prio_def 1(4) new_priority_def)
  show ?thesis
  proof (cases ?y)
    case True
    have "run_weak N z k1" by (rule run_weak_reprio [OF run_okD(1) [OF r] 1(2,3) b6])
    from run_ok_due(1) [OF this] 1(1) True show ?thesis by simp
  next
    case False
    have "run_inv late N z k1"
      by (rule run_ok_reprio [OF r 1(2,3) b6])
         (use False c pr in \<open>auto split: if_splits simp: not_le not_less intro: less_imp_le\<close>)
    with 1(1) False show ?thesis by simp
  qed
qed

lemma inherit_step:
  assumes r: "run_inv late N z k" and t: "t \<in> N"
  shows "\<exists>k'. vTaskPriorityInherit (Some t) k = Some k' \<and> run_inv late N z k'"
proof -
  from run_okD(6) [OF r] obtain c where c: "pxCurrentTCB k = Some c" by blast
  from inherit_ok [OF run_okD(2) [OF r] t c] obtain k1 where
    1: "vTaskPriorityInherit (Some t) k = Some k1" "sched_ok N k1" "reprio t k k1"
      "tcbs k1 t = (tcbs k t)\<lparr>uxPriority := max (prio k t) (prio k c)\<rparr>" by blast
  have "prio k1 t = max (prio k t) (prio k c)" by (simp add: prio_def 1(4))
  then have "run_inv late N z k1"
    by (intro run_ok_reprio [OF r 1(2,3)])
       (use c run_weakD(5) [OF run_okD(1) [OF r]] in \<open>auto simp: 1(4) max_def not_le\<close>)
  with 1(1) show ?thesis by blast
qed

lemma disinherit_step:
  assumes r: "run_inv late N z k" and t: "t \<in> N" "may_disinherit t k"
  shows "\<exists>y k1. xTaskPriorityDisinherit (Some t) k = Some (y, k1) \<and> run_weak N z k1 \<and> reprio t k k1 \<and>
    run_inv (late \<or> y) N z k1"
proof -
  note R = run_weakD [OF run_okD(1) [OF r]]
  let ?y = "prio k t \<noteq> uxBasePriority (tcbs k t) \<and> uxMutexesHeld (tcbs k t) = 1"
  from disinherit_ok [OF R(1) t(1) R(5) [OF t(1)]] t(2) obtain k1 where
    1: "xTaskPriorityDisinherit (Some t) k = Some (?y, k1)" "sched_ok N k1" "reprio t k k1"
      "tcbs k1 t = (tcbs k t)\<lparr>uxMutexesHeld := uxMutexesHeld (tcbs k t) - 1,
        uxPriority := if uxMutexesHeld (tcbs k t) = 1 then uxBasePriority (tcbs k t) else prio k t\<rparr>"
    unfolding may_disinherit_def by blast
  have b: "uxBasePriority (tcbs k1 t) < 6" using R(5) [OF t(1)] by (simp add: 1(4))
  have weak: "run_weak N z k1" by (rule run_weak_reprio [OF run_okD(1) [OF r] 1(2,3) b])
  have "run_inv late N z k1" if "\<not> ?y"
  proof -
    have "prio k1 t = prio k t" using that by (auto simp: prio_def 1(4))
    then show ?thesis by (intro run_ok_reprio [OF r 1(2,3) b]) auto
  qed
  then have "run_inv (late \<or> ?y) N z k1" using weak unfolding run_inv_def by blast
  with 1(1,3) weak show ?thesis by blast
qed

lemma take_mutex_step:
  assumes r: "run_inv late N z k"
  shows "run_inv late N z (snd (pvTaskIncrementMutexHeldCount k))"
proof -
  from run_okD(6) [OF r] obtain c where c: "pxCurrentTCB k = Some c" "c \<in> N" by blast
  define f where "f = (\<lambda>b. b\<lparr>uxMutexesHeld := uxMutexesHeld b + 1\<rparr> :: tcb)"
  note R = run_weakD [OF run_okD(1) [OF r]]
  have p: "prio (set_tcb c f k) c = prio k c" by (simp add: f_def prio_def)
  have "prio k c < 6" using R(1) c(2) by (simp add: sched_ok_def core_def)
  then have "sched_ok N (set_tcb c f k)" by (intro sched_ok_set_tcb [OF R(1)]) (simp_all add: f_def prio_def)
  then have "run_inv late N z (set_tcb c f k)"
    by (rule run_ok_reprio [OF r _ reprio_set_tcb]) (use R(5) p in \<open>simp_all add: f_def prio_def\<close>)
  then show ?thesis by (simp add: pvTaskIncrementMutexHeldCount_def c(1) f_def)
qed

lemma run_ok_step:
  assumes r: "run_inv late N z k" and e: "enabled N z c k"
  shows "\<exists>k'. kstep c k = Some k' \<and> run_inv (late_after c k late) N z k'"
proof (cases c)
  case Tick
  then show ?thesis using tick_step [OF r] by simp
next
  case PendSV
  then show ?thesis using switch_step [OF r] by auto
next
  case Yield
  then show ?thesis using run_ok_due(1) [OF run_okD(1) [OF r]] by simp
next
  case MissedYield
  then show ?thesis using run_ok_due(2) [OF run_okD(1) [OF r]] by (simp add: vTaskMissedYield_def)
next
  case SuspendAll
  with e have "uxSchedulerSuspended k + 1 \<noteq> 0" by (metis add.commute eq_neg_iff_add_eq_0 enabled.simps(1))
  then have "run_inv late N z (vTaskSuspendAll k)"
    using r by (simp add: vTaskSuspendAll_def run_inv_def run_weak_def)
  with SuspendAll show ?thesis by simp
next
  case ResumeAll
  then show ?thesis using resume_all_step [OF r] e by simp
next
  case (Block n)
  then show ?thesis using block_step(1) [OF r] e by simp
next
  case (Wait l n)
  then show ?thesis using block_step(2) [OF r] e by simp
next
  case (Signal l)
  then show ?thesis using signal_step [OF r] e by simp
next
  case (Suspend t)
  then show ?thesis using suspend_step [OF r] e by simp
next
  case (Resume t)
  then show ?thesis using resume_step_ok [OF r] by simp
next
  case (ResumeFromISR t)
  then show ?thesis using resume_isr_step [OF r] by simp
next
  case (PrioritySet t p)
  then show ?thesis using priority_set_step [OF r] e by simp
next
  case (Inherit t)
  then show ?thesis using inherit_step [OF r] e by simp
next
  case (Disinherit t lost)
  with e disinherit_step [OF r, of t] obtain y k1 where
    "xTaskPriorityDisinherit (Some t) k = Some (y, k1)" "run_weak N z k1" "run_inv (late \<or> y) N z k1" by auto
  with Disinherit run_ok_due(1) [of N z k1] show ?thesis by (cases "y \<and> \<not> lost") (auto simp: yield_wanted_def)
next
  case TakeMutex
  then show ?thesis using take_mutex_step [OF r] by simp
qed

end
