(* ===== verification/Kernel_Boot.thy ===== *)
theory Kernel_Boot
  imports Kernel_System
begin

text \<open>
  The start of the kernel: \<open>main\<close> creates the tasks, \<open>vTaskStartScheduler\<close> the idle task.  The states
  reachable from there by the calls of \<open>Kernel_System\<close>, and the properties of all of them.
\<close>

section \<open>Start\<close>

text \<open>The statics before \<open>main\<close>.\<close>

definition reset_kernel :: kernel where
  "reset_kernel = \<lparr>
     lists = \<lparr>elems = \<lambda>_. [], list_index = \<lambda>_. None, item_value = \<lambda>_. 0, container = \<lambda>_. None\<rparr>,
     tcbs = \<lambda>_. \<lparr>uxPriority = 0, uxBasePriority = 0, uxMutexesHeld = 0, uxTCBNumber = 0,
       ulNotifiedValue = 0, ucNotifyState = 0\<rparr>,
     pxCurrentTCB = None, pxDelayedTaskList = DelayedTaskList1, pxOverflowDelayedTaskList = DelayedTaskList2,
     uxDeletedTasksWaitingCleanUp = 0, uxCurrentNumberOfTasks = 0, xTickCount = 0,
     uxTopReadyPriority = 0, xSchedulerRunning = False, uxPendedTicks = 0, xYieldPending = False,
     xNumOfOverflows = 0, uxTaskNumber = 0, xNextTaskUnblockTime = 0, uxSchedulerSuspended = 0,
     pendsv = False\<rparr>"

text \<open>The tasks 0, 1, \<dots> with the priorities of the list.\<close>

fun create_tasks :: "nat \<Rightarrow> u32 list \<Rightarrow> kernel \<Rightarrow> kernel option" where
  "create_tasks t [] k = Some k"
| "create_tasks t (p # ps) k = do { (ok, k) \<leftarrow> xTaskCreate (Some t) p k; create_tasks (t + 1) ps k }"

definition boot :: "u32 list \<Rightarrow> kernel option" where
  "boot ps = do { k \<leftarrow> create_tasks 0 ps reset_kernel; vTaskStartScheduler (Some (length ps)) k }"

inductive reach :: "u32 list \<Rightarrow> kernel \<Rightarrow> bool" for ps where
  reach_boot: "boot ps = Some k \<Longrightarrow> reach ps k"
| reach_call: "reach ps k \<Longrightarrow> enabled {..length ps} (length ps) c k \<Longrightarrow> kstep c k = Some k' \<Longrightarrow> reach ps k'"

text \<open>
  The same with the account of yields that were dropped; \<open>reach_late ps False\<close> are the states in which
  none was dropped since the last switch.
\<close>

inductive reach_late :: "u32 list \<Rightarrow> bool \<Rightarrow> kernel \<Rightarrow> bool" for ps where
  late_boot: "boot ps = Some k \<Longrightarrow> reach_late ps False k"
| late_call: "reach_late ps late k \<Longrightarrow> enabled {..length ps} (length ps) c k \<Longrightarrow> kstep c k = Some k' \<Longrightarrow>
    reach_late ps (late_after c k late) k'"

lemma reach_iff_late: "reach ps k \<longleftrightarrow> (\<exists>late. reach_late ps late k)"
proof
  assume "reach ps k"
  then show "\<exists>late. reach_late ps late k" by induction (blast intro: late_boot late_call)+
next
  assume "\<exists>late. reach_late ps late k"
  then obtain late where "reach_late ps late k" ..
  then show "reach ps k" by induction (blast intro: reach_boot reach_call)+
qed

text \<open>While the first \<open>n\<close> tasks exist and the scheduler does not run.\<close>

definition made :: "nat \<Rightarrow> kernel \<Rightarrow> bool" where
  "made n k \<longleftrightarrow> core {..<n} {} {} k \<and>
     (pxDelayedTaskList k, pxOverflowDelayedTaskList k) = (DelayedTaskList1, DelayedTaskList2) \<and>
     (\<forall>l. (\<forall>p. l \<noteq> Ready p) \<longrightarrow> elems (lists k) l = []) \<and>
     (\<forall>t<n. is_ready t k \<and> uxBasePriority (tcbs k t) < 6) \<and> \<not> xSchedulerRunning k \<and>
     uxCurrentNumberOfTasks k = of_nat n \<and> uxSchedulerSuspended k = 0 \<and> uxPendedTicks k = 0 \<and>
     top_running k"

lemma fresh_task:
  assumes "core {..<n} {} {} k" "n \<le> t"
  shows "container (lists k) (StateItem t) = None" "container (lists k) (EventItem t) = None"
    "StateItem t \<notin> set (elems (lists k) l)" "EventItem t \<notin> set (elems (lists k) l)"
proof -
  note C = coreD [OF assms(1)]
  have o: "owner i < n" if "i \<in> set (elems (lists k) l)" for i l
    using C(2) that unfolding kinds_def by (metis lessThan_iff owner.simps)
  show 1: "StateItem t \<notin> set (elems (lists k) l)" "EventItem t \<notin> set (elems (lists k) l)" for l
    using o [of _ l] assms(2) by fastforce+
  show "container (lists k) (StateItem t) = None" "container (lists k) (EventItem t) = None"
    using 1 C(1) by (metis lists_ok_container option.exhaust)+
qed

text \<open>The new task is in no list yet; it is added to its ready list.\<close>

definition making :: "nat \<Rightarrow> nat \<Rightarrow> kernel \<Rightarrow> bool" where
  "making n c k \<longleftrightarrow> core {..<Suc n} {n} {} k \<and>
     (pxDelayedTaskList k, pxOverflowDelayedTaskList k) = (DelayedTaskList1, DelayedTaskList2) \<and>
     (\<forall>l. (\<forall>p. l \<noteq> Ready p) \<longrightarrow> elems (lists k) l = []) \<and>
     (\<forall>t<n. is_ready t k) \<and> (\<forall>t<Suc n. uxBasePriority (tcbs k t) < 6) \<and> \<not> xSchedulerRunning k \<and>
     uxCurrentNumberOfTasks k = of_nat (Suc n) \<and> uxSchedulerSuspended k = 0 \<and> uxPendedTicks k = 0 \<and>
     pxCurrentTCB k = Some c \<and> (\<forall>t<Suc n. prio k t \<le> prio k c)"

lemma making_made:
  assumes m: "making n c k"
  shows "\<exists>k'. prvAddTaskToReadyList n k = Some k' \<and> made (Suc n) k' \<and> pxCurrentTCB k' = Some c"
proof -
  have c: "core {..<Suc n} {n} {} k" using m by (simp add: making_def)
  have "EventItem n \<notin> set (elems (lists k) l)" for l
  proof (cases "is_event l")
    case True
    then have "elems (lists k) l = []" using m by (cases l) (auto simp: making_def)
    then show ?thesis by simp
  next
    case False
    then show ?thesis using state_kind [OF c] by blast
  qed
  then have e: "container (lists k) (EventItem n) = None"
    using coreD(1) [OF c] by (metis lists_ok_container option.exhaust)
  from add_ready_core [OF c _ e] obtain xs a' b where
    1: "prvAddTaskToReadyList n k = Some (k\<lparr>lists := a', uxTopReadyPriority := b\<rparr>)"
      "put_on (Ready (unat (prio k n))) (StateItem n) xs (lists k) a'"
      "core {..<Suc n} {} {} (k\<lparr>lists := a', uxTopReadyPriority := b\<rparr>)" by auto
  define k' where "k' = k\<lparr>lists := a', uxTopReadyPriority := b\<rparr>"
  have "elems a' l = []" if "\<forall>p. l \<noteq> Ready p" for l
    using put_onD(4) [OF 1(2), of l] that m by (simp add: making_def)
  moreover have "is_ready t k'" if "t < Suc n" for t
    using put_onD(3) [OF 1(2), of "StateItem t"] that m
    by (cases "t = n") (auto simp: k'_def making_def is_ready_def container_of_def less_Suc_eq)
  moreover have "top_running k'"
  proof -
    have "is_ready q k' \<Longrightarrow> q < Suc n" for q
      using list_in_order [OF 1(3), of q] by (simp add: k'_def)
    then show ?thesis using m by (auto simp: top_running_def k'_def making_def)
  qed
  ultimately have "made (Suc n) k'" using m 1(3) unfolding made_def by (simp add: making_def k'_def)
  then show ?thesis using 1(1) m by (simp add: k'_def making_def)
qed

definition clamp_priority :: "u32 \<Rightarrow> u32" where
  "clamp_priority p = (if p \<ge> configMAX_PRIORITIES then configMAX_PRIORITIES - 1 else p)"

lemma clamp_less: "clamp_priority p < 6"
  by (simp add: clamp_priority_def configMAX_PRIORITIES_def not_le)

lemma initialise_task:
  fixes p :: u32
  assumes "container (lists k) (StateItem t) = None" "container (lists k) (EventItem t) = None"
  shows "\<exists>b v. prvInitialiseNewTask p t k =
      k\<lparr>tcbs := (tcbs k)(t := b), lists := list_set_value (EventItem t) v (lists k)\<rparr> \<and>
    uxPriority b = clamp_priority p \<and> uxBasePriority b = clamp_priority p"
proof -
  have "(container (lists k))(StateItem t := None, EventItem t := None) = container (lists k)"
    using assms by auto
  then have "prvInitialiseNewTask p t k = k\<lparr>
      tcbs := (tcbs k)(t := (tcbs k t)\<lparr>uxPriority := clamp_priority p, uxBasePriority := clamp_priority p,
        uxMutexesHeld := 0, ulNotifiedValue := 0, ucNotifyState := taskNOT_WAITING_NOTIFICATION\<rparr>),
      lists := list_set_value (EventItem t) (configMAX_PRIORITIES - clamp_priority p) (lists k)\<rparr>"
    by (intro kernel.equality)
       (simp_all add: prvInitialiseNewTask_def Let_def set_tcb_def k_set_value_def
          clamp_priority_def [symmetric])
  then show ?thesis
    by (intro exI conjI) (assumption, simp_all)
qed

lemma add_new_made:
  assumes m: "made n k" and n: "0 < n"
  shows "\<exists>k'. prvAddNewTaskToReadyList n (prvInitialiseNewTask p n k) = Some k' \<and> made (Suc n) k'"
proof -
  let ?q = "clamp_priority p"
  have c: "core {..<n} {} {} k" using m by (simp add: made_def)
  note C = coreD [OF c]
  from initialise_task [OF fresh_task(1,2) [OF c order_refl], of p] obtain b v where
    1: "prvInitialiseNewTask p n k = k\<lparr>tcbs := (tcbs k)(n := b), lists := list_set_value (EventItem n) v (lists k)\<rparr>"
      "uxPriority b = ?q" "uxBasePriority b = ?q" by blast
  define k1 where "k1 = k\<lparr>tcbs := (tcbs k)(n := b), lists := list_set_value (EventItem n) v (lists k)\<rparr>"
  obtain r where r: "pxCurrentTCB k = Some r" "r < n" using c by (auto simp: core_def)
  define c' where "c' = (if prio k r \<le> ?q then n else r)"
  define b' where "b' = b\<lparr>uxTCBNumber := uxTaskNumber k + 1\<rparr>"
  define k2 where "k2 = k\<lparr>tcbs := (tcbs k)(n := b'), lists := list_set_value (EventItem n) v (lists k),
     uxCurrentNumberOfTasks := uxCurrentNumberOfTasks k + 1, pxCurrentTCB := Some c',
     uxTaskNumber := uxTaskNumber k + 1\<rparr>"
  have nr: "\<not> xSchedulerRunning k" using m by (simp add: made_def)
  have un: "prvAddNewTaskToReadyList n k1 = do {
      k \<leftarrow> prvAddTaskToReadyList n k2;
      c \<leftarrow> pxCurrentTCB k;
      Some (if xSchedulerRunning k \<and> prio k c < prio k n then portYIELD k else k) }"
  proof -
    define pre where "pre = (
      let k1 = k1\<lparr>uxCurrentNumberOfTasks := uxCurrentNumberOfTasks k1 + 1\<rparr>;
          k1 = (if prio k1 r \<le> prio k1 n then k1\<lparr>pxCurrentTCB := Some n\<rparr> else k1);
          k1 = k1\<lparr>uxTaskNumber := uxTaskNumber k1 + 1\<rparr>
      in set_tcb n (\<lambda>c. c\<lparr>uxTCBNumber := uxTaskNumber k1\<rparr>) k1)"
    have "pxCurrentTCB k1 = Some r" "\<not> xSchedulerRunning k1" using r nr by (simp_all add: k1_def)
    then have "prvAddNewTaskToReadyList n k1 = do {
      k \<leftarrow> prvAddTaskToReadyList n pre;
      c \<leftarrow> pxCurrentTCB k;
      Some (if xSchedulerRunning k \<and> prio k c < prio k n then portYIELD k else k) }"
      by (simp add: prvAddNewTaskToReadyList_def Let_def pre_def)
    moreover have "pre = k2"
      using r 1(2) by (intro kernel.equality) (simp_all add: pre_def Let_def k1_def k2_def set_tcb_def prio_def c'_def b'_def)
    ultimately show ?thesis by simp
  qed
  have pr: "prio k2 t = (if t = n then ?q else prio k t)" for t
    by (simp add: k2_def prio_def b'_def 1(2))
  have f: "StateItem n \<notin> set (elems (lists k) l)" for l by (rule fresh_task(3) [OF c order_refl])
  have top: "prio k t \<le> prio k r" if "t < n" for t
    using m that r(1) by (auto simp: made_def top_running_def)
  have "kinds {..<Suc n} (lists k2)"
  proof -
    have "kinds {..<Suc n} (lists k)"
      using C(2) unfolding kinds_def by (metis lessThan_iff less_SucI)
    then show ?thesis by (simp add: kinds_def k2_def)
  qed
  moreover have "placed {..<Suc n} {n} (lists k2)"
    using C(3) fresh_task(1) [OF c order_refl] by (auto simp: placed_def k2_def less_Suc_eq) (metis lessThan_iff option.distinct(1))
  moreover have "ready_at (prio k2) (lists k2)"
    using C(4) f by (auto simp: ready_at_def pr) (auto simp: k2_def)
  moreover have "prio k2 t < 6" if "t < Suc n" for t
    using C(7) [of t] clamp_less that by (auto simp: pr less_Suc_eq)
  moreover have "lists_ok (lists k2)" using C(1) list_set_value_ok by (simp add: k2_def)
  moreover have "not_waiting {} (lists k2)" using C(5) by (simp add: k2_def not_waiting_def)
  moreover have "bitmap (uxTopReadyPriority k2) (lists k2)" using C(6) by (simp add: k2_def bitmap_def)
  moreover have "\<exists>c\<in>{..<Suc n}. pxCurrentTCB k2 = Some c" using r by (auto simp: k2_def c'_def)
  ultimately have "core {..<Suc n} {n} {} k2" unfolding core_def by blast
  moreover have "prio k2 t \<le> prio k2 c'" if "t < Suc n" for t
    using that top [of t] r(2) by (auto simp: pr c'_def less_Suc_eq intro: order_trans)
  moreover have "uxCurrentNumberOfTasks k2 = of_nat (Suc n)" using m by (simp add: made_def k2_def)
  moreover have "uxBasePriority (tcbs k2 t) < 6" if "t < Suc n" for t
    using m that clamp_less by (auto simp: made_def k2_def b'_def 1(3) less_Suc_eq)
  moreover have "is_ready t k2" if "t < n" for t
    using m that by (simp add: made_def k2_def is_ready_def container_of_def)
  ultimately have "making n c' k2" using m unfolding making_def by (simp add: made_def k2_def)
  from making_made [OF this] obtain k' where
    2: "prvAddTaskToReadyList n k2 = Some k'" "made (Suc n) k'" "pxCurrentTCB k' = Some c'" by blast
  have "\<not> xSchedulerRunning k'" using 2(2) by (simp add: made_def)
  then show ?thesis using 1(1) un 2 by (simp add: k1_def)
qed

text \<open>The first task: the lists are initialised on the way.\<close>

lemma add_first_made:
  "\<exists>k'. prvAddNewTaskToReadyList 0 (prvInitialiseNewTask p 0 reset_kernel) = Some k' \<and> made 1 k'"
proof -
  let ?q = "clamp_priority p" and ?k = reset_kernel
  from initialise_task [of ?k 0 p] obtain b v where
    1: "prvInitialiseNewTask p 0 ?k = ?k\<lparr>tcbs := (tcbs ?k)(0 := b), lists := list_set_value (EventItem 0) v (lists ?k)\<rparr>"
      "uxPriority b = ?q" "uxBasePriority b = ?q" by (auto simp: reset_kernel_def)
  define k1 where "k1 = ?k\<lparr>tcbs := (tcbs ?k)(0 := b), lists := list_set_value (EventItem 0) v (lists ?k)\<rparr>"
  define b' where "b' = b\<lparr>uxTCBNumber := 1\<rparr>"
  define k2 where "k2 = k1\<lparr>uxCurrentNumberOfTasks := 1, pxCurrentTCB := Some 0, uxTaskNumber := 1,
     tcbs := (tcbs ?k)(0 := b')\<rparr>"
  have init: "prvInitialiseTaskLists (k1\<lparr>uxCurrentNumberOfTasks := 1, pxCurrentTCB := Some 0\<rparr>) =
      k1\<lparr>uxCurrentNumberOfTasks := 1, pxCurrentTCB := Some 0\<rparr>"
  proof -
    have one: "list_initialise l a = a" if "elems a = (\<lambda>_. [])" "list_index a = (\<lambda>_. None)" for l a
      by (rule lists.equality) (simp_all add: list_initialise_def that fun_eq_iff)
    have many: "fold list_initialise ls a = a" if "elems a = (\<lambda>_. [])" "list_index a = (\<lambda>_. None)" for ls a
      by (induction ls) (simp_all add: one [OF that])
    show ?thesis by (simp add: prvInitialiseTaskLists_def Let_def k1_def reset_kernel_def one many)
  qed
  have un: "prvAddNewTaskToReadyList 0 k1 = do {
      k \<leftarrow> prvAddTaskToReadyList 0 k2;
      c \<leftarrow> pxCurrentTCB k;
      Some (if xSchedulerRunning k \<and> prio k c < prio k 0 then portYIELD k else k) }"
  proof -
    have "pxCurrentTCB k1 = None" "uxCurrentNumberOfTasks k1 = 0" "uxTaskNumber k1 = 0"
      "tcbs k1 = (tcbs ?k)(0 := b)" by (simp_all add: k1_def reset_kernel_def)
    then show ?thesis
      by (simp add: prvAddNewTaskToReadyList_def Let_def init k2_def set_tcb_def b'_def)
  qed
  have "making 0 0 k2"
    by (simp add: making_def core_def k2_def k1_def reset_kernel_def lists_ok_def list_set_value_def kinds_def
        placed_def ready_at_def not_waiting_def bitmap_def prio_def b'_def 1(2,3) clamp_less)
  from making_made [OF this] obtain k' where
    2: "prvAddTaskToReadyList 0 k2 = Some k'" "made 1 k'" "pxCurrentTCB k' = Some 0" by auto
  have "\<not> xSchedulerRunning k'" using 2(2) by (simp add: made_def)
  then show ?thesis using 1(1) un 2 by (simp add: k1_def)
qed

lemma create_one:
  assumes "n = 0 \<and> k = reset_kernel \<or> 0 < n \<and> made n k"
  shows "\<exists>k'. xTaskCreate (Some n) p k = Some (True, k') \<and> made (Suc n) k'"
  using assms add_first_made [of p] add_new_made [of n k p] by (auto simp: xTaskCreate_def)

lemma create_tasks_made:
  assumes "n = 0 \<and> k = reset_kernel \<or> 0 < n \<and> made n k"
  shows "\<exists>k'. create_tasks n ps k = Some k' \<and>
    (n + length ps = 0 \<and> k' = reset_kernel \<or> 0 < n + length ps \<and> made (n + length ps) k')"
  using assms
proof (induction ps arbitrary: n k)
  case Nil
  then show ?case by auto
next
  case (Cons p ps)
  from create_one [OF Cons.prems, of p] obtain k1 where
    1: "xTaskCreate (Some n) p k = Some (True, k1)" "made (Suc n) k1" by blast
  from Cons.IH [of "Suc n" k1] 1 show ?case by auto
qed

lemma boot_ok:
  assumes "length ps + 1 < 2 ^ 32"
  shows "\<exists>k. boot ps = Some k \<and> run_ok {..length ps} (length ps) k \<and> uxSchedulerSuspended k = 0 \<and>
    xTickCount k = 0"
proof -
  let ?n = "length ps"
  from create_tasks_made [of 0 reset_kernel ps] obtain k1 where
    1: "create_tasks 0 ps reset_kernel = Some k1" "?n = 0 \<and> k1 = reset_kernel \<or> 0 < ?n \<and> made ?n k1" by auto
  from create_one [OF 1(2), of tskIDLE_PRIORITY] obtain k2 where
    2: "xTaskCreate (Some ?n) tskIDLE_PRIORITY k1 = Some (True, k2)" "made (Suc ?n) k2" by blast
  let ?k = "start_scheduler k2"
  have N: "{..?n} = {..<Suc ?n}" by (simp add: lessThan_Suc_atMost)
  from 2(2) have c: "core {..<Suc ?n} {} {} k2" by (simp add: made_def)
  then have "core {..?n} {} {} ?k"
    unfolding N by (simp add: core_def start_scheduler_def prio_def [abs_def])
  moreover have "on_time ?k"
    using 2(2) by (simp add: on_time_def timed_def start_scheduler_def made_def by_value_def)
  moreover have "is_ready q ?k = is_ready q k2" for q by (simp add: is_ready_def container_of_def start_scheduler_def)
  moreover have "of_nat (Suc ?n) \<noteq> (0 :: u32)"
    using unat_u32_of_nat [of "Suc ?n"] assms by (metis Suc_eq_plus1 nat.distinct(1) unat_0)
  moreover have "no_pending ?k"
    using 2(2) coreD(1) [OF c]
    by (simp add: no_pending_def container_of_def start_scheduler_def made_def lists_ok_container)
  ultimately have "run_ok {..?n} ?n ?k"
    using 2(2) unfolding run_inv_def run_weak_def
    by (simp add: sched_ok_def made_def start_scheduler_def top_running_def word_gt_0 prio_def)
  moreover have "boot ps = Some ?k" by (simp add: boot_def 1(1) vTaskStartScheduler_def 2(1))
  ultimately show ?thesis using 2(2) by (simp add: start_scheduler_def made_def)
qed

lemma late_run_inv:
  assumes "reach_late ps late k" "length ps + 1 < 2 ^ 32"
  shows "run_inv late {..length ps} (length ps) k"
  using assms
proof induction
  case (late_boot k)
  then show ?case using boot_ok [of ps] by auto
next
  case (late_call late k c k')
  from late_call.IH [OF late_call.prems] have "run_inv late {..length ps} (length ps) k" .
  from run_ok_step [OF this late_call.hyps(2)] late_call.hyps(3) show ?case by auto
qed

lemma reach_run_inv:
  assumes "reach ps k" "length ps + 1 < 2 ^ 32"
  obtains late where "run_inv late {..length ps} (length ps) k"
proof -
  from assms(1) obtain late where "reach_late ps late k" unfolding reach_iff_late ..
  from that [OF late_run_inv [OF this assms(2)]] show thesis .
qed

lemma reach_run_weak:
  assumes "reach ps k" "length ps + 1 < 2 ^ 32"
  shows "run_weak {..length ps} (length ps) k"
proof -
  obtain late where "run_inv late {..length ps} (length ps) k" by (rule reach_run_inv [OF assms])
  then show ?thesis by (rule run_okD(1))
qed

end
