(* ===== verification/Kernel_Props.thy ===== *)
theory Kernel_Props
  imports Kernel_Boot
begin

text \<open>
  What the scheduler guarantees in every state it can reach from its start, and where it goes wrong.
  The lemmas of the operations are in \<open>Kernel_Sched\<close> to \<open>Kernel_Boot\<close>; here each property is stated for
  the reachable states.
\<close>

section \<open>Reachable states\<close>

lemma reach_sched_ok:
  assumes "reach ps k" "length ps + 1 < 2 ^ 32"
  shows "sched_ok {..length ps} k"
  using run_weakD(1) [OF reach_run_weak [OF assms]] .

lemma reach_quiet:
  assumes "reach ps k" "length ps + 1 < 2 ^ 32" "uxSchedulerSuspended k = 0"
  shows "quiet k"
proof -
  note R = run_weakD [OF reach_run_weak [OF assms(1,2)]]
  from R(1) have c: "core {..length ps} {} {} k" by (simp add: sched_ok_def)
  have "items PendingReadyList k = []"
  proof (cases "elems (lists k) PendingReadyList")
    case (Cons i xs)
    with event_kind [OF c, of i PendingReadyList] obtain t where "i = EventItem t" by auto
    with Cons coreD(1) [OF c] R(6) [OF assms(3)] show ?thesis
      by (auto simp: no_pending_def container_of_def lists_ok_container)
  qed (simp add: items_def)
  with R(4) R(6) [OF assms(3)] assms(3) show ?thesis by (simp add: quiet_def)
qed

lemma late_boot_example: "\<exists>k. reach_late [3, 2] False k \<and> reach [3, 2] k \<and> uxSchedulerSuspended k = 0 \<and> xTickCount k = 0 \<and>
    pxCurrentTCB k = Some 0 \<and> is_ready 0 k \<and> is_ready 1 k \<and> \<not> pendsv k \<and> \<not> xYieldPending k \<and> prio k 1 = 2 \<and> prio k 0 = 3"
proof -
  from boot_ok [of "[3, 2]"] obtain k where
    1: "boot [3, 2] = Some k" "uxSchedulerSuspended k = 0" "xTickCount k = 0" by auto
  have "map_option (\<lambda>k. (pendsv k, xYieldPending k, pxCurrentTCB k, container_of (StateItem 0) k,
      container_of (StateItem 1) k, prio k 0, prio k 1)) (boot [3, 2]) =
    Some (False, False, Some 0, Some (Ready 3), Some (Ready 2), 3, 2)" by code_simp
  with 1 have "\<not> pendsv k" "\<not> xYieldPending k" "pxCurrentTCB k = Some 0" "is_ready 0 k" "is_ready 1 k"
    "prio k 0 = 3" "prio k 1 = 2" by (auto simp: is_ready_def)
  with 1 reach_boot late_boot show ?thesis by blast
qed

lemma reach_boot_example: "\<exists>k. reach [3, 2] k \<and> uxSchedulerSuspended k = 0 \<and> xTickCount k = 0 \<and>
    pxCurrentTCB k = Some 0 \<and> is_ready 0 k \<and> is_ready 1 k \<and> \<not> pendsv k \<and> \<not> xYieldPending k \<and> prio k 1 = 2 \<and> prio k 0 = 3"
  using late_boot_example by blast

text \<open>
  Claim C2.  The sixteen kinds of call that \<open>call\<close> lists (the tick, the context switch, yields, suspending and
  resuming the scheduler, delays, waits for events and their signals, suspending and resuming tasks,
  priorities, and what the queues do for mutexes), in any order that their callers keep to, succeed: no list
  is corrupted, no null pointer and no array element out of bounds is read, and the loops of the tick and of
  \<open>xTaskResumeAll\<close> end; the invariant of the scheduler holds after each.  Notifications, the deletion of tasks
  and their creation at run time are not among the calls; a notification can corrupt a list
  (\<open>kernel_notify_after_resume_corrupts\<close>).
\<close>

theorem kernel_calls_safe:
  assumes "reach_late ps late k" "length ps + 1 < 2 ^ 32" "enabled {..length ps} (length ps) c k"
  shows "\<exists>k'. kstep c k = Some k' \<and> run_inv (late_after c k late) {..length ps} (length ps) k'"
  by (rule run_ok_step [OF late_run_inv [OF assms(1,2)] assms(3)])

theorem kernel_calls_safe_witness:
  "\<exists>k k'. reach_late [3, 2] False k \<and> kstep (Suspend 0) k = Some k' \<and> run_ok {..length [3, 2 :: u32]} (length [3, 2 :: u32]) k'"
proof -
  from late_boot_example obtain k where k: "reach_late [3, 2] False k" "uxSchedulerSuspended k = 0" by blast
  have "enabled {..length [3, 2 :: u32]} (length [3, 2 :: u32]) (Suspend 0) k" using k(2) by simp
  from kernel_calls_safe [OF k(1) _ this] k(1) show ?thesis by auto
qed

text \<open>
  Claim C3.  The running task has the highest priority of all ready tasks, unless a switch is already due (the
  \<open>PendSV\<close> bit is set, or the yield waits for the scheduler to be resumed), or a mutex has been given back since
  the last switch and the queue dropped the yield for the priority it lowered.  The last case is real:
  \<open>mutex_give_drops_switch\<close>.
\<close>

theorem kernel_highest_runs:
  assumes "reach_late ps False k" "length ps + 1 < 2 ^ 32" "\<not> pendsv k" "\<not> xYieldPending k"
    and "pxCurrentTCB k = Some c" "is_ready q k"
  shows "prio k q \<le> prio k c"
  using run_okD(5) [OF late_run_inv [OF assms(1,2)] _ assms(3,4)] assms(5,6)
  by (simp add: top_running_def)

theorem kernel_highest_runs_witness:
  "\<exists>k. reach_late [3, 2] False k \<and> pxCurrentTCB k = Some 0 \<and> prio k 1 \<le> prio k 0"
proof -
  from late_boot_example obtain k where k: "reach_late [3, 2] False k" "\<not> pendsv k" "\<not> xYieldPending k"
    "pxCurrentTCB k = Some 0" "is_ready 1 k" by blast
  with kernel_highest_runs [OF k(1) _ k(2-5)] show ?thesis by auto
qed

text \<open>
  A context switch outside a suspension of the scheduler succeeds, and the task it chooses is ready
  and of the highest priority of all ready tasks; no task changes its state.
\<close>

theorem kernel_switch_picks_highest:
  assumes "reach ps k" "length ps + 1 < 2 ^ 32" "uxSchedulerSuspended k = 0"
  shows "\<exists>k' t. xPortPendSVHandler k = Some k' \<and> pxCurrentTCB k' = Some t \<and> is_ready t k' \<and>
    (\<forall>q. is_ready q k' \<longrightarrow> prio k' q \<le> prio k' t) \<and> (\<forall>i. container_of i k' = container_of i k)"
proof -
  obtain late where "run_inv late {..length ps} (length ps) k" by (rule reach_run_inv [OF assms(1,2)])
  from switch_step [OF this] assms(3) obtain k' t where
    1: "xPortPendSVHandler k = Some k'" "pxCurrentTCB k' = Some t" "is_ready t k'" "top_running k'" by blast
  have "container_of i k' = container_of i k" for i
    using switch_frame(6) [of "k\<lparr>pendsv := False\<rparr>" k' i] 1(1) assms(3) by (simp add: xPortPendSVHandler_def)
  with 1 show ?thesis by (auto simp: top_running_def)
qed

theorem kernel_switch_picks_highest_witness: "\<exists>k k'. reach [3, 2] k \<and> xPortPendSVHandler k = Some k'"
proof -
  from reach_boot_example obtain k where k: "reach [3, 2] k" "uxSchedulerSuspended k = 0" by blast
  with kernel_switch_picks_highest [OF k(1) _ k(2)] show ?thesis by auto
qed

text \<open>
  The lists agree with each other in every reachable state: each task is in exactly one list of its
  state, the bitmap has the bits of the ready lists that are not empty, a ready task is in the list
  of its priority, a ready task waits for no event, and the delayed list is sorted by wake-up
  times that are all still to come.
\<close>

theorem kernel_lists_consistent:
  assumes "reach ps k" "length ps + 1 < 2 ^ 32"
  shows "(\<forall>t \<le> length ps. \<exists>!l. StateItem t \<in> set (items l k)) \<and>
    (\<forall>n. bit (uxTopReadyPriority k) n \<longleftrightarrow> n < 6 \<and> items (Ready n) k \<noteq> []) \<and>
    (\<forall>t p. StateItem t \<in> set (items (Ready p) k) \<longrightarrow>
       p = unat (prio k t) \<and> (\<forall>l. EventItem t \<notin> set (items l k))) \<and>
    sorted (map (\<lambda>i. value_of i k) (items (pxDelayedTaskList k) k)) \<and>
    (\<forall>i \<in> set (items (pxDelayedTaskList k) k).
       xTickCount k < value_of i k \<and> xNextTaskUnblockTime k \<le> value_of i k)"
proof -
  from reach_sched_ok [OF assms] have c: "core {..length ps} {} {} k" and ot: "on_time k"
    by (simp_all add: sched_ok_def)
  note C = coreD [OF c]
  have ex: "\<exists>!l. StateItem t \<in> set (items l k)" if "t \<le> length ps" for t
  proof -
    from C(3) that obtain l where "container (lists k) (StateItem t) = Some l" by (auto simp: placed_def)
    then have "StateItem t \<in> set (elems (lists k) m) \<longleftrightarrow> m = l" for m
      using C(1) by (metis lists_ok_container option.inject)
    then show ?thesis by (auto simp: items_def)
  qed
  have "EventItem t \<notin> set (elems (lists k) l)" if "StateItem t \<in> set (elems (lists k) (Ready p))" for t p l
    using C(5) that lists_ok_unlisted [OF C(1), of "EventItem t" l] by (auto simp: not_waiting_def)
  with C(4,6) ex ot show ?thesis
    by (auto simp: items_def value_of_def ready_at_def bitmap_def on_time_def timed_def by_value_def
        sorted_wrt_map)
qed

theorem kernel_lists_consistent_witness: "\<exists>k. reach [3, 2] k \<and> (\<exists>!l. StateItem 1 \<in> set (items l k))"
proof -
  from reach_boot_example obtain k where k: "reach [3, 2] k" by blast
  have "(1 :: nat) \<le> length [3, 2 :: u32]" by simp
  moreover have "length [3, 2 :: u32] + 1 < 2 ^ 32" by simp
  ultimately have "\<exists>!l. StateItem 1 \<in> set (items l k)"
    using conjunct1 [OF kernel_lists_consistent [OF k]] by blast
  with k show ?thesis by blast
qed

section \<open>Time\<close>

text \<open>
  A tick wakes exactly the tasks whose time has come, across the overflow of the tick count as well:
  each of them is ready afterwards and waits for no event any more, and every other task is where
  it was.
\<close>

theorem kernel_tick_wakes:
  assumes "reach ps k" "length ps + 1 < 2 ^ 32" "uxSchedulerSuspended k = 0"
  shows "\<exists>sw k'. xTaskIncrementTick k = Some (sw, k') \<and> xTickCount k' = xTickCount k + 1 \<and>
    (\<forall>t. if waiting t k \<and> wake_time t k = xTickCount k + 1
         then is_ready t k' \<and> container_of (EventItem t) k' = None
         else container_of (StateItem t) k' = container_of (StateItem t) k \<and>
              container_of (EventItem t) k' = container_of (EventItem t) k)"
  using tick_wakes_exactly [OF reach_sched_ok [OF assms(1,2)] assms(3)] by blast

theorem kernel_tick_wakes_witness: "\<exists>k sw k'. reach [3, 2] k \<and> xTaskIncrementTick k = Some (sw, k')"
proof -
  from reach_boot_example obtain k where k: "reach [3, 2] k" "uxSchedulerSuspended k = 0" by blast
  with kernel_tick_wakes [OF k(1) _ k(2)] show ?thesis by auto
qed

text \<open>
  Claim C5.  A task that calls \<open>vTaskDelay\<close> for \<open>n\<close> ticks is ready again after \<open>m\<close> ticks exactly when \<open>n \<le> m\<close>, for
  every \<open>n\<close> the type allows and wherever the tick count stands.
\<close>

theorem kernel_delay_exact:
  assumes "reach ps k" "length ps + 1 < 2 ^ 32" "uxSchedulerSuspended k = 0"
    and "pxCurrentTCB k = Some t" "is_ready t k" "0 < n" "n < 2 ^ 32" "m < 2 ^ 32"
  shows "\<exists>k1 k2. vTaskDelay (of_nat n) k = Some k1 \<and> pendsv k1 \<and> ticks m k1 = Some k2 \<and>
    xTickCount k2 = xTickCount k + of_nat m \<and> (is_ready t k2 \<longleftrightarrow> n \<le> m)"
  using delay_ready [OF reach_sched_ok [OF assms(1,2)] reach_quiet [OF assms(1-3)] assms(4-8)] by blast

theorem kernel_delay_exact_witness:
  "\<exists>k k1 k2. reach [3, 2] k \<and> vTaskDelay 5 k = Some k1 \<and> ticks 5 k1 = Some k2 \<and> is_ready 0 k2"
proof -
  from reach_boot_example obtain k where
    k: "reach [3, 2] k" "uxSchedulerSuspended k = 0" "pxCurrentTCB k = Some 0" "is_ready 0 k" by blast
  have "length [3, 2 :: u32] + 1 < 2 ^ 32" by simp
  from kernel_delay_exact [OF k(1) this k(2-4), of 5 5] show ?thesis using k(1) by auto
qed

text \<open>The decision of \<open>vTaskDelayUntil\<close>, against the time that has passed since the last wake-up.\<close>

lemma delay_until_iff:
  fixes prev incr :: u32
  assumes "d < 2 ^ 32"
  shows "delay_until prev incr (prev + of_nat d) = (d < unat incr, prev + incr)"
proof -
  have d: "unat (of_nat d :: u32) = d" using assms by (rule unat_u32_of_nat)
  have now: "unat (prev + of_nat d) = (unat prev + d) mod 2 ^ 32" by (simp add: unat_word_ariths d)
  have wake: "unat (prev + incr) = (unat prev + unat incr) mod 2 ^ 32" by (simp add: unat_word_ariths)
  have p: "unat prev < 2 ^ 32" "unat incr < 2 ^ 32"
    by (rule order_less_le_trans [OF unsigned_less], simp)+
  have m: "x mod 2 ^ 32 = (if x < 2 ^ 32 then x else x - 2 ^ 32)" if "x < 2 * 2 ^ 32" for x :: nat
    using that by (simp add: le_mod_geq)
  have n: "unat (prev + of_nat d) = (if unat prev + d < 2 ^ 32 then unat prev + d else unat prev + d - 2 ^ 32)"
    unfolding now by (rule m) (use p assms in simp)
  have w: "unat (prev + incr) = (if unat prev + unat incr < 2 ^ 32 then unat prev + unat incr
      else unat prev + unat incr - 2 ^ 32)"
    unfolding wake by (rule m) (use p in simp)
  show ?thesis
    unfolding delay_until_def Let_def word_less_nat_alt n w using p assms by auto
qed

text \<open>
  Claim C28.  \<open>vTaskDelayUntil\<close> keeps its period: called \<open>d\<close> ticks after the last wake-up time, it makes the task
  wait until exactly one period after that time if that is still to come, and lets it go on
  otherwise, whatever overflows in between.
\<close>

theorem kernel_delay_until_periodic:
  assumes "reach ps k" "length ps + 1 < 2 ^ 32" "uxSchedulerSuspended k = 0"
    and "pxCurrentTCB k = Some t" "is_ready t k" "xTickCount k = prev + of_nat d" "d < 2 ^ 32"
  shows "\<exists>k'. vTaskDelayUntil prev incr k = Some (prev + incr, k') \<and> pendsv k' \<and>
    (if d < unat incr then waiting t k' \<and> wake_time t k' = prev + incr else is_ready t k')"
proof -
  note s = reach_sched_ok [OF assms(1,2)] and q = reach_quiet [OF assms(1-3)]
  let ?k = "vTaskSuspendAll k"
  have du: "delay_until prev incr (xTickCount ?k) = (d < unat incr, prev + incr)"
    using delay_until_iff [OF assms(7)] assms(6) by (simp add: vTaskSuspendAll_def)
  show ?thesis
  proof (cases "d < unat incr")
    case True
    let ?n = "prev + incr - xTickCount k"
    have "?n \<noteq> 0"
    proof
      assume "?n = 0"
      then have "incr = of_nat d" using assms(6) by simp
      then have "unat incr = d" using unat_u32_of_nat [OF assms(7)] by simp
      with True show False by simp
    qed
    from block_resume [OF s q assms(4,5) this] obtain k1 y k2 where
      1: "prvAddCurrentTaskToDelayedList ?n False ?k = Some k1" "xTaskResumeAll k1 = Some (y, k2)"
        "y \<longrightarrow> pendsv k2" "waiting t k2" "wake_time t k2 = xTickCount k + ?n" by blast
    let ?k2 = "if y then k2 else portYIELD k2"
    have tc: "xTickCount ?k = xTickCount k" by (simp add: vTaskSuspendAll_def)
    have "vTaskDelayUntil prev incr k = Some (prev + incr, ?k2)"
      unfolding vTaskDelayUntil_def using True 1(1,2) du by (simp add: Let_def tc)
    moreover have "pendsv ?k2" "waiting t ?k2" "wake_time t ?k2 = prev + incr"
      using 1(3-5) by (simp_all add: portYIELD_def)
    ultimately show ?thesis using True by auto
  next
    case False
    have u: "uxSchedulerSuspended ?k = 1" "uxPendedTicks ?k = 0" "uxCurrentNumberOfTasks ?k > 0"
      "items PendingReadyList ?k = []"
      using q by (simp_all add: quiet_def vTaskSuspendAll_def items_def)
    let ?k1 = "?k\<lparr>uxSchedulerSuspended := 0\<rparr>"
    have r: "is_ready t ?k1" using assms(5) by (simp add: vTaskSuspendAll_def)
    have "vTaskDelayUntil prev incr k = Some (prev + incr, portYIELD ?k1)"
      unfolding vTaskDelayUntil_def
      using False du resume_all_quiet [OF u(1,4,2,3)] by (simp add: Let_def)
    then show ?thesis using False r by (simp add: portYIELD_def)
  qed
qed

theorem kernel_delay_until_periodic_witness:
  "\<exists>k k'. reach [3, 2] k \<and> vTaskDelayUntil 0 100 k = Some (100, k') \<and> waiting 0 k' \<and> wake_time 0 k' = 100"
proof -
  from reach_boot_example obtain k where
    k: "reach [3, 2] k" "uxSchedulerSuspended k = 0" "pxCurrentTCB k = Some 0" "is_ready 0 k"
      "xTickCount k = 0" by blast
  have l: "length [3, 2 :: u32] + 1 < 2 ^ 32" by simp
  have t: "xTickCount k = 0 + of_nat 0" using k(5) by simp
  from kernel_delay_until_periodic [OF k(1) l k(2-4) t, of 100] k(1) show ?thesis by auto
qed




section \<open>Suspending the scheduler\<close>

text \<open>
  Claim C6.  What happened while the scheduler was suspended is made good when it is resumed: every tick that
  was held back is counted, every task that an interrupt woke is ready, nothing is left pending, a switch that
  is wanted is asked for, and unless a switch is due the running task has the highest priority of all ready
  tasks, if that of no task was lowered with its yield dropped since the last switch.
\<close>

theorem kernel_resume_all_complete:
  assumes "reach_late ps late k" "length ps + 1 < 2 ^ 32" "uxSchedulerSuspended k = 1"
  shows "\<exists>y k'. xTaskResumeAll k = Some (y, k') \<and> uxSchedulerSuspended k' = 0 \<and>
    xTickCount k' = xTickCount k + uxPendedTicks k \<and> uxPendedTicks k' = 0 \<and>
    (\<forall>t. container_of (EventItem t) k = Some PendingReadyList \<longrightarrow> is_ready t k') \<and>
    (\<forall>t. container_of (EventItem t) k' \<noteq> Some PendingReadyList) \<and>
    (xYieldPending k \<longrightarrow> y) \<and> (y \<longrightarrow> pendsv k') \<and>
    (\<not> late \<longrightarrow> \<not> pendsv k' \<longrightarrow>
       (\<forall>c q. pxCurrentTCB k' = Some c \<longrightarrow> is_ready q k' \<longrightarrow> prio k' q \<le> prio k' c))"
proof -
  note r = late_run_inv [OF assms(1,2)]
  note R = run_weakD [OF run_okD(1) [OF r]]
  from resume_all_ok [OF R(1) assms(3) R(4)] obtain y k' where
    1: "xTaskResumeAll k = Some (y, k')" "uxSchedulerSuspended k' = 0" "uxPendedTicks k' = 0"
      "\<forall>t. container_of (EventItem t) k' \<noteq> Some PendingReadyList"
      "xTickCount k' = xTickCount k + uxPendedTicks k"
      "\<forall>t. container_of (EventItem t) k = Some PendingReadyList \<longrightarrow> is_ready t k'"
      "y = xYieldPending k'" "pendsv k' = (pendsv k \<or> y)"
      "woke_flag k (k'\<lparr>uxSchedulerSuspended := 1, uxPendedTicks := uxPendedTicks k, pendsv := pendsv k\<rparr>)" by blast
  have y: "xYieldPending k \<longrightarrow> y" using woke_flagD(9) [OF 1(9)] 1(7) by simp
  have "run_inv late {..length ps} (length ps) k'" using resume_all_step [OF r] assms(3) 1(1) by auto
  then have "top_running k'" if "\<not> late" "\<not> pendsv k'" using that 1(7,8) run_okD(5) by blast
  with 1 y show ?thesis by (auto simp: top_running_def)
qed

theorem kernel_resume_all_complete_witness:
  "\<exists>k y k'. reach_late [3, 2] False k \<and> uxPendedTicks k = 1 \<and> xTickCount k = 0 \<and>
    xTaskResumeAll k = Some (y, k') \<and> xTickCount k' = 1"
proof -
  from late_boot_example obtain k where k: "reach_late [3, 2] False k" "reach [3, 2] k"
    "uxSchedulerSuspended k = 0" "xTickCount k = 0" "\<not> xYieldPending k" by blast
  have l: "length [3, 2 :: u32] + 1 < 2 ^ 32" by simp
  define k1 where "k1 = vTaskSuspendAll k"
  define k2 where "k2 = k1\<lparr>uxPendedTicks := uxPendedTicks k1 + 1\<rparr>"
  have 1: "reach_late [3, 2] False k1"
    using late_call [OF k(1), of SuspendAll k1] k(3) by (simp add: k1_def)
  have p: "uxPendedTicks k = 0" using reach_quiet [OF k(2) l k(3)] by (simp add: quiet_def)
  have "xPortSysTickHandler k1 = Some k2"
    using k(3,5) by (simp add: xPortSysTickHandler_def xTaskIncrementTick_def k1_def k2_def vTaskSuspendAll_def)
  then have 2: "reach_late [3, 2] False k2" using late_call [OF 1, of Tick k2] by simp
  have u: "uxSchedulerSuspended k2 = 1" "uxPendedTicks k2 = 1" "xTickCount k2 = 0"
    using k(3,4) p by (simp_all add: k2_def k1_def vTaskSuspendAll_def)
  from kernel_resume_all_complete [OF 2 l u(1)] obtain y k' where
    "xTaskResumeAll k2 = Some (y, k')" "xTickCount k' = xTickCount k2 + uxPendedTicks k2" by blast
  with 2 u show ?thesis by auto
qed

section \<open>Priority inheritance\<close>

text \<open>
  A task that must wait for a mutex lends its priority to the holder: the holder has the higher of the
  two priorities afterwards, and when it is ready it is in the ready list of that priority.
  Its base priority and all other tasks stay as they are.
\<close>

theorem kernel_priority_inherit:
  assumes "reach ps k" "length ps + 1 < 2 ^ 32" "t \<le> length ps" "pxCurrentTCB k = Some c"
  shows "\<exists>k'. vTaskPriorityInherit (Some t) k = Some k' \<and> prio k' t = max (prio k t) (prio k c) \<and>
    uxBasePriority (tcbs k' t) = uxBasePriority (tcbs k t) \<and>
    (\<forall>q. is_ready q k' \<longleftrightarrow> is_ready q k) \<and> (\<forall>q. q \<noteq> t \<longrightarrow> tcbs k' q = tcbs k q) \<and>
    (is_ready t k' \<longrightarrow> StateItem t \<in> set (items (Ready (unat (prio k' t))) k'))"
proof -
  from inherit_ok [OF reach_sched_ok [OF assms(1,2)] _ assms(4), of t] assms(3) obtain k' where
    1: "vTaskPriorityInherit (Some t) k = Some k'" "sched_ok {..length ps} k'" "reprio t k k'"
      "tcbs k' t = (tcbs k t)\<lparr>uxPriority := max (prio k t) (prio k c)\<rparr>" by auto
  have "prio k' t = max (prio k t) (prio k c)" by (simp add: prio_def 1(4))
  moreover have "core {..length ps} {} {} k'" using 1(2) by (simp add: sched_ok_def)
  ultimately show ?thesis
    using 1 reprioD(8,10) [OF 1(3)] ready_in_list [of "{..length ps}" "{}" "{}" k' t]
    by (intro exI [of _ k']) (simp add: items_def)
qed

theorem kernel_priority_inherit_witness:
  "\<exists>k k'. reach [3, 2] k \<and> vTaskPriorityInherit (Some 1) k = Some k' \<and> prio k 1 = 2 \<and> prio k' 1 = 3"
proof -
  from reach_boot_example obtain k where
    k: "reach [3, 2] k" "pxCurrentTCB k = Some 0" "prio k 1 = 2" "prio k 0 = 3" by blast
  have l: "length [3, 2 :: u32] + 1 < 2 ^ 32" by simp
  from kernel_priority_inherit [OF k(1) l _ k(2), of 1] obtain k' where
    "vTaskPriorityInherit (Some 1) k = Some k'" "prio k' 1 = max (prio k 1) (prio k 0)" by auto
  moreover have "max (2 :: u32) 3 = 3" by simp
  ultimately show ?thesis using k by auto
qed

text \<open>
  Giving the last mutex back returns a task to its base priority and asks for a switch when that
  changes its priority; while it holds other mutexes it keeps the priority it inherited.
\<close>

theorem kernel_priority_disinherit:
  assumes "reach ps k" "length ps + 1 < 2 ^ 32" "pxCurrentTCB k = Some t" "is_ready t k"
  shows "\<exists>y k'. xTaskPriorityDisinherit (Some t) k = Some (y, k') \<and>
    prio k' t = (if uxMutexesHeld (tcbs k t) = 1 then uxBasePriority (tcbs k t) else prio k t) \<and>
    (y \<longleftrightarrow> prio k' t \<noteq> prio k t) \<and> (\<forall>q. is_ready q k' \<longleftrightarrow> is_ready q k) \<and>
    (\<forall>q. q \<noteq> t \<longrightarrow> tcbs k' q = tcbs k q)"
proof -
  note R = run_weakD [OF reach_run_weak [OF assms(1,2)]]
  have t: "t \<in> {..length ps}" using R(7) assms(3) by auto
  from disinherit_ok [OF R(1) t R(5) [OF t]] assms(4) obtain k' where
    1: "xTaskPriorityDisinherit (Some t) k =
        Some (prio k t \<noteq> uxBasePriority (tcbs k t) \<and> uxMutexesHeld (tcbs k t) = 1, k')" "reprio t k k'"
      "tcbs k' t = (tcbs k t)\<lparr>uxMutexesHeld := uxMutexesHeld (tcbs k t) - 1,
        uxPriority := if uxMutexesHeld (tcbs k t) = 1 then uxBasePriority (tcbs k t) else prio k t\<rparr>" by blast
  have "prio k' t = (if uxMutexesHeld (tcbs k t) = 1 then uxBasePriority (tcbs k t) else prio k t)"
    by (simp add: prio_def 1(3))
  with 1(1) reprioD(8,10) [OF 1(2)] show ?thesis by (intro exI conjI) auto
qed

theorem kernel_priority_disinherit_witness:
  "\<exists>k y k'. reach [3, 2] k \<and> uxMutexesHeld (tcbs k 0) = 1 \<and>
    xTaskPriorityDisinherit (Some 0) k = Some (y, k') \<and> prio k' 0 = uxBasePriority (tcbs k 0)"
proof -
  have "map_option (\<lambda>k. (pxCurrentTCB k, container_of (StateItem 0) k, uxMutexesHeld (tcbs k 0)))
      (do { k \<leftarrow> boot [3, 2]; kstep TakeMutex k }) = Some (Some 0, Some (Ready 3), 1)" by code_simp
  then obtain k0 k where k: "boot [3, 2] = Some k0" "kstep TakeMutex k0 = Some k" "pxCurrentTCB k = Some 0"
    "is_ready 0 k" "uxMutexesHeld (tcbs k 0) = 1"
    by (cases "boot [3, 2]") (auto simp: is_ready_def)
  have r: "reach [3, 2] k" by (rule reach_call [OF reach_boot [OF k(1)] _ k(2)]) simp
  have l: "length [3, 2 :: u32] + 1 < 2 ^ 32" by simp
  from kernel_priority_disinherit [OF r l k(3,4)] k(5) r show ?thesis by auto
qed

section \<open>Where it goes wrong\<close>

text \<open>
  A task that waits for a notification without a limit is in the suspended list and in no event
  list, so \<open>xTaskResumeFromISR\<close> takes it for a suspended one.  With the scheduler suspended its event
  item goes to the pending list; a notification from another interrupt inserts the same item there
  again, which corrupts the list.
\<close>

theorem kernel_notify_after_resume_corrupts:
  "do { k \<leftarrow> boot [2, 3]; k \<leftarrow> ulTaskNotifyTake_enter portMAX_DELAY k; k \<leftarrow> xPortPendSVHandler k;
     (y, k) \<leftarrow> xTaskResumeFromISR 1 (vTaskSuspendAll k);
     Some (container_of (EventItem 1) k, vTaskNotifyGiveFromISR 1 False k = None) } =
   Some (Some PendingReadyList, True)"
  by code_simp

text \<open>
  \<open>uxTaskGetSystemState\<close>, behind the command \<open>top\<close>, reports a task that waits for an event without a
  limit as suspended; \<open>eTaskGetState\<close> says that it is blocked.
\<close>

theorem kernel_blocked_shown_suspended:
  "do { k \<leftarrow> boot [3, 2]; k \<leftarrow> vTaskPlaceOnEventList (EventList 0) portMAX_DELAY (vTaskSuspendAll k);
     (y, k) \<leftarrow> xTaskResumeAll k; k \<leftarrow> xPortPendSVHandler (portYIELD k);
     (r, k) \<leftarrow> uxTaskGetSystemState 30 k;
     Some (map (\<lambda>s. (xHandle s, eCurrentState s)) r, eTaskGetState 0 k, eTaskGetState 1 k) } =
   Some ([(1, eReady), (2, eReady), (0, eSuspended)], eBlocked, eRunning)"
  by code_simp

end
