(* ===== verification/Kernel_Queue.thy ===== *)
theory Kernel_Queue
  imports Kernel_Tasks
begin

text \<open>
  Queues, semaphores and mutexes (\<open>FreeRTOS/queue.c\<close>), without queue sets, recursive mutexes, static
  allocation and co-routines, which the configuration leaves out.

  A queue is a record with the C structure's fields; its storage is the bytes from \<open>pcHead\<close> to \<open>pcTail\<close>,
  and the pointers into it are offsets from \<open>pcHead\<close>.  The C code reuses \<open>pcHead\<close> as the type and \<open>pcTail\<close>
  as the holder of a mutex, which has no storage; here these are the fields \<open>is_mutex\<close> and
  \<open>pxMutexHolder\<close>.  The two lists of waiting tasks are lists of the kernel.

  Each critical section and each part of a function that runs with the scheduler suspended is a
  definition; the functions that wait are their composition, one round of the loop at a time.
  \<open>None\<close> is undefined behaviour, here an access outside the storage or of the kernel's lists.
\<close>

section \<open>State\<close>

definition queueUNLOCKED :: u8 where [prog_defs]: "queueUNLOCKED = - 1"
definition queueLOCKED_UNMODIFIED :: u8 where [prog_defs]: "queueLOCKED_UNMODIFIED = 0"

datatype copy_position = queueSEND_TO_BACK | queueSEND_TO_FRONT | queueOVERWRITE

record queue =
  storage :: "u8 list"
  pcWriteTo :: int
  pcReadFrom :: int
  xTasksWaitingToSend :: klist
  xTasksWaitingToReceive :: klist
  uxMessagesWaiting :: u32
  uxLength :: u32
  uxItemSize :: u32
  cRxLock :: u8
  cTxLock :: u8
  is_mutex :: bool
  pxMutexHolder :: "nat option"

text \<open>\<open>memcpy\<close> into and out of the storage.\<close>

definition store_bytes :: "int \<Rightarrow> u8 list \<Rightarrow> u8 list \<Rightarrow> u8 list option" where
  "store_bytes p bs st =
     (if 0 \<le> p \<and> p + int (length bs) \<le> int (length st)
      then Some (take (nat p) st @ bs @ drop (nat p + length bs) st) else None)"

definition load_bytes :: "int \<Rightarrow> nat \<Rightarrow> u8 list \<Rightarrow> u8 list option" where
  "load_bytes p n st =
     (if 0 \<le> p \<and> p + int n \<le> int (length st) then Some (take n (drop (nat p) st)) else None)"

definition pcTail :: "queue \<Rightarrow> int" where
  "pcTail q = int (length (storage q))"

definition item_size :: "queue \<Rightarrow> int" where
  "item_size q = int (unat (uxItemSize q))"

section \<open>The storage\<close>

definition prvCopyDataToQueue ::
    "u8 list \<Rightarrow> copy_position \<Rightarrow> queue \<Rightarrow> kernel \<Rightarrow> (bool \<times> queue \<times> kernel) option" where
  "prvCopyDataToQueue x pos q k = do {
     let n = uxMessagesWaiting q;
     if uxItemSize q = 0 then
       (if is_mutex q then do {
          (y, k) \<leftarrow> xTaskPriorityDisinherit (pxMutexHolder q) k;
          Some (y, q\<lparr>pxMutexHolder := None, uxMessagesWaiting := n + 1\<rparr>, k)
        }
        else Some (False, q\<lparr>uxMessagesWaiting := n + 1\<rparr>, k))
     else if pos = queueSEND_TO_BACK then do {
       st \<leftarrow> store_bytes (pcWriteTo q) x (storage q);
       let w = pcWriteTo q + item_size q;
       let w = (if w \<ge> pcTail q then 0 else w);
       Some (False, q\<lparr>storage := st, pcWriteTo := w, uxMessagesWaiting := n + 1\<rparr>, k)
     }
     else do {
       st \<leftarrow> store_bytes (pcReadFrom q) x (storage q);
       let r = pcReadFrom q - item_size q;
       let r = (if r < 0 then pcTail q - item_size q else r);
       let n = (if pos = queueOVERWRITE \<and> n > 0 then n - 1 else n);
       Some (False, q\<lparr>storage := st, pcReadFrom := r, uxMessagesWaiting := n + 1\<rparr>, k)
     }
   }"

text \<open>The item is empty for a semaphore, whose receivers pass no buffer.\<close>

definition prvCopyDataFromQueue :: "queue \<Rightarrow> (u8 list \<times> queue) option" where
  "prvCopyDataFromQueue q =
     (if uxItemSize q \<noteq> 0 then do {
        let r = pcReadFrom q + item_size q;
        let r = (if r \<ge> pcTail q then 0 else r);
        x \<leftarrow> load_bytes r (unat (uxItemSize q)) (storage q);
        Some (x, q\<lparr>pcReadFrom := r\<rparr>)
      }
      else Some ([], q))"

definition prvIsQueueEmpty :: "queue \<Rightarrow> bool" where
  "prvIsQueueEmpty q \<longleftrightarrow> uxMessagesWaiting q = 0"

definition prvIsQueueFull :: "queue \<Rightarrow> bool" where
  "prvIsQueueFull q \<longleftrightarrow> uxMessagesWaiting q = uxLength q"

definition uxQueueMessagesWaiting :: "queue \<Rightarrow> u32" where
  "uxQueueMessagesWaiting q = uxMessagesWaiting q"

definition uxQueueSpacesAvailable :: "queue \<Rightarrow> u32" where
  "uxQueueSpacesAvailable q = uxLength q - uxMessagesWaiting q"

definition xQueueIsQueueEmptyFromISR :: "queue \<Rightarrow> bool" where
  "xQueueIsQueueEmptyFromISR q \<longleftrightarrow> uxMessagesWaiting q = 0"

definition xQueueIsQueueFullFromISR :: "queue \<Rightarrow> bool" where
  "xQueueIsQueueFullFromISR q \<longleftrightarrow> uxMessagesWaiting q = uxLength q"

section \<open>Waking a waiting task\<close>

text \<open>If a task waits in the list it is taken off; the flag says whether it should run now.\<close>

definition wake :: "klist \<Rightarrow> kernel \<Rightarrow> (bool \<times> kernel) option" where
  "wake l k = (if items l k \<noteq> [] then xTaskRemoveFromEventList l k else Some (False, k))"

definition wake_yield :: "klist \<Rightarrow> kernel \<Rightarrow> kernel option" where
  "wake_yield l k = do { (y, k) \<leftarrow> wake l k; Some (if y then portYIELD k else k) }"

text \<open>The loops of \<open>prvUnlockQueue\<close>, as often as the lock counted, while tasks wait.\<close>

fun unlock_loop :: "nat \<Rightarrow> klist \<Rightarrow> kernel \<Rightarrow> kernel option" where
  "unlock_loop 0 l k = Some k"
| "unlock_loop (Suc n) l k =
     (if items l k \<noteq> [] then do {
        (y, k) \<leftarrow> xTaskRemoveFromEventList l k;
        unlock_loop n l (if y then vTaskMissedYield k else k)
      }
      else Some k)"

definition lock_count :: "u8 \<Rightarrow> nat" where
  "lock_count c = nat (sint c)"

definition prvUnlockQueue :: "queue \<Rightarrow> kernel \<Rightarrow> (queue \<times> kernel) option" where
  "prvUnlockQueue q k = do {
     k \<leftarrow> unlock_loop (lock_count (cTxLock q)) (xTasksWaitingToReceive q) k;
     let q = q\<lparr>cTxLock := queueUNLOCKED\<rparr>;
     k \<leftarrow> unlock_loop (lock_count (cRxLock q)) (xTasksWaitingToSend q) k;
     Some (q\<lparr>cRxLock := queueUNLOCKED\<rparr>, k)
   }"

definition prvLockQueue :: "queue \<Rightarrow> queue" where
  "prvLockQueue q =
     (let q = (if cRxLock q = queueUNLOCKED then q\<lparr>cRxLock := queueLOCKED_UNMODIFIED\<rparr> else q)
      in if cTxLock q = queueUNLOCKED then q\<lparr>cTxLock := queueLOCKED_UNMODIFIED\<rparr> else q)"

section \<open>Creation\<close>

definition xQueueGenericReset :: "bool \<Rightarrow> queue \<Rightarrow> kernel \<Rightarrow> (queue \<times> kernel) option" where
  "xQueueGenericReset new q k = do {
     let q = q\<lparr>pxMutexHolder := None, uxMessagesWaiting := 0, pcWriteTo := 0,
               pcReadFrom := (int (unat (uxLength q)) - 1) * item_size q,
               cRxLock := queueUNLOCKED, cTxLock := queueUNLOCKED\<rparr>;
     k \<leftarrow> (if \<not> new then wake_yield (xTasksWaitingToSend q) k
          else Some (k\<lparr>lists := list_initialise (xTasksWaitingToReceive q)
                 (list_initialise (xTasksWaitingToSend q) (lists k))\<rparr>));
     Some (q, k)
   }"

text \<open>
  The block of memory: \<open>a\<close> names the queue's lists, and \<open>junk\<close> gives the bytes that \<open>pvPortMalloc\<close>
  returned.  The size \<open>uxLength * uxItemSize\<close> is a 32-bit product.
\<close>

definition prvInitialiseNewQueue ::
    "u32 \<Rightarrow> u32 \<Rightarrow> nat \<Rightarrow> (nat \<Rightarrow> u8) \<Rightarrow> kernel \<Rightarrow> (queue \<times> kernel) option" where
  "prvInitialiseNewQueue len sz a junk k =
     xQueueGenericReset True
       \<lparr>storage = map junk [0..<unat (len * sz)], pcWriteTo = 0, pcReadFrom = 0,
        xTasksWaitingToSend = EventList (2 * a), xTasksWaitingToReceive = EventList (2 * a + 1),
        uxMessagesWaiting = 0, uxLength = len, uxItemSize = sz, cRxLock = 0, cTxLock = 0,
        is_mutex = False, pxMutexHolder = None\<rparr> k"

text \<open>
  The structure (80 bytes with the trace fields) and the items are one block of the heap; the sum is a
  32-bit one and may wrap.  Then the block is smaller than the structure, and initialising it writes
  outside.  \<open>alloc\<close> is what \<open>pvPortMalloc\<close> answers to the request.
\<close>

definition sizeof_Queue_t :: u32 where "sizeof_Queue_t = 80"

definition queue_request :: "u32 \<Rightarrow> u32 \<Rightarrow> u32" where
  "queue_request len sz = sizeof_Queue_t + (if sz = 0 then 0 else len * sz)"

lemma queue_request_fits:
  assumes "unat sizeof_Queue_t + unat len * unat sz < 2 ^ 32"
  shows "\<not> queue_request len sz < sizeof_Queue_t"
  using assms by (auto simp: queue_request_def sizeof_Queue_t_def word_less_nat_alt unat_word_ariths)

lemma queue_request_wraps:
  assumes "unat len * unat sz < 2 ^ 32" "2 ^ 32 \<le> unat sizeof_Queue_t + unat len * unat sz"
  shows "queue_request len sz < sizeof_Queue_t"
proof -
  have "unat (len * sz) = unat len * unat sz" using assms(1) by (simp add: unat_word_ariths)
  moreover have "sz \<noteq> 0" using assms(2) by (auto simp: sizeof_Queue_t_def)
  ultimately show ?thesis using assms
    by (simp add: queue_request_def sizeof_Queue_t_def word_less_nat_alt unat_word_ariths le_mod_geq)
qed

definition xQueueGenericCreate ::
    "u32 \<Rightarrow> u32 \<Rightarrow> nat option \<Rightarrow> (nat \<Rightarrow> u8) \<Rightarrow> kernel \<Rightarrow> (queue option \<times> kernel) option" where
  "xQueueGenericCreate len sz alloc junk k =
     (case alloc of
        None \<Rightarrow> Some (None, k)
      | Some a \<Rightarrow>
          if queue_request len sz < sizeof_Queue_t then None
          else do { (q, k) \<leftarrow> prvInitialiseNewQueue len sz a junk k; Some (Some q, k) })"

section \<open>Sending\<close>

datatype 'a attempt = Returned 'a | MustWait

text \<open>
  The first critical section of \<open>xQueueGenericSend\<close>: the item is stored, or the queue is full and the
  function returns (no time left) or goes on to wait.  The time-out is set once.
\<close>

definition send_try ::
    "u8 list \<Rightarrow> u32 \<Rightarrow> copy_position \<Rightarrow> time_out option \<Rightarrow> queue \<Rightarrow> kernel \<Rightarrow>
     (bool attempt \<times> time_out option \<times> queue \<times> kernel) option" where
  "send_try x ticks pos to q k =
     (if uxMessagesWaiting q < uxLength q \<or> pos = queueOVERWRITE then do {
        (y, q, k) \<leftarrow> prvCopyDataToQueue x pos q k;
        k \<leftarrow> (if items (xTasksWaitingToReceive q) k \<noteq> [] then wake_yield (xTasksWaitingToReceive q) k
             else Some (if y then portYIELD k else k));
        Some (Returned True, to, q, k)
      }
      else if ticks = 0 then Some (Returned False, to, q, k)
      else Some (MustWait, Some (case to of None \<Rightarrow> vTaskSetTimeOutState k | Some t \<Rightarrow> t), q, k))"

datatype wait_verdict = Blocked | Again | TimedOut

text \<open>With the scheduler suspended and the queue locked: wait, try again, or give up.\<close>

definition send_wait ::
    "time_out \<Rightarrow> u32 \<Rightarrow> queue \<Rightarrow> kernel \<Rightarrow> (wait_verdict \<times> time_out \<times> u32 \<times> kernel) option" where
  "send_wait to ticks q k =
     (case xTaskCheckForTimeOut to ticks k of (expired, to, ticks) \<Rightarrow>
        if expired then Some (TimedOut, to, ticks, k)
        else if prvIsQueueFull q then do {
          k \<leftarrow> vTaskPlaceOnEventList (xTasksWaitingToSend q) ticks k;
          Some (Blocked, to, ticks, k)
        }
        else Some (Again, to, ticks, k))"

text \<open>The end of a round: unlock, resume the scheduler, and yield if the task waits.\<close>

definition end_wait :: "wait_verdict \<Rightarrow> queue \<Rightarrow> kernel \<Rightarrow> (queue \<times> kernel) option" where
  "end_wait v q k = do {
     (q, k) \<leftarrow> prvUnlockQueue q k;
     (yielded, k) \<leftarrow> xTaskResumeAll k;
     Some (q, if v = Blocked \<and> \<not> yielded then portYIELD k else k)
   }"

text \<open>One round of the loop, with nothing in between; the result is \<open>None\<close> when the loop goes on.\<close>

definition xQueueGenericSend ::
    "u8 list \<Rightarrow> u32 \<Rightarrow> copy_position \<Rightarrow> time_out option \<Rightarrow> queue \<Rightarrow> kernel \<Rightarrow>
     (bool option \<times> time_out option \<times> u32 \<times> queue \<times> kernel) option" where
  "xQueueGenericSend x ticks pos to q k = do {
     (r, to, q, k) \<leftarrow> send_try x ticks pos to q k;
     case r of
       Returned b \<Rightarrow> Some (Some b, to, ticks, q, k)
     | MustWait \<Rightarrow> do {
         t \<leftarrow> to;
         let k = vTaskSuspendAll k;
         let q = prvLockQueue q;
         (v, t, ticks, k) \<leftarrow> send_wait t ticks q k;
         (q, k) \<leftarrow> end_wait v q k;
         Some (if v = TimedOut then Some False else None, Some t, ticks, q, k)
       }
   }"

text \<open>From interrupts; the last flag of the result is \<open>*pxHigherPriorityTaskWoken\<close>.\<close>

definition xQueueGenericSendFromISR ::
    "u8 list \<Rightarrow> copy_position \<Rightarrow> queue \<Rightarrow> kernel \<Rightarrow> (bool \<times> bool \<times> queue \<times> kernel) option" where
  "xQueueGenericSendFromISR x pos q k =
     (if uxMessagesWaiting q < uxLength q \<or> pos = queueOVERWRITE then do {
        let lock = cTxLock q;
        (y, q, k) \<leftarrow> prvCopyDataToQueue x pos q k;
        if lock = queueUNLOCKED then do {
          (w, k) \<leftarrow> wake (xTasksWaitingToReceive q) k;
          Some (True, w, q, k)
        }
        else Some (True, False, q\<lparr>cTxLock := lock + 1\<rparr>, k)
      }
      else Some (False, False, q, k))"

definition xQueueGiveFromISR :: "queue \<Rightarrow> kernel \<Rightarrow> (bool \<times> bool \<times> queue \<times> kernel) option" where
  "xQueueGiveFromISR q k =
     (if uxMessagesWaiting q < uxLength q then do {
        let lock = cTxLock q;
        let q = q\<lparr>uxMessagesWaiting := uxMessagesWaiting q + 1\<rparr>;
        if lock = queueUNLOCKED then do {
          (w, k) \<leftarrow> wake (xTasksWaitingToReceive q) k;
          Some (True, w, q, k)
        }
        else Some (True, False, q\<lparr>cTxLock := lock + 1\<rparr>, k)
      }
      else Some (False, False, q, k))"

definition prvInitialiseMutex :: "queue \<Rightarrow> kernel \<Rightarrow> (queue \<times> kernel) option" where
  "prvInitialiseMutex q k = do {
     let q = q\<lparr>pxMutexHolder := None, is_mutex := True, pcReadFrom := 0\<rparr>;
     (r, to, ticks, q, k) \<leftarrow> xQueueGenericSend [] 0 queueSEND_TO_BACK None q k;
     Some (q, k)
   }"

definition xQueueCreateMutex :: "nat option \<Rightarrow> kernel \<Rightarrow> (queue option \<times> kernel) option" where
  "xQueueCreateMutex alloc k = do {
     (q, k) \<leftarrow> xQueueGenericCreate 1 0 alloc (\<lambda>_. 0) k;
     case q of
       None \<Rightarrow> Some (None, k)
     | Some q \<Rightarrow> do { (q, k) \<leftarrow> prvInitialiseMutex q k; Some (Some q, k) }
   }"

section \<open>Receiving\<close>

definition receive_try ::
    "u32 \<Rightarrow> bool \<Rightarrow> time_out option \<Rightarrow> queue \<Rightarrow> kernel \<Rightarrow>
     (u8 list option attempt \<times> time_out option \<times> queue \<times> kernel) option" where
  "receive_try ticks peek to q k =
     (if uxMessagesWaiting q > 0 then do {
        let n = uxMessagesWaiting q;
        let original = pcReadFrom q;
        (x, q) \<leftarrow> prvCopyDataFromQueue q;
        if \<not> peek then do {
          let q = q\<lparr>uxMessagesWaiting := n - 1\<rparr>;
          let (q, k) = (if is_mutex q
            then (case pvTaskIncrementMutexHeldCount k of (h, k) \<Rightarrow> (q\<lparr>pxMutexHolder := h\<rparr>, k))
            else (q, k));
          k \<leftarrow> wake_yield (xTasksWaitingToSend q) k;
          Some (Returned (Some x), to, q, k)
        }
        else do {
          let q = q\<lparr>pcReadFrom := original\<rparr>;
          k \<leftarrow> wake_yield (xTasksWaitingToReceive q) k;
          Some (Returned (Some x), to, q, k)
        }
      }
      else if ticks = 0 then Some (Returned None, to, q, k)
      else Some (MustWait, Some (case to of None \<Rightarrow> vTaskSetTimeOutState k | Some t \<Rightarrow> t), q, k))"

text \<open>A task that must wait for a mutex lends its priority to the holder first.\<close>

definition receive_wait ::
    "time_out \<Rightarrow> u32 \<Rightarrow> queue \<Rightarrow> kernel \<Rightarrow> (wait_verdict \<times> time_out \<times> u32 \<times> kernel) option" where
  "receive_wait to ticks q k =
     (case xTaskCheckForTimeOut to ticks k of (expired, to, ticks) \<Rightarrow>
        if expired then Some (TimedOut, to, ticks, k)
        else if prvIsQueueEmpty q then do {
          k \<leftarrow> (if is_mutex q then vTaskPriorityInherit (pxMutexHolder q) k else Some k);
          k \<leftarrow> vTaskPlaceOnEventList (xTasksWaitingToReceive q) ticks k;
          Some (Blocked, to, ticks, k)
        }
        else Some (Again, to, ticks, k))"

text \<open>One round; after a time-out the queue is looked at once more.\<close>

definition xQueueGenericReceive ::
    "u32 \<Rightarrow> bool \<Rightarrow> time_out option \<Rightarrow> queue \<Rightarrow> kernel \<Rightarrow>
     (u8 list option option \<times> time_out option \<times> u32 \<times> queue \<times> kernel) option" where
  "xQueueGenericReceive ticks peek to q k = do {
     (r, to, q, k) \<leftarrow> receive_try ticks peek to q k;
     case r of
       Returned b \<Rightarrow> Some (Some b, to, ticks, q, k)
     | MustWait \<Rightarrow> do {
         t \<leftarrow> to;
         let k = vTaskSuspendAll k;
         let q = prvLockQueue q;
         (v, t, ticks, k) \<leftarrow> receive_wait t ticks q k;
         (q, k) \<leftarrow> end_wait v q k;
         Some (if v = TimedOut \<and> prvIsQueueEmpty q then Some None else None, Some t, ticks, q, k)
       }
   }"

definition xQueueReceiveFromISR :: "queue \<Rightarrow> kernel \<Rightarrow> (u8 list option \<times> bool \<times> queue \<times> kernel) option" where
  "xQueueReceiveFromISR q k =
     (if uxMessagesWaiting q > 0 then do {
        let n = uxMessagesWaiting q;
        let lock = cRxLock q;
        (x, q) \<leftarrow> prvCopyDataFromQueue q;
        let q = q\<lparr>uxMessagesWaiting := n - 1\<rparr>;
        if lock = queueUNLOCKED then do {
          (w, k) \<leftarrow> wake (xTasksWaitingToSend q) k;
          Some (Some x, w, q, k)
        }
        else Some (Some x, False, q\<lparr>cRxLock := lock + 1\<rparr>, k)
      }
      else Some (None, False, q, k))"

definition xQueuePeekFromISR :: "queue \<Rightarrow> (u8 list option \<times> queue) option" where
  "xQueuePeekFromISR q =
     (if uxMessagesWaiting q > 0 then do {
        let original = pcReadFrom q;
        (x, q) \<leftarrow> prvCopyDataFromQueue q;
        Some (Some x, q\<lparr>pcReadFrom := original\<rparr>)
      }
      else Some (None, q))"

end
