(* ===== verification/Queue_Fifo.thy ===== *)
theory Queue_Fifo
  imports Kernel_Queue Kernel_Boot
begin

text \<open>
  The storage of a queue is a circular buffer; here it is proved to be a bounded double-ended queue,
  for any length and item size, whatever the order of the operations.
\<close>

section \<open>Blocks of the storage\<close>

definition block :: "nat \<Rightarrow> nat \<Rightarrow> u8 list \<Rightarrow> u8 list" where
  "block s j st = take s (drop (j * s) st)"

lemma nth_block: "i < s \<Longrightarrow> j * s + i < length st \<Longrightarrow> block s j st ! i = st ! (j * s + i)"
  by (simp add: block_def)

lemma block_end: "j < n \<Longrightarrow> j * s + s \<le> n * s" for j n s :: nat
  by (metis Suc_leI add.commute mult_Suc mult_le_mono1)

lemma length_block: "length st = n * s \<Longrightarrow> j < n \<Longrightarrow> length (block s j st) = s"
  using block_end [of j n s] by (simp add: block_def)

lemma store_block:
  assumes "length st = n * s" "w < n" "length x = s"
  shows "\<exists>st'. store_bytes (int (w * s)) x st = Some st' \<and> length st' = n * s \<and>
    (\<forall>j<n. block s j st' = (if j = w then x else block s j st))"
proof -
  let ?st = "take (w * s) st @ x @ drop (w * s + s) st"
  have b: "w * s + s \<le> length st" using block_end [OF assms(2), of s] assms(1) by simp
  then have "int (w * s) + int (length x) \<le> int (length st)"
    using assms(3) by (metis of_nat_add of_nat_le_iff)
  then have st: "store_bytes (int (w * s)) x st = Some ?st"
    using assms(3) by (simp add: store_bytes_def del: of_nat_mult)
  have l: "length ?st = n * s" using b assms(1,3) by simp
  have nth: "?st ! p = (if w * s \<le> p \<and> p < w * s + s then x ! (p - w * s) else st ! p)"
    if "p < n * s" for p
  proof -
    have "length (take (w * s) st) = w * s" using b by simp
    then show ?thesis using that b assms(1,3) by (auto simp: nth_append simp del: length_take)
  qed
  have "block s j ?st = (if j = w then x else block s j st)" if j: "j < n" for j
  proof (rule nth_equalityI)
    show "length (block s j ?st) = length (if j = w then x else block s j st)"
      using length_block [OF l j] length_block [OF assms(1) j] assms(3) by simp
    fix i assume "i < length (block s j ?st)"
    then have i: "i < s" using length_block [OF l j] by simp
    have p: "j * s + i < n * s" using block_end [OF j, of s] i by simp
    have out: "\<not> (w * s \<le> j * s + i \<and> j * s + i < w * s + s)" if "j \<noteq> w"
    proof (cases "j < w")
      case True
      then have "j * s + s \<le> w * s" by (rule block_end)
      with i show ?thesis by simp
    next
      case False
      with that have "w * s + s \<le> j * s" by (intro block_end) simp
      then show ?thesis by simp
    qed
    have new: "block s j ?st ! i = ?st ! (j * s + i)" using nth_block [OF i, of j ?st] p l by simp
    show "block s j ?st ! i = (if j = w then x else block s j st) ! i"
    proof (cases "j = w")
      case True
      then show ?thesis using nth [OF p] i unfolding new by simp
    next
      case False
      then show ?thesis
        using nth [OF p] out [OF False] nth_block [OF i, of j st] p assms(1) unfolding new by simp
    qed
  qed
  with st l show ?thesis by blast
qed

lemma load_block:
  assumes "length st = n * s" "j < n"
  shows "load_bytes (int (j * s)) s st = Some (block s j st)"
proof -
  have "int (j * s) + int s \<le> int (length st)"
    using block_end [OF assms(2), of s] assms(1) by (metis of_nat_add of_nat_le_iff)
  then show ?thesis by (simp add: load_bytes_def block_def del: of_nat_mult)
qed

section \<open>Positions modulo the length\<close>

lemma mod_add_inj:
  assumes "(c + i) mod n = (c + j) mod n" "i < n" "j < n"
  shows "i = (j :: nat)"
proof -
  have eq: "i = j" if "i \<le> j" "(c + i) mod n = (c + j) mod n" "j < n" for i j
  proof -
    have "n dvd (c + j) - (c + i)" using that(1,2) mod_eq_dvd_iff_nat [of "c + i" "c + j" n] by simp
    then have "n dvd j - i" by simp
    with that(3) have "j - i = 0" by (metis dvd_imp_le gr0I less_imp_diff_less not_less)
    with that(1) show ?thesis by simp
  qed
  show ?thesis using eq [of i j] eq [of j i] assms by (cases "i \<le> j") auto
qed

text \<open>
  The queue \<open>q\<close> of \<open>n\<close> items of \<open>s\<close> bytes holds the items \<open>xs\<close>: they follow the position last read, and
  the next item is written after them.
\<close>

definition queue_holds :: "nat \<Rightarrow> nat \<Rightarrow> u8 list list \<Rightarrow> queue \<Rightarrow> bool" where
  "queue_holds n s xs q \<longleftrightarrow> 0 < n \<and> 0 < s \<and> unat (uxLength q) = n \<and> unat (uxItemSize q) = s \<and>
     length (storage q) = n * s \<and> unat (uxMessagesWaiting q) = length xs \<and> length xs \<le> n \<and>
     (\<exists>r<n. pcReadFrom q = int (r * s) \<and> pcWriteTo q = int ((r + 1 + length xs) mod n * s) \<and>
        (\<forall>i<length xs. block s ((r + 1 + i) mod n) (storage q) = xs ! i))"

section \<open>The operations\<close>

lemma queue_holdsD:
  assumes "queue_holds n s xs q"
  shows "0 < n" "0 < s" "unat (uxLength q) = n" "unat (uxItemSize q) = s" "length (storage q) = n * s"
    "unat (uxMessagesWaiting q) = length xs" "length xs \<le> n" "uxItemSize q \<noteq> 0"
    "pcTail q = int (n * s)" "item_size q = int s"
  using assms by (auto simp: queue_holds_def pcTail_def item_size_def)

lemma u32_suc:
  assumes "unat (a :: u32) < m" "m \<le> unat (b :: u32)"
  shows "unat (a + 1) = unat a + 1"
proof -
  have "unat b < 2 ^ 32" by (rule order_less_le_trans [OF unsigned_less]) simp
  with assms show ?thesis by (simp add: unat_word_ariths)
qed

lemma u32_pred:
  assumes "(a :: u32) \<noteq> 0"
  shows "unat (a - 1) = unat a - 1"
  using assms unat_minus_one by blast

lemma full_turn:
  assumes "w < n" "0 < s"
  shows "int ((w + 1) * s) \<ge> int (n * s) \<longleftrightarrow> w + 1 = n"
  using assms mult_le_cancel2 [of n s "w + 1"] unfolding of_nat_le_iff by linarith

lemma add_mod_Suc: "(r + 1 + m) mod n = 0 \<or> (r + 1 + m) mod n < n" if "0 < n" for r m n :: nat
  using that by simp

lemma copy_back:
  assumes q: "queue_holds n s xs q" and x: "length x = s" and f: "length xs < n"
  shows "\<exists>q'. prvCopyDataToQueue x queueSEND_TO_BACK q k = Some (False, q', k) \<and>
    queue_holds n s (xs @ [x]) q' \<and> xTasksWaitingToReceive q' = xTasksWaitingToReceive q \<and>
    xTasksWaitingToSend q' = xTasksWaitingToSend q \<and> cTxLock q' = cTxLock q \<and> cRxLock q' = cRxLock q"
proof -
  note Q = queue_holdsD [OF q]
  from q obtain r where r: "r < n" "pcReadFrom q = int (r * s)"
    "pcWriteTo q = int ((r + 1 + length xs) mod n * s)"
    "\<And>i. i < length xs \<Longrightarrow> block s ((r + 1 + i) mod n) (storage q) = xs ! i"
    by (auto simp: queue_holds_def)
  let ?w = "(r + 1 + length xs) mod n"
  have w: "?w < n" using Q(1) by simp
  from store_block [OF Q(5) w x] obtain st where
    st: "store_bytes (int (?w * s)) x (storage q) = Some st" "length st = n * s"
      "\<And>j. j < n \<Longrightarrow> block s j st = (if j = ?w then x else block s j (storage q))" by blast
  let ?p = "if pcWriteTo q + item_size q \<ge> pcTail q then 0 else pcWriteTo q + item_size q"
  have p: "?p = int ((r + 1 + (length xs + 1)) mod n * s)"
  proof -
    have e: "(r + 1 + (length xs + 1)) mod n = (?w + 1) mod n" by (metis add.assoc mod_add_left_eq)
    have "pcWriteTo q + item_size q = int ((?w + 1) * s)" by (simp add: r(3) Q(10) algebra_simps)
    moreover have "int ((?w + 1) * s) \<ge> int (n * s) \<longleftrightarrow> ?w + 1 = n" by (rule full_turn [OF w Q(2)])
    ultimately show ?thesis unfolding e Q(9) using w by (auto simp: distrib_right)
  qed
  define q' where "q' = q\<lparr>storage := st, pcWriteTo := ?p, uxMessagesWaiting := uxMessagesWaiting q + 1\<rparr>"
  have run: "prvCopyDataToQueue x queueSEND_TO_BACK q k = Some (False, q', k)"
    using Q(8) st(1) by (simp add: prvCopyDataToQueue_def Let_def r(3) q'_def del: of_nat_mult)
  have m: "unat (uxMessagesWaiting q + 1) = length xs + 1"
    using u32_suc [of "uxMessagesWaiting q" n "uxLength q"] Q(3,6) f by simp
  have "block s ((r + 1 + i) mod n) st = (xs @ [x]) ! i" if "i < length xs + 1" for i
  proof (cases "i = length xs")
    case True
    then show ?thesis using st(3) [OF w] by simp
  next
    case False
    with that have i: "i < length xs" by simp
    have "(r + 1 + i) mod n \<noteq> ?w" using mod_add_inj [of "r + 1" i n "length xs"] i f by auto
    then show ?thesis using st(3) [of "(r + 1 + i) mod n"] r(4) [OF i] Q(1) i by (simp add: nth_append)
  qed
  then have "queue_holds n s (xs @ [x]) q'"
    unfolding queue_holds_def using Q(1-4) st(2) m f r(1,2) p
    by (simp add: q'_def del: of_nat_mult)
  with run show ?thesis by (simp add: q'_def)
qed

lemma prev_block:
  assumes "r < n" "0 < s"
  shows "(if int (r * s) - int s < 0 then int (n * s) - int s else int (r * s) - int s) =
    int ((r + n - 1) mod n * s)"
proof (cases r)
  case 0
  with assms show ?thesis by (simp add: of_nat_diff algebra_simps)
next
  case (Suc m)
  then have "(r + n - 1) mod n = m" using assms(1) by simp
  moreover have "int (r * s) - int s = int (m * s)" by (simp add: Suc algebra_simps)
  ultimately show ?thesis by (simp add: mult_less_0_iff)
qed

lemma prev_mod: "r < n \<Longrightarrow> ((r + n - 1) mod n + 1 + i) mod n = (r + i) mod n" for r n i :: nat
proof -
  assume "r < n"
  have "((r + n - 1) mod n + 1 + i) mod n = (r + n - 1 + 1 + i) mod n"
    by (metis add.assoc mod_add_left_eq)
  also have "r + n - 1 + 1 + i = r + i + n" using \<open>r < n\<close> by simp
  finally show ?thesis by simp
qed

text \<open>The item put in front replaces the first one when it overwrites.\<close>

lemma copy_front:
  assumes q: "queue_holds n s xs q" and x: "length x = s" and pos: "pos \<noteq> queueSEND_TO_BACK"
    and f: "length xs < n \<and> zs = xs \<and> pos = queueSEND_TO_FRONT \<or> n = 1 \<and> zs = [] \<and> pos = queueOVERWRITE"
  shows "\<exists>q'. prvCopyDataToQueue x pos q k = Some (False, q', k) \<and>
    queue_holds n s (x # zs) q' \<and> xTasksWaitingToReceive q' = xTasksWaitingToReceive q \<and>
    xTasksWaitingToSend q' = xTasksWaitingToSend q \<and> cTxLock q' = cTxLock q \<and> cRxLock q' = cRxLock q"
proof -
  note Q = queue_holdsD [OF q]
  from q obtain r where r: "r < n" "pcReadFrom q = int (r * s)"
    "pcWriteTo q = int ((r + 1 + length xs) mod n * s)"
    "\<And>i. i < length xs \<Longrightarrow> block s ((r + 1 + i) mod n) (storage q) = xs ! i"
    by (auto simp: queue_holds_def)
  from store_block [OF Q(5) r(1) x] obtain st where
    st: "store_bytes (int (r * s)) x (storage q) = Some st" "length st = n * s"
      "\<And>j. j < n \<Longrightarrow> block s j st = (if j = r then x else block s j (storage q))" by blast
  let ?r = "(r + n - 1) mod n"
  let ?m = "if pos = queueOVERWRITE \<and> uxMessagesWaiting q > 0 then uxMessagesWaiting q - 1 else uxMessagesWaiting q"
  let ?p = "if pcReadFrom q - item_size q < 0 then pcTail q - item_size q else pcReadFrom q - item_size q"
  have p: "?p = int (?r * s)" unfolding r(2) Q(9,10) by (rule prev_block [OF r(1) Q(2)])
  have lz: "length zs < n" using f by auto
  have m: "unat ?m = length zs"
  proof (cases "pos = queueOVERWRITE")
    case True
    with f have n1: "n = 1" "zs = []" by auto
    show ?thesis
    proof (cases "uxMessagesWaiting q = 0")
      case False
      then show ?thesis using True n1 Q(6,7) u32_pred [OF False] by (simp add: word_gt_0)
    qed (use n1 in simp)
  next
    case False
    with f Q(6) show ?thesis by auto
  qed
  have m1: "unat (?m + 1) = length zs + 1"
    using u32_suc [of ?m n "uxLength q"] Q(3) lz unfolding m by simp
  define q' where "q' = q\<lparr>storage := st, pcReadFrom := ?p, uxMessagesWaiting := ?m + 1\<rparr>"
  have run: "prvCopyDataToQueue x pos q k = Some (False, q', k)"
    using Q(8) st(1) pos unfolding prvCopyDataToQueue_def Let_def r(2) q'_def by simp
  have w: "pcWriteTo q = int ((?r + 1 + (length zs + 1)) mod n * s)"
  proof (cases "pos = queueOVERWRITE")
    case True
    with f have "n = 1" by auto
    with r(3) show ?thesis by simp
  next
    case False
    with f have "zs = xs" by auto
    then show ?thesis unfolding prev_mod [OF r(1)] r(3) by (simp add: ac_simps)
  qed
  have "block s ((?r + 1 + i) mod n) st = (x # zs) ! i" if "i < length zs + 1" for i
  proof (cases i)
    case 0
    then show ?thesis using st(3) [OF r(1)] r(1) prev_mod [OF r(1), of 0] by simp
  next
    case (Suc j)
    with that f have j: "j < length xs" "zs = xs" "length xs < n" by auto
    have "(r + i) mod n \<noteq> r" using mod_add_inj [of r i n 0] Suc j r(1) by auto
    then show ?thesis using st(3) [of "(r + i) mod n"] r(4) [OF j(1)] Q(1) Suc j
      unfolding prev_mod [OF r(1)] by simp
  qed
  then have "queue_holds n s (x # zs) q'"
    unfolding queue_holds_def using Q(1-4) st(2) m1 lz r(1) p w
    by (simp add: q'_def del: of_nat_mult)
  with run show ?thesis by (simp add: q'_def)
qed

lemma copy_out:
  assumes q: "queue_holds n s (x # xs) q"
  shows "\<exists>p. prvCopyDataFromQueue q = Some (x, q\<lparr>pcReadFrom := p\<rparr>) \<and>
    queue_holds n s xs (q\<lparr>pcReadFrom := p, uxMessagesWaiting := uxMessagesWaiting q - 1\<rparr>)"
proof -
  note Q = queue_holdsD [OF q]
  from q obtain r where r: "r < n" "pcReadFrom q = int (r * s)"
    "pcWriteTo q = int ((r + 1 + length (x # xs)) mod n * s)"
    "\<And>i. i < length (x # xs) \<Longrightarrow> block s ((r + 1 + i) mod n) (storage q) = (x # xs) ! i"
    by (auto simp: queue_holds_def)
  let ?r = "(r + 1) mod n"
  have rn: "?r < n" using Q(1) by simp
  have p: "(if pcReadFrom q + item_size q \<ge> pcTail q then 0 else pcReadFrom q + item_size q) = int (?r * s)"
  proof -
    have "pcReadFrom q + item_size q = int ((r + 1) * s)" by (simp add: r(2) Q(10) algebra_simps)
    moreover have "int ((r + 1) * s) \<ge> int (n * s) \<longleftrightarrow> r + 1 = n" by (rule full_turn [OF r(1) Q(2)])
    ultimately show ?thesis unfolding Q(9) using r(1) by (auto simp: distrib_right)
  qed
  have run: "prvCopyDataFromQueue q = Some (x, q\<lparr>pcReadFrom := int (?r * s)\<rparr>)"
    using load_block [OF Q(5) rn] r(4) [of 0] Q(8)
    unfolding prvCopyDataFromQueue_def Let_def p Q(4) by simp
  have m: "unat (uxMessagesWaiting q - 1) = length xs"
  proof -
    have "uxMessagesWaiting q \<noteq> 0" using Q(6) by auto
    from u32_pred [OF this] Q(6) show ?thesis by simp
  qed
  have e: "(?r + 1 + i) mod n = (r + 1 + Suc i) mod n" for i
    by (metis add.assoc mod_add_left_eq plus_1_eq_Suc add.commute)
  have "queue_holds n s xs (q\<lparr>pcReadFrom := int (?r * s), uxMessagesWaiting := uxMessagesWaiting q - 1\<rparr>)"
    unfolding queue_holds_def
  proof (intro conjI exI [of _ ?r] allI impI, goal_cases)
    case (11 i)
    then show ?case using r(4) [of "Suc i"] unfolding e by simp
  next
    case 10
    then show ?case using r(3) unfolding e by simp
  qed (use Q m rn in simp_all)
  with run show ?thesis by blast
qed

section \<open>Refinement\<close>

text \<open>
  The calls of the tasks, without waiting, and of the interrupts, on a queue for which no task waits;
  the specification is a list of at most \<open>n\<close> items of \<open>s\<close> bytes.
\<close>

datatype queue_request =
    Send copy_position "u8 list"
  | Receive bool
  | SendFromISR copy_position "u8 list"
  | ReceiveFromISR
  | PeekFromISR
  | Messages
  | Spaces
  | Reset

datatype queue_result = Sent bool | Item "u8 list option" | Number u32 | Emptied

fun deque_send :: "nat \<Rightarrow> nat \<Rightarrow> copy_position \<Rightarrow> u8 list \<Rightarrow> u8 list list \<Rightarrow> (queue_result \<times> u8 list list) option" where
  "deque_send n s queueSEND_TO_BACK x xs =
     (if length x \<noteq> s then None else if length xs < n then Some (Sent True, xs @ [x]) else Some (Sent False, xs))"
| "deque_send n s queueSEND_TO_FRONT x xs =
     (if length x \<noteq> s then None else if length xs < n then Some (Sent True, x # xs) else Some (Sent False, xs))"
| "deque_send n s queueOVERWRITE x xs = (if length x = s \<and> n = 1 then Some (Sent True, [x]) else None)"

fun deque_call :: "nat \<Rightarrow> nat \<Rightarrow> queue_request \<Rightarrow> u8 list list \<Rightarrow> (queue_result \<times> u8 list list) option" where
  "deque_call n s (Send pos x) xs = deque_send n s pos x xs"
| "deque_call n s (Receive peek) xs =
     (case xs of [] \<Rightarrow> Some (Item None, []) | x # ys \<Rightarrow> Some (Item (Some x), if peek then xs else ys))"
| "deque_call n s (SendFromISR pos x) xs = deque_send n s pos x xs"
| "deque_call n s ReceiveFromISR xs =
     (case xs of [] \<Rightarrow> Some (Item None, []) | x # ys \<Rightarrow> Some (Item (Some x), ys))"
| "deque_call n s PeekFromISR xs =
     (case xs of [] \<Rightarrow> Some (Item None, []) | x # ys \<Rightarrow> Some (Item (Some x), xs))"
| "deque_call n s Messages xs = Some (Number (of_nat (length xs)), xs)"
| "deque_call n s Spaces xs = Some (Number (of_nat (n - length xs)), xs)"
| "deque_call n s Reset xs = Some (Emptied, [])"

fun queue_call :: "queue_request \<Rightarrow> queue \<times> kernel \<Rightarrow> (queue_result \<times> queue \<times> kernel) option" where
  "queue_call (Send pos x) (q, k) = do {
     (r, to, ticks, q, k) \<leftarrow> xQueueGenericSend x 0 pos None q k;
     map_option (\<lambda>b. (Sent b, q, k)) r
   }"
| "queue_call (Receive peek) (q, k) = do {
     (r, to, ticks, q, k) \<leftarrow> xQueueGenericReceive 0 peek None q k;
     map_option (\<lambda>x. (Item x, q, k)) r
   }"
| "queue_call (SendFromISR pos x) (q, k) = do {
     (b, w, q, k) \<leftarrow> xQueueGenericSendFromISR x pos q k;
     Some (Sent b, q, k)
   }"
| "queue_call ReceiveFromISR (q, k) = do {
     (x, w, q, k) \<leftarrow> xQueueReceiveFromISR q k;
     Some (Item x, q, k)
   }"
| "queue_call PeekFromISR (q, k) = do { (x, q) \<leftarrow> xQueuePeekFromISR q; Some (Item x, q, k) }"
| "queue_call Messages (q, k) = Some (Number (uxQueueMessagesWaiting q), q, k)"
| "queue_call Spaces (q, k) = Some (Number (uxQueueSpacesAvailable q), q, k)"
| "queue_call Reset (q, k) = do { (q, k) \<leftarrow> xQueueGenericReset False q k; Some (Emptied, q, k) }"

definition queue_sim :: "nat \<Rightarrow> nat \<Rightarrow> queue \<times> kernel \<Rightarrow> u8 list list \<Rightarrow> bool" where
  "queue_sim n s m xs \<longleftrightarrow> (case m of (q, k) \<Rightarrow> queue_holds n s xs q \<and> \<not> is_mutex q \<and>
     cTxLock q = queueUNLOCKED \<and> cRxLock q = queueUNLOCKED \<and>
     items (xTasksWaitingToSend q) k = [] \<and> items (xTasksWaitingToReceive q) k = [])"

lemma queue_simD:
  assumes "queue_sim n s (q, k) xs"
  shows "queue_holds n s xs q" "\<not> is_mutex q" "cTxLock q = queueUNLOCKED" "cRxLock q = queueUNLOCKED"
    "items (xTasksWaitingToSend q) k = []" "items (xTasksWaitingToReceive q) k = []"
  using assms by (auto simp: queue_sim_def)

lemma holds_count:
  assumes "queue_holds n s xs q"
  shows "uxMessagesWaiting q < uxLength q \<longleftrightarrow> length xs < n" "uxMessagesWaiting q > 0 \<longleftrightarrow> xs \<noteq> []"
    "uxMessagesWaiting q = 0 \<longleftrightarrow> xs = []"
  using queue_holdsD(3,6) [OF assms] by (auto simp: word_less_nat_alt unat_eq_0)

lemma copy_is_mutex: "prvCopyDataToQueue x pos q k = Some (y, q', k') \<Longrightarrow> is_mutex q' = is_mutex q"
  by (auto simp: prvCopyDataToQueue_def Let_def split: Option.bind_splits if_splits)

text \<open>What both functions that send do with the item.\<close>

lemma copy_sim:
  assumes q: "queue_sim n s (q, k) xs" and d: "deque_send n s pos x xs = Some (Sent True, ys)"
  shows "(uxMessagesWaiting q < uxLength q \<or> pos = queueOVERWRITE) \<and>
    (\<exists>q'. prvCopyDataToQueue x pos q k = Some (False, q', k) \<and> queue_sim n s (q', k) ys)"
proof -
  note D = queue_simD [OF q]
  have "uxMessagesWaiting q < uxLength q \<or> pos = queueOVERWRITE"
    using d holds_count(1) [OF D(1)] by (cases pos) (auto split: if_splits)
  moreover have "\<exists>q'. prvCopyDataToQueue x pos q k = Some (False, q', k) \<and> queue_holds n s ys q' \<and>
      xTasksWaitingToReceive q' = xTasksWaitingToReceive q \<and>
      xTasksWaitingToSend q' = xTasksWaitingToSend q \<and> cTxLock q' = cTxLock q \<and> cRxLock q' = cRxLock q"
  proof (cases pos)
    case queueSEND_TO_BACK
    then have "length x = s" "length xs < n" "ys = xs @ [x]" using d by (auto split: if_splits)
    then show ?thesis using copy_back [OF D(1)] queueSEND_TO_BACK by simp
  next
    case queueSEND_TO_FRONT
    then have "length x = s" "length xs < n" "ys = x # xs" using d by (auto split: if_splits)
    then show ?thesis using copy_front [OF D(1)] queueSEND_TO_FRONT by simp
  next
    case queueOVERWRITE
    then have "length x = s" "n = 1" "ys = [x]" using d by (auto split: if_splits)
    then show ?thesis using copy_front [OF D(1), of x queueOVERWRITE "[]"] queueOVERWRITE by simp
  qed
  then obtain q' where q': "prvCopyDataToQueue x pos q k = Some (False, q', k)" "queue_holds n s ys q'"
    "xTasksWaitingToReceive q' = xTasksWaitingToReceive q"
    "xTasksWaitingToSend q' = xTasksWaitingToSend q" "cTxLock q' = cTxLock q" "cRxLock q' = cRxLock q" by blast
  then have "queue_sim n s (q', k) ys" using D copy_is_mutex [OF q'(1)] by (simp add: queue_sim_def)
  ultimately show ?thesis using q'(1) by blast
qed

lemma refuse_sim:
  assumes q: "queue_sim n s (q, k) xs" and d: "deque_send n s pos x xs = Some (Sent False, ys)"
  shows "\<not> (uxMessagesWaiting q < uxLength q \<or> pos = queueOVERWRITE) \<and> ys = xs"
  using d holds_count(1) [OF queue_simD(1) [OF q]] by (cases pos) (auto split: if_splits)

lemma deque_send_result:
  assumes "deque_send n s pos x xs = Some (r, ys)"
  obtains "r = Sent True" | "r = Sent False"
  using assms by (cases pos) (auto split: if_splits)

lemma send_sim:
  assumes q: "queue_sim n s (q, k) xs" and d: "deque_send n s pos x xs = Some (r, ys)"
  shows "\<exists>m'. queue_call (Send pos x) (q, k) = Some (r, m') \<and> queue_sim n s m' ys"
    and "\<exists>m'. queue_call (SendFromISR pos x) (q, k) = Some (r, m') \<and> queue_sim n s m' ys"
proof -
  consider "r = Sent True" | "r = Sent False" using d by (rule deque_send_result)
  then have "(\<exists>m'. queue_call (Send pos x) (q, k) = Some (r, m') \<and> queue_sim n s m' ys) \<and>
    (\<exists>m'. queue_call (SendFromISR pos x) (q, k) = Some (r, m') \<and> queue_sim n s m' ys)"
  proof cases
    case 1
    with copy_sim [OF q, of pos x ys] d obtain q' where
      c: "uxMessagesWaiting q < uxLength q \<or> pos = queueOVERWRITE"
      "prvCopyDataToQueue x pos q k = Some (False, q', k)" "queue_sim n s (q', k) ys" by auto
    show ?thesis using c(1,2,3) queue_simD [OF c(3)] queue_simD(3) [OF q] 1
      by (simp add: xQueueGenericSend_def send_try_def xQueueGenericSendFromISR_def Let_def wake_def)
  next
    case 2
    from refuse_sim [OF q, of pos x ys] d 2 have c:
      "\<not> (uxMessagesWaiting q < uxLength q \<or> pos = queueOVERWRITE)" "ys = xs" by auto
    show ?thesis using c q 2
      by (simp add: xQueueGenericSend_def send_try_def xQueueGenericSendFromISR_def)
  qed
  then show "\<exists>m'. queue_call (Send pos x) (q, k) = Some (r, m') \<and> queue_sim n s m' ys"
    "\<exists>m'. queue_call (SendFromISR pos x) (q, k) = Some (r, m') \<and> queue_sim n s m' ys" by blast+
qed

text \<open>What the functions that receive do: nothing, or the first item is copied out.\<close>

lemma take_sim:
  assumes q: "queue_sim n s (q, k) (x # xs)"
  obtains p where "prvCopyDataFromQueue q = Some (x, q\<lparr>pcReadFrom := p\<rparr>)"
    "queue_sim n s (q\<lparr>pcReadFrom := p, uxMessagesWaiting := uxMessagesWaiting q - 1\<rparr>, k) xs"
proof -
  note D = queue_simD [OF q]
  from copy_out [OF D(1)] obtain p where p: "prvCopyDataFromQueue q = Some (x, q\<lparr>pcReadFrom := p\<rparr>)"
    "queue_holds n s xs (q\<lparr>pcReadFrom := p, uxMessagesWaiting := uxMessagesWaiting q - 1\<rparr>)" by blast
  with D have "queue_sim n s (q\<lparr>pcReadFrom := p, uxMessagesWaiting := uxMessagesWaiting q - 1\<rparr>, k) xs"
    by (simp add: queue_sim_def)
  with p(1) show ?thesis by (rule that)
qed

lemma receive_sim:
  assumes q: "queue_sim n s (q, k) xs"
    and c: "c \<in> {Receive False, Receive True, ReceiveFromISR, PeekFromISR}"
    and d: "deque_call n s c xs = Some (r, ys)"
  shows "\<exists>m'. queue_call c (q, k) = Some (r, m') \<and> queue_sim n s m' ys"
proof (cases xs)
  case Nil
  then have "\<not> uxMessagesWaiting q > 0" using holds_count(2) [OF queue_simD(1) [OF q]] by simp
  then show ?thesis using c d q Nil
    by (auto simp: xQueueGenericReceive_def receive_try_def xQueueReceiveFromISR_def xQueuePeekFromISR_def)
next
  case (Cons x zs)
  with q obtain p where p: "prvCopyDataFromQueue q = Some (x, q\<lparr>pcReadFrom := p\<rparr>)"
    "queue_sim n s (q\<lparr>pcReadFrom := p, uxMessagesWaiting := uxMessagesWaiting q - 1\<rparr>, k) zs"
    by (metis take_sim)
  note D = queue_simD [OF q]
  have g: "uxMessagesWaiting q > 0" using holds_count(2) [OF D(1)] Cons by simp
  show ?thesis using c d g p D q Cons
    by (auto simp: xQueueGenericReceive_def receive_try_def xQueueReceiveFromISR_def
        xQueuePeekFromISR_def Let_def wake_yield_def wake_def)
qed

text \<open>An empty queue, as a reset leaves it.\<close>

lemma reset_holds:
  assumes "0 < n" "0 < s" "unat (uxLength q) = n" "unat (uxItemSize q) = s" "length (storage q) = n * s"
    "uxMessagesWaiting q = 0" "pcWriteTo q = 0" "pcReadFrom q = (int (unat (uxLength q)) - 1) * item_size q"
  shows "queue_holds n s [] q"
proof -
  have "pcReadFrom q = int ((n - 1) * s)" using assms(1,3,4,8) by (simp add: item_size_def of_nat_diff)
  moreover have "pcWriteTo q = int ((n - 1 + 1 + 0) mod n * s)" using assms(1,7) by simp
  ultimately show ?thesis using assms(1-6) unfolding queue_holds_def
    by (intro conjI exI [of _ "n - 1"]) simp_all
qed

lemma reset_sim:
  assumes "queue_sim n s (q, k) xs"
  shows "\<exists>m'. queue_call Reset (q, k) = Some (Emptied, m') \<and> queue_sim n s m' []"
proof -
  note D = queue_simD [OF assms] and Q = queue_holdsD [OF queue_simD(1) [OF assms]]
  let ?q = "q\<lparr>pxMutexHolder := None, uxMessagesWaiting := 0, pcWriteTo := 0,
    pcReadFrom := (int (unat (uxLength q)) - 1) * item_size q,
    cRxLock := queueUNLOCKED, cTxLock := queueUNLOCKED\<rparr>"
  have "queue_holds n s [] ?q" using Q by (intro reset_holds) (simp_all add: item_size_def)
  then have "queue_sim n s (?q, k) []" using D by (simp add: queue_sim_def)
  moreover have "queue_call Reset (q, k) = Some (Emptied, ?q, k)"
    using D by (simp add: xQueueGenericReset_def Let_def wake_yield_def wake_def)
  ultimately show ?thesis by blast
qed

lemma count_sim:
  assumes "queue_sim n s (q, k) xs"
  shows "uxQueueMessagesWaiting q = of_nat (length xs)" "uxQueueSpacesAvailable q = of_nat (n - length xs)"
proof -
  note Q = queue_holdsD [OF queue_simD(1) [OF assms]]
  have e: "uxMessagesWaiting q = of_nat (length xs)" "uxLength q = of_nat n"
    by (simp_all flip: Q(3,6))
  then show "uxQueueMessagesWaiting q = of_nat (length xs)" by (simp add: uxQueueMessagesWaiting_def)
  show "uxQueueSpacesAvailable q = of_nat (n - length xs)"
    using Q(7) by (simp add: uxQueueSpacesAvailable_def e of_nat_diff)
qed

lemma queue_call_sim:
  assumes "queue_sim n s m xs" "deque_call n s c xs = Some (r, ys)"
  shows "\<exists>m'. queue_call c m = Some (r, m') \<and> queue_sim n s m' ys"
proof (cases m)
  case (Pair q k)
  with assms(1) have q: "queue_sim n s (q, k) xs" by simp
  show ?thesis unfolding Pair
  proof (cases c)
    case (Send pos x)
    then show "\<exists>m'. queue_call c (q, k) = Some (r, m') \<and> queue_sim n s m' ys"
      using send_sim(1) [OF q, of pos x r ys] assms(2) by simp
  next
    case (SendFromISR pos x)
    then show "\<exists>m'. queue_call c (q, k) = Some (r, m') \<and> queue_sim n s m' ys"
      using send_sim(2) [OF q, of pos x r ys] assms(2) by simp
  next
    case Reset
    then show "\<exists>m'. queue_call c (q, k) = Some (r, m') \<and> queue_sim n s m' ys"
      using reset_sim [OF q] assms(2) by auto
  next
    case (Receive peek)
    then show "\<exists>m'. queue_call c (q, k) = Some (r, m') \<and> queue_sim n s m' ys"
      using receive_sim [OF q _ assms(2)] by (cases peek) simp_all
  qed (use receive_sim [OF q _ assms(2)] count_sim [OF q] q assms(2) in auto)
qed

interpretation deque_machine: simulation "queue_sim n s" "deque_call n s" queue_call for n s :: nat
  by unfold_locales (rule queue_call_sim)

text \<open>A new queue is empty.\<close>

lemma new_queue:
  assumes "0 < len" "0 < sz" "unat sizeof_Queue_t + unat len * unat sz < 2 ^ 32"
  shows "\<exists>q k'. xQueueGenericCreate len sz (Some a) junk k = Some (Some q, k') \<and>
    queue_sim (unat len) (unat sz) (q, k') []"
proof -
  have p: "0 < unat len" "0 < unat sz" using assms(1,2) by (simp_all add: unat_gt_0)
  have l: "unat (len * sz) = unat len * unat sz" using assms(3) by (simp add: unat_word_ariths)
  show ?thesis
    unfolding xQueueGenericCreate_def prvInitialiseNewQueue_def xQueueGenericReset_def Let_def queue_sim_def
    using p queue_request_fits [OF assms(3)] by (auto simp: l items_def list_initialise_def item_size_def intro!: reset_holds)
qed

section \<open>Property\<close>

text \<open>
  The block that is asked for can be too small for the queue: the request for the structure and the items
  wraps at \<open>2 ^ 32\<close>, and initialising the structure then writes outside the block.
\<close>

theorem queue_size_wraps:
  assumes "unat len * unat sz < 2 ^ 32" "2 ^ 32 \<le> unat sizeof_Queue_t + unat len * unat sz"
  shows "unat (queue_request len sz) < 80 \<and> xQueueGenericCreate len sz (Some a) junk k = None"
  using queue_request_wraps [OF assms]
  by (simp add: xQueueGenericCreate_def sizeof_Queue_t_def word_less_nat_alt)

theorem queue_size_wraps_witness: "xQueueGenericCreate 0x0FFFFFFF 16 (Some 0) (\<lambda>_. 0) reset_kernel = None"
  using queue_size_wraps [where len = "0x0FFFFFFF" and sz = 16 and a = 0 and junk = "\<lambda>_. 0" and k = reset_kernel] by (simp add: sizeof_Queue_t_def)

text \<open>
  Claim C8.  A queue is a bounded double-ended queue.  After \<open>xQueueGenericCreate\<close> of a length and an item
  size that are not 0 and for which the structure (80 bytes) and the items have less than \<open>2 ^ 32\<close> bytes
  (beyond that the allocated block is too small, \<open>queue_size_wraps\<close>), whatever memory is allocated, every sequence of sends to the back, to the front and overwrites,
  receives, peeks, counts and resets, from tasks that do not wait and from interrupts, returns what
  the same sequence returns on a list of at most \<open>len\<close> items: no item is lost, changed or duplicated
  however the positions go round the buffer, a full queue refuses, an empty one has nothing, and no
  byte outside the storage is touched.
\<close>

theorem queue_is_deque:
  assumes "0 < len" "0 < sz" "unat sizeof_Queue_t + unat len * unat sz < 2 ^ 32"
    and "run_calls (deque_call (unat len) (unat sz)) cs [] = Some (rs, xs)"
  shows "\<exists>q k' m. xQueueGenericCreate len sz (Some a) junk k = Some (Some q, k') \<and>
    run_calls queue_call cs (q, k') = Some (rs, m) \<and> queue_sim (unat len) (unat sz) m xs"
proof -
  from new_queue [OF assms(1-3)] obtain q k' where
    q: "xQueueGenericCreate len sz (Some a) junk k = Some (Some q, k')"
      "queue_sim (unat len) (unat sz) (q, k') []" by blast
  from deque_machine.calls [OF q(2) assms(4)] q(1) show ?thesis by blast
qed

theorem queue_is_deque_witness:
  "\<exists>q k' m. xQueueGenericCreate 3 2 (Some 0) (\<lambda>_. 0) reset_kernel = Some (Some q, k') \<and>
    run_calls queue_call [Send queueSEND_TO_BACK [1, 2], Send queueSEND_TO_FRONT [3, 4], Receive True,
      SendFromISR queueSEND_TO_BACK [5, 6], Send queueSEND_TO_BACK [7, 8], Receive False, ReceiveFromISR,
      Send queueSEND_TO_BACK [9, 10], Spaces, Receive False, Messages] (q, k') =
    Some ([Sent True, Sent True, Item (Some [3, 4]), Sent True, Sent False, Item (Some [3, 4]),
      Item (Some [1, 2]), Sent True, Number 1, Item (Some [5, 6]), Number 1], m) \<and>
    queue_sim (unat (3 :: u32)) (unat (2 :: u32)) m [[9, 10]]"
  by (rule queue_is_deque) (simp_all add: numeral_2_eq_2 [symmetric] sizeof_Queue_t_def)

end
