(* ===== verification/Queue_Safe.thy ===== *)
theory Queue_Safe
  imports Queue_Fifo Kernel_Props
begin

text \<open>
  Queues and the scheduler together.  A queue, a semaphore or a mutex and the kernel form a system, whose
  steps are the critical sections of the queue functions, their versions for interrupts and the
  kernel calls, in any order.  Every step succeeds and keeps the invariants of both.
\<close>

section \<open>Waking tasks\<close>

text \<open>What waking a task leaves as it was.\<close>

definition undisturbed :: "kernel \<Rightarrow> kernel \<Rightarrow> bool" where
  "undisturbed k k' \<longleftrightarrow> uxSchedulerSuspended k' = uxSchedulerSuspended k \<and>
     pxCurrentTCB k' = pxCurrentTCB k \<and> tcbs k' = tcbs k \<and> (\<forall>t. is_ready t k \<longrightarrow> is_ready t k')"

lemma undisturbed_refl [simp]: "undisturbed k k"
  by (simp add: undisturbed_def)

lemma undisturbed_trans: "undisturbed k k1 \<Longrightarrow> undisturbed k1 k2 \<Longrightarrow> undisturbed k k2"
  by (simp add: undisturbed_def)

lemma undisturbed_yield [simp]:
  "undisturbed k (portYIELD k') = undisturbed k k'" "undisturbed k (vTaskMissedYield k') = undisturbed k k'"
  by (simp_all add: undisturbed_def portYIELD_def vTaskMissedYield_def)

lemma wake_ok:
  assumes r: "run_inv late N z k"
  shows "\<exists>y k'. wake (EventList l) k = Some (y, k') \<and> run_inv late N z k' \<and> undisturbed k k'"
proof (cases "items (EventList l) k = []")
  case False
  from run_okD(6) [OF r] obtain c where c: "pxCurrentTCB k = Some c" by blast
  from signal_ok [OF run_okD(2) [OF r] False c] obtain t k1 where
    1: "xTaskRemoveFromEventList (EventList l) k =
        Some (if prio k c < prio k t then (True, k1\<lparr>xYieldPending := True\<rparr>) else (False, k1))"
      "same_but t k k1" "\<not> is_ready t k" by blast
  from signal_step [OF r False] obtain k' where
    2: "map_option snd (xTaskRemoveFromEventList (EventList l) k) = Some k'" "run_inv late N z k'" by blast
  from 1(2) have e: "env k1 = env k" by (simp add: same_but_def)
  have "is_ready q k1" if "is_ready q k" for q
    using that 1(3) same_but_ready [OF 1(2), of q] by (cases "q = t") auto
  then have "undisturbed k k1" using envD(1,2,5) [OF e] by (simp add: undisturbed_def)
  then have "undisturbed k k'" using 1(1) 2(1) by (auto simp: undisturbed_def split: if_splits)
  with 2 False show ?thesis by (auto simp: wake_def)
qed (use r in \<open>auto simp: wake_def\<close>)

lemma run_ok_yield [intro]: "run_inv late N z k \<Longrightarrow> run_inv late N z (portYIELD k)"
  "run_inv late N z k \<Longrightarrow> run_inv late N z (vTaskMissedYield k)"
  using run_ok_due run_okD(1) unfolding vTaskMissedYield_def by blast+

lemma run_inv_or: "run_inv late N z k \<Longrightarrow> run_inv (late \<or> b) N z k"
  by (auto simp: run_inv_def)

lemma wake_yield_ok:
  assumes r: "run_inv late N z k"
  shows "\<exists>k'. wake_yield (EventList l) k = Some k' \<and> run_inv late N z k' \<and> undisturbed k k'"
  using wake_ok [OF r, of l] by (auto simp: wake_yield_def)

lemma unlock_loop_ok:
  assumes "run_inv late N z k"
  shows "\<exists>k'. unlock_loop n (EventList l) k = Some k' \<and> run_inv late N z k' \<and> undisturbed k k'"
  using assms
proof (induction n arbitrary: k)
  case (Suc n)
  show ?case
  proof (cases "items (EventList l) k = []")
    case False
    with wake_ok [OF Suc.prems, of l] obtain y k1 where
      1: "xTaskRemoveFromEventList (EventList l) k = Some (y, k1)" "run_inv late N z k1" "undisturbed k k1"
      by (auto simp: wake_def)
    let ?k = "if y then vTaskMissedYield k1 else k1"
    have "run_inv late N z ?k" "undisturbed k ?k" using 1(2,3) by auto
    with Suc.IH [of ?k] False 1(1) undisturbed_trans [of k ?k] show ?thesis by auto
  qed (use Suc.prems in simp)
qed simp

section \<open>Well-formed queues\<close>

definition queue_ok :: "nat set \<Rightarrow> queue \<Rightarrow> bool" where
  "queue_ok N q \<longleftrightarrow> (\<exists>a. xTasksWaitingToSend q = EventList a) \<and>
     (\<exists>b. xTasksWaitingToReceive q = EventList b) \<and> uxMessagesWaiting q \<le> uxLength q \<and>
     (if uxItemSize q = 0 then \<forall>h. pxMutexHolder q = Some h \<longrightarrow> h \<in> N
      else \<not> is_mutex q \<and> (\<exists>n s xs. queue_holds n s xs q))"

lemma unlock_ok:
  assumes r: "run_inv late N z k" and q: "queue_ok N q"
  shows "\<exists>q' k'. prvUnlockQueue q k = Some (q', k') \<and> run_inv late N z k' \<and> undisturbed k k' \<and>
    q' = q\<lparr>cRxLock := queueUNLOCKED, cTxLock := queueUNLOCKED\<rparr>"
proof -
  from q obtain a b where l: "xTasksWaitingToSend q = EventList a" "xTasksWaitingToReceive q = EventList b"
    by (auto simp: queue_ok_def)
  from unlock_loop_ok [OF r] obtain k1 where
    1: "unlock_loop (lock_count (cTxLock q)) (EventList b) k = Some k1" "run_inv late N z k1" "undisturbed k k1" by blast
  from unlock_loop_ok [OF 1(2)] obtain k2 where
    2: "unlock_loop (lock_count (cRxLock q)) (EventList a) k1 = Some k2" "run_inv late N z k2" "undisturbed k1 k2" by blast
  show ?thesis using 1 2 l undisturbed_trans [OF 1(3) 2(3)]
    by (simp add: prvUnlockQueue_def Let_def)
qed

lemma queue_ok_lock [simp]:
  "queue_ok N (q\<lparr>cRxLock := a\<rparr>) = queue_ok N q" "queue_ok N (q\<lparr>cTxLock := b\<rparr>) = queue_ok N q"
  by (simp_all add: queue_ok_def queue_holds_def)

lemma queue_ok_prvLock [simp]: "queue_ok N (prvLockQueue q) = queue_ok N q"
  by (simp add: prvLockQueue_def Let_def)

lemma end_wait_ok:
  assumes r: "run_inv late N z k" and q: "queue_ok N q" and u: "uxSchedulerSuspended k \<noteq> 0"
  shows "\<exists>q' k'. end_wait v q k = Some (q', k') \<and> run_inv late N z k' \<and>
    q' = q\<lparr>cRxLock := queueUNLOCKED, cTxLock := queueUNLOCKED\<rparr>"
proof -
  from unlock_ok [OF r q] obtain k1 where
    1: "prvUnlockQueue q k = Some (q\<lparr>cRxLock := queueUNLOCKED, cTxLock := queueUNLOCKED\<rparr>, k1)"
      "run_inv late N z k1" "undisturbed k k1" by blast
  have "uxSchedulerSuspended k1 \<noteq> 0" using u 1(3) by (simp add: undisturbed_def)
  from resume_all_step [OF 1(2) this] obtain y k2 where
    2: "xTaskResumeAll k1 = Some (y, k2)" "run_inv late N z k2" by auto
  show ?thesis using 1(1) 2 run_ok_yield(1) [OF 2(2)] by (simp add: end_wait_def)
qed

section \<open>Sending and receiving\<close>

text \<open>What a caller of the functions that send keeps to.\<close>

definition may_send :: "u8 list \<Rightarrow> copy_position \<Rightarrow> queue \<Rightarrow> bool" where
  "may_send x pos q \<longleftrightarrow> length x = unat (uxItemSize q) \<and>
     (pos = queueOVERWRITE \<longrightarrow> uxLength q = 1 \<and> uxItemSize q \<noteq> 0)"

text \<open>
  A mutex may be given back if nobody holds it, or if its holder is ready, has no priority to give back
  or holds other mutexes.  The task that gives it need not be the holder: the program's own mutexes are given
  by other tasks and by an interrupt (the assertions against it are empty in this configuration).
\<close>

definition may_give :: "queue \<Rightarrow> kernel \<Rightarrow> bool" where
  "may_give q k \<longleftrightarrow> (is_mutex q \<longrightarrow> (case pxMutexHolder q of None \<Rightarrow> True | Some h \<Rightarrow> may_disinherit h k))"

text \<open>The yield that giving the mutex asks for is dropped, since a task waits for the mutex.\<close>

definition drops_yield :: "queue \<Rightarrow> kernel \<Rightarrow> bool" where
  "drops_yield q k \<longleftrightarrow> is_mutex q \<and> uxMessagesWaiting q < uxLength q \<and>
     items (xTasksWaitingToReceive q) k \<noteq> [] \<and> yield_wanted (pxMutexHolder q) k"

text \<open>Giving a mutex back moves tasks between ready lists only.\<close>

lemma k_remove_elems:
  "k_remove i k = Some (n, k') \<Longrightarrow> container_of i k \<noteq> Some l \<Longrightarrow> elems (lists k') l = elems (lists k) l"
  by (auto simp: k_remove_def list_remove_def container_of_def Let_def split: Option.bind_splits)

lemma k_insert_end_elems:
  "k_insert_end m i k = Some k' \<Longrightarrow> m \<noteq> l \<Longrightarrow> elems (lists k') l = elems (lists k) l"
  by (auto simp: k_insert_end_def list_insert_end_def split: Option.bind_splits if_splits)

lemma ready_list_event [simp]: "ready_list p \<noteq> Some (EventList l)"
  by (simp add: ready_list_def)

lemma add_ready_elems:
  assumes "prvAddTaskToReadyList t k = Some k'"
  shows "elems (lists k') (EventList l) = elems (lists k) (EventList l)"
proof -
  from assms obtain m where "ready_list (prio k t) = Some m"
    "k_insert_end m (StateItem t) (taskRECORD_READY_PRIORITY (prio k t) k) = Some k'"
    by (auto simp: prvAddTaskToReadyList_def taskRECORD_READY_PRIORITY_def Let_def
        split: Option.bind_splits)
  moreover from this(1) have "m \<noteq> EventList l" by auto
  ultimately show ?thesis using k_insert_end_elems by (fastforce simp: taskRECORD_READY_PRIORITY_def)
qed

lemma remove_state_elems:
  assumes "remove_state t k = Some k'" "is_ready t k"
  shows "elems (lists k') (EventList l) = elems (lists k) (EventList l)"
proof -
  from assms(2) have "container_of (StateItem t) k \<noteq> Some (EventList l)" by (auto simp: is_ready_def)
  then have "elems (lists k1) (EventList l) = elems (lists k) (EventList l)"
    if "k_remove (StateItem t) k = Some (n, k1)" for n k1
    using k_remove_elems [OF that] by blast
  with assms(1) show ?thesis
    by (auto simp: remove_state_def taskRESET_READY_PRIORITY_def portRESET_READY_PRIORITY_def
        split: Option.bind_splits if_splits)
qed

lemma disinherit_elems:
  assumes "xTaskPriorityDisinherit (Some t) k = Some (y, k')" "is_ready t k"
  shows "elems (lists k') (EventList l) = elems (lists k) (EventList l)"
proof -
  define k0 where "k0 = set_tcb t (\<lambda>b. b\<lparr>uxMutexesHeld := uxMutexesHeld b - 1\<rparr>) k"
  have k0: "lists k0 = lists k" "is_ready t k0"
    using assms(2) by (simp_all add: k0_def is_ready_def container_of_def set_tcb_def)
  show ?thesis
  proof (cases "prio k0 t \<noteq> uxBasePriority (tcbs k0 t) \<and> uxMutexesHeld (tcbs k0 t) = 0")
    case False
    then show ?thesis using assms(1) k0 by (auto simp: xTaskPriorityDisinherit_def Let_def k0_def [symmetric])
  next
    case True
    with assms(1) obtain k1 where 1: "remove_state t k0 = Some k1"
      by (auto simp: xTaskPriorityDisinherit_def Let_def k0_def [symmetric] split: Option.bind_splits)
    define k2 where "k2 = k_set_value (EventItem t)
      (configMAX_PRIORITIES - prio (set_tcb t (\<lambda>b. b\<lparr>uxPriority := uxBasePriority b\<rparr>) k1) t)
      (set_tcb t (\<lambda>b. b\<lparr>uxPriority := uxBasePriority b\<rparr>) k1)"
    have "prvAddTaskToReadyList t k2 = Some k'"
      using assms(1) True 1 unfolding xTaskPriorityDisinherit_def k2_def
      by (auto simp: Let_def k0_def [symmetric] split: Option.bind_splits)
    moreover have "elems (lists k2) m = elems (lists k1) m" for m
      by (simp add: k2_def k_set_value_def list_set_value_def set_tcb_def)
    ultimately show ?thesis using add_ready_elems [of t k2 k'] remove_state_elems [OF 1 k0(2)] k0(1) by simp
  qed
qed

text \<open>
  Giving it back and waking the first waiting task, or yielding when none waits, keeps the invariant.
\<close>

lemma give_ok:
  assumes r: "run_inv late N z k" and q: "queue_ok N q" and g: "is_mutex q" "may_give q k"
    and l: "xTasksWaitingToReceive q = EventList b" and n: "uxMessagesWaiting q < uxLength q"
  shows "\<exists>y k1 k'. xTaskPriorityDisinherit (pxMutexHolder q) k = Some (y, k1) \<and>
    run_inv (late \<or> drops_yield q k) N z k' \<and>
    (if items (EventList b) k1 \<noteq> [] then wake_yield (EventList b) k1
     else Some (if y then portYIELD k1 else k1)) = Some k'"
proof (cases "pxMutexHolder q")
  case None
  then have "\<not> drops_yield q k" by (simp add: drops_yield_def yield_wanted_def xTaskPriorityDisinherit_def)
  then show ?thesis using None r wake_yield_ok [OF r, of b] by (auto simp: xTaskPriorityDisinherit_def)
next
  case (Some h)
  with g have m: "may_disinherit h k" by (simp add: may_give_def)
  have "uxItemSize q = 0" using q g(1) by (auto simp: queue_ok_def split: if_splits)
  then have hN: "h \<in> N" using q Some by (auto simp: queue_ok_def)
  from disinherit_step [OF r hN m] obtain y k1 where
    1: "xTaskPriorityDisinherit (Some h) k = Some (y, k1)" "run_weak N z k1" "run_inv (late \<or> y) N z k1" by blast
  have el: "items (EventList b) k1 = items (EventList b) k"
  proof (cases "is_ready h k")
    case False
    then have "prio k h = uxBasePriority (tcbs k h) \<or> uxMutexesHeld (tcbs k h) \<noteq> 1"
      using m by (simp add: may_disinherit_def)
    then show ?thesis using 1(1) by (auto simp: xTaskPriorityDisinherit_def Let_def items_def prio_def set_tcb_def)
  qed (use disinherit_elems [OF 1(1), of b] in \<open>simp add: items_def\<close>)
  have d: "drops_yield q k \<longleftrightarrow> items (EventList b) k1 \<noteq> [] \<and> y"
    using g(1) n by (simp add: drops_yield_def l el Some yield_wanted_def 1(1))
  have "\<exists>k'. run_inv (late \<or> drops_yield q k) N z k' \<and> (if items (EventList b) k1 \<noteq> [] then wake_yield (EventList b) k1
     else Some (if y then portYIELD k1 else k1)) = Some k'"
  proof (cases "items (EventList b) k1 = []")
    case True
    then show ?thesis using 1(3) run_ok_due(1) [OF 1(2)] by (cases y) (auto simp: d)
  next
    case False
    then have "run_inv (late \<or> drops_yield q k) N z k1" using 1(3) by (simp add: d)
    from wake_yield_ok [OF this, of b] False show ?thesis by auto
  qed
  with 1(1) show ?thesis unfolding Some by blast
qed

text \<open>What copying an item in does to a queue that is no mutex.\<close>

lemma queue_okD:
  assumes "queue_ok N q"
  obtains a b where "xTasksWaitingToSend q = EventList a" "xTasksWaitingToReceive q = EventList b"
  using assms by (auto simp: queue_ok_def)

lemma one_more:
  fixes m n :: u32
  assumes "m < n"
  shows "m + 1 \<le> n"
  using assms by (rule inc_le)

lemma copy_in_ok:
  assumes q: "queue_ok N q" and x: "may_send x pos q" and m: "\<not> is_mutex q"
    and f: "uxMessagesWaiting q < uxLength q \<or> pos = queueOVERWRITE"
  shows "\<exists>q'. prvCopyDataToQueue x pos q k = Some (False, q', k) \<and> queue_ok N q' \<and>
    xTasksWaitingToReceive q' = xTasksWaitingToReceive q"
proof (cases "uxItemSize q = 0")
  case True
  with x f have "uxMessagesWaiting q < uxLength q" by (auto simp: may_send_def)
  then show ?thesis using True q m one_more by (auto simp: prvCopyDataToQueue_def queue_ok_def)
next
  case False
  with q obtain n s xs where h: "queue_holds n s xs q" by (auto simp: queue_ok_def)
  note Q = queue_holdsD [OF h]
  have lx: "length x = s" using x Q(4) by (simp add: may_send_def)
  have "\<exists>zs q'. prvCopyDataToQueue x pos q k = Some (False, q', k) \<and> queue_holds n s zs q' \<and>
      xTasksWaitingToReceive q' = xTasksWaitingToReceive q \<and>
      xTasksWaitingToSend q' = xTasksWaitingToSend q"
  proof (cases pos)
    case queueSEND_TO_BACK
    with f holds_count(1) [OF h] have "length xs < n" by simp
    from copy_back [OF h lx this] queueSEND_TO_BACK show ?thesis by blast
  next
    case queueSEND_TO_FRONT
    with f holds_count(1) [OF h] have "length xs < n" by simp
    with copy_front [OF h lx, of pos xs k] queueSEND_TO_FRONT show ?thesis by auto
  next
    case queueOVERWRITE
    with x Q(3) have "n = 1" by (simp add: may_send_def)
    with copy_front [OF h lx, of pos "[]" k] queueOVERWRITE show ?thesis by auto
  qed
  then obtain zs q' where c: "prvCopyDataToQueue x pos q k = Some (False, q', k)" "queue_holds n s zs q'"
    "xTasksWaitingToReceive q' = xTasksWaitingToReceive q"
    "xTasksWaitingToSend q' = xTasksWaitingToSend q" by blast
  have "uxMessagesWaiting q' \<le> uxLength q'" "uxItemSize q' \<noteq> 0"
    using queue_holdsD [OF c(2)] by (simp_all add: word_le_nat_alt)
  then have "queue_ok N q'" using q c(2-4) copy_is_mutex [OF c(1)] m by (auto simp: queue_ok_def)
  with c(1,3) show ?thesis by blast
qed

lemma send_try_ok:
  assumes r: "run_inv late N z k" and q: "queue_ok N q" and x: "may_send x pos q" and g: "may_give q k"
  shows "\<exists>a to' q' k'. send_try x w pos to q k = Some (a, to', q', k') \<and>
    run_inv (late \<or> drops_yield q k) N z k' \<and> queue_ok N q' \<and>
    (a = MustWait \<longrightarrow> w \<noteq> 0 \<and> to' \<noteq> None \<and> q' = q \<and> k' = k)"
proof (cases "uxMessagesWaiting q < uxLength q \<or> pos = queueOVERWRITE")
  case False
  then show ?thesis using run_inv_or [OF r] q by (simp add: send_try_def)
next
  case True
  from q obtain a b where l: "xTasksWaitingToSend q = EventList a" "xTasksWaitingToReceive q = EventList b"
    by (rule queue_okD)
  show ?thesis
  proof (cases "is_mutex q")
    case False
    then have "\<not> drops_yield q k" by (simp add: drops_yield_def)
    from copy_in_ok [OF q x False True] obtain q' where
      c: "prvCopyDataToQueue x pos q k = Some (False, q', k)" "queue_ok N q'"
        "xTasksWaitingToReceive q' = EventList b" using l(2) by metis
    show ?thesis using True c r wake_yield_ok [OF r, of b] \<open>\<not> drops_yield q k\<close> by (auto simp: send_try_def)
  next
    case mu: True
    from q mu have i0: "uxItemSize q = 0" by (auto simp: queue_ok_def split: if_splits)
    with x True have lt: "uxMessagesWaiting q < uxLength q" by (auto simp: may_send_def)
    from give_ok [OF r q mu g l(2) lt] obtain y k1 k' where
      1: "xTaskPriorityDisinherit (pxMutexHolder q) k = Some (y, k1)" "run_inv (late \<or> drops_yield q k) N z k'"
        "(if items (EventList b) k1 \<noteq> [] then wake_yield (EventList b) k1
          else Some (if y then portYIELD k1 else k1)) = Some k'" by blast
    let ?q = "q\<lparr>pxMutexHolder := None, uxMessagesWaiting := uxMessagesWaiting q + 1\<rparr>"
    have "send_try x w pos to q k = Some (Returned True, to, ?q, k')"
      using lt i0 mu 1(1,3) l(2)
      by (cases "items (EventList b) k1 = []") (simp_all add: send_try_def prvCopyDataToQueue_def)
    moreover have "queue_ok N ?q" using q i0 lt one_more by (simp add: queue_ok_def)
    ultimately show ?thesis using 1(2) by blast
  qed
qed

text \<open>What copying an item out does.\<close>

lemma one_less:
  fixes m n :: u32
  assumes "0 < m" "m \<le> n"
  shows "m - 1 \<le> n"
proof -
  have "unat (m - 1) = unat m - 1" using assms(1) by (intro u32_pred) auto
  with assms(2) show ?thesis by (simp add: word_le_nat_alt)
qed

lemma copy_out_ok:
  assumes q: "queue_ok N q" and f: "uxMessagesWaiting q > 0"
  shows "\<exists>x p. prvCopyDataFromQueue q = Some (x, q\<lparr>pcReadFrom := p\<rparr>) \<and>
    queue_ok N (q\<lparr>pcReadFrom := p, uxMessagesWaiting := uxMessagesWaiting q - 1\<rparr>)"
proof (cases "uxItemSize q = 0")
  case True
  then have "prvCopyDataFromQueue q = Some ([], q\<lparr>pcReadFrom := pcReadFrom q\<rparr>)"
    by (simp add: prvCopyDataFromQueue_def)
  moreover have "queue_ok N (q\<lparr>pcReadFrom := pcReadFrom q, uxMessagesWaiting := uxMessagesWaiting q - 1\<rparr>)"
    using q True f one_less by (auto simp: queue_ok_def)
  ultimately show ?thesis by blast
next
  case False
  with q obtain n s xs where h: "queue_holds n s xs q" by (auto simp: queue_ok_def)
  with f holds_count(2) [OF h] obtain x ys where "queue_holds n s (x # ys) q" by (cases xs) auto
  from copy_out [OF this] obtain p where
    p: "prvCopyDataFromQueue q = Some (x, q\<lparr>pcReadFrom := p\<rparr>)"
      "queue_holds n s ys (q\<lparr>pcReadFrom := p, uxMessagesWaiting := uxMessagesWaiting q - 1\<rparr>)" by blast
  have "uxMessagesWaiting q - 1 \<le> uxLength q" using q f one_less by (simp add: queue_ok_def)
  with p(2) q False have "queue_ok N (q\<lparr>pcReadFrom := p, uxMessagesWaiting := uxMessagesWaiting q - 1\<rparr>)"
    by (auto simp: queue_ok_def)
  with p(1) show ?thesis by blast
qed

lemma queue_ok_read [simp]: "queue_ok N (q\<lparr>pcReadFrom := pcReadFrom q\<rparr>) = queue_ok N q"
  by simp

lemma take_ok:
  assumes r: "run_inv late N z k" and q: "queue_ok N q" and l: "xTasksWaitingToSend q = EventList a"
  shows "\<exists>q' k' k2. (if is_mutex q
      then (case pvTaskIncrementMutexHeldCount k of (h, k) \<Rightarrow> (q\<lparr>pxMutexHolder := h\<rparr>, k)) else (q, k)) = (q', k') \<and>
    wake_yield (xTasksWaitingToSend q') k' = Some k2 \<and> queue_ok N q' \<and> run_inv late N z k2"
proof (cases "is_mutex q")
  case False
  then show ?thesis using r q l wake_yield_ok [OF r, of a] by auto
next
  case True
  from run_okD(6) [OF r] obtain c where c: "pxCurrentTCB k = Some c" "c \<in> N" by blast
  define k1 where "k1 = snd (pvTaskIncrementMutexHeldCount k)"
  have p: "pvTaskIncrementMutexHeldCount k = (Some c, k1)"
    using c(1) by (simp add: pvTaskIncrementMutexHeldCount_def k1_def)
  have "run_inv late N z k1" using take_mutex_step [OF r] by (simp add: k1_def)
  from wake_yield_ok [OF this, of a] True p l q c(2) show ?thesis
    by (auto simp: queue_ok_def split: if_splits)
qed

lemma receive_try_ok:
  assumes r: "run_inv late N z k" and q: "queue_ok N q"
  shows "\<exists>a to' q' k'. receive_try w peek to q k = Some (a, to', q', k') \<and> run_inv late N z k' \<and> queue_ok N q' \<and>
    (a = MustWait \<longrightarrow> w \<noteq> 0 \<and> to' \<noteq> None \<and> q' = q \<and> k' = k)"
proof (cases "uxMessagesWaiting q > 0")
  case False
  then show ?thesis using r q by (simp add: receive_try_def)
next
  case True
  from q obtain a b where l: "xTasksWaitingToSend q = EventList a" "xTasksWaitingToReceive q = EventList b"
    by (rule queue_okD)
  from copy_out_ok [OF q True] obtain x p where
    c: "prvCopyDataFromQueue q = Some (x, q\<lparr>pcReadFrom := p\<rparr>)"
      "queue_ok N (q\<lparr>pcReadFrom := p, uxMessagesWaiting := uxMessagesWaiting q - 1\<rparr>)" by blast
  show ?thesis
  proof (cases peek)
    case peek: True
    from wake_yield_ok [OF r, of b] show ?thesis using peek True c(1) q l by (auto simp: receive_try_def)
  next
    case False
    let ?q = "q\<lparr>pcReadFrom := p, uxMessagesWaiting := uxMessagesWaiting q - 1\<rparr>"
    have "xTasksWaitingToSend ?q = EventList a" using l by simp
    from take_ok [OF r c(2) this] obtain q' k' k2 where
      1: "(if is_mutex ?q
        then (case pvTaskIncrementMutexHeldCount k of (h, k) \<Rightarrow> (?q\<lparr>pxMutexHolder := h\<rparr>, k)) else (?q, k)) = (q', k')"
        "wake_yield (xTasksWaitingToSend q') k' = Some k2" "queue_ok N q'" "run_inv late N z k2" by blast
    have "receive_try w peek to q k = Some (Returned (Some x), to, q', k2)"
      using True False unfolding receive_try_def Let_def c(1) Option.bind.bind_lunit prod.case
      by (simp add: 1(1) [simplified] 1(2))
    with 1(3,4) show ?thesis by blast
  qed
qed

section \<open>Waiting\<close>

lemma time_left: "xTaskCheckForTimeOut to w k = (False, to', w') \<Longrightarrow> w' \<noteq> 0"
  by (auto simp: xTaskCheckForTimeOut_def Let_def portMAX_DELAY_def split: if_splits)

lemma send_wait_ok:
  assumes r: "run_inv late N z k" and q: "queue_ok N q" and b: "may_block z k"
  shows "\<exists>v to' w' k'. send_wait to w q k = Some (v, to', w', k') \<and> run_inv late N z k' \<and>
    uxSchedulerSuspended k' \<noteq> 0"
proof -
  from q obtain a where l: "xTasksWaitingToSend q = EventList a" by (auto simp: queue_ok_def)
  have u: "uxSchedulerSuspended k \<noteq> 0" using b by (simp add: may_block_def)
  obtain e to' w' where t: "xTaskCheckForTimeOut to w k = (e, to', w')" by (metis prod_cases3)
  show ?thesis
  proof (cases "e \<or> \<not> prvIsQueueFull q")
    case True
    then show ?thesis using t r u by (cases e) (simp_all add: send_wait_def)
  next
    case False
    then have "w' \<noteq> 0" using t time_left [of to w k to' w'] by simp
    from b obtain c where c: "pxCurrentTCB k = Some c" "is_ready c k" by (auto simp: may_block_def split: option.splits)
    from place_ok [OF run_okD(2) [OF r] c \<open>w' \<noteq> 0\<close>, of a] block_step(2) [OF r b \<open>w' \<noteq> 0\<close>, of a] obtain k' where
      1: "vTaskPlaceOnEventList (EventList a) w' k = Some k'" "same_but c k k'" "run_inv late N z k'" by auto
    have "env k' = env k" using 1(2) by (simp add: same_but_def)
    from envD(5) [OF this] show ?thesis using t False l 1 u by (simp add: send_wait_def)
  qed
qed

text \<open>The task that waits for a mutex is still ready and running after it has lent its priority.\<close>

lemma lend_ok:
  assumes r: "run_inv late N z k" and h: "\<And>t. h = Some t \<Longrightarrow> t \<in> N" and c: "pxCurrentTCB k = Some c"
  shows "\<exists>k'. vTaskPriorityInherit h k = Some k' \<and> run_inv late N z k' \<and> pxCurrentTCB k' = Some c \<and>
    uxSchedulerSuspended k' = uxSchedulerSuspended k \<and> (\<forall>q. is_ready q k' \<longleftrightarrow> is_ready q k) \<and>
    (\<forall>t. h = Some t \<longrightarrow> prio k c \<le> prio k' t)"
proof (cases h)
  case None
  then show ?thesis using r c by (simp add: vTaskPriorityInherit_def)
next
  case (Some t)
  then have tN: "t \<in> N" using h by blast
  from inherit_ok [OF run_okD(2) [OF r] tN c] inherit_step [OF r tN] obtain k' where
    1: "vTaskPriorityInherit (Some t) k = Some k'" "reprio t k k'" "run_inv late N z k'"
      "tcbs k' t = (tcbs k t)\<lparr>uxPriority := max (prio k t) (prio k c)\<rparr>" by auto
  note P = reprioD [OF 1(2)]
  have "prio k' t = max (prio k t) (prio k c)" by (simp add: prio_def 1(4))
  then show ?thesis using 1(1,3) P(1,4,10) c Some by (simp add: max.coboundedI2)
qed

lemma same_time:
  "k_remove i k = Some (n, k') \<Longrightarrow> xTickCount k' = xTickCount k"
  "k_insert_end l i k = Some k' \<Longrightarrow> xTickCount k' = xTickCount k"
  by (auto simp: k_remove_def k_insert_end_def split: Option.bind_splits)

lemma same_time_ready:
  "taskRESET_READY_PRIORITY p k = Some k' \<Longrightarrow> xTickCount k' = xTickCount k"
  "remove_state t k = Some k' \<Longrightarrow> xTickCount k' = xTickCount k"
  "prvAddTaskToReadyList t k = Some k' \<Longrightarrow> xTickCount k' = xTickCount k"
proof -
  show 1: "taskRESET_READY_PRIORITY p k = Some k' \<Longrightarrow> xTickCount k' = xTickCount k" for p k k'
    by (auto simp: taskRESET_READY_PRIORITY_def portRESET_READY_PRIORITY_def split: Option.bind_splits)
  show "remove_state t k = Some k' \<Longrightarrow> xTickCount k' = xTickCount k"
    by (auto simp: remove_state_def dest!: same_time(1) 1 split: Option.bind_splits if_splits)
  show "prvAddTaskToReadyList t k = Some k' \<Longrightarrow> xTickCount k' = xTickCount k"
    by (auto simp: prvAddTaskToReadyList_def taskRECORD_READY_PRIORITY_def dest!: same_time(2)
        split: Option.bind_splits)
qed

lemma inherit_time: "vTaskPriorityInherit h k = Some k' \<Longrightarrow> xTickCount k' = xTickCount k"
  by (auto simp: vTaskPriorityInherit_def set_event_value_def k_set_value_def set_tcb_def Let_def
      dest!: same_time_ready(2,3) split: option.splits Option.bind_splits if_splits)

lemma receive_wait_ok:
  assumes r: "run_inv late N z k" and q: "queue_ok N q" and b: "may_block z k"
  shows "\<exists>v to' w' k'. receive_wait to w q k = Some (v, to', w', k') \<and> run_inv late N z k' \<and>
    uxSchedulerSuspended k' \<noteq> 0"
proof -
  from q obtain l where l: "xTasksWaitingToReceive q = EventList l" by (auto simp: queue_ok_def)
  have m: "is_mutex q \<longrightarrow> uxItemSize q = 0" using q by (auto simp: queue_ok_def split: if_splits)
  have u: "uxSchedulerSuspended k \<noteq> 0" using b by (simp add: may_block_def)
  obtain e to' w' where t: "xTaskCheckForTimeOut to w k = (e, to', w')" by (metis prod_cases3)
  show ?thesis
  proof (cases "e \<or> \<not> prvIsQueueEmpty q")
    case True
    then show ?thesis using t r u by (cases e) (simp_all add: receive_wait_def)
  next
    case False
    then have w: "w' \<noteq> 0" using t time_left [of to w k to' w'] by simp
    from b obtain c where c: "pxCurrentTCB k = Some c" "is_ready c k" "c \<noteq> z"
      by (auto simp: may_block_def split: option.splits)
    have "\<exists>k1. (if is_mutex q then vTaskPriorityInherit (pxMutexHolder q) k else Some k) = Some k1 \<and>
        run_inv late N z k1 \<and> pxCurrentTCB k1 = Some c \<and> uxSchedulerSuspended k1 \<noteq> 0 \<and> is_ready c k1"
    proof (cases "is_mutex q")
      case True
      have "t \<in> N" if "pxMutexHolder q = Some t" for t using q m True that by (simp add: queue_ok_def)
      from lend_ok [OF r _ c(1), of "pxMutexHolder q", OF this] True u c(2) show ?thesis by auto
    qed (use r u c in simp)
    then obtain k1 where
      1: "(if is_mutex q then vTaskPriorityInherit (pxMutexHolder q) k else Some k) = Some k1"
        "run_inv late N z k1" "pxCurrentTCB k1 = Some c" "uxSchedulerSuspended k1 \<noteq> 0" "is_ready c k1" by blast
    have b1: "may_block z k1" using 1(3-5) c(3) by (simp add: may_block_def)
    from place_ok [OF run_okD(2) [OF 1(2)] 1(3,5) w, of l] block_step(2) [OF 1(2) b1 w, of l] obtain k' where
      2: "vTaskPlaceOnEventList (EventList l) w' k1 = Some k'" "same_but c k1 k'" "run_inv late N z k'" by auto
    have "env k' = env k1" using 2(2) by (simp add: same_but_def)
    from envD(5) [OF this] show ?thesis using t False l 1(1,4) 2(1,3) by (simp add: receive_wait_def)
  qed
qed

section \<open>Whole rounds\<close>

lemma suspend_all_ok:
  assumes "run_inv late N z k" "uxSchedulerSuspended k \<noteq> - 1"
  shows "run_inv late N z (vTaskSuspendAll k)"
  using run_ok_step [of late N z k SuspendAll] assms by simp

lemma may_block_suspended:
  assumes "pxCurrentTCB k = Some c" "c \<noteq> z" "is_ready c k" "uxSchedulerSuspended k \<noteq> - 1"
  shows "may_block z (vTaskSuspendAll k)"
proof -
  have "uxSchedulerSuspended k + 1 \<noteq> 0" using assms(4) by (metis add.commute eq_neg_iff_add_eq_0)
  with assms(1-3) show ?thesis by (simp add: may_block_def vTaskSuspendAll_def)
qed

text \<open>A caller that may wait: a task other than the idle task, with the scheduler not suspended.\<close>

definition may_wait :: "nat \<Rightarrow> kernel \<Rightarrow> bool" where
  "may_wait z k \<longleftrightarrow> uxSchedulerSuspended k = 0 \<and>
     (case pxCurrentTCB k of None \<Rightarrow> False | Some c \<Rightarrow> c \<noteq> z \<and> is_ready c k)"

lemma may_waitD:
  assumes "may_wait z k" "run_inv late N z k"
  shows "may_block z (vTaskSuspendAll k)" "run_inv late N z (vTaskSuspendAll k)"
proof -
  have u: "uxSchedulerSuspended k \<noteq> - 1" using assms(1) by (simp add: may_wait_def)
  from assms(1) obtain c where "pxCurrentTCB k = Some c" "c \<noteq> z" "is_ready c k"
    by (auto simp: may_wait_def split: option.splits)
  from may_block_suspended [OF this u] show "may_block z (vTaskSuspendAll k)" .
  show "run_inv late N z (vTaskSuspendAll k)" by (rule suspend_all_ok [OF assms(2) u])
qed

lemma send_round_ok:
  assumes r: "run_inv late N z k" and q: "queue_ok N q" and x: "may_send x pos q" and g: "may_give q k"
    and w: "w = 0 \<or> may_wait z k"
  shows "\<exists>v to' w' q' k'. xQueueGenericSend x w pos to q k = Some (v, to', w', q', k') \<and>
    run_inv (late \<or> drops_yield q k) N z k' \<and> queue_ok N q'"
proof -
  from send_try_ok [OF r q x g, of w to] obtain a to1 q1 k1 where
    1: "send_try x w pos to q k = Some (a, to1, q1, k1)" "run_inv (late \<or> drops_yield q k) N z k1" "queue_ok N q1"
      "a = MustWait \<longrightarrow> w \<noteq> 0 \<and> to1 \<noteq> None \<and> q1 = q \<and> k1 = k" by blast
  show ?thesis
  proof (cases a)
    case (Returned b)
    then show ?thesis using 1 by (simp add: xQueueGenericSend_def)
  next
    case MustWait
    with 1(4) w obtain t where t: "to1 = Some t" "q1 = q" "k1 = k" "may_wait z k" by auto
    note m = may_waitD [OF t(4) r]
    have ql: "queue_ok N (prvLockQueue q)" using q by simp
    from send_wait_ok [OF m(2) ql m(1)] obtain v t' w' k2 where
      2: "send_wait t w (prvLockQueue q) (vTaskSuspendAll k) = Some (v, t', w', k2)" "run_inv late N z k2"
        "uxSchedulerSuspended k2 \<noteq> 0" by blast
    from end_wait_ok [OF 2(2) ql 2(3)] obtain q3 k3 where
      3: "end_wait v (prvLockQueue q) k2 = Some (q3, k3)" "run_inv late N z k3"
        "q3 = (prvLockQueue q)\<lparr>cRxLock := queueUNLOCKED, cTxLock := queueUNLOCKED\<rparr>" by blast
    have "queue_ok N q3" using ql by (simp add: 3(3))
    with 3(1) run_inv_or [OF 3(2)] show ?thesis
      using 1(1) 2(1) t MustWait by (simp add: xQueueGenericSend_def Let_def)
  qed
qed

lemma receive_round_ok:
  assumes r: "run_inv late N z k" and q: "queue_ok N q" and w: "w = 0 \<or> may_wait z k"
  shows "\<exists>v to' w' q' k'. xQueueGenericReceive w peek to q k = Some (v, to', w', q', k') \<and>
    run_inv late N z k' \<and> queue_ok N q'"
proof -
  from receive_try_ok [OF r q, of w peek to] obtain a to1 q1 k1 where
    1: "receive_try w peek to q k = Some (a, to1, q1, k1)" "run_inv late N z k1" "queue_ok N q1"
      "a = MustWait \<longrightarrow> w \<noteq> 0 \<and> to1 \<noteq> None \<and> q1 = q \<and> k1 = k" by blast
  show ?thesis
  proof (cases a)
    case (Returned b)
    then show ?thesis using 1 by (simp add: xQueueGenericReceive_def)
  next
    case MustWait
    with 1(4) w obtain t where t: "to1 = Some t" "q1 = q" "k1 = k" "may_wait z k" by auto
    note m = may_waitD [OF t(4) r]
    have ql: "queue_ok N (prvLockQueue q)" using q by simp
    from receive_wait_ok [OF m(2) ql m(1)] obtain v t' w' k2 where
      2: "receive_wait t w (prvLockQueue q) (vTaskSuspendAll k) = Some (v, t', w', k2)" "run_inv late N z k2"
        "uxSchedulerSuspended k2 \<noteq> 0" by blast
    from end_wait_ok [OF 2(2) ql 2(3)] obtain q3 k3 where
      3: "end_wait v (prvLockQueue q) k2 = Some (q3, k3)" "run_inv late N z k3"
        "q3 = (prvLockQueue q)\<lparr>cRxLock := queueUNLOCKED, cTxLock := queueUNLOCKED\<rparr>" by blast
    have "queue_ok N q3" using ql by (simp add: 3(3))
    with 3(1,2) show ?thesis using 1(1) 2(1) t MustWait by (simp add: xQueueGenericReceive_def Let_def)
  qed
qed

section \<open>Interrupts\<close>

lemma send_isr_ok:
  assumes r: "run_inv late N z k" and q: "queue_ok N q" and x: "may_send x pos q" and m: "\<not> is_mutex q"
  shows "\<exists>v w q' k'. xQueueGenericSendFromISR x pos q k = Some (v, w, q', k') \<and> run_inv late N z k' \<and> queue_ok N q'"
proof (cases "uxMessagesWaiting q < uxLength q \<or> pos = queueOVERWRITE")
  case True
  from q obtain a b where "xTasksWaitingToReceive q = EventList b" by (rule queue_okD)
  with copy_in_ok [OF q x m True] obtain q' where
    "prvCopyDataToQueue x pos q k = Some (False, q', k)" "queue_ok N q'"
      "xTasksWaitingToReceive q' = EventList b" by metis
  with True r wake_ok [OF r, of b] show ?thesis by (auto simp: xQueueGenericSendFromISR_def Let_def)
qed (use r q in \<open>auto simp: xQueueGenericSendFromISR_def\<close>)

lemma give_isr_ok:
  assumes r: "run_inv late N z k" and q: "queue_ok N q" and i: "uxItemSize q = 0"
  shows "\<exists>v w q' k'. xQueueGiveFromISR q k = Some (v, w, q', k') \<and> run_inv late N z k' \<and> queue_ok N q'"
proof (cases "uxMessagesWaiting q < uxLength q")
  case True
  from q obtain a b where "xTasksWaitingToReceive q = EventList b" by (rule queue_okD)
  moreover have "queue_ok N (q\<lparr>uxMessagesWaiting := uxMessagesWaiting q + 1\<rparr>)"
    using q i True one_more by (simp add: queue_ok_def)
  ultimately show ?thesis using True r wake_ok [OF r, of b] by (auto simp: xQueueGiveFromISR_def Let_def)
qed (use r q in \<open>auto simp: xQueueGiveFromISR_def\<close>)

lemma receive_isr_ok:
  assumes r: "run_inv late N z k" and q: "queue_ok N q"
  shows "\<exists>v w q' k'. xQueueReceiveFromISR q k = Some (v, w, q', k') \<and> run_inv late N z k' \<and> queue_ok N q'"
proof (cases "uxMessagesWaiting q > 0")
  case True
  from q obtain a b where l: "xTasksWaitingToSend q = EventList a" by (rule queue_okD)
  from copy_out_ok [OF q True] obtain x p where
    "prvCopyDataFromQueue q = Some (x, q\<lparr>pcReadFrom := p\<rparr>)"
    "queue_ok N (q\<lparr>pcReadFrom := p, uxMessagesWaiting := uxMessagesWaiting q - 1\<rparr>)" by blast
  with True r wake_ok [OF r, of a] l show ?thesis by (auto simp: xQueueReceiveFromISR_def Let_def)
qed (use r q in \<open>auto simp: xQueueReceiveFromISR_def\<close>)

lemma reset_queue_ok:
  assumes r: "run_inv late N z k" and q: "queue_ok N q"
  shows "\<exists>q' k'. xQueueGenericReset False q k = Some (q', k') \<and> run_inv late N z k' \<and> queue_ok N q'"
proof -
  from q obtain a b where l: "xTasksWaitingToSend q = EventList a" by (rule queue_okD)
  let ?q = "q\<lparr>pxMutexHolder := None, uxMessagesWaiting := 0, pcWriteTo := 0,
    pcReadFrom := (int (unat (uxLength q)) - 1) * item_size q,
    cRxLock := queueUNLOCKED, cTxLock := queueUNLOCKED\<rparr>"
  have "queue_ok N ?q"
  proof (cases "uxItemSize q = 0")
    case False
    with q obtain n s xs where h: "queue_holds n s xs q" by (auto simp: queue_ok_def)
    have "queue_holds n s [] ?q"
      using queue_holdsD [OF h] by (intro reset_holds) (simp_all add: item_size_def)
    with q False show ?thesis by (auto simp: queue_ok_def)
  qed (use q in \<open>simp add: queue_ok_def\<close>)
  with wake_yield_ok [OF r, of a] l show ?thesis by (auto simp: xQueueGenericReset_def Let_def)
qed

section \<open>The system\<close>

text \<open>
  A step of the kernel, a whole call from a task (one round when it waits), its parts between which
  interrupts fall (the waiting itself is made of the kernel's \<open>Wait\<close>, \<open>Inherit\<close> and \<open>ResumeAll\<close>), and the
  calls from interrupts.  The time-out is kept by the caller.
\<close>

datatype queue_op =
    Kernel call
  | TaskSend copy_position "u8 list" u32 "time_out option"
  | TaskReceive bool u32 "time_out option"
  | TrySend copy_position "u8 list" u32 "time_out option"
  | TryReceive bool u32 "time_out option"
  | Lock
  | Unlock
  | IsrSend copy_position "u8 list"
  | IsrGive
  | IsrReceive
  | ResetQueue

fun queue_step :: "queue_op \<Rightarrow> queue \<times> kernel \<Rightarrow> (queue \<times> kernel) option" where
  "queue_step (Kernel c) (q, k) = do { k \<leftarrow> kstep c k; Some (q, k) }"
| "queue_step (TaskSend pos x w to) (q, k) =
     do { (v, to, w, q, k) \<leftarrow> xQueueGenericSend x w pos to q k; Some (q, k) }"
| "queue_step (TaskReceive peek w to) (q, k) =
     do { (v, to, w, q, k) \<leftarrow> xQueueGenericReceive w peek to q k; Some (q, k) }"
| "queue_step (TrySend pos x w to) (q, k) =
     do { (a, to, q, k) \<leftarrow> send_try x w pos to q k; Some (q, k) }"
| "queue_step (TryReceive peek w to) (q, k) =
     do { (a, to, q, k) \<leftarrow> receive_try w peek to q k; Some (q, k) }"
| "queue_step Lock (q, k) = Some (prvLockQueue q, vTaskSuspendAll k)"
| "queue_step Unlock (q, k) = prvUnlockQueue q k"
| "queue_step (IsrSend pos x) (q, k) =
     do { (v, w, q, k) \<leftarrow> xQueueGenericSendFromISR x pos q k; Some (q, if w then portYIELD k else k) }"
| "queue_step IsrGive (q, k) =
     do { (v, w, q, k) \<leftarrow> xQueueGiveFromISR q k; Some (q, if w then portYIELD k else k) }"
| "queue_step IsrReceive (q, k) =
     do { (v, w, q, k) \<leftarrow> xQueueReceiveFromISR q k; Some (q, if w then portYIELD k else k) }"
| "queue_step ResetQueue (q, k) = xQueueGenericReset False q k"

text \<open>What the callers keep to; \<open>z\<close> is the idle task.\<close>

fun allowed :: "nat set \<Rightarrow> nat \<Rightarrow> queue_op \<Rightarrow> queue \<Rightarrow> kernel \<Rightarrow> bool" where
  "allowed N z (Kernel c) q k = enabled N z c k"
| "allowed N z (TaskSend pos x w to) q k = (may_send x pos q \<and> may_give q k \<and> (w = 0 \<or> may_wait z k))"
| "allowed N z (TaskReceive peek w to) q k = (w = 0 \<or> may_wait z k)"
| "allowed N z (TrySend pos x w to) q k = (may_send x pos q \<and> may_give q k)"
| "allowed N z Lock q k = (uxSchedulerSuspended k \<noteq> - 1)"
| "allowed N z (IsrSend pos x) q k = (may_send x pos q \<and> \<not> is_mutex q)"
| "allowed N z IsrGive q k = (uxItemSize q = 0)"
| "allowed N z _ q k = True"

text \<open>When the running task may be late to leave, as for the kernel's calls.\<close>

fun qlate_after :: "queue_op \<Rightarrow> queue \<Rightarrow> kernel \<Rightarrow> bool \<Rightarrow> bool" where
  "qlate_after (Kernel c) q k late = late_after c k late"
| "qlate_after (TaskSend pos x w to) q k late = (late \<or> drops_yield q k)"
| "qlate_after (TrySend pos x w to) q k late = (late \<or> drops_yield q k)"
| "qlate_after _ q k late = late"

lemma queue_step_ok:
  assumes r: "run_inv late N z k" and q: "queue_ok N q" and a: "allowed N z c q k"
  shows "\<exists>q' k'. queue_step c (q, k) = Some (q', k') \<and> run_inv (qlate_after c q k late) N z k' \<and> queue_ok N q'"
proof (cases c)
  case (Kernel d)
  with run_ok_step [OF r, of d] a q show ?thesis by auto
next
  case (TaskSend pos x w to)
  with send_round_ok [OF r q, of x pos w to] a show ?thesis by auto
next
  case (TaskReceive peek w to)
  with receive_round_ok [OF r q, of w peek to] a show ?thesis by auto
next
  case (TrySend pos x w to)
  with send_try_ok [OF r q, of x pos w to] a show ?thesis by auto
next
  case (TryReceive peek w to)
  with receive_try_ok [OF r q, of w peek to] show ?thesis by auto
next
  case Lock
  with suspend_all_ok [OF r] a q show ?thesis by simp
next
  case Unlock
  with unlock_ok [OF r q] q show ?thesis by auto
next
  case (IsrSend pos x)
  with send_isr_ok [OF r q, of x pos] a show ?thesis by auto
next
  case IsrGive
  with give_isr_ok [OF r q] a show ?thesis by auto
next
  case IsrReceive
  with receive_isr_ok [OF r q] show ?thesis by auto
next
  case ResetQueue
  with reset_queue_ok [OF r q] show ?thesis by simp
qed

text \<open>The reachable states, from a queue or a mutex that is created while the system runs or before.\<close>

inductive qreach :: "u32 list \<Rightarrow> queue \<times> kernel \<Rightarrow> bool" for ps where
  qreach_queue: "reach ps k \<Longrightarrow> 0 < len \<Longrightarrow> unat len * unat sz < 2 ^ 32 \<Longrightarrow>
    items (EventList (2 * a)) k = [] \<Longrightarrow> items (EventList (2 * a + 1)) k = [] \<Longrightarrow>
    xQueueGenericCreate len sz (Some a) junk k = Some (Some q, k') \<Longrightarrow> qreach ps (q, k')"
| qreach_mutex: "reach ps k \<Longrightarrow>
    items (EventList (2 * a)) k = [] \<Longrightarrow> items (EventList (2 * a + 1)) k = [] \<Longrightarrow>
    xQueueCreateMutex (Some a) k = Some (Some q, k') \<Longrightarrow> qreach ps (q, k')"
| qreach_step: "qreach ps (q, k) \<Longrightarrow> allowed {..length ps} (length ps) c q k \<Longrightarrow>
    queue_step c (q, k) = Some m \<Longrightarrow> qreach ps m"

text \<open>The same with the account of yields that were dropped.\<close>

inductive qreach_late :: "u32 list \<Rightarrow> bool \<Rightarrow> queue \<times> kernel \<Rightarrow> bool" for ps where
  qlate_queue: "reach_late ps late k \<Longrightarrow> 0 < len \<Longrightarrow> unat len * unat sz < 2 ^ 32 \<Longrightarrow>
    items (EventList (2 * a)) k = [] \<Longrightarrow> items (EventList (2 * a + 1)) k = [] \<Longrightarrow>
    xQueueGenericCreate len sz (Some a) junk k = Some (Some q, k') \<Longrightarrow> qreach_late ps late (q, k')"
| qlate_mutex: "reach_late ps late k \<Longrightarrow>
    items (EventList (2 * a)) k = [] \<Longrightarrow> items (EventList (2 * a + 1)) k = [] \<Longrightarrow>
    xQueueCreateMutex (Some a) k = Some (Some q, k') \<Longrightarrow> qreach_late ps late (q, k')"
| qlate_step: "qreach_late ps late (q, k) \<Longrightarrow> allowed {..length ps} (length ps) c q k \<Longrightarrow>
    queue_step c (q, k) = Some m \<Longrightarrow> qreach_late ps (qlate_after c q k late) m"

lemma qreach_iff_late: "qreach ps m \<longleftrightarrow> (\<exists>late. qreach_late ps late m)"
proof
  assume "qreach ps m"
  then show "\<exists>late. qreach_late ps late m"
  proof induction
    case (qreach_queue k len sz a junk q k')
    then show ?case unfolding reach_iff_late by (blast intro: qlate_queue)
  next
    case (qreach_mutex k a q k')
    then show ?case unfolding reach_iff_late by (blast intro: qlate_mutex)
  next
    case (qreach_step q k c m)
    then show ?case by (blast intro: qlate_step)
  qed
next
  assume "\<exists>late. qreach_late ps late m"
  then obtain late where "qreach_late ps late m" ..
  then show "qreach ps m"
  proof induction
    case (qlate_queue late k len sz a junk q k')
    then show ?case using reach_iff_late by (blast intro: qreach_queue)
  next
    case (qlate_mutex late k a q k')
    then show ?case using reach_iff_late by (blast intro: qreach_mutex)
  next
    case (qlate_step late q k c m)
    then show ?case by (blast intro: qreach_step)
  qed
qed

lemma initialise_ok:
  assumes r: "run_inv late N z k" and e: "items l k = []"
  shows "run_inv late N z (k\<lparr>lists := list_initialise l (lists k)\<rparr>)"
proof -
  let ?a = "list_initialise l (lists k)" and ?k = "k\<lparr>lists := list_initialise l (lists k)\<rparr>"
  have el: "elems ?a = elems (lists k)" "container ?a = container (lists k)"
    "item_value ?a = item_value (lists k)" "\<And>m. list_index ?a m = (if m = l then None else list_index (lists k) m)"
    using e by (auto simp: list_initialise_def items_def)
  have c: "core N {} {} k" "on_time k" using run_okD(2) [OF r] by (simp_all add: sched_ok_def)
  have "lists_ok ?a" using coreD(1) [OF c(1)] by (simp add: lists_ok_def el)
  moreover have p: "prio ?k = prio k" by (simp add: prio_def fun_eq_iff)
  ultimately have "core N {} {} ?k"
    using c(1) unfolding core_def p
    by (simp add: kinds_def placed_def ready_at_def not_waiting_def bitmap_def el)
  moreover have "on_time ?k" using c(2) by (simp add: on_time_def timed_def by_value_def el)
  ultimately have "sched_ok N ?k" by (simp add: sched_ok_def)
  then show ?thesis using r p
    by (simp add: run_inv_def run_weak_def no_pending_def top_running_def is_ready_def container_of_def el)
qed

lemma create_ok:
  assumes r: "run_inv late N z k" and e: "items (EventList (2 * a)) k = []" "items (EventList (2 * a + 1)) k = []"
    and c: "xQueueGenericCreate len sz (Some a) junk k = Some (Some q, k')"
    and n: "0 < len" "unat len * unat sz < 2 ^ 32"
  shows "run_inv late N z k' \<and> queue_ok N q \<and> \<not> is_mutex q \<and> pxMutexHolder q = None \<and>
    uxItemSize q = sz \<and> uxLength q = len \<and> uxMessagesWaiting q = 0"
proof -
  have fits: "\<not> queue_request len sz < sizeof_Queue_t"
    using c by (auto simp: xQueueGenericCreate_def split: if_splits)
  have fits': "unat sizeof_Queue_t + unat len * unat sz < 2 ^ 32"
    using fits queue_request_wraps [OF n(2)] not_le by blast
  define k1 where "k1 = k\<lparr>lists := list_initialise (EventList (2 * a)) (lists k)\<rparr>"
  have r1: "run_inv late N z k1" unfolding k1_def by (rule initialise_ok [OF r e(1)])
  have "items (EventList (2 * a + 1)) k1 = []" using e by (simp add: k1_def items_def list_initialise_def)
  from initialise_ok [OF r1 this] have r2: "run_inv late N z (k1\<lparr>lists := list_initialise (EventList (2 * a + 1)) (lists k1)\<rparr>)" .
  have k': "k' = k1\<lparr>lists := list_initialise (EventList (2 * a + 1)) (lists k1)\<rparr>"
    using c fits by (simp add: xQueueGenericCreate_def prvInitialiseNewQueue_def xQueueGenericReset_def Let_def k1_def)
  have Q: "\<not> is_mutex q" "pxMutexHolder q = None" "uxItemSize q = sz" "uxLength q = len" "uxMessagesWaiting q = 0"
    "xTasksWaitingToSend q = EventList (2 * a)" "xTasksWaitingToReceive q = EventList (2 * a + 1)"
    using c fits by (auto simp: xQueueGenericCreate_def prvInitialiseNewQueue_def xQueueGenericReset_def Let_def)
  have "queue_ok N q"
  proof (cases "sz = 0")
    case False
    then have "0 < sz" by (simp add: word_gt_0)
    from new_queue [OF n(1) this fits', of a junk k] c have "queue_holds (unat len) (unat sz) [] q"
      by (auto simp: queue_sim_def)
    then show ?thesis using Q False by (auto simp: queue_ok_def)
  qed (use Q in \<open>simp add: queue_ok_def\<close>)
  with Q r2 k' show ?thesis by simp
qed

lemma mutex_ok:
  assumes r: "run_inv late N z k" and e: "items (EventList (2 * a)) k = []" "items (EventList (2 * a + 1)) k = []"
    and c: "xQueueCreateMutex (Some a) k = Some (Some q, k')"
  shows "run_inv late N z k' \<and> queue_ok N q"
proof -
  from c obtain q1 k1 where 1: "xQueueGenericCreate 1 0 (Some a) (\<lambda>_. 0) k = Some (Some q1, k1)"
    "prvInitialiseMutex q1 k1 = Some (q, k')"
    by (auto simp: xQueueCreateMutex_def split: Option.bind_splits option.splits)
  have n: "(0 :: u32) < 1" "unat (1 :: u32) * unat (0 :: u32) < 2 ^ 32" by simp_all
  from create_ok [OF r e 1(1) n] have
    2: "run_inv late N z k1" "queue_ok N q1" "uxItemSize q1 = 0" "pxMutexHolder q1 = None" by blast+
  let ?q = "q1\<lparr>pxMutexHolder := None, is_mutex := True, pcReadFrom := 0\<rparr>"
  have q: "queue_ok N ?q" using 2(2,3) by (simp add: queue_ok_def)
  have g: "may_send [] queueSEND_TO_BACK ?q" "may_give ?q k1"
    using 2(3) by (simp_all add: may_send_def may_give_def)
  have "\<not> drops_yield ?q k1" by (simp add: drops_yield_def yield_wanted_def xTaskPriorityDisinherit_def)
  with send_round_ok [OF 2(1) q g, of 0 None] obtain v to' w' q' k'' where
    "xQueueGenericSend [] 0 queueSEND_TO_BACK None ?q k1 = Some (v, to', w', q', k'')"
    "run_inv late N z k''" "queue_ok N q'" by auto
  then show ?thesis using 1(2) by (simp add: prvInitialiseMutex_def Let_def)
qed

lemma qlate_ok:
  assumes "qreach_late ps late (q, k)" "length ps + 1 < 2 ^ 32"
  shows "run_inv late {..length ps} (length ps) k \<and> queue_ok {..length ps} q"
  using assms
proof (induction late "(q, k)" arbitrary: q k rule: qreach_late.induct)
  case (qlate_queue late k len sz a junk q k')
  from create_ok [OF late_run_inv [OF qlate_queue(1,7)] qlate_queue(4-6,2,3)] show ?case by blast
next
  case (qlate_mutex late k a q k')
  from mutex_ok [OF late_run_inv [OF qlate_mutex(1,5)] qlate_mutex(2-4)] show ?case .
next
  case (qlate_step late q k c q' k')
  from qlate_step(2) [OF qlate_step(5)] have
    "run_inv late {..length ps} (length ps) k" "queue_ok {..length ps} q" by blast+
  from queue_step_ok [OF this qlate_step(3)] qlate_step(4) show ?case by auto
qed

lemma qreach_ok:
  assumes "qreach ps (q, k)" "length ps + 1 < 2 ^ 32"
  obtains late where "run_inv late {..length ps} (length ps) k" "queue_ok {..length ps} q"
proof -
  from assms(1) obtain late where "qreach_late ps late (q, k)" unfolding qreach_iff_late ..
  from that qlate_ok [OF this assms(2)] show thesis by blast
qed

end
