(* ===== verification/Queue_Props.thy ===== *)
theory Queue_Props
  imports Queue_Safe
begin

text \<open>
  What tasks can rely on when they wait at queues and mutexes, stated for the reachable states of the
  kernel, and two places where it goes wrong.
\<close>

section \<open>Safety\<close>

text \<open>
  Claim C7.  A queue, a semaphore or a mutex is safe under every interleaving of its operations, those of
  interrupts, and the calls of the kernel: each step succeeds, so no byte outside the storage, no corrupt list and no
  null task is touched; it keeps the queue well-formed and the invariant of the scheduler.  By that invariant
  the running task has the highest priority unless a switch is due, or a mutex given since the last switch
  had the yield for its lowered priority dropped (\<open>drops_yield\<close>, the defect of \<open>mutex_give_drops_switch\<close>; such
  steps are included).  What callers must keep to: the kernel's calls are those of \<open>kernel_calls_safe\<close>; an item has
  the size of the queue's items; only queues of one item that are no semaphores are overwritten; a task
  waits only while it runs, is not the idle task and has not suspended the scheduler; an interrupt sends an item to
  no mutex and gives only what has no items (it may give a mutex that a task holds, as the clock's interrupt
  does: the assertion against it is empty in this configuration); a mutex is given, by any task, while its
  holder is ready, has no priority to give back, or holds other mutexes.
\<close>

theorem queue_calls_safe:
  assumes "qreach_late ps late (q, k)" "length ps + 1 < 2 ^ 32" "allowed {..length ps} (length ps) c q k"
  shows "\<exists>q' k'. queue_step c (q, k) = Some (q', k') \<and> queue_ok {..length ps} q' \<and>
    run_inv (qlate_after c q k late) {..length ps} (length ps) k'"
  using queue_step_ok [OF _ _ assms(3)] qlate_ok [OF assms(1,2)] by blast

lemma qreach_example:
  "\<exists>q k. qreach_late [3, 2] False (q, k) \<and> is_mutex q \<and> uxMessagesWaiting q = 1 \<and> uxItemSize q = 0 \<and> uxLength q = 1 \<and>
    cTxLock q = queueUNLOCKED \<and> cRxLock q = queueUNLOCKED \<and>
    pxMutexHolder q = None \<and> uxSchedulerSuspended k = 0 \<and> pxCurrentTCB k = Some 0 \<and> is_ready 0 k"
proof -
  have "map_option (\<lambda>(k0, q, k). (items (EventList 0) k0, items (EventList 1) k0, uxMessagesWaiting q, uxItemSize q,
      uxLength q, cTxLock q, cRxLock q, pxMutexHolder q,
      uxSchedulerSuspended k, pxCurrentTCB k, container_of (StateItem 0) k, is_mutex q))
    (do { k0 \<leftarrow> boot [3, 2]; (q, k) \<leftarrow> xQueueCreateMutex (Some 0) k0; q \<leftarrow> q; Some (k0, q, k) }) =
    Some ([], [], 1, 0, 1, queueUNLOCKED, queueUNLOCKED, None, 0, Some 0, Some (Ready 3), True)" by code_simp
  then obtain k0 q k where 1: "boot [3, 2] = Some k0" "xQueueCreateMutex (Some 0) k0 = Some (Some q, k)"
    "items (EventList 0) k0 = []" "items (EventList 1) k0 = []" "uxMessagesWaiting q = 1" "uxItemSize q = 0"
    "uxLength q = 1" "cTxLock q = queueUNLOCKED" "cRxLock q = queueUNLOCKED" "pxMutexHolder q = None"
    "uxSchedulerSuspended k = 0" "pxCurrentTCB k = Some 0" "container_of (StateItem 0) k = Some (Ready 3)" "is_mutex q"
    by (auto split: Option.bind_splits)
  have "qreach_late [3, 2] False (q, k)"
    by (rule qlate_mutex [OF late_boot [OF 1(1)], of 0]) (use 1(2-4) in simp_all)
  with 1 show ?thesis by (auto simp: is_ready_def)
qed

theorem queue_calls_safe_witness:
  "\<exists>q k q' k'. qreach_late [3, 2] False (q, k) \<and>
    queue_step (TaskReceive False 5 None) (q, k) = Some (q', k') \<and> run_ok {..length [3, 2 :: u32]} (length [3, 2 :: u32]) k'"
proof -
  from qreach_example obtain q k where q: "qreach_late [3, 2] False (q, k)" "uxSchedulerSuspended k = 0"
    "pxCurrentTCB k = Some 0" "is_ready 0 k" by blast
  have "allowed {..length [3, 2 :: u32]} (length [3, 2 :: u32]) (TaskReceive False 5 None) q k"
    using q(2-4) by (simp add: may_wait_def)
  from queue_calls_safe [OF q(1) _ this] q(1) show ?thesis by auto
qed

section \<open>Waiting for a mutex\<close>

lemma none_pending:
  assumes "core N {} {} k" "no_pending k"
  shows "items PendingReadyList k = []"
proof (cases "elems (lists k) PendingReadyList")
  case (Cons i xs)
  with event_kind [OF assms(1), of i PendingReadyList] obtain t where "i = EventItem t" by auto
  with Cons coreD(1) [OF assms(1)] assms(2) show ?thesis
    by (auto simp: no_pending_def container_of_def lists_ok_container)
qed (simp add: items_def)

lemma check_now:
  assumes "w \<noteq> 0"
  shows "\<exists>to. xTaskCheckForTimeOut (vTaskSetTimeOutState k) w (vTaskSuspendAll k) = (False, to, w)"
proof (cases "w = portMAX_DELAY")
  case False
  have "0 < w" using assms by (simp add: word_gt_0)
  then show ?thesis using False
    by (simp add: xTaskCheckForTimeOut_def vTaskSetTimeOutState_def vTaskSuspendAll_def Let_def)
qed (simp add: xTaskCheckForTimeOut_def)

lemma unlock_unlocked:
  assumes "cTxLock q = queueUNLOCKED" "cRxLock q = queueUNLOCKED"
  shows "prvUnlockQueue (prvLockQueue q) k = Some (q, k)"
  using assms by (simp add: prvUnlockQueue_def prvLockQueue_def Let_def lock_count_def
      queueUNLOCKED_def queueLOCKED_UNMODIFIED_def)

text \<open>The part of the call with the scheduler suspended: the priority is lent and the task put in the list.\<close>

lemma mutex_wait_suspended:
  assumes r0: "run_inv late {..z} z k0" and k0: "pxCurrentTCB k0 = Some c" "is_ready c k0" "c \<noteq> z" "uxSchedulerSuspended k0 = 1"
      "uxPendedTicks k0 = 0" "uxCurrentNumberOfTasks k0 > 0" "no_pending k0"
    and q: "is_mutex q" "uxMessagesWaiting q = 0" "pxMutexHolder q = Some h" "h \<le> z" "xTasksWaitingToReceive q = EventList b"
    and w: "w \<noteq> 0" "xTaskCheckForTimeOut t0 w k0 = (False, to, w)"
  shows "\<exists>k2. receive_wait t0 w (prvLockQueue q) k0 = Some (Blocked, to, w, k2) \<and> run_inv late {..z} z k2 \<and>
    uxSchedulerSuspended k2 = 1 \<and> uxPendedTicks k2 = 0 \<and> uxCurrentNumberOfTasks k2 > 0 \<and> no_pending k2 \<and>
    \<not> is_ready c k2 \<and> container_of (EventItem c) k2 = Some (EventList b) \<and> prio k0 c \<le> prio k2 h \<and>
    (if w = portMAX_DELAY then container_of (StateItem c) k2 = Some SuspendedTaskList
     else waiting c k2 \<and> wake_time c k2 = xTickCount k0 + w)"
proof -
  from q(4) have hN: "h \<in> {..z}" by simp
  from inherit_ok [OF run_okD(2) [OF r0] hN k0(1)] inherit_step [OF r0 hN] obtain k1 where
    1: "vTaskPriorityInherit (Some h) k0 = Some k1" "reprio h k0 k1" "run_inv late {..z} z k1"
      "tcbs k1 h = (tcbs k0 h)\<lparr>uxPriority := max (prio k0 h) (prio k0 c)\<rparr>" by auto
  note P = reprioD [OF 1(2)]
  have k1: "pxCurrentTCB k1 = Some c" "is_ready c k1" "uxSchedulerSuspended k1 = 1" "uxPendedTicks k1 = 0"
    "uxCurrentNumberOfTasks k1 > 0" "no_pending k1" "xTickCount k1 = xTickCount k0"
    using k0 P(1,3-5,10,11) inherit_time [OF 1(1)] by (simp_all add: no_pending_def)
  have ph: "prio k1 h = max (prio k0 h) (prio k0 c)" by (simp add: prio_def 1(4))
  from k1(1-3) k0(3) have b1: "may_block z k1" by (simp add: may_block_def)
  from place_ok [OF run_okD(2) [OF 1(3)] k1(1,2) w(1), of b] block_step(2) [OF 1(3) b1 w(1), of b]
  obtain k2 where
    2: "vTaskPlaceOnEventList (EventList b) w k1 = Some k2" "same_but c k1 k2" "\<not> is_ready c k2"
      "container_of (EventItem c) k2 = Some (EventList b)" "run_inv late {..z} z k2"
      "if w = portMAX_DELAY then container_of (StateItem c) k2 = Some SuspendedTaskList
       else waiting c k2 \<and> wake_time c k2 = xTickCount k1 + w" by auto
  from 2(2) have "env k2 = env k1" by (simp add: same_but_def)
  note E = envD [OF this]
  have np: "no_pending k2"
    unfolding no_pending_def
  proof
    fix p show "container_of (EventItem p) k2 \<noteq> Some PendingReadyList"
      using k1(6) 2(2,4) by (cases "p = c") (simp_all add: no_pending_def same_but_def)
  qed
  have wait: "receive_wait t0 w (prvLockQueue q) k0 = Some (Blocked, to, w, k2)"
    using q(1-3,5) w(2) 1(1) 2(1)
    by (simp add: receive_wait_def prvIsQueueEmpty_def prvLockQueue_def Let_def)
  then show ?thesis using 2(3-6) k1 ph np E by simp
qed

lemma yielded_simps:
  fixes k :: kernel
  defines "k' \<equiv> portYIELD (k\<lparr>uxSchedulerSuspended := 0\<rparr>)"
  shows "is_ready p k' = is_ready p k" "container_of i k' = container_of i k" "prio k' = prio k" "pendsv k'"
    "waiting p k' = waiting p k" "wake_time p k' = wake_time p k"
  by (simp_all add: k'_def portYIELD_def is_ready_def container_of_def prio_def fun_eq_iff
      waiting_def wake_time_def value_of_def)

text \<open>
  Claim C30.  A task that must wait for a mutex waits for it, and lends its priority: when the running task takes
  a mutex that another holds, it is put in the mutex's list of waiting tasks and is not ready any more, a
  switch is due, the holder's priority is at least that of the task that waits, and if the holder is ready it
  is in the ready list of that priority, so that no task of a priority between the two runs before it.  A wait with a
  limit of \<open>w\<close> ticks ends \<open>w\<close> ticks from now; one without a limit has no time to wake up.
\<close>

theorem mutex_wait_lends:
  assumes "qreach ps (q, k)" "length ps + 1 < 2 ^ 32" "may_wait (length ps) k" "pxCurrentTCB k = Some c"
    and "is_mutex q" "uxMessagesWaiting q = 0" "pxMutexHolder q = Some h" "w \<noteq> 0"
    and "cTxLock q = queueUNLOCKED" "cRxLock q = queueUNLOCKED"
  shows "\<exists>to k'. xQueueGenericReceive w False None q k = Some (None, Some to, w, q, k') \<and>
    run_ok {..length ps} (length ps) k' \<and> pendsv k' \<and> \<not> is_ready c k' \<and>
    container_of (EventItem c) k' = Some (xTasksWaitingToReceive q) \<and>
    (if w = portMAX_DELAY then container_of (StateItem c) k' = Some SuspendedTaskList
     else waiting c k' \<and> wake_time c k' = xTickCount k + w) \<and>
    prio k c \<le> prio k' h \<and>
    (is_ready h k' \<longrightarrow> StateItem h \<in> set (items (Ready (unat (prio k' h))) k'))"
proof -
  let ?N = "{..length ps}" and ?z = "length ps"
  from qreach_ok [OF assms(1,2)] obtain late where r: "run_inv late ?N ?z k" and q: "queue_ok ?N q" .
  note R = run_weakD [OF run_okD(1) [OF r]]
  from assms(3,4) have u: "uxSchedulerSuspended k = 0" and c: "c \<noteq> ?z" "is_ready c k"
    by (auto simp: may_wait_def)
  from q assms(5) have i0: "uxItemSize q = 0" by (auto simp: queue_ok_def split: if_splits)
  have hN: "h \<in> ?N" using q i0 assms(7) by (auto simp: queue_ok_def)
  from q obtain a b where l: "xTasksWaitingToReceive q = EventList b" by (rule queue_okD)
  define k0 where "k0 = vTaskSuspendAll k"
  define t0 where "t0 = vTaskSetTimeOutState k"
  from may_waitD [OF assms(3) r] have r0: "run_inv late ?N ?z k0" by (simp add: k0_def)
  have k0: "pxCurrentTCB k0 = Some c" "is_ready c k0" "uxSchedulerSuspended k0 = 1" "prio k0 = prio k"
    "uxPendedTicks k0 = 0" "uxCurrentNumberOfTasks k0 > 0" "no_pending k0" "xTickCount k0 = xTickCount k"
    using assms(4) c u R(4) R(6) [OF u] by (simp_all add: k0_def vTaskSuspendAll_def)
  have tried: "receive_try w False None q k = Some (MustWait, Some t0, q, k)"
    using assms(6,8) by (simp add: receive_try_def t0_def)
  from check_now [OF assms(8), of k] obtain to where
    to: "xTaskCheckForTimeOut t0 w k0 = (False, to, w)" by (auto simp: k0_def t0_def)
  have hz: "h \<le> ?z" using hN by simp
  from mutex_wait_suspended [OF r0 k0(1,2) c(1) k0(3,5-7) assms(5-7) hz l assms(8) to] obtain k2 where
    2: "receive_wait t0 w (prvLockQueue q) k0 = Some (Blocked, to, w, k2)" "run_inv late ?N ?z k2" "uxSchedulerSuspended k2 = 1"
      "uxPendedTicks k2 = 0" "uxCurrentNumberOfTasks k2 > 0" "no_pending k2" "\<not> is_ready c k2"
      "container_of (EventItem c) k2 = Some (EventList b)" "prio k0 c \<le> prio k2 h"
      "if w = portMAX_DELAY then container_of (StateItem c) k2 = Some SuspendedTaskList
       else waiting c k2 \<and> wake_time c k2 = xTickCount k0 + w" by blast
  have core2: "core ?N {} {} k2" using run_okD(2) [OF 2(2)] by (simp add: sched_ok_def)
  define k4 where "k4 = portYIELD (k2\<lparr>uxSchedulerSuspended := 0\<rparr>)"
  have fin: "end_wait Blocked (prvLockQueue q) k2 = Some (q, k4)"
    using unlock_unlocked [OF assms(9,10), of k2] resume_all_quiet [of k2] none_pending [OF core2 2(6)] 2(3-5)
    by (simp add: end_wait_def k4_def Let_def)
  have run: "xQueueGenericReceive w False None q k = Some (None, Some to, w, q, k4)"
    unfolding xQueueGenericReceive_def
    using tried 2(1) fin by (simp add: k0_def [symmetric] Let_def)
  from receive_round_ok [OF r q, of w False None] assms(3) run have "run_inv late ?N ?z k4" by auto
  then have ok: "run_ok ?N ?z k4" by (auto simp: run_inv_def k4_def portYIELD_def)
  note v = yielded_simps [where k = k2, folded k4_def]
  have "core ?N {} {} k4" using run_okD(2) [OF ok] by (simp add: sched_ok_def)
  note rl = ready_in_list [OF this, of h]
  show ?thesis using run ok 2(7-10) l k0(4,8) rl by (simp add: v items_def)
qed

text \<open>Runs of allowed steps, to reach examples.\<close>

fun allowed_run :: "u32 list \<Rightarrow> queue_op list \<Rightarrow> queue \<times> kernel \<Rightarrow> (queue \<times> kernel) option" where
  "allowed_run ps [] m = Some m"
| "allowed_run ps (c # cs) (q, k) =
     (if allowed (set [0..<Suc (length ps)]) (length ps) c q k
      then do { m \<leftarrow> queue_step c (q, k); allowed_run ps cs m } else None)"

lemma allowed_run_qreach: "allowed_run ps cs m = Some m' \<Longrightarrow> qreach ps m \<Longrightarrow> qreach ps m'"
proof (induction ps cs m rule: allowed_run.induct)
  case (2 ps c cs q k)
  have "set [0..<Suc (length ps)] = {..length ps}" by auto
  with 2(2) obtain m1 where "allowed {..length ps} (length ps) c q k" "queue_step c (q, k) = Some m1"
    "allowed_run ps cs m1 = Some m'" by (auto split: if_splits Option.bind_splits)
  with 2(1) 2(3) qreach_step [OF 2(3)] show ?case
    by (metis \<open>set [0..<Suc (length ps)] = {..length ps}\<close>)
qed simp

definition mutex_run :: "u32 list \<Rightarrow> queue_op list \<Rightarrow> (queue \<times> kernel) option" where
  "mutex_run ps cs = do {
     k0 \<leftarrow> boot ps;
     (q, k) \<leftarrow> xQueueCreateMutex (Some 0) k0;
     q \<leftarrow> q;
     if items (EventList 0) k0 = [] \<and> items (EventList 1) k0 = [] then allowed_run ps cs (q, k) else None
   }"

lemma mutex_run_qreach:
  assumes "mutex_run ps cs = Some m"
  shows "qreach ps m"
proof -
  from assms obtain k0 q k where 1: "boot ps = Some k0" "xQueueCreateMutex (Some 0) k0 = Some (Some q, k)"
    "items (EventList 0) k0 = []" "items (EventList 1) k0 = []" "allowed_run ps cs (q, k) = Some m"
    by (auto simp: mutex_run_def split: Option.bind_splits if_splits)
  have "qreach ps (q, k)" by (rule qreach_mutex [OF reach_boot [OF 1(1)], of 0]) (use 1(2-4) in simp_all)
  with 1(5) show ?thesis by (rule allowed_run_qreach)
qed

definition held_run :: "queue_op list" where
  "held_run = [Kernel (Suspend 0), Kernel PendSV, TaskReceive False 0 None, Kernel (Resume 0), Kernel PendSV]"

lemma held_example:
  "\<exists>q k. qreach [3, 2] (q, k) \<and> may_wait (length [3, 2 :: u32]) k \<and> pxCurrentTCB k = Some 0 \<and> is_mutex q \<and>
    uxMessagesWaiting q = 0 \<and> pxMutexHolder q = Some 1 \<and> prio k 0 = 3 \<and> prio k 1 = 2 \<and>
    cTxLock q = queueUNLOCKED \<and> cRxLock q = queueUNLOCKED"
proof -
  have "map_option (\<lambda>(q, k). (uxSchedulerSuspended k, pxCurrentTCB k, container_of (StateItem 0) k, is_mutex q,
      uxMessagesWaiting q, pxMutexHolder q, prio k 0, prio k 1, cTxLock q, cRxLock q))
    (mutex_run [3, 2] held_run) =
    Some (0, Some 0, Some (Ready 3), True, 0, Some 1, 3, 2, queueUNLOCKED, queueUNLOCKED)" by code_simp
  then obtain q k where "mutex_run [3, 2] held_run = Some (q, k)"
    "uxSchedulerSuspended k = 0" "pxCurrentTCB k = Some 0" "container_of (StateItem 0) k = Some (Ready 3)"
    "is_mutex q" "uxMessagesWaiting q = 0" "pxMutexHolder q = Some 1" "prio k 0 = 3" "prio k 1 = 2"
    "cTxLock q = queueUNLOCKED" "cRxLock q = queueUNLOCKED" by auto
  with mutex_run_qreach show ?thesis by (force simp: may_wait_def is_ready_def)
qed

theorem mutex_wait_lends_witness:
  "\<exists>q k to k'. qreach [3, 2] (q, k) \<and> prio k 1 = 2 \<and>
    xQueueGenericReceive 10 False None q k = Some (None, Some to, 10, q, k') \<and> 3 \<le> prio k' 1"
proof -
  from held_example obtain q k where e: "qreach [3, 2] (q, k)" "may_wait (length [3, 2 :: u32]) k"
    "pxCurrentTCB k = Some 0" "is_mutex q" "uxMessagesWaiting q = 0" "pxMutexHolder q = Some 1"
    "prio k 0 = 3" "prio k 1 = 2" "cTxLock q = queueUNLOCKED" "cRxLock q = queueUNLOCKED" by blast
  have "length [3, 2 :: u32] + 1 < 2 ^ 32" "(10 :: u32) \<noteq> 0" by simp_all
  from mutex_wait_lends [OF e(1) this(1) e(2-6) this(2) e(9,10)] e(1,7,8) show ?thesis by auto
qed

section \<open>An interrupt hands an item to a waiting task\<close>

text \<open>
  An item sent from an interrupt to an empty queue reaches the task that waits first: the task is ready
  when the interrupt returns, the interrupt is told to ask for a switch exactly when that task has a
  higher priority than the running one, and its next try gets the item, whatever has happened in the
  kernel in between, if no other call has touched the queue.
\<close>

theorem queue_isr_handoff:
  assumes "qreach ps (q, k)" "length ps + 1 < 2 ^ 32" "uxSchedulerSuspended k = 0"
    and "queue_holds n s [] q" "\<not> is_mutex q" "cTxLock q = queueUNLOCKED" "length x = s"
    and "head_owner (xTasksWaitingToReceive q) (lists k) = Some t" "pxCurrentTCB k = Some c"
  shows "\<exists>y q' k'. xQueueGenericSendFromISR x queueSEND_TO_BACK q k = Some (True, y, q', k') \<and>
    \<not> is_ready t k \<and> is_ready t k' \<and> container_of (EventItem t) k' = None \<and> (y \<longleftrightarrow> prio k c < prio k t) \<and>
    queue_holds n s [x] q' \<and>
    (\<forall>k2 w to. items (xTasksWaitingToSend q) k2 = [] \<longrightarrow>
       (\<exists>q2. receive_try w False to q' k2 = Some (Returned (Some x), to, q2, k2) \<and> queue_holds n s [] q2))"
proof -
  from qreach_ok [OF assms(1,2)] obtain late where r: "run_inv late {..length ps} (length ps) k"
    and q: "queue_ok {..length ps} q" .
  from q obtain a b where l: "xTasksWaitingToSend q = EventList a" "xTasksWaitingToReceive q = EventList b"
    by (rule queue_okD)
  have ne: "items (EventList b) k \<noteq> []"
    using assms(8) l by (auto simp: head_owner_def items_def)
  note Q = queue_holdsD [OF assms(4)]
  from copy_back [OF assms(4,7), of k] Q(1) obtain q' where
    1: "prvCopyDataToQueue x queueSEND_TO_BACK q k = Some (False, q', k)" "queue_holds n s [x] q'"
      "xTasksWaitingToReceive q' = EventList b" "xTasksWaitingToSend q' = EventList a" using l by auto
  have mu: "\<not> is_mutex q'" using copy_is_mutex [OF 1(1)] assms(5) by simp
  have room: "uxMessagesWaiting q < uxLength q" using holds_count(1) [OF assms(4)] Q(1) by simp
  from signal_ok [OF run_okD(2) [OF r] ne assms(9)] assms(3,8) l obtain k1 where
    2: "xTaskRemoveFromEventList (EventList b) k =
        Some (if prio k c < prio k t then (True, k1\<lparr>xYieldPending := True\<rparr>) else (False, k1))"
      "\<not> is_ready t k" "is_ready t k1" "container_of (EventItem t) k1 = None" by auto
  let ?k = "if prio k c < prio k t then k1\<lparr>xYieldPending := True\<rparr> else k1"
  have send: "xQueueGenericSendFromISR x queueSEND_TO_BACK q k = Some (True, prio k c < prio k t, q', ?k)"
    using room 1 2(1) ne assms(6) by (simp add: xQueueGenericSendFromISR_def Let_def wake_def)
  have again: "\<exists>q2. receive_try w False to q' k2 = Some (Returned (Some x), to, q2, k2) \<and> queue_holds n s [] q2"
    if "items (EventList a) k2 = []" for k2 w to
  proof -
    from copy_out [OF 1(2)] obtain p where
      p: "prvCopyDataFromQueue q' = Some (x, q'\<lparr>pcReadFrom := p\<rparr>)"
        "queue_holds n s [] (q'\<lparr>pcReadFrom := p, uxMessagesWaiting := uxMessagesWaiting q' - 1\<rparr>)" by blast
    have "uxMessagesWaiting q' > 0" using holds_count(2) [OF 1(2)] by simp
    with p(1) mu that 1(4) have "receive_try w False to q' k2 = Some (Returned (Some x), to,
        q'\<lparr>pcReadFrom := p, uxMessagesWaiting := uxMessagesWaiting q' - 1\<rparr>, k2)"
      by (simp add: receive_try_def Let_def wake_yield_def wake_def)
    with p(2) show ?thesis by blast
  qed
  have "is_ready t ?k" "container_of (EventItem t) ?k = None" using 2(3,4) by simp_all
  with send 2(2) 1(2) again l(1) show ?thesis by auto
qed

definition queue_run :: "u32 list \<Rightarrow> u32 \<Rightarrow> u32 \<Rightarrow> queue_op list \<Rightarrow> (queue \<times> kernel) option" where
  "queue_run ps len sz cs = do {
     k0 \<leftarrow> boot ps;
     (q, k) \<leftarrow> xQueueGenericCreate len sz (Some 0) (\<lambda>_. 0) k0;
     q \<leftarrow> q;
     if items (EventList 0) k0 = [] \<and> items (EventList 1) k0 = [] then allowed_run ps cs (q, k) else None
   }"

lemma queue_run_qreach:
  assumes "queue_run ps len sz cs = Some m" "0 < len" "unat len * unat sz < 2 ^ 32"
  shows "qreach ps m"
proof -
  from assms(1) obtain k0 q k where 1: "boot ps = Some k0"
    "xQueueGenericCreate len sz (Some 0) (\<lambda>_. 0) k0 = Some (Some q, k)"
    "items (EventList 0) k0 = []" "items (EventList 1) k0 = []" "allowed_run ps cs (q, k) = Some m"
    by (auto simp: queue_run_def split: Option.bind_splits if_splits)
  have "qreach ps (q, k)"
    by (rule qreach_queue [OF reach_boot [OF 1(1)] assms(2,3), of 0]) (use 1(2-4) in simp_all)
  with 1(5) show ?thesis by (rule allowed_run_qreach)
qed

theorem queue_isr_handoff_witness:
  "\<exists>q k q' k'. qreach [3, 2] (q, k) \<and>
    xQueueGenericSendFromISR [7] queueSEND_TO_BACK q k = Some (True, True, q', k') \<and> is_ready 0 k'"
proof -
  have "map_option (\<lambda>(q, k). (uxSchedulerSuspended k, pxCurrentTCB k, prio k 0, prio k 1,
      head_owner (xTasksWaitingToReceive q) (lists k), is_mutex q, cTxLock q, storage q, pcWriteTo q, pcReadFrom q,
      uxMessagesWaiting q, uxLength q, uxItemSize q))
    (queue_run [3, 2] 1 1 [TaskReceive False portMAX_DELAY None, Kernel PendSV]) =
    Some (0, Some 1, 3, 2, Some 0, False, queueUNLOCKED, [0], 0, 0, 0, 1, 1)" by code_simp
  then obtain q k where e: "queue_run [3, 2] 1 1 [TaskReceive False portMAX_DELAY None, Kernel PendSV] = Some (q, k)"
    "uxSchedulerSuspended k = 0" "pxCurrentTCB k = Some 1" "prio k 0 = 3" "prio k 1 = 2"
    "head_owner (xTasksWaitingToReceive q) (lists k) = Some 0" "\<not> is_mutex q" "cTxLock q = queueUNLOCKED"
    and f: "storage q = [0]" "pcWriteTo q = 0" "pcReadFrom q = 0" "uxMessagesWaiting q = 0" "uxLength q = 1"
      "uxItemSize q = 1" by auto
  have r: "qreach [3, 2] (q, k)" by (rule queue_run_qreach [OF e(1)]) simp_all
  have h: "queue_holds 1 1 [] q" by (simp add: queue_holds_def f)
  have "length [3, 2 :: u32] + 1 < 2 ^ 32" "length [7 :: u8] = 1" by simp_all
  from queue_isr_handoff [OF r this(1) e(2) h e(7,8) this(2) e(6,3)] e(4,5) r show ?thesis by auto
qed

section \<open>Where it goes wrong\<close>

text \<open>
  A mutex given back can leave the wrong task running.  Task 2 (priority 1) holds the mutex and has the
  priority 4 of task 0, which gives up waiting; task 3 (priority 0) still waits.  When task 2 gives the
  mutex back it falls to priority 1 while task 1 (priority 2) is ready; but since a task waits, the request to
  yield that the fall in priority makes is dropped, and waking task 3 makes none: no switch is due, not even
  after the next tick.
\<close>

theorem mutex_give_drops_switch:
  "map_option (\<lambda>(q, k). (pxCurrentTCB k, prio k 2, prio k 1, container_of (StateItem 1) k, pendsv k \<or> xYieldPending k))
     (mutex_run [4, 2, 1, 0]
        [Kernel (Suspend 1), Kernel (Suspend 0), Kernel PendSV,
         TaskReceive False 0 None, Kernel (Suspend 2), Kernel PendSV,
         TaskReceive False portMAX_DELAY None, Kernel PendSV,
         Kernel (ResumeFromISR 2), Kernel PendSV, Kernel (ResumeFromISR 0), Kernel PendSV,
         TaskReceive False 1 None, Kernel PendSV, Kernel Tick, Kernel PendSV,
         Kernel (Suspend 0), Kernel PendSV, Kernel (ResumeFromISR 1),
         TaskSend queueSEND_TO_BACK [] 0 None, Kernel Tick]) =
   Some (Some 2, 1, 2, Some (Ready 2), False)"
  by code_simp

text \<open>
  The clock's \<open>timeSync\<close> is a mutex that the clock task takes and an interrupt gives.  The interrupt leaves
  the holder and the count of mutexes as they are, so the count grows with each cycle, and a priority that
  the task inherits is not given back.
\<close>

lemma mutex_isr_give_keeps_count:
  "map_option (\<lambda>(q, k). (uxMessagesWaiting q, pxMutexHolder q, uxMutexesHeld (tcbs k 0)))
     (mutex_run [3, 2] [TaskReceive False 0 None, IsrGive, TaskReceive False 0 None, IsrGive,
        TaskReceive False 0 None, IsrGive]) = Some (1, Some 0, 3)"
  by code_simp

end
