(* ===== verification/App_Display.thy ===== *)
theory App_Display
  imports Hardware
begin

text \<open>
  The tube display (\<open>app/app_display.c\<close>): the map from six digits to the 64 outputs of
  the 74HC595 chain, the bit-banged transfer of that map, the colon lamps, and the state
  machine of the display task.  Each iteration of the task's endless loop is one
  application of \<open>app_display_iter\<close>; between iterations other tasks switch the high
  voltage (\<open>app_display_on\<close>, \<open>app_display_off\<close>) and offer new digits
  (\<open>app_display_show_info\<close>).
\<close>

definition TUBE_NUM :: nat where [prog_defs]: "TUBE_NUM = 6"
definition CHIP595_NUM :: nat where [prog_defs]: "CHIP595_NUM = 8"

section \<open>Transfer to the shift registers\<close>

definition delay50ns :: "action list" where
  "delay50ns = [Busy 10]"

definition app_display_write_byte :: "u8 \<Rightarrow> action list" where
  "app_display_write_byte data =
     concat (map (\<lambda>index.
       bsp_74hc595_set_SH_CP False @
       (if (push_bit index (ucast data :: u32)) AND 0x80 \<noteq> 0
        then bsp_74hc595_set_DATA True else bsp_74hc595_set_DATA False) @
       delay50ns @ bsp_74hc595_set_SH_CP True @ delay50ns) [0..<CHIP595_NUM])"

definition app_display_show_data :: "action list" where
  "app_display_show_data = bsp_74hc595_set_ST_CP True @ delay50ns @ bsp_74hc595_set_ST_CP False"

definition app_display_write_data :: "u8 list \<Rightarrow> action list" where
  "app_display_write_data pdata =
     [EnterCritical] @
     concat (map (\<lambda>index. app_display_write_byte (pdata ! (index - 1))) (rev [1..<Suc CHIP595_NUM])) @
     app_display_show_data @ [ExitCritical]"

section \<open>From digits to outputs\<close>

definition calc_map_step :: "u8 list \<Rightarrow> nat \<Rightarrow> u8 list \<Rightarrow> u8 list option" where
  "calc_map_step src tube desc = do {
     s \<leftarrow> get src tube;
     if s \<le> 9 then do {
       t \<leftarrow> get src (TUBE_NUM - 1 - tube);
       let calc = of_nat (tube * 10) + t;
       let k = unat (drop_bit 3 calc);
       old \<leftarrow> get desc k;
       put desc k (old OR push_bit (unat (calc mod 8)) 1)
     } else Some desc
   }"

definition app_display_calc_map :: "u8 list \<Rightarrow> u8 list option" where
  "app_display_calc_map src =
     fold_opt (calc_map_step src) [0..<TUBE_NUM] (replicate CHIP595_NUM 0)"

section \<open>Colon lamps\<close>

definition app_display_set_point :: "u8 \<Rightarrow> action list" where
  "app_display_set_point src =
     (let l = drop_bit 4 src in
      if l = 0 then [BRR GPIOD POINT_LBOT_PIN, BRR GPIOA POINT_LTOP_PIN]
      else if l = 1 then [BSRR GPIOD POINT_LBOT_PIN, BRR GPIOA POINT_LTOP_PIN]
      else if l = 2 then [BSRR GPIOA POINT_LTOP_PIN, BRR GPIOD POINT_LBOT_PIN]
      else if l = 3 then [BSRR GPIOD POINT_LBOT_PIN, BSRR GPIOA POINT_LTOP_PIN]
      else []) @
     (let r = src AND 0x0f in
      if r = 0 then [BRR GPIOA POINT_RBOT_PIN, BRR GPIOA POINT_RTOP_PIN]
      else if r = 1 then [BSRR GPIOA POINT_RBOT_PIN, BRR GPIOA POINT_RTOP_PIN]
      else if r = 2 then [BSRR GPIOA POINT_RTOP_PIN, BRR GPIOA POINT_RBOT_PIN]
      else if r = 3 then [BSRR GPIOA POINT_RTOP_PIN, BSRR GPIOA POINT_RBOT_PIN]
      else [])"

section \<open>The display task\<close>

text \<open>
  The file's statics and the task's locals.  \<open>dstate\<close> is the local \<open>state\<close>, \<open>dmap\<close> the
  local \<open>map\<close>.
\<close>

record display =
  lcd_pixel :: "u8 list"
  hv_state :: u8
  processing :: bool
  dmap :: "u8 list"
  dstate :: u8
  start_dis :: u8

definition display_init :: display where
  "display_init = \<lparr>lcd_pixel = replicate 7 0, hv_state = SWITCH_ON, processing = True,
     dmap = 10 # replicate 7 0, dstate = 0, start_dis = 0\<rparr>"

definition app_display_set_show :: "bool \<Rightarrow> action list" where
  "app_display_set_show act = bsp_74hc595_set_OE (\<not> act)"

text \<open>\<open>memset(p, v, n)\<close> on an array.\<close>

definition memset :: "'a list \<Rightarrow> 'a \<Rightarrow> nat \<Rightarrow> 'a list" where
  "memset p v n = replicate n v @ drop n p"

definition case1_part :: "display \<Rightarrow> display" where
  "case1_part d =
     (let sd = start_dis d + 1; d = d\<lparr>start_dis := sd\<rparr>;
          d = (if sd \<ge> 10 then d\<lparr>dstate := 2\<rparr> else d)
      in d\<lparr>processing := True, lcd_pixel := memset (lcd_pixel d) (sd mod 10) 6\<rparr>)"

definition case2_part :: "display \<Rightarrow> (display \<times> action list) option" where
  "case2_part d = do {
     d \<leftarrow> Some (d\<lparr>processing := True\<rparr>);
     d \<leftarrow> Some (if hv_state d = SWITCH_OFF
                then d\<lparr>lcd_pixel := memset (lcd_pixel d) 0 6, dstate := 3\<rparr> else d);
     pt \<leftarrow> get (lcd_pixel d) 6;
     mp \<leftarrow> app_display_calc_map (lcd_pixel d);
     d \<leftarrow> Some (d\<lparr>dmap := mp, processing := False\<rparr>);
     Some (d, app_display_set_point pt @ app_display_write_data (dmap d) @
       [TaskDelay (if dstate d = 1 then mainDELAY_MS 600 else mainDELAY_MS 100)])
   }"

definition LED_PINS :: u16 where
  [prog_defs]: "LED_PINS = 0x0020 OR 0x0004 OR 0x0008"

definition app_display_iter :: "display \<Rightarrow> (display \<times> action list) option" where
  "app_display_iter d =
     (if dstate d = 0 then
        (if hv_state d = SWITCH_ON
         then Some (d\<lparr>start_dis := 0, dstate := 1\<rparr>,
           bsp_set_hv_state SWITCH_ON @ app_display_set_show True @ [TaskResume TASK_HANDLE_LED])
         else Some (d, []))
      else if dstate d = 1 then case2_part (case1_part d)
      else if dstate d = 2 then case2_part d
      else if dstate d = 3 then
        Some (d\<lparr>dstate := 0\<rparr>,
          bsp_set_hv_state SWITCH_OFF @ app_display_set_show False @ [BRR GPIOC LED_PINS] @
          [TaskSuspend TASK_HANDLE_LED, TaskSuspend TASK_HANDLE_DISPLAY])
      else Some (d, []))"

text \<open>The entry points of the other tasks.\<close>

definition app_display_show_info :: "u8 list \<Rightarrow> display \<Rightarrow> display \<times> action list" where
  "app_display_show_info src d =
     (if processing d then (d, [])
      else (d\<lparr>lcd_pixel := take 7 src\<rparr>, [EnterCritical, ExitCritical]))"

definition app_display_set_hv :: "u8 \<Rightarrow> display \<Rightarrow> display" where
  "app_display_set_hv state d = d\<lparr>hv_state := state\<rparr>"

definition app_display_on :: "display \<Rightarrow> display \<times> action list" where
  "app_display_on d = (app_display_set_hv SWITCH_ON d, [TaskResume TASK_HANDLE_DISPLAY])"

definition app_display_off :: "display \<Rightarrow> display \<times> action list" where
  "app_display_off d = (app_display_set_hv SWITCH_OFF d, [])"

section \<open>The transfer delivers the map\<close>

abbreviation sh_cp :: "port \<times> nat" where "sh_cp \<equiv> (GPIOA, 5)"
abbreviation ds_data :: "port \<times> nat" where "ds_data \<equiv> (GPIOA, 6)"

lemma hc595_masks:
  "bit HC595_OFFSET_PIN n \<longleftrightarrow> n = 5" "bit HC595_DATA_PIN n \<longleftrightarrow> n = 6"
  "bit HC595_LOCK_PIN n \<longleftrightarrow> n = 4"
  by (rule bit_single; simp add: prog_defs)+

lemma shift_test:
  assumes "n < 8"
  shows "(push_bit n (ucast (b::u8) :: u32)) AND 0x80 \<noteq> 0 \<longleftrightarrow> bit b (7 - n)"
proof -
  have "(push_bit n (ucast b :: u32)) AND 0x80 \<noteq> 0 \<longleftrightarrow> bit (push_bit n (ucast b :: u32)) 7"
    using and_exp_eq_0_iff_not_bit [of "push_bit n (ucast b :: u32)" 7] by simp
  with assms show ?thesis by (auto simp: bit_push_bit_iff bit_ucast_iff)
qed

text \<open>One bit: whatever the pins were, the receiver samples exactly the bit sent.\<close>

definition send_bit :: "bool \<Rightarrow> action list" where
  "send_bit v = bsp_74hc595_set_SH_CP False @ bsp_74hc595_set_DATA v @ delay50ns @
     bsp_74hc595_set_SH_CP True @ delay50ns"

lemma clocked_send_bit: "clocked_bits sh_cp ds_data p (send_bit v) = [v]"
  by (cases v)
    (simp_all add: send_bit_def hc595_setters delay50ns_def hc595_masks bit_or_iff bit_and_iff
      bit_not_iff Let_def)

lemma clocked_send_bits:
  "clocked_bits sh_cp ds_data p (concat (map send_bit vs)) = vs"
  by (induction vs arbitrary: p) (simp_all add: clocked_send_bit)

lemma write_byte_send: "app_display_write_byte b = concat (map send_bit (bits_msb b))"
proof -
  have "app_display_write_byte b = concat (map (\<lambda>n. send_bit (bit b (7 - n))) [0..<8])"
    unfolding app_display_write_byte_def CHIP595_NUM_def send_bit_def
    by (intro arg_cong [of _ _ concat] map_cong) (auto simp: shift_test)
  also have "map (\<lambda>n. send_bit (bit b (7 - n))) [0..<8] = map send_bit (bits_msb b)"
    by (simp add: bits_msb_def upt_rec)
  finally show ?thesis .
qed

lemma write_bytes_send:
  "concat (map (\<lambda>k. app_display_write_byte (f k)) ks) =
   concat (map send_bit (concat (map (\<lambda>k. bits_msb (f k)) ks)))"
  by (induction ks) (simp_all add: write_byte_send)

lemma clocked_tail: "clocked_bits sh_cp ds_data p app_display_show_data = []"
  by (simp add: app_display_show_data_def hc595_setters delay50ns_def hc595_masks bit_or_iff
      bit_and_iff bit_not_iff Let_def high_def)

lemma concat_map_rev: "concat (map f (rev xs)) = rev (concat (map (\<lambda>x. rev (f x)) xs))"
  by (induction xs) auto

lemma write_data_clocked:
  assumes "length pdata = CHIP595_NUM"
  shows "clocked_bits sh_cp ds_data p (app_display_write_data pdata) =
     rev (byte_bits pdata)"
proof -
  have "map (\<lambda>k. pdata ! (k - 1)) [1..<Suc CHIP595_NUM] = map ((!) pdata) [0..<CHIP595_NUM]"
    unfolding One_nat_def map_Suc_upt [symmetric] by simp
  also have "\<dots> = pdata" using assms by (metis map_nth)
  finally have "map (\<lambda>k. pdata ! (k - 1)) (rev [1..<Suc CHIP595_NUM]) = rev pdata"
    by (metis rev_map)
  then have m: "map (\<lambda>k. bits_msb (pdata ! (k - 1))) (rev [1..<Suc CHIP595_NUM]) = map bits_msb (rev pdata)"
    by (metis (no_types, lifting) comp_def map_eq_conv map_map)
  have "rev (bits_lsb b) = bits_msb b" for b by (metis rev_bits_msb rev_rev_ident)
  then have "concat (map bits_msb (rev pdata)) = rev (concat (map bits_lsb pdata))"
    by (simp add: concat_map_rev rev_bits_msb)
  with m show ?thesis
    by (simp add: byte_bits_def app_display_write_data_def write_bytes_send clocked_send_bits Let_def
        clocked_tail del: upt_Suc)
qed

section \<open>The map lights one cathode per tube\<close>

lemma calc_map_step_digit:
  assumes "k < 6" "6 \<le> length src" "src ! k \<le> 9" "src ! (5 - k) \<le> 9" "length desc = 8"
  defines "c \<equiv> 10 * k + unat (src ! (5 - k))"
  shows "calc_map_step src k desc =
     Some (desc[c div 8 := desc ! (c div 8) OR push_bit (c mod 8) 1])"
proof -
  have t: "unat (src ! (5 - k)) \<le> 9" using assms(4) by (simp add: word_le_nat_alt)
  then have c: "c < 64" using assms(1) by (simp add: c_def)
  have 1: "of_nat (k * 10) + src ! (5 - k) = (of_nat c :: u8)"
    by (simp add: c_def mult.commute)
  have u: "unat (of_nat c :: u8) = c" using c by (simp add: unat_u8_of_nat)
  have 2: "unat (drop_bit 3 (of_nat c :: u8)) = c div 8" "unat ((of_nat c :: u8) mod 8) = c mod 8"
    unfolding unat_drop_bit_eq unat_mod u by (simp_all add: drop_bit_eq_div)
  have 3: "c div 8 < 8" using c by auto
  from assms(1-5) 2 3 show ?thesis
    by (simp add: calc_map_step_def prog_defs get_Some put_Some Let_def 1 del: of_nat_mult)
qed

lemma calc_map_digits:
  assumes len: "6 \<le> length src" and dig: "\<And>k. k < 6 \<Longrightarrow> src ! k \<le> 9"
  shows "\<exists>desc. app_display_calc_map src = Some desc \<and> length desc = 8 \<and>
     byte_bits desc = map (\<lambda>j. j div 10 < 6 \<and> unat (src ! (5 - j div 10)) = j mod 10) [0..<64]"
proof -
  let ?P = "\<lambda>k desc. length desc = 8 \<and>
    (\<forall>j<64. bit (desc ! (j div 8)) (j mod 8) \<longleftrightarrow>
       j div 10 < k \<and> unat (src ! (5 - j div 10)) = j mod 10)"
  have "\<exists>desc'. calc_map_step src k desc = Some desc' \<and> ?P (Suc k) desc'"
    if k: "k < 6" and P: "?P k desc" for k and desc :: "u8 list"
  proof -
    let ?c = "10 * k + unat (src ! (5 - k))"
    have t: "unat (src ! (5 - k)) \<le> 9" using dig [of "5 - k"] by (simp add: word_le_nat_alt)
    then have c: "?c < 64" using k by simp
    have cd: "?c div 10 = k" "?c mod 10 = unat (src ! (5 - k))" using t by simp_all
    have j: "j = ?c \<longleftrightarrow> j div 10 = k \<and> unat (src ! (5 - j div 10)) = j mod 10" for j
      using cd by (metis div_mult_mod_eq mult.commute)
    have "calc_map_step src k desc =
        Some (desc[?c div 8 := desc ! (?c div 8) OR push_bit (?c mod 8) 1])"
      by (rule calc_map_step_digit) (use k len P dig in auto)
    moreover have "?P (Suc k) (desc[?c div 8 := desc ! (?c div 8) OR push_bit (?c mod 8) 1])"
      using P c set_bit_in_array [of ?c desc] j by (auto simp: less_Suc_eq)
    ultimately show ?thesis by blast
  qed
  moreover have "?P 0 (replicate 8 0)" by simp
  ultimately obtain desc where d: "fold_opt (calc_map_step src) [0..<6] (replicate 8 0) = Some desc"
    and P: "?P 6 desc"
    using fold_opt_upt [of ?P "replicate 8 0" 6 "calc_map_step src"] by blast
  have "byte_bits desc = map (\<lambda>j. j div 10 < 6 \<and> unat (src ! (5 - j div 10)) = j mod 10) [0..<64]"
    by (rule byte_bits_eqI) (use P in auto)
  with d P show ?thesis by (simp add: app_display_calc_map_def prog_defs)
qed

text \<open>
  Claim C26.  The display shows what it is given: for any six decimal digits, the map
  is computed without an out-of-bounds write, and the 64 cells of the shift-register chain
  hold, once the trace of \<open>app_display_write_data\<close> has clocked it in (from any pin state),
  exactly the cathodes of those digits: cell \<open>10 * t + v\<close> is set if and only if tube \<open>t\<close>
  (counted from the right) shows \<open>v\<close>.\<close>

theorem display_shows_digits:
  assumes "6 \<le> length src" "\<And>k. k < 6 \<Longrightarrow> src ! k \<le> 9"
  shows "\<exists>desc. app_display_calc_map src = Some desc \<and>
     rev (clocked_bits sh_cp ds_data p (app_display_write_data desc)) =
       map (\<lambda>j. j div 10 < 6 \<and> unat (src ! (5 - j div 10)) = j mod 10) [0..<64]"
proof -
  from calc_map_digits [OF assms] obtain desc where
    "app_display_calc_map src = Some desc" "length desc = 8"
    "byte_bits desc = map (\<lambda>j. j div 10 < 6 \<and> unat (src ! (5 - j div 10)) = j mod 10) [0..<64]"
    by blast
  then show ?thesis by (simp add: write_data_clocked prog_defs)
qed

theorem display_shows_digits_witness:
  "\<exists>desc. app_display_calc_map [1, 2, 3, 4, 5, 9] = Some desc \<and>
     rev (clocked_bits sh_cp ds_data (\<lambda>_. 0) (app_display_write_data desc)) =
       map (\<lambda>j. j div 10 < 6 \<and> unat ([1, 2, 3, 4, 5, 9 :: u8] ! (5 - j div 10)) = j mod 10) [0..<64]"
proof (rule display_shows_digits)
  have "\<forall>k\<in>set [0..<6]. [1, 2, 3, 4, 5, 9 :: u8] ! k \<le> 9" by code_simp
  then show "[1, 2, 3, 4, 5, 9 :: u8] ! k \<le> 9" if "k < 6" for k using that by simp
qed simp

text \<open>
  The guard reads \<open>src[tube]\<close> but the digit used is \<open>src[5 - tube]\<close>: a leading
  value above 9 next to a digit in the last position is not blanked, as the function's
  comment says it should be, but reaches the ninth byte of the eight-byte map.\<close>

theorem calc_map_guard_mismatch:
  "app_display_calc_map [15, 0, 0, 0, 0, 0] = None \<and>
   app_display_calc_map [0, 0, 0, 0, 0, 15] = Some [0, 132, 16, 64, 0, 1, 0, 0]"
  by (intro conjI; code_simp)

section \<open>The display task among the other tasks\<close>

text \<open>
  The task with the levels of the pins it drives and whether the kernel may run it
  (\<open>vTaskSuspend\<close> and \<open>vTaskResume\<close> of its own handle).  A step is one iteration of the
  task, a caller offering digits, or a caller switching the display.
\<close>

record display_sys =
  disp :: display
  runnable :: bool
  dpins :: pins

datatype display_event = Iterate | ShowInfo "u8 list" | SwitchOn | SwitchOff

fun run_state :: "bool \<Rightarrow> action list \<Rightarrow> bool" where
  "run_state r [] = r"
| "run_state r (TaskResume TASK_HANDLE_DISPLAY # as) = run_state True as"
| "run_state r (TaskSuspend TASK_HANDLE_DISPLAY # as) = run_state False as"
| "run_state r (_ # as) = run_state r as"

definition after :: "display_sys \<Rightarrow> display \<times> action list \<Rightarrow> display_sys" where
  "after s r = \<lparr>disp = fst r, runnable = run_state (runnable s) (snd r),
     dpins = levels (dpins s) (snd r)\<rparr>"

fun display_event_step :: "display_sys \<Rightarrow> display_event \<Rightarrow> display_sys option" where
  "display_event_step s Iterate =
     (if runnable s then map_option (after s) (app_display_iter (disp s)) else Some s)"
| "display_event_step s (ShowInfo src) = Some (after s (app_display_show_info src (disp s)))"
| "display_event_step s SwitchOn = Some (after s (app_display_on (disp s)))"
| "display_event_step s SwitchOff = Some (after s (app_display_off (disp s)))"

definition digits7 :: "u8 list \<Rightarrow> bool" where
  "digits7 src \<longleftrightarrow> length src = 7 \<and> (\<forall>k<6. src ! k \<le> 9)"

text \<open>The callers offer seven bytes of which six are digits.\<close>

fun event_ok :: "display_event \<Rightarrow> bool" where
  "event_ok (ShowInfo src) = digits7 src"
| "event_ok _ = True"

definition display_sys_init :: "pins \<Rightarrow> display_sys" where
  "display_sys_init p = \<lparr>disp = display_init, runnable = True, dpins = p\<rparr>"

inductive display_reach :: "pins \<Rightarrow> display_sys \<Rightarrow> bool" for p where
  reach_init: "display_reach p (display_sys_init p)"
| reach_step: "display_reach p s \<Longrightarrow> event_ok e \<Longrightarrow> display_event_step s e = Some t \<Longrightarrow>
     display_reach p t"

subsection \<open>Pins a trace leaves alone\<close>

fun act_port :: "action \<Rightarrow> port option" where
  "act_port (BSRR q m) = Some q"
| "act_port (BRR q m) = Some q"
| "act_port (PinMode q m mode) = Some q"
| "act_port _ = None"

lemma levels_other: "(\<And>a. a \<in> set as \<Longrightarrow> act_port a \<noteq> Some q) \<Longrightarrow> levels p as q = p q"
proof (induction as arbitrary: p)
  case (Cons a as)
  then have "levels (level p a) as q = level p a q" by simp
  moreover have "act_port a \<noteq> Some q" using Cons.prems by simp
  then have "level p a q = p q" by (cases "(p, a)" rule: level.cases) auto
  ultimately show ?case by simp
qed simp

lemma send_bit_port: "a \<in> set (send_bit v) \<Longrightarrow> act_port a \<noteq> Some GPIOC"
  by (cases v) (auto simp: send_bit_def hc595_setters delay50ns_def)

lemma write_data_portC: "levels p (app_display_write_data d) GPIOC = p GPIOC"
  by (rule levels_other)
    (auto simp: app_display_write_data_def write_byte_send app_display_show_data_def
      hc595_setters delay50ns_def dest: send_bit_port)

lemma set_point_portC: "levels p (app_display_set_point v) GPIOC = p GPIOC"
  by (rule levels_other) (auto simp: app_display_set_point_def Let_def split: if_splits)

lemma run_state_quiet:
  "(\<And>a. a \<in> set as \<Longrightarrow> a \<noteq> TaskResume TASK_HANDLE_DISPLAY \<and> a \<noteq> TaskSuspend TASK_HANDLE_DISPLAY) \<Longrightarrow>
   run_state r (as @ bs) = run_state r bs"
  by (induction r as rule: run_state.induct) auto

lemma send_bit_quiet [simp]:
  "TaskResume t \<notin> set (send_bit v)" "TaskSuspend t \<notin> set (send_bit v)"
  by (cases v; simp add: send_bit_def hc595_setters delay50ns_def)+

lemma write_data_quiet [simp]:
  "TaskResume t \<notin> set (app_display_write_data d)" "TaskSuspend t \<notin> set (app_display_write_data d)"
  by (auto simp: app_display_write_data_def write_byte_send app_display_show_data_def
        hc595_setters delay50ns_def)

lemma set_point_quiet [simp]:
  "TaskResume t \<notin> set (app_display_set_point v)" "TaskSuspend t \<notin> set (app_display_set_point v)"
  by (auto simp: app_display_set_point_def Let_def split: if_splits)

subsection \<open>One pass through case 2\<close>

lemma case2_part_ok:
  assumes "digits7 (lcd_pixel d)"
  shows "\<exists>d' as. case2_part d = Some (d', as) \<and> digits7 (lcd_pixel d') \<and>
    hv_state d' = hv_state d \<and> start_dis d' = start_dis d \<and> \<not> processing d' \<and>
    dstate d' = (if hv_state d = SWITCH_OFF then 3 else dstate d) \<and>
    lcd_pixel d' = (if hv_state d = SWITCH_OFF then memset (lcd_pixel d) 0 6 else lcd_pixel d) \<and>
    (\<forall>p. levels p as GPIOC = p GPIOC) \<and> (\<forall>r. run_state r as = r) \<and>
    last as = TaskDelay (if dstate d' = 1 then 600 else 100)"
proof -
  define px where "px = (if hv_state d = SWITCH_OFF then memset (lcd_pixel d) 0 6 else lcd_pixel d)"
  have px: "digits7 px" using assms by (auto simp: px_def digits7_def memset_def nth_append)
  then obtain desc where desc: "app_display_calc_map px = Some desc"
    using calc_map_digits [of px] by (auto simp: digits7_def)
  define d' where "d' = d\<lparr>processing := False, lcd_pixel := px, dmap := desc,
      dstate := if hv_state d = SWITCH_OFF then 3 else dstate d\<rparr>"
  define as where "as = (app_display_set_point (px ! 6) @ app_display_write_data desc) @
      [TaskDelay (if dstate d' = 1 then mainDELAY_MS 600 else mainDELAY_MS 100)]"
  have "case2_part d = Some (d', as)"
    using px desc by (auto simp: case2_part_def d'_def as_def px_def get_def digits7_def)
  moreover have "levels p as GPIOC = p GPIOC" for p
    by (simp add: as_def write_data_portC set_point_portC)
  moreover have "run_state r as = r" for r
    unfolding as_def
    by (subst run_state_quiet) auto
  ultimately show ?thesis using px by (simp add: d'_def as_def px_def mainDELAY_MS_def)
qed

subsection \<open>The invariant of the display\<close>

text \<open>
  The high voltage and the tube drivers agree with the task's state: on while it is
  counting up or showing, off (and the outputs disabled) while it is suspended.
\<close>

definition display_inv :: "display_sys \<Rightarrow> bool" where
  "display_inv s \<longleftrightarrow>
     digits7 (lcd_pixel (disp s)) \<and> dstate (disp s) \<le> 3 \<and>
     (dstate (disp s) = 1 \<longrightarrow> start_dis (disp s) < 10) \<and>
     (dstate (disp s) \<in> {1, 2, 3} \<longrightarrow> runnable s \<and> high (dpins s) (GPIOC, 8) \<and> \<not> high (dpins s) (GPIOC, 1)) \<and>
     (\<not> runnable s \<longrightarrow> dstate (disp s) = 0 \<and> \<not> high (dpins s) (GPIOC, 8) \<and> high (dpins s) (GPIOC, 1))"

lemma portC_masks:
  "bit HV_PIN n \<longleftrightarrow> n = 8" "bit HC595_OE_PIN n \<longleftrightarrow> n = 1"
  by (rule bit_single; simp add: prog_defs)+

lemma led_pins: "\<not> bit LED_PINS 8" "\<not> bit LED_PINS (Suc 0)"
  by (simp_all add: prog_defs bit_or_iff)

lemmas portC_simps = portC_masks led_pins bsp_set_hv_state_def app_display_set_show_def
  bsp_74hc595_set_OE_def bit_or_iff bit_and_iff bit_not_iff

lemma high_portC: "levels p as GPIOC = p GPIOC \<Longrightarrow> high (levels p as) (GPIOC, n) = high p (GPIOC, n)"
  by (simp add: high_def)

lemma iterate_case2:
  assumes "digits7 (lcd_pixel d)" "dstate d \<in> {1, 2}" "runnable s"
    "high (dpins s) (GPIOC, 8)" "\<not> high (dpins s) (GPIOC, 1)" "dstate d = 1 \<longrightarrow> start_dis d < 10"
  shows "\<exists>r. case2_part d = Some r \<and> display_inv (after s r)"
proof -
  from case2_part_ok [OF assms(1)] obtain d' as where c: "case2_part d = Some (d', as)"
    and f: "digits7 (lcd_pixel d')" "start_dis d' = start_dis d"
      "dstate d' = (if hv_state d = SWITCH_OFF then 3 else dstate d)"
      "\<And>p. levels p as GPIOC = p GPIOC" "\<And>r. run_state r as = r"
    by blast
  from f assms have "display_inv (after s (d', as))"
    by (auto simp: display_inv_def after_def high_portC)
  with c show ?thesis by blast
qed

lemma case1_part_ok:
  assumes "digits7 (lcd_pixel d)" "start_dis d < 10" "dstate d = 1"
  shows "digits7 (lcd_pixel (case1_part d))" "dstate (case1_part d) \<in> {1, 2}"
    "dstate (case1_part d) = 1 \<longrightarrow> start_dis (case1_part d) < 10"
    "hv_state (case1_part d) = hv_state d"
proof -
  have "v mod 10 \<le> 9" for v :: u8
    using word_mod_less_divisor [of 10 v] by (simp add: word_le_nat_alt word_less_nat_alt)
  then show "digits7 (lcd_pixel (case1_part d))" "dstate (case1_part d) \<in> {1, 2}"
    "dstate (case1_part d) = 1 \<longrightarrow> start_dis (case1_part d) < 10"
    "hv_state (case1_part d) = hv_state d"
    using assms by (auto simp: case1_part_def Let_def digits7_def memset_def nth_append not_le)
qed

lemma iterate_state0_on:
   assumes inv: "display_inv s" and run: "runnable s" "dstate (disp s) = 0" "hv_state (disp s) = SWITCH_ON"
  shows "\<exists>r. app_display_iter (disp s) = Some r \<and> display_inv (after s r)"
  using assms by (simp add: app_display_iter_def display_inv_def after_def portC_simps)

lemma iterate_state0_off:
   assumes inv: "display_inv s" and run: "runnable s" "dstate (disp s) = 0" "hv_state (disp s) \<noteq> SWITCH_ON"
  shows "\<exists>r. app_display_iter (disp s) = Some r \<and> display_inv (after s r)"
  using assms by (simp add: app_display_iter_def display_inv_def after_def portC_simps)

lemma iterate_state1:
   assumes inv: "display_inv s" and run: "runnable s" "dstate (disp s) = 1" 
  shows "\<exists>r. app_display_iter (disp s) = Some r \<and> display_inv (after s r)"
proof -
    from inv run have d: "digits7 (lcd_pixel (disp s))" "start_dis (disp s) < 10" "dstate (disp s) = 1"
      and e: "high (dpins s) (GPIOC, 8)" "\<not> high (dpins s) (GPIOC, 1)"
      by (simp_all add: display_inv_def)
    have "\<exists>r. case2_part (case1_part (disp s)) = Some r \<and> display_inv (after s r)"
      by (rule iterate_case2 [OF case1_part_ok(1,2) [OF d] run(1) e case1_part_ok(3) [OF d]])
    with run show ?thesis by (simp add: app_display_iter_def)
qed

lemma iterate_state2:
   assumes inv: "display_inv s" and run: "runnable s" "dstate (disp s) = 2" 
  shows "\<exists>r. app_display_iter (disp s) = Some r \<and> display_inv (after s r)"
proof -
    have "\<exists>r. case2_part (disp s) = Some r \<and> display_inv (after s r)"
      by (rule iterate_case2) (use inv run in \<open>simp_all add: display_inv_def\<close>)
    with run show ?thesis by (simp add: app_display_iter_def)
qed

lemma iterate_state3:
   assumes inv: "display_inv s" and run: "runnable s" "dstate (disp s) = 3" 
  shows "\<exists>r. app_display_iter (disp s) = Some r \<and> display_inv (after s r)"
  using assms by (simp add: app_display_iter_def display_inv_def after_def portC_simps SWITCH_ON_def SWITCH_OFF_def)

lemma iterate_ok:
  assumes inv: "display_inv s" and run: "runnable s"
  shows "\<exists>r. app_display_iter (disp s) = Some r \<and> display_inv (after s r)"
proof -
  have "dstate (disp s) \<le> 3" using inv by (simp only: display_inv_def)
  from u8_le_3 [OF this] show ?thesis
  proof (elim disjE)
    assume d: "dstate (disp s) = 0"
    show ?thesis
      by (cases "hv_state (disp s) = SWITCH_ON")
        (rule iterate_state0_on [OF assms d] iterate_state0_off [OF assms d], assumption)+
  qed (rule iterate_state1 [OF assms] iterate_state2 [OF assms] iterate_state3 [OF assms], assumption)+
qed

lemma display_inv_resume:
  assumes "display_inv s" "digits7 px" "lcd_pixel (disp t) = px"
    "dstate (disp t) = dstate (disp s)" "start_dis (disp t) = start_dis (disp s)"
    "dpins t = dpins s" "runnable t \<or> (runnable t = runnable s)"
  shows "display_inv t"
  using assms unfolding display_inv_def by metis

lemma show_info_ok:
  assumes "display_inv s" "digits7 src"
  shows "display_inv (after s (app_display_show_info src (disp s)))"
proof (cases "processing (disp s)")
  case True
  moreover have "after s (disp s, []) = s" by (cases s) (simp add: after_def)
  ultimately show ?thesis using assms by (simp add: app_display_show_info_def)
next
  case False
  then have "app_display_show_info src (disp s) = (disp s\<lparr>lcd_pixel := src\<rparr>, [EnterCritical, ExitCritical])"
    using assms(2) by (simp add: app_display_show_info_def digits7_def)
  then have "after s (app_display_show_info src (disp s)) = s\<lparr>disp := disp s\<lparr>lcd_pixel := src\<rparr>\<rparr>"
    by (simp add: after_def)
  then show ?thesis using display_inv_resume [OF assms, of "s\<lparr>disp := disp s\<lparr>lcd_pixel := src\<rparr>\<rparr>"]
    by simp
qed

lemma switch_on_ok:
  assumes "display_inv s"
  shows "display_inv (after s (app_display_on (disp s)))"
proof -
  have "digits7 (lcd_pixel (disp s))" using assms by (simp only: display_inv_def)
  with assms show ?thesis
    by (rule display_inv_resume) (simp_all add: app_display_on_def app_display_set_hv_def after_def)
qed

lemma switch_off_ok:
  assumes "display_inv s"
  shows "display_inv (after s (app_display_off (disp s)))"
proof -
  have "digits7 (lcd_pixel (disp s))" using assms by (simp only: display_inv_def)
  with assms show ?thesis
    by (rule display_inv_resume) (simp_all add: app_display_off_def app_display_set_hv_def after_def)
qed

lemma display_event_ok:
  assumes inv: "display_inv s" and ok: "event_ok e"
  shows "\<exists>t. display_event_step s e = Some t \<and> display_inv t"
proof (cases e)
  case Iterate
  show ?thesis
  proof (cases "runnable s")
    case True
    from iterate_ok [OF inv True] obtain r
      where "app_display_iter (disp s) = Some r" "display_inv (after s r)" by blast
    with Iterate True show ?thesis by simp
  next
    case False
    with Iterate inv show ?thesis by simp
  qed
next
  case (ShowInfo src)
  with show_info_ok [OF inv] ok show ?thesis by simp
next
  case SwitchOn
  with switch_on_ok [OF inv] show ?thesis by simp
next
  case SwitchOff
  with switch_off_ok [OF inv] show ?thesis by simp
qed

lemma display_reach_inv: "display_reach p s \<Longrightarrow> display_inv s"
proof (induction rule: display_reach.induct)
  case reach_init
  show ?case by (simp add: display_inv_def display_sys_init_def display_init_def digits7_def)
next
  case (reach_step s e t)
  with display_event_ok [of s e] show ?case by auto
qed

text \<open>
  Claim C1.  Safety of the high voltage under every interleaving: in every state the
  display can reach, with any callers switching it and offering digits at any moment, no
  step writes outside its arrays, a suspended task has the high voltage off and the tube
  drivers disabled, and a task that counts up or shows has both on.\<close>

theorem display_voltage_safe:
  assumes "display_reach p s"
  shows "(\<forall>e. event_ok e \<longrightarrow> display_event_step s e \<noteq> None) \<and>
    (\<not> runnable s \<longrightarrow> \<not> high (dpins s) (GPIOC, 8) \<and> high (dpins s) (GPIOC, 1)) \<and>
    (dstate (disp s) \<in> {1, 2} \<longrightarrow> high (dpins s) (GPIOC, 8) \<and> \<not> high (dpins s) (GPIOC, 1))"
proof -
  have inv: "display_inv s" using assms by (rule display_reach_inv)
  then have "display_event_step s e \<noteq> None" if "event_ok e" for e
    using display_event_ok [OF inv that] by auto
  with inv show ?thesis unfolding display_inv_def by blast
qed

text \<open>The states the display passes from power-on: a run of given events.\<close>

fun display_run :: "display_sys \<Rightarrow> display_event list \<Rightarrow> display_sys option" where
  "display_run s [] = Some s"
| "display_run s (e # es) = do { t \<leftarrow> display_event_step s e; display_run t es }"

lemma display_run_reach:
  "display_run s es = Some t \<Longrightarrow> list_all event_ok es \<Longrightarrow> display_reach p s \<Longrightarrow> display_reach p t"
  by (induction es arbitrary: s) (auto simp: bind_eq_Some_conv intro: reach_step)

theorem display_voltage_safe_witness:
  "\<exists>s. display_run (display_sys_init (\<lambda>_. 0)) [Iterate, SwitchOff, Iterate, Iterate] = Some s \<and>
     \<not> runnable s \<and> \<not> high (dpins s) (GPIOC, 8) \<and> high (dpins s) (GPIOC, 1)"
proof -
  obtain s where s: "display_run (display_sys_init (\<lambda>_. 0)) [Iterate, SwitchOff, Iterate, Iterate] = Some s"
    and r: "\<not> runnable s"
  proof -
    have "case display_run (display_sys_init (\<lambda>_. 0)) [Iterate, SwitchOff, Iterate, Iterate] of
        None \<Rightarrow> False | Some s \<Rightarrow> \<not> runnable s" by code_simp
    then show ?thesis using that by (auto split: option.splits)
  qed
  have "display_reach (\<lambda>_. 0) s"
    by (rule display_run_reach [OF s]) (simp_all add: reach_init)
  from display_voltage_safe [OF this] s r show ?thesis by blast
qed

text \<open>
  A lost request: if the display is switched off and, after the task has left
  case 2 but before it runs case 3, switched on again, the task still turns the high voltage
  off and suspends itself: the display stays dark although \<open>hv_state\<close> is \<open>ON\<close>.\<close>

theorem display_lost_on:
  "\<exists>s. display_reach (\<lambda>_. 0) s \<and> hv_state (disp s) = SWITCH_ON \<and> \<not> runnable s \<and>
     (\<forall>n. display_run s (replicate n Iterate) = Some s)"
proof -
  let ?es = "[Iterate, SwitchOff, Iterate, SwitchOn, Iterate]"
  have "case display_run (display_sys_init (\<lambda>_. 0)) ?es of
      None \<Rightarrow> False | Some s \<Rightarrow> \<not> runnable s \<and> hv_state (disp s) = SWITCH_ON" by code_simp
  then obtain s where s: "display_run (display_sys_init (\<lambda>_. 0)) ?es = Some s"
    and r: "\<not> runnable s" "hv_state (disp s) = SWITCH_ON" by (auto split: option.splits)
  have "display_reach (\<lambda>_. 0) s"
    by (rule display_run_reach [OF s]) (simp_all add: reach_init)
  moreover have "display_run s (replicate n Iterate) = Some s" for n
    using r by (induction n) auto
  ultimately show ?thesis using r by blast
qed

text \<open>
  Claim C40.  Switching off takes two iterations: from any reachable state that shows or counts
  up, with \<open>hv_state\<close> off and left off, the first iteration blanks the digits to zero and
  enters case 3, and the second turns the high voltage off and suspends the task.\<close>

theorem display_off_in_two:
  assumes "display_reach p s" "hv_state (disp s) = SWITCH_OFF" "dstate (disp s) \<in> {1, 2}"
  shows "\<exists>t. display_run s [Iterate, Iterate] = Some t \<and> \<not> runnable t \<and>
    take 6 (lcd_pixel (disp t)) = replicate 6 0 \<and> \<not> high (dpins t) (GPIOC, 8)"
proof -
  let ?d = "disp s" and ?e = "if dstate (disp s) = 1 then case1_part (disp s) else disp s"
  have inv: "display_inv s" using assms(1) by (rule display_reach_inv)
  then have px: "digits7 (lcd_pixel ?d)" and run: "runnable s"
    and st: "dstate ?d = 1 \<longrightarrow> start_dis ?d < 10"
    using assms(3) unfolding display_inv_def by blast+
  have e: "digits7 (lcd_pixel ?e)" "hv_state ?e = SWITCH_OFF"
    using case1_part_ok [OF px] st px assms(2) by (cases "dstate ?d = 1"; simp)+
  from case2_part_ok [OF e(1)] e(2) obtain d' as where c: "case2_part ?e = Some (d', as)"
    and d': "dstate d' = 3" "lcd_pixel d' = memset (lcd_pixel ?e) 0 6" "digits7 (lcd_pixel d')" by auto
  have it: "app_display_iter ?d = Some (d', as)" using c assms(3) by (auto simp: app_display_iter_def)
  then have s1: "display_event_step s Iterate = Some (after s (d', as))" using run by simp
  define s' where "s' = after s (d', as)"
  have inv': "display_inv s'" using display_event_ok [OF inv, of Iterate] s1 by (auto simp: s'_def)
  have disp': "disp s' = d'" by (simp add: s'_def after_def)
  with inv' d' have run': "runnable s'" by (simp add: display_inv_def)
  have "display_event_step s' Iterate = Some (after s' (d'\<lparr>dstate := 0\<rparr>,
          bsp_set_hv_state SWITCH_OFF @ app_display_set_show False @ [BRR GPIOC LED_PINS] @
          [TaskSuspend TASK_HANDLE_LED, TaskSuspend TASK_HANDLE_DISPLAY]))"
    using run' disp' d' by (simp add: app_display_iter_def)
  with s1 d' show ?thesis
    by (simp add: s'_def after_def memset_def portC_simps SWITCH_ON_def SWITCH_OFF_def)
qed

theorem display_off_in_two_witness:
  "\<exists>s t. display_run (display_sys_init (\<lambda>_. 0)) [Iterate, Iterate, SwitchOff] = Some s \<and>
     display_run s [Iterate, Iterate] = Some t \<and> \<not> runnable t"
proof -
  let ?es = "[Iterate, Iterate, SwitchOff]"
  have "case display_run (display_sys_init (\<lambda>_. 0)) ?es of None \<Rightarrow> False
      | Some s \<Rightarrow> hv_state (disp s) = SWITCH_OFF \<and> dstate (disp s) = 1" by code_simp
  then obtain s where s: "display_run (display_sys_init (\<lambda>_. 0)) ?es = Some s"
    and r: "hv_state (disp s) = SWITCH_OFF" "dstate (disp s) = 1" by (auto split: option.splits)
  have "display_reach (\<lambda>_. 0) s"
    by (rule display_run_reach [OF s]) (simp_all add: reach_init)
  from display_off_in_two [OF this r(1)] r(2) s show ?thesis by auto
qed

text \<open>Iterations of the task with nobody interfering.\<close>

fun display_iterate :: "nat \<Rightarrow> display \<Rightarrow> display option" where
  "display_iterate 0 d = Some d"
| "display_iterate (Suc n) d = do { d \<leftarrow> display_iterate n d; r \<leftarrow> app_display_iter d; Some (fst r) }"

lemma digit_of_nat: "n \<le> 10 \<Longrightarrow> (of_nat n :: u8) mod 10 = (if n = 10 then 0 else of_nat n)"
  by (simp add: word_unat_eq_iff unat_mod unat_u8_of_nat)

lemma count_up_step:
  assumes "n < 10" "digits7 (lcd_pixel d)" "dstate d = 1" "start_dis d = of_nat n"
    "hv_state d = SWITCH_ON"
  shows "\<exists>d' as. app_display_iter d = Some (d', as) \<and> digits7 (lcd_pixel d') \<and>
    dstate d' = (if n = 9 then 2 else 1) \<and> start_dis d' = of_nat (Suc n) \<and> hv_state d' = SWITCH_ON \<and>
    take 6 (lcd_pixel d') = replicate 6 (of_nat (Suc n mod 10)) \<and>
    last as = TaskDelay (if n = 9 then 100 else 600)"
proof -
  have "(of_nat n :: u8) < 10" using assms(1) by (simp add: word_less_nat_alt unat_u8_of_nat)
  then have d: "digits7 (lcd_pixel d)" "start_dis d < 10" "dstate d = 1" using assms by simp_all
  have ge: "10 \<le> (1 + of_nat n :: u8) \<longleftrightarrow> n = 9"
  proof -
    have "unat (of_nat (Suc n) :: u8) = Suc n" using assms(1) by (subst unat_u8_of_nat) auto
    then show ?thesis using assms(1) by (simp add: word_le_nat_alt) auto
  qed
  let ?e = "case1_part d"
  have e: "hv_state ?e = SWITCH_ON" "start_dis ?e = of_nat (Suc n)"
    "dstate ?e = (if n = 9 then 2 else 1)"
    "take 6 (lcd_pixel ?e) = replicate 6 (of_nat (Suc n mod 10))"
    using assms ge digit_of_nat [of "Suc n"]
    by (auto simp: case1_part_def Let_def memset_def add.commute mod_if)
  from case2_part_ok [OF case1_part_ok(1) [OF d]] obtain d' as where
    "case2_part ?e = Some (d', as)" "digits7 (lcd_pixel d')" "hv_state d' = hv_state ?e"
    "start_dis d' = start_dis ?e" "dstate d' = (if hv_state ?e = SWITCH_OFF then 3 else dstate ?e)"
    "lcd_pixel d' = (if hv_state ?e = SWITCH_OFF then memset (lcd_pixel ?e) 0 6 else lcd_pixel ?e)"
    "last as = TaskDelay (if dstate d' = 1 then 600 else 100)"
    by metis
  with e assms(3) show ?thesis
    by (auto simp: app_display_iter_def SWITCH_ON_def SWITCH_OFF_def)
qed

text \<open>
  The power-on cycle: from case 1 with a fresh counter and the display on, the
  \<open>n\<close>-th undisturbed iteration shows the digit \<open>n mod 10\<close> on all six tubes, and after the
  tenth every cathode has been lit once and the task is in case 2.\<close>

theorem display_power_on_cycle:
  assumes "digits7 (lcd_pixel d)" "dstate d = 1" "start_dis d = 0" "hv_state d = SWITCH_ON"
    and "0 < n" "n \<le> 10"
  shows "\<exists>d'. display_iterate n d = Some d' \<and>
    take 6 (lcd_pixel d') = replicate 6 (of_nat (n mod 10)) \<and> dstate d' = (if n = 10 then 2 else 1)"
proof -
  have "\<exists>d'. display_iterate n d = Some d' \<and> digits7 (lcd_pixel d') \<and> start_dis d' = of_nat n \<and>
    hv_state d' = SWITCH_ON \<and> dstate d' = (if n = 10 then 2 else 1) \<and>
    (0 < n \<longrightarrow> take 6 (lcd_pixel d') = replicate 6 (of_nat (n mod 10)))" if "n \<le> 10" for n
    using that
  proof (induction n)
    case 0
    with assms show ?case by simp
  next
    case (Suc n)
    then obtain d' where d': "display_iterate n d = Some d'" "digits7 (lcd_pixel d')"
      "start_dis d' = of_nat n" "hv_state d' = SWITCH_ON" "dstate d' = 1" by auto
    from count_up_step [OF _ d'(2,5,3,4)] Suc.prems d'(1) show ?case by auto
  qed
  with assms(5,6) show ?thesis by blast
qed

theorem display_power_on_cycle_witness:
  "\<exists>d'. display_iterate 10 (display_init\<lparr>dstate := 1\<rparr>) = Some d' \<and>
     take 6 (lcd_pixel d') = replicate 6 0 \<and> dstate d' = 2"
  using display_power_on_cycle [of "display_init\<lparr>dstate := 1\<rparr>" 10]
  by (auto simp: display_init_def digits7_def)

end
