(* ===== verification/I2c_Bus.thy ===== *)
theory I2c_Bus
  imports Hardware
begin

text \<open>
  The bit-banged two-wire buses (\<open>hal/common/i2c_bus.c\<close>): the DS3231 clock on PC14/PC15 and
  the SHT10 sensor on PC10/PA2.

  The state is the trace of actions so far and the number of times the data line has been
  read; what the line reads at the n-th read is the argument \<open>inp\<close>, since it is the slave
  that drives it.  \<open>bus_events\<close> is what a slave sees of a trace: start and stop
  conditions, bits the master clocks out, and clock pulses with the data line released.
\<close>

section \<open>State and pins\<close>

datatype chip = ds | sht

record bus =
  acts :: "action list"
  nsamp :: nat

type_synonym line = "nat \<Rightarrow> bool"

definition emit :: "action list \<Rightarrow> bus \<Rightarrow> bus" where
  "emit as b = b\<lparr>acts := acts b @ as\<rparr>"

text \<open>The table \<open>i2c_bus[]\<close> that \<open>i2c_bus_init\<close> fills.\<close>

fun scl_pin :: "chip \<Rightarrow> port \<times> nat" where
  "scl_pin ds = (GPIOC, 14)" | "scl_pin sht = (GPIOC, 10)"

fun sda_pin :: "chip \<Rightarrow> port \<times> nat" where
  "sda_pin ds = (GPIOC, 15)" | "sda_pin sht = (GPIOA, 2)"

definition pin_mask :: "nat \<Rightarrow> u16" where
  "pin_mask n = push_bit n 1"

definition I2C_BUS_SDA_HIGH :: "chip \<Rightarrow> action" where
  "I2C_BUS_SDA_HIGH c = BSRR (fst (sda_pin c)) (pin_mask (snd (sda_pin c)))"

definition I2C_BUS_SDA_LOW :: "chip \<Rightarrow> action" where
  "I2C_BUS_SDA_LOW c = BRR (fst (sda_pin c)) (pin_mask (snd (sda_pin c)))"

definition I2C_BUS_SCL_HIGH :: "chip \<Rightarrow> action" where
  "I2C_BUS_SCL_HIGH c = BSRR (fst (scl_pin c)) (pin_mask (snd (scl_pin c)))"

definition I2C_BUS_SCL_LOW :: "chip \<Rightarrow> action" where
  "I2C_BUS_SCL_LOW c = BRR (fst (scl_pin c)) (pin_mask (snd (scl_pin c)))"

text \<open>\<open>us *= 2; while(us--) ;\<close> runs its empty body \<open>2 * us\<close> times, at 16 bits.\<close>

definition delayus :: "u16 \<Rightarrow> action" where
  "delayus us = Busy (unat (us * 2))"

definition i2c_bus_sda_dir :: "chip \<Rightarrow> bool \<Rightarrow> action" where
  "i2c_bus_sda_dir c output =
     PinMode (fst (sda_pin c)) (pin_mask (snd (sda_pin c))) (if output then Out_PP else In_IPU)"

definition read_sda :: "chip \<Rightarrow> action" where
  "read_sda c = ReadIDR (fst (sda_pin c)) (pin_mask (snd (sda_pin c)))"

definition I2C_BUS_SDA_STATE :: "line \<Rightarrow> chip \<Rightarrow> bus \<Rightarrow> bool \<times> bus" where
  "I2C_BUS_SDA_STATE inp c b = (inp (nsamp b), b\<lparr>acts := acts b @ [read_sda c], nsamp := Suc (nsamp b)\<rparr>)"

section \<open>Conditions and bytes\<close>

definition i2c_bus_start :: "chip \<Rightarrow> action list" where
  "i2c_bus_start c =
     [i2c_bus_sda_dir c True,
      I2C_BUS_SDA_HIGH c, I2C_BUS_SCL_LOW c, delayus 1, I2C_BUS_SCL_HIGH c, delayus 1,
      I2C_BUS_SDA_LOW c, delayus 1, I2C_BUS_SCL_LOW c, delayus 3, I2C_BUS_SCL_HIGH c, delayus 1,
      I2C_BUS_SDA_HIGH c, delayus 1, I2C_BUS_SCL_LOW c]"

definition i2c_bus_start_ds3231 :: "chip \<Rightarrow> action list" where
  "i2c_bus_start_ds3231 c =
     [i2c_bus_sda_dir c True,
      I2C_BUS_SCL_HIGH c, I2C_BUS_SDA_HIGH c, delayus 1, I2C_BUS_SDA_LOW c, delayus 1,
      I2C_BUS_SCL_LOW c]"

definition i2c_bus_stop :: "chip \<Rightarrow> action list" where
  "i2c_bus_stop c =
     [i2c_bus_sda_dir c True,
      I2C_BUS_SDA_LOW c, I2C_BUS_SCL_LOW c, delayus 2, I2C_BUS_SCL_HIGH c, delayus 2,
      I2C_BUS_SDA_HIGH c, delayus 2]"

definition i2c_bus_chip_reset :: "chip \<Rightarrow> action list" where
  "i2c_bus_chip_reset c =
     [i2c_bus_sda_dir c True, I2C_BUS_SDA_HIGH c, I2C_BUS_SCL_LOW c, delayus 1] @
     concat (replicate 9 [I2C_BUS_SCL_HIGH c, I2C_BUS_SCL_LOW c]) @ i2c_bus_start c"

text \<open>
  \<open>i2c_bus_init\<close> sets up the clock pins; the mask is \<open>pin_scl | rcc_sda\<close>, the data line's clock-enable
  bit in place of the data pin.
\<close>

fun rcc_sda :: "chip \<Rightarrow> u32" where
  "rcc_sda ds = 0x10" | "rcc_sda sht = 0x04"

definition i2c_bus_init :: "action list" where
  "i2c_bus_init =
     concat (map (\<lambda>c.
       [PinMode (fst (scl_pin c)) (pin_mask (snd (scl_pin c)) OR ucast (rcc_sda c)) Out_PP,
        BRR (fst (scl_pin c)) (pin_mask (snd (scl_pin c)))]) [ds, sht]) @
     i2c_bus_chip_reset ds @ i2c_bus_chip_reset sht"

definition i2c_bus_send_ack :: "chip \<Rightarrow> bool \<Rightarrow> action list" where
  "i2c_bus_send_ack c ack =
     [i2c_bus_sda_dir c True,
      (if ack then I2C_BUS_SDA_HIGH c else I2C_BUS_SDA_LOW c),
      delayus 1, I2C_BUS_SCL_HIGH c, delayus 2, I2C_BUS_SCL_LOW c]"

definition i2c_bus_get_ack :: "line \<Rightarrow> chip \<Rightarrow> bus \<Rightarrow> bool \<times> bus" where
  "i2c_bus_get_ack inp c b =
     (let b = emit [i2c_bus_sda_dir c False, I2C_BUS_SCL_HIGH c, delayus 1] b;
          (ack, b) = I2C_BUS_SDA_STATE inp c b
      in (ack, emit [I2C_BUS_SCL_LOW c] b))"

text \<open>The mask \<open>index\<close> of the bit loops runs \<open>0x80, 0x40, \<dots>, 0x01\<close> and stops at 0.\<close>

definition masks :: "u8 list" where
  "masks = map (\<lambda>k. drop_bit k 0x80) [0..<8]"

definition write_bit :: "chip \<Rightarrow> u8 \<Rightarrow> u8 \<Rightarrow> action list" where
  "write_bit c value index =
     [(if index AND value \<noteq> 0 then I2C_BUS_SDA_HIGH c else I2C_BUS_SDA_LOW c),
      delayus 2, I2C_BUS_SCL_HIGH c, delayus 4, I2C_BUS_SCL_LOW c, delayus 2]"

definition i2c_bus_write_byte :: "line \<Rightarrow> chip \<Rightarrow> u8 \<Rightarrow> bus \<Rightarrow> bool \<times> bus" where
  "i2c_bus_write_byte inp c value b =
     (let b = emit ([i2c_bus_sda_dir c True, EnterCritical] @ concat (map (write_bit c value) masks)) b;
          (ack, b) = i2c_bus_get_ack inp c b
      in (ack, emit [ExitCritical] b))"

fun read_bits :: "line \<Rightarrow> chip \<Rightarrow> u8 list \<Rightarrow> u8 \<Rightarrow> bus \<Rightarrow> u8 \<times> bus" where
  "read_bits inp c [] val b = (val, b)"
| "read_bits inp c (index # is) val b =
     (let b = emit [I2C_BUS_SCL_HIGH c, delayus 3] b;
          (s, b) = I2C_BUS_SDA_STATE inp c b;
          val = (if s then val OR index else val);
          b = emit [I2C_BUS_SCL_LOW c, delayus 2] b
      in read_bits inp c is val b)"

definition i2c_bus_read_byte :: "line \<Rightarrow> chip \<Rightarrow> bool \<Rightarrow> bus \<Rightarrow> u8 \<times> bus" where
  "i2c_bus_read_byte inp c ack b =
     (let b = emit [i2c_bus_sda_dir c False, EnterCritical] b;
          (val, b) = read_bits inp c masks 0 b
      in (val, emit (i2c_bus_send_ack c ack @ [ExitCritical]) b))"

section \<open>Transfers\<close>

fun write_bytes :: "line \<Rightarrow> chip \<Rightarrow> u8 list \<Rightarrow> bus \<Rightarrow> bus" where
  "write_bytes inp c [] b = b"
| "write_bytes inp c (v # vs) b = write_bytes inp c vs (snd (i2c_bus_write_byte inp c v b))"

definition i2c_bus_write_ds3231 :: "line \<Rightarrow> chip \<Rightarrow> u8 \<Rightarrow> u8 \<Rightarrow> u8 list \<Rightarrow> bus \<Rightarrow> bus" where
  "i2c_bus_write_ds3231 inp c addr reg pdata b =
     (if length pdata = 0 then b
      else
       let b = emit ([EnterCritical] @ i2c_bus_start_ds3231 c) b;
           b = snd (i2c_bus_write_byte inp c addr b);
           b = snd (i2c_bus_write_byte inp c reg b);
           b = write_bytes inp c pdata b
       in emit (i2c_bus_stop c @ [ExitCritical]) b)"

fun read_bytes :: "line \<Rightarrow> chip \<Rightarrow> nat \<Rightarrow> bus \<Rightarrow> u8 list \<times> bus" where
  "read_bytes inp c 0 b = ([], b)"
| "read_bytes inp c (Suc n) b =
     (let (v, b) = i2c_bus_read_byte inp c (n = 0) b;
          (vs, b) = read_bytes inp c n b
      in (v # vs, b))"

definition i2c_bus_read_ds3231 :: "line \<Rightarrow> chip \<Rightarrow> u8 \<Rightarrow> u8 \<Rightarrow> nat \<Rightarrow> bus \<Rightarrow> u8 list \<times> bus" where
  "i2c_bus_read_ds3231 inp c addr reg len b =
     (let b = emit ([EnterCritical] @ i2c_bus_start_ds3231 c) b;
          b = snd (i2c_bus_write_byte inp c addr b);
          b = snd (i2c_bus_write_byte inp c reg b);
          b = emit (i2c_bus_start_ds3231 c) b;
          b = snd (i2c_bus_write_byte inp c (addr + 1) b);
          (vs, b) = read_bytes inp c len b
      in (vs, emit (i2c_bus_stop c @ [ExitCritical]) b))"

section \<open>What a slave sees\<close>

datatype bus_event = START | STOP | BIT bool | RELEASED

text \<open>
  The wires as the master drives them: clock, data, and whether data is an output.  \<open>GPIO_Init\<close> writes the output
  bit of a pin with pull-up before it makes the pin an input.
\<close>

record wires =
  w_scl :: bool
  w_sda :: bool
  w_out :: bool

fun wire :: "chip \<Rightarrow> wires \<Rightarrow> action \<Rightarrow> wires" where
  "wire c w (BSRR q m) =
     w\<lparr>w_scl := w_scl w \<or> (q = fst (scl_pin c) \<and> bit m (snd (scl_pin c))),
       w_sda := w_sda w \<or> (q = fst (sda_pin c) \<and> bit m (snd (sda_pin c)))\<rparr>"
| "wire c w (BRR q m) =
     w\<lparr>w_scl := w_scl w \<and> \<not> (q = fst (scl_pin c) \<and> bit m (snd (scl_pin c))),
       w_sda := w_sda w \<and> \<not> (q = fst (sda_pin c) \<and> bit m (snd (sda_pin c)))\<rparr>"
| "wire c w (PinMode q m md) =
     (if q = fst (sda_pin c) \<and> bit m (snd (sda_pin c))
      then w\<lparr>w_out := (md = Out_PP), w_sda := w_sda w \<or> md = In_IPU\<rparr> else w)"
| "wire c w _ = w"

definition wire_event :: "wires \<Rightarrow> wires \<Rightarrow> bus_event list" where
  "wire_event w w' =
     (if \<not> w_scl w \<and> w_scl w' then (if w_out w' then [BIT (w_sda w')] else [RELEASED])
      else if w_scl w \<and> w_scl w' \<and> w_out w \<and> w_sda w \<noteq> w_sda w'
      then (if w_sda w' then [STOP] else [START])
      else [])"

fun bus_events :: "chip \<Rightarrow> wires \<Rightarrow> action list \<Rightarrow> bus_event list" where
  "bus_events c w [] = []"
| "bus_events c w (a # as) = wire_event w (wire c w a) @ bus_events c (wire c w a) as"

definition wires_after :: "chip \<Rightarrow> wires \<Rightarrow> action list \<Rightarrow> wires" where
  "wires_after c w as = foldl (wire c) w as"

lemma wires_after_simps [simp]:
  "wires_after c w [] = w" "wires_after c w (a # as) = wires_after c (wire c w a) as"
  "wires_after c w (as @ bs) = wires_after c (wires_after c w as) bs"
  by (simp_all add: wires_after_def)

lemma bus_events_append [simp]:
  "bus_events c w (as @ bs) = bus_events c w as @ bus_events c (wires_after c w as) bs"
  by (induction as arbitrary: w) auto

lemma bit_pin_mask [simp]: "n < 16 \<Longrightarrow> bit (pin_mask n) m \<longleftrightarrow> m = n"
  by (rule bit_single) (simp_all add: pin_mask_def)

text \<open>The effect of the bus primitives on the wires, the same for both chips.\<close>

lemma wire_prims [simp]:
  "wire c w (I2C_BUS_SDA_HIGH c) = w\<lparr>w_sda := True\<rparr>"
  "wire c w (I2C_BUS_SDA_LOW c) = w\<lparr>w_sda := False\<rparr>"
  "wire c w (I2C_BUS_SCL_HIGH c) = w\<lparr>w_scl := True\<rparr>"
  "wire c w (I2C_BUS_SCL_LOW c) = w\<lparr>w_scl := False\<rparr>"
  "wire c w (i2c_bus_sda_dir c out) = w\<lparr>w_out := out, w_sda := w_sda w \<or> \<not> out\<rparr>"
  "wire c w (read_sda c) = w"
  "wire c w (delayus us) = w"
  by (cases c; simp add: I2C_BUS_SDA_HIGH_def I2C_BUS_SDA_LOW_def I2C_BUS_SCL_HIGH_def
      I2C_BUS_SCL_LOW_def i2c_bus_sda_dir_def delayus_def read_sda_def)+

section \<open>Bytes on the wire\<close>

definition frame :: "u8 \<Rightarrow> bus_event list" where
  "frame v = map BIT (bits_msb v) @ [RELEASED]"

lemma mask_bit: "k < 8 \<Longrightarrow> drop_bit k (0x80 :: u8) AND v \<noteq> 0 \<longleftrightarrow> bit v (7 - k)"
proof -
  assume k: "k < 8"
  have "\<forall>k\<in>set [0..<8]. drop_bit k (0x80 :: u8) = 2 ^ (7 - k)" by code_simp
  with k have "drop_bit k (0x80 :: u8) = 2 ^ (7 - k)" by simp
  then show ?thesis
    using and_exp_eq_0_iff_not_bit [of v "7 - k"] by (simp add: and.commute)
qed

text \<open>A step that leaves the clock low, reads nothing and emits \<open>as\<close>.\<close>

definition write_byte_acts :: "chip \<Rightarrow> u8 \<Rightarrow> action list" where
  "write_byte_acts c v =
     [i2c_bus_sda_dir c True, EnterCritical] @ concat (map (write_bit c v) masks) @
     [i2c_bus_sda_dir c False, I2C_BUS_SCL_HIGH c, delayus 1, read_sda c, I2C_BUS_SCL_LOW c, ExitCritical]"

lemma write_byte_bus:
  "i2c_bus_write_byte inp c v b =
     (inp (nsamp b), b\<lparr>acts := acts b @ write_byte_acts c v, nsamp := Suc (nsamp b)\<rparr>)"
  by (simp add: i2c_bus_write_byte_def i2c_bus_get_ack_def I2C_BUS_SDA_STATE_def emit_def
      write_byte_acts_def)

lemma write_bit_events:
  assumes "\<not> w_scl w" "w_out w"
  shows "bus_events c w (write_bit c v m) = [BIT (m AND v \<noteq> 0)]"
    and "wires_after c w (write_bit c v m) = w\<lparr>w_sda := (m AND v \<noteq> 0)\<rparr>"
  using assms by (simp_all add: write_bit_def wire_event_def)

lemma write_bits_events:
  assumes "\<not> w_scl w" "w_out w"
  shows "bus_events c w (concat (map (write_bit c v) ms)) = map (\<lambda>m. BIT (m AND v \<noteq> 0)) ms"
    and "wires_after c w (concat (map (write_bit c v) ms)) =
         w\<lparr>w_sda := last (w_sda w # map (\<lambda>m. m AND v \<noteq> 0) ms)\<rparr>"
  using assms by (induction ms arbitrary: w) (simp_all add: write_bit_events)

lemma masks_bits: "map (\<lambda>m. f (m AND v \<noteq> 0)) masks = map f (bits_msb v)"
proof -
  have "map (\<lambda>m. m AND v \<noteq> 0) masks = map (\<lambda>k. bit v (7 - k)) [0..<8]"
    by (simp add: masks_def mask_bit)
  also have "\<dots> = bits_msb v" by (simp add: bits_msb_def upt_rec)
  finally show ?thesis by (metis (no_types, lifting) comp_def map_eq_conv map_map)
qed

lemma write_byte_events:
  assumes "\<not> w_scl w"
  shows "bus_events c w (write_byte_acts c v) = frame v"
    and "wires_after c w (write_byte_acts c v) = \<lparr>w_scl = False, w_sda = True, w_out = False\<rparr>"
proof -
  let ?w = "w\<lparr>w_out := True\<rparr>"
  have w: "\<not> w_scl ?w" "w_out ?w" using assms by simp_all
  have last: "last (w_sda w # map (\<lambda>m. m AND v \<noteq> 0) masks) = bit v 0"
    using masks_bits [of "\<lambda>x. x" v] by (simp add: bits_msb_def)
  show "bus_events c w (write_byte_acts c v) = frame v"
    using assms write_bits_events [OF w, of c v masks]
    by (simp add: write_byte_acts_def wire_event_def frame_def masks_bits [of BIT])
  show "wires_after c w (write_byte_acts c v) = \<lparr>w_scl = False, w_sda = True, w_out = False\<rparr>"
    using assms write_bits_events [OF w, of c v masks] last
    by (cases w) (simp add: write_byte_acts_def)
qed

lemma write_bytes_bus:
  "write_bytes inp c vs b =
     b\<lparr>acts := acts b @ concat (map (write_byte_acts c) vs), nsamp := nsamp b + length vs\<rparr>"
  by (induction vs arbitrary: b) (simp_all add: write_byte_bus)

lemma write_bytes_events:
  assumes "\<not> w_scl w"
  shows "bus_events c w (concat (map (write_byte_acts c) vs)) = concat (map frame vs)"
    and "\<not> w_scl (wires_after c w (concat (map (write_byte_acts c) vs)))"
  using assms by (induction vs arbitrary: w) (simp_all add: write_byte_events)

section \<open>A write transfer\<close>

definition idle_wires :: "wires \<Rightarrow> bool" where
  "idle_wires w \<longleftrightarrow> w_scl w \<and> w_sda w"

lemma start_ds3231_events:
  assumes "idle_wires w"
  shows "bus_events c w (i2c_bus_start_ds3231 c) = [START]"
    and "wires_after c w (i2c_bus_start_ds3231 c) = \<lparr>w_scl = False, w_sda = False, w_out = True\<rparr>"
  using assms by (cases w; simp add: idle_wires_def i2c_bus_start_ds3231_def wire_event_def)+

lemma stop_events:
  assumes "\<not> w_scl w"
  shows "bus_events c w (i2c_bus_stop c) = [BIT False, STOP]"
    and "idle_wires (wires_after c w (i2c_bus_stop c))"
  using assms by (simp_all add: i2c_bus_stop_def wire_event_def idle_wires_def)

lemma crit_simps [simp]:
  "wire c w EnterCritical = w" "wire c w ExitCritical = w" "wire_event w w = []"
  by (simp_all add: wire_event_def)

definition write_acts :: "chip \<Rightarrow> u8 \<Rightarrow> u8 \<Rightarrow> u8 list \<Rightarrow> action list" where
  "write_acts c addr reg pdata =
     [EnterCritical] @ i2c_bus_start_ds3231 c @
     concat (map (write_byte_acts c) (addr # reg # pdata)) @ i2c_bus_stop c @ [ExitCritical]"

lemma write_ds3231_bus:
  "pdata \<noteq> [] \<Longrightarrow> i2c_bus_write_ds3231 inp c addr reg pdata b =
     b\<lparr>acts := acts b @ write_acts c addr reg pdata, nsamp := nsamp b + 2 + length pdata\<rparr>"
  by (simp add: i2c_bus_write_ds3231_def write_byte_bus write_bytes_bus emit_def write_acts_def)

lemma write_acts_events:
  assumes "idle_wires w"
  shows "bus_events c w (write_acts c addr reg pdata) =
     START # concat (map frame (addr # reg # pdata)) @ [BIT False, STOP]"
    and "idle_wires (wires_after c w (write_acts c addr reg pdata))"
proof -
  let ?w = "\<lparr>w_scl = False, w_sda = False, w_out = True\<rparr>"
  have w: "\<not> w_scl ?w" by simp
  note s = start_ds3231_events [OF assms, of c]
    and b = write_bytes_events [OF w, of c "addr # reg # pdata"]
    and p = stop_events [OF b(2), of c]
  show "bus_events c w (write_acts c addr reg pdata) =
     START # concat (map frame (addr # reg # pdata)) @ [BIT False, STOP]"
    unfolding write_acts_def bus_events_append wires_after_simps bus_events.simps crit_simps s b p
    by simp
  show "idle_wires (wires_after c w (write_acts c addr reg pdata))"
    unfolding write_acts_def wires_after_simps crit_simps s using p(2) by simp
qed

text \<open>
  Claim C24.  A write transfer is a well-formed I2C write: from an idle bus, whatever the slave
  answers, the slave sees one start condition, then the device address, the register and the
  data as frames of eight bits, most significant first, each followed by a released clock
  pulse for the acknowledge, then the stop condition; and the bus is idle again.\<close>

theorem i2c_write_frames:
  assumes "idle_wires w" "pdata \<noteq> []"
  shows "\<exists>as. acts (i2c_bus_write_ds3231 inp c addr reg pdata b) = acts b @ as \<and>
    bus_events c w as = START # concat (map frame (addr # reg # pdata)) @ [BIT False, STOP] \<and>
    idle_wires (wires_after c w as)"
  using write_ds3231_bus [OF assms(2), of inp c addr reg b] write_acts_events [OF assms(1)] by auto

theorem i2c_write_frames_witness:
  "\<exists>as. acts (i2c_bus_write_ds3231 (\<lambda>_. False) ds 0xD0 0x0E [4] \<lparr>acts = [], nsamp = 0\<rparr>) = [] @ as \<and>
    bus_events ds \<lparr>w_scl = True, w_sda = True, w_out = True\<rparr> as =
      START # concat (map frame [0xD0, 0x0E, 4]) @ [BIT False, STOP]"
  using i2c_write_frames [where w = "\<lparr>w_scl = True, w_sda = True, w_out = True\<rparr>"
      and pdata = "[4]" and inp = "\<lambda>_. False" and c = ds and addr = "0xD0" and reg = "0x0E"
      and b = "\<lparr>acts = [], nsamp = 0\<rparr>"]
  by (auto simp: idle_wires_def)

section \<open>A read transfer\<close>

definition read_byte_acts :: "chip \<Rightarrow> bool \<Rightarrow> action list" where
  "read_byte_acts c ack =
     [i2c_bus_sda_dir c False, EnterCritical] @
     concat (replicate 8 [I2C_BUS_SCL_HIGH c, delayus 3, read_sda c, I2C_BUS_SCL_LOW c, delayus 2]) @
     i2c_bus_send_ack c ack @ [ExitCritical]"

lemma read_bits_bus:
  "snd (read_bits inp c ms v b) =
     b\<lparr>acts := acts b @ concat (replicate (length ms) [I2C_BUS_SCL_HIGH c, delayus 3, read_sda c, I2C_BUS_SCL_LOW c, delayus 2]),
       nsamp := nsamp b + length ms\<rparr>"
  by (induction ms arbitrary: v b) (simp_all add: Let_def I2C_BUS_SDA_STATE_def emit_def)

lemma read_bits_value:
  "bit (fst (read_bits inp c ms v b)) j \<longleftrightarrow>
     bit v j \<or> (\<exists>k<length ms. inp (nsamp b + k) \<and> bit (ms ! k) j)"
proof (induction ms arbitrary: v b)
  case (Cons m ms)
  have ex: "(\<exists>k<length (m # ms). inp (nsamp b + k) \<and> bit ((m # ms) ! k) j) \<longleftrightarrow>
      (inp (nsamp b) \<and> bit m j) \<or> (\<exists>k<length ms. inp (Suc (nsamp b) + k) \<and> bit (ms ! k) j)"
    by (simp add: Ex_less_Suc2)
  show ?case unfolding ex
    by (auto simp: Cons.IH Let_def I2C_BUS_SDA_STATE_def emit_def bit_or_iff)
qed simp

lemma length_masks [simp]: "length masks = 8"
  by (simp add: masks_def)

lemma masks_nth: "k < 8 \<Longrightarrow> bit (masks ! k) j \<longleftrightarrow> j = 7 - k"
proof -
  assume k: "k < 8"
  have "\<forall>k\<in>set [0..<8]. drop_bit k (0x80 :: u8) = 2 ^ (7 - k)" by code_simp
  with k have "masks ! k = 2 ^ (7 - k)" by (simp add: masks_def)
  then show ?thesis by (auto simp: bit_exp_iff)
qed

lemma read_bits_byte:
  "bits_msb (fst (read_bits inp c masks 0 b)) = map (\<lambda>k. inp (nsamp b + k)) [0..<8]"
proof -
  have *: "bit (fst (read_bits inp c masks 0 b)) (7 - k) \<longleftrightarrow> inp (nsamp b + k)" if "k < 8" for k
  proof -
    have m: "bit (masks ! i) (7 - k) \<longleftrightarrow> i = k" if "i < 8" for i
      using that \<open>k < 8\<close> by (auto simp: masks_nth)
    have "(\<exists>i<8. inp (nsamp b + i) \<and> bit (masks ! i) (7 - k)) \<longleftrightarrow> inp (nsamp b + k)"
      by (rule iffI) (use m \<open>k < 8\<close> in auto)
    then show ?thesis by (simp add: read_bits_value)
  qed
  then show ?thesis by (simp add: bits_msb_upt)
qed

lemma read_byte_bus:
  "snd (i2c_bus_read_byte inp c ack b) =
     b\<lparr>acts := acts b @ read_byte_acts c ack, nsamp := nsamp b + 8\<rparr>"
  using read_bits_bus [of inp c masks 0 "emit [i2c_bus_sda_dir c False, EnterCritical] b"]
  by (simp add: i2c_bus_read_byte_def Let_def case_prod_beta emit_def read_byte_acts_def)

lemma read_byte_value:
  "bits_msb (fst (i2c_bus_read_byte inp c ack b)) = map (\<lambda>k. inp (nsamp b + k)) [0..<8]"
  by (simp add: i2c_bus_read_byte_def Let_def case_prod_beta read_bits_byte)
    (simp add: emit_def)

lemma read_bytes_nsamp: "nsamp (snd (read_bytes inp c n b)) = nsamp b + 8 * n"
  by (induction n arbitrary: b) (simp_all add: Let_def case_prod_beta read_byte_bus)

lemma read_bytes_length [simp]: "length (fst (read_bytes inp c n b)) = n"
  by (induction n arbitrary: b) (simp_all add: Let_def case_prod_beta)

lemma read_bytes_value:
  assumes "\<And>i k. i < n \<Longrightarrow> k < 8 \<Longrightarrow> inp (nsamp b + 8 * i + k) = bit (vs ! i) (7 - k)"
    and "length vs = n"
  shows "fst (read_bytes inp c n b) = vs"
  using assms
proof (induction n arbitrary: b vs)
  case (Suc n)
  then obtain v vs' where vs: "vs = v # vs'" by (cases vs) auto
  have "inp (nsamp b + k) = bit v (7 - k)" if "k < 8" for k
    using Suc.prems(1) [of 0 k] that by (simp add: vs)
  then have "map (\<lambda>k. inp (nsamp b + k)) [0..<8] = bits_msb v"
    by (simp add: bits_msb_upt)
  then have v: "fst (i2c_bus_read_byte inp c (n = 0) b) = v"
    using read_byte_value [of inp c "n = 0" b] by simp
  have "fst (read_bytes inp c n (snd (i2c_bus_read_byte inp c (n = 0) b))) = vs'"
  proof (rule Suc.IH)
    show "inp (nsamp (snd (i2c_bus_read_byte inp c (n = 0) b)) + 8 * i + k) = bit (vs' ! i) (7 - k)"
      if "i < n" "k < 8" for i k
      using Suc.prems(1) [of "Suc i" k] that by (simp add: vs read_byte_bus add.assoc)
  qed (use Suc.prems vs in simp)
  with v show ?case by (simp add: Let_def case_prod_beta vs)
qed simp

lemma read_ds3231_value:
  assumes "\<And>i k. i < n \<Longrightarrow> k < 8 \<Longrightarrow> inp (nsamp b + 3 + 8 * i + k) = bit (vs ! i) (7 - k)"
    and "length vs = n"
  shows "fst (i2c_bus_read_ds3231 inp c addr reg n b) = vs"
  by (simp add: i2c_bus_read_ds3231_def Let_def case_prod_beta write_byte_bus emit_def)
    (rule read_bytes_value, use assms in \<open>auto simp: numeral_3_eq_3\<close>)

text \<open>The master's side of \<open>n\<close> received bytes: eight released clocks each, then the
  acknowledge bit, which is high (not acknowledged) after the last byte only.\<close>

fun receive_frames :: "nat \<Rightarrow> bus_event list" where
  "receive_frames 0 = []"
| "receive_frames (Suc n) = replicate 8 RELEASED @ [BIT (n = 0)] @ receive_frames n"

lemma released_clocks:
  assumes "\<not> w_scl w" "\<not> w_out w"
  shows "bus_events c w (concat (replicate n [I2C_BUS_SCL_HIGH c, delayus 3, read_sda c, I2C_BUS_SCL_LOW c, delayus 2])) =
      replicate n RELEASED"
    and "wires_after c w (concat (replicate n [I2C_BUS_SCL_HIGH c, delayus 3, read_sda c, I2C_BUS_SCL_LOW c, delayus 2])) = w"
proof -
  have eq: "w\<lparr>w_scl := False\<rparr> = w" using assms(1) by (cases w) simp
  show "bus_events c w (concat (replicate n [I2C_BUS_SCL_HIGH c, delayus 3, read_sda c, I2C_BUS_SCL_LOW c, delayus 2])) =
      replicate n RELEASED"
    "wires_after c w (concat (replicate n [I2C_BUS_SCL_HIGH c, delayus 3, read_sda c, I2C_BUS_SCL_LOW c, delayus 2])) = w"
    using assms by (induction n) (simp_all add: wire_event_def eq)
qed

lemma read_byte_events:
  assumes "\<not> w_scl w"
  shows "bus_events c w (read_byte_acts c ack) = replicate 8 RELEASED @ [BIT ack]"
    and "\<not> w_scl (wires_after c w (read_byte_acts c ack))"
proof -
  let ?w = "w\<lparr>w_out := False, w_sda := True\<rparr>"
  have w: "\<not> w_scl ?w" "\<not> w_out ?w" using assms by simp_all
  show "bus_events c w (read_byte_acts c ack) = replicate 8 RELEASED @ [BIT ack]"
    "\<not> w_scl (wires_after c w (read_byte_acts c ack))"
    using assms released_clocks [OF w, of c 8]
    by (cases ack; simp add: read_byte_acts_def i2c_bus_send_ack_def wire_event_def del: replicate.simps)+
qed

lemma read_bytes_acts:
  "\<exists>as. acts (snd (read_bytes inp c n b)) = acts b @ as \<and>
     (\<forall>w. \<not> w_scl w \<longrightarrow> bus_events c w as = receive_frames n \<and> \<not> w_scl (wires_after c w as))"
proof (induction n arbitrary: b)
  case (Suc n)
  let ?b = "snd (i2c_bus_read_byte inp c (n = 0) b)"
  from Suc [of ?b] obtain as where as: "acts (snd (read_bytes inp c n ?b)) = acts ?b @ as"
    "\<And>w. \<not> w_scl w \<Longrightarrow> bus_events c w as = receive_frames n \<and> \<not> w_scl (wires_after c w as)" by blast
  have "acts (snd (read_bytes inp c (Suc n) b)) = acts b @ (read_byte_acts c (n = 0) @ as)"
    using as(1) by (simp add: Let_def case_prod_beta read_byte_bus)
  moreover have "bus_events c w (read_byte_acts c (n = 0) @ as) = receive_frames (Suc n) \<and>
      \<not> w_scl (wires_after c w (read_byte_acts c (n = 0) @ as))" if "\<not> w_scl w" for w
    using read_byte_events [OF that, of c "n = 0"] as(2) by simp
  ultimately show ?case by blast
qed simp

lemma restart_events:
  assumes "w = \<lparr>w_scl = False, w_sda = True, w_out = False\<rparr>"
  shows "bus_events c w (i2c_bus_start_ds3231 c) = [BIT True, START]"
    and "\<not> w_scl (wires_after c w (i2c_bus_start_ds3231 c))"
  using assms by (simp_all add: i2c_bus_start_ds3231_def wire_event_def)

text \<open>
  A read transfer: the slave sees the write of the register address, a start
  condition again and the device's read address, then \<open>n\<close> bytes of released clocks, each
  acknowledged but the last, and the stop condition.  Before the second start condition the
  master clocks one stray bit, which is 1 since the input pin has its output bit set.\<close>

theorem i2c_read_frames:
  assumes "idle_wires w"
  shows "\<exists>as. acts (snd (i2c_bus_read_ds3231 inp c addr reg n b)) = acts b @ as \<and>
    bus_events c w as =
      START # frame addr @ frame reg @ [BIT True, START] @
      frame (addr + 1) @ receive_frames n @ [BIT False, STOP] \<and>
    idle_wires (wires_after c w as)"
proof -
  define b1 where "b1 = b\<lparr>acts := acts b @ [EnterCritical] @ i2c_bus_start_ds3231 c @
      write_byte_acts c addr @ write_byte_acts c reg @ i2c_bus_start_ds3231 c @
      write_byte_acts c (addr + 1), nsamp := nsamp b + 3\<rparr>"
  from read_bytes_acts [of inp c n b1] obtain as where
    as: "acts (snd (read_bytes inp c n b1)) = acts b1 @ as"
      "\<And>w. \<not> w_scl w \<Longrightarrow> bus_events c w as = receive_frames n \<and> \<not> w_scl (wires_after c w as)" by blast
  let ?t = "[EnterCritical] @ i2c_bus_start_ds3231 c @ write_byte_acts c addr @
      write_byte_acts c reg @ i2c_bus_start_ds3231 c @ write_byte_acts c (addr + 1) @ as @
      i2c_bus_stop c @ [ExitCritical]"
  have "acts (snd (i2c_bus_read_ds3231 inp c addr reg n b)) = acts b @ ?t"
    using as(1) by (simp add: i2c_bus_read_ds3231_def Let_def case_prod_beta write_byte_bus emit_def
        b1_def numeral_3_eq_3)
  moreover
  define w1 where "w1 = \<lparr>w_scl = False, w_sda = False, w_out = True\<rparr>"
  define w3 where "w3 = \<lparr>w_scl = False, w_sda = True, w_out = False\<rparr>"
  define w4 where "w4 = wires_after c w3 (i2c_bus_start_ds3231 c)"
  have "\<not> w_scl w1" "\<not> w_scl w3" by (simp_all add: w1_def w3_def)
  note e1 = start_ds3231_events [OF assms, of c, folded w1_def]
    and e2 = write_byte_events [OF \<open>\<not> w_scl w1\<close>, of c addr, folded w3_def]
    and e3 = write_byte_events [OF \<open>\<not> w_scl w3\<close>, of c reg, folded w3_def]
    and e4 = restart_events [OF w3_def, of c, folded w4_def]
    and e5 = write_byte_events [OF e4(2), of c "addr + 1"]
  let ?w5 = "\<lparr>w_scl = False, w_sda = True, w_out = False\<rparr>"
  have e6: "bus_events c ?w5 as = receive_frames n" "\<not> w_scl (wires_after c ?w5 as)"
    using as(2) [of ?w5] by simp_all
  note e7 = stop_events [OF e6(2), of c]
  have "bus_events c w ?t =
      START # frame addr @ frame reg @ [BIT True, START] @
      frame (addr + 1) @ receive_frames n @ [BIT False, STOP] \<and> idle_wires (wires_after c w ?t)"
    unfolding bus_events_append wires_after_simps bus_events.simps crit_simps
      e1 e2 e3 e4(1) w4_def [symmetric] e5 e6 e7
    using e7(2) by simp
  ultimately show ?thesis by blast
qed

theorem i2c_read_frames_witness:
  "\<exists>as. acts (snd (i2c_bus_read_ds3231 (\<lambda>_. True) ds 0xD0 0 2 \<lparr>acts = [], nsamp = 0\<rparr>)) = [] @ as \<and>
    bus_events ds \<lparr>w_scl = True, w_sda = True, w_out = True\<rparr> as =
      START # frame 0xD0 @ frame 0 @ [BIT True, START] @ frame 0xD1 @
      receive_frames 2 @ [BIT False, STOP]"
  using i2c_read_frames [where w = "\<lparr>w_scl = True, w_sda = True, w_out = True\<rparr>"
      and inp = "\<lambda>_. True" and c = ds and addr = "0xD0" and reg = 0 and n = 2
      and b = "\<lparr>acts = [], nsamp = 0\<rparr>"]
  by (auto simp: idle_wires_def)

section \<open>Start-up\<close>

text \<open>The pins that an action makes push-pull outputs.\<close>

fun made_outputs :: "action \<Rightarrow> (port \<times> nat) set" where
  "made_outputs (PinMode q m Out_PP) = {(q, n) | n. n < 16 \<and> bit m n}"
| "made_outputs _ = {}"

lemma pin_mask_or_bits:
  "n < 16 \<Longrightarrow> {k. k < 16 \<and> bit (pin_mask n OR ucast (rcc_sda c)) k} =
     {n, case c of ds \<Rightarrow> 4 | sht \<Rightarrow> 2}"
proof -
  assume n: "n < 16"
  have "bit (ucast (rcc_sda c) :: u16) k \<longleftrightarrow> k = (case c of ds \<Rightarrow> 4 | sht \<Rightarrow> 2)" if "k < 16" for k
  proof -
    have "\<forall>k\<in>set [0..<16]. bit (ucast (rcc_sda ds) :: u16) k \<longleftrightarrow> k = 4"
      "\<forall>k\<in>set [0..<16]. bit (ucast (rcc_sda sht) :: u16) k \<longleftrightarrow> k = 2" by code_simp+
    with that show ?thesis by (cases c) auto
  qed
  with n show ?thesis by (cases c) (auto simp: bit_or_iff)
qed

text \<open>
  The initialisation of the two buses makes exactly PC14, PC10, PC15 and PA2 outputs,
  and two pins that belong to no bus: PC4, and PC2, which carries the blue LED.\<close>

theorem i2c_init_stray_pins:
  "\<Union> (made_outputs ` set i2c_bus_init) =
     {(GPIOC, 14), (GPIOC, 4), (GPIOC, 10), (GPIOC, 2), (GPIOC, 15), (GPIOA, 2)}"
proof -
  have a: "made_outputs (PinMode q (pin_mask n OR ucast (rcc_sda c)) Out_PP) =
      {(q, n), (q, case c of ds \<Rightarrow> 4 | sht \<Rightarrow> 2)}" if "n < 16" for q n c
    using pin_mask_or_bits [OF that, of c] by (auto simp: set_eq_iff)
  have b: "made_outputs (PinMode q (pin_mask n) Out_PP) = {(q, n)}" if "n < 16" for q n
    using that by auto
  have "made_outputs (PinMode GPIOC (pin_mask 14 OR 16) Out_PP) = {(GPIOC, 14), (GPIOC, 4)}"
    "made_outputs (PinMode GPIOC (pin_mask 10 OR 4) Out_PP) = {(GPIOC, 10), (GPIOC, 2)}"
    using a [of 14 GPIOC ds] a [of 10 GPIOC sht] by (simp_all del: made_outputs.simps(1))
  note a = this
  show ?thesis
    by (simp add: i2c_bus_init_def i2c_bus_chip_reset_def i2c_bus_start_def i2c_bus_sda_dir_def
        I2C_BUS_SDA_HIGH_def I2C_BUS_SDA_LOW_def I2C_BUS_SCL_HIGH_def I2C_BUS_SCL_LOW_def
        delayus_def a b del: made_outputs.simps(1) replicate.simps) blast
qed

end
