(* ===== verification/Rtc.thy ===== *)
theory Rtc
  imports I2c_Bus
begin

text \<open>
  The real-time clock: dates (\<open>mid/mid_rtc.c\<close>, \<open>mid/inc/mid_rtc.h\<close>) and the DS3231 driver
  (\<open>hal/hal_ds3231.c\<close>).

  The driver's functions take the two bus operations they call as arguments: \<open>rd d reg n\<close>
  stands for \<open>i2c_bus_read_ds3231(ds, DS1231_SLAVE_ADDR, reg, buf, n)\<close> on a device in state
  \<open>d\<close>, \<open>wr d reg bs\<close> for the write.  The locale \<open>register_bus\<close> states what the driver
  relies on, and its lemmas are the driver's correctness.  It is interpreted on the
  bit-banged transfers of \<open>I2c_Bus\<close>, run against a register file that answers as the
  DS3231 data sheet describes (address, register pointer with increment, data bytes).
\<close>

section \<open>Time and dates\<close>

record rtc_time =
  sec :: u8
  min' :: u8
  hour :: u8
  wday :: u8
  mday :: u8
  mon :: u8
  year :: u8
  am_pm :: u8
  h12 :: u8

record rtc_wkalrm =
  enabled :: u8
  alarm_time :: rtc_time

definition bcd2bin :: "u8 \<Rightarrow> u8" where
  "bcd2bin bcd = (bcd AND 0x0f) + drop_bit 4 bcd * 10"

definition bin2bcd :: "u8 \<Rightarrow> u8" where
  "bin2bcd bin = push_bit 4 (bin div 10) OR (bin mod 10)"

definition is_leap_year :: "u32 \<Rightarrow> bool" where
  "is_leap_year y \<longleftrightarrow> (y mod 4 = 0 \<and> y mod 100 \<noteq> 0) \<or> y mod 400 = 0"

definition rtc_days_in_month :: "u8 list" where
  "rtc_days_in_month = [31, 28, 31, 30, 31, 30, 31, 31, 30, 31, 30, 31]"

text \<open>\<open>None\<close>: the table is read out of bounds.\<close>

definition rtc_month_days :: "u32 \<Rightarrow> u32 \<Rightarrow> u32 option" where
  "rtc_month_days month y = do {
     d \<leftarrow> get rtc_days_in_month (unat month);
     Some (ucast d + (if is_leap_year y \<and> month = 1 then 1 else 0))
   }"

definition rtc_valid_tm :: "rtc_time \<Rightarrow> bool option" where
  "rtc_valid_tm tm =
     (if year tm > 100 then Some False
      else if mon tm > 12 then Some False
      else if mday tm < 1 then Some False
      else do {
        days \<leftarrow> rtc_month_days (ucast (mon tm)) (ucast (year tm) + 2000);
        Some (\<not> (ucast (mday tm) > days \<or> wday tm > 7 \<or> hour tm \<ge> 24 \<or> min' tm \<ge> 60 \<or> sec tm \<ge> 60))
      })"

section \<open>The DS3231 driver\<close>

definition DS3231_REG_SECONDS :: u8 where [prog_defs]: "DS3231_REG_SECONDS = 0x00"
definition DS3231_REG_ALARM1 :: u8 where [prog_defs]: "DS3231_REG_ALARM1 = 0x07"
definition DS3231_REG_CR :: u8 where [prog_defs]: "DS3231_REG_CR = 0x0E"
definition DS3231_REG_SR :: u8 where [prog_defs]: "DS3231_REG_SR = 0x0F"
definition DS3231_REG_CR_A2IE :: u8 where [prog_defs]: "DS3231_REG_CR_A2IE = 0x02"
definition DS3231_REG_CR_A1IE :: u8 where [prog_defs]: "DS3231_REG_CR_A1IE = 0x01"
definition DS3231_REG_SR_A2F :: u8 where [prog_defs]: "DS3231_REG_SR_A2F = 0x02"
definition DS3231_REG_SR_A1F :: u8 where [prog_defs]: "DS3231_REG_SR_A1F = 0x01"

type_synonym 'd rd = "'d \<Rightarrow> u8 \<Rightarrow> nat \<Rightarrow> u8 list"
type_synonym 'd wr = "'d \<Rightarrow> u8 \<Rightarrow> u8 list \<Rightarrow> 'd"

text \<open>The time in \<open>*ptime\<close> and the returned validity.\<close>

definition decode_time :: "u8 list \<Rightarrow> rtc_time" where
  "decode_time data =
     (let h = (if data ! 2 AND 0x40 \<noteq> 0 then 1 else 0);
          p = (if data ! 2 AND 0x20 \<noteq> 0 then 1 else 0);
          century = (if data ! 5 AND 0x80 \<noteq> 0 then 1 else 0 :: u32)
      in \<lparr>sec = bcd2bin (data ! 0), min' = bcd2bin (data ! 1),
          hour = (if h \<noteq> 0 then (if p \<noteq> 0 then bcd2bin (data ! 2 AND 0x1F) + 12
                                   else bcd2bin (data ! 2 AND 0x1F))
                  else bcd2bin (data ! 2)),
          wday = bcd2bin (data ! 3), mday = bcd2bin (data ! 4),
          mon = bcd2bin (data ! 5 AND 0x7F),
          year = ucast (ucast (bcd2bin (data ! 6)) + century * 100),
          am_pm = p, h12 = h\<rparr>)"

definition hal_ds3231_read_time :: "'d rd \<Rightarrow> 'd \<Rightarrow> rtc_time \<times> bool option" where
  "hal_ds3231_read_time rd d =
     (let tm = decode_time (rd d DS3231_REG_SECONDS 7) in (tm, rtc_valid_tm tm))"

text \<open>\<open>junk\<close> is what the uninitialised \<open>data[6]\<close> holds when the century branch ors into it.\<close>

definition encode_time :: "u8 \<Rightarrow> rtc_time \<Rightarrow> u8 list" where
  "encode_time junk t =
     [bin2bcd (sec t), bin2bcd (min' t), bin2bcd (hour t), bin2bcd (wday t), bin2bcd (mday t),
      bin2bcd (mon t),
      (if year t \<ge> 100 then junk OR 0x80 OR bin2bcd (year t - 100) else bin2bcd (year t))]"

definition hal_ds3231_set_time :: "'d wr \<Rightarrow> u8 \<Rightarrow> rtc_time \<Rightarrow> 'd \<Rightarrow> 'd" where
  "hal_ds3231_set_time wr junk t d = wr d DS3231_REG_SECONDS (encode_time junk t)"

definition hal_ds3231_read_alarm :: "'d rd \<Rightarrow> 'd \<Rightarrow> rtc_wkalrm \<Rightarrow> rtc_wkalrm" where
  "hal_ds3231_read_alarm rd d alarm =
     (let control = rd d DS3231_REG_CR 1 ! 0; buf = rd d DS3231_REG_ALARM1 4
      in \<lparr>enabled = (if control AND DS3231_REG_CR_A1IE \<noteq> 0 then 1 else 0),
          alarm_time = (alarm_time alarm)\<lparr>sec := buf ! 0, min' := buf ! 1, hour := buf ! 2,
            mday := buf ! 3, mon := 0, year := 0, wday := 0\<rparr>\<rparr>)"

definition hal_ds3231_set_alarm :: "'d rd \<Rightarrow> 'd wr \<Rightarrow> rtc_wkalrm \<Rightarrow> 'd \<Rightarrow> 'd" where
  "hal_ds3231_set_alarm rd wr alarm d =
     (let buf = rd d DS3231_REG_ALARM1 4; t = alarm_time alarm
      in wr d DS3231_REG_ALARM1
        [bin2bcd (sec t) OR (buf ! 0 AND 0x80), bin2bcd (min' t) OR (buf ! 1 AND 0x80),
         bin2bcd (hour t) OR (buf ! 2 AND 0x80), bin2bcd (mday t) OR (buf ! 3 AND 0x80)])"

definition hal_ds3231_set_match ::
    "'d rd \<Rightarrow> 'd wr \<Rightarrow> u8 \<Rightarrow> u8 \<Rightarrow> u8 \<Rightarrow> u8 \<Rightarrow> 'd \<Rightarrow> 'd" where
  "hal_ds3231_set_match rd wr mday_match hour_match min_match sec_match d =
     (let buf = rd d DS3231_REG_ALARM1 4
      in wr d DS3231_REG_ALARM1
        [(if sec_match \<noteq> 0 then 0x80 OR buf ! 0 else buf ! 0 AND 0x7f),
         (if min_match \<noteq> 0 then 0x80 OR buf ! 1 else buf ! 1 AND 0x7f),
         (if hour_match \<noteq> 0 then 0x80 OR buf ! 2 else buf ! 2 AND 0x7f),
         (if mday_match \<noteq> 0 then 0x80 OR buf ! 3 else buf ! 3 AND 0x7f)])"

definition hal_ds3231_de_irq :: "'d rd \<Rightarrow> 'd wr \<Rightarrow> 'd \<Rightarrow> 'd" where
  "hal_ds3231_de_irq rd wr d =
     wr d DS3231_REG_SR [rd d DS3231_REG_SR 1 ! 0 AND NOT (DS3231_REG_SR_A1F OR DS3231_REG_SR_A2F)]"

definition hal_ds3231_en_irq :: "'d rd \<Rightarrow> 'd wr \<Rightarrow> u8 \<Rightarrow> 'd \<Rightarrow> 'd" where
  "hal_ds3231_en_irq rd wr flag d =
     (let control = rd d DS3231_REG_CR 1 ! 0
      in wr d DS3231_REG_CR
        [if flag \<noteq> 0 then control OR DS3231_REG_CR_A1IE
         else control AND NOT (DS3231_REG_CR_A1IE OR DS3231_REG_CR_A2IE)])"

section \<open>The middle layer\<close>

definition mid_rtc_set_match :: "'d rd \<Rightarrow> 'd wr \<Rightarrow> 'd \<Rightarrow> 'd" where
  "mid_rtc_set_match rd wr d = hal_ds3231_set_match rd wr 1 1 1 1 d"

definition mid_rtc_set_time :: "'d wr \<Rightarrow> u8 \<Rightarrow> rtc_time \<Rightarrow> 'd \<Rightarrow> 'd" where
  "mid_rtc_set_time wr junk t d = hal_ds3231_set_time wr junk t d"

definition mid_rtc_get_time :: "'d rd \<Rightarrow> 'd \<Rightarrow> rtc_time" where
  "mid_rtc_get_time rd d = fst (hal_ds3231_read_time rd d)"

definition mid_rtc_en_irq :: "'d rd \<Rightarrow> 'd wr \<Rightarrow> u8 \<Rightarrow> 'd \<Rightarrow> 'd" where
  "mid_rtc_en_irq rd wr flag d = hal_ds3231_en_irq rd wr flag d"

definition mid_rtc_de_irq :: "'d rd \<Rightarrow> 'd wr \<Rightarrow> 'd \<Rightarrow> 'd" where
  "mid_rtc_de_irq rd wr d = hal_ds3231_de_irq rd wr d"

definition mid_rtc_read_alarm :: "'d rd \<Rightarrow> 'd \<Rightarrow> rtc_wkalrm \<Rightarrow> rtc_wkalrm" where
  "mid_rtc_read_alarm rd d alarm = hal_ds3231_read_alarm rd d alarm"

text \<open>The device part of \<open>mid_rtc_init\<close> (creating the semaphore is a kernel call).\<close>

definition mid_rtc_init :: "'d rd \<Rightarrow> 'd wr \<Rightarrow> 'd \<Rightarrow> 'd" where
  "mid_rtc_init rd wr d = mid_rtc_de_irq rd wr (mid_rtc_set_match rd wr d)"

lemmas mid_rtc_defs =
  mid_rtc_set_match_def mid_rtc_set_time_def mid_rtc_get_time_def mid_rtc_en_irq_def
  mid_rtc_de_irq_def mid_rtc_read_alarm_def mid_rtc_init_def

section \<open>Binary-coded decimals\<close>

lemma bcd_roundtrip_all: "\<forall>n\<in>set [0..<100]. bcd2bin (bin2bcd (of_nat n)) = of_nat n"
  by code_simp

lemma u8_below:
  assumes "(x::u8) < of_nat n" "n < 256" "\<forall>k\<in>set [0..<n]. P (of_nat k :: u8)"
  shows "P x"
proof -
  have "unat x < n" using assms(1,2) by (simp add: word_less_nat_alt unat_u8_of_nat)
  then have "P (of_nat (unat x))" by (intro bspec [OF assms(3)]) simp
  then show ?thesis by simp
qed

lemma bcd_roundtrip: "b < 100 \<Longrightarrow> bcd2bin (bin2bcd b) = b"
  by (rule u8_below [of b 100]) (use bcd_roundtrip_all in auto)

lemma bin2bcd_hour: "b < 24 \<Longrightarrow> bin2bcd b AND 0x40 = 0"
  by (rule u8_below [of b 24 "\<lambda>b. bin2bcd b AND 0x40 = 0"]) (simp_all, code_simp)

lemma bin2bcd_month: "b < 80 \<Longrightarrow> bin2bcd b AND 0x80 = 0 \<and> bin2bcd b AND 0x7F = bin2bcd b"
  by (rule u8_below [of b 80 "\<lambda>b. bin2bcd b AND 0x80 = 0 \<and> bin2bcd b AND 0x7F = bin2bcd b"]) (simp_all, code_simp)

lemma length_encode_time [simp]: "length (encode_time junk t) = 7"
  by (simp add: encode_time_def)

section \<open>The contract with the bus\<close>

locale register_bus =
  fixes rd :: "'d rd" and wr :: "'d wr"
  assumes rd_length: "length (rd d r n) = n"
    and rd_split: "rd d r (Suc n) = rd d r 1 @ rd d (r + 1) n"
    and rd_wr: "length bs = n \<Longrightarrow> 0 < n \<Longrightarrow> n \<le> 255 \<Longrightarrow> rd (wr d r bs) r n = bs"
    and rd_wr_other: "length bs = n \<Longrightarrow> 0 < n \<Longrightarrow> n \<le> 255 \<Longrightarrow>
      \<forall>i\<in>set [0..<n]. k \<noteq> r + of_nat i \<Longrightarrow> rd (wr d r bs) k 1 = rd d k 1"
begin

lemma rd1: "rd d r 1 = [rd d r 1 ! 0]"
  using rd_length [of d r 1] by (cases "rd d r 1") auto

lemma rd4: "rd d r 4 = [rd d r 1 ! 0, rd d (r + 1) 1 ! 0, rd d (r + 2) 1 ! 0, rd d (r + 3) 1 ! 0]"
proof -
  have "rd d r 4 = rd d r 1 @ rd d (r + 1) 1 @ rd d (r + 1 + 1) 1 @ rd d (r + 1 + 1 + 1) 1"
    using rd_split [of d r 3] rd_split [of d "r + 1" 2] rd_split [of d "r + 1 + 1" 1]
    by (simp add: numeral_eq_Suc)
  then show ?thesis using rd1 [of d r] rd1 [of d "r + 1"] rd1 [of d "r + 2"] rd1 [of d "r + 3"]
    by (simp add: add.assoc)
qed

lemma set_get_time:
  fixes junk :: u8 and d :: 'd
  assumes "sec t < 60" "min' t < 60" "hour t < 24" "wday t < 8" "mday t < 32" "mon t < 13"
    and "year t < 100"
  defines "t' \<equiv> mid_rtc_get_time rd (mid_rtc_set_time wr junk t d)"
  shows "sec t' = sec t" "min' t' = min' t" "hour t' = hour t" "wday t' = wday t"
    "mday t' = mday t" "mon t' = mon t" "year t' = year t" "h12 t' = 0"
proof -
  have lt: "(a::u8) < c" if "a < b" "b \<le> c" for a b c using that by (rule less_le_trans)
  have r: "rd (wr d 0 (encode_time junk t)) 0 7 = encode_time junk t"
    by (rule rd_wr) simp_all
  have y: "\<not> 100 \<le> year t" using assms(7) by (simp add: not_le)
  have rt: "bcd2bin (bin2bcd x) = x" if "x < b" "b \<le> 100" for x b
    by (rule bcd_roundtrip [OF lt [OF that]])
  have "mon t < 80" using assms(6) by (rule lt) simp
  note m = bin2bcd_month [OF this]
  note h = bin2bcd_hour [OF assms(3)]
  have f: "bcd2bin (bin2bcd (sec t)) = sec t" "bcd2bin (bin2bcd (min' t)) = min' t"
    "bcd2bin (bin2bcd (hour t)) = hour t" "bcd2bin (bin2bcd (wday t)) = wday t"
    "bcd2bin (bin2bcd (mday t)) = mday t" "bcd2bin (bin2bcd (mon t)) = mon t"
    "bcd2bin (bin2bcd (year t)) = year t"
    using rt [OF assms(1)] rt [OF assms(2)] rt [OF assms(3)] rt [OF assms(4)] rt [OF assms(5)]
      rt [OF assms(6)] rt [OF assms(7)] by simp_all
  show "sec t' = sec t" "min' t' = min' t" "hour t' = hour t" "wday t' = wday t"
    "mday t' = mday t" "mon t' = mon t" "year t' = year t" "h12 t' = 0"
    using y m h f
    by (simp_all add: t'_def mid_rtc_defs hal_ds3231_read_time_def hal_ds3231_set_time_def
        prog_defs r decode_time_def Let_def) (simp_all add: encode_time_def)
qed

text \<open>One register read, changed and written back.\<close>

lemma rmw1: "rd (wr d r [v]) r 1 = [v]"
  by (rule rd_wr) simp_all

lemma rmw1_other: "k \<noteq> r \<Longrightarrow> rd (wr d r [v]) k 1 = rd d k 1"
  by (rule rd_wr_other [where n = 1]) simp_all

lemma de_irq_clears_flags:
  "rd (hal_ds3231_de_irq rd wr d) DS3231_REG_SR 1 = [rd d DS3231_REG_SR 1 ! 0 AND NOT 3]"
  unfolding hal_ds3231_de_irq_def rmw1 by (simp add: prog_defs)

lemma en_irq_control:
  "rd (hal_ds3231_en_irq rd wr flag d) DS3231_REG_CR 1 =
     [if flag \<noteq> 0 then rd d DS3231_REG_CR 1 ! 0 OR 1 else rd d DS3231_REG_CR 1 ! 0 AND NOT 3]"
  unfolding hal_ds3231_en_irq_def Let_def rmw1 by (simp add: prog_defs)

lemma set_match_alarm:
  "rd (hal_ds3231_set_match rd wr 1 1 1 1 d) DS3231_REG_ALARM1 4 =
     map (\<lambda>b. 0x80 OR b) (rd d DS3231_REG_ALARM1 4)"
  unfolding hal_ds3231_set_match_def Let_def
  by (subst rd_wr) (simp_all add: rd4 [of d] del: One_nat_def)

lemma set_alarm_regs:
  "rd (hal_ds3231_set_alarm rd wr al d) DS3231_REG_ALARM1 4 =
     map2 (\<lambda>v old. bin2bcd v OR (old AND 0x80))
       [sec (alarm_time al), min' (alarm_time al), hour (alarm_time al), mday (alarm_time al)]
       (rd d DS3231_REG_ALARM1 4)"
  unfolding hal_ds3231_set_alarm_def Let_def
  by (subst rd_wr) (simp_all add: rd4 [of d] del: One_nat_def)

text \<open>What the start-up of the clock leaves in the device: all four match bits set, both
  alarm flags clear, everything else of those registers as it was.\<close>

lemma init_registers:
  fixes d :: 'd
  defines "d' \<equiv> mid_rtc_init rd wr d"
  shows "rd d' DS3231_REG_ALARM1 4 = map (\<lambda>b. 0x80 OR b) (rd d DS3231_REG_ALARM1 4)"
    and "rd d' DS3231_REG_SR 1 = [rd d DS3231_REG_SR 1 ! 0 AND NOT 3]"
proof -
  let ?m = "hal_ds3231_set_match rd wr 1 1 1 1 d"
  have "rd ?m DS3231_REG_SR 1 = rd d DS3231_REG_SR 1"
    unfolding hal_ds3231_set_match_def Let_def
    by (rule rd_wr_other [where n = 4]) (simp_all add: prog_defs, code_simp)
  then show "rd d' DS3231_REG_SR 1 = [rd d DS3231_REG_SR 1 ! 0 AND NOT 3]"
    unfolding d'_def mid_rtc_defs de_irq_clears_flags by (simp only:)
  have "rd d' DS3231_REG_ALARM1 4 = rd ?m DS3231_REG_ALARM1 4"
    unfolding rd4 d'_def mid_rtc_defs hal_ds3231_de_irq_def
    by (subst rmw1_other, simp add: prog_defs)+ simp
  then show "rd d' DS3231_REG_ALARM1 4 = map (\<lambda>b. 0x80 OR b) (rd d DS3231_REG_ALARM1 4)"
    by (simp add: set_match_alarm)
qed

end

section \<open>The device behind the bus\<close>

text \<open>
  A register file that answers as the data sheet of the DS3231 says.  After a start condition the
  first byte is the device address, 0xD0 to write and 0xD1 to read; when written, the next byte
  sets the register pointer and every further byte is stored at the pointer, which then
  advances.  A byte is eight clocks and a ninth in which the slave pulls the line low if it accepts it.
  When read it puts the bits of the register at the pointer on the line, most significant first, and goes
  on with the next register if the master acknowledges (low).  \<open>sda_out\<close> is what the slave drives
  (high: nothing) while the clock is high.  It is the environment the bus model is run against, not code of
  the repository.
\<close>

datatype slave_phase = Deaf | AddrPhase | PtrPhase | DataPhase | SendPhase

record slave =
  regs :: "u8 \<Rightarrow> u8"
  ptr :: u8
  phase :: slave_phase
  shift :: "bool list"
  sda_out :: bool

definition of_msb :: "bool list \<Rightarrow> u8" where
  "of_msb bs = foldl (\<lambda>a b. 2 * a + (if b then 1 else 0)) 0 bs"

text \<open>A whole byte has come; the slave accepts it or not.\<close>

definition slave_byte :: "u8 \<Rightarrow> slave \<Rightarrow> slave" where
  "slave_byte v s =
     (case phase s of
        AddrPhase \<Rightarrow>
          if v = 0xD0 then s\<lparr>phase := PtrPhase, sda_out := False\<rparr>
          else if v = 0xD1 then s\<lparr>phase := SendPhase, sda_out := False\<rparr>
          else s\<lparr>phase := Deaf, sda_out := True\<rparr>
      | PtrPhase \<Rightarrow> s\<lparr>ptr := v, phase := DataPhase, sda_out := False\<rparr>
      | DataPhase \<Rightarrow> s\<lparr>regs := (regs s)(ptr s := v), ptr := ptr s + 1, sda_out := False\<rparr>
      | _ \<Rightarrow> s\<lparr>sda_out := True\<rparr>)"

fun slave_event :: "slave \<Rightarrow> bus_event \<Rightarrow> slave" where
  "slave_event s START = s\<lparr>phase := AddrPhase, shift := [], sda_out := True\<rparr>"
| "slave_event s STOP = s\<lparr>phase := Deaf, shift := [], sda_out := True\<rparr>"
| "slave_event s (BIT v) =
     (if phase s = SendPhase \<and> length (shift s) = 8
      then s\<lparr>phase := (if v then Deaf else SendPhase), ptr := ptr s + 1, shift := [], sda_out := True\<rparr>
      else s\<lparr>shift := shift s @ [v], sda_out := True\<rparr>)"
| "slave_event s RELEASED =
     (if phase s = SendPhase \<and> length (shift s) < 8
      then (let b = bit (regs s (ptr s)) (7 - length (shift s)) in s\<lparr>shift := shift s @ [b], sda_out := b\<rparr>)
      else if length (shift s) = 8 then slave_byte (of_msb (shift s)) (s\<lparr>shift := []\<rparr>)
      else s\<lparr>shift := shift s @ [True], sda_out := True\<rparr>)"

definition DS1231_SLAVE_ADDR :: u8 where
  "DS1231_SLAVE_ADDR = 0xD0"

definition idle0 :: wires where
  "idle0 = \<lparr>w_scl = True, w_sda = True, w_out = True\<rparr>"

definition bus0 :: bus where
  "bus0 = \<lparr>acts = [], nsamp = 0\<rparr>"

definition slave0 :: "(u8 \<Rightarrow> u8) \<Rightarrow> slave" where
  "slave0 d = \<lparr>regs = d, ptr = 0, phase = Deaf, shift = [], sda_out = True\<rparr>"

definition wr_regs :: "(u8 \<Rightarrow> u8) wr" where
  "wr_regs d r bs = regs (foldl slave_event (slave0 d)
     (bus_events ds idle0
       (acts (i2c_bus_write_ds3231 (\<lambda>_. False) ds DS1231_SLAVE_ADDR r bs bus0))))"

text \<open>
  The levels of the data line at the reads of a trace: what the slave drives at that moment, as
  the wires so far have brought it there, or what the master drives itself.
\<close>

fun answers :: "slave \<Rightarrow> wires \<Rightarrow> action list \<Rightarrow> bool list" where
  "answers s w [] = []"
| "answers s w (a # as) =
     (let w' = wire ds w a; s' = foldl slave_event s (wire_event w w')
      in (if a = read_sda ds then [if w_out w' then w_sda w' else sda_out s'] else []) @ answers s' w' as)"

text \<open>
  A read transfer against the device.  The line of a run is the one that the device drives in
  this very run: the actions of the transfer do not depend on what is read (\<open>read_line_closed\<close>), so they can be
  had from a run with any line.
\<close>

definition read_trace :: "line \<Rightarrow> u8 \<Rightarrow> nat \<Rightarrow> action list" where
  "read_trace inp r n = acts (snd (i2c_bus_read_ds3231 inp ds DS1231_SLAVE_ADDR r n bus0))"

definition slave_line :: "(u8 \<Rightarrow> u8) \<Rightarrow> u8 \<Rightarrow> nat \<Rightarrow> line" where
  "slave_line d r n k =
     (let xs = answers (slave0 d) idle0 (read_trace (\<lambda>_. False) r n) in k < length xs \<and> xs ! k)"

definition rd_regs :: "(u8 \<Rightarrow> u8) rd" where
  "rd_regs d r n = fst (i2c_bus_read_ds3231 (slave_line d r n) ds DS1231_SLAVE_ADDR r n bus0)"

lemma of_msb_bits: "of_msb (bits_msb v) = v"
proof -
  have "\<forall>k\<in>set [0..<256]. of_msb (bits_msb (of_nat k)) = of_nat k" by code_simp
  then have "of_msb (bits_msb (of_nat (unat v))) = of_nat (unat v)"
    by (rule bspec) (use unat_u8_lt [of v] in simp)
  then show ?thesis by simp
qed

lemma slave_bits:
  "phase s \<noteq> SendPhase \<Longrightarrow> vs \<noteq> [] \<Longrightarrow>
    foldl slave_event s (map BIT vs) = s\<lparr>shift := shift s @ vs, sda_out := True\<rparr>"
proof (induction vs arbitrary: s)
  case (Cons v vs)
  then show ?case by (cases "vs = []") simp_all
qed simp

lemma slave_frame:
  assumes "shift s = []" "phase s \<noteq> SendPhase"
  shows "foldl slave_event s (frame v) = slave_byte v s"
proof -
  have "bits_msb v \<noteq> []" by (metis length_bits_msb list.size(3) zero_neq_numeral)
  from slave_bits [OF assms(2) this] assms show ?thesis
    by (cases s) (simp add: frame_def of_msb_bits slave_byte_def split: slave_phase.split)
qed

lemma slave_byte_shift [simp]: "shift (slave_byte v s) = shift s"
  by (simp add: slave_byte_def split: slave_phase.split)

text \<open>Storing a block at a register address.\<close>

fun store_regs :: "(u8 \<Rightarrow> u8) \<Rightarrow> u8 \<Rightarrow> u8 list \<Rightarrow> (u8 \<Rightarrow> u8)" where
  "store_regs d r [] = d"
| "store_regs d r (b # bs) = store_regs (d(r := b)) (r + 1) bs"

lemma slave_data:
  "phase s = DataPhase \<Longrightarrow> shift s = [] \<Longrightarrow>
   regs (foldl slave_event s (concat (map frame bs))) = store_regs (regs s) (ptr s) bs"
proof (induction bs arbitrary: s)
  case (Cons b bs)
  then show ?case by (simp add: slave_frame slave_byte_def fun_upd_def)
qed simp

lemma slave_data_phase:
  "phase s = DataPhase \<Longrightarrow> shift s = [] \<Longrightarrow> phase (foldl slave_event s (concat (map frame bs))) = DataPhase \<and>
    shift (foldl slave_event s (concat (map frame bs))) = []"
  by (induction bs arbitrary: s) (simp_all add: slave_frame slave_byte_def)

lemma wr_regs_store:
  assumes "bs \<noteq> []"
  shows "wr_regs d r bs = store_regs d r bs"
proof -
  have "idle_wires idle0" by (simp add: idle_wires_def idle0_def)
  then show ?thesis
    using assms slave_data_phase [of _ bs]
    by (simp add: wr_regs_def write_ds3231_bus write_acts_events bus0_def slave_frame slave_data slave_byte_def
        slave0_def DS1231_SLAVE_ADDR_def)
qed

text \<open>What the device answers to the parts of a transfer.\<close>

definition slave_after :: "slave \<Rightarrow> wires \<Rightarrow> action list \<Rightarrow> slave" where
  "slave_after s w as = foldl slave_event s (bus_events ds w as)"

lemma answers_append:
  "answers s w (as @ bs) = answers s w as @ answers (slave_after s w as) (wires_after ds w as) bs"
  by (induction as arbitrary: s w) (simp_all add: slave_after_def Let_def)

lemma slave_after_append: "slave_after s w (as @ bs) = slave_after (slave_after s w as) (wires_after ds w as) bs"
  by (simp add: slave_after_def)

lemma answers_none: "read_sda ds \<notin> set as \<Longrightarrow> answers s w as = []"
  by (induction as arbitrary: s w) (auto simp: Let_def)

lemma no_reads [simp]:
  "read_sda ds \<noteq> i2c_bus_sda_dir ds out" "read_sda ds \<noteq> I2C_BUS_SDA_HIGH ds" "read_sda ds \<noteq> I2C_BUS_SDA_LOW ds"
  "read_sda ds \<noteq> I2C_BUS_SCL_HIGH ds" "read_sda ds \<noteq> I2C_BUS_SCL_LOW ds" "read_sda ds \<noteq> delayus n"
  "read_sda ds \<noteq> EnterCritical" "read_sda ds \<noteq> ExitCritical"
  by (simp_all add: read_sda_def i2c_bus_sda_dir_def I2C_BUS_SDA_HIGH_def I2C_BUS_SDA_LOW_def
      I2C_BUS_SCL_HIGH_def I2C_BUS_SCL_LOW_def delayus_def)

lemmas no_reads' [simp] = no_reads [symmetric]

lemma answers_write_byte:
  assumes "\<not> w_scl w" "shift s = []" "phase s \<noteq> SendPhase"
  shows "answers s w (write_byte_acts ds v) = [sda_out (slave_byte v s)]"
    and "slave_after s w (write_byte_acts ds v) = slave_byte v s"
proof -
  let ?bits = "[i2c_bus_sda_dir ds True, EnterCritical] @ concat (map (write_bit ds v) masks)"
  let ?w = "w\<lparr>w_out := True\<rparr>"
  have w: "\<not> w_scl ?w" "w_out ?w" using assms(1) by simp_all
  note B = write_bits_events [OF w, of ds v masks]
  have "read_sda ds \<notin> set ?bits" by (auto simp: write_bit_def)
  then have n: "answers s w ?bits = []" by (rule answers_none)
  have e: "bus_events ds w ?bits = map BIT (bits_msb v)"
    using assms(1) B by (simp add: wire_event_def masks_bits [of BIT])
  obtain x where x: "wires_after ds w ?bits = \<lparr>w_scl = False, w_sda = x, w_out = True\<rparr>"
    using assms(1) B by (cases w) simp
  define s0 where "s0 = slave_after s w ?bits"
  have s: "slave_event s0 RELEASED = slave_byte v s"
    using slave_frame [OF assms(2,3), of v] unfolding s0_def slave_after_def e frame_def by (simp del: slave_event.simps)
  have acts: "write_byte_acts ds v = ?bits @ [i2c_bus_sda_dir ds False, I2C_BUS_SCL_HIGH ds, delayus 1, read_sda ds,
      I2C_BUS_SCL_LOW ds, ExitCritical]" by (simp add: write_byte_acts_def)
  show "answers s w (write_byte_acts ds v) = [sda_out (slave_byte v s)]"
    unfolding acts answers_append [of s w ?bits] n x s0_def [symmetric] by (simp add: wire_event_def s del: slave_event.simps)
  show "slave_after s w (write_byte_acts ds v) = slave_byte v s"
    using write_byte_events(1) [OF assms(1)] slave_frame [OF assms(2,3)] by (simp add: slave_after_def)
qed

lemma answers_clocks:
  assumes "\<not> w_scl w" "\<not> w_out w" "phase s = SendPhase" "length (shift s) + n \<le> 8"
  shows "answers s w (concat (replicate n [I2C_BUS_SCL_HIGH ds, delayus 3, read_sda ds, I2C_BUS_SCL_LOW ds, delayus 2])) =
    map (\<lambda>k. bit (regs s (ptr s)) (7 - (length (shift s) + k))) [0..<n]"
  using assms
proof (induction n arbitrary: s)
  case (Suc n)
  have w: "w\<lparr>w_scl := False\<rparr> = w" using Suc.prems(1) by (cases w) simp
  have "[0..<Suc n] = 0 # map Suc [0..<n]" by (simp add: upt_conv_Cons map_Suc_upt del: upt_Suc)
  then show ?case
    using Suc.prems Suc.IH [of "slave_event s RELEASED"]
    by (simp add: wire_event_def Let_def w comp_def del: upt_Suc)
qed simp

lemma slave_clocks:
  assumes "phase s = SendPhase" "length (shift s) + n \<le> 8"
  shows "\<exists>bs b. foldl slave_event s (replicate n RELEASED) = s\<lparr>shift := bs, sda_out := b\<rparr> \<and> length bs = length (shift s) + n"
  using assms
proof (induction n arbitrary: s)
  case 0
  then show ?case by (intro exI [of _ "shift s"] exI [of _ "sda_out s"]) simp
next
  case (Suc n)
  then show ?case using Suc.IH [of "slave_event s RELEASED"] by (auto simp: Let_def)
qed

lemma answers_read_byte:
  assumes "\<not> w_scl w" "phase s = SendPhase" "shift s = []"
  shows "answers s w (read_byte_acts ds ack) = bits_msb (regs s (ptr s))"
    and "slave_after s w (read_byte_acts ds ack) =
      s\<lparr>phase := (if ack then Deaf else SendPhase), ptr := ptr s + 1, shift := [], sda_out := True\<rparr>"
proof -
  let ?clk = "concat (replicate 8 [I2C_BUS_SCL_HIGH ds, delayus 3, read_sda ds, I2C_BUS_SCL_LOW ds, delayus 2])"
  let ?w = "w\<lparr>w_out := False, w_sda := True\<rparr>"
  have w: "\<not> w_scl ?w" "\<not> w_out ?w" using assms(1) by simp_all
  have "read_sda ds \<notin> set (i2c_bus_send_ack ds ack @ [ExitCritical])" by (auto simp: i2c_bus_send_ack_def)
  note n = answers_none [OF this]
  have d: "answers s w ([i2c_bus_sda_dir ds False, EnterCritical] @ as) = answers s ?w as" for as
    using assms(1) by (simp add: wire_event_def)
  have acts: "read_byte_acts ds ack = [i2c_bus_sda_dir ds False, EnterCritical] @ ?clk @ (i2c_bus_send_ack ds ack @ [ExitCritical])"
    by (simp add: read_byte_acts_def)
  show "answers s w (read_byte_acts ds ack) = bits_msb (regs s (ptr s))"
    unfolding acts d answers_append [of s ?w] n using answers_clocks [OF w assms(2), of 8] assms(3)
    by (simp add: bits_msb_upt)
  from slave_clocks [OF assms(2), of 8] assms(3) obtain bs b where
    c: "foldl slave_event s (replicate 8 RELEASED) = s\<lparr>shift := bs, sda_out := b\<rparr>" "length bs = 8" by auto
  show "slave_after s w (read_byte_acts ds ack) =
      s\<lparr>phase := (if ack then Deaf else SendPhase), ptr := ptr s + 1, shift := [], sda_out := True\<rparr>"
    unfolding slave_after_def read_byte_events(1) [OF assms(1)] foldl_append c(1)
    using c(2) assms(2) by simp
qed

text \<open>The actions of the bytes that are read.\<close>

fun read_acts :: "nat \<Rightarrow> action list" where
  "read_acts 0 = []"
| "read_acts (Suc n) = read_byte_acts ds (n = 0) @ read_acts n"

lemma read_bytes_trace: "acts (snd (read_bytes inp ds n b)) = acts b @ read_acts n"
  by (induction n arbitrary: b) (simp_all add: Let_def case_prod_beta read_byte_bus)

lemma answers_read_bytes:
  assumes "\<not> w_scl w" "phase s = SendPhase" "shift s = []"
  shows "answers s w (read_acts n) = concat (map (\<lambda>i. bits_msb (regs s (ptr s + of_nat i))) [0..<n]) \<and>
    regs (slave_after s w (read_acts n)) = regs s \<and> \<not> w_scl (wires_after ds w (read_acts n))"
  using assms
proof (induction n arbitrary: s w)
  case (Suc n)
  note A = answers_read_byte [OF Suc.prems, of "n = 0"]
  have w: "\<not> w_scl (wires_after ds w (read_byte_acts ds (n = 0)))" by (rule read_byte_events(2) [OF Suc.prems(1)])
  have u: "[0..<Suc n] = 0 # map Suc [0..<n]" by (simp add: upt_conv_Cons map_Suc_upt del: upt_Suc)
  show ?case
  proof (cases "n = 0")
    case True
    then show ?thesis using A w by (simp add: slave_after_def answers_append)
  next
    case False
    then show ?thesis
      using A Suc.IH [OF w, of "slave_after s w (read_byte_acts ds (n = 0))"] Suc.prems(2)
      by (simp add: answers_append slave_after_append u comp_def add.assoc del: upt_Suc)
  qed
qed (simp add: slave_after_def)

definition read_prefix :: "u8 \<Rightarrow> action list" where
  "read_prefix r = [EnterCritical] @ i2c_bus_start_ds3231 ds @ write_byte_acts ds DS1231_SLAVE_ADDR @
     write_byte_acts ds r @ i2c_bus_start_ds3231 ds @ write_byte_acts ds (DS1231_SLAVE_ADDR + 1)"

lemma read_trace:
  "read_trace inp r n = read_prefix r @ read_acts n @ i2c_bus_stop ds @ [ExitCritical]"
  by (simp add: read_trace_def read_prefix_def i2c_bus_read_ds3231_def Let_def case_prod_beta write_byte_bus emit_def
      read_bytes_trace bus0_def)

text \<open>The line is the one of the run in which it is read.\<close>

lemma read_line_closed:
  "slave_line d r n k = (let xs = answers (slave0 d) idle0 (read_trace (slave_line d r n) r n) in k < length xs \<and> xs ! k)"
  by (simp add: slave_line_def read_trace)

lemma answers_prefix:
  "answers (slave0 d) idle0 (read_prefix r) = [False, False, False]"
  "\<exists>s w. slave_after (slave0 d) idle0 (read_prefix r) = s \<and> wires_after ds idle0 (read_prefix r) = w \<and>
     regs s = d \<and> ptr s = r \<and> phase s = SendPhase \<and> shift s = [] \<and> \<not> w_scl w"
proof -
  define w1 where "w1 = \<lparr>w_scl = False, w_sda = False, w_out = True\<rparr>"
  define w3 where "w3 = \<lparr>w_scl = False, w_sda = True, w_out = False\<rparr>"
  define w4 where "w4 = wires_after ds w3 (i2c_bus_start_ds3231 ds)"
  have i: "idle_wires idle0" by (simp add: idle_wires_def idle0_def)
  have l: "\<not> w_scl w1" "\<not> w_scl w3" by (simp_all add: w1_def w3_def)
  have l4: "\<not> w_scl w4" unfolding w4_def by (rule restart_events(2) [OF w3_def])
  note W = start_ds3231_events [OF i, of ds, folded w1_def] write_byte_events(2) [OF l(1), of ds, folded w3_def]
    write_byte_events(2) [OF l(2), of ds, folded w3_def] w4_def [symmetric] write_byte_events(2) [OF l4, of ds, folded w3_def]
  define s1 where "s1 = \<lparr>regs = d, ptr = 0, phase = AddrPhase, shift = [], sda_out = True\<rparr>"
  define s2 where "s2 = \<lparr>regs = d, ptr = 0, phase = PtrPhase, shift = [], sda_out = False\<rparr>"
  define s3 where "s3 = \<lparr>regs = d, ptr = r, phase = DataPhase, shift = [], sda_out = False\<rparr>"
  define s4 where "s4 = \<lparr>regs = d, ptr = r, phase = AddrPhase, shift = [], sda_out = True\<rparr>"
  define s5 where "s5 = \<lparr>regs = d, ptr = r, phase = SendPhase, shift = [], sda_out = False\<rparr>"
  have st: "read_sda ds \<notin> set (i2c_bus_start_ds3231 ds)" by (simp add: i2c_bus_start_ds3231_def)
  have S1: "slave_after (slave0 d) idle0 (i2c_bus_start_ds3231 ds) = s1"
    by (simp add: slave_after_def W(1) slave0_def s1_def)
  have B: "slave_byte DS1231_SLAVE_ADDR s1 = s2" "slave_byte r s2 = s3" "slave_byte (DS1231_SLAVE_ADDR + 1) s4 = s5"
    by (simp_all add: slave_byte_def s1_def s2_def s3_def s4_def s5_def DS1231_SLAVE_ADDR_def)
  have P: "shift s1 = []" "phase s1 \<noteq> SendPhase" "shift s2 = []" "phase s2 \<noteq> SendPhase" "shift s4 = []" "phase s4 \<noteq> SendPhase"
    by (simp_all add: s1_def s2_def s4_def)
  have S4: "slave_after s3 w3 (i2c_bus_start_ds3231 ds) = s4"
    by (simp add: slave_after_def restart_events(1) [OF w3_def] s3_def s4_def)
  note A = answers_write_byte [OF l(1) P(1,2), of DS1231_SLAVE_ADDR] answers_write_byte [OF l(2) P(3,4), of r]
    answers_write_byte [OF l4 P(5,6), of "DS1231_SLAVE_ADDR + 1"]
  have c: "slave_after s w [EnterCritical] = s" "answers s w [EnterCritical] = []" "wires_after ds w [EnterCritical] = w" for s w
    by (simp_all add: slave_after_def)
  show "answers (slave0 d) idle0 (read_prefix r) = [False, False, False]"
    unfolding read_prefix_def answers_append slave_after_append wires_after_simps(3) c answers_none [OF st] S1 W A B S4
    by (simp add: s2_def s3_def s5_def)
  show "\<exists>s w. slave_after (slave0 d) idle0 (read_prefix r) = s \<and> wires_after ds idle0 (read_prefix r) = w \<and>
     regs s = d \<and> ptr s = r \<and> phase s = SendPhase \<and> shift s = [] \<and> \<not> w_scl w"
    unfolding read_prefix_def slave_after_append wires_after_simps(3) c S1 W A B S4
    by (simp add: s5_def l)
qed

lemma answers_read:
  "answers (slave0 d) idle0 (read_trace inp r n) =
     [False, False, False] @ concat (map (\<lambda>i. bits_msb (d (r + of_nat i))) [0..<n])"
  "regs (slave_after (slave0 d) idle0 (read_trace inp r n)) = d"
proof -
  from answers_prefix(2) [of d r] obtain s w where
    p: "slave_after (slave0 d) idle0 (read_prefix r) = s" "wires_after ds idle0 (read_prefix r) = w"
      "regs s = d" "ptr s = r" "phase s = SendPhase" "shift s = []" "\<not> w_scl w" by blast
  note R = answers_read_bytes [OF p(7,5,6), of n]
  let ?rest = "i2c_bus_stop ds @ [ExitCritical]"
  have "read_sda ds \<notin> set ?rest" by (simp add: i2c_bus_stop_def)
  note e = answers_none [OF this]
  show "answers (slave0 d) idle0 (read_trace inp r n) =
     [False, False, False] @ concat (map (\<lambda>i. bits_msb (d (r + of_nat i))) [0..<n])"
    unfolding read_trace answers_append [of _ _ "read_prefix r"] answers_prefix(1) p(1,2) answers_append [of s w] e
    using R p(3,4) by simp
  have "bus_events ds (wires_after ds w (read_acts n)) ?rest = [BIT False, STOP]"
    using stop_events [of "wires_after ds w (read_acts n)" ds] R by simp
  then have "regs (slave_after s w (read_acts n @ ?rest)) = regs (slave_after s w (read_acts n))"
    by (simp add: slave_after_def)
  then show "regs (slave_after (slave0 d) idle0 (read_trace inp r n)) = d"
    unfolding read_trace slave_after_append [of _ _ "read_prefix r"] p(1,2) using R p(3) by simp
qed

lemma nth_bytes:
  "i < n \<Longrightarrow> k < 8 \<Longrightarrow> concat (map (\<lambda>i. bits_msb (f i)) [0..<n]) ! (8 * i + k) = bit (f i) (7 - k)"
proof (induction i arbitrary: n f)
  case 0
  then obtain m where "n = Suc m" by (cases n) auto
  then have "[0..<n] = 0 # map Suc [0..<m]" by (simp add: upt_conv_Cons map_Suc_upt del: upt_Suc)
  with 0 show ?case by (simp add: nth_append) (simp add: bits_msb_upt)
next
  case (Suc i)
  then obtain m where m: "n = Suc m" "i < m" by (cases n) auto
  then have "[0..<n] = 0 # map Suc [0..<m]" by (simp add: upt_conv_Cons map_Suc_upt del: upt_Suc)
  with Suc.IH [OF m(2) Suc.prems(2), of "\<lambda>i. f (Suc i)"] show ?case by (simp add: nth_append comp_def)
qed

lemma rd_regs_read: "rd_regs d r n = map (\<lambda>i. d (r + of_nat i)) [0..<n]"
  unfolding rd_regs_def
proof (rule read_ds3231_value)
  show "slave_line d r n (nsamp bus0 + 3 + 8 * i + k) = bit (map (\<lambda>i. d (r + of_nat i)) [0..<n] ! i) (7 - k)"
    if "i < n" "k < 8" for i k
  proof -
    let ?bs = "concat (map (\<lambda>i. bits_msb (d (r + of_nat i))) [0..<n])"
    have len: "length ?bs = 8 * n" by (simp add: length_concat comp_def sum_list_triv)
    have xs: "answers (slave0 d) idle0 (read_trace (\<lambda>_. False) r n) = [False, False, False] @ ?bs" by (rule answers_read(1))
    have l: "8 * i + k < length ?bs" using that len by linarith
    have "([False, False, False] @ ?bs) ! (nsamp bus0 + 3 + 8 * i + k) = ?bs ! (8 * i + k)"
      by (simp add: bus0_def nth_append add.commute)
    moreover have "nsamp bus0 + 3 + 8 * i + k < length ([False, False, False] @ ?bs)" using l by (simp add: bus0_def)
    ultimately show ?thesis using nth_bytes [OF that, of "\<lambda>i. d (r + of_nat i)"] that
      unfolding slave_line_def Let_def xs by simp
  qed
qed simp

lemma store_regs_other:
  "(\<forall>i<length bs. k \<noteq> r + of_nat i) \<Longrightarrow> store_regs d r bs k = d k"
proof (induction bs arbitrary: r d)
  case (Cons b bs)
  have "k \<noteq> r" using Cons.prems by (auto dest: spec [of _ 0])
  moreover have "\<forall>i<length bs. k \<noteq> r + 1 + of_nat i"
    using Cons.prems by (auto simp: add.assoc dest: spec [of _ "Suc _"])
  ultimately show ?case using Cons.IH by simp
qed simp

lemma of_nat_u8_inj: "i < 256 \<Longrightarrow> j < 256 \<Longrightarrow> (of_nat i :: u8) = of_nat j \<longleftrightarrow> i = j"
  by (metis unat_u8_of_nat)

lemma store_regs_nth:
  "i < length bs \<Longrightarrow> length bs \<le> 255 \<Longrightarrow> store_regs d r bs (r + of_nat i) = bs ! i"
proof (induction bs arbitrary: r d i)
  case (Cons b bs)
  show ?case
  proof (cases i)
    case 0
    have "r \<noteq> r + 1 + of_nat j" if "j < length bs" for j
      using of_nat_u8_inj [of 0 "Suc j"] that Cons.prems by (simp add: add.assoc)
    then have "store_regs (d(r := b)) (r + 1) bs r = b" by (subst store_regs_other) auto
    with 0 show ?thesis by simp
  next
    case (Suc j)
    with Cons.IH [of j "d(r := b)" "r + 1"] Cons.prems show ?thesis by (simp add: add.assoc fun_upd_def)
  qed
qed simp

interpretation ds3231: register_bus rd_regs wr_regs
proof (unfold_locales, goal_cases)
  case (1 d r n)
  show ?case by (simp add: rd_regs_read)
next
  case (2 d r n)
  have "[0..<Suc n] = 0 # map Suc [0..<n]" by (simp add: upt_conv_Cons map_Suc_upt del: upt_Suc)
  moreover have "[0..<1] = [0::nat]" by simp
  ultimately show ?case
    by (simp add: rd_regs_read add.assoc comp_def del: upt_Suc One_nat_def)
next
  case (3 bs n d r)
  then show ?case
    by (auto simp: rd_regs_read wr_regs_store store_regs_nth list_eq_iff_nth_eq)
next
  case (4 bs n k r d)
  then have "store_regs d r bs k = d k" by (intro store_regs_other) auto
  moreover have "bs \<noteq> []" using 4 by auto
  ultimately show ?case by (simp add: rd_regs_read wr_regs_store)
qed

section \<open>Properties\<close>

text \<open>
  Claim C25.  Setting the clock and reading it back through the bit-banged bus gives the
  same date and time, for every time in range up to the year 99; the device stays in
  24-hour mode, and reading changes none of its registers.  Both transfers run against a slave that sees only the wires:
  it answers its own address (0xD0 and 0xD1) alone, takes the register from the transfer, and its
  answer is sampled where the code reads the pin.  The uninitialised byte of \<open>hal_ds3231_set_time\<close> plays no part.\<close>

theorem rtc_set_get_roundtrip:
  assumes "sec t < 60" "min' t < 60" "hour t < 24" "wday t < 8" "mday t < 32" "mon t < 13"
    and "year t < 100"
  shows "let t' = mid_rtc_get_time rd_regs (mid_rtc_set_time wr_regs junk t d) in
    sec t' = sec t \<and> min' t' = min' t \<and> hour t' = hour t \<and> wday t' = wday t \<and>
    mday t' = mday t \<and> mon t' = mon t \<and> year t' = year t \<and> h12 t' = 0 \<and>
    regs (slave_after (slave0 d) idle0 (read_trace inp DS3231_REG_SECONDS 7)) = d"
  unfolding Let_def using ds3231.set_get_time [OF assms] answers_read(2) by simp

definition sample_time :: rtc_time where
  "sample_time = \<lparr>sec = 59, min' = 30, hour = 23, wday = 7, mday = 31, mon = 12, year = 99,
     am_pm = 0, h12 = 0\<rparr>"

theorem rtc_set_get_roundtrip_witness:
  "let t' = mid_rtc_get_time rd_regs (mid_rtc_set_time wr_regs 0 sample_time (\<lambda>_. 0)) in
    sec t' = 59 \<and> min' t' = 30 \<and> hour t' = 23 \<and> wday t' = 7 \<and> mday t' = 31 \<and> mon t' = 12 \<and>
    year t' = 99 \<and> h12 t' = 0"
  using rtc_set_get_roundtrip [of sample_time 0 "\<lambda>_. 0" "\<lambda>_. False"] by (simp add: sample_time_def Let_def)

text \<open>The Gregorian calendar, with months numbered from 1.\<close>

definition leap :: "nat \<Rightarrow> bool" where
  "leap y \<longleftrightarrow> (y mod 4 = 0 \<and> y mod 100 \<noteq> 0) \<or> y mod 400 = 0"

definition month_length :: "nat \<Rightarrow> nat \<Rightarrow> nat" where
  "month_length m y =
     (if m = 2 then (if leap y then 29 else 28) else if m \<in> {4, 6, 9, 11} then 30 else 31)"

lemma is_leap_year_nat: "is_leap_year y \<longleftrightarrow> leap (unat y)"
  by (simp add: is_leap_year_def leap_def word_unat_eq_iff unat_mod)

lemma rtc_month_days_spec:
  assumes "unat m < 12"
  shows "\<exists>n. rtc_month_days m y = Some n \<and> unat n = month_length (Suc (unat m)) (unat y)"
proof -
  have m1: "m = 1 \<longleftrightarrow> unat m = 1" by (simp add: word_unat_eq_iff)
  have "unat m = 0 \<or> unat m = 1 \<or> unat m = 2 \<or> unat m = 3 \<or> unat m = 4 \<or> unat m = 5 \<or>
    unat m = 6 \<or> unat m = 7 \<or> unat m = 8 \<or> unat m = 9 \<or> unat m = 10 \<or> unat m = 11"
    using assms by arith
  then show ?thesis
    by (elim disjE)
      (simp_all add: rtc_month_days_def get_def rtc_days_in_month_def m1 month_length_def
        is_leap_year_nat)
qed

text \<open>
  What the validity check accepts: with the months of the device numbered from 1
  (1 to 12), the day is compared with the length of the \<^emph>\<open>following\<close> month, since the table is
  indexed by the month number itself; and in December the table is read out of bounds.\<close>

theorem rtc_valid_tm_spec:
  "rtc_valid_tm tm =
    (if year tm > 100 \<or> mon tm > 12 \<or> mday tm < 1 then Some False
     else if mon tm = 12 then None
     else Some (unat (mday tm) \<le> month_length (Suc (unat (mon tm))) (2000 + unat (year tm)) \<and>
       wday tm \<le> 7 \<and> hour tm < 24 \<and> min' tm < 60 \<and> sec tm < 60))"
proof (cases "year tm > 100 \<or> mon tm > 12 \<or> mday tm < 1")
  case True
  then show ?thesis by (auto simp: rtc_valid_tm_def)
next
  case False
  have y: "unat (ucast (year tm) + 2000 :: u32) = 2000 + unat (year tm)"
  proof -
    have "unat (year tm) + 2000 < 4294967296"
      by (rule order_less_trans [OF add_strict_right_mono [OF unat_u8_lt]]) simp
    then show ?thesis by (simp add: unat_word_ariths)
  qed
  show ?thesis
  proof (cases "mon tm = 12")
    case True
    with False show ?thesis
      by (simp add: rtc_valid_tm_def rtc_month_days_def get_def rtc_days_in_month_def)
  next
    case m: False
    with False have "unat (mon tm) < 12"
      by (simp add: word_less_nat_alt word_unat_eq_iff)
    then have "unat (ucast (mon tm) :: u32) < 12" by simp
    from rtc_month_days_spec [OF this, of "ucast (year tm) + 2000"] obtain n where
      n: "rtc_month_days (ucast (mon tm)) (ucast (year tm) + 2000) = Some n"
      "unat n = month_length (Suc (unat (mon tm))) (2000 + unat (year tm))"
      by (auto simp: y)
    have "n < ucast (mday tm) \<longleftrightarrow> \<not> unat (mday tm) \<le> month_length (Suc (unat (mon tm))) (2000 + unat (year tm))"
      by (simp add: word_less_nat_alt n(2) not_le)
    with False m n(1) show ?thesis by (auto simp: rtc_valid_tm_def not_le not_less)
  qed
qed

text \<open>
  Three dates: the command \<open>sdate\<close> refuses 31 January 2017, accepts 30 February
  2017, and reads past the table on any day of December.\<close>

theorem rtc_valid_tm_examples:
  "rtc_valid_tm (sample_time\<lparr>year := 17, mon := 1, mday := 31\<rparr>) = Some False \<and>
   rtc_valid_tm (sample_time\<lparr>year := 17, mon := 2, mday := 30\<rparr>) = Some True \<and>
   rtc_valid_tm (sample_time\<lparr>year := 17, mon := 12, mday := 24\<rparr>) = None"
  by (intro conjI; code_simp)

text \<open>
  In the year 100 (2100), which the validity check admits, the century bit is
  ored into the year byte instead of the month byte: what is read back is the year 80 when
  the uninitialised byte was 0, and another year when it was not.\<close>

theorem rtc_century_lost:
  "year (mid_rtc_get_time rd_regs (mid_rtc_set_time wr_regs 0 (sample_time\<lparr>year := 100\<rparr>) (\<lambda>_. 0))) = 80 \<and>
   year (mid_rtc_get_time rd_regs (mid_rtc_set_time wr_regs 0x11 (sample_time\<lparr>year := 100\<rparr>) (\<lambda>_. 0))) = 91"
proof -
  have r: "rd_regs (wr_regs d 0 (encode_time j t)) 0 7 = encode_time j t" for d j t
    by (rule ds3231.rd_wr) simp_all
  show ?thesis
    unfolding mid_rtc_defs hal_ds3231_read_time_def hal_ds3231_set_time_def DS3231_REG_SECONDS_def
      r Let_def fst_conv
    by (intro conjI; code_simp)
qed

text \<open>
  Start-up of the clock: \<open>mid_rtc_init\<close> sets the match bit of all four alarm
  registers (one interrupt per second) and clears the two alarm flags, and changes no
  other bit of those registers.\<close>

theorem rtc_init_registers:
  "rd_regs (mid_rtc_init rd_regs wr_regs d) DS3231_REG_ALARM1 4 =
     map (\<lambda>b. 0x80 OR b) (rd_regs d DS3231_REG_ALARM1 4) \<and>
   rd_regs (mid_rtc_init rd_regs wr_regs d) DS3231_REG_SR 1 = [d DS3231_REG_SR AND NOT 3]"
  using ds3231.init_registers [of d] by (simp add: rd_regs_read)

text \<open>
  The alarm is written in binary-coded decimal but read back undecoded: an alarm
  at 10:30 reads back as 16:48.\<close>

theorem rtc_alarm_not_decoded:
  "let al = \<lparr>enabled = 1, alarm_time = sample_time\<lparr>hour := 10, min' := 30\<rparr>\<rparr>;
       al' = mid_rtc_read_alarm rd_regs (hal_ds3231_set_alarm rd_regs wr_regs al (\<lambda>_. 0)) al
   in hour (alarm_time al') = 16 \<and> min' (alarm_time al') = 48"
proof -
  let ?al = "\<lparr>enabled = 1, alarm_time = sample_time\<lparr>hour := 10, min' := 30\<rparr>\<rparr>"
  have "rd_regs (\<lambda>_. 0) DS3231_REG_ALARM1 4 = [0, 0, 0, 0]" by (simp add: rd_regs_read upt_rec)
  then have r: "rd_regs (hal_ds3231_set_alarm rd_regs wr_regs ?al (\<lambda>_. 0)) DS3231_REG_ALARM1 4 =
      map2 (\<lambda>v old. bin2bcd v OR (old AND 0x80)) [59, 30, 10, 31] [0, 0, 0, 0]"
    by (simp add: ds3231.set_alarm_regs sample_time_def)
  show ?thesis
    unfolding Let_def mid_rtc_defs hal_ds3231_read_alarm_def r
    by (simp add: bin2bcd_def)
qed

end
