(* ===== verification/App_Buz.thy ===== *)
theory App_Buz
  imports Hardware
begin

text \<open>
  The buzzer (\<open>app/app_buz.c\<close>).

  The static \<open>warning_times\<close> counts the beeps still owed, as a 32-bit word; the task is a
  state machine that stops at each of its three delays.  \<open>buzzer_step\<close> runs it from one delay
  to the next and returns what it did, so that requests of other tasks
  (\<open>app_buzzer_set_times\<close>) fall between the steps, as they do on the machine.
\<close>

section \<open>State and operations\<close>

text \<open>Where the task is blocked: in the idle delay, or in one of the two delays of a beep.\<close>

datatype buz_pc = Idle | Beeping | Silent

record buzzer =
  warning_times :: u32
  buz_pc :: buz_pc

text \<open>The head of the \<open>for\<close> loop, up to the next delay.\<close>

definition buzzer_loop :: "buzzer \<Rightarrow> action list \<times> buzzer" where
  "buzzer_loop s =
     (if warning_times s > 0
      then ([PWMOutputs True, TaskDelay (mainDELAY_MS 500)], s\<lparr>buz_pc := Beeping\<rparr>)
      else ([TaskDelay (mainDELAY_MS 100)], s\<lparr>buz_pc := Idle\<rparr>))"

definition buzzer_step :: "buzzer \<Rightarrow> action list \<times> buzzer" where
  "buzzer_step s =
     (case buz_pc s of
        Idle \<Rightarrow> buzzer_loop s
      | Beeping \<Rightarrow> ([PWMOutputs False, TaskDelay (mainDELAY_MS 500)], s\<lparr>buz_pc := Silent\<rparr>)
      | Silent \<Rightarrow> buzzer_loop (s\<lparr>warning_times := warning_times s - 1\<rparr>))"

text \<open>The entry of \<open>app_buzzer_task\<close>.\<close>

definition app_buzzer_task :: "buzzer \<Rightarrow> action list \<times> buzzer" where
  "app_buzzer_task s = buzzer_loop (s\<lparr>warning_times := 0\<rparr>)"

definition app_buzzer_set_times :: "u8 \<Rightarrow> buzzer \<Rightarrow> buzzer" where
  "app_buzzer_set_times n s = s\<lparr>warning_times := warning_times s + ucast n\<rparr>"

lemmas buzzer_defs = buzzer_loop_def buzzer_step_def app_buzzer_task_def app_buzzer_set_times_def
  mainDELAY_MS_def

section \<open>Runs\<close>

datatype buz_event = Request u8 | Step

fun buzzer_run :: "buz_event list \<Rightarrow> buzzer \<Rightarrow> action list \<times> buzzer" where
  "buzzer_run [] s = ([], s)"
| "buzzer_run (Request n # es) s = buzzer_run es (app_buzzer_set_times n s)"
| "buzzer_run (Step # es) s =
     (let (as, s') = buzzer_step s; (bs, s'') = buzzer_run es s' in (as @ bs, s''))"

definition requested :: "buz_event list \<Rightarrow> nat" where
  "requested es = (\<Sum>e\<leftarrow>es. case e of Request n \<Rightarrow> unat n | Step \<Rightarrow> 0)"

definition beeps :: "action list \<Rightarrow> nat" where
  "beeps as = count_list as (PWMOutputs True)"

lemma requested_simps [simp]:
  "requested [] = 0" "requested (Request n # es) = unat n + requested es"
  "requested (Step # es) = requested es"
  by (simp_all add: requested_def)

lemma beeps_append [simp]: "beeps (as @ bs) = beeps as + beeps bs"
  by (simp add: beeps_def)

text \<open>The beeps still owed, the one being sounded not among them.\<close>

definition owed :: "buzzer \<Rightarrow> u32" where
  "owed s = warning_times s - (if buz_pc s = Idle then 0 else 1)"

lemma step_conserves:
  "buzzer_step s = (as, s') \<Longrightarrow> of_nat (beeps as) + owed s' = owed s"
  by (auto simp: buzzer_defs owed_def beeps_def split: buz_pc.splits if_splits)

lemma request_conserves:
  "owed (app_buzzer_set_times n s) = owed s + of_nat (unat n)"
  by (simp add: owed_def app_buzzer_set_times_def)

lemma run_conserves:
  "buzzer_run es s = (as, s') \<Longrightarrow> of_nat (beeps as) + owed s' = owed s + of_nat (requested es)"
proof (induction es arbitrary: s as)
  case Nil
  then show ?case by (simp add: beeps_def)
next
  case (Cons e es)
  show ?case
  proof (cases e)
    case (Request n)
    with Cons.IH [of "app_buzzer_set_times n s" as] Cons.prems show ?thesis
      by (simp add: request_conserves)
  next
    case Step
    with Cons.prems obtain a1 s1 a2 where
      1: "buzzer_step s = (a1, s1)" "buzzer_run es s1 = (a2, s')" "as = a1 @ a2"
      by (auto split: prod.splits)
    have "of_nat (beeps as) + owed s' = of_nat (beeps a1) + (of_nat (beeps a2) + owed s')"
      by (simp add: 1(3))
    also have "\<dots> = (of_nat (beeps a1) + owed s1) + of_nat (requested es)"
      by (simp add: Cons.IH [OF 1(2)])
    also have "\<dots> = owed s + of_nat (requested (e # es))"
      by (simp add: step_conserves [OF 1(1)] Step)
    finally show ?thesis .
  qed
qed

text \<open>
  No beep is lost or invented: from the start of the task, whatever the order of the
  requests and of the steps of the task, the beeps sounded and the beeps still owed add up
  to the beeps requested, as a 32-bit number.\<close>

theorem buzzer_conserves:
  "case app_buzzer_task s of (as0, s0) \<Rightarrow>
   case buzzer_run es s0 of (as, s') \<Rightarrow>
     of_nat (beeps (as0 @ as)) + owed s' = (of_nat (requested es) :: u32)"
proof -
  obtain as0 s0 where 0: "app_buzzer_task s = (as0, s0)" by fastforce
  then have b: "beeps as0 = 0" "owed s0 = 0" by (auto simp: buzzer_defs beeps_def owed_def)
  obtain as s' where 1: "buzzer_run es s0 = (as, s')" by fastforce
  from run_conserves [OF 1] b 0 1 show ?thesis by simp
qed

text \<open>One beep: three steps of the task, one second in all.\<close>

definition beep_actions :: "action list" where
  "beep_actions = [PWMOutputs True, TaskDelay 500, PWMOutputs False, TaskDelay 500]"

lemma buzzer_burst:
  "buz_pc s = Silent \<Longrightarrow> warning_times s = of_nat (Suc n) \<Longrightarrow> Suc n < 2 ^ 32 \<Longrightarrow>
   buzzer_run (replicate (Suc (2 * n)) Step) s =
     (concat (replicate n beep_actions) @ [TaskDelay 100], \<lparr>warning_times = 0, buz_pc = Idle\<rparr>)"
proof (induction n arbitrary: s)
  case 0
  then show ?case by (cases s) (simp add: buzzer_defs)
next
  case (Suc n)
  let ?s = "\<lparr>warning_times = of_nat (Suc n), buz_pc = Silent\<rparr>"
  have w: "warning_times s - 1 = of_nat (Suc n)" using Suc.prems by simp
  have "(0::u32) < of_nat (Suc n)"
    using Suc.prems(3) by (simp add: word_less_nat_alt unat_of_nat del: of_nat_Suc)
  with w Suc.prems(1) have
    1: "buzzer_step s = ([PWMOutputs True, TaskDelay 500],
          \<lparr>warning_times = of_nat (Suc n), buz_pc = Beeping\<rparr>)"
    by (cases s) (simp add: buzzer_defs del: of_nat_Suc)
  have 2: "buzzer_step \<lparr>warning_times = of_nat (Suc n), buz_pc = Beeping\<rparr> =
      ([PWMOutputs False, TaskDelay 500], ?s)"
    by (simp add: buzzer_defs)
  have 3: "buzzer_run (replicate (Suc (2 * n)) Step) ?s =
     (concat (replicate n beep_actions) @ [TaskDelay 100], \<lparr>warning_times = 0, buz_pc = Idle\<rparr>)"
    by (rule Suc.IH) (use Suc.prems in simp_all)
  have "replicate (Suc (2 * Suc n)) Step = Step # Step # replicate (Suc (2 * n)) Step" by simp
  moreover have "concat (replicate (Suc n) beep_actions) = beep_actions @ concat (replicate n beep_actions)"
    by simp
  ultimately show ?case using 1 2 3 by (simp add: beep_actions_def del: replicate.simps of_nat_Suc)
qed

text \<open>
  A request of \<open>n\<close> beeps to the idle buzzer is served in full and ends: within
  \<open>2 n + 1\<close> steps the task sounds exactly \<open>n\<close> beeps of half a second each, half a
  second apart, leaves the output off, and is idle with nothing owed.\<close>

theorem buzzer_serves_request:
  "buzzer_run (replicate (2 * unat n + 1) Step)
      (app_buzzer_set_times n \<lparr>warning_times = 0, buz_pc = Idle\<rparr>) =
    (concat (replicate (unat n) beep_actions) @ [TaskDelay 100], \<lparr>warning_times = 0, buz_pc = Idle\<rparr>)"
proof -
  let ?s = "\<lparr>warning_times = ucast n + 1, buz_pc = Silent\<rparr>"
  have n: "ucast n = (of_nat (unat n) :: u32)" by simp
  have "Suc (unat n) < 2 ^ 32"
    by (rule order_less_trans [of _ 257]) simp_all
  from buzzer_burst [of ?s "unat n", OF _ _ this] have
    "buzzer_run (replicate (Suc (2 * unat n)) Step) ?s =
      (concat (replicate (unat n) beep_actions) @ [TaskDelay 100], \<lparr>warning_times = 0, buz_pc = Idle\<rparr>)"
    by simp
  moreover have "buzzer_step ?s = buzzer_step (app_buzzer_set_times n \<lparr>warning_times = 0, buz_pc = Idle\<rparr>)"
    by (simp add: buzzer_defs)
  ultimately show ?thesis by simp
qed

end
