(* ===== verification/App_Data.thy ===== *)
theory App_Data
  imports Hardware
begin

text \<open>
  The stored settings (\<open>app/app_data.c\<close>, \<open>app/app_data.h\<close>): a copy \<open>mData\<close> in memory, two words
  in the flash at \<open>DATA_START_ADDRESS\<close>, and the task that writes the copy back whenever the
  semaphore \<open>dataSync\<close> has been given.

  The flash is a device behind the vendor's library: its page erase, word write and word read
  are parameters of the model (\<open>er\<close>, \<open>pw\<close>, \<open>rd\<close>), with the documented behaviour of NOR flash as the
  locale \<open>nor_flash\<close> and a concrete flash as its interpretation.  A flash ends somewhere: whether it has the
  words at \<open>DATA_START_ADDRESS\<close>, 256 KB from its start, is a condition of the properties.  The store task is split
  at the points where another task can run; its writes to the flash are in a
  critical section and are one step.
\<close>

section \<open>The settings and their two words\<close>

record data_map =
  showon :: u16
  showoff :: u16
  led_color :: u32

definition DATA_START_ADDRESS :: u32 where
  [prog_defs]: "DATA_START_ADDRESS = 0x08000000 + 0x40000"

text \<open>\<open>(sizeof(DATA_MAP_t) + sizeof(U32) - 1) / sizeof(U32)\<close>\<close>

definition data_length :: nat where
  "data_length = (8 + 4 - 1) div 4"

text \<open>The structure seen through \<open>U32 *\<close> on the little-endian processor.\<close>

definition data_word :: "data_map \<Rightarrow> nat \<Rightarrow> u32 option" where
  "data_word d i =
     (if i = 0 then Some (ucast (showon d) OR push_bit 16 (ucast (showoff d)))
      else if i = 1 then Some (led_color d) else None)"

definition set_data_word :: "nat \<Rightarrow> u32 \<Rightarrow> data_map \<Rightarrow> data_map option" where
  "set_data_word i w d =
     (if i = 0 then Some (d\<lparr>showon := ucast w, showoff := ucast (drop_bit 16 w)\<rparr>)
      else if i = 1 then Some (d\<lparr>led_color := w\<rparr>) else None)"

definition word_addr :: "nat \<Rightarrow> u32" where
  "word_addr i = DATA_START_ADDRESS + of_nat i * 4"

section \<open>Loading and the accessors\<close>

definition app_data_load_data ::
    "('f \<Rightarrow> u32 \<Rightarrow> u32) \<Rightarrow> 'f \<Rightarrow> data_map \<Rightarrow> data_map option" where
  "app_data_load_data rd fl d =
     fold_opt (\<lambda>i. set_data_word i (rd fl (word_addr i))) [0..<data_length] d"

definition app_data_read_showtime :: "data_map \<Rightarrow> u16 \<times> u16" where
  "app_data_read_showtime d = (showon d, showoff d)"

definition app_data_read_led_color :: "data_map \<Rightarrow> u16" where
  "app_data_read_led_color d = ucast (led_color d)"

definition app_data_write_led_color :: "u16 \<Rightarrow> data_map \<Rightarrow> data_map" where
  "app_data_write_led_color c d = d\<lparr>led_color := ucast c\<rparr>"

definition app_data_write_showtime :: "u16 \<Rightarrow> u16 \<Rightarrow> data_map \<Rightarrow> data_map" where
  "app_data_write_showtime on off d = d\<lparr>showon := on, showoff := off\<rparr>"

section \<open>The store task and its writers\<close>

text \<open>Where the store task is: blocked on the semaphore, about to erase, about to program.\<close>

datatype store_pc = Waiting | Taken | Erased

text \<open>A task inside \<open>app_data_write_showtime\<close> or \<open>app_data_write_led_color\<close>: what is left to do.\<close>

datatype writer = SetShowoff u16 | Give

record 'f data_sys =
  mData :: data_map
  dataSync :: bool
  store_pc :: store_pc
  flash :: 'f
  writers :: "writer list"

text \<open>\<open>app_data_init\<close>: load the settings, create the semaphore and take it.\<close>

definition app_data_init ::
    "('f \<Rightarrow> u32 \<Rightarrow> u32) \<Rightarrow> 'f \<Rightarrow> data_map \<Rightarrow> 'f data_sys option" where
  "app_data_init rd fl d0 = do {
     d \<leftarrow> app_data_load_data rd fl d0;
     Some \<lparr>mData = d, dataSync = False, store_pc = Waiting, flash = fl, writers = []\<rparr>
   }"

definition start_showtime :: "u16 \<Rightarrow> u16 \<Rightarrow> 'f data_sys \<Rightarrow> 'f data_sys" where
  "start_showtime on off s =
     s\<lparr>mData := (mData s)\<lparr>showon := on\<rparr>, writers := writers s @ [SetShowoff off]\<rparr>"

definition start_led_color :: "u16 \<Rightarrow> 'f data_sys \<Rightarrow> 'f data_sys" where
  "start_led_color c s =
     s\<lparr>mData := app_data_write_led_color c (mData s), writers := writers s @ [Give]\<rparr>"

text \<open>The next step of the writer at position \<open>i\<close>.\<close>

definition continue_writer :: "nat \<Rightarrow> 'f data_sys \<Rightarrow> 'f data_sys option" where
  "continue_writer i s = do {
     w \<leftarrow> get (writers s) i;
     (case w of
        SetShowoff off \<Rightarrow>
          Some (s\<lparr>mData := (mData s)\<lparr>showoff := off\<rparr>, writers := (writers s)[i := Give]\<rparr>)
      | Give \<Rightarrow>
          Some (s\<lparr>dataSync := True, writers := take i (writers s) @ drop (Suc i) (writers s)\<rparr>))
   }"

definition store_take :: "'f data_sys \<Rightarrow> 'f data_sys option" where
  "store_take s =
     (if store_pc s = Waiting \<and> dataSync s
      then Some (s\<lparr>dataSync := False, store_pc := Taken\<rparr>) else None)"

definition store_erase :: "(u32 \<Rightarrow> 'f \<Rightarrow> 'f) \<Rightarrow> 'f data_sys \<Rightarrow> 'f data_sys option" where
  "store_erase er s =
     (if store_pc s = Taken
      then Some (s\<lparr>flash := er DATA_START_ADDRESS (flash s), store_pc := Erased\<rparr>) else None)"

definition program_words :: "(u32 \<Rightarrow> u32 \<Rightarrow> 'f \<Rightarrow> 'f) \<Rightarrow> data_map \<Rightarrow> 'f \<Rightarrow> 'f option" where
  "program_words pw d fl =
     fold_opt (\<lambda>i fl. do { w \<leftarrow> data_word d i; Some (pw (word_addr i) w fl) }) [0..<data_length] fl"

definition store_program ::
    "(u32 \<Rightarrow> u32 \<Rightarrow> 'f \<Rightarrow> 'f) \<Rightarrow> 'f data_sys \<Rightarrow> 'f data_sys option" where
  "store_program pw s =
     (if store_pc s = Erased
      then do { fl \<leftarrow> program_words pw (mData s) (flash s); Some (s\<lparr>flash := fl, store_pc := Waiting\<rparr>) }
      else None)"

text \<open>One pass of the loop of \<open>app_data_store_task\<close>.\<close>

definition app_data_store_task ::
    "(u32 \<Rightarrow> 'f \<Rightarrow> 'f) \<Rightarrow> (u32 \<Rightarrow> u32 \<Rightarrow> 'f \<Rightarrow> 'f) \<Rightarrow> 'f data_sys \<Rightarrow> 'f data_sys option" where
  "app_data_store_task er pw s = do {
     s \<leftarrow> store_take s;
     s \<leftarrow> store_erase er s;
     store_program pw s
   }"

text \<open>What the tasks do between two context switches.\<close>

inductive data_step ::
    "(u32 \<Rightarrow> 'f \<Rightarrow> 'f) \<Rightarrow> (u32 \<Rightarrow> u32 \<Rightarrow> 'f \<Rightarrow> 'f) \<Rightarrow> 'f data_sys \<Rightarrow> 'f data_sys \<Rightarrow> bool"
  for er pw where
  showtime: "data_step er pw s (start_showtime on off s)"
| color: "data_step er pw s (start_led_color c s)"
| continue: "continue_writer i s = Some s' \<Longrightarrow> data_step er pw s s'"
| take: "store_take s = Some s' \<Longrightarrow> data_step er pw s s'"
| erase: "store_erase er s = Some s' \<Longrightarrow> data_step er pw s s'"
| program: "store_program pw s = Some s' \<Longrightarrow> data_step er pw s s'"

inductive data_reach ::
    "(u32 \<Rightarrow> 'f \<Rightarrow> 'f) \<Rightarrow> (u32 \<Rightarrow> u32 \<Rightarrow> 'f \<Rightarrow> 'f) \<Rightarrow> 'f data_sys \<Rightarrow> 'f data_sys \<Rightarrow> bool"
  for er pw s where
  start: "data_reach er pw s s"
| step: "data_reach er pw s t \<Longrightarrow> data_step er pw t u \<Longrightarrow> data_reach er pw s u"

inductive_cases data_stepE: "data_step er pw s s'"

section \<open>The words and the structure\<close>

lemma upt_data_length: "[0..<data_length] = [0, 1]"
  by (simp add: data_length_def upt_rec)

lemma load_words:
  "app_data_load_data rd fl d = Some
     \<lparr>showon = ucast (rd fl (word_addr 0)), showoff = ucast (drop_bit 16 (rd fl (word_addr 0))),
      led_color = rd fl (word_addr 1)\<rparr>"
  by (cases d) (simp add: app_data_load_data_def upt_data_length set_data_word_def word_addr_def)

lemma word_addr_ne: "word_addr 0 \<noteq> word_addr 1"
  by (simp add: word_addr_def DATA_START_ADDRESS_def)

lemma unpack_halves:
  "ucast (ucast (a::u16) OR push_bit 16 (ucast (b::u16)) :: u32) = a"
  "ucast (drop_bit 16 (ucast a OR push_bit 16 (ucast b) :: u32)) = b"
  by (rule bit_word_eqI, auto simp: bit_ucast_iff bit_or_iff bit_push_bit_iff bit_drop_bit_eq
        dest: bit_imp_le_length)+

text \<open>The flash holds the settings \<open>d\<close>.\<close>

definition flash_holds :: "('f \<Rightarrow> u32 \<Rightarrow> u32) \<Rightarrow> 'f \<Rightarrow> data_map \<Rightarrow> bool" where
  "flash_holds rd fl d \<longleftrightarrow> (\<forall>i\<in>set [0..<data_length]. Some (rd fl (word_addr i)) = data_word d i)"

lemma flash_holds_words:
  "flash_holds rd fl d \<longleftrightarrow>
     rd fl (word_addr 0) = ucast (showon d) OR push_bit 16 (ucast (showoff d)) \<and>
     rd fl (word_addr 1) = led_color d"
  by (simp only: flash_holds_def upt_data_length) (simp add: data_word_def)

lemma load_holds: "flash_holds rd fl d \<Longrightarrow> app_data_load_data rd fl d' = Some d"
  by (cases d) (simp add: load_words flash_holds_words unpack_halves del: drop_bit_or)

lemma pack_halves:
  "ucast (ucast w :: u16) OR push_bit 16 (ucast (ucast (drop_bit 16 w) :: u16)) = (w::u32)"
  by (rule bit_word_eqI) (auto simp: bit_ucast_iff bit_or_iff bit_push_bit_iff bit_drop_bit_eq)

lemma load_total: "\<exists>d'. app_data_load_data rd fl d = Some d' \<and> flash_holds rd fl d'"
  by (simp add: load_words flash_holds_words pack_halves word_addr_def)


section \<open>The flash device\<close>

text \<open>What the code relies on, at the addresses where the device has memory: an erased page reads as ones,
  a word written to erased cells reads back; a write changes no other word, nothing changes where there is no
  memory, and the device stays the same.\<close>

locale nor_flash =
  fixes er :: "u32 \<Rightarrow> 'f \<Rightarrow> 'f" and pw :: "u32 \<Rightarrow> u32 \<Rightarrow> 'f \<Rightarrow> 'f" and rd :: "'f \<Rightarrow> u32 \<Rightarrow> u32"
    and present :: "'f \<Rightarrow> u32 \<Rightarrow> bool"
  assumes erased: "a \<le> b \<Longrightarrow> b \<le> a + 2044 \<Longrightarrow> present f b \<Longrightarrow> rd (er a f) b = - 1"
    and programmed: "present f a \<Longrightarrow> rd f a = - 1 \<Longrightarrow> rd (pw a w f) a = w"
    and unchanged: "b \<noteq> a \<Longrightarrow> rd (pw a w f) b = rd f b"
    and absent: "\<not> present f b \<Longrightarrow> rd (er a f) b = rd f b" "\<not> present f b \<Longrightarrow> rd (pw a w f) b = rd f b"
    and same_device: "present (er a f) = present f" "present (pw a w f) = present f"
begin

text \<open>The device has the two words of the settings.\<close>

definition has_data :: "'f \<Rightarrow> bool" where
  "has_data f \<longleftrightarrow> (\<forall>i<data_length. present f (word_addr i))"

lemma has_data_same [simp]: "has_data (er a f) = has_data f" "has_data (pw a w f) = has_data f"
  by (simp_all add: has_data_def same_device)

lemma program_words_eq:
  "program_words pw d f = Some (pw (word_addr 1) (led_color d)
     (pw (word_addr 0) (ucast (showon d) OR push_bit 16 (ucast (showoff d))) f))"
  by (simp add: program_words_def upt_data_length data_word_def)

lemma erase_data: "rd (er DATA_START_ADDRESS f) (word_addr i) = - 1" if "i < data_length" "has_data f"
proof (rule erased)
  from that(1) have "i = 0 \<or> i = 1" by (auto simp: data_length_def)
  then show "DATA_START_ADDRESS \<le> word_addr i" "word_addr i \<le> DATA_START_ADDRESS + 2044"
    by (auto simp: word_addr_def DATA_START_ADDRESS_def)
  show "present f (word_addr i)" using that by (simp add: has_data_def)
qed

lemma program_holds:
  assumes "has_data f" "\<And>i. i < data_length \<Longrightarrow> rd f (word_addr i) = - 1"
  shows "\<exists>f'. program_words pw d f = Some f' \<and> flash_holds rd f' d"
proof -
  have "rd f (word_addr 0) = - 1" "rd f (word_addr 1) = - 1" "present f (word_addr 0)" "present f (word_addr 1)"
    using assms by (simp_all add: data_length_def has_data_def)
  then show ?thesis
    using word_addr_ne by (simp add: program_words_eq flash_holds_words programmed unchanged same_device)
qed

text \<open>The invariant: with the store task blocked and nobody in the middle of a change, the
  flash holds the settings, unless the semaphore still has to be taken.\<close>

definition data_inv :: "'f data_sys \<Rightarrow> bool" where
  "data_inv s \<longleftrightarrow> has_data (flash s) \<and>
     (store_pc s = Waiting \<and> \<not> dataSync s \<and> writers s = [] \<longrightarrow> flash_holds rd (flash s) (mData s)) \<and>
     (store_pc s = Erased \<longrightarrow> (\<forall>i<data_length. rd (flash s) (word_addr i) = - 1))"

lemma program_inv:
  assumes "data_inv s" "store_program pw s = Some s'"
  shows "data_inv s' \<and> flash_holds rd (flash s') (mData s') \<and> store_pc s' = Waiting \<and>
    mData s' = mData s \<and> dataSync s' = dataSync s \<and> writers s' = writers s"
proof -
  from assms(2) obtain fl where
    fl: "store_pc s = Erased" "program_words pw (mData s) (flash s) = Some fl"
      "s' = s\<lparr>flash := fl, store_pc := Waiting\<rparr>"
    by (auto simp: store_program_def bind_eq_Some_conv split: if_splits)
  with assms(1) have "flash_holds rd fl (mData s)"
    using program_holds [of "flash s" "mData s"] by (simp add: data_inv_def)
  moreover have "has_data fl" using fl(2) assms(1) by (auto simp: program_words_eq data_inv_def)
  ultimately show ?thesis using fl by (simp add: data_inv_def)
qed

lemma continue_inv: "data_inv s \<Longrightarrow> continue_writer i s = Some s' \<Longrightarrow> data_inv s'"
  by (auto simp: continue_writer_def data_inv_def get_def split: writer.splits if_splits)

lemma erase_inv: "data_inv s \<Longrightarrow> store_erase er s = Some s' \<Longrightarrow> data_inv s'"
  using erase_data by (auto simp: store_erase_def data_inv_def split: if_splits)

lemma take_inv: "data_inv s \<Longrightarrow> store_take s = Some s' \<Longrightarrow> data_inv s'"
  by (auto simp: store_take_def data_inv_def split: if_splits)

lemma start_inv:
  "data_inv s \<Longrightarrow> data_inv (start_showtime on off s)" "data_inv s \<Longrightarrow> data_inv (start_led_color c s)"
  by (simp_all add: start_showtime_def start_led_color_def data_inv_def)

lemma step_inv: "data_step er pw s s' \<Longrightarrow> data_inv s \<Longrightarrow> data_inv s'"
  by (induction rule: data_step.induct)
    (rule start_inv start_inv(2) continue_inv take_inv erase_inv program_inv [THEN conjunct1];
      assumption)+

lemma reach_inv: "data_reach er pw s t \<Longrightarrow> data_inv s \<Longrightarrow> data_inv t"
  by (induction rule: data_reach.induct) (auto intro: step_inv)

lemma init_inv: "app_data_init rd fl d0 = Some s \<Longrightarrow> has_data fl \<Longrightarrow> data_inv s"
  using load_total [of rd fl d0] by (auto simp: app_data_init_def data_inv_def)

lemma store_pass:
  assumes "data_inv s" "store_pc s = Waiting" "dataSync s"
  shows "\<exists>s'. app_data_store_task er pw s = Some s' \<and> flash_holds rd (flash s') (mData s) \<and>
    mData s' = mData s \<and> store_pc s' = Waiting \<and> \<not> dataSync s' \<and> writers s' = writers s"
proof -
  let ?s = "s\<lparr>dataSync := False, store_pc := Erased, flash := er DATA_START_ADDRESS (flash s)\<rparr>"
  have h: "has_data (flash s)" using assms(1) by (simp add: data_inv_def)
  have i: "data_inv ?s" using erase_data [OF _ h] h by (simp add: data_inv_def)
  obtain fl where
    fl: "program_words pw (mData s) (flash ?s) = Some fl" by (simp add: program_words_eq)
  have "store_take s = Some (s\<lparr>dataSync := False, store_pc := Taken\<rparr>)"
    using assms by (simp add: store_take_def)
  moreover have "store_erase er (s\<lparr>dataSync := False, store_pc := Taken\<rparr>) = Some ?s"
    by (simp add: store_erase_def)
  moreover have p: "store_program pw ?s = Some (?s\<lparr>flash := fl, store_pc := Waiting\<rparr>)"
    using fl by (simp add: store_program_def)
  ultimately have "app_data_store_task er pw s = Some (?s\<lparr>flash := fl, store_pc := Waiting\<rparr>)"
    by (simp add: app_data_store_task_def)
  with program_inv [OF i p] show ?thesis by simp
qed

text \<open>Without memory there, the words of the settings never change.\<close>

lemma step_absent:
  assumes "data_step er pw s s'" "\<not> present (flash s) (word_addr i)"
  shows "rd (flash s') (word_addr i) = rd (flash s) (word_addr i) \<and> present (flash s') = present (flash s)"
  using assms
  by (cases rule: data_stepE)
    (auto simp: start_showtime_def start_led_color_def continue_writer_def get_def store_take_def store_erase_def
      store_program_def program_words_eq absent same_device split: writer.splits if_splits)

lemma reach_absent:
  assumes "data_reach er pw s t" "\<not> present (flash s) (word_addr i)"
  shows "rd (flash t) (word_addr i) = rd (flash s) (word_addr i) \<and> present (flash t) = present (flash s)"
  using assms by (induction rule: data_reach.induct) (auto dest: step_absent)

end

text \<open>
  A flash with its end: erasing sets the bits of a page of 2 KB, programming only clears.  What is read past the
  end is whatever the bus gives there; the flash commands do not change it.
\<close>

record device =
  flash_end :: u32
  cells :: "u32 \<Rightarrow> u32"

definition erase_page :: "u32 \<Rightarrow> device \<Rightarrow> device" where
  "erase_page a f =
     f\<lparr>cells := \<lambda>b. if a \<le> b \<and> b \<le> a + 2044 \<and> b < flash_end f then - 1 else cells f b\<rparr>"

definition program_word :: "u32 \<Rightarrow> u32 \<Rightarrow> device \<Rightarrow> device" where
  "program_word a w f = (if a < flash_end f then f\<lparr>cells := (cells f)(a := cells f a AND w)\<rparr> else f)"

definition read_word :: "device \<Rightarrow> u32 \<Rightarrow> u32" where
  "read_word f a = cells f a"

interpretation cells_flash: nor_flash erase_page program_word read_word "\<lambda>f a. a < flash_end f"
  by unfold_locales (auto simp: erase_page_def program_word_def read_word_def)

text \<open>The end of the flash of a device with \<open>k\<close> KB.\<close>

definition flash_kb :: "u32 \<Rightarrow> u32" where
  "flash_kb k = 0x08000000 + k * 1024"

lemma has_data_end: "DATA_START_ADDRESS + 4 < flash_end f \<Longrightarrow> cells_flash.has_data f"
proof -
  assume a: "DATA_START_ADDRESS + 4 < flash_end f"
  have "word_addr i \<le> DATA_START_ADDRESS + 4" if "i < data_length" for i
  proof -
    from that have "i = 0 \<or> i = 1" by (auto simp: data_length_def)
    then show ?thesis by (auto simp: word_addr_def DATA_START_ADDRESS_def)
  qed
  then show ?thesis using a by (auto simp: cells_flash.has_data_def intro: le_less_trans)
qed

section \<open>Properties\<close>

text \<open>
  Claim C27.  No update is lost on a device whose flash reaches past \<open>DATA_START_ADDRESS\<close>, that is, with more than
  256 KB: from power-up, for every interleaving of the tasks that
  change the settings with the store task, whenever the store task waits, the semaphore is
  not pending and no task is in the middle of a change, the flash holds exactly the
  settings in memory, and the next power-up reads them back.  (The STM32F103RCT6 that the README names has 256 KB; what
  happens there is \<open>data_never_stored\<close>.)\<close>

theorem data_no_lost_update:
  assumes "DATA_START_ADDRESS + 4 < flash_end fl"
    and "app_data_init read_word fl d0 = Some s" "data_reach erase_page program_word s t"
    and "store_pc t = Waiting" "\<not> dataSync t" "writers t = []"
  shows "app_data_load_data read_word (flash t) d = Some (mData t)"
proof -
  have "cells_flash.data_inv t"
    by (rule cells_flash.reach_inv [OF assms(3)]) (rule cells_flash.init_inv [OF assms(2) has_data_end [OF assms(1)]])
  with assms(4-6) have "flash_holds read_word (flash t) (mData t)"
    by (simp add: cells_flash.data_inv_def)
  then show ?thesis by (rule load_holds)
qed

definition blank_data :: data_map where
  "blank_data = \<lparr>showon = 0, showoff = 0, led_color = 0\<rparr>"

definition zero_flash :: "u32 \<Rightarrow> device" where
  "zero_flash k = \<lparr>flash_end = flash_kb k, cells = \<lambda>_. 0\<rparr>"

definition boot_data :: "u32 \<Rightarrow> device data_sys" where
  "boot_data k = \<lparr>mData = blank_data, dataSync = False, store_pc = Waiting, flash = zero_flash k, writers = []\<rparr>"

lemma boot_data: "app_data_init read_word (zero_flash k) blank_data = Some (boot_data k)"
  by (simp add: app_data_init_def load_words read_word_def boot_data_def blank_data_def zero_flash_def)

lemma flash_512: "DATA_START_ADDRESS + 4 < flash_end (zero_flash 512)"
  by (simp add: DATA_START_ADDRESS_def zero_flash_def flash_kb_def)

text \<open>A change of the show time that the store task interrupts: it stores the new start with
  the old end, and stores again after the semaphore has been given.\<close>

definition interrupted :: "u32 \<Rightarrow> device data_sys option" where
  "interrupted k = do {
     s \<leftarrow> continue_writer 0 (start_led_color 2 (boot_data k));
     let s = start_showtime 830 2200 s;
     s \<leftarrow> app_data_store_task erase_page program_word s;
     s \<leftarrow> continue_writer 0 s;
     s \<leftarrow> continue_writer 0 s;
     app_data_store_task erase_page program_word s
   }"

lemma data_reach_task:
  assumes "data_reach er pw s t" "app_data_store_task er pw t = Some u"
  shows "data_reach er pw s u"
proof -
  from assms(2) obtain t1 t2 where
    "store_take t = Some t1" "store_erase er t1 = Some t2" "store_program pw t2 = Some u"
    by (auto simp: app_data_store_task_def bind_eq_Some_conv)
  with assms(1) show ?thesis
    by (meson data_reach.step data_step.take data_step.erase data_step.program)
qed

lemma interrupted_reach:
  assumes "interrupted k = Some t"
  shows "data_reach erase_page program_word (boot_data k) t"
proof -
  from assms obtain s1 s2 s3 s4 where s:
    "continue_writer 0 (start_led_color 2 (boot_data k)) = Some s1"
    "app_data_store_task erase_page program_word (start_showtime 830 2200 s1) = Some s2"
    "continue_writer 0 s2 = Some s3" "continue_writer 0 s3 = Some s4"
    "app_data_store_task erase_page program_word s4 = Some t"
    by (auto simp: interrupted_def Let_def bind_eq_Some_conv)
  have "data_reach erase_page program_word (boot_data k) (start_showtime 830 2200 s1)"
    by (meson s(1) data_reach.start data_reach.step data_step.color data_step.continue
        data_step.showtime)
  from data_reach_task [OF this s(2)] s(3,4)
  have "data_reach erase_page program_word (boot_data k) s4"
    by (meson data_reach.step data_step.continue)
  from data_reach_task [OF this s(5)] show ?thesis .
qed

lemma interrupted_final:
  "\<exists>t. interrupted k = Some t \<and> store_pc t = Waiting \<and> \<not> dataSync t \<and> writers t = [] \<and>
     mData t = \<lparr>showon = 830, showoff = 2200, led_color = 2\<rparr>"
  by (simp add: interrupted_def Let_def boot_data_def blank_data_def start_led_color_def
      start_showtime_def app_data_write_led_color_def continue_writer_def get_def
      app_data_store_task_def store_take_def store_erase_def store_program_def program_words_def
      upt_data_length data_word_def)

theorem data_no_lost_update_witness:
  "\<exists>t. interrupted 512 = Some t \<and>
     app_data_load_data read_word (flash t) blank_data =
       Some \<lparr>showon = 830, showoff = 2200, led_color = 2\<rparr>"
proof -
  from interrupted_final obtain t where t: "interrupted 512 = Some t" "store_pc t = Waiting"
    "\<not> dataSync t" "writers t = []" "mData t = \<lparr>showon = 830, showoff = 2200, led_color = 2\<rparr>"
    by blast
  from data_no_lost_update [OF flash_512 boot_data interrupted_reach [OF t(1)] t(2-4)] t(1,5)
  show ?thesis by metis
qed

text \<open>
  On a device whose flash ends at or before \<open>DATA_START_ADDRESS\<close>, such as the STM32F103RCT6 with its
  256 KB, nothing is ever stored: whatever is set and stored, the next power-up reads what this one
  read.\<close>

theorem data_never_stored:
  assumes "flash_end fl \<le> DATA_START_ADDRESS"
    and "app_data_init read_word fl d0 = Some s" "data_reach erase_page program_word s t"
  shows "app_data_load_data read_word (flash t) d = app_data_load_data read_word fl d"
proof -
  have s: "flash s = fl" using assms(2) by (auto simp: app_data_init_def bind_eq_Some_conv)
  have "DATA_START_ADDRESS \<le> word_addr 0" "DATA_START_ADDRESS \<le> word_addr 1"
    by (simp_all add: word_addr_def DATA_START_ADDRESS_def)
  then have "\<not> word_addr 0 < flash_end (flash s)" "\<not> word_addr 1 < flash_end (flash s)"
    using assms(1) s by auto
  from this [THEN cells_flash.reach_absent [OF assms(3), THEN conjunct1]] s show ?thesis
    by (simp add: load_words)
qed

theorem data_never_stored_witness:
  "\<exists>t. interrupted 256 = Some t \<and> mData t = \<lparr>showon = 830, showoff = 2200, led_color = 2\<rparr> \<and>
     app_data_load_data read_word (flash t) blank_data = Some blank_data"
proof -
  have e: "flash_end (zero_flash 256) \<le> DATA_START_ADDRESS"
    by (simp add: DATA_START_ADDRESS_def zero_flash_def flash_kb_def)
  from interrupted_final obtain t where t: "interrupted 256 = Some t"
    "mData t = \<lparr>showon = 830, showoff = 2200, led_color = 2\<rparr>" by blast
  have "app_data_load_data read_word (zero_flash 256) blank_data = Some blank_data"
    by (simp add: load_words read_word_def zero_flash_def blank_data_def)
  with data_never_stored [OF e boot_data interrupted_reach [OF t(1)], of blank_data] t show ?thesis by auto
qed

text \<open>
  A pending change is stored by the next pass of the task: from any reachable state in
  which the task waits and the semaphore has been given, one pass ends and leaves the settings in
  the flash, in memory unchanged, and the semaphore taken.\<close>

theorem data_pass_stores:
  assumes "DATA_START_ADDRESS + 4 < flash_end fl"
    and "app_data_init read_word fl d0 = Some s" "data_reach erase_page program_word s t"
    and "store_pc t = Waiting" "dataSync t"
  shows "\<exists>u. app_data_store_task erase_page program_word t = Some u \<and> mData u = mData t \<and>
    app_data_load_data read_word (flash u) d = Some (mData t) \<and> store_pc u = Waiting \<and> \<not> dataSync u"
proof -
  have "cells_flash.data_inv t"
    by (rule cells_flash.reach_inv [OF assms(3)]) (rule cells_flash.init_inv [OF assms(2) has_data_end [OF assms(1)]])
  from cells_flash.store_pass [OF this assms(4,5)] show ?thesis by (auto intro: load_holds)
qed

theorem data_pass_stores_witness:
  "\<exists>t u. continue_writer 0 (start_led_color 2 (boot_data 512)) = Some t \<and>
    app_data_store_task erase_page program_word t = Some u \<and> mData u = mData t \<and>
    app_data_load_data read_word (flash u) blank_data = Some (mData t) \<and>
    store_pc u = Waiting \<and> \<not> dataSync u"
proof -
  obtain t where t: "continue_writer 0 (start_led_color 2 (boot_data 512)) = Some t"
    "store_pc t = Waiting" "dataSync t"
    by (simp add: continue_writer_def start_led_color_def boot_data_def get_def)
  have "data_reach erase_page program_word (boot_data 512) t"
    by (meson t(1) data_reach.start data_reach.step data_step.color data_step.continue)
  from data_pass_stores [OF flash_512 boot_data this t(2,3), of blank_data] t(1) show ?thesis by blast
qed

lemma ones_u16: "ucast (- 1 :: u32) = (65535 :: u16)" "ucast (mask 16 :: u32) = (65535 :: u16)"
  by code_simp+

text \<open>
  A power cut between the erase and the write loses, on a device that has the page, every setting: whatever was
  stored, the next power-up reads the show time 65535 to 65535 and the colour 65535.\<close>

theorem data_power_cut_loses:
  assumes "store_erase erase_page s = Some s'" "DATA_START_ADDRESS + 4 < flash_end (flash s)"
  shows "\<exists>d'. app_data_load_data read_word (flash s') d = Some d' \<and>
    app_data_read_showtime d' = (65535, 65535) \<and> app_data_read_led_color d' = 65535"
proof -
  from assms(1) have f: "flash s' = erase_page DATA_START_ADDRESS (flash s)"
    by (auto simp: store_erase_def split: if_splits)
  have "read_word (flash s') (word_addr 0) = - 1" "read_word (flash s') (word_addr 1) = - 1"
    unfolding f by (rule cells_flash.erase_data, simp add: data_length_def, rule has_data_end, rule assms(2))+
  then show ?thesis
    by (simp add: load_words app_data_read_showtime_def app_data_read_led_color_def ones_u16)
qed

theorem data_power_cut_loses_witness:
  "\<exists>d'. app_data_load_data read_word
      (flash ((boot_data 512)\<lparr>store_pc := Erased, flash := erase_page DATA_START_ADDRESS (zero_flash 512)\<rparr>))
      blank_data = Some d' \<and>
    app_data_read_showtime d' = (65535, 65535) \<and> app_data_read_led_color d' = 65535"
  by (rule data_power_cut_loses [of "(boot_data 512)\<lparr>store_pc := Taken\<rparr>"])
    (simp_all add: store_erase_def boot_data_def DATA_START_ADDRESS_def zero_flash_def flash_kb_def)

end
