(* ===== verification/App_Led.thy ===== *)
theory App_Led
  imports App_Data
begin

text \<open>
  The status LED (\<open>app/app_led.c\<close>): the static \<open>led_color\<close> selects one of three pins of
  port C, and the blink task lights it for 100 ms every two seconds.  The task is a state
  machine over its two delays; the CLI changes the colour between its steps.
\<close>

section \<open>State and operations\<close>

definition LED_PIN_R :: u16 where [prog_defs]: "LED_PIN_R = 0x0020"
definition LED_PIN_G :: u16 where [prog_defs]: "LED_PIN_G = 0x0008"
definition LED_PIN_B :: u16 where [prog_defs]: "LED_PIN_B = 0x0004"

definition DEFAULT_COLOR_BLUE :: u16 where [prog_defs]: "DEFAULT_COLOR_BLUE = 1"
definition MAX_TYPES_COLOR :: u16 where [prog_defs]: "MAX_TYPES_COLOR = 3"

definition port_list :: "u16 list" where
  [prog_defs]: "port_list = [LED_PIN_R, LED_PIN_G, LED_PIN_B]"

datatype led_pc = Lit | Dark

record led =
  color :: u16
  led_pc :: led_pc

text \<open>\<open>app_led_init\<close>: three push-pull outputs, all low.\<close>

definition app_led_init :: "action list" where
  "app_led_init =
     [PinMode GPIOC (LED_PIN_R OR LED_PIN_G OR LED_PIN_B) Out_PP,
      BRR GPIOC (LED_PIN_R OR LED_PIN_G OR LED_PIN_B)]"

definition clamp_color :: "u16 \<Rightarrow> u16" where
  "clamp_color c = (if c \<ge> MAX_TYPES_COLOR then DEFAULT_COLOR_BLUE else c)"

text \<open>\<open>LED_PIN_GROUP->BSRR = port_list[led_color]\<close> and the delay after it; \<open>None\<close> is a read past
  \<open>port_list\<close>.\<close>

definition led_light :: "led \<Rightarrow> (action list \<times> led) option" where
  "led_light s = do {
     p \<leftarrow> get port_list (unat (color s));
     Some ([BSRR GPIOC p, TaskDelay (mainDELAY_MS 100)], s\<lparr>led_pc := Lit\<rparr>)
   }"

definition led_douse :: "led \<Rightarrow> (action list \<times> led) option" where
  "led_douse s = do {
     p \<leftarrow> get port_list (unat (color s));
     Some ([BRR GPIOC p, TaskDelay (mainDELAY_MS 1900)], s\<lparr>led_pc := Dark\<rparr>)
   }"

definition led_step :: "led \<Rightarrow> (action list \<times> led) option" where
  "led_step s = (case led_pc s of Lit \<Rightarrow> led_douse s | Dark \<Rightarrow> led_light s)"

text \<open>The start of \<open>app_led_task_blink\<close>: the colour from the stored settings.\<close>

definition app_led_task_blink :: "data_map \<Rightarrow> led \<Rightarrow> (action list \<times> led) option" where
  "app_led_task_blink d s =
     led_light (s\<lparr>color := clamp_color (app_data_read_led_color d)\<rparr>)"

definition app_led_set_color :: "u8 \<Rightarrow> led \<Rightarrow> data_map \<Rightarrow> led \<times> data_map" where
  "app_led_set_color c s d =
     (let s = s\<lparr>color := clamp_color (ucast c)\<rparr> in (s, app_data_write_led_color (color s) d))"

lemmas led_defs = led_light_def led_douse_def led_step_def app_led_task_blink_def
  app_led_set_color_def clamp_color_def port_list_def DEFAULT_COLOR_BLUE_def MAX_TYPES_COLOR_def
  LED_PIN_R_def LED_PIN_G_def LED_PIN_B_def mainDELAY_MS_def get_def

section \<open>Runs\<close>

datatype led_event = Tick | SetColor u8

fun led_run :: "led_event list \<Rightarrow> led \<Rightarrow> data_map \<Rightarrow> (action list \<times> led \<times> data_map) option" where
  "led_run [] s d = Some ([], s, d)"
| "led_run (SetColor c # es) s d = (let (s', d') = app_led_set_color c s d in led_run es s' d')"
| "led_run (Tick # es) s d = do {
     (as, s') \<leftarrow> led_step s;
     (bs, s'', d') \<leftarrow> led_run es s' d;
     Some (as @ bs, s'', d')
   }"

lemma clamp_color_bound: "clamp_color c < 3"
  by (auto simp: clamp_color_def MAX_TYPES_COLOR_def DEFAULT_COLOR_BLUE_def not_le)

lemma port_list_get: "(c::u16) < 3 \<Longrightarrow> \<exists>p. get port_list (unat c) = Some p \<and> p \<in> {0x0020, 0x0008, 0x0004}"
proof -
  assume "c < 3"
  then have "unat c < 3" by (simp add: word_less_nat_alt)
  then have "unat c = 0 \<or> unat c = 1 \<or> unat c = 2" by arith
  then show ?thesis by (auto simp: led_defs)
qed

lemma led_step_total:
  assumes "color s < 3"
  shows "\<exists>as s'. led_step s = Some (as, s') \<and> color s' = color s"
  using port_list_get [OF assms]
  by (auto simp: led_step_def led_light_def led_douse_def split: led_pc.splits)

lemma set_color_bound: "app_led_set_color c s d = (s', d') \<Longrightarrow> color s' < 3"
  using clamp_color_bound by (auto simp: app_led_set_color_def Let_def)

lemma led_run_total:
  "color s < 3 \<Longrightarrow> \<exists>as s' d'. led_run es s d = Some (as, s', d') \<and> color s' < 3"
proof (induction es arbitrary: s d)
  case (Cons e es)
  show ?case
  proof (cases e)
    case Tick
    from led_step_total [OF Cons.prems] obtain as s' where
      "led_step s = Some (as, s')" "color s' < 3" using Cons.prems by auto
    with Cons.IH [of s' d] Tick show ?thesis by auto
  next
    case (SetColor c)
    obtain s' d' where 1: "app_led_set_color c s d = (s', d')" by fastforce
    with Cons.IH [OF set_color_bound [OF 1], of d'] SetColor show ?thesis by simp
  qed
qed simp

text \<open>
  The blink task never reads past \<open>port_list\<close>: it starts and runs for ever from any
  stored settings, even from garbage in the flash, and under any colour changes by the CLI.\<close>

theorem led_never_overruns:
  "\<exists>as s1 bs s' d'. app_led_task_blink d s = Some (as, s1) \<and> led_run es s1 d = Some (bs, s', d') \<and>
     color s' < 3"
proof -
  let ?s = "s\<lparr>color := clamp_color (app_data_read_led_color d)\<rparr>"
  have b: "color ?s < 3" by (simp add: clamp_color_bound)
  from port_list_get [OF this] obtain as s1 where
    1: "led_light ?s = Some (as, s1)" "color s1 = color ?s" by (auto simp: led_light_def)
  from led_run_total [of s1 es d] b 1(2) have
    "\<exists>bs s' d'. led_run es s1 d = Some (bs, s', d') \<and> color s' < 3" by simp
  with 1(1) show ?thesis by (auto simp: app_led_task_blink_def)
qed

text \<open>The pins of the LED on port C, by colour number.\<close>

definition led_pins :: "nat list" where
  "led_pins = [5, 3, 2]"

definition lit :: "pins \<Rightarrow> nat \<Rightarrow> bool" where
  "lit p c = high p (GPIOC, led_pins ! c)"

lemma led_pin_bits: "c < 3 \<Longrightarrow> k < 3 \<Longrightarrow> bit (port_list ! c) (led_pins ! k) \<longleftrightarrow> k = c"
proof -
  assume "c < 3" "k < 3"
  then have "(c = 0 \<or> c = 1 \<or> c = 2) \<and> (k = 0 \<or> k = 1 \<or> k = 2)" by arith
  moreover have "\<forall>c\<in>set [0, 1, 2]. \<forall>k\<in>set [0, 1, 2].
      bit (port_list ! c) (led_pins ! k) \<longleftrightarrow> k = c" by code_simp
  ultimately show ?thesis by auto
qed

lemma led_light_eq:
  assumes "color s < 3"
  shows "led_light s = Some ([BSRR GPIOC (port_list ! unat (color s)), TaskDelay 100], s\<lparr>led_pc := Lit\<rparr>)"
    and "led_douse s = Some ([BRR GPIOC (port_list ! unat (color s)), TaskDelay 1900], s\<lparr>led_pc := Dark\<rparr>)"
proof -
  have "unat (color s) < length port_list"
    using assms by (simp add: port_list_def word_less_nat_alt)
  then show "led_light s = Some ([BSRR GPIOC (port_list ! unat (color s)), TaskDelay 100], s\<lparr>led_pc := Lit\<rparr>)"
    and "led_douse s = Some ([BRR GPIOC (port_list ! unat (color s)), TaskDelay 1900], s\<lparr>led_pc := Dark\<rparr>)"
    by (simp_all add: led_light_def led_douse_def get_def mainDELAY_MS_def)
qed

lemma led_step_lights:
  assumes "color s < 3" "led_step s = Some (as, s')" "k < 3"
  shows "lit (levels p as) k \<longleftrightarrow> (if k = unat (color s) then led_pc s = Dark else lit p k)"
proof -
  have c: "unat (color s) < 3" using assms(1) by (simp add: word_less_nat_alt)
  have "led_pins ! k < 16" using assms(3) by (auto simp: led_pins_def nth_Cons split: nat.split)
  with assms(1,2) led_pin_bits [OF c assms(3)] show ?thesis
    by (cases "led_pc s")
      (auto simp: led_step_def led_light_eq lit_def bit_or_iff bit_and_iff bit_not_iff high_def
        led_pins_def)
qed

text \<open>
  One period of the blink without a change of colour: the task lights exactly the
  LED of its colour for 100 ms, then puts it out for 1900 ms; the two others stay dark.\<close>

theorem led_period:
  assumes "color s < 3" "led_pc s = Dark" "\<And>k. k < 3 \<Longrightarrow> \<not> lit p k"
  shows "\<exists>m1 m2 s1. led_step s = Some ([m1, TaskDelay 100], s1) \<and>
    led_step s1 = Some ([m2, TaskDelay 1900], s) \<and>
    (\<forall>k<3. lit (levels p [m1]) k \<longleftrightarrow> k = unat (color s)) \<and> (\<forall>k<3. \<not> lit (levels p [m1, m2]) k)"
proof -
  let ?m1 = "BSRR GPIOC (port_list ! unat (color s))" and ?m2 = "BRR GPIOC (port_list ! unat (color s))"
    and ?s1 = "s\<lparr>led_pc := Lit\<rparr>"
  have 1: "led_step s = Some ([?m1, TaskDelay 100], ?s1)"
    using assms(1,2) by (simp add: led_step_def led_light_eq)
  have 2: "led_step ?s1 = Some ([?m2, TaskDelay 1900], s)"
    using assms(1,2) by (cases s) (simp add: led_step_def led_light_eq)
  have 3: "lit (levels p [?m1]) k \<longleftrightarrow> k = unat (color s)" if "k < 3" for k
    using led_step_lights [OF assms(1) 1 that, of p] assms(2,3) that by auto
  have 4: "\<not> lit (levels p [?m1, ?m2]) k" if "k < 3" for k
    using led_step_lights [OF _ 2 that, of "levels p [?m1]"] assms(1) 3 that by auto
  from 1 2 3 4 show ?thesis by blast
qed

theorem led_period_witness:
  "\<exists>m1 m2 s1. led_step \<lparr>color = 2, led_pc = Dark\<rparr> = Some ([m1, TaskDelay 100], s1) \<and>
    led_step s1 = Some ([m2, TaskDelay 1900], \<lparr>color = 2, led_pc = Dark\<rparr>) \<and>
    (\<forall>k<3. lit (levels (\<lambda>_. 0) [m1]) k \<longleftrightarrow> k = unat (color \<lparr>color = 2, led_pc = Dark\<rparr>)) \<and>
    (\<forall>k<3. \<not> lit (levels (\<lambda>_. 0) [m1, m2]) k)"
  by (rule led_period) (simp_all add: lit_def high_def)

lemma led_run_keeps_lit:
  assumes "color s < 3" "k < 3" "k \<noteq> unat (color s)" "lit p k"
    and "led_run (replicate n Tick) s d = Some (as, s', d')"
  shows "lit (levels p as) k"
  using assms
proof (induction n arbitrary: s p as)
  case (Suc n)
  from led_step_total [OF Suc.prems(1)] obtain bs s1 where
    1: "led_step s = Some (bs, s1)" "color s1 = color s" by blast
  with Suc.prems(5) obtain cs where
    2: "led_run (replicate n Tick) s1 d = Some (cs, s', d')" "as = bs @ cs"
    by (auto simp: bind_eq_Some_conv)
  have "lit (levels p bs) k"
    using led_step_lights [OF Suc.prems(1) 1(1) Suc.prems(2), of p] Suc.prems(3,4) by simp
  from Suc.IH [OF _ Suc.prems(2) _ this 2(1)] Suc.prems(1,3) 1(2) 2(2) show ?case by simp
qed simp

text \<open>
  A change of colour while the LED is lit leaves the old LED on: the task puts out the
  pin of the new colour, and the pin of the old one stays high however long it runs.\<close>

theorem led_stuck_after_change:
  assumes "color s < 3" "c < 3" "unat c \<noteq> unat (color s)" "lit p (unat (color s))"
    and "led_run (SetColor c # replicate n Tick) s d = Some (as, s', d')"
  shows "lit (levels p as) (unat (color s))"
proof -
  obtain s1 d1 where 1: "app_led_set_color c s d = (s1, d1)" by fastforce
  have "\<not> (3::u16) \<le> ucast c" using assms(2) by (simp add: word_le_nat_alt word_less_nat_alt)
  with 1 have "color s1 = ucast c"
    by (auto simp: app_led_set_color_def clamp_color_def MAX_TYPES_COLOR_def Let_def)
  then have "color s1 < 3" "unat (color s) \<noteq> unat (color s1)"
    using assms(2,3) by (simp_all add: word_less_nat_alt)
  moreover have "unat (color s) < 3" using assms(1) by (simp add: word_less_nat_alt)
  moreover have "led_run (replicate n Tick) s1 d1 = Some (as, s', d')"
    using assms(5) 1 by simp
  ultimately show ?thesis using assms(4) led_run_keeps_lit by blast
qed

theorem led_stuck_after_change_witness:
  "\<exists>as s' d'. led_run (SetColor 2 # replicate 5 Tick) \<lparr>color = 1, led_pc = Lit\<rparr> blank_data = Some (as, s', d') \<and>
    lit (levels (\<lambda>_. 0x0008) as) (unat (color \<lparr>color = 1, led_pc = Lit\<rparr>))"
proof -
  from led_run_total [of "\<lparr>color = 1, led_pc = Lit\<rparr>" "SetColor 2 # replicate 5 Tick" blank_data]
  obtain as s' d' where r: "led_run (SetColor 2 # replicate 5 Tick) \<lparr>color = 1, led_pc = Lit\<rparr> blank_data =
      Some (as, s', d')" by auto
  have "lit (levels (\<lambda>_. 0x0008) as) (unat (color \<lparr>color = 1, led_pc = Lit\<rparr>))"
    by (rule led_stuck_after_change [OF _ _ _ _ r]) (simp_all add: lit_def high_def led_pins_def)
  with r show ?thesis by blast
qed

text \<open>
  The colour meant as the default, \<open>DEFAULT_COLOR_BLUE\<close>, is the green pin: a colour
  number out of range lights \<open>LED_PIN_G\<close>, stores the number 1, and never lights the blue one.\<close>

theorem led_default_is_green:
  "case app_led_set_color c s d of (s', d') \<Rightarrow>
     c \<ge> 3 \<longrightarrow> get port_list (unat (color s')) = Some LED_PIN_G \<and> led_color d' = 1"
proof -
  have "(3::u16) \<le> ucast c \<longleftrightarrow> 3 \<le> c" by (simp add: word_le_nat_alt)
  then show ?thesis by (simp add: led_defs app_data_write_led_color_def Let_def)
qed

theorem led_default_is_green_witness:
  "case app_led_set_color 7 \<lparr>color = 0, led_pc = Dark\<rparr> blank_data of (s', d') \<Rightarrow>
     get port_list (unat (color s')) = Some LED_PIN_G \<and> led_color d' = 1"
  using led_default_is_green [of 7 "\<lparr>color = 0, led_pc = Dark\<rparr>" blank_data]
  by (simp split: prod.splits)

end
