(* ===== verification/Hal_Sht10.thy ===== *)
theory Hal_Sht10
  imports Complex_Main I2c_Bus
begin

text \<open>
  The temperature and humidity sensor (\<open>hal/hal_sht10.c\<close>) and its wrapper
  (\<open>mid/mid_th.c\<close>).

  A \<open>float\<close> is a real number and every operation of the code is followed by \<open>rnd\<close>, the
  rounding to single precision, a parameter of the model; what a property needs of it is a
  hypothesis.  \<open>rnd = (\<lambda>x. x)\<close> is exact arithmetic.  The wait for the sensor polls the data
  line with no bound, so it is a partial function: \<open>None\<close> is waiting for ever.
\<close>

section \<open>A measurement\<close>

datatype SHT10_INFO_e = HUM | TEMP

definition MEASURE_TEMP :: u8 where "MEASURE_TEMP = 0x03"
definition MEASURE_HUM :: u8 where "MEASURE_HUM = 0x05"

partial_function (option) sht10_wait :: "line \<Rightarrow> bus \<Rightarrow> bus option" where
  "sht10_wait inp b =
     (case I2C_BUS_SDA_STATE inp sht b of (s, b') \<Rightarrow>
        if s then sht10_wait inp (emit [TaskDelay 50] b') else Some b')"

text \<open>The result: the error count, the value if it was read, and the bus.\<close>

definition hal_sht10_get_res ::
    "line \<Rightarrow> SHT10_INFO_e \<Rightarrow> bus \<Rightarrow> (u8 \<times> u16 option \<times> bus) option" where
  "hal_sht10_get_res inp mode b = do {
     let b = emit (i2c_bus_start sht) b;
     let (nack, b) = i2c_bus_write_byte inp sht (case mode of TEMP \<Rightarrow> MEASURE_TEMP | HUM \<Rightarrow> MEASURE_HUM) b;
     let error = (if nack then 1 else 0 :: u8);
     b \<leftarrow> sht10_wait inp (emit [i2c_bus_sda_dir sht False] b);
     let (s, b) = I2C_BUS_SDA_STATE inp sht b;
     if s then Some (error + 1, None, b)
     else
       (let b = emit [i2c_bus_sda_dir sht True] b;
            (hi, b) = i2c_bus_read_byte inp sht False b;
            (lo, b) = i2c_bus_read_byte inp sht False b;
            (check, b) = i2c_bus_read_byte inp sht True b
        in Some (error, Some (push_bit 8 (ucast hi) OR ucast lo), b))
   }"

section \<open>The formulas of the sensor\<close>

definition calc_sth11 :: "(real \<Rightarrow> real) \<Rightarrow> real \<Rightarrow> real \<Rightarrow> real \<times> real" where
  "calc_sth11 rnd rh t =
     (let D1 = rnd (- 39.6); D2 = rnd 0.01; C1 = rnd (- 4); C2 = rnd 0.0405;
          C3 = rnd (- 0.0000028); T1 = rnd 0.01; T2 = rnd 0.00008;
          t_C = rnd (rnd (t * D2) + D1);
          rh_lin = rnd (rnd (rnd (rnd (C3 * rh) * rh) + rnd (C2 * rh)) + C1);
          rh_true = rnd (rnd (rnd (t_C - 25) * rnd (T1 + rnd (T2 * rh))) + rh_lin);
          rh_true = (if rh_true > 100 then 100 else rh_true);
          rh_true = (if rh_true < 0.1 then rnd 0.1 else rh_true)
      in (rh_true, t_C))"

definition hal_sht10_get_data ::
    "(real \<Rightarrow> real) \<Rightarrow> line \<Rightarrow> SHT10_INFO_e \<Rightarrow> bus \<Rightarrow> (real \<times> bus) option" where
  "hal_sht10_get_data rnd inp type b = do {
     (e1, temp, b) \<leftarrow> hal_sht10_get_res inp TEMP b;
     (e2, hum, b) \<leftarrow> hal_sht10_get_res inp HUM b;
     if e1 + e2 \<noteq> 0 then Some (- 1, b)
     else do {
       t \<leftarrow> temp;
       h \<leftarrow> hum;
       let (h, t) = calc_sth11 rnd (of_nat (unat h)) (of_nat (unat t));
       Some (case type of TEMP \<Rightarrow> t | HUM \<Rightarrow> h, b)
     }
   }"

section \<open>mid_th.c\<close>

definition STATUS_NORMAL :: int where "STATUS_NORMAL = 0"
definition ERR_POINTER_0 :: int where "ERR_POINTER_0 = - 1"
definition ERR_TMOUT :: int where "ERR_TMOUT = - 9"

record th_data =
  temperature :: real
  humidity :: real

text \<open>
  The caller's structure is \<open>None\<close> for a null pointer.  \<open>meas ty b\<close> is the measurement, with its
  bus state; the local copy is only written back on the path that measured the humidity.
\<close>

definition mid_th_get_data ::
    "(SHT10_INFO_e \<Rightarrow> 'b \<Rightarrow> (real \<times> 'b) option) \<Rightarrow> th_data option \<Rightarrow> 'b \<Rightarrow>
     (int \<times> th_data option \<times> 'b) option" where
  "mid_th_get_data meas p b =
     (if p = None then Some (ERR_POINTER_0, p, b)
      else do {
        (t, b) \<leftarrow> meas TEMP b;
        if t < 0 then Some (ERR_TMOUT, p, b)
        else do {
          (h, b) \<leftarrow> meas HUM b;
          let err = (if h < 0 then ERR_TMOUT else STATUS_NORMAL);
          Some (err, Some \<lparr>temperature = t, humidity = h\<rparr>, b)
        }
      })"

section \<open>The wait\<close>

lemma sht10_wait_step:
  "sht10_wait inp b =
     (if inp (nsamp b)
      then sht10_wait inp \<lparr>acts = acts b @ [read_sda sht, TaskDelay 50], nsamp = Suc (nsamp b)\<rparr>
      else Some \<lparr>acts = acts b @ [read_sda sht], nsamp = Suc (nsamp b)\<rparr>)"
  by (subst sht10_wait.simps) (cases b, simp add: I2C_BUS_SDA_STATE_def emit_def)

lemma sht10_wait_reads:
  "sht10_wait inp b = Some b' \<Longrightarrow> \<exists>n\<ge>nsamp b. \<not> inp n"
proof (induction arbitrary: b' rule: sht10_wait.raw_induct [rotated 1, consumes 1])
  case (1 wait inp b b')
  show ?case
  proof (cases "inp (nsamp b)")
    case True
    with 1(2) have "wait inp (emit [TaskDelay 50] (b\<lparr>acts := acts b @ [read_sda sht], nsamp := Suc (nsamp b)\<rparr>)) = Some b'"
      by (simp add: I2C_BUS_SDA_STATE_def)
    from 1(1) [OF this] show ?thesis by (auto simp: emit_def intro: Suc_leD)
  qed blast
qed

text \<open>The actions of a wait with \<open>j\<close> polls that find the line high.\<close>

definition polls :: "nat \<Rightarrow> action list" where
  "polls j = concat (replicate j [read_sda sht, TaskDelay 50]) @ [read_sda sht]"

lemma sht10_wait_ready:
  assumes "\<not> inp (nsamp b + k)"
  shows "\<exists>j\<le>k. \<exists>as. sht10_wait inp b = Some \<lparr>acts = acts b @ as, nsamp = Suc (nsamp b + j)\<rparr> \<and>
    as = polls j \<and> (\<forall>i<j. inp (nsamp b + i)) \<and> \<not> inp (nsamp b + j)"
  using assms
proof (induction k arbitrary: b)
  case 0
  then have "sht10_wait inp b = Some \<lparr>acts = acts b @ polls 0, nsamp = Suc (nsamp b + 0)\<rparr>"
    by (simp add: sht10_wait_step [of inp b] polls_def)
  with 0 show ?case by fastforce
next
  case (Suc k)
  let ?b = "\<lparr>acts = acts b @ [read_sda sht, TaskDelay 50], nsamp = Suc (nsamp b)\<rparr>"
  show ?case
  proof (cases "inp (nsamp b)")
    case True
    then have e: "sht10_wait inp b = sht10_wait inp ?b"
      by (simp add: sht10_wait_step [of inp b])
    from Suc.IH [of ?b] Suc.prems obtain j where
      j: "j \<le> k" "sht10_wait inp ?b = Some \<lparr>acts = acts ?b @ polls j,
          nsamp = Suc (nsamp ?b + j)\<rparr>" "\<forall>i<j. inp (nsamp ?b + i)" "\<not> inp (nsamp ?b + j)" by auto
    have "\<forall>i<Suc j. inp (nsamp b + i)"
      using j(3) True by (auto simp: less_Suc_eq_0_disj)
    then show ?thesis using j(1,2,4) e
      by (intro exI [of _ "Suc j"]) (simp add: polls_def)
  next
    case False
    then have "sht10_wait inp b = Some \<lparr>acts = acts b @ polls 0, nsamp = Suc (nsamp b + 0)\<rparr>"
      by (simp add: sht10_wait_step [of inp b] polls_def)
    with False show ?thesis by fastforce
  qed
qed

text \<open>
  The wait for the sensor has no time-out, although the code after it handles one: the
  measurement returns if and only if the data line is read low at some time after the command;
  a sensor that never answers blocks the task for ever.\<close>

theorem sht10_returns_iff:
  "(\<exists>r. hal_sht10_get_res inp mode b = Some r) \<longleftrightarrow> (\<exists>n>nsamp b. \<not> inp n)"
proof -
  let ?v = "case mode of TEMP \<Rightarrow> MEASURE_TEMP | HUM \<Rightarrow> MEASURE_HUM"
  let ?b = "emit [i2c_bus_sda_dir sht False] (snd (i2c_bus_write_byte inp sht ?v (emit (i2c_bus_start sht) b)))"
  have n: "nsamp ?b = Suc (nsamp b)" by (simp add: write_byte_bus emit_def)
  have "(\<exists>r. hal_sht10_get_res inp mode b = Some r) \<longleftrightarrow> (\<exists>b'. sht10_wait inp ?b = Some b')"
    by (cases "sht10_wait inp ?b")
      (simp_all add: hal_sht10_get_res_def Let_def case_prod_beta)
  also have "\<dots> \<longleftrightarrow> (\<exists>n\<ge>nsamp ?b. \<not> inp n)"
  proof
    assume "\<exists>b'. sht10_wait inp ?b = Some b'"
    then show "\<exists>n\<ge>nsamp ?b. \<not> inp n" using sht10_wait_reads by blast
  next
    assume "\<exists>n\<ge>nsamp ?b. \<not> inp n"
    then obtain k where "\<not> inp (nsamp ?b + k)" by (metis le_add_diff_inverse)
    from sht10_wait_ready [of inp ?b k] this show "\<exists>b'. sht10_wait inp ?b = Some b'" by blast
  qed
  finally show ?thesis by (simp only: n Suc_le_eq)
qed

section \<open>The value\<close>

lemma count_polls: "count_list (polls j) (TaskDelay 50) = j"
  by (induction j) (simp_all add: polls_def read_sda_def)

lemma read_byte_bit:
  "j < 8 \<Longrightarrow> bit (fst (i2c_bus_read_byte inp c ack b)) (7 - j) \<longleftrightarrow> inp (nsamp b + j)"
  using arg_cong [OF read_byte_value [of inp c ack b], of "\<lambda>xs. xs ! j"]
  by (simp add: bits_msb_upt)

lemma hi_lo_bit:
  assumes "k < 16"
  shows "bit (push_bit 8 (ucast (hi::u8)) OR ucast (lo::u8) :: u16) (15 - k) \<longleftrightarrow>
    (if k < 8 then bit hi (7 - k) else bit lo (7 - (k - 8)))"
proof (cases "k < 8")
  case True
  then have e: "15 - k - 8 = 7 - k" "8 \<le> 15 - k" "\<not> bit lo (15 - k)"
    by (auto dest: bit_imp_le_length)
  with True show ?thesis by (auto simp: bit_or_iff bit_push_bit_iff bit_ucast_iff)
next
  case False
  then have "15 - k = 7 - (k - 8)" "\<not> 8 \<le> 15 - k" using assms by auto
  with False show ?thesis by (auto simp: bit_or_iff bit_push_bit_iff bit_ucast_iff)
qed

text \<open>
  The value of a measurement is what the sensor sends: when the command is acknowledged
  and the data line goes low after \<open>j\<close> polls and stays low for one more read, the measurement ends
  after \<open>j\<close> delays of 50 ticks without error, and bit \<open>15 - k\<close> of the value is the \<open>k\<close>-th
  level the line takes in the two bytes after that.\<close>

theorem sht10_value:
  assumes "\<not> inp (nsamp b)" "\<And>i. i < j \<Longrightarrow> inp (nsamp b + 1 + i)"
    and "\<not> inp (nsamp b + 1 + j)" "\<not> inp (nsamp b + 2 + j)"
  shows "\<exists>v b'. hal_sht10_get_res inp mode b = Some (0, Some v, b') \<and>
    (\<forall>k<16. bit v (15 - k) \<longleftrightarrow> inp (nsamp b + 3 + j + k)) \<and>
    count_list (acts b') (TaskDelay 50) \<ge> j"
proof -
  let ?v = "case mode of TEMP \<Rightarrow> MEASURE_TEMP | HUM \<Rightarrow> MEASURE_HUM"
  let ?b = "emit [i2c_bus_sda_dir sht False] (snd (i2c_bus_write_byte inp sht ?v (emit (i2c_bus_start sht) b)))"
  have n: "nsamp ?b = Suc (nsamp b)" by (simp add: write_byte_bus emit_def)
  have "\<not> inp (nsamp ?b + j)" using assms(3) n by simp
  from sht10_wait_ready [of inp ?b j] this obtain j' as where
    j': "j' \<le> j" "sht10_wait inp ?b = Some \<lparr>acts = acts ?b @ as, nsamp = Suc (nsamp ?b + j')\<rparr>"
      "as = polls j'" "\<not> inp (nsamp ?b + j')" by blast
  have jj: "j' = j" using j'(1,4) assms(2) [of j'] n by (cases "j' = j") auto
  define b0 where "b0 = \<lparr>acts = acts ?b @ as @ [read_sda sht, i2c_bus_sda_dir sht True], nsamp = nsamp b + 3 + j\<rparr>"
  define b1 where "b1 = snd (i2c_bus_read_byte inp sht False b0)"
  define b2 where "b2 = snd (i2c_bus_read_byte inp sht False b1)"
  define b3 where "b3 = snd (i2c_bus_read_byte inp sht True b2)"
  let ?hi = "fst (i2c_bus_read_byte inp sht False b0)" and ?lo = "fst (i2c_bus_read_byte inp sht False b1)"
  have a: "fst (i2c_bus_write_byte inp sht ?v (emit (i2c_bus_start sht) b)) = False"
    using assms(1) by (simp add: write_byte_bus emit_def)
  have r: "hal_sht10_get_res inp mode b = Some (0, Some (push_bit 8 (ucast ?hi) OR ucast ?lo), b3)"
    using a j'(2) assms(4) jj n
    by (simp add: hal_sht10_get_res_def Let_def case_prod_beta I2C_BUS_SDA_STATE_def emit_def
        b0_def b1_def b2_def b3_def eval_nat_numeral)
  have n0: "nsamp b0 = nsamp b + 3 + j" by (simp add: b0_def)
  have n1: "nsamp b1 = nsamp b + 3 + j + 8" by (simp add: b1_def read_byte_bus n0)
  have "bit (push_bit 8 (ucast ?hi) OR ucast ?lo :: u16) (15 - k) \<longleftrightarrow> inp (nsamp b + 3 + j + k)"
    if "k < 16" for k
  proof (cases "k < 8")
    case True
    with that read_byte_bit [of k inp sht False b0] show ?thesis by (simp add: hi_lo_bit n0)
  next
    case False
    then have "nsamp b1 + (k - 8) = nsamp b + 3 + j + k" using n1 by simp
    with False that read_byte_bit [of "k - 8" inp sht False b1] show ?thesis
      by (simp add: hi_lo_bit)
  qed
  moreover have "count_list (acts b3) (TaskDelay 50) \<ge> j"
    by (simp add: b3_def b2_def b1_def b0_def read_byte_bus j'(3) jj count_polls)
  ultimately show ?thesis using r by blast
qed

definition sample_line :: line where
  "sample_line n = (n \<in> {1, 2, 5 + 2, 5 + 15})"

theorem sht10_value_witness:
  "\<exists>v b'. hal_sht10_get_res sample_line TEMP \<lparr>acts = [], nsamp = 0\<rparr> = Some (0, Some v, b') \<and>
    (\<forall>k<16. bit v (15 - k) \<longleftrightarrow> sample_line (nsamp \<lparr>acts = [], nsamp = 0\<rparr> + 3 + 2 + k)) \<and>
    count_list (acts b') (TaskDelay 50) \<ge> 2"
proof (rule sht10_value)
  fix i :: nat
  assume "i < 2"
  then show "sample_line (nsamp \<lparr>acts = [], nsamp = 0\<rparr> + 1 + i)" by (auto simp: sample_line_def)
qed (simp_all add: sample_line_def)

section \<open>The conversions\<close>

text \<open>
  The humidity is always physical: whatever the rounding does to the polynomial, the
  value returned is between 0.1 and 100 percent, as long as 0.1 itself rounds into that range.
  In exact arithmetic the temperature is the documented line, 0.01 degree per step from -39.6.\<close>

theorem sht10_conversion:
  assumes "0.1 \<le> rnd 0.1" "rnd 0.1 \<le> 100"
  shows "0.1 \<le> fst (calc_sth11 rnd rh t) \<and> fst (calc_sth11 rnd rh t) \<le> 100 \<and>
    snd (calc_sth11 (\<lambda>x. x) rh t) = t / 100 - 39.6"
  using assms by (simp add: calc_sth11_def Let_def)

theorem sht10_conversion_witness:
  "0.1 \<le> fst (calc_sth11 (\<lambda>x. x) 1000 6500) \<and> fst (calc_sth11 (\<lambda>x. x) 1000 6500) \<le> 100 \<and>
    snd (calc_sth11 (\<lambda>x. x) 1000 6500) = 6500 / 100 - 39.6"
  by (rule sht10_conversion) simp_all

text \<open>
  Frost is reported as a time-out: the code of \<open>mid_th_get_data\<close> takes every negative
  temperature for an error, so below 0 degrees it returns \<open>ERR_TMOUT\<close> and keeps the old reading,
  however well the sensor answers.\<close>

theorem th_frost_is_timeout:
  assumes "hal_sht10_get_res inp TEMP b = Some (0, Some t, b1)"
    and "hal_sht10_get_res inp HUM b1 = Some (0, Some h, b2)" and "unat t < 3960"
  shows "mid_th_get_data (hal_sht10_get_data (\<lambda>x. x) inp) (Some d) b = Some (ERR_TMOUT, Some d, b2)"
proof -
  have "snd (calc_sth11 (\<lambda>x. x) (of_nat (unat h)) (of_nat (unat t))) < 0"
    using assms(3) by (simp add: calc_sth11_def Let_def del: of_nat_unat)
  then show ?thesis using assms(1,2)
    by (simp add: mid_th_get_data_def hal_sht10_get_data_def Let_def case_prod_beta)
qed

text \<open>A line that is always low: both values are 0.\<close>

theorem th_frost_is_timeout_witness:
  "\<exists>b2. mid_th_get_data (hal_sht10_get_data (\<lambda>x. x) (\<lambda>_. False))
     (Some \<lparr>temperature = 20, humidity = 50\<rparr>) \<lparr>acts = [], nsamp = 0\<rparr> =
     Some (ERR_TMOUT, Some \<lparr>temperature = 20, humidity = 50\<rparr>, b2)"
proof -
  have z: "\<exists>b1. hal_sht10_get_res (\<lambda>_. False) mode b = Some (0, Some 0, b1)" for mode b
  proof -
    have "fst (i2c_bus_read_byte (\<lambda>_. False) sht ack b) = 0" for ack b
    proof (rule bit_word_eqI)
      fix n assume "n < LENGTH(8)"
      then show "bit (fst (i2c_bus_read_byte (\<lambda>_. False) sht ack b)) n = bit (0::u8) n"
        using read_byte_bit [of "7 - n" "\<lambda>_. False" sht ack b] by simp
    qed
    then show ?thesis
      by (simp add: hal_sht10_get_res_def Let_def case_prod_beta sht10_wait_step
          I2C_BUS_SDA_STATE_def write_byte_bus)
  qed
  from z [of TEMP] obtain b1 where
    1: "hal_sht10_get_res (\<lambda>_. False) TEMP \<lparr>acts = [], nsamp = 0\<rparr> = Some (0, Some 0, b1)" by blast
  from z [of HUM] obtain b2 where
    2: "hal_sht10_get_res (\<lambda>_. False) HUM b1 = Some (0, Some 0, b2)" by blast
  from th_frost_is_timeout [OF 1 2] show ?thesis by auto
qed

text \<open>
  A failed humidity measurement is reported but its value is kept: the result is
  \<open>ERR_TMOUT\<close> and the caller's humidity is overwritten with -1.\<close>

theorem th_failed_humidity_copied:
  assumes "meas TEMP b = Some (t, b1)" "0 \<le> t" "meas HUM b1 = Some (- 1, b2)"
  shows "mid_th_get_data meas (Some d) b =
    Some (ERR_TMOUT, Some \<lparr>temperature = t, humidity = - 1\<rparr>, b2)"
  using assms by (simp add: mid_th_get_data_def)

theorem th_failed_humidity_copied_witness:
  "mid_th_get_data (\<lambda>ty n. Some (case ty of TEMP \<Rightarrow> 21 | HUM \<Rightarrow> - 1, Suc n))
      (Some \<lparr>temperature = 20, humidity = 50\<rparr>) 0 =
    Some (ERR_TMOUT, Some \<lparr>temperature = 21, humidity = - 1\<rparr>, 2)"
  by (rule th_failed_humidity_copied) (simp_all add: numeral_2_eq_2)

end
