(* ===== verification/Mid_Kalman.thy ===== *)
theory Mid_Kalman
  imports Complex_Main Prelude
begin

text \<open>
  The Kalman filters (\<open>mid/mid_kalman.c\<close>), of one and of two dimensions.

  As for the sensor, a \<open>float\<close> is a real number and \<open>rnd\<close> is the rounding after each
  operation.  The laws of the filter (the gain, the variance, the estimate between the old one
  and the measurement) are laws of exact arithmetic and are stated with \<open>rnd = (\<lambda>x. x)\<close>; what survives
  any monotone rounding is stated with \<open>rnd\<close>.
\<close>

section \<open>One dimension\<close>

text \<open>The fields of the structure, prefixed.\<close>

record kalman1_state =
  k_x :: real
  k_A :: real
  k_H :: real
  k_q :: real
  k_r :: real
  k_p :: real
  k_gain :: real

definition kalman1_init ::
    "(real \<Rightarrow> real) \<Rightarrow> kalman1_state \<Rightarrow> real \<Rightarrow> real \<Rightarrow> kalman1_state" where
  "kalman1_init rnd s init_x init_p =
     s\<lparr>k_x := init_x, k_p := init_p, k_A := 1, k_H := 1, k_q := rnd 0.01, k_r := rnd 0.25\<rparr>"

definition kalman1_predict :: "(real \<Rightarrow> real) \<Rightarrow> kalman1_state \<Rightarrow> kalman1_state" where
  "kalman1_predict rnd s =
     (let s = s\<lparr>k_x := rnd (k_A s * k_x s)\<rparr>
      in s\<lparr>k_p := rnd (rnd (rnd (k_A s * k_A s) * k_p s) + k_q s)\<rparr>)"

definition kalman1_measure :: "(real \<Rightarrow> real) \<Rightarrow> real \<Rightarrow> kalman1_state \<Rightarrow> kalman1_state" where
  "kalman1_measure rnd z s =
     (let s = s\<lparr>k_gain := rnd (rnd (k_p s * k_H s) / rnd (rnd (rnd (k_p s * k_H s) * k_H s) + k_r s))\<rparr>;
          s = s\<lparr>k_x := rnd (k_x s + rnd (k_gain s * rnd (z - rnd (k_H s * k_x s))))\<rparr>
      in s\<lparr>k_p := rnd (rnd (1 - rnd (k_gain s * k_H s)) * k_p s)\<rparr>)"

definition kalman1_filter ::
    "(real \<Rightarrow> real) \<Rightarrow> kalman1_state \<Rightarrow> real \<Rightarrow> real \<times> kalman1_state" where
  "kalman1_filter rnd s z_measure =
     (let s = kalman1_measure rnd z_measure (kalman1_predict rnd s) in (k_x s, s))"

lemmas kalman1_defs = kalman1_init_def kalman1_predict_def kalman1_measure_def kalman1_filter_def
  Let_def

section \<open>Two dimensions\<close>

text \<open>The fields are named after the array elements.\<close>

record kalman2_state =
  x0 :: real
  x1 :: real
  A00 :: real
  A01 :: real
  A10 :: real
  A11 :: real
  H0 :: real
  H1 :: real
  q0 :: real
  q1 :: real
  r2 :: real
  p00 :: real
  p01 :: real
  p10 :: real
  p11 :: real
  gain0 :: real
  gain1 :: real

definition kalman2_init ::
    "(real \<Rightarrow> real) \<Rightarrow> kalman2_state \<Rightarrow> real \<times> real \<Rightarrow> (real \<times> real) \<times> (real \<times> real) \<Rightarrow> kalman2_state" where
  "kalman2_init rnd s init_x init_p =
     s\<lparr>x0 := fst init_x, x1 := snd init_x,
       p00 := fst (fst init_p), p01 := snd (fst init_p),
       p10 := fst (snd init_p), p11 := snd (snd init_p),
       A00 := 1, A01 := rnd 0.1, A10 := 0, A11 := 1, H0 := 1, H1 := 0,
       q0 := rnd 0.000001, q1 := rnd 0.000001, r2 := rnd 0.000001\<rparr>"

text \<open>The assignments of the prediction, in the order of the code, each on the updated state.\<close>

definition kalman2_predict :: "(real \<Rightarrow> real) \<Rightarrow> kalman2_state \<Rightarrow> kalman2_state" where
  "kalman2_predict rnd s =
     (let s = s\<lparr>x0 := rnd (rnd (A00 s * x0 s) + rnd (A01 s * x1 s))\<rparr>;
          s = s\<lparr>x1 := rnd (rnd (A10 s * x0 s) + rnd (A11 s * x1 s))\<rparr>;
          s = s\<lparr>p00 := rnd (rnd (rnd (A00 s * p00 s) + rnd (A01 s * p10 s)) + q0 s)\<rparr>;
          s = s\<lparr>p01 := rnd (rnd (A00 s * p01 s) + rnd (A11 s * p11 s))\<rparr>;
          s = s\<lparr>p10 := rnd (rnd (A10 s * p00 s) + rnd (A01 s * p10 s))\<rparr>
      in s\<lparr>p11 := rnd (rnd (rnd (A10 s * p01 s) + rnd (A11 s * p11 s)) + q1 s)\<rparr>)"

definition kalman2_measure :: "(real \<Rightarrow> real) \<Rightarrow> real \<Rightarrow> kalman2_state \<Rightarrow> kalman2_state" where
  "kalman2_measure rnd z s =
     (let temp0 = rnd (rnd (p00 s * H0 s) + rnd (p01 s * H1 s));
          temp1 = rnd (rnd (p10 s * H0 s) + rnd (p11 s * H1 s));
          temp = rnd (rnd (r2 s + rnd (H0 s * temp0)) + rnd (H1 s * temp1));
          s = s\<lparr>gain0 := rnd (temp0 / temp)\<rparr>;
          s = s\<lparr>gain1 := rnd (temp1 / temp)\<rparr>;
          temp = rnd (rnd (H0 s * x0 s) + rnd (H1 s * x1 s));
          s = s\<lparr>x0 := rnd (x0 s + rnd (gain0 s * rnd (z - temp)))\<rparr>;
          s = s\<lparr>x1 := rnd (x1 s + rnd (gain1 s * rnd (z - temp)))\<rparr>;
          s = s\<lparr>p00 := rnd (rnd (1 - rnd (gain0 s * H0 s)) * p00 s)\<rparr>;
          s = s\<lparr>p01 := rnd (rnd (1 - rnd (gain0 s * H1 s)) * p01 s)\<rparr>;
          s = s\<lparr>p10 := rnd (rnd (1 - rnd (gain1 s * H0 s)) * p10 s)\<rparr>
      in s\<lparr>p11 := rnd (rnd (1 - rnd (gain1 s * H1 s)) * p11 s)\<rparr>)"

definition kalman2_filter ::
    "(real \<Rightarrow> real) \<Rightarrow> kalman2_state \<Rightarrow> real \<Rightarrow> real \<times> kalman2_state" where
  "kalman2_filter rnd s z_measure =
     (let s = kalman2_measure rnd z_measure (kalman2_predict rnd s) in (x0 s, s))"

lemmas kalman2_defs = kalman2_init_def kalman2_predict_def kalman2_measure_def kalman2_filter_def
  Let_def

section \<open>The one-dimensional filter in exact arithmetic\<close>

text \<open>The parameters \<open>kalman1_init\<close> sets, and a variance that is not negative.\<close>

definition kalman1_ok :: "kalman1_state \<Rightarrow> bool" where
  "kalman1_ok s \<longleftrightarrow> k_A s = 1 \<and> k_H s = 1 \<and> 0 < k_q s \<and> 0 < k_r s \<and> 0 \<le> k_p s"

lemma kalman1_predict_unit:
  assumes "k_A s = 1" "rnd 1 = 1"
  shows "kalman1_predict rnd s =
    s\<lparr>k_x := rnd (k_x s), k_p := rnd (rnd (k_p s) + k_q s)\<rparr>"
  unfolding kalman1_predict_def Let_def by (simp add: assms)

lemma kalman1_measure_unit:
  assumes "k_H s = 1"
  shows "kalman1_measure rnd z s =
    (let g = rnd (rnd (k_p s) / rnd (rnd (rnd (k_p s)) + k_r s));
         x' = rnd (k_x s + rnd (g * rnd (z - rnd (k_x s))))
     in s\<lparr>k_gain := g, k_x := x', k_p := rnd (rnd (1 - rnd g) * k_p s)\<rparr>)"
  unfolding kalman1_measure_def Let_def by (simp add: assms)

lemma kalman1_unit:
  assumes "k_A s = 1" "k_H s = 1" "rnd 1 = 1"
  shows "kalman1_filter rnd s z =
    (let pp = rnd (rnd (k_p s) + k_q s); x1 = rnd (k_x s);
         g = rnd (rnd pp / rnd (rnd (rnd pp) + k_r s));
         x' = rnd (x1 + rnd (g * rnd (z - rnd x1)))
     in (x', s\<lparr>k_x := x', k_gain := g, k_p := rnd (rnd (1 - rnd g) * pp)\<rparr>))"
proof -
  let ?s = "s\<lparr>k_x := rnd (k_x s), k_p := rnd (rnd (k_p s) + k_q s)\<rparr>"
  have "k_H ?s = 1" by (simp add: assms(2))
  note m = kalman1_measure_unit [where rnd = rnd and z = z, OF this]
  show ?thesis
    unfolding kalman1_filter_def kalman1_predict_unit [where rnd = rnd, OF assms(1,3)] m Let_def
    by (cases s) simp
qed

lemma kalman1_exact:
  assumes "kalman1_ok s"
  shows "kalman1_filter (\<lambda>a. a) s z =
    (let pp = k_p s + k_q s; g = pp / (pp + k_r s); x' = k_x s + g * (z - k_x s)
     in (x', s\<lparr>k_x := x', k_gain := g, k_p := (1 - g) * pp\<rparr>))"
proof -
  from assms have "k_A s = 1" "k_H s = 1" by (simp_all add: kalman1_ok_def)
  from kalman1_unit [where rnd = "\<lambda>a. a", OF this refl] show ?thesis by (simp only: Let_def)
qed

text \<open>
  The one-dimensional filter in exact arithmetic: the gain lies strictly between 0 and 1,
  the estimate moves from the old one towards the measurement and never past it, the variance is the
  one that minimises the error (its inverse is the sum of the inverses of the predicted and
  the measurement variance), it is smaller than both, and the parameters stay valid for ever.\<close>

theorem kalman1_correct:
  assumes "kalman1_ok s"
  shows "case kalman1_filter (\<lambda>a. a) s z of (est, s') \<Rightarrow>
    kalman1_ok s' \<and> est = k_x s' \<and> 0 < k_gain s' \<and> k_gain s' < 1 \<and>
    min (k_x s) z \<le> est \<and> est \<le> max (k_x s) z \<and>
    1 / k_p s' = 1 / (k_p s + k_q s) + 1 / k_r s \<and> k_p s' < k_r s \<and> k_p s' < k_p s + k_q s"
proof -
  define pp where "pp = k_p s + k_q s"
  define g where "g = pp / (pp + k_r s)"
  have pos: "0 < pp" "0 < k_r s" using assms by (simp_all add: kalman1_ok_def pp_def)
  then have g: "0 < g" "g < 1" by (simp_all add: g_def)
  have p': "(1 - g) * pp = pp * k_r s / (pp + k_r s)"
    using pos by (simp add: g_def field_simps)
  have inv: "1 / ((1 - g) * pp) = 1 / pp + 1 / k_r s"
    unfolding p' using pos by (simp add: field_simps)
  have lt: "(1 - g) * pp < k_r s" "(1 - g) * pp < pp" "0 < (1 - g) * pp"
    unfolding p' using pos by (simp_all add: field_simps)
  have e: "k_x s + g * (z - k_x s) = (1 - g) * k_x s + g * z" by (simp add: algebra_simps)
  have "min (k_x s) z \<le> (1 - g) * k_x s + g * z" "(1 - g) * k_x s + g * z \<le> max (k_x s) z"
  proof -
    have "(1 - g) * min (k_x s) z + g * min (k_x s) z \<le> (1 - g) * k_x s + g * z"
      using g by (intro add_mono mult_left_mono) simp_all
    then show "min (k_x s) z \<le> (1 - g) * k_x s + g * z" by (simp add: algebra_simps)
    have "(1 - g) * k_x s + g * z \<le> (1 - g) * max (k_x s) z + g * max (k_x s) z"
      using g by (intro add_mono mult_left_mono) simp_all
    then show "(1 - g) * k_x s + g * z \<le> max (k_x s) z" by (simp add: algebra_simps)
  qed
  moreover have "kalman1_filter (\<lambda>a. a) s z =
      (k_x s + g * (z - k_x s),
       s\<lparr>k_x := k_x s + g * (z - k_x s), k_gain := g, k_p := (1 - g) * pp\<rparr>)"
    unfolding kalman1_exact [OF assms] Let_def by (simp only: pp_def g_def)
  ultimately show ?thesis
    using g inv lt assms by (simp only: e) (simp add: kalman1_ok_def flip: pp_def)
qed

definition kalman1_zero :: kalman1_state where
  "kalman1_zero = \<lparr>k_x = 0, k_A = 0, k_H = 0, k_q = 0, k_r = 0, k_p = 0, k_gain = 0\<rparr>"

theorem kalman1_correct_witness:
  "case kalman1_filter (\<lambda>a. a) (kalman1_init (\<lambda>a. a) kalman1_zero 15 0.01) 20 of (est, s') \<Rightarrow>
    kalman1_ok s' \<and> 15 \<le> est \<and> est \<le> 20"
  using kalman1_correct [of "kalman1_init (\<lambda>a. a) kalman1_zero 15 0.01" 20]
  by (auto simp: kalman1_ok_def kalman1_init_def kalman1_zero_def)

section \<open>The one-dimensional filter with rounding\<close>

text \<open>
  Rounding cannot break the filter: with any monotone rounding that leaves 0, 1 and its own
  results alone, from the initialised parameters and a variance that is not negative the
  gain stays between 0 and 1 and the variance never becomes negative.\<close>

theorem kalman1_rounded:
  assumes "mono rnd" "\<And>a. rnd (rnd a) = rnd a" "rnd 0 = 0" "rnd 1 = 1"
    and "k_A s = 1" "k_H s = 1" "0 \<le> k_q s" "0 < k_r s" "0 \<le> k_p s"
  shows "case kalman1_filter rnd s z of (est, s') \<Rightarrow>
    0 \<le> k_gain s' \<and> k_gain s' \<le> 1 \<and> 0 \<le> k_p s' \<and> k_A s' = 1 \<and> k_H s' = 1 \<and> k_q s' = k_q s \<and> k_r s' = k_r s"
proof -
  have nn: "0 \<le> rnd a" if "0 \<le> a" for a using monoD [OF assms(1) that] assms(3) by simp
  have le1: "rnd a \<le> 1" if "a \<le> 1" for a using monoD [OF assms(1) that] assms(4) by simp
  define pp where "pp = rnd (rnd (k_p s) + k_q s)"
  define den where "den = rnd (pp + k_r s)"
  define g where "g = rnd (pp / den)"
  have pp: "0 \<le> pp" "rnd pp = pp" using assms by (simp_all add: pp_def nn)
  have "pp \<le> pp + k_r s" using assms(8) by simp
  from monoD [OF assms(1) this] have d: "pp \<le> den" by (simp add: den_def pp(2))
  have "pp / den \<le> 1" using pp(1) d by (cases "den = 0") (simp_all add: divide_le_eq)
  then have g: "0 \<le> g" "g \<le> 1" "rnd g = g"
    using pp(1) d assms(2) by (simp_all add: g_def nn le1)
  have "0 \<le> rnd (rnd (1 - g) * pp)" using g pp by (simp add: nn)
  moreover have "kalman1_filter rnd s z =
      (let x' = rnd (rnd (k_x s) + rnd (g * rnd (z - rnd (rnd (k_x s))))) in
       (x', s\<lparr>k_x := x', k_gain := g, k_p := rnd (rnd (1 - g) * pp)\<rparr>))"
    unfolding kalman1_unit [where rnd = rnd, OF assms(5,6,4)] Let_def
    by (simp only: flip: pp_def) (simp only: pp(2) g(3) flip: den_def g_def)
  ultimately show ?thesis using g assms(5,6) by (simp add: Let_def)
qed

theorem kalman1_rounded_witness:
  "case kalman1_filter (\<lambda>a. of_int \<lfloor>a\<rfloor>) (kalman1_zero\<lparr>k_A := 1, k_H := 1, k_q := 1, k_r := 1, k_p := 3\<rparr>) 5 of
    (est, s') \<Rightarrow> 0 \<le> k_gain s' \<and> k_gain s' \<le> 1 \<and> 0 \<le> k_p s'"
  using kalman1_rounded [of "\<lambda>a. of_int \<lfloor>a\<rfloor>" "kalman1_zero\<lparr>k_A := 1, k_H := 1, k_q := 1, k_r := 1, k_p := 3\<rparr>" 5]
  by (auto simp: kalman1_zero_def mono_def floor_mono)

section \<open>The two-dimensional filter\<close>

text \<open>The covariance the comment of the code promises, \<open>A p A\<^sup>T + q\<close>.\<close>

definition predicted_cov :: "kalman2_state \<Rightarrow> (real \<times> real) \<times> (real \<times> real)" where
  "predicted_cov s =
     (let b00 = A00 s * p00 s + A01 s * p10 s; b01 = A00 s * p01 s + A01 s * p11 s;
          b10 = A10 s * p00 s + A11 s * p10 s; b11 = A10 s * p01 s + A11 s * p11 s
      in ((b00 * A00 s + b01 * A01 s + q0 s, b00 * A10 s + b01 * A11 s),
          (b10 * A00 s + b11 * A01 s, b10 * A10 s + b11 * A11 s + q1 s)))"

definition kalman2_cov :: "kalman2_state \<Rightarrow> (real \<times> real) \<times> (real \<times> real)" where
  "kalman2_cov s = ((p00 s, p01 s), (p10 s, p11 s))"

definition kalman2_zero :: kalman2_state where
  "kalman2_zero = \<lparr>x0 = 0, x1 = 0, A00 = 0, A01 = 0, A10 = 0, A11 = 0, H0 = 0, H1 = 0, q0 = 0, q1 = 0,
     r2 = 0, p00 = 0, p01 = 0, p10 = 0, p11 = 0, gain0 = 0, gain1 = 0\<rparr>"

text \<open>
  The two-dimensional filter predicts the state right but not the covariance: in exact
  arithmetic, after \<open>kalman2_init\<close> with any state and with the unit covariance, the predicted state
  is \<open>A x\<close>, but the off-diagonal entries are 1 and 0, a matrix that is not even symmetric,
  where \<open>A p A\<^sup>T + q\<close> has 0.1 in both.\<close>

theorem kalman2_prediction:
  "let s = kalman2_init (\<lambda>a. a) kalman2_zero (a, b) ((1, 0), (0, 1)); s' = kalman2_predict (\<lambda>a. a) s in
     (x0 s', x1 s') = (a + b / 10, b) \<and>
     kalman2_cov s' = ((1 + 0.000001, 1), (0, 1 + 0.000001)) \<and>
     predicted_cov s = ((1.01 + 0.000001, 0.1), (0.1, 1 + 0.000001))"
  by (simp add: kalman2_defs kalman2_zero_def kalman2_cov_def predicted_cov_def)

end
