(* ===== verification/App_Th.thy ===== *)
theory App_Th
  imports App_Display Hal_Sht10 Mid_Kalman
begin

text \<open>
  Temperature and humidity for the tubes (\<open>app/app_th.c\<close>): the task that reads the sensor every
  two seconds into the static \<open>th_data\<close>, and the conversion of its two floats to digits.
  \<open>rnd\<close> is the rounding to single precision, as in the sensor's theory.
\<close>

section \<open>Operations\<close>

text \<open>The conversion of a float to \<open>U32\<close>; outside the range it is undefined in C.\<close>

definition float_to_u32 :: "real \<Rightarrow> u32 option" where
  "float_to_u32 a =
     (if - 1 < a \<and> a < 2 ^ 32 then Some (of_int (if a < 0 then 0 else \<lfloor>a\<rfloor>)) else None)"

record th_state =
  th_data :: th_data
  temp_state :: kalman1_state

definition app_th_init :: "(real \<Rightarrow> real) \<Rightarrow> th_state \<Rightarrow> th_state" where
  "app_th_init rnd s = s\<lparr>temp_state := kalman1_init rnd (temp_state s) 15 (rnd 0.01)\<rparr>"

text \<open>One round of \<open>app_th_task\<close> after its delay: the new readings and whether the error message
  is printed.\<close>

definition app_th_iter ::
    "(SHT10_INFO_e \<Rightarrow> 'b \<Rightarrow> (real \<times> 'b) option) \<Rightarrow> th_state \<Rightarrow> 'b \<Rightarrow> (th_state \<times> bool \<times> 'b) option" where
  "app_th_iter meas s b = do {
     (err, p, b) \<leftarrow> mid_th_get_data meas (Some (th_data s)) b;
     d \<leftarrow> p;
     Some (s\<lparr>th_data := d\<rparr>, err \<noteq> STATUS_NORMAL, b)
   }"

definition th_info :: "(real \<Rightarrow> real) \<Rightarrow> th_data \<Rightarrow> u8 list option" where
  "th_info rnd d = do {
     t \<leftarrow> float_to_u32 (rnd (temperature d * 10));
     h \<leftarrow> float_to_u32 (humidity d);
     Some [ucast (t div 100), ucast (t mod 100 div 10), ucast (t mod 10), 0,
           ucast (h div 10), ucast (h mod 10), 0x11]
   }"

definition app_th_refresh_display ::
    "(real \<Rightarrow> real) \<Rightarrow> th_data \<Rightarrow> display \<Rightarrow> (display \<times> action list) option" where
  "app_th_refresh_display rnd d dp =
     map_option (\<lambda>info. app_display_show_info info dp) (th_info rnd d)"

definition app_th_get_data :: "th_data \<Rightarrow> SHT10_INFO_e \<Rightarrow> real" where
  "app_th_get_data d element = (case element of TEMP \<Rightarrow> temperature d | HUM \<Rightarrow> humidity d)"

section \<open>Digits\<close>

lemma float_to_u32_nat:
  assumes "real n \<le> a" "a < real n + 1" "n < 2 ^ 32"
  shows "float_to_u32 a = Some (of_nat n)"
proof -
  have "\<lfloor>a\<rfloor> = int n" using assms(1,2) by (intro floor_unique) auto
  moreover have "real (Suc n) \<le> real (2 ^ 32)"
    using assms(3) by (simp only: of_nat_le_iff Suc_le_eq)
  then have "a < 2 ^ 32" using assms(2) by simp
  ultimately show ?thesis using assms(1) by (simp add: float_to_u32_def)
qed

lemma digit_word:
  assumes "n < 1000"
  shows "ucast (of_nat n div 100 :: u32) = (of_nat (n div 100) :: u8)"
    "ucast (of_nat n mod 100 div 10 :: u32) = (of_nat (n mod 100 div 10) :: u8)"
    "ucast (of_nat n mod 10 :: u32) = (of_nat (n mod 10) :: u8)"
    "ucast (of_nat n div 10 :: u32) = (of_nat (n div 10) :: u8)"
  using assms by (simp_all add: word_unat_eq_iff unsigned_ucast_eq unat_div unat_mod unat_of_nat
      take_bit_eq_mod)

text \<open>
  The six tubes show the readings: from 0 up to 100 degrees and percent (exclusive), when
  \<open>t10\<close> is the temperature in tenths as the float computes it and \<open>h\<close> the whole percent, the
  digits handed to the display are the three digits of \<open>t10\<close>, a 0, and the two digits of \<open>h\<close>;
  every one of them is a decimal digit, so the display shows them.\<close>

theorem th_digits:
  assumes "real t10 \<le> rnd (temperature d * 10)" "rnd (temperature d * 10) < real t10 + 1"
    and "real h \<le> humidity d" "humidity d < real h + 1" and "t10 < 1000" "h < 100"
  shows "\<exists>info. th_info rnd d = Some info \<and>
    map unat info = [t10 div 100, t10 mod 100 div 10, t10 mod 10, 0, h div 10, h mod 10, 0x11] \<and>
    (\<forall>k<6. info ! k \<le> 9)"
proof -
  have "float_to_u32 (rnd (temperature d * 10)) = Some (of_nat t10)"
    "float_to_u32 (humidity d) = Some (of_nat h)"
    using assms by (auto intro!: float_to_u32_nat)
  then have "th_info rnd d = Some [of_nat (t10 div 100), of_nat (t10 mod 100 div 10),
      of_nat (t10 mod 10), 0, of_nat (h div 10), of_nat (h mod 10), 0x11]"
    using assms(5,6) by (simp add: th_info_def digit_word)
  moreover have b: "t10 div 100 < 10" "t10 mod 100 div 10 < 10" "t10 mod 10 < 10" "h div 10 < 10" "h mod 10 < 10"
    using assms(5,6) by auto
  ultimately show ?thesis
    by (auto simp: unat_of_nat word_le_nat_alt nth_Cons split: nat.split)
qed

theorem th_digits_witness:
  "\<exists>info. th_info (\<lambda>a. a) \<lparr>temperature = 25.37, humidity = 61.9\<rparr> = Some info \<and>
    map unat info = [253 div 100, 253 mod 100 div 10, 253 mod 10, 0, 61 div 10, 61 mod 10, 0x11] \<and>
    (\<forall>k<6. info ! k \<le> 9)"
  by (rule th_digits) simp_all

text \<open>
  At a humidity of 100 percent, which the sensor's driver returns for saturated air, the
  digits are not decimal: the fifth is 10, and the map of the tubes blanks a digit of the temperature
  and lights a second cathode.\<close>

theorem th_saturated:
  "\<exists>info. th_info (\<lambda>a. a) \<lparr>temperature = 25.3, humidity = 100\<rparr> = Some info \<and>
     info = [2, 5, 3, 0, 10, 0, 0x11] \<and>
     app_display_calc_map info \<noteq> app_display_calc_map [2, 5, 3, 0, 0, 0, 0x11]"
proof -
  have "float_to_u32 253 = Some 253" "float_to_u32 100 = Some 100"
    using float_to_u32_nat [of 253 253] float_to_u32_nat [of 100 100] by simp_all
  then have "th_info (\<lambda>a. a) \<lparr>temperature = 25.3, humidity = 100\<rparr> = Some [2, 5, 3, 0, 10, 0, 0x11]"
    by (simp add: th_info_def)
  moreover have "app_display_calc_map [2, 5, 3, 0, 10, 0, 0x11] \<noteq> app_display_calc_map [2, 5, 3, 0, 0, 0, 0x11]"
    by code_simp
  ultimately show ?thesis by blast
qed

text \<open>
  After a failed humidity measurement the display code converts -1 to an unsigned number,
  which C leaves undefined: the task keeps the reading of \<open>mid_th_get_data\<close> although it reports the
  error.\<close>

theorem th_failed_reading_displayed:
  assumes "meas TEMP b = Some (t, b1)" "0 \<le> t" "meas HUM b1 = Some (- 1, b2)"
  shows "\<exists>s'. app_th_iter meas s b = Some (s', True, b2) \<and>
    app_th_refresh_display rnd (th_data s') dp = None"
  using assms
  by (simp add: app_th_iter_def mid_th_get_data_def app_th_refresh_display_def th_info_def
      float_to_u32_def STATUS_NORMAL_def ERR_TMOUT_def bind_eq_None_conv)

theorem th_failed_reading_displayed_witness:
  "\<exists>s'. app_th_iter (\<lambda>ty n. Some (case ty of TEMP \<Rightarrow> 21 | HUM \<Rightarrow> - 1, Suc n))
      \<lparr>th_data = \<lparr>temperature = 20, humidity = 50\<rparr>, temp_state = kalman1_zero\<rparr> 0 = Some (s', True, 2) \<and>
    app_th_refresh_display (\<lambda>a. a) (th_data s') display_init = None"
  by (rule th_failed_reading_displayed [where t = 21]) (simp_all add: numeral_2_eq_2)

end
