(* ===== verification/App_Time.thy ===== *)
theory App_Time
  imports Kernel_List Rtc App_Buz App_Data App_Th
begin

text \<open>
  The clock's timed events (\<open>app/app_time.c\<close>, \<open>app/app_time.h\<close>) on the kernel's list, and the
  refresh of the display twice a second.

  The static \<open>events\<close> is the record \<open>time_mod\<close>: the list \<open>events.list\<close> is list 0 of the list
  memory, \<open>events.items[i]\<close> is \<open>Item i\<close>, and the owner of an item is the index of its
  \<open>event_info\<close>.  An owner that was never set is a null pointer, and on this processor reading
  through it reads the vector table: \<open>mem0\<close> is the \<open>event_info\<close> found at address 0, a parameter.
  The handlers that fire are returned in the order in which the code calls them.
\<close>

section \<open>State\<close>

datatype handler = NoFunction | IntegerBeep | DisplayOn | DisplayOff | Foreign nat

record event_info =
  event_time :: rtc_time
  handler_fn :: handler

definition ITEMS_MAX :: u8 where [prog_defs]: "ITEMS_MAX = 20"

definition TIME_EVENT_INTEGER_BEEP :: u8 where [prog_defs]: "TIME_EVENT_INTEGER_BEEP = 0"
definition TIME_EVENT_DISPLAY_TIME :: u8 where [prog_defs]: "TIME_EVENT_DISPLAY_TIME = 1"
definition TIME_EVENT_DISPLAY_ON1 :: u8 where [prog_defs]: "TIME_EVENT_DISPLAY_ON1 = 2"
definition TIME_EVENT_DISPLAY_OFF1 :: u8 where [prog_defs]: "TIME_EVENT_DISPLAY_OFF1 = 3"
definition TIME_EVENT_DISPLAY_ON2 :: u8 where [prog_defs]: "TIME_EVENT_DISPLAY_ON2 = 4"
definition TIME_EVENT_DISPLAY_OFF2 :: u8 where [prog_defs]: "TIME_EVENT_DISPLAY_OFF2 = 5"

record time_mod =
  ontime :: u16
  offtime :: u16
  ev_mem :: list_mem
  valid_num :: u8
  infos :: "event_info list"

text \<open>The statics at start-up are zero.\<close>

definition zero_time :: rtc_time where
  "zero_time = \<lparr>sec = 0, min' = 0, hour = 0, wday = 0, mday = 0, mon = 0, year = 0, am_pm = 0, h12 = 0\<rparr>"

definition zero_mem :: list_mem where
  "zero_mem = \<lparr>xItemValue = (\<lambda>_. 0), pxNext = (\<lambda>_. None), pxPrevious = (\<lambda>_. None),
     pvOwner = (\<lambda>_. None), pvContainer = (\<lambda>_. None), uxNumberOfItems = (\<lambda>_. 0), pxIndex = (\<lambda>_. None)\<rparr>"

definition time_bss :: time_mod where
  "time_bss = \<lparr>ontime = 0, offtime = 0, ev_mem = zero_mem, valid_num = 0,
     infos = replicate 20 \<lparr>event_time = zero_time, handler_fn = NoFunction\<rparr>\<rparr>"

section \<open>Operations\<close>

definition app_time_get_event :: "u8 \<Rightarrow> nat option" where
  "app_time_get_event index = (if index \<ge> ITEMS_MAX then None else Some (unat index))"

definition set_hour_min :: "u8 \<Rightarrow> u8 \<Rightarrow> event_info \<Rightarrow> event_info" where
  "set_hour_min h m e = e\<lparr>event_time := (event_time e)\<lparr>hour := h, min' := m\<rparr>\<rparr>"

definition app_time_set_showtime :: "u16 \<Rightarrow> u16 \<Rightarrow> time_mod \<Rightarrow> data_map \<Rightarrow> (time_mod \<times> data_map) option" where
  "app_time_set_showtime on off t d = do {
     t \<leftarrow> Some (t\<lparr>ontime := on, offtime := off\<rparr>);
     d \<leftarrow> Some (app_data_write_showtime (ontime t) (offtime t) d);
     origin \<leftarrow> app_time_get_event TIME_EVENT_DISPLAY_ON1;
     e \<leftarrow> get (infos t) origin;
     t \<leftarrow> Some (t\<lparr>infos := (infos t)[origin :=
       set_hour_min (ucast (ontime t div 100)) (ucast (ontime t mod 100)) e]\<rparr>);
     origin \<leftarrow> app_time_get_event TIME_EVENT_DISPLAY_OFF1;
     e \<leftarrow> get (infos t) origin;
     t \<leftarrow> Some (t\<lparr>infos := (infos t)[origin :=
       set_hour_min (ucast (offtime t div 100)) (ucast (offtime t mod 100)) e]\<rparr>);
     Some (t, d)
   }"

definition app_time_get_showtime :: "time_mod \<Rightarrow> u16 \<times> u16" where
  "app_time_get_showtime t = (ontime t, offtime t)"

definition app_time_init_event ::
    "u8 \<Rightarrow> u8 \<Rightarrow> u8 \<Rightarrow> u8 \<Rightarrow> u8 \<Rightarrow> u8 \<Rightarrow> u8 \<Rightarrow> handler \<Rightarrow> time_mod \<Rightarrow> u8 \<times> time_mod" where
  "app_time_init_event index yr mo md h mi s f t =
     (if valid_num t \<ge> ITEMS_MAX then (0xFF, t)
      else if index \<ge> ITEMS_MAX then (index, t)
      else
       let i = unat index;
           e = infos t ! i;
           e = e\<lparr>event_time := (event_time e)\<lparr>year := yr, mon := mo, mday := md, hour := h, min' := mi, sec := s\<rparr>,
                 handler_fn := f\<rparr>;
           m = vListInitialiseItem i (ev_mem t);
           m = set_value (Item i) portMAX_DELAY (set_owner i i m)
       in (index, t\<lparr>ev_mem := m, infos := (infos t)[i := e], valid_num := valid_num t + 1\<rparr>))"

definition app_time_insert_event :: "u8 \<Rightarrow> time_mod \<Rightarrow> time_mod option" where
  "app_time_insert_event number t =
     (if number \<ge> ITEMS_MAX then Some t
      else if listIS_CONTAINED_WITHIN 0 (unat number) (ev_mem t) then Some t
      else do { m \<leftarrow> vListInsert 0 (unat number) (ev_mem t); Some (t\<lparr>ev_mem := m\<rparr>) })"

definition app_time_remove_event :: "u8 \<Rightarrow> time_mod \<Rightarrow> time_mod option" where
  "app_time_remove_event number t =
     (if number \<ge> ITEMS_MAX then Some t
      else if \<not> listIS_CONTAINED_WITHIN 0 (unat number) (ev_mem t) then Some t
      else do { (n, m) \<leftarrow> uxListRemove (unat number) (ev_mem t); Some (t\<lparr>ev_mem := m\<rparr>) })"

text \<open>The six \<open>no_match_condition\<close> of the loop.\<close>

definition field_match :: "u8 \<Rightarrow> u8 \<Rightarrow> bool" where
  "field_match val1 val2 \<longleftrightarrow> \<not> (val1 \<noteq> val2 \<and> val1 \<noteq> 0xFF)"

definition event_match :: "rtc_time \<Rightarrow> rtc_time \<Rightarrow> bool" where
  "event_match e tm \<longleftrightarrow>
     field_match (sec e) (sec tm) \<and> field_match (min' e) (min' tm) \<and> field_match (hour e) (hour tm) \<and>
     field_match (mday e) (mday tm) \<and> field_match (mon e) (mon tm) \<and> field_match (year e) (year tm)"

text \<open>One round of the loop of \<open>events_triger_check\<close>: the item it moves to, its \<open>event_info\<close>, and
  the call.  The owner of the end marker is outside the list structure.\<close>

definition check_step ::
    "event_info \<Rightarrow> rtc_time \<Rightarrow> time_mod \<Rightarrow> nat \<Rightarrow> node option \<times> handler list \<Rightarrow>
     (node option \<times> handler list) option" where
  "check_step mem0 tm t index st = do {
     p \<leftarrow> (if index = 0 then listGET_HEAD_ENTRY 0 (ev_mem t)
          else do { q \<leftarrow> fst st; listGET_NEXT q (ev_mem t) });
     data \<leftarrow> (case p of ListEnd _ \<Rightarrow> None
             | Item _ \<Rightarrow> (case listGET_LIST_ITEM_OWNER p (ev_mem t) of
                 None \<Rightarrow> Some mem0 | Some i \<Rightarrow> get (infos t) i));
     Some (Some p, if event_match (event_time data) tm then snd st @ [handler_fn data] else snd st)
   }"

definition events_triger_check :: "event_info \<Rightarrow> rtc_time \<Rightarrow> time_mod \<Rightarrow> handler list option" where
  "events_triger_check mem0 tm t =
     (if listLIST_IS_EMPTY 0 (ev_mem t) then Some []
      else map_option snd (fold_opt (check_step mem0 tm t) [0..<unat (valid_num t)] (None, [])))"

definition integer_time_beep :: "rtc_time \<Rightarrow> buzzer \<Rightarrow> buzzer" where
  "integer_time_beep tm b =
     (if hour tm > 12 then app_buzzer_set_times (hour tm - 12) b
      else if hour tm > 8 then app_buzzer_set_times (hour tm) b
      else b)"

text \<open>\<open>data->functions(tm)\<close> on the buzzer and the display.\<close>

definition call_handler ::
    "rtc_time \<Rightarrow> handler \<Rightarrow> buzzer \<times> display \<times> action list \<Rightarrow> (buzzer \<times> display \<times> action list) option" where
  "call_handler tm h st = (case st of (b, d, as) \<Rightarrow>
     (case h of
        IntegerBeep \<Rightarrow> Some (integer_time_beep tm b, d, as)
      | DisplayOn \<Rightarrow> (let (d, bs) = app_display_on d in Some (b, d, as @ bs))
      | DisplayOff \<Rightarrow> (let (d, bs) = app_display_off d in Some (b, d, as @ bs))
      | NoFunction \<Rightarrow> None
      | Foreign _ \<Rightarrow> None))"

definition time_info :: "rtc_time \<Rightarrow> u8 \<Rightarrow> u8 list" where
  "time_info tm points =
     [hour tm div 10, hour tm mod 10, min' tm div 10, min' tm mod 10, sec tm div 10, sec tm mod 10, points]"

definition refresh_time_every_500ms ::
    "(real \<Rightarrow> real) \<Rightarrow> rtc_time \<Rightarrow> th_data \<Rightarrow> u8 \<Rightarrow> display \<Rightarrow> (u8 \<times> display \<times> action list) option" where
  "refresh_time_every_500ms rnd time th r d =
     (if sec time > 15 \<and> sec time \<le> 20 \<or> sec time > 35 \<and> sec time \<le> 40 \<or> sec time > 55 \<and> sec time \<le> 59
      then map_option (\<lambda>(d, as). (r, d, as)) (app_th_refresh_display rnd th d)
      else
       let r' = (if r = 0 then 1 else 0); points = (if r = 0 then 0x33 else 0);
           (d, as) = app_display_show_info (time_info time points) d
       in Some (r', d, as))"

text \<open>\<open>app_time_task\<close> up to its loop, after \<open>mid_rtc_init\<close>; the calls nest in their order.\<close>

definition app_time_task_events :: "data_map \<Rightarrow> time_mod \<Rightarrow> time_mod" where
  "app_time_task_events d t =
     (case app_data_read_showtime d of (on, off) \<Rightarrow>
       snd (app_time_init_event TIME_EVENT_DISPLAY_OFF2 0xFF 0xFF 0xFF 8 40 0 DisplayOff
       (snd (app_time_init_event TIME_EVENT_DISPLAY_ON2 0xFF 0xFF 0xFF 7 0 0 DisplayOn
       (snd (app_time_init_event TIME_EVENT_DISPLAY_OFF1 0xFF 0xFF 0xFF
               (ucast (off div 100)) (ucast (off mod 100)) 0 DisplayOff
       (snd (app_time_init_event TIME_EVENT_DISPLAY_ON1 0xFF 0xFF 0xFF
               (ucast (on div 100)) (ucast (on mod 100)) 0 DisplayOn
       (snd (app_time_init_event TIME_EVENT_INTEGER_BEEP 0xFF 0xFF 0xFF 0xFF 0 0 IntegerBeep
       (t\<lparr>ev_mem := vListInitialise 0 (ev_mem t), ontime := on, offtime := off\<rparr>)))))))))))"

definition app_time_task_init :: "data_map \<Rightarrow> time_mod \<Rightarrow> time_mod option" where
  "app_time_task_init d t =
     fold_opt app_time_insert_event
       [TIME_EVENT_DISPLAY_ON1, TIME_EVENT_DISPLAY_TIME, TIME_EVENT_INTEGER_BEEP,
        TIME_EVENT_DISPLAY_OFF1, TIME_EVENT_DISPLAY_ON2, TIME_EVENT_DISPLAY_OFF2]
       (app_time_task_events d t)"

text \<open>One round of the loop of \<open>app_time_task\<close>: \<open>woken\<close> tells whether the semaphore was taken.\<close>

definition app_time_task_iter ::
    "(real \<Rightarrow> real) \<Rightarrow> event_info \<Rightarrow> 'd rd \<Rightarrow> 'd wr \<Rightarrow> bool \<Rightarrow> time_mod \<Rightarrow> th_data \<Rightarrow> u8 \<Rightarrow>
     'd \<times> buzzer \<times> display \<Rightarrow> (u8 \<times> 'd \<times> buzzer \<times> display \<times> action list) option" where
  "app_time_task_iter rnd mem0 rd wr woken t th r st = (case st of (dev, b, d) \<Rightarrow> do {
     (dev, b, d, as) \<leftarrow>
       (if woken then do {
          tm \<leftarrow> Some (mid_rtc_get_time rd dev);
          dev \<leftarrow> Some (mid_rtc_de_irq rd wr dev);
          hs \<leftarrow> events_triger_check mem0 tm t;
          (b, d, as) \<leftarrow> fold_opt (call_handler tm) hs (b, d, []);
          Some (dev, b, d, as)
        } else Some (dev, b, d, []));
     (r, d, bs) \<leftarrow> refresh_time_every_500ms rnd (mid_rtc_get_time rd dev) th r d;
     Some (r, dev, b, d, as @ bs)
   })"

section \<open>The check visits the first \<open>valid_num\<close> items\<close>

definition owner_info :: "event_info \<Rightarrow> time_mod \<Rightarrow> nat \<Rightarrow> event_info" where
  "owner_info mem0 t i =
     (case pvOwner (ev_mem t) (Item i) of None \<Rightarrow> mem0 | Some k \<Rightarrow> infos t ! k)"

definition firing :: "event_info \<Rightarrow> rtc_time \<Rightarrow> time_mod \<Rightarrow> nat list \<Rightarrow> handler list" where
  "firing mem0 tm t xs =
     map handler_fn (filter (\<lambda>e. event_match (event_time e) tm) (map (owner_info mem0 t) xs))"

lemma firing_simps [simp]:
  "firing mem0 tm t [] = []"
  "firing mem0 tm t (xs @ ys) = firing mem0 tm t xs @ firing mem0 tm t ys"
  by (simp_all add: firing_def)

text \<open>The state of the events: a well-formed list of items, all other items unlisted, and
  owners inside the table.\<close>

definition events_ok :: "time_mod \<Rightarrow> nat list \<Rightarrow> bool" where
  "events_ok t xs \<longleftrightarrow>
     list_repr (ev_mem t) 0 xs \<and> (\<forall>i. i \<notin> set xs \<longrightarrow> unlisted (ev_mem t) i) \<and> set xs \<subseteq> {..<20} \<and>
     length (infos t) = 20 \<and> (\<forall>i k. pvOwner (ev_mem t) (Item i) = Some k \<longrightarrow> k < 20)"

lemma list_repr_next:
  assumes "list_repr m l xs" "k < length xs"
  shows "(if k = 0 then listGET_HEAD_ENTRY l m else listGET_NEXT (Item (xs ! (k - 1))) m) = Some (Item (xs ! k))"
proof -
  have "list_repr m l (take k xs @ drop k xs)" using assms(1) by simp
  from list_repr_links(1) [OF this] have
    *: "pxNext m (last (ListEnd l # map Item (take k xs))) = Some (Item (xs ! k))"
    using assms(2) by (simp add: hd_append hd_drop_conv_nth hd_map del: last.simps)
  show ?thesis
  proof (cases k)
    case 0
    with * show ?thesis by (simp add: listGET_HEAD_ENTRY_def)
  next
    case (Suc j)
    with assms(2) have "last (ListEnd l # map Item (take k xs)) = Item (xs ! j)"
      by (simp add: take_Suc_conv_app_nth)
    with * Suc show ?thesis by (simp add: listGET_NEXT_def)
  qed
qed

lemma check_step_visit:
  assumes ok: "events_ok t xs" and k: "k < length xs"
    and st: "fst st = (if k = 0 then None else Some (Item (xs ! (k - 1))))"
  shows "check_step mem0 tm t k st =
    Some (Some (Item (xs ! k)), snd st @ firing mem0 tm t [xs ! k])"
proof -
  have n: "(if k = 0 then listGET_HEAD_ENTRY 0 (ev_mem t)
      else do { q \<leftarrow> fst st; listGET_NEXT q (ev_mem t) }) = Some (Item (xs ! k))"
    using list_repr_next [of "ev_mem t" 0 xs k] ok k st by (auto simp: events_ok_def)
  have d: "(case listGET_LIST_ITEM_OWNER (Item (xs ! k)) (ev_mem t) of
      None \<Rightarrow> Some mem0 | Some i \<Rightarrow> get (infos t) i) = Some (owner_info mem0 t (xs ! k))"
    using ok by (auto simp: events_ok_def listGET_LIST_ITEM_OWNER_def owner_info_def get_def
        split: option.splits)
  show ?thesis unfolding check_step_def n by (simp add: d firing_def)
qed

lemma check_visits:
  assumes ok: "events_ok t xs" and n: "unat (valid_num t) \<le> length xs"
  shows "events_triger_check mem0 tm t = Some (firing mem0 tm t (take (unat (valid_num t)) xs))"
proof (cases "xs = []")
  case True
  then show ?thesis using ok
    by (simp add: events_triger_check_def listLIST_IS_EMPTY_def events_ok_def list_repr_def)
next
  case False
  have len: "length xs \<le> 20"
  proof -
    have "distinct xs" "set xs \<subseteq> {..<20}" using ok by (simp_all add: events_ok_def list_repr_def)
    from card_mono [OF finite_lessThan this(2)] distinct_card [OF this(1)] show ?thesis by simp
  qed
  have "uxNumberOfItems (ev_mem t) 0 = of_nat (length xs)"
    using ok by (simp add: events_ok_def list_repr_def)
  then have "\<not> listLIST_IS_EMPTY 0 (ev_mem t)"
    using False len by (simp add: listLIST_IS_EMPTY_def word_unat_eq_iff unat_of_nat)
  moreover
  let ?P = "\<lambda>k st. st = (if k = 0 then None else Some (Item (xs ! (k - 1))), firing mem0 tm t (take k xs))"
  have "\<exists>st. fold_opt (check_step mem0 tm t) [0..<unat (valid_num t)] (None, []) = Some st \<and>
      ?P (unat (valid_num t)) st"
  proof (rule fold_opt_upt [where P = ?P])
    fix k st
    assume k: "k < unat (valid_num t)" and st: "?P k st"
    then have "check_step mem0 tm t k st = Some (Some (Item (xs ! k)), snd st @ firing mem0 tm t [xs ! k])"
      using n by (intro check_step_visit [OF ok]) simp_all
    then show "\<exists>st'. check_step mem0 tm t k st = Some st' \<and> ?P (Suc k) st'"
      using k n st by (simp add: take_Suc_conv_app_nth)
  qed simp
  ultimately show ?thesis by (auto simp: events_triger_check_def)
qed

section \<open>Inserting and removing events\<close>

lemma insert_event_new:
  assumes ok: "events_ok t xs" and n: "number < ITEMS_MAX" "unat number \<notin> set xs"
  shows "\<exists>m. app_time_insert_event number t = Some (t\<lparr>ev_mem := m\<rparr>) \<and>
    events_ok (t\<lparr>ev_mem := m\<rparr>) (ins_by (item_key (ev_mem t)) (unat number) xs) \<and>
    item_key m = item_key (ev_mem t) \<and> pvOwner m = pvOwner (ev_mem t)"
proof -
  let ?i = "unat number"
  have r: "list_repr (ev_mem t) 0 xs" using ok by (simp add: events_ok_def)
  have c: "pvContainer (ev_mem t) (Item ?i) = None"
    using ok n(2) by (simp add: events_ok_def unlisted_def)
  have i: "?i < 20" using n(1) by (simp add: ITEMS_MAX_def word_less_nat_alt)
  from vListInsert_refines [OF r c] obtain m where
    m: "vListInsert 0 ?i (ev_mem t) = Some m"
      "list_repr m 0 (ins_by (item_key (ev_mem t)) ?i xs)"
      "list_frame 0 (insert ?i (set xs)) (ev_mem t) m" by blast
  have "unlisted m j" if "j \<notin> insert ?i (set xs)" for j
    using that ok m(3) by (simp add: events_ok_def unlisted_def list_frame_def)
  moreover have "pvOwner m = pvOwner (ev_mem t)" using m(3) by (simp add: list_frame_def)
  ultimately have "events_ok (t\<lparr>ev_mem := m\<rparr>) (ins_by (item_key (ev_mem t)) ?i xs)"
    using ok m(2) i by (simp add: events_ok_def)
  moreover have "app_time_insert_event number t = Some (t\<lparr>ev_mem := m\<rparr>)"
    using m(1) n(1) c by (simp add: app_time_insert_event_def listIS_CONTAINED_WITHIN_def flip: not_le)
  ultimately show ?thesis using list_frame_keys [OF m(3)] \<open>pvOwner m = _\<close> by blast
qed

lemma insert_event_again:
  "events_ok t xs \<Longrightarrow> unat number \<in> set xs \<Longrightarrow> app_time_insert_event number t = Some t"
  using list_repr_container [of "ev_mem t" 0 xs "unat number"]
  by (simp add: app_time_insert_event_def listIS_CONTAINED_WITHIN_def events_ok_def)

lemma remove_event:
  assumes ok: "events_ok t xs" and n: "number < ITEMS_MAX" "unat number \<in> set xs"
  shows "\<exists>m. app_time_remove_event number t = Some (t\<lparr>ev_mem := m\<rparr>) \<and>
    events_ok (t\<lparr>ev_mem := m\<rparr>) (remove1 (unat number) xs)"
proof -
  let ?i = "unat number"
  from n(2) obtain as bs where xs: "xs = as @ ?i # bs" "?i \<notin> set as" by (meson split_list_first)
  have r: "list_repr (ev_mem t) 0 (as @ ?i # bs)" using ok xs by (simp add: events_ok_def)
  from uxListRemove_refines [OF r] obtain c m where
    m: "uxListRemove ?i (ev_mem t) = Some (c, m)" "list_repr m 0 (as @ bs)"
      "list_frame 0 (insert ?i (set (as @ bs))) (ev_mem t) m" "pvContainer m (Item ?i) = None" by blast
  have "unlisted m j" if "j \<notin> set (as @ bs)" for j
    using that ok m(3,4) xs by (cases "j = ?i") (simp_all add: events_ok_def unlisted_def list_frame_def)
  moreover have "pvOwner m = pvOwner (ev_mem t)" using m(3) by (simp add: list_frame_def)
  ultimately have "events_ok (t\<lparr>ev_mem := m\<rparr>) (as @ bs)"
    using ok m(2) xs by (auto simp: events_ok_def)
  moreover have e: "remove1 ?i xs = as @ bs" using xs by (simp add: remove1_append)
  moreover have "listIS_CONTAINED_WITHIN 0 ?i (ev_mem t)"
    using list_repr_container [OF r] by (simp add: listIS_CONTAINED_WITHIN_def)
  then have "app_time_remove_event number t = Some (t\<lparr>ev_mem := m\<rparr>)"
    using m(1) n(1) by (simp add: app_time_remove_event_def flip: not_le)
  ultimately show ?thesis by metis
qed

lemma remove_event_absent:
  "events_ok t xs \<Longrightarrow> unat number \<notin> set xs \<Longrightarrow> app_time_remove_event number t = Some t"
  using list_repr_container [of "ev_mem t" 0 xs "unat number"]
  by (simp add: app_time_remove_event_def listIS_CONTAINED_WITHIN_def events_ok_def)

section \<open>The events of the program\<close>

definition wild :: "u8 \<Rightarrow> u8 \<Rightarrow> handler \<Rightarrow> event_info" where
  "wild h m f = \<lparr>event_time = \<lparr>sec = 0, min' = m, hour = h, wday = 0, mday = 0xFF, mon = 0xFF,
     year = 0xFF, am_pm = 0, h12 = 0\<rparr>, handler_fn = f\<rparr>"

definition zero_info :: event_info where
  "zero_info = \<lparr>event_time = zero_time, handler_fn = NoFunction\<rparr>"

definition event_table :: "u16 \<Rightarrow> u16 \<Rightarrow> event_info list" where
  "event_table on off =
     [wild 0xFF 0 IntegerBeep, zero_info,
      wild (ucast (on div 100)) (ucast (on mod 100)) DisplayOn,
      wild (ucast (off div 100)) (ucast (off mod 100)) DisplayOff,
      wild 7 0 DisplayOn, wild 8 40 DisplayOff] @ replicate 14 zero_info"

lemma init_event_step:
  assumes "valid_num t < 20" "index < 20"
  shows "snd (app_time_init_event index yr mo md h mi s f t) =
    t\<lparr>ev_mem := set_value (Item (unat index)) portMAX_DELAY
        (set_owner (unat index) (unat index) (vListInitialiseItem (unat index) (ev_mem t))),
      infos := (infos t)[unat index := (infos t ! unat index)
        \<lparr>event_time := event_time (infos t ! unat index)
           \<lparr>year := yr, mon := mo, mday := md, hour := h, min' := mi, sec := s\<rparr>, handler_fn := f\<rparr>],
      valid_num := valid_num t + 1\<rparr>"
  using assms by (simp add: app_time_init_event_def Let_def ITEMS_MAX_def flip: not_less)

lemma start_state:
  "app_time_task_events d time_bss =
     \<lparr>ontime = showon d, offtime = showoff d,
      ev_mem = fold (\<lambda>i m. set_value (Item i) portMAX_DELAY (set_owner i i (vListInitialiseItem i m)))
        [0, 2, 3, 4, 5] (vListInitialise 0 zero_mem),
      valid_num = 5, infos = event_table (showon d) (showoff d)\<rparr>"
  unfolding app_time_task_events_def app_data_read_showtime_def time_bss_def prog_defs
    event_table_def wild_def zero_info_def [symmetric] prod.case
  by (simp add: init_event_step) (simp add: zero_info_def zero_time_def portMAX_DELAY_def numeral_eq_Suc)

lemma start_fields:
  "ontime (app_time_task_events d time_bss) = showon d"
  "offtime (app_time_task_events d time_bss) = showoff d"
  "valid_num (app_time_task_events d time_bss) = 5"
  "infos (app_time_task_events d time_bss) = event_table (showon d) (showoff d)"
  by (simp_all add: start_state)

lemma start_mem:
  "list_repr (ev_mem (app_time_task_events d time_bss)) 0 []"
  "unlisted (ev_mem (app_time_task_events d time_bss)) i"
  "pvOwner (ev_mem (app_time_task_events d time_bss)) (Item i) = (if i \<in> {0, 2, 3, 4, 5} then Some i else None)"
  "item_key (ev_mem (app_time_task_events d time_bss)) i = (if i \<in> {0, 2, 3, 4, 5} then portMAX_DELAY else 0)"
  by (simp_all add: start_state list_repr_def unlisted_def item_key_def zero_mem_def
      vListInitialise_def vListInitialiseItem_def mem_setters)

lemma start_events_ok: "events_ok (app_time_task_events d time_bss) []"
  by (simp add: events_ok_def start_mem start_fields event_table_def)

lemma insert_events:
  assumes "events_ok t xs" "distinct (map unat ns)" "\<And>n. n \<in> set ns \<Longrightarrow> n < ITEMS_MAX \<and> unat n \<notin> set xs"
  shows "\<exists>m. fold_opt app_time_insert_event ns t = Some (t\<lparr>ev_mem := m\<rparr>) \<and>
    events_ok (t\<lparr>ev_mem := m\<rparr>) (ins_all (item_key (ev_mem t)) (map unat ns) xs) \<and>
    item_key m = item_key (ev_mem t) \<and> pvOwner m = pvOwner (ev_mem t)"
  using assms
proof (induction ns arbitrary: t xs)
  case Nil
  then show ?case by (intro exI [of _ "ev_mem t"]) simp
next
  case (Cons n ns)
  from insert_event_new [OF Cons.prems(1), of n] Cons.prems(3) obtain m where
    m: "app_time_insert_event n t = Some (t\<lparr>ev_mem := m\<rparr>)"
      "events_ok (t\<lparr>ev_mem := m\<rparr>) (ins_by (item_key (ev_mem t)) (unat n) xs)"
      "item_key m = item_key (ev_mem t)" "pvOwner m = pvOwner (ev_mem t)" by auto
  have "n' < ITEMS_MAX \<and> unat n' \<notin> set (ins_by (item_key (ev_mem t)) (unat n) xs)" if "n' \<in> set ns" for n'
  proof -
    have "unat n \<notin> unat ` set ns" using Cons.prems(2) by simp
    with that have "unat n' \<noteq> unat n" by (metis imageI)
    with that Cons.prems(3) show ?thesis by simp
  qed
  from Cons.IH [OF m(2) _ this] Cons.prems(2) m show ?case by auto
qed

text \<open>The time module after the start of the task.\<close>

definition time_ready :: "u16 \<Rightarrow> u16 \<Rightarrow> time_mod \<Rightarrow> bool" where
  "time_ready on off t \<longleftrightarrow>
     events_ok t [1, 2, 0, 3, 4, 5] \<and> ontime t = on \<and> offtime t = off \<and> valid_num t = 5 \<and>
     infos t = event_table on off \<and>
     (\<forall>i. pvOwner (ev_mem t) (Item i) = (if i \<in> {0, 2, 3, 4, 5} then Some i else None))"

lemma init_ready: "\<exists>t. app_time_task_init d time_bss = Some t \<and> time_ready (showon d) (showoff d) t"
proof -
  let ?t = "app_time_task_events d time_bss"
  let ?ns = "[2, 1, 0, 3, 4, 5] :: u8 list"
  have "\<exists>m. fold_opt app_time_insert_event ?ns ?t = Some (?t\<lparr>ev_mem := m\<rparr>) \<and>
      events_ok (?t\<lparr>ev_mem := m\<rparr>) (ins_all (item_key (ev_mem ?t)) (map unat ?ns) []) \<and>
      item_key m = item_key (ev_mem ?t) \<and> pvOwner m = pvOwner (ev_mem ?t)"
    by (rule insert_events [OF start_events_ok]) (auto simp: ITEMS_MAX_def)
  moreover have "ins_all (item_key (ev_mem ?t)) (map unat ?ns) [] = [1, 2, 0, 3, 4, 5]"
    by (simp add: ins_by_def start_mem(4) portMAX_DELAY_def)
  ultimately obtain m where
    m: "fold_opt app_time_insert_event ?ns ?t = Some (?t\<lparr>ev_mem := m\<rparr>)"
      "events_ok (?t\<lparr>ev_mem := m\<rparr>) [1, 2, 0, 3, 4, 5]" "pvOwner m = pvOwner (ev_mem ?t)" by metis
  have "app_time_task_init d time_bss = Some (?t\<lparr>ev_mem := m\<rparr>)"
    using m(1) by (simp only: app_time_task_init_def prog_defs)
  moreover have "time_ready (showon d) (showoff d) (?t\<lparr>ev_mem := m\<rparr>)"
    using m(2,3) by (simp add: time_ready_def start_fields start_mem(3))
  ultimately show ?thesis by blast
qed

section \<open>Properties\<close>

lemma get_event_ids:
  "app_time_get_event TIME_EVENT_DISPLAY_ON1 = Some 2" "app_time_get_event TIME_EVENT_DISPLAY_OFF1 = Some 3"
  by (simp_all add: app_time_get_event_def prog_defs)

lemma event_table_update:
  "length (event_table on off) = 20"
  "event_table on off ! 2 = wild (ucast (on div 100)) (ucast (on mod 100)) DisplayOn"
  "event_table on off ! 3 = wild (ucast (off div 100)) (ucast (off mod 100)) DisplayOff"
  "(event_table on off)[2 := wild (ucast (on' div 100)) (ucast (on' mod 100)) DisplayOn] = event_table on' off"
  "(event_table on off)[3 := wild (ucast (off' div 100)) (ucast (off' mod 100)) DisplayOff] = event_table on off'"
  by (simp_all add: event_table_def)

lemma set_hour_min_wild: "set_hour_min h m (wild h' m' f) = wild h m f"
  by (simp add: set_hour_min_def wild_def)

lemma set_showtime_ready:
  assumes "time_ready on off t"
  shows "\<exists>t'. app_time_set_showtime on' off' t d =
    Some (t', d\<lparr>showon := on', showoff := off'\<rparr>) \<and> time_ready on' off' t'"
proof -
  let ?t = "t\<lparr>ontime := on', offtime := off', infos := event_table on' off'\<rparr>"
  have i: "infos t = event_table on off" using assms by (simp add: time_ready_def)
  have "app_time_set_showtime on' off' t d = Some (?t, d\<lparr>showon := on', showoff := off'\<rparr>)"
    by (simp add: app_time_set_showtime_def get_event_ids i get_def event_table_update
        set_hour_min_wild app_data_write_showtime_def)
  moreover have "time_ready on' off' ?t"
    using assms by (simp add: time_ready_def events_ok_def event_table_update(1))
  ultimately show ?thesis by blast
qed

lemma ready_check:
  assumes "time_ready on off t"
  shows "events_triger_check mem0 tm t = Some (firing mem0 tm t [1, 2, 0, 3, 4])"
proof -
  have "events_ok t [1, 2, 0, 3, 4, 5]" "valid_num t = 5" using assms by (simp_all add: time_ready_def)
  from check_visits [OF this(1), of mem0 tm] this(2) show ?thesis by (simp add: take_Cons')
qed

lemma ready_infos:
  assumes "time_ready on off t"
  shows "owner_info mem0 t 1 = mem0" "owner_info mem0 t 0 = wild 0xFF 0 IntegerBeep"
    "owner_info mem0 t 2 = wild (ucast (on div 100)) (ucast (on mod 100)) DisplayOn"
    "owner_info mem0 t 3 = wild (ucast (off div 100)) (ucast (off mod 100)) DisplayOff"
    "owner_info mem0 t 4 = wild 7 0 DisplayOn"
  using assms by (simp_all add: time_ready_def owner_info_def event_table_def)

lemma wild_match:
  "event_match (event_time (wild h m f)) tm \<longleftrightarrow>
     sec tm = 0 \<and> field_match m (min' tm) \<and> field_match h (hour tm)"
  by (auto simp: event_match_def wild_def field_match_def)

text \<open>What fires at a time, for the show times \<open>on\<close> and \<open>off\<close>.\<close>

definition due :: "event_info \<Rightarrow> u16 \<Rightarrow> u16 \<Rightarrow> rtc_time \<Rightarrow> handler list" where
  "due mem0 on off tm =
     (if event_match (event_time mem0) tm then [handler_fn mem0] else []) @
     (if sec tm = 0 then
        (if field_match (ucast (on mod 100)) (min' tm) \<and> field_match (ucast (on div 100)) (hour tm)
         then [DisplayOn] else []) @
        (if min' tm = 0 then [IntegerBeep] else []) @
        (if field_match (ucast (off mod 100)) (min' tm) \<and> field_match (ucast (off div 100)) (hour tm)
         then [DisplayOff] else []) @
        (if hour tm = 7 \<and> min' tm = 0 then [DisplayOn] else [])
      else [])"

lemma firing_Cons: "firing mem0 tm t (i # xs) = firing mem0 tm t [i] @ firing mem0 tm t xs"
  by (simp add: firing_def)

lemma firing_wild:
  "owner_info mem0 t i = wild h m f \<Longrightarrow> firing mem0 tm t [i] =
     (if sec tm = 0 \<and> field_match m (min' tm) \<and> field_match h (hour tm) then [f] else [])"
  unfolding firing_def by (simp add: wild_match) (simp add: wild_def)

lemma field_match_simps [simp]: "field_match 0 v \<longleftrightarrow> v = 0" "field_match 7 v \<longleftrightarrow> v = 7" "field_match 0xFF v"
  by (auto simp: field_match_def)

lemma ready_fires:
  assumes "time_ready on off t"
  shows "events_triger_check mem0 tm t = Some (due mem0 on off tm)"
proof -
  have 1: "firing mem0 tm t [1] = (if event_match (event_time mem0) tm then [handler_fn mem0] else [])"
    unfolding firing_def list.map ready_infos(1) [OF assms] by simp
  have w: "firing mem0 tm t [2] = (if sec tm = 0 \<and> field_match (ucast (on mod 100)) (min' tm) \<and>
      field_match (ucast (on div 100)) (hour tm) then [DisplayOn] else [])"
    "firing mem0 tm t [0] = (if sec tm = 0 \<and> min' tm = 0 then [IntegerBeep] else [])"
    "firing mem0 tm t [3] = (if sec tm = 0 \<and> field_match (ucast (off mod 100)) (min' tm) \<and>
      field_match (ucast (off div 100)) (hour tm) then [DisplayOff] else [])"
    "firing mem0 tm t [4] = (if sec tm = 0 \<and> min' tm = 0 \<and> hour tm = 7 then [DisplayOn] else [])"
    using firing_wild [OF ready_infos(3) [OF assms, of mem0], of tm]
      firing_wild [OF ready_infos(2) [OF assms, of mem0], of tm]
      firing_wild [OF ready_infos(4) [OF assms, of mem0], of tm]
      firing_wild [OF ready_infos(5) [OF assms, of mem0], of tm]
    by (simp_all only: field_match_simps simp_thms)
  have "firing mem0 tm t [1, 2, 0, 3, 4] = firing mem0 tm t [1] @ firing mem0 tm t [2] @
      firing mem0 tm t [0] @ firing mem0 tm t [3] @ firing mem0 tm t [4]"
    by (simp only: firing_Cons [of _ _ _ _ "_ # _"])
  also have "\<dots> = due mem0 on off tm"
    unfolding 1 w due_def by (cases "sec tm = 0") (simp_all only: simp_thms if_True if_False append_Nil conj_commute)
  finally show ?thesis using ready_check [OF assms, of mem0 tm] by (simp only:)
qed

text \<open>
  Claim C21.  What the clock does at each second.  The start of the task succeeds, and from then
  on the check calls, in this order: whatever the vector table at address 0 says (the item
  \<open>TIME_EVENT_DISPLAY_TIME\<close> is inserted without an owner, so it comes first and is read through a null
  pointer), the display on at the stored show time, the beep on the hour, the display off
  at the end of the show time, the display on at 07:00.  The sixth event, the display off at 08:40,
  is never among them: only five of the six items of the list are visited.\<close>

theorem time_events_fire:
  "\<exists>t. app_time_task_init d time_bss = Some t \<and>
     (\<forall>mem0 tm. events_triger_check mem0 tm t = Some (due mem0 (showon d) (showoff d) tm))"
  using init_ready [of d] ready_fires by blast

text \<open>
  A change of the show time by the CLI is complete: it succeeds, it is what
  \<open>app_time_get_showtime\<close> and the stored settings report, and the check switches the display
  at the new times and no longer at the old ones.\<close>

theorem time_set_showtime_works:
  "\<exists>t t'. app_time_task_init d time_bss = Some t \<and>
     app_time_set_showtime on off t d = Some (t', d\<lparr>showon := on, showoff := off\<rparr>) \<and>
     app_time_get_showtime t' = (on, off) \<and>
     (\<forall>mem0 tm. events_triger_check mem0 tm t' = Some (due mem0 on off tm))"
proof -
  from init_ready [of d] obtain t where
    t: "app_time_task_init d time_bss = Some t" "time_ready (showon d) (showoff d) t" by blast
  from set_showtime_ready [OF t(2), of on off d] obtain t' where
    "app_time_set_showtime on off t d = Some (t', d\<lparr>showon := on, showoff := off\<rparr>)"
    "time_ready on off t'" by blast
  with t ready_fires [OF this(2)] show ?thesis
    by (auto simp: app_time_get_showtime_def time_ready_def)
qed

datatype event_call = Ins u8 | Rem u8

fun event_op :: "event_call \<Rightarrow> time_mod \<Rightarrow> time_mod option" where
  "event_op (Ins n) t = app_time_insert_event n t"
| "event_op (Rem n) t = app_time_remove_event n t"

fun listed :: "event_call list \<Rightarrow> nat set \<Rightarrow> nat set" where
  "listed [] A = A"
| "listed (Ins n # es) A = listed es (if n < 20 then insert (unat n) A else A)"
| "listed (Rem n # es) A = listed es (A - {unat n})"

lemma event_op_ok:
  assumes ok: "events_ok t xs"
  shows "\<exists>t' xs'. event_op e t = Some t' \<and> events_ok t' xs' \<and> set xs' = listed [e] (set xs)"
proof -
  have big: "unat n \<notin> set xs" if "\<not> n < 20" for n :: u8
    using ok that by (auto simp: events_ok_def word_less_nat_alt)
  have d: "distinct xs" using ok by (simp add: events_ok_def list_repr_def)
  show ?thesis
  proof (cases e)
    case (Ins n)
    show ?thesis
    proof (cases "n < 20 \<and> unat n \<notin> set xs")
      case True
      with insert_event_new [OF ok, of n] Ins show ?thesis
        by (fastforce simp: ITEMS_MAX_def)
    next
      case False
      then have "app_time_insert_event n t = Some t"
        using insert_event_again [OF ok, of n]
        by (cases "n < 20") (simp_all add: app_time_insert_event_def ITEMS_MAX_def not_less)
      with False Ins ok show ?thesis by (auto simp: insert_absorb)
    qed
  next
    case (Rem n)
    show ?thesis
    proof (cases "unat n \<in> set xs")
      case True
      with big have "n < ITEMS_MAX" by (auto simp: ITEMS_MAX_def)
      from remove_event [OF ok this True] Rem d show ?thesis by fastforce
    next
      case False
      with remove_event_absent [OF ok False] Rem ok show ?thesis by auto
    qed
  qed
qed

lemma listed_Cons: "listed (e # es) A = listed es (listed [e] A)"
  by (cases e) simp_all

lemma event_ops_ok:
  "events_ok t xs \<Longrightarrow> \<exists>t' xs'. fold_opt event_op es t = Some t' \<and> events_ok t' xs' \<and>
     set xs' = listed es (set xs)"
proof (induction es arbitrary: t xs)
  case (Cons e es)
  from event_op_ok [OF Cons.prems, of e] obtain t1 xs1 where
    1: "event_op e t = Some t1" "events_ok t1 xs1" "set xs1 = listed [e] (set xs)" by blast
  from Cons.IH [OF 1(2)] 1 show ?case by (auto simp: listed_Cons [of e es] simp del: listed.simps(2,3))
qed auto

text \<open>
  Inserting and removing events, in any order and with any number, valid or not,
  inserted twice or removed twice: it always succeeds and keeps a well-formed list, which
  holds exactly the events inserted and not removed since.\<close>

theorem time_event_ops_safe:
  "\<exists>t t' xs. app_time_task_init d time_bss = Some t \<and> fold_opt event_op es t = Some t' \<and>
     list_repr (ev_mem t') 0 xs \<and> set xs = listed es {0, 1, 2, 3, 4, 5}"
proof -
  from init_ready [of d] obtain t where
    t: "app_time_task_init d time_bss = Some t" "time_ready (showon d) (showoff d) t" by blast
  then have "events_ok t [1, 2, 0, 3, 4, 5]" by (simp add: time_ready_def)
  from event_ops_ok [OF this, of es] t(1) show ?thesis
    by (auto simp: events_ok_def insert_commute)
qed

text \<open>A list shorter than \<open>valid_num\<close>: the walk runs onto the end marker.\<close>

lemma fold_opt_None:
  "fold_opt f xs s = Some s' \<Longrightarrow> f x s' = None \<Longrightarrow> fold_opt f (xs @ x # ys) s = None"
  by (simp add: fold_opt_append)

lemma check_overrun:
  assumes ok: "events_ok t xs" and n: "length xs < unat (valid_num t)" and ne: "xs \<noteq> []"
  shows "events_triger_check mem0 tm t = None"
proof -
  let ?n = "length xs"
  have len: "?n < 2 ^ 32" by (rule order_less_trans [OF n order_less_trans [OF unat_u8_lt]]) simp
  have r: "list_repr (ev_mem t) 0 xs" using ok by (simp add: events_ok_def)
  then have "\<not> listLIST_IS_EMPTY 0 (ev_mem t)"
    using ne len by (simp add: listLIST_IS_EMPTY_def list_repr_def word_unat_eq_iff unat_of_nat)
  moreover
  let ?t = "t\<lparr>valid_num := of_nat ?n\<rparr>"
  let ?P = "\<lambda>k st. fst st = (if k = 0 then None else Some (Item (xs ! (k - 1))))"
  have "\<exists>st. fold_opt (check_step mem0 tm t) [0..<?n] (None, []) = Some st \<and> ?P ?n st"
  proof (rule fold_opt_upt [where P = ?P])
    fix k and st :: "node option \<times> handler list"
    assume "k < ?n" "?P k st"
    from check_step_visit [OF ok this] show "\<exists>st'. check_step mem0 tm t k st = Some st' \<and> ?P (Suc k) st'"
      by simp
  qed simp
  then obtain st where st: "fold_opt (check_step mem0 tm t) [0..<?n] (None, []) = Some st" "?P ?n st" by blast
  from r have "list_repr (ev_mem t) 0 (xs @ [])" by simp
  from list_repr_links(1) [OF this] ne have "pxNext (ev_mem t) (Item (last xs)) = Some (ListEnd 0)"
    by (simp add: last_map)
  then have "check_step mem0 tm t ?n st = None"
    using st(2) ne by (simp add: check_step_def listGET_NEXT_def last_conv_nth)
  moreover obtain ys where "[0..<unat (valid_num t)] = [0..<?n] @ ?n # ys"
    using n upt_add_eq_append [of 0 ?n "unat (valid_num t) - ?n"] by (simp add: upt_conv_Cons)
  ultimately show ?thesis using fold_opt_None [OF st(1)]
    by (simp add: events_triger_check_def)
qed

text \<open>
  The loop trusts \<open>valid_num\<close>, which counts initialisations and never goes down: after
  two of the six events have been removed, the next check walks onto the end marker of
  the list and reads an owner outside the list structure, whatever the time.\<close>

theorem time_remove_overruns:
  "\<exists>t t'. app_time_task_init d time_bss = Some t \<and>
     fold_opt event_op [Rem TIME_EVENT_DISPLAY_ON1, Rem TIME_EVENT_DISPLAY_OFF1] t = Some t' \<and>
     (\<forall>mem0 tm. events_triger_check mem0 tm t' = None)"
proof -
  from init_ready [of d] obtain t where
    t: "app_time_task_init d time_bss = Some t" "time_ready (showon d) (showoff d) t" by blast
  then have "events_ok t [1, 2, 0, 3, 4, 5]" by (simp add: time_ready_def)
  from remove_event [OF this, of TIME_EVENT_DISPLAY_ON1] obtain m where
    m: "app_time_remove_event TIME_EVENT_DISPLAY_ON1 t = Some (t\<lparr>ev_mem := m\<rparr>)"
      "events_ok (t\<lparr>ev_mem := m\<rparr>) [1, 0, 3, 4, 5]" by (auto simp: prog_defs)
  from remove_event [OF m(2), of TIME_EVENT_DISPLAY_OFF1] obtain m' where
    m': "app_time_remove_event TIME_EVENT_DISPLAY_OFF1 (t\<lparr>ev_mem := m\<rparr>) = Some (t\<lparr>ev_mem := m'\<rparr>)"
      "events_ok (t\<lparr>ev_mem := m'\<rparr>) [1, 0, 4, 5]" by (auto simp: prog_defs)
  have "valid_num t = 5" using t(2) by (simp add: time_ready_def)
  then have "events_triger_check mem0 tm (t\<lparr>ev_mem := m'\<rparr>) = None" for mem0 tm
    by (intro check_overrun [OF m'(2)]) simp_all
  with t(1) m(1) m'(1) show ?thesis by auto
qed

text \<open>
  The beep on the hour: at a valid hour it adds to the beeps owed the hour on the
  12-hour face from nine in the morning to eleven in the evening, and nothing from midnight
  to eight.\<close>

theorem time_beep_count:
  assumes "hour tm < 24"
  shows "owed (integer_time_beep tm b) = owed b +
    of_nat (if unat (hour tm) \<le> 8 then 0 else if unat (hour tm) \<le> 12 then unat (hour tm) else unat (hour tm) - 12)"
proof -
  have "hour tm > 12 \<longleftrightarrow> unat (hour tm) > 12" "hour tm > 8 \<longleftrightarrow> unat (hour tm) > 8"
    by (simp_all add: word_less_nat_alt)
  moreover have "unat (hour tm - 12) = unat (hour tm) - 12" if "hour tm > 12"
    using that by (simp add: unat_sub_if' word_less_nat_alt)
  ultimately show ?thesis by (simp add: integer_time_beep_def request_conserves)
qed

theorem time_beep_count_witness:
  "owed (integer_time_beep (zero_time\<lparr>hour := 21\<rparr>) \<lparr>warning_times = 0, buz_pc = Idle\<rparr>) =
    owed \<lparr>warning_times = 0, buz_pc = Idle\<rparr> + of_nat 9"
  using time_beep_count [of "zero_time\<lparr>hour := 21\<rparr>" "\<lparr>warning_times = 0, buz_pc = Idle\<rparr>"] by simp

text \<open>
  The display between the sensor's slots: for a valid time outside the seconds 16 to
  20, 36 to 40 and 56 to 59, the refresh succeeds, the roll of the colons alternates, and a display
  that is not being written takes the six decimal digits of the time with the colons on every other
  call.\<close>

theorem time_refresh_digits:
  assumes "hour tm < 24" "min' tm < 60" "sec tm < 60" "\<not> processing d"
    and "unat (sec tm) \<notin> {16..20} \<union> {36..40} \<union> {56..59}"
  shows "\<exists>d' as. refresh_time_every_500ms rnd tm th r d = Some (if r = 0 then 1 else 0, d', as) \<and>
    map unat (take 6 (lcd_pixel d')) = [unat (hour tm) div 10, unat (hour tm) mod 10,
      unat (min' tm) div 10, unat (min' tm) mod 10, unat (sec tm) div 10, unat (sec tm) mod 10] \<and>
    (\<forall>k<6. lcd_pixel d' ! k \<le> 9) \<and> lcd_pixel d' ! 6 = (if r = 0 then 0x33 else 0)"
proof -
  have "\<not> (sec tm > 15 \<and> sec tm \<le> 20 \<or> sec tm > 35 \<and> sec tm \<le> 40 \<or> sec tm > 55 \<and> sec tm \<le> 59)"
    using assms(5) by (auto simp: word_less_nat_alt word_le_nat_alt)
  then have "refresh_time_every_500ms rnd tm th r d =
    Some (if r = 0 then 1 else 0, d\<lparr>lcd_pixel := time_info tm (if r = 0 then 0x33 else 0)\<rparr>,
      [EnterCritical, ExitCritical])"
    using assms(4) by (simp add: refresh_time_every_500ms_def app_display_show_info_def time_info_def
        Let_def)
  moreover have "\<forall>k<6. time_info tm p ! k \<le> 9" for p
    using assms(1-3)
    by (auto simp: time_info_def nth_Cons word_le_nat_alt word_less_nat_alt unat_div unat_mod
        split: nat.split)
  ultimately show ?thesis by (simp add: time_info_def unat_div unat_mod)
qed

theorem time_refresh_digits_witness:
  "\<exists>d' as. refresh_time_every_500ms (\<lambda>a. a) (zero_time\<lparr>hour := 21, min' := 34\<rparr>)
      \<lparr>temperature = 20, humidity = 50\<rparr> 0 (display_init\<lparr>processing := False\<rparr>) = Some (1, d', as) \<and>
    map unat (take 6 (lcd_pixel d')) = [2, 1, 3, 4, 0, 0]"
  using time_refresh_digits [of "zero_time\<lparr>hour := 21, min' := 34\<rparr>" "display_init\<lparr>processing := False\<rparr>"
      "\<lambda>a. a" "\<lparr>temperature = 20, humidity = 50\<rparr>" 0]
  by (auto simp: zero_time_def)

end
