(* ===== verification/Mid_Cli.thy ===== *)
theory Mid_Cli
  imports Prelude
begin

text \<open>
  The command line of the serial console (\<open>mid/mid_cli.c\<close>, \<open>mid/inc/mid_cli.h\<close>).

  The statics of the file and the locals of the console task are the record \<open>cli\<close>; the buffers
  are lists of their C length, a character is a byte, and an access outside a buffer is \<open>None\<close>.
  The registered commands are a list, with \<open>help\<close> in front of it as the head of the linked list; a
  command acts on the state \<open>'s\<close> of the application.  \<open>cli_char\<close> is one round of the task's loop, for
  the character it receives; what the task sends is appended to \<open>tx\<close>.
\<close>

section \<open>State\<close>

abbreviation (input) NUL :: char where "NUL \<equiv> CHR 0x00"

definition cmdASCII_BS :: char where "cmdASCII_BS = CHR 0x08"
definition cmdASCII_NEWLINE :: char where "cmdASCII_NEWLINE = CHR 0x0A"
definition cmdASCII_HEADLINE :: char where "cmdASCII_HEADLINE = CHR 0x0D"

lemmas ascii_defs = cmdASCII_BS_def cmdASCII_NEWLINE_def cmdASCII_HEADLINE_def

definition cmdMAX_INPUT_SIZE :: nat where "cmdMAX_INPUT_SIZE = 256"
definition cmdMAX_OUTPUT_SIZE :: nat where "cmdMAX_OUTPUT_SIZE = 256"
definition cmdMAX_STRING_SIZE :: nat where "cmdMAX_STRING_SIZE = 20"
definition cmdMAX_VARS_SIZE :: nat where "cmdMAX_VARS_SIZE = 10"

lemmas size_defs = cmdMAX_INPUT_SIZE_def cmdMAX_OUTPUT_SIZE_def cmdMAX_STRING_SIZE_def
  cmdMAX_VARS_SIZE_def

text \<open>
  A command: its handler gets the memory of the arguments (\<open>vars\<close>) and the application state, and
  returns what it writes to \<open>dest\<close>, whether it wants to be called again, and the new state.
\<close>

record 's command =
  command_name :: string
  help_info :: string
  handle :: "string \<Rightarrow> 's \<Rightarrow> (string \<times> bool \<times> 's) option"
  expect_parame_num :: u8

record cli =
  permission :: bool
  inputIndex :: u8
  status :: u8
  cInputString :: string
  cOutputString :: string
  vars :: string
  cur_cmd :: "nat option"
  help_cmd :: "nat option"
  tx :: string

definition passwd :: string where "passwd = ''jhg''"
definition input_passwd_msg :: string where "input_passwd_msg = ''Input password: ''"
definition incorrect_passwd_msg :: string where
  "incorrect_passwd_msg = ''Password incorrect!'' @ [CHR 0x0D, CHR 0x0A]"
definition pcNewLine :: string where "pcNewLine = [CHR 0x0D, CHR 0x0A]"
definition backspace :: string where "backspace = '' '' @ [CHR 0x08]"
definition err_remind :: string where
  "err_remind = '' not recognised. Input '' @ [CHR 0x27] @ ''help'' @ [CHR 0x27] @
     '' to view available commands.'' @ [CHR 0x0D, CHR 0x0A]"

definition cli_init :: cli where
  "cli_init = \<lparr>permission = False, inputIndex = 0, status = 0,
     cInputString = replicate cmdMAX_INPUT_SIZE NUL, cOutputString = [],
     vars = replicate (cmdMAX_VARS_SIZE * cmdMAX_STRING_SIZE) NUL,
     cur_cmd = None, help_cmd = None, tx = []\<rparr>"

section \<open>C strings\<close>

text \<open>The string at the start of a buffer; \<open>None\<close> if it is not terminated inside it.\<close>

definition cstring :: "string \<Rightarrow> string option" where
  "cstring buf = (if NUL \<in> set buf then Some (takeWhile (\<lambda>ch. ch \<noteq> NUL) buf) else None)"

text \<open>\<open>strcmp(a, buf) == 0\<close> for a string \<open>a\<close> shorter than the buffer, and \<open>strncmp\<close> over its length.\<close>

definition strcmp_equal :: "string \<Rightarrow> string \<Rightarrow> bool" where
  "strcmp_equal a buf \<longleftrightarrow> take (Suc (length a)) buf = a @ [NUL]"

definition strncmp_equal :: "string \<Rightarrow> string \<Rightarrow> bool" where
  "strncmp_equal buf a \<longleftrightarrow> take (length a) buf = a"

text \<open>\<open>argv[i]\<close> as a handler reads it.\<close>

definition argv :: "string \<Rightarrow> nat \<Rightarrow> string option" where
  "argv v i = cstring (drop (cmdMAX_STRING_SIZE * i) v)"

section \<open>Registering\<close>

text \<open>\<open>mid_cli_register\<close>: \<open>alloc\<close> tells whether \<open>cli_malloc\<close> returned memory.\<close>

definition mid_cli_register :: "bool \<Rightarrow> 's command \<Rightarrow> 's command list \<Rightarrow> int \<times> 's command list" where
  "mid_cli_register alloc p cmds = (if alloc then (pdTRUE, cmds @ [p]) else (pdFALSE, cmds))"

text \<open>Position 0 of the list is \<open>cmd_list_head\<close>, the help command.\<close>

definition name_at :: "'s command list \<Rightarrow> nat \<Rightarrow> string" where
  "name_at cmds k = (if k = 0 then ''help'' else command_name (cmds ! (k - 1)))"

definition help_at :: "'s command list \<Rightarrow> nat \<Rightarrow> string" where
  "help_at cmds k = (if k = 0 then ''Lists all the registered commands.'' else help_info (cmds ! (k - 1)))"

definition expect_at :: "'s command list \<Rightarrow> nat \<Rightarrow> u8" where
  "expect_at cmds k = (if k = 0 then 0 else expect_parame_num (cmds ! (k - 1)))"

section \<open>Splitting the arguments\<close>

text \<open>\<open>dest[num][index] = ch\<close>, where \<open>dest\<close> is the ten pointers into \<open>vars\<close>, \<open>num\<close> and \<open>index\<close> signed
  bytes.\<close>

definition put_arg :: "u8 \<Rightarrow> u8 \<Rightarrow> char \<Rightarrow> string \<Rightarrow> string option" where
  "put_arg num index ch v =
     (if sint num < 0 \<or> int cmdMAX_VARS_SIZE \<le> sint num then None
      else let pos = sint num * int cmdMAX_STRING_SIZE + sint index
           in if pos < 0 then None else put v (nat pos) ch)"

fun split_loop :: "string \<Rightarrow> u8 \<Rightarrow> u8 \<Rightarrow> bool \<Rightarrow> string \<Rightarrow> (u8 \<times> string) option" where
  "split_loop [] num index wasSpace v = Some (num, v)"
| "split_loop (ch # cs) num index wasSpace v =
     (if ch = CHR '' '' \<and> \<not> wasSpace
      then do { v \<leftarrow> put_arg num index NUL v; split_loop cs (num + 1) 0 True v }
      else do { v \<leftarrow> put_arg num index ch v; split_loop cs num (index + 1) False v })"

definition mid_cli_string_split :: "string \<Rightarrow> string \<Rightarrow> (u8 \<times> string) option" where
  "mid_cli_string_split input v = do { s \<leftarrow> cstring input; split_loop s 0 0 False v }"

section \<open>Parsing and running a command\<close>

text \<open>\<open>sprintf\<close> into the output buffer.\<close>

definition put_output :: "string \<Rightarrow> cli \<Rightarrow> cli option" where
  "put_output out c =
     (if length out < cmdMAX_OUTPUT_SIZE then Some (c\<lparr>cOutputString := out\<rparr>) else None)"

definition not_recognised :: "cli \<Rightarrow> cli option" where
  "not_recognised c = do {
     s \<leftarrow> cstring (cInputString c);
     put_output (''  '' @ [CHR 0x27] @ s @ [CHR 0x27] @ err_remind) c
   }"

definition esc :: string where "esc = [CHR 0x1B]"

definition help_header :: string where
  "help_header = esc @ ''[32;49;7m        COMMAND HELP                        VER:0.1      '' @
     esc @ ''[32;49;0m'' @ pcNewLine"

definition help_line :: "'s command list \<Rightarrow> nat \<Rightarrow> string" where
  "help_line cmds k = [CHR 0x09] @ esc @ ''[32;49;1m'' @ name_at cmds k @
     esc @ ''[32;49;0m:'' @ [CHR 0x09] @ help_at cmds k @ pcNewLine"

definition help_main :: "'s command list \<Rightarrow> cli \<Rightarrow> (bool \<times> cli) option" where
  "help_main cmds c =
     (case help_cmd c of
        None \<Rightarrow> do { c \<leftarrow> put_output help_header c; Some (True, c\<lparr>help_cmd := Some 0\<rparr>) }
      | Some k \<Rightarrow> do {
          c \<leftarrow> put_output (help_line cmds k) c;
          let nx = (if k < length cmds then Some (Suc k) else None);
          Some (nx \<noteq> None, c\<lparr>help_cmd := nx\<rparr>)
        })"

definition run_handle :: "'s command list \<Rightarrow> nat \<Rightarrow> cli \<Rightarrow> 's \<Rightarrow> (bool \<times> cli \<times> 's) option" where
  "run_handle cmds k c s =
     (if k = 0 then do { (more, c) \<leftarrow> help_main cmds c; Some (more, c, s) }
      else do {
        (out, more, s) \<leftarrow> handle (cmds ! (k - 1)) (vars c) s;
        c \<leftarrow> put_output out c;
        Some (more, c, s)
      })"

text \<open>The test of the loop over the commands, and the first command that passes it.\<close>

definition command_matches :: "string \<Rightarrow> string \<Rightarrow> bool" where
  "command_matches input name \<longleftrightarrow>
     (input ! length name = CHR '' '' \<or> input ! length name = NUL) \<and> strncmp_equal input name"

definition find_cmd :: "'s command list \<Rightarrow> string \<Rightarrow> nat option" where
  "find_cmd cmds input = find (\<lambda>k. command_matches input (name_at cmds k)) [0..<Suc (length cmds)]"

definition mid_cli_parse_command :: "'s command list \<Rightarrow> cli \<Rightarrow> 's \<Rightarrow> (bool \<times> cli \<times> 's) option" where
  "mid_cli_parse_command cmds c s = do {
     (cmd, xReturn, c) \<leftarrow>
       (case cur_cmd c of
          Some k \<Rightarrow> Some (Some k, True, c)
        | None \<Rightarrow>
            (case find_cmd cmds (cInputString c) of
               None \<Rightarrow> Some (None, True, c)
             | Some k \<Rightarrow> do {
                 (num, v) \<leftarrow> mid_cli_string_split (cInputString c) (vars c);
                 Some (Some k, sint num = uint (expect_at cmds k), c\<lparr>vars := v\<rparr>)
               }));
     (case cmd of
        Some k \<Rightarrow>
          (if \<not> xReturn then do { c \<leftarrow> not_recognised c; Some (False, c\<lparr>cur_cmd := None\<rparr>, s) }
           else do {
             (more, c, s) \<leftarrow> run_handle cmds k (c\<lparr>cOutputString := []\<rparr>) s;
             Some (more, c\<lparr>cur_cmd := if more then Some k else None\<rparr>, s)
           })
      | None \<Rightarrow>
          (if cInputString c ! 0 \<noteq> NUL then do { c \<leftarrow> not_recognised c; Some (False, c\<lparr>cur_cmd := None\<rparr>, s) }
           else Some (False, c\<lparr>cOutputString := [], cur_cmd := None\<rparr>, s)))
   }"

section \<open>The console task\<close>

text \<open>\<open>do \<dots> while(xReturned != pdFALSE)\<close>, which ends only if the handler stops asking.\<close>

partial_function (option) exec_loop :: "'s command list \<Rightarrow> cli \<Rightarrow> 's \<Rightarrow> (cli \<times> 's) option" where
  "exec_loop cmds c s = do {
     (more, c, s) \<leftarrow> mid_cli_parse_command cmds (c\<lparr>cOutputString := []\<rparr>) s;
     let c' = c\<lparr>tx := tx c @ cOutputString c\<rparr>;
     if more then exec_loop cmds c' s else Some (c', s)
   }"

definition printable :: "char \<Rightarrow> bool" where
  "printable ch \<longleftrightarrow> 0x20 \<le> (of_char ch :: nat) \<and> (of_char ch :: nat) \<le> 0x7E"

definition newline :: "char \<Rightarrow> bool" where
  "newline ch \<longleftrightarrow> ch = cmdASCII_NEWLINE \<or> ch = cmdASCII_HEADLINE"

definition send :: "string \<Rightarrow> cli \<Rightarrow> cli" where
  "send t c = c\<lparr>tx := tx c @ t\<rparr>"

definition collect_char :: "char \<Rightarrow> cli \<Rightarrow> cli" where
  "collect_char ch c =
     (let c = (if (ch \<noteq> cmdASCII_BS \<or> inputIndex c \<noteq> 0) \<and> permission c then send [ch] c else c)
      in if newline ch then send pcNewLine (c\<lparr>status := 1\<rparr>)
         else if ch = cmdASCII_BS then
           (if inputIndex c > 0
            then let i = inputIndex c - 1 in
              send backspace (c\<lparr>inputIndex := i, cInputString := (cInputString c)[unat i := NUL]\<rparr>)
            else c)
         else if printable ch then
           (if unat (inputIndex c) < cmdMAX_INPUT_SIZE
            then c\<lparr>cInputString := (cInputString c)[unat (inputIndex c) := ch], inputIndex := inputIndex c + 1\<rparr>
            else c)
         else c)"

definition clear_input :: "cli \<Rightarrow> cli" where
  "clear_input c = c\<lparr>cInputString := replicate cmdMAX_INPUT_SIZE NUL, inputIndex := 0\<rparr>"

definition check_permission :: "cli \<Rightarrow> cli" where
  "check_permission c =
     (if status c = 1 then c\<lparr>status := if permission c then 3 else 2\<rparr> else c)"

definition check_password :: "cli \<Rightarrow> cli" where
  "check_password c =
     (if status c = 2 then
        clear_input
          (if \<not> strcmp_equal passwd (cInputString c)
           then (send input_passwd_msg (if inputIndex c \<noteq> 0 then send incorrect_passwd_msg c else c))
                  \<lparr>status := 0\<rparr>
           else c\<lparr>permission := True, status := 3\<rparr>)
      else c)"

definition run_command :: "string \<Rightarrow> 's command list \<Rightarrow> cli \<Rightarrow> 's \<Rightarrow> (cli \<times> 's) option" where
  "run_command prefix cmds c s =
     (if status c = 3 then do {
        (c, s) \<leftarrow>
          (if inputIndex c \<noteq> 0 then do {
             (c, s) \<leftarrow> exec_loop cmds c s;
             Some ((clear_input c)\<lparr>vars := replicate (cmdMAX_VARS_SIZE * cmdMAX_STRING_SIZE) NUL\<rparr>, s)
           } else Some (c, s));
        Some ((send prefix c)\<lparr>status := 0\<rparr>, s)
      } else Some (c, s))"

definition cli_char :: "string \<Rightarrow> 's command list \<Rightarrow> char \<Rightarrow> cli \<times> 's \<Rightarrow> (cli \<times> 's) option" where
  "cli_char prefix cmds ch st =
     (case st of (c, s) \<Rightarrow>
       run_command prefix cmds
         (check_password (check_permission (if status c = 0 then collect_char ch c else c))) s)"

definition mid_cli_console_task ::
    "string \<Rightarrow> 's command list \<Rightarrow> string \<Rightarrow> cli \<times> 's \<Rightarrow> (cli \<times> 's) option" where
  "mid_cli_console_task prefix cmds cs st = fold_opt (cli_char prefix cmds) cs st"

section \<open>Line editing\<close>

text \<open>What a character does to the line typed so far, and a buffer that holds a line.\<close>

definition edit :: "string \<Rightarrow> char \<Rightarrow> string" where
  "edit l ch = (if ch = cmdASCII_BS then butlast l else if printable ch then l @ [ch] else l)"

definition line_rep :: "cli \<Rightarrow> string \<Rightarrow> bool" where
  "line_rep c l \<longleftrightarrow> length l < 256 \<and> NUL \<notin> set l \<and> inputIndex c = of_nat (length l) \<and>
     cInputString c = l @ replicate (256 - length l) NUL"

definition same_core :: "cli \<Rightarrow> cli \<Rightarrow> bool" where
  "same_core c c' \<longleftrightarrow> permission c' = permission c \<and> status c' = status c \<and> vars c' = vars c \<and>
     cur_cmd c' = cur_cmd c \<and> help_cmd c' = help_cmd c"

lemma printable_not_NUL: "printable ch \<Longrightarrow> ch \<noteq> NUL"
  by (auto simp: printable_def)

lemma line_index:
  assumes "line_rep c l"
  shows "unat (inputIndex c) = length l" "inputIndex c = 0 \<longleftrightarrow> l = []" "inputIndex c > 0 \<longleftrightarrow> l \<noteq> []"
proof -
  show 1: "unat (inputIndex c) = length l" using assms by (simp add: line_rep_def unat_u8_of_nat)
  show 2: "inputIndex c = 0 \<longleftrightarrow> l = []" using 1 by (simp add: word_unat_eq_iff)
  then show "inputIndex c > 0 \<longleftrightarrow> l \<noteq> []" by (simp add: word_neq_0_conv [symmetric])
qed

lemma line_rep_send [simp]: "line_rep (send t c) l = line_rep c l" "same_core c (send t c')  = same_core c c'"
  "permission (send t c) = permission c" "status (send t c) = status c"
  "inputIndex (send t c) = inputIndex c" "cInputString (send t c) = cInputString c"
  "vars (send t c) = vars c" "cur_cmd (send t c) = cur_cmd c" "help_cmd (send t c) = help_cmd c"
  by (simp_all add: line_rep_def send_def same_core_def)

lemma replicate_NUL_update: "(replicate n x)[k := x] = replicate n x"
  by (induction n arbitrary: k) (auto split: nat.split)

lemma line_backspace:
  assumes "line_rep c l" "l \<noteq> []"
  shows "line_rep (c\<lparr>inputIndex := inputIndex c - 1,
    cInputString := (cInputString c)[unat (inputIndex c - 1) := NUL]\<rparr>) (butlast l)"
proof -
  from assms(2) obtain l' a where l: "l = l' @ [a]" by (meson rev_exhaust)
  have i: "inputIndex c - 1 = of_nat (length l')" using assms(1) l by (simp add: line_rep_def)
  have n: "length l' < 256" "unat (of_nat (length l') :: u8) = length l'"
    using assms(1) l by (simp_all add: line_rep_def unat_u8_of_nat)
  have "(l' @ a # replicate (256 - Suc (length l')) NUL)[length l' := NUL] =
      l' @ replicate (256 - length l') NUL"
    using n(1) by (simp add: list_update_append Suc_diff_Suc flip: replicate_Suc)
  with assms(1) l i n show ?thesis by (simp add: line_rep_def)
qed

lemma line_append:
  assumes "line_rep c l" "printable ch" "Suc (length l) < 256"
  shows "line_rep (c\<lparr>cInputString := (cInputString c)[unat (inputIndex c) := ch],
    inputIndex := inputIndex c + 1\<rparr>) (l @ [ch])"
proof -
  have "(l @ replicate (256 - length l) NUL)[length l := ch] = l @ ch # replicate (256 - Suc (length l)) NUL"
  proof -
    have "256 - length l = Suc (256 - Suc (length l))" using assms(3) by simp
    then show ?thesis by (simp add: list_update_append del: diff_Suc_Suc)
  qed
  with assms line_index(1) [OF assms(1)] printable_not_NUL [OF assms(2)] show ?thesis
    by (auto simp: line_rep_def add.commute)
qed

lemma line_rep_fields:
  "line_rep (c\<lparr>status := x\<rparr>) l = line_rep c l"
  "line_rep (c\<lparr>permission := y\<rparr>) l = line_rep c l"
  "line_rep (c\<lparr>vars := z\<rparr>) l = line_rep c l"
  "line_rep (clear_input c) []"
  by (simp_all add: line_rep_def clear_input_def cmdMAX_INPUT_SIZE_def)

lemma collect_edit:
  assumes r: "line_rep c l" and ch: "\<not> newline ch" and len: "length (edit l ch) < 256"
  shows "line_rep (collect_char ch c) (edit l ch)" "same_core c (collect_char ch c)"
proof -
  let ?c = "if (ch \<noteq> cmdASCII_BS \<or> inputIndex c \<noteq> 0) \<and> permission c then send [ch] c else c"
  have r': "line_rep ?c l" and s: "same_core c ?c" using r by (simp_all add: same_core_def)
  have bs: "\<not> printable cmdASCII_BS" by (simp add: printable_def cmdASCII_BS_def)
  consider "ch = cmdASCII_BS" "l = []" | "ch = cmdASCII_BS" "l \<noteq> []"
    | "ch \<noteq> cmdASCII_BS" "printable ch" | "ch \<noteq> cmdASCII_BS" "\<not> printable ch" by blast
  then have "line_rep (collect_char ch c) (edit l ch) \<and> same_core c (collect_char ch c)"
  proof cases
    case 1
    then have "collect_char ch c = ?c"
      using ch line_index(2,3) [OF r] by (simp add: collect_char_def Let_def)
    with 1 r' s show ?thesis by (simp add: edit_def)
  next
    case 2
    then have "collect_char ch c = send backspace (?c\<lparr>inputIndex := inputIndex ?c - 1,
        cInputString := (cInputString ?c)[unat (inputIndex ?c - 1) := NUL]\<rparr>)"
      using ch line_index(2,3) [OF r] by (simp add: collect_char_def Let_def)
    with 2 line_backspace [OF r' 2(2)] s show ?thesis by (simp add: edit_def same_core_def)
  next
    case 3
    then have e: "collect_char ch c = ?c\<lparr>cInputString := (cInputString ?c)[unat (inputIndex ?c) := ch],
        inputIndex := inputIndex ?c + 1\<rparr>"
      using ch by (simp add: collect_char_def Let_def cmdMAX_INPUT_SIZE_def)
    have "line_rep (collect_char ch c) (l @ [ch])"
      unfolding e by (rule line_append [OF r' 3(2)]) (use len 3 in \<open>simp add: edit_def\<close>)
    with 3 s e show ?thesis by (simp add: edit_def same_core_def)
  next
    case 4
    then have "collect_char ch c = ?c" using ch by (simp add: collect_char_def Let_def)
    with 4 r' s show ?thesis by (simp add: edit_def)
  qed
  then show "line_rep (collect_char ch c) (edit l ch)" "same_core c (collect_char ch c)" by simp_all
qed

lemma char_edit:
  assumes "line_rep c l" "\<not> newline ch" "length (edit l ch) < 256" "status c = 0"
  shows "cli_char prefix cmds ch (c, s) = Some (collect_char ch c, s)"
  using collect_edit [OF assms(1-3)] assms(4)
  by (simp add: cli_char_def same_core_def check_permission_def check_password_def run_command_def)

section \<open>The password\<close>

lemma strcmp_line:
  assumes "line_rep c l" "length p < 255" "NUL \<notin> set p"
  shows "strcmp_equal p (cInputString c) \<longleftrightarrow> l = p"
proof
  assume "l = p"
  then have "256 - length l = Suc (255 - length p)" using assms(2) by simp
  with assms(1) \<open>l = p\<close> show "strcmp_equal p (cInputString c)"
    by (simp add: line_rep_def strcmp_equal_def)
next
  assume e: "strcmp_equal p (cInputString c)"
  let ?r = "replicate (256 - length l) NUL"
  from e assms(1) have t: "take (Suc (length p)) (l @ ?r) = p @ [NUL]"
    by (simp add: strcmp_equal_def line_rep_def)
  have nl: "NUL \<notin> set l" using assms(1) by (simp add: line_rep_def)
  have "takeWhile (\<lambda>ch. ch \<noteq> NUL) (l @ ?r) = l"
    by (subst takeWhile_append2) (use nl in \<open>auto simp: takeWhile_eq_Nil_iff hd_replicate\<close>)
  moreover have "l @ ?r = p @ NUL # drop (Suc (length p)) (l @ ?r)"
    using arg_cong [OF t, of "\<lambda>x. x @ drop (Suc (length p)) (l @ ?r)"]
    by (simp only: append_take_drop_id) simp
  moreover have "takeWhile (\<lambda>ch. ch \<noteq> NUL) (p @ NUL # x) = p" for x
    by (subst takeWhile_append2) (use assms(3) in auto)
  ultimately show "l = p" by metis
qed

lemma strcmp_passwd: "line_rep c l \<Longrightarrow> strcmp_equal passwd (cInputString c) \<longleftrightarrow> l = passwd"
  by (rule strcmp_line) (simp_all add: passwd_def)

definition locked :: "cli \<Rightarrow> string \<Rightarrow> bool" where
  "locked c l \<longleftrightarrow> line_rep c l \<and> \<not> permission c \<and> status c = 0"

lemma collect_newline:
  "newline ch \<Longrightarrow> \<not> permission c \<Longrightarrow> collect_char ch c = send pcNewLine (c\<lparr>status := 1\<rparr>)"
  by (simp add: collect_char_def Let_def)

lemma newline_locked:
  assumes "locked c l" "newline ch" "l \<noteq> passwd"
  shows "\<exists>c'. cli_char prefix cmds ch (c, s) = Some (c', s) \<and> locked c' [] \<and>
    vars c' = vars c \<and> cur_cmd c' = cur_cmd c \<and> help_cmd c' = help_cmd c"
proof -
  let ?c = "send pcNewLine (c\<lparr>status := 2\<rparr>)"
  have r: "line_rep ?c l" using assms(1) by (simp add: locked_def line_rep_fields)
  have "\<not> strcmp_equal passwd (cInputString ?c)" using strcmp_passwd [OF r] assms(3) by simp
  then show ?thesis using assms(1,2)
    by (simp add: cli_char_def collect_newline locked_def check_permission_def check_password_def
        run_command_def clear_input_def line_rep_def send_def cmdMAX_INPUT_SIZE_def)
qed

lemma newline_login:
  assumes "locked c passwd" "newline ch"
  shows "\<exists>c'. cli_char prefix cmds ch (c, s) = Some (c', s) \<and> line_rep c' [] \<and> permission c' \<and>
    status c' = 0 \<and> vars c' = vars c \<and> cur_cmd c' = cur_cmd c \<and> help_cmd c' = help_cmd c"
proof -
  let ?c = "send pcNewLine (c\<lparr>status := 2\<rparr>)"
  have r: "line_rep ?c passwd" using assms(1) by (simp add: locked_def line_rep_fields)
  have "strcmp_equal passwd (cInputString ?c)" using strcmp_passwd [OF r] by simp
  then show ?thesis using assms
    by (simp add: cli_char_def collect_newline locked_def check_permission_def check_password_def
        run_command_def clear_input_def line_rep_def send_def cmdMAX_INPUT_SIZE_def)
qed

text \<open>The lines typed, and the line that is still being typed.\<close>

fun typed :: "string \<Rightarrow> string \<Rightarrow> string list \<times> string" where
  "typed l [] = ([], l)"
| "typed l (ch # cs) =
     (if newline ch then (case typed [] cs of (ls, l') \<Rightarrow> (l # ls, l')) else typed (edit l ch) cs)"

fun lines_fit :: "string \<Rightarrow> string \<Rightarrow> bool" where
  "lines_fit l [] \<longleftrightarrow> True"
| "lines_fit l (ch # cs) \<longleftrightarrow>
     (if newline ch then lines_fit [] cs else length (edit l ch) < 256 \<and> lines_fit (edit l ch) cs)"

lemma locked_run:
  assumes "locked c l" "lines_fit l cs" "typed l cs = (ls, l')" "passwd \<notin> set ls"
  shows "\<exists>c'. mid_cli_console_task prefix cmds cs (c, s) = Some (c', s) \<and> locked c' l' \<and>
    vars c' = vars c \<and> cur_cmd c' = cur_cmd c \<and> help_cmd c' = help_cmd c"
  using assms
proof (induction cs arbitrary: c l ls)
  case Nil
  then show ?case by (simp add: mid_cli_console_task_def)
next
  case (Cons ch cs)
  show ?case
  proof (cases "newline ch")
    case True
    with Cons.prems obtain ls0 where
      t: "typed [] cs = (ls0, l')" "ls = l # ls0" by (auto split: prod.splits)
    from newline_locked [OF Cons.prems(1) True, of prefix cmds s] Cons.prems(4) t(2) obtain c1 where
      1: "cli_char prefix cmds ch (c, s) = Some (c1, s)" "locked c1 []"
        "vars c1 = vars c" "cur_cmd c1 = cur_cmd c" "help_cmd c1 = help_cmd c" by auto
    from Cons.IH [OF 1(2) _ t(1)] Cons.prems(2,4) t(2) True 1 show ?thesis
      by (auto simp: mid_cli_console_task_def)
  next
    case False
    have r: "line_rep c l" "status c = 0" using Cons.prems(1) by (simp_all add: locked_def)
    have len: "length (edit l ch) < 256" using Cons.prems(2) False by simp
    note e = collect_edit [OF r(1) False len]
    have "locked (collect_char ch c) (edit l ch)"
      using e Cons.prems(1) by (simp add: locked_def same_core_def)
    from Cons.IH [OF this _ _ Cons.prems(4)] Cons.prems(2,3) False e(2)
      char_edit [OF r(1) False len r(2), of prefix cmds s] show ?thesis
      by (auto simp: mid_cli_console_task_def same_core_def)
  qed
qed

lemma init_locked: "locked cli_init []"
  by (simp add: locked_def line_rep_def cli_init_def cmdMAX_INPUT_SIZE_def)

text \<open>
  Claim C22.  Nothing runs before the password: from power-up, whatever is typed, with any editing and
  in lines that fit the buffer, as long as none of the lines entered is the password, the console
  never faults, grants no permission, and no command touches the application.\<close>

theorem cli_locked_without_password:
  assumes "lines_fit [] cs" "passwd \<notin> set (fst (typed [] cs))"
  shows "\<exists>c. mid_cli_console_task prefix cmds cs (cli_init, s) = Some (c, s) \<and> \<not> permission c"
proof -
  obtain ls l where t: "typed [] cs = (ls, l)" by fastforce
  with locked_run [OF init_locked assms(1) t, of prefix cmds s] assms(2) show ?thesis
    by (auto simp: locked_def)
qed

theorem cli_locked_without_password_witness:
  "\<exists>c. mid_cli_console_task '' > '' [] (''jh'' @ [CHR 0x0D] @ ''reboot'' @ [CHR 0x0D]) (cli_init, True) =
     Some (c, True) \<and> \<not> permission c"
  by (rule cli_locked_without_password)
    (simp_all add: newline_def ascii_defs edit_def printable_def passwd_def)

text \<open>
  The password opens the console: after any lines that are not the password, a line that
  is edited into the password grants the permission, with an empty line buffer and clean
  argument memory, and without touching the application.\<close>

theorem cli_password_opens:
  assumes "lines_fit [] cs" "passwd \<notin> set (fst (typed [] cs))" "snd (typed [] cs) = passwd"
    and "newline ch"
  shows "\<exists>c. mid_cli_console_task prefix cmds (cs @ [ch]) (cli_init, s) = Some (c, s) \<and>
    permission c \<and> status c = 0 \<and> line_rep c [] \<and>
    vars c = replicate 200 NUL \<and> cur_cmd c = None \<and> help_cmd c = None"
proof -
  obtain ls where t: "typed [] cs = (ls, passwd)" using assms(3) by (metis prod.collapse)
  from locked_run [OF init_locked assms(1) t, of prefix cmds s] assms(2) t obtain c where
    1: "mid_cli_console_task prefix cmds cs (cli_init, s) = Some (c, s)" "locked c passwd"
      "vars c = vars cli_init" "cur_cmd c = cur_cmd cli_init" "help_cmd c = help_cmd cli_init" by auto
  from newline_login [OF 1(2) assms(4), of prefix cmds s] 1 show ?thesis
    by (auto simp: mid_cli_console_task_def fold_opt_append cli_init_def size_defs)
qed

text \<open>Typed with a mistake that is deleted again.\<close>

theorem cli_password_opens_witness:
  "\<exists>c. mid_cli_console_task '' > '' [] ((''jk'' @ [CHR 0x08] @ ''hg'') @ [CHR 0x0D]) (cli_init, True) =
     Some (c, True) \<and> permission c"
proof -
  let ?cs = "''jk'' @ [CHR 0x08] @ ''hg''"
  have "lines_fit [] ?cs" "passwd \<notin> set (fst (typed [] ?cs))" "snd (typed [] ?cs) = passwd"
    by (simp_all add: newline_def ascii_defs edit_def printable_def passwd_def)
  from cli_password_opens [OF this, of "CHR 0x0D" "'' > ''" "[]" True] show ?thesis
    by (auto simp: newline_def ascii_defs)
qed

section \<open>The arguments\<close>

abbreviation (input) SPACE :: char where "SPACE \<equiv> CHR '' ''"

fun join :: "string list \<Rightarrow> string" where
  "join [] = []"
| "join [w] = w"
| "join (w # v # ws) = w @ SPACE # join (v # ws)"

definition word_ok :: "string \<Rightarrow> bool" where
  "word_ok w \<longleftrightarrow> w \<noteq> [] \<and> length w < 20 \<and> SPACE \<notin> set w \<and> NUL \<notin> set w"

definition pad :: "string \<Rightarrow> string" where
  "pad w = w @ replicate (20 - length w) NUL"

definition rows :: "string list \<Rightarrow> string" where
  "rows ws = concat (map pad ws) @ replicate (200 - 20 * length ws) NUL"

lemma length_pads: "(\<And>w. w \<in> set ws \<Longrightarrow> word_ok w) \<Longrightarrow> length (concat (map pad ws)) = 20 * length ws"
proof (induction ws)
  case (Cons w ws)
  have "length w < 20" using Cons.prems [of w] by (simp add: word_ok_def)
  then have "length (pad w) = 20" by (simp add: pad_def)
  with Cons show ?case by simp
qed simp

lemma sint_u8_of_nat: "n < 128 \<Longrightarrow> sint (of_nat n :: u8) = int n"
  by (simp add: signed_of_nat signed_take_bit_int_eq_self)

text \<open>One character of word number \<open>length ws\<close>, after its first characters \<open>u\<close>.\<close>

lemma put_arg_row:
  assumes "length a = 20 * num" "num < 10" "length u < 20" "length u + m = 200 - 20 * num"
  shows "put_arg (of_nat num) (of_nat (length u)) ch (a @ u @ replicate m NUL) =
    Some (a @ u @ ch # replicate (m - 1) NUL)"
proof -
  have m: "m = Suc (m - 1)" using assms by simp
  have "(a @ u @ replicate m NUL)[20 * num + length u := ch] = a @ u @ ch # replicate (m - 1) NUL"
    using assms(1) by (subst m) (simp add: list_update_append del: One_nat_def)
  moreover have "20 * num + length u < length (a @ u @ replicate m NUL)" using assms by simp
  moreover have "sint (of_nat num :: u8) = int num" "sint (of_nat (length u) :: u8) = int (length u)"
    using assms(2,3) by (simp_all add: sint_u8_of_nat)
  moreover have "nat (int num * 20 + int (length u)) = 20 * num + length u" by simp
  ultimately show ?thesis
    using assms(2) by (simp add: put_arg_def size_defs Let_def put_def)
qed

lemma split_chars:
  assumes "length a = 20 * num" "num < 10" "length u + length w < 20" "SPACE \<notin> set w"
  shows "split_loop (w @ cs) (of_nat num) (of_nat (length u)) b (a @ u @ replicate (200 - 20 * num - length u) NUL) =
    split_loop cs (of_nat num) (of_nat (length u + length w)) (b \<and> w = [])
      (a @ (u @ w) @ replicate (200 - 20 * num - length u - length w) NUL)"
  using assms(3,4)
proof (induction w arbitrary: u b)
  case (Cons ch w)
  have l: "20 \<le> 200 - 20 * num" using assms(2) by simp
  have "length u < 20" "length u + (200 - 20 * num - length u) = 200 - 20 * num"
    using Cons.prems(1) l by simp_all
  note p = put_arg_row [OF assms(1,2) this, of ch]
  let ?m = "200 - 20 * num - length (u @ [ch])"
  have m: "200 - 20 * num - length u - 1 = ?m" by simp
  have i: "of_nat (length u) + 1 = (of_nat (length (u @ [ch])) :: u8)" by (simp add: add.commute)
  have "ch \<noteq> SPACE" using Cons.prems(2) by auto
  with p have "split_loop ((ch # w) @ cs) (of_nat num) (of_nat (length u)) b
      (a @ u @ replicate (200 - 20 * num - length u) NUL) =
    split_loop (w @ cs) (of_nat num) (of_nat (length (u @ [ch]))) False (a @ (u @ [ch]) @ replicate ?m NUL)"
    unfolding m i [symmetric] by simp
  also have "\<dots> = split_loop cs (of_nat num) (of_nat (length (u @ [ch]) + length w)) False
      (a @ ((u @ [ch]) @ w) @ replicate (?m - length w) NUL)"
    using Cons.IH [of "u @ [ch]" False] Cons.prems by simp
  finally show ?case by simp
qed simp

lemma rows_step:
  assumes "length ds < 10" "length w < 20"
  shows "concat (map pad ds) @ w @ replicate (200 - 20 * length ds - length w) NUL = rows (ds @ [w])"
proof -
  have "200 - 20 * length ds - length w = (20 - length w) + (180 - 20 * length ds)"
    using assms by arith
  then have "replicate (200 - 20 * length ds - length w) NUL =
      replicate (20 - length w) NUL @ replicate (180 - 20 * length ds) NUL" by (simp only: replicate_add)
  then show ?thesis by (simp add: rows_def pad_def del: diff_diff_left)
qed

lemma split_word:
  assumes d: "\<And>w. w \<in> set ds \<Longrightarrow> word_ok w" and n: "length ds < 10" and w: "word_ok w"
  shows "split_loop (w @ cs) (of_nat (length ds)) 0 b (rows ds) =
    split_loop cs (of_nat (length ds)) (of_nat (length w)) False (rows (ds @ [w]))"
proof -
  let ?a = "concat (map pad ds)" and ?n = "length ds"
  have a: "length ?a = 20 * ?n" using d by (rule length_pads)
  have l: "length [] + length w < 20" "SPACE \<notin> set w" "w \<noteq> []" using w by (simp_all add: word_ok_def)
  have r: "rows ds = ?a @ replicate (200 - 20 * ?n) NUL" by (simp add: rows_def)
  have "split_loop (w @ cs) (of_nat ?n) 0 b (rows ds) =
    split_loop cs (of_nat ?n) (of_nat (length w)) (b \<and> w = [])
      (?a @ w @ replicate (200 - 20 * ?n - length w) NUL)"
    unfolding r using split_chars [OF a n l(1,2), of cs b]
    by (simp only: list.size(3) append_Nil minus_nat.diff_0 add_0_left semiring_1_class.of_nat_0)
  then show ?thesis using rows_step [OF n, of w] l by simp
qed

lemma split_space:
  assumes d: "\<And>w. w \<in> set ds \<Longrightarrow> word_ok w" and n: "length ds < 10" and w: "word_ok w"
  shows "split_loop (SPACE # cs) (of_nat (length ds)) (of_nat (length w)) False (rows (ds @ [w])) =
    split_loop cs (of_nat (length (ds @ [w]))) 0 True (rows (ds @ [w]))"
proof -
  let ?a = "concat (map pad ds)" and ?n = "length ds"
  have a: "length ?a = 20 * ?n" using d by (rule length_pads)
  have l: "length w < 20" "length w + (200 - 20 * ?n - length w) = 200 - 20 * ?n"
    using w n by (simp_all add: word_ok_def)
  note r = rows_step [OF n l(1)]
  let ?m = "200 - 20 * ?n - length w"
  have "NUL # replicate (?m - 1) NUL = replicate ?m NUL"
    using n l(1) by (cases ?m) simp_all
  with put_arg_row [OF a n l, of NUL] r
  have "put_arg (of_nat ?n) (of_nat (length w)) NUL (rows (ds @ [w])) = Some (rows (ds @ [w]))"
    by simp
  then show ?thesis by (simp add: add.commute)
qed

lemma split_words:
  assumes "\<And>w. w \<in> set ds \<Longrightarrow> word_ok w" "\<And>w. w \<in> set ws \<Longrightarrow> word_ok w" "ws \<noteq> []"
    and "length ds + length ws \<le> 10"
  shows "split_loop (join ws) (of_nat (length ds)) 0 b (rows ds) =
    Some (of_nat (length ds + length ws - 1), rows (ds @ ws))"
  using assms
proof (induction ws arbitrary: ds b rule: join.induct)
  case (2 w)
  have "word_ok w" "length ds < 10" using 2(2,4) by simp_all
  from split_word [OF 2(1) this(2,1), where cs = "[]" and b = b] show ?case by simp
next
  case (3 w v ws)
  have n: "length ds < 10" and w: "word_ok w" using 3(3,5) by simp_all
  have ih: "split_loop (join (v # ws)) (of_nat (length (ds @ [w]))) 0 True (rows (ds @ [w])) =
    Some (of_nat (length (ds @ [w]) + length (v # ws) - 1), rows ((ds @ [w]) @ v # ws))"
  proof (rule 3(1))
    show "word_ok u" if "u \<in> set (ds @ [w])" for u using that 3(2) w by auto
    show "word_ok u" if "u \<in> set (v # ws)" for u using that 3(3) by auto
    show "v # ws \<noteq> []" by simp
    show "length (ds @ [w]) + length (v # ws) \<le> 10" using 3(5) by simp
  qed
  have "split_loop (join (w # v # ws)) (of_nat (length ds)) 0 b (rows ds) =
    split_loop (SPACE # join (v # ws)) (of_nat (length ds)) (of_nat (length w)) False (rows (ds @ [w]))"
    unfolding join.simps by (rule split_word [OF 3(2) n w])
  also note split_space [OF 3(2) n w]
  also note ih
  finally show ?case by simp
qed simp

lemma argv_rows:
  assumes "\<And>w. w \<in> set ws \<Longrightarrow> word_ok w" "i < length ws"
  shows "argv (rows ws) i = Some (ws ! i)"
proof -
  have ws: "ws = take i ws @ ws ! i # drop (Suc i) ws" using assms(2) by (simp add: id_take_nth_drop)
  have w: "word_ok (ws ! i)" using assms by simp
  have "length (concat (map pad (take i ws))) = 20 * i"
    using length_pads [of "take i ws"] assms by (auto dest: in_set_takeD)
  moreover have "rows ws = concat (map pad (take i ws)) @ pad (ws ! i) @
      concat (map pad (drop (Suc i) ws)) @ replicate (200 - 20 * length ws) NUL"
    by (subst (1 2) ws) (simp add: rows_def)
  ultimately have d: "drop (20 * i) (rows ws) = pad (ws ! i) @
      concat (map pad (drop (Suc i) ws)) @ replicate (200 - 20 * length ws) NUL" by simp
  have "\<exists>x. pad (ws ! i) = ws ! i @ NUL # x"
    using w by (cases "20 - length (ws ! i)") (auto simp: pad_def word_ok_def)
  then obtain x where x: "drop (20 * i) (rows ws) = ws ! i @ NUL # x" using d by auto
  have "takeWhile (\<lambda>ch. ch \<noteq> NUL) (ws ! i @ NUL # x) = ws ! i"
    by (subst takeWhile_append2) (use w in \<open>auto simp: word_ok_def\<close>)
  with x show ?thesis by (simp add: argv_def cstring_def size_defs)
qed

lemma rows_Nil: "rows [] = replicate 200 NUL"
  by (simp add: rows_def)

section \<open>Finding and running a command\<close>

lemma join_set: "(\<And>w. w \<in> set ws \<Longrightarrow> word_ok w) \<Longrightarrow> NUL \<notin> set (join ws)"
  by (induction ws rule: join.induct) (auto simp: word_ok_def)

lemma join_first:
  "join (w # ws) = w \<or> (\<exists>x. join (w # ws) = w @ SPACE # x)"
  by (cases ws) simp_all

text \<open>The test of the loop compares the first word with the name.\<close>

lemma command_matches_first:
  assumes r: "line_rep c (join (w # ws))" and w: "word_ok w" and n: "SPACE \<notin> set name" "NUL \<notin> set name"
    and len: "length name < 256"
  shows "command_matches (cInputString c) name \<longleftrightarrow> name = w"
proof -
  let ?l = "join (w # ws)"
  have "\<exists>ch x. cInputString c = w @ ch # x \<and> (ch = SPACE \<or> ch = NUL)"
    using join_first [of w ws]
  proof
    assume e: "?l = w"
    have "length ?l < 256" using r by (simp add: line_rep_def)
    then have "256 - length ?l = Suc (255 - length ?l)" by arith
    with r e show ?thesis by (auto simp: line_rep_def)
  next
    assume "\<exists>x. ?l = w @ SPACE # x"
    with r show ?thesis by (auto simp: line_rep_def)
  qed
  then obtain ch x where b: "cInputString c = w @ ch # x" "ch = SPACE \<or> ch = NUL" by blast
  show ?thesis
  proof
    assume "name = w"
    with b show "command_matches (cInputString c) name"
      by (simp add: command_matches_def strncmp_equal_def)
  next
    assume m: "command_matches (cInputString c) name"
    then have t: "take (length name) (w @ ch # x) = name"
      and e: "(w @ ch # x) ! length name = SPACE \<or> (w @ ch # x) ! length name = NUL"
      by (simp_all add: command_matches_def strncmp_equal_def b(1))
    consider "length name < length w" | "length name = length w" | "length w < length name" by linarith
    then show "name = w"
    proof cases
      case 1
      then have "(w @ ch # x) ! length name \<in> set w" by (simp add: nth_append)
      with e w show ?thesis by (auto simp: word_ok_def)
    next
      case 2
      with t show ?thesis by simp
    next
      case 3
      then have "length w < length (take (length name) (w @ ch # x))" using t by simp
      then have "ch \<in> set (take (length name) (w @ ch # x))"
        using 3 by (simp add: take_Cons')
      with t b(2) n show ?thesis by auto
    qed
  qed
qed

text \<open>A registry with usable names, none of them twice.\<close>

definition registry_ok :: "'s command list \<Rightarrow> bool" where
  "registry_ok cmds \<longleftrightarrow> distinct (map (name_at cmds) [0..<Suc (length cmds)]) \<and>
     (\<forall>k<Suc (length cmds). SPACE \<notin> set (name_at cmds k) \<and> NUL \<notin> set (name_at cmds k) \<and>
        length (name_at cmds k) < 256)"

lemma find_unique:
  assumes "k \<in> set ks" "P k" "\<And>j. j \<in> set ks \<Longrightarrow> P j \<Longrightarrow> j = k"
  shows "find P ks = Some k"
  using assms
proof (induction ks)
  case (Cons a ks)
  show ?case
  proof (cases "P a")
    case True
    then have "a = k" using Cons.prems(3) [of a] by simp
    with True show ?thesis by simp
  next
    case False
    with Cons.prems(1,2) have "k \<in> set ks" by auto
    from Cons.IH [OF this Cons.prems(2)] Cons.prems(3) False show ?thesis by simp
  qed
qed simp

lemma find_cmd_word:
  assumes "registry_ok cmds" "line_rep c (join (name_at cmds k # ws))" "word_ok (name_at cmds k)"
    and "k \<le> length cmds"
  shows "find_cmd cmds (cInputString c) = Some k"
  unfolding find_cmd_def
proof (rule find_unique)
  have m: "command_matches (cInputString c) (name_at cmds j) \<longleftrightarrow> name_at cmds j = name_at cmds k"
    if "j < Suc (length cmds)" for j
    using assms(1) that by (intro command_matches_first [OF assms(2,3)]) (auto simp: registry_ok_def)
  have k: "k < Suc (length cmds)" using assms(4) by simp
  then show km: "k \<in> set [0..<Suc (length cmds)]" by (simp only: set_upt atLeastLessThan_iff) simp
  show "command_matches (cInputString c) (name_at cmds k)" using m [OF k] by simp
  fix j assume j: "j \<in> set [0..<Suc (length cmds)]" "command_matches (cInputString c) (name_at cmds j)"
  have inj: "inj_on (name_at cmds) (set [0..<Suc (length cmds)])"
    using assms(1) by (simp only: registry_ok_def distinct_map)
  have "j < Suc (length cmds)" using j(1) by (simp only: set_upt atLeastLessThan_iff)
  then have "name_at cmds j = name_at cmds k" using j(2) m [of j] by simp
  then show "j = k" by (rule inj_onD [OF inj _ j(1) km])
qed

text \<open>The console with the permission, an empty command state and clean arguments.\<close>

definition ready :: "cli \<Rightarrow> string \<Rightarrow> bool" where
  "ready c l \<longleftrightarrow> line_rep c l \<and> permission c \<and> status c = 0 \<and> vars c = rows [] \<and>
     cur_cmd c = None \<and> help_cmd c = None"

lemma ready_newline:
  assumes "ready c l" "newline ch" "l \<noteq> []"
  defines "c1 \<equiv> send pcNewLine ((send [ch] c)\<lparr>status := 3\<rparr>)"
  shows "cli_char prefix cmds ch (c, s) = do {
      (c, s) \<leftarrow> exec_loop cmds c1 s;
      Some ((send prefix ((clear_input c)\<lparr>vars := rows []\<rparr>))\<lparr>status := 0\<rparr>, s)
    }"
proof -
  have r: "line_rep c l" using assms(1) by (simp add: ready_def)
  have ch: "ch \<noteq> cmdASCII_BS" using assms(2) by (auto simp: newline_def ascii_defs)
  have "check_password (check_permission (collect_char ch c)) = c1"
    using assms(1,2) ch
    by (simp add: collect_char_def check_permission_def check_password_def Let_def ready_def c1_def send_def)
  moreover have "inputIndex c1 \<noteq> 0" "status c1 = 3"
    using line_index(2) [OF r] assms(3) by (simp_all add: c1_def)
  ultimately show ?thesis using assms(1)
    by (simp add: cli_char_def run_command_def ready_def rows_Nil size_defs
        split: Option.bind_split)
qed

lemma join_words_line:
  assumes "line_rep c (join ws)" "\<And>w. w \<in> set ws \<Longrightarrow> word_ok w"
  shows "cstring (cInputString c) = Some (join ws)"
proof -
  have n: "NUL \<notin> set (join ws)" by (rule join_set [OF assms(2)])
  have "length (join ws) < 256" using assms(1) by (simp add: line_rep_def)
  then obtain k where "256 - length (join ws) = Suc k" by (cases "256 - length (join ws)") auto
  then have b: "cInputString c = join ws @ NUL # replicate k NUL"
    using assms(1) by (simp add: line_rep_def)
  have "takeWhile (\<lambda>ch. ch \<noteq> NUL) (join ws @ NUL # replicate k NUL) = join ws"
    by (subst takeWhile_append2) (use n in auto)
  then show ?thesis by (simp add: cstring_def b)
qed

text \<open>A command of the registry with its arguments, ready to be run.\<close>

definition command_line :: "'s command list \<Rightarrow> nat \<Rightarrow> string list \<Rightarrow> bool" where
  "command_line cmds k ws \<longleftrightarrow> registry_ok cmds \<and> k \<le> length cmds \<and>
     (\<forall>w\<in>set (name_at cmds k # ws). word_ok w) \<and> length ws \<le> 9 \<and>
     uint (expect_at cmds k) = int (length ws)"

lemma parse_dispatch:
  assumes l: "command_line cmds k ws" and c: "line_rep c (join (name_at cmds k # ws))"
    "vars c = rows []" "cur_cmd c = None"
  shows "mid_cli_parse_command cmds c s = do {
      (more, c, s) \<leftarrow> run_handle cmds k (c\<lparr>vars := rows (name_at cmds k # ws), cOutputString := []\<rparr>) s;
      Some (more, c\<lparr>cur_cmd := if more then Some k else None\<rparr>, s)
    }"
proof -
  let ?ws = "name_at cmds k # ws"
  have w: "word_ok u" if "u \<in> set ?ws" for u using l that by (auto simp: command_line_def)
  have f: "find_cmd cmds (cInputString c) = Some k"
    by (rule find_cmd_word [OF _ c(1)]) (use l in \<open>simp_all add: command_line_def\<close>)
  have "split_loop (join ?ws) (of_nat (length ([] :: string list))) 0 False (rows []) =
      Some (of_nat (length ([] :: string list) + length ?ws - 1), rows ([] @ ?ws))"
    by (rule split_words) (use w l in \<open>simp_all add: command_line_def\<close>)
  then have sp: "mid_cli_string_split (cInputString c) (vars c) = Some (of_nat (length ws), rows ?ws)"
    using join_words_line [OF c(1) w] c(2) by (simp add: mid_cli_string_split_def)
  have n: "sint (of_nat (length ws) :: u8) = uint (expect_at cmds k)"
    using l sint_u8_of_nat [of "length ws"] by (simp add: command_line_def)
  show ?thesis
    by (simp add: mid_cli_parse_command_def c(3) f sp n)
qed

lemma exec_once:
  assumes "mid_cli_parse_command cmds (c\<lparr>cOutputString := []\<rparr>) s = Some (False, c', s')"
  shows "exec_loop cmds c s = Some (c'\<lparr>tx := tx c' @ cOutputString c'\<rparr>, s')"
  using assms by (simp add: exec_loop.simps [of cmds c s])

text \<open>
  The calls of a handler with one \<open>argv\<close>, until it answers pdFALSE: what each writes, which must fit the
  output buffer, and the state after the last.
\<close>

fun command_runs :: "'s command \<Rightarrow> string \<Rightarrow> 's \<Rightarrow> string list \<Rightarrow> 's \<Rightarrow> bool" where
  "command_runs cmd v s [] s' \<longleftrightarrow> False"
| "command_runs cmd v s (out # outs) s' \<longleftrightarrow>
     (case handle cmd v s of
        None \<Rightarrow> False
      | Some (out', again, s1) \<Rightarrow> out' = out \<and> length out < 256 \<and>
          (if again then command_runs cmd v s1 outs s' else outs = [] \<and> s1 = s'))"

lemma parse_continue:
  assumes "cur_cmd c = Some k"
  shows "mid_cli_parse_command cmds c s = do {
      (more, c, s) \<leftarrow> run_handle cmds k (c\<lparr>cOutputString := []\<rparr>) s;
      Some (more, c\<lparr>cur_cmd := if more then Some k else None\<rparr>, s)
    }"
  using assms by (simp add: mid_cli_parse_command_def)

lemma exec_run:
  assumes "command_runs (cmds ! k) (vars c) s outs s'" "cur_cmd c = Some (Suc k)"
  shows "exec_loop cmds c s =
    Some (c\<lparr>cOutputString := last outs, cur_cmd := None, tx := tx c @ concat outs\<rparr>, s')"
  using assms
proof (induction outs arbitrary: c s)
  case (Cons out outs)
  then obtain again s1 where h: "handle (cmds ! k) (vars c) s = Some (out, again, s1)" "length out < 256"
    "if again then command_runs (cmds ! k) (vars c) s1 outs s' else outs = [] \<and> s1 = s'"
    by (auto split: option.splits)
  let ?c = "c\<lparr>cOutputString := out, cur_cmd := if again then Some (Suc k) else None\<rparr>"
  have p: "mid_cli_parse_command cmds (c\<lparr>cOutputString := []\<rparr>) s = Some (again, ?c, s1)"
    using h(1,2) Cons.prems(2) by (simp add: parse_continue run_handle_def put_output_def size_defs)
  show ?case
  proof (cases again)
    case True
    then have r: "command_runs (cmds ! k) (vars c) s1 outs s'" using h(3) by simp
    then have "outs \<noteq> []" by auto
    moreover have "exec_loop cmds c s = exec_loop cmds (?c\<lparr>tx := tx c @ out\<rparr>) s1"
      using True p by (simp add: exec_loop.simps [of cmds c s])
    moreover have "exec_loop cmds (?c\<lparr>tx := tx c @ out\<rparr>) s1 =
        Some ((?c\<lparr>tx := tx c @ out\<rparr>)\<lparr>cOutputString := last outs, cur_cmd := None,
          tx := (tx c @ out) @ concat outs\<rparr>, s')"
      using Cons.IH [of "?c\<lparr>tx := tx c @ out\<rparr>" s1] r True by simp
    ultimately show ?thesis by (cases c) simp
  next
    case False
    with exec_once [of cmds c s ?c s1] p h(3) show ?thesis by (cases c) simp
  qed
qed simp

lemma dispatch_ok:
  assumes "command_line cmds (Suc k) ws" "ready c (join (name_at cmds (Suc k) # ws))" "newline ch"
    and "command_runs (cmds ! k) (rows (name_at cmds (Suc k) # ws)) s outs s'"
  shows "\<exists>c'. cli_char prefix cmds ch (c, s) = Some (c', s') \<and> ready c' [] \<and>
    tx c' = tx c @ [ch] @ pcNewLine @ concat outs @ prefix \<and>
    (\<forall>i<Suc (length ws). argv (rows (name_at cmds (Suc k) # ws)) i = Some ((name_at cmds (Suc k) # ws) ! i))"
proof -
  let ?ws = "name_at cmds (Suc k) # ws" and ?c = "send pcNewLine ((send [ch] c)\<lparr>status := 3\<rparr>)"
  let ?d = "?c\<lparr>vars := rows ?ws, cur_cmd := Some (Suc k)\<rparr>"
  have w: "word_ok u" if "u \<in> set ?ws" for u using assms(1) that by (auto simp: command_line_def)
  have ne: "join ?ws \<noteq> []" using w [of "name_at cmds (Suc k)"] join_first [of "name_at cmds (Suc k)" ws]
    by (auto simp: word_ok_def)
  have c: "line_rep (?c\<lparr>cOutputString := []\<rparr>) (join ?ws)" "vars (?c\<lparr>cOutputString := []\<rparr>) = rows []"
    "cur_cmd (?c\<lparr>cOutputString := []\<rparr>) = None" "permission ?c" "help_cmd ?c = None"
    using assms(2) by (simp_all add: ready_def line_rep_def)
  have "mid_cli_parse_command cmds (?c\<lparr>cOutputString := []\<rparr>) s =
      mid_cli_parse_command cmds (?d\<lparr>cOutputString := []\<rparr>) s"
    unfolding parse_dispatch [OF assms(1) c(1-3)]
    by (simp add: parse_continue run_handle_def put_output_def bind_eq_None_conv case_prod_beta)
      (cases "handle (cmds ! k) (rows ?ws) s"; simp add: case_prod_beta)
  moreover have "tx ?c = tx ?d" by simp
  ultimately have "exec_loop cmds ?c s = exec_loop cmds ?d s"
    by (simp add: exec_loop.simps [of cmds ?c s] exec_loop.simps [of cmds ?d s])
  also have "\<dots> = Some (?d\<lparr>cOutputString := last outs, cur_cmd := None, tx := tx ?d @ concat outs\<rparr>, s')"
    by (rule exec_run) (use assms(4) in simp_all)
  finally have e: "exec_loop cmds ?c s =
      Some (?d\<lparr>cOutputString := last outs, cur_cmd := None, tx := tx ?d @ concat outs\<rparr>, s')" .
  have t: "tx ?c = tx c @ [ch] @ pcNewLine" by (simp add: send_def)
  have "argv (rows ?ws) i = Some (?ws ! i)" if "i < Suc (length ws)" for i
    by (rule argv_rows) (use w that in simp_all)
  moreover have "\<exists>c'. cli_char prefix cmds ch (c, s) = Some (c', s') \<and> ready c' [] \<and>
      tx c' = tx c @ [ch] @ pcNewLine @ concat outs @ prefix"
    unfolding ready_newline [OF assms(2,3) ne] e using c t
    by (simp add: ready_def line_rep_def clear_input_def send_def cmdMAX_INPUT_SIZE_def rows_Nil)
  ultimately show ?thesis by blast
qed

text \<open>
  Claim C23.  Commands are dispatched right: with the permission, a line made of the name of a
  registered command and as many words as it expects (each of 1 to 19 characters, at most
  ten in all), followed by a newline, calls the handler of exactly that command, with \<open>argv\<close> holding
  exactly those words, again and again as long as it answers pdTRUE (once for a handler that answers pdFALSE at
  the first call), sends the output of every call in order and then the prompt, and leaves the console ready for
  the next line.  Each call must write fewer than 256 characters, the size of the output buffer, and some call must
  answer pdFALSE.\<close>

theorem cli_dispatch:
  assumes "command_line cmds (Suc k) ws" "ready c (join (name_at cmds (Suc k) # ws))" "newline ch"
    and "command_runs (cmds ! k) (rows (name_at cmds (Suc k) # ws)) s outs s'"
  shows "\<exists>c'. cli_char prefix cmds ch (c, s) = Some (c', s') \<and> ready c' [] \<and>
    tx c' = tx c @ [ch] @ pcNewLine @ concat outs @ prefix \<and>
    (\<forall>i<Suc (length ws). argv (rows (name_at cmds (Suc k) # ws)) i = Some ((name_at cmds (Suc k) # ws) ! i))"
  by (rule dispatch_ok [OF assms])

lemma type_char:
  assumes "ready c l" "printable ch" "length l < 255"
  shows "\<exists>c'. cli_char prefix cmds ch (c, s) = Some (c', s) \<and> ready c' (l @ [ch]) \<and> tx c' = tx c @ [ch]"
proof -
  have nl: "\<not> newline ch" "ch \<noteq> cmdASCII_BS" using assms(2) by (auto simp: newline_def printable_def ascii_defs)
  then have e: "edit l ch = l @ [ch]" using assms(2) by (simp add: edit_def)
  have r: "line_rep c l" "status c = 0" "permission c" using assms(1) by (simp_all add: ready_def)
  have len: "length (edit l ch) < 256" using assms(3) e by simp
  have "tx (collect_char ch c) = tx c @ [ch]"
    using nl assms(2) r(3) by (simp add: collect_char_def Let_def send_def)
  with collect_edit [OF r(1) nl(1) len] char_edit [OF r(1) nl(1) len r(2), of prefix cmds s] assms(1) e
  show ?thesis by (auto simp: ready_def same_core_def)
qed

text \<open>Typing printable characters at the prompt: they are echoed and gathered, and nothing runs.\<close>

lemma type_line:
  assumes "ready c l" "\<And>ch. ch \<in> set t \<Longrightarrow> printable ch" "length l + length t < 256"
  shows "\<exists>c'. mid_cli_console_task prefix cmds t (c, s) = Some (c', s) \<and> ready c' (l @ t) \<and> tx c' = tx c @ t"
  using assms
proof (induction t arbitrary: c l)
  case (Cons ch t)
  have "length l < 255" "printable ch" using Cons.prems(2,3) by simp_all
  from type_char [OF Cons.prems(1) this(2,1), of prefix cmds s] obtain c1 where
    c1: "cli_char prefix cmds ch (c, s) = Some (c1, s)" "ready c1 (l @ [ch])" "tx c1 = tx c @ [ch]" by blast
  from Cons.IH [OF c1(2)] Cons.prems(2,3) c1 show ?case by (auto simp: mid_cli_console_task_def)
qed (simp add: mid_cli_console_task_def)

lemma join_printable:
  "\<forall>w\<in>set us. \<forall>x\<in>set w. printable x \<Longrightarrow> \<forall>x\<in>set (join us). printable x"
proof -
  have "printable SPACE" by (simp add: printable_def)
  then show "\<forall>w\<in>set us. \<forall>x\<in>set w. printable x \<Longrightarrow> \<forall>x\<in>set (join us). printable x"
    by (induction us rule: join.induct) auto
qed

lemma line_runs:
  assumes "ready c []" "command_line cmds (Suc k) ws" "newline ch"
    and "\<And>w. w \<in> set ws \<Longrightarrow> \<forall>x\<in>set w. printable x"
    and "\<forall>x\<in>set (command_name (cmds ! k)). printable x"
    and "length (join (name_at cmds (Suc k) # ws)) < 256"
    and "handle (cmds ! k) (rows (name_at cmds (Suc k) # ws)) s = Some (out, False, s')" "length out < 256"
  shows "\<exists>c'. mid_cli_console_task prefix cmds (join (name_at cmds (Suc k) # ws) @ [ch]) (c, s) = Some (c', s') \<and>
    ready c' [] \<and> tx c' = tx c @ join (name_at cmds (Suc k) # ws) @ [ch] @ pcNewLine @ out @ prefix"
proof -
  let ?ws = "name_at cmds (Suc k) # ws"
  have "\<forall>w\<in>set ?ws. \<forall>x\<in>set w. printable x" using assms(4,5) by (auto simp: name_at_def)
  with join_printable [of ?ws] have "\<And>x. x \<in> set (join ?ws) \<Longrightarrow> printable x" by blast
  moreover have "length ([] :: string) + length (join ?ws) < 256" using assms(6) by simp
  ultimately obtain c1 where
    c1: "mid_cli_console_task prefix cmds (join ?ws) (c, s) = Some (c1, s)" "ready c1 (join ?ws)"
      "tx c1 = tx c @ join ?ws"
    using type_line [OF assms(1), of "join ?ws" prefix cmds s] unfolding append_Nil by blast
  have "command_runs (cmds ! k) (rows ?ws) s [out] s'" using assms(7,8) by simp
  from dispatch_ok [OF assms(2) c1(2) assms(3) this, of prefix] obtain c' where
    c': "cli_char prefix cmds ch (c1, s) = Some (c', s')" "ready c' []"
      "tx c' = tx c1 @ [ch] @ pcNewLine @ out @ prefix" by auto
  have "mid_cli_console_task prefix cmds (join ?ws @ [ch]) (c, s) = Some (c', s')"
    using c1(1) c'(1) unfolding mid_cli_console_task_def fold_opt_append by simp
  with c1(3) c'(2,3) show ?thesis by (intro exI [of _ c'] conjI) simp_all
qed

text \<open>A command that counts down: it is called again until its counter is 0.\<close>

definition sample_command :: "nat command" where
  "sample_command = \<lparr>command_name = ''top'', help_info = [],
     handle = (\<lambda>v n. map_option (\<lambda>a. (a, n > 0, n - 1)) (argv v 1)), expect_parame_num = 1\<rparr>"

definition typed_cli :: "string \<Rightarrow> cli" where
  "typed_cli l = cli_init\<lparr>permission := True, inputIndex := of_nat (length l),
     cInputString := l @ replicate (256 - length l) NUL\<rparr>"

lemma typed_cli_ready: "length l < 256 \<Longrightarrow> NUL \<notin> set l \<Longrightarrow> ready (typed_cli l) l"
  by (simp add: ready_def typed_cli_def cli_init_def line_rep_def rows_Nil size_defs)

lemma sample_command_line: "command_line [sample_command] (Suc 0) [''on'']"
  by (simp add: command_line_def registry_ok_def name_at_def expect_at_def sample_command_def
      word_ok_def less_Suc_eq)

theorem cli_dispatch_witness:
  "\<exists>c'. cli_char ''> '' [sample_command] cmdASCII_HEADLINE (typed_cli ''top on'', 2) = Some (c', 0) \<and>
    ready c' [] \<and> tx c' = [cmdASCII_HEADLINE] @ pcNewLine @ ''ononon> ''"
proof -
  let ?ws = "[''top'', ''on'']"
  have n: "name_at [sample_command] (Suc 0) = ''top''" by (simp add: name_at_def sample_command_def)
  have h: "command_runs ([sample_command] ! 0) (rows (name_at [sample_command] (Suc 0) # [''on''])) 2
      [''on'', ''on'', ''on''] 0"
  proof -
    have "argv (rows ?ws) 1 = Some (?ws ! 1)" by (rule argv_rows) (auto simp: word_ok_def)
    then show ?thesis by (simp add: n) (simp add: sample_command_def)
  qed
  have r: "ready (typed_cli ''top on'') (join (name_at [sample_command] (Suc 0) # [''on'']))"
    unfolding n by (simp add: typed_cli_ready)
  have nl: "newline cmdASCII_HEADLINE" by (simp add: newline_def)
  have t: "tx (typed_cli ''top on'') = []" by (simp add: typed_cli_def cli_init_def)
  from cli_dispatch [OF sample_command_line r nl h, of "''> ''"] t show ?thesis by auto
qed

section \<open>The help command\<close>

lemma parse_continue_help:
  assumes "cur_cmd c = Some 0"
  shows "mid_cli_parse_command cmds c s = do {
      (more, c) \<leftarrow> help_main cmds (c\<lparr>cOutputString := []\<rparr>);
      Some (more, c\<lparr>cur_cmd := if more then Some 0 else None\<rparr>, s)
    }"
  using assms by (cases "help_main cmds (c\<lparr>cOutputString := []\<rparr>)")
    (simp_all add: mid_cli_parse_command_def run_handle_def case_prod_beta)

lemma help_rest:
  assumes "\<And>k. k \<le> length cmds \<Longrightarrow> length (help_line cmds k) < 256"
    and "j \<le> length cmds" "cur_cmd c = Some 0" "help_cmd c = Some j"
  shows "\<exists>out. exec_loop cmds c s = Some (c\<lparr>cur_cmd := None, help_cmd := None, cOutputString := out,
    tx := tx c @ concat (map (help_line cmds) [j..<Suc (length cmds)])\<rparr>, s)"
  using assms(2-4)
proof (induction "length cmds - j" arbitrary: j c)
  case 0
  then have j: "j = length cmds" by simp
  have "mid_cli_parse_command cmds (c\<lparr>cOutputString := []\<rparr>) s =
      Some (False, c\<lparr>cOutputString := help_line cmds j, help_cmd := None, cur_cmd := None\<rparr>, s)"
    using 0 j assms(1) [of j]
    by (simp add: parse_continue_help help_main_def put_output_def size_defs)
  from exec_once [OF this] j show ?case by (cases c) simp
next
  case (Suc n)
  then have j: "j < length cmds" by simp
  let ?c = "c\<lparr>cOutputString := help_line cmds j, help_cmd := Some (Suc j), cur_cmd := Some 0\<rparr>"
  let ?c' = "?c\<lparr>tx := tx c @ help_line cmds j\<rparr>"
  have "mid_cli_parse_command cmds (c\<lparr>cOutputString := []\<rparr>) s = Some (True, ?c, s)"
    using Suc.prems j assms(1) [of j]
    by (simp add: parse_continue_help help_main_def put_output_def size_defs)
  then have e: "exec_loop cmds c s = exec_loop cmds ?c' s" by (simp add: exec_loop.simps [of cmds c s])
  have "n = length cmds - Suc j" using Suc.hyps(2) by simp
  from Suc.hyps(1) [OF this, of ?c'] j obtain out where
    "exec_loop cmds ?c' s = Some (?c'\<lparr>cur_cmd := None, help_cmd := None, cOutputString := out,
      tx := tx ?c' @ concat (map (help_line cmds) [Suc j..<Suc (length cmds)])\<rparr>, s)" by auto
  moreover have "[j..<Suc (length cmds)] = j # [Suc j..<Suc (length cmds)]" using j by (simp add: upt_rec)
  ultimately show ?case unfolding e by (cases c) simp
qed

text \<open>
  \<open>help\<close> ends and lists everything: with the permission and registered texts that fit the
  output buffer, the command \<open>help\<close> sends the header and then one line for every command, from
  \<open>help\<close> itself to the last registered, in the order of registration, and leaves the application
  alone and the console ready.\<close>

theorem cli_help_lists:
  assumes "registry_ok cmds" "\<And>k. k \<le> length cmds \<Longrightarrow> length (help_line cmds k) < 256"
    and "ready c ''help''" "newline ch"
  shows "\<exists>c'. cli_char prefix cmds ch (c, s) = Some (c', s) \<and> ready c' [] \<and>
    tx c' = tx c @ [ch] @ pcNewLine @ help_header @
      concat (map (help_line cmds) [0..<Suc (length cmds)]) @ prefix"
proof -
  let ?c = "send pcNewLine ((send [ch] c)\<lparr>status := 3\<rparr>)"
  have n: "name_at cmds 0 = ''help''" by (simp add: name_at_def)
  have l: "command_line cmds 0 []"
    using assms(1) by (simp add: command_line_def n word_ok_def expect_at_def)
  have c: "line_rep (?c\<lparr>cOutputString := []\<rparr>) (join [name_at cmds 0])" "vars (?c\<lparr>cOutputString := []\<rparr>) = rows []"
    "cur_cmd (?c\<lparr>cOutputString := []\<rparr>) = None" "help_cmd ?c = None" "permission ?c"
    using assms(3) by (simp_all add: ready_def line_rep_def n)
  let ?c1 = "?c\<lparr>vars := rows [''help''], cOutputString := help_header, help_cmd := Some 0, cur_cmd := Some 0\<rparr>"
  have "length help_header < 256" by (simp add: help_header_def esc_def pcNewLine_def)
  then have "mid_cli_parse_command cmds (?c\<lparr>cOutputString := []\<rparr>) s = Some (True, ?c1, s)"
    unfolding parse_dispatch [OF l c(1-3)] using c(4)
    by (simp add: run_handle_def help_main_def put_output_def size_defs n)
  then have "exec_loop cmds ?c s = exec_loop cmds (?c1\<lparr>tx := tx ?c @ help_header\<rparr>) s"
    by (simp add: exec_loop.simps [of cmds ?c s])
  moreover obtain out where "exec_loop cmds (?c1\<lparr>tx := tx ?c @ help_header\<rparr>) s =
      Some (?c1\<lparr>cur_cmd := None, help_cmd := None, cOutputString := out,
        tx := (tx ?c @ help_header) @ concat (map (help_line cmds) [0..<Suc (length cmds)])\<rparr>, s)"
    using help_rest [OF assms(2), of 0 "?c1\<lparr>tx := tx ?c @ help_header\<rparr>" s] by auto
  ultimately have e: "exec_loop cmds ?c s = Some (?c1\<lparr>cur_cmd := None, help_cmd := None, cOutputString := out,
        tx := (tx ?c @ help_header) @ concat (map (help_line cmds) [0..<Suc (length cmds)])\<rparr>, s)" by (simp only:)
  have ne: "''help'' \<noteq> ([]::string)" by simp
  show ?thesis
    unfolding ready_newline [OF assms(3,4) ne] e using c
    by (simp add: ready_def line_rep_def clear_input_def cmdMAX_INPUT_SIZE_def send_def rows_Nil)
qed

theorem cli_help_lists_witness:
  "\<exists>c'. cli_char ''> '' [sample_command] cmdASCII_HEADLINE (typed_cli ''help'', 0) = Some (c', 0) \<and>
    ready c' []"
proof -
  have r: "registry_ok [sample_command]" using sample_command_line by (simp add: command_line_def)
  have l: "length (help_line [sample_command] k) < 256" if "k \<le> length [sample_command]" for k
    using that by (cases k)
      (simp_all add: help_line_def esc_def pcNewLine_def name_at_def help_at_def sample_command_def)
  have nl: "newline cmdASCII_HEADLINE" by (simp add: newline_def)
  have t: "ready (typed_cli ''help'') ''help''" by (simp add: typed_cli_ready)
  from cli_help_lists [OF r l t nl, of "''> ''" 0] show ?thesis by auto
qed

section \<open>What does not fit\<close>

text \<open>
  A line of 256 characters is lost: the index of the line buffer is a byte, so its
  bound 256 is never met; the 256th printable character fills the buffer, leaves it without a
  terminator and sets the index to 0, and the newline then runs nothing and clears nothing.\<close>

theorem cli_full_line_ignored:
  assumes "ready c l" "length l = 255" "printable ch" "\<not> newline ch" "ch \<noteq> cmdASCII_BS" "newline nl"
  shows "\<exists>c'. mid_cli_console_task prefix cmds [ch, nl] (c, s) = Some (c', s) \<and>
    cInputString c' = l @ [ch] \<and> inputIndex c' = 0 \<and> cstring (cInputString c') = None \<and>
    tx c' = tx c @ [ch] @ [nl] @ pcNewLine @ prefix"
proof -
  have r: "line_rep c l" using assms(1) by (simp add: ready_def)
  have i: "unat (inputIndex c) = 255" "inputIndex c + 1 = 0" "inputIndex c \<noteq> 0"
    using line_index(1) [OF r] assms(2) by (simp_all add: word_unat_eq_iff unat_word_ariths)
  have u: "(l @ replicate (256 - length l) NUL)[255 := ch] = l @ [ch]"
    using assms(2) by (simp add: list_update_append)
  have nul: "NUL \<notin> set (l @ [ch])"
    using r printable_not_NUL [OF assms(3)] by (simp add: line_rep_def)
  have nlb: "nl \<noteq> cmdASCII_BS" using assms(6) by (auto simp: newline_def ascii_defs)
  let ?c = "(send [ch] c)\<lparr>cInputString := l @ [ch], inputIndex := 0\<rparr>"
  have "collect_char ch c = ?c"
    using assms(1,3-5) i u r
    by (simp add: collect_char_def Let_def ready_def cmdMAX_INPUT_SIZE_def line_rep_def send_def)
  then have 1: "cli_char prefix cmds ch (c, s) = Some (?c, s)"
    using assms(1) by (simp add: cli_char_def ready_def check_permission_def check_password_def
        run_command_def)
  have "cli_char prefix cmds nl (?c, s) = Some ((send prefix (send pcNewLine (send [nl] ?c)))\<lparr>status := 0\<rparr>, s)"
    using assms(1,6) nlb
    by (simp add: cli_char_def collect_char_def Let_def ready_def check_permission_def
        check_password_def run_command_def send_def)
  with 1 nul show ?thesis
    by (simp add: mid_cli_console_task_def send_def cstring_def)
qed

theorem cli_full_line_ignored_witness:
  "\<exists>c'. mid_cli_console_task ''> '' [] [CHR ''x'', CHR 0x0D] (typed_cli (replicate 255 (CHR ''a'')), True) =
      Some (c', True) \<and> cstring (cInputString c') = None"
proof -
  have r: "ready (typed_cli (replicate 255 (CHR ''a''))) (replicate 255 (CHR ''a''))"
    by (rule typed_cli_ready) simp_all
  have x: "printable (CHR ''x'')" "\<not> newline (CHR ''x'')" "CHR ''x'' \<noteq> cmdASCII_BS" "newline (CHR 0x0D)"
    by (simp_all add: printable_def newline_def ascii_defs)
  from cli_full_line_ignored [OF r _ x, of "''> ''" "[]" True] show ?thesis by auto
qed

lemma find_cmd_None:
  assumes "registry_ok cmds" "line_rep c (join (w # ws))" "word_ok w"
    and "\<And>k. k \<le> length cmds \<Longrightarrow> name_at cmds k \<noteq> w"
  shows "find_cmd cmds (cInputString c) = None"
proof -
  have "\<not> command_matches (cInputString c) (name_at cmds k)" if "k \<in> set [0..<Suc (length cmds)]" for k
  proof -
    have k: "k < Suc (length cmds)" using that by (simp only: set_upt atLeastLessThan_iff)
    have "command_matches (cInputString c) (name_at cmds k) \<longleftrightarrow> name_at cmds k = w"
      using assms(1) k by (intro command_matches_first [OF assms(2,3)]) (auto simp: registry_ok_def)
    with assms(4) [of k] k show ?thesis by simp
  qed
  then show ?thesis unfolding find_cmd_def by (simp only: find_None_iff) blast
qed

text \<open>
  An unknown command that is long overruns the output buffer: the message
  that quotes it is written with no bound, so from 193 typed characters on, although the line
  fits its own buffer, the console writes past the 256 bytes of \<open>cOutputString\<close>.\<close>

theorem cli_unknown_overflow:
  assumes "registry_ok cmds" "ready c (join (w # ws))" "\<And>u. u \<in> set (w # ws) \<Longrightarrow> word_ok u"
    and "\<And>k. k \<le> length cmds \<Longrightarrow> name_at cmds k \<noteq> w" and "193 \<le> length (join (w # ws))" "newline ch"
  shows "cli_char prefix cmds ch (c, s) = None"
proof -
  let ?c = "send pcNewLine ((send [ch] c)\<lparr>status := 3\<rparr>)"
  have ne: "join (w # ws) \<noteq> []" using assms(5) by auto
  have r: "line_rep (?c\<lparr>cOutputString := []\<rparr>) (join (w # ws))" "cur_cmd ?c = None"
    using assms(2) by (simp_all add: ready_def line_rep_def)
  have f: "find_cmd cmds (cInputString (?c\<lparr>cOutputString := []\<rparr>)) = None"
    by (rule find_cmd_None [OF assms(1) r(1) _ assms(4)]) (use assms(3) in auto)
  have "length err_remind = 59" by (simp add: err_remind_def)
  then have n: "not_recognised (?c\<lparr>cOutputString := []\<rparr>) = None"
    using join_words_line [OF r(1) assms(3)] assms(5)
    by (simp add: not_recognised_def put_output_def size_defs)
  have "hd (join (w # ws)) \<noteq> NUL"
    using join_set [OF assms(3)] ne hd_in_set [OF ne] by metis
  then have "cInputString (?c\<lparr>cOutputString := []\<rparr>) ! 0 \<noteq> NUL"
    using r(1) ne by (simp add: line_rep_def nth_append hd_conv_nth)
  then have "mid_cli_parse_command cmds (?c\<lparr>cOutputString := []\<rparr>) s = None"
    using r(2) f n by (simp add: mid_cli_parse_command_def)
  then have "exec_loop cmds ?c s = None" by (simp add: exec_loop.simps [of cmds ?c s])
  then show ?thesis unfolding ready_newline [OF assms(2,6) ne] by simp
qed

theorem cli_unknown_overflow_witness:
  "cli_char ''> '' [] (CHR 0x0D) (typed_cli (join (replicate 20 ''abcdefghi'')), True) = None"
proof (rule cli_unknown_overflow [of "[]" _ "''abcdefghi''" "replicate 19 ''abcdefghi''"])
  have j: "''abcdefghi'' # replicate 19 ''abcdefghi'' = replicate 20 ''abcdefghi''" by (simp add: numeral_eq_Suc)
  have l: "length (join (replicate 20 ''abcdefghi'')) = 199" by code_simp
  have ok: "word_ok u" if "u \<in> set (replicate 20 ''abcdefghi'')" for u
    using that by (simp add: word_ok_def)
  then show "word_ok u" if "u \<in> set (''abcdefghi'' # replicate 19 ''abcdefghi'')" for u
    using that unfolding j .
  show "ready (typed_cli (join (replicate 20 ''abcdefghi''))) (join (''abcdefghi'' # replicate 19 ''abcdefghi''))"
    unfolding j by (rule typed_cli_ready) (simp_all only: l join_set [OF ok], simp)
  show "193 \<le> length (join (''abcdefghi'' # replicate 19 ''abcdefghi''))" unfolding j l by simp
qed (simp_all add: registry_ok_def name_at_def newline_def ascii_defs)

text \<open>
  An eleventh word is written through a pointer that does not exist: \<open>xargv\<close> has ten
  entries and the split does not count; whatever the words are, with 11 of them it faults.\<close>

theorem cli_eleven_words_overflow:
  assumes "length ws = 10" "\<And>w. w \<in> set ws \<Longrightarrow> word_ok w" "word_ok v"
  shows "split_loop (join (ws @ [v])) 0 0 False (rows []) = None"
proof -
  have join_snoc: "join (us @ [v]) = join us @ SPACE # v" if "us \<noteq> []" for us
    using that by (induction us rule: join.induct) auto
  obtain vs w where ws: "ws = vs @ [w]" using assms(1) by (cases ws rule: rev_cases) auto
  have "split_loop (join us @ cs) (of_nat (length ds)) 0 b (rows ds) =
      split_loop cs (of_nat (length ds + length us - 1)) (of_nat (length (last us))) False (rows (ds @ us))"
    if "\<And>w. w \<in> set ds \<Longrightarrow> word_ok w" "\<And>w. w \<in> set us \<Longrightarrow> word_ok w" "us \<noteq> []" "length ds + length us \<le> 10"
    for us ds b cs
    using that
  proof (induction us arbitrary: ds b rule: join.induct)
    case (2 w)
    have "word_ok w" "length ds < 10" using 2(2,4) by simp_all
    from split_word [OF 2(1) this(2,1), where cs = cs and b = b] show ?case by simp
  next
    case (3 w u us)
    have n: "length ds < 10" and w: "word_ok w" using 3(3,5) by simp_all
    have "split_loop (join (u # us) @ cs) (of_nat (length (ds @ [w]))) 0 True (rows (ds @ [w])) =
      split_loop cs (of_nat (length (ds @ [w]) + length (u # us) - 1)) (of_nat (length (last (u # us)))) False
        (rows ((ds @ [w]) @ u # us))"
    proof (rule 3(1))
      show "word_ok x" if "x \<in> set (ds @ [w])" for x using that 3(2) w by auto
      show "word_ok x" if "x \<in> set (u # us)" for x using that 3(3) by auto
    qed (use 3(5) in simp_all)
    moreover have "split_loop (join (w # u # us) @ cs) (of_nat (length ds)) 0 b (rows ds) =
      split_loop (SPACE # join (u # us) @ cs) (of_nat (length ds)) (of_nat (length w)) False (rows (ds @ [w]))"
      using split_word [OF 3(2) n w, of "SPACE # join (u # us) @ cs" b] by simp
    moreover note split_space [OF 3(2) n w, of "join (u # us) @ cs"]
    ultimately show ?case by simp
  qed simp
  note words = this
  have 1: "split_loop (join (ws @ [v])) (of_nat (length ([] :: string list))) 0 False (rows []) =
      split_loop (SPACE # v) (of_nat 9) (of_nat (length (last ws))) False (rows ws)"
  proof -
    have ne: "ws \<noteq> []" using assms(1) by auto
    have "split_loop (join ws @ SPACE # v) (of_nat (length ([] :: string list))) 0 False (rows []) =
      split_loop (SPACE # v) (of_nat (length ([] :: string list) + length ws - 1))
        (of_nat (length (last ws))) False (rows ([] @ ws))"
      by (rule words) (use assms(1,2) ne in simp_all)
    then show ?thesis by (simp only: join_snoc [OF ne] assms(1)) simp
  qed
  have d: "word_ok x" if "x \<in> set vs" for x using that assms(2) ws by simp
  have "length vs = 9" "word_ok w" using assms(1,2) ws by simp_all
  with split_space [of vs w v] d ws have 2: "split_loop (SPACE # v) (of_nat 9) (of_nat (length (last ws))) False (rows ws) =
      split_loop v (of_nat 10) 0 True (rows ws)" by simp
  obtain a v' where "v = a # v'" using assms(3) by (cases v) (auto simp: word_ok_def)
  then have "split_loop v (of_nat 10) 0 True (rows ws) = None"
    by (simp add: put_arg_def size_defs)
  with 1 2 show ?thesis by simp
qed

theorem cli_eleven_words_overflow_witness:
  "split_loop (join (replicate 10 ''a'' @ [''b''])) 0 0 False (rows []) = None"
  by (rule cli_eleven_words_overflow) (auto simp: word_ok_def)

end
