(* ===== verification/Heap_2.thy ===== *)
theory Heap_2
  imports Kernel_System
begin

text \<open>
  The heap (\<open>FreeRTOS/portable/MemMang/heap_2.c\<close>): the free blocks of one array, linked in the order of their
  sizes and never merged.

  A pointer is \<open>Start\<close> or \<open>End\<close> for the two static links, or \<open>At p\<close> for the link at the start of the block
  that is \<open>p\<close> bytes past \<open>pucAlignedHeap\<close>; \<open>NULL\<close> is \<open>None\<close>.  The pointers that \<open>pvPortMalloc\<close> returns and
  \<open>vPortFree\<close> takes are such offsets too.  \<open>None\<close> as the result of a function is undefined behaviour, or a
  walk along the list that does not end.
\<close>

section \<open>State\<close>

definition configTOTAL_HEAP_SIZE :: u32 where [prog_defs]: "configTOTAL_HEAP_SIZE = 17 * 1024"
definition portBYTE_ALIGNMENT :: u32 where [prog_defs]: "portBYTE_ALIGNMENT = 8"
definition portBYTE_ALIGNMENT_MASK :: u32 where [prog_defs]: "portBYTE_ALIGNMENT_MASK = 7"
definition configADJUSTED_HEAP_SIZE :: u32 where [prog_defs]:
  "configADJUSTED_HEAP_SIZE = configTOTAL_HEAP_SIZE - portBYTE_ALIGNMENT"

text \<open>A link is a pointer and a size, eight bytes.\<close>

definition heapSTRUCT_SIZE :: u32 where [prog_defs]:
  "heapSTRUCT_SIZE = (8 + (portBYTE_ALIGNMENT - 1)) AND NOT portBYTE_ALIGNMENT_MASK"
definition heapMINIMUM_BLOCK_SIZE :: u32 where [prog_defs]:
  "heapMINIMUM_BLOCK_SIZE = heapSTRUCT_SIZE * 2"

datatype link = Start | End | At u32

record heap =
  pxNextFreeBlock :: "link \<Rightarrow> link option"
  xBlockSize :: "link \<Rightarrow> u32"
  xHeapHasBeenInitialised :: bool
  xFreeBytesRemaining :: u32

text \<open>The statics at the start; what the array holds is arbitrary.\<close>

definition heap_reset :: "(link \<Rightarrow> link option) \<Rightarrow> (link \<Rightarrow> u32) \<Rightarrow> heap" where
  "heap_reset nx sz = \<lparr>pxNextFreeBlock = nx, xBlockSize = sz, xHeapHasBeenInitialised = False,
     xFreeBytesRemaining = configADJUSTED_HEAP_SIZE\<rparr>"

definition set_next :: "link \<Rightarrow> link option \<Rightarrow> heap \<Rightarrow> heap" where
  "set_next l n h = h\<lparr>pxNextFreeBlock := (pxNextFreeBlock h)(l := n)\<rparr>"

definition set_size :: "link \<Rightarrow> u32 \<Rightarrow> heap \<Rightarrow> heap" where
  "set_size l n h = h\<lparr>xBlockSize := (xBlockSize h)(l := n)\<rparr>"

section \<open>Operations\<close>

text \<open>The first multiple of the alignment past the start of the array.\<close>

definition pucAlignedHeap :: "u32 \<Rightarrow> u32" where
  "pucAlignedHeap ucHeap = (ucHeap + portBYTE_ALIGNMENT) AND NOT portBYTE_ALIGNMENT_MASK"

definition prvHeapInit :: "heap \<Rightarrow> heap" where
  "prvHeapInit h =
     (let h = set_next Start (Some (At 0)) h;
          h = set_size Start 0 h;
          h = set_size End configADJUSTED_HEAP_SIZE h;
          h = set_next End None h;
          h = set_size (At 0) configADJUSTED_HEAP_SIZE h
      in set_next (At 0) (Some End) h)"

partial_function (option) insert_walk :: "heap \<Rightarrow> u32 \<Rightarrow> link \<Rightarrow> link option" where
  [code]: "insert_walk h sz it = do {
     n \<leftarrow> pxNextFreeBlock h it;
     if xBlockSize h n < sz then insert_walk h sz n else Some it
   }"

definition prvInsertBlockIntoFreeList :: "link \<Rightarrow> heap \<Rightarrow> heap option" where
  "prvInsertBlockIntoFreeList b h = do {
     it \<leftarrow> insert_walk h (xBlockSize h b) Start;
     let h = set_next b (pxNextFreeBlock h it) h;
     Some (set_next it (Some b) h)
   }"

definition round_up :: "u32 \<Rightarrow> u32" where
  "round_up n = (if n AND portBYTE_ALIGNMENT_MASK \<noteq> 0
     then n + (portBYTE_ALIGNMENT - (n AND portBYTE_ALIGNMENT_MASK)) else n)"

definition wanted_size :: "u32 \<Rightarrow> u32" where
  "wanted_size n = (if n > 0 then round_up (n + heapSTRUCT_SIZE) else n)"

partial_function (option) find_block :: "heap \<Rightarrow> u32 \<Rightarrow> link \<Rightarrow> link \<Rightarrow> (link \<times> link) option" where
  [code]: "find_block h sz prev b =
     (case pxNextFreeBlock h b of
        None \<Rightarrow> Some (prev, b)
      | Some n \<Rightarrow> if xBlockSize h b < sz then find_block h sz b n else Some (prev, b))"

text \<open>The block is taken off the list, and its rest is put back when it is large enough.\<close>

definition take_block :: "u32 \<Rightarrow> link \<Rightarrow> u32 \<Rightarrow> heap \<Rightarrow> (u32 \<times> heap) option" where
  "take_block sz prev p h = do {
     let h = set_next prev (pxNextFreeBlock h (At p)) h;
     h \<leftarrow> (if xBlockSize h (At p) - sz > heapMINIMUM_BLOCK_SIZE then do {
            let rest = At (p + sz);
            let h = set_size rest (xBlockSize h (At p) - sz) h;
            let h = set_size (At p) sz h;
            prvInsertBlockIntoFreeList rest h
          }
          else Some h);
     Some (p + heapSTRUCT_SIZE, h\<lparr>xFreeBytesRemaining := xFreeBytesRemaining h - xBlockSize h (At p)\<rparr>)
   }"

text \<open>The part of \<open>pvPortMalloc\<close> with the scheduler suspended.\<close>

definition malloc :: "u32 \<Rightarrow> heap \<Rightarrow> (u32 option \<times> heap) option" where
  "malloc wanted h = do {
     let h = (if \<not> xHeapHasBeenInitialised h
              then (prvHeapInit h)\<lparr>xHeapHasBeenInitialised := True\<rparr> else h);
     let sz = wanted_size wanted;
     if sz > 0 \<and> sz < configADJUSTED_HEAP_SIZE then do {
       first \<leftarrow> pxNextFreeBlock h Start;
       (prev, b) \<leftarrow> find_block h sz Start first;
       case b of
         End \<Rightarrow> Some (None, h)
       | Start \<Rightarrow> None
       | At p \<Rightarrow> do { (r, h) \<leftarrow> take_block sz prev p h; Some (Some r, h) }
     }
     else Some (None, h)
   }"

definition pvPortMalloc :: "u32 \<Rightarrow> heap \<times> kernel \<Rightarrow> (u32 option \<times> heap \<times> kernel) option" where
  "pvPortMalloc wanted m = (case m of (h, k) \<Rightarrow> do {
     let k = vTaskSuspendAll k;
     (r, h) \<leftarrow> malloc wanted h;
     (y, k) \<leftarrow> xTaskResumeAll k;
     Some (r, h, k)
   })"

text \<open>The same part of \<open>vPortFree\<close>.\<close>

definition free :: "u32 \<Rightarrow> heap \<Rightarrow> heap option" where
  "free pv h = do {
     let b = At (pv - heapSTRUCT_SIZE);
     h \<leftarrow> prvInsertBlockIntoFreeList b h;
     Some (h\<lparr>xFreeBytesRemaining := xFreeBytesRemaining h + xBlockSize h b\<rparr>)
   }"

definition vPortFree :: "u32 option \<Rightarrow> heap \<times> kernel \<Rightarrow> (heap \<times> kernel) option" where
  "vPortFree pv m = (case pv of None \<Rightarrow> Some m | Some pv \<Rightarrow> (case m of (h, k) \<Rightarrow> do {
     let k = vTaskSuspendAll k;
     h \<leftarrow> free pv h;
     (y, k) \<leftarrow> xTaskResumeAll k;
     Some (h, k)
   }))"

definition xPortGetFreeHeapSize :: "heap \<Rightarrow> u32" where
  "xPortGetFreeHeapSize h = xFreeBytesRemaining h"

section \<open>The linked list\<close>

fun linked :: "heap \<Rightarrow> link \<Rightarrow> u32 list \<Rightarrow> bool" where
  "linked h l [] \<longleftrightarrow> pxNextFreeBlock h l = Some End"
| "linked h l (p # ps) \<longleftrightarrow> pxNextFreeBlock h l = Some (At p) \<and> linked h (At p) ps"

lemma set_next_sel [simp]:
  "pxNextFreeBlock (set_next l n h) = (pxNextFreeBlock h)(l := n)" "xBlockSize (set_next l n h) = xBlockSize h"
  "xHeapHasBeenInitialised (set_next l n h) = xHeapHasBeenInitialised h"
  "xFreeBytesRemaining (set_next l n h) = xFreeBytesRemaining h"
  by (simp_all add: set_next_def)

lemma set_size_sel [simp]:
  "xBlockSize (set_size l n h) = (xBlockSize h)(l := n)" "pxNextFreeBlock (set_size l n h) = pxNextFreeBlock h"
  "xHeapHasBeenInitialised (set_size l n h) = xHeapHasBeenInitialised h"
  "xFreeBytesRemaining (set_size l n h) = xFreeBytesRemaining h"
  by (simp_all add: set_size_def)

lemma linked_cong: "pxNextFreeBlock h' = pxNextFreeBlock h \<Longrightarrow> linked h' l F = linked h l F"
  by (induction F arbitrary: l) simp_all

lemma linked_other: "x \<noteq> l \<Longrightarrow> x \<notin> At ` set F \<Longrightarrow> linked (set_next x v h) l F = linked h l F"
  by (induction F arbitrary: l) auto

text \<open>A new block goes before the first one that is not smaller.\<close>

definition place :: "(u32 \<Rightarrow> u32) \<Rightarrow> u32 \<Rightarrow> u32 list \<Rightarrow> u32 list" where
  "place f b F = takeWhile (\<lambda>p. f p < f b) F @ b # dropWhile (\<lambda>p. f p < f b) F"

lemma set_place [simp]: "set (place f b F) = insert b (set F)"
  by (metis (no_types, lifting) Un_insert_right list.simps(15) place_def set_append takeWhile_dropWhile_id)

lemma distinct_place: "distinct F \<Longrightarrow> b \<notin> set F \<Longrightarrow> distinct (place f b F)"
proof -
  assume d: "distinct F" "b \<notin> set F"
  define T where "T = takeWhile (\<lambda>p. f p < f b) F"
  define D where "D = dropWhile (\<lambda>p. f p < f b) F"
  have e: "F = T @ D" by (simp add: T_def D_def)
  from d have "distinct (T @ b # D)" unfolding e by auto
  then show ?thesis by (simp add: place_def T_def D_def)
qed

lemma dropWhile_sorted:
  "sorted (map f F) \<Longrightarrow> x \<in> set (dropWhile (\<lambda>p. f p < c) F) \<Longrightarrow> c \<le> f x" for c :: u32
proof (induction F)
  case (Cons p F)
  show ?case
  proof (cases "f p < c")
    case False
    with Cons.prems show ?thesis by (auto simp: not_less)
  next
    case True
    with Cons show ?thesis by simp
  qed
qed simp

lemma sorted_place:
  assumes "sorted (map f F)"
  shows "sorted (map f (place f b F))"
proof -
  define T where "T = takeWhile (\<lambda>p. f p < f b) F"
  define D where "D = dropWhile (\<lambda>p. f p < f b) F"
  have e: "F = T @ D" by (simp add: T_def D_def)
  have t: "f x \<le> f b" if "x \<in> set T" for x using that by (auto simp: T_def dest: set_takeWhileD)
  have d: "f b \<le> f x" if "x \<in> set D" for x using that dropWhile_sorted [OF assms] unfolding D_def by blast
  have "sorted (map f T)" "sorted (map f D)" using assms unfolding e by (simp_all add: sorted_append)
  with t d show ?thesis
    unfolding place_def T_def [symmetric] D_def [symmetric] by (fastforce simp: sorted_append)
qed

lemma insert_linked:
  assumes "linked h l F" "l \<notin> At ` set F" "b \<notin> set F" "l \<noteq> At b" "distinct F"
    and "sz = xBlockSize h (At b)" "sz \<le> xBlockSize h End"
  shows "\<exists>it. insert_walk h sz l = Some it \<and> it \<in> insert l (At ` set F) \<and>
    linked (set_next it (Some (At b)) (set_next (At b) (pxNextFreeBlock h it) h)) l
      (place (\<lambda>p. xBlockSize h (At p)) b F)"
  using assms
proof (induction F arbitrary: l)
  case Nil
  then show ?case by (subst insert_walk.simps) (auto simp: place_def)
next
  case (Cons p F)
  show ?case
  proof (cases "xBlockSize h (At p) < sz")
    case False
    have o: "linked (set_next l v (set_next (At b) v' h)) (At p) F = linked h (At p) F" for v v'
      using Cons.prems by (subst linked_other, simp, simp, subst linked_other) auto
    have "insert_walk h sz l = Some l" using Cons.prems(1) False by (subst insert_walk.simps) simp
    then show ?thesis using Cons.prems False o by (auto simp: place_def)
  next
    case True
    have w: "insert_walk h sz l = insert_walk h sz (At p)"
      using Cons.prems(1) True by (subst insert_walk.simps) simp
    from Cons.IH [of "At p"] Cons.prems obtain it where
      it: "insert_walk h sz (At p) = Some it" "it \<in> insert (At p) (At ` set F)"
        "linked (set_next it (Some (At b)) (set_next (At b) (pxNextFreeBlock h it) h)) (At p)
          (place (\<lambda>p. xBlockSize h (At p)) b F)" by auto
    have "l \<noteq> it" using it(2) Cons.prems(2) by auto
    then show ?thesis using it w True Cons.prems(1,4,6) by (auto simp: place_def)
  qed
qed

text \<open>The first block that is large enough is found and unlinked.\<close>

lemma find_linked:
  assumes "linked h l (pre @ p # F)" "l \<notin> At ` set (pre @ p # F)" "distinct (pre @ p # F)"
    and "\<forall>q\<in>set pre. xBlockSize h (At q) < sz" "sz \<le> xBlockSize h (At p)"
    and "pxNextFreeBlock h l = Some first"
  shows "\<exists>prev. find_block h sz l first = Some (prev, At p) \<and> prev \<in> insert l (At ` set pre) \<and>
    linked (set_next prev (pxNextFreeBlock h (At p)) h) l (pre @ F)"
  using assms
proof (induction pre arbitrary: l first)
  case Nil
  then have f: "first = At p" "linked h (At p) F" by auto
  then obtain n where n: "pxNextFreeBlock h (At p) = Some n" by (cases F) auto
  have "\<not> xBlockSize h (At p) < sz" using Nil by simp
  then have "find_block h sz l first = Some (l, At p)" using f n by (subst find_block.simps) simp
  moreover have "linked (set_next l (Some n) h) l F"
    using f(2) n Nil by (cases F) (auto simp: linked_other)
  ultimately show ?case using n by simp
next
  case (Cons q pre)
  then have f: "first = At q" "linked h (At q) (pre @ p # F)" by auto
  then obtain n where n: "pxNextFreeBlock h (At q) = Some n" by (cases pre) auto
  have w: "find_block h sz l first = find_block h sz (At q) n"
    using Cons.prems(4) f n by (subst find_block.simps) simp
  from Cons.IH [OF f(2) _ _ _ Cons.prems(5) n] Cons.prems obtain prev where
    1: "find_block h sz (At q) n = Some (prev, At p)" "prev \<in> insert (At q) (At ` set pre)"
      "linked (set_next prev (pxNextFreeBlock h (At p)) h) (At q) (pre @ F)" by auto
  have "l \<noteq> prev" using 1(2) Cons.prems(2) by auto
  then show ?case using 1 w Cons.prems(1) by auto
qed

lemma find_none:
  assumes "linked h l F" "\<forall>q\<in>set F. xBlockSize h (At q) < sz" "pxNextFreeBlock h l = Some first"
    and "pxNextFreeBlock h End = None"
  shows "\<exists>prev. find_block h sz l first = Some (prev, End)"
  using assms
proof (induction F arbitrary: l first)
  case Nil
  then show ?case by (subst find_block.simps) simp
next
  case (Cons q F)
  then have f: "first = At q" "linked h (At q) F" by auto
  then obtain n where n: "pxNextFreeBlock h (At q) = Some n" by (cases F) auto
  then have "find_block h sz l first = find_block h sz (At q) n"
    using Cons.prems(2) f by (subst find_block.simps) simp
  then show ?case using Cons.IH [OF f(2) _ n] Cons.prems(2,4) by simp
qed

section \<open>The blocks\<close>

text \<open>
  The array is cut into blocks, in the order of their addresses: start, size, and whether the block is
  free.
\<close>

type_synonym tile = "nat \<times> nat \<times> bool"

fun tiled :: "nat \<Rightarrow> tile list \<Rightarrow> nat \<Rightarrow> bool" where
  "tiled a [] e \<longleftrightarrow> a = e"
| "tiled a ((p, s, f) # ts) e \<longleftrightarrow> p = a \<and> 0 < s \<and> 8 dvd s \<and> tiled (a + s) ts e"

lemma tiled_append: "tiled a (us @ vs) e \<longleftrightarrow> (\<exists>m. tiled a us m \<and> tiled m vs e)"
  by (induction us arbitrary: a) auto

lemma tiled_le: "tiled a ts e \<Longrightarrow> a \<le> e"
  by (induction a ts e rule: tiled.induct) auto

lemma tiled_within:
  "tiled a ts e \<Longrightarrow> (p, s, f) \<in> set ts \<Longrightarrow> a \<le> p \<and> p + s \<le> e \<and> 0 < s \<and> 8 dvd s \<and> 8 dvd p - a"
proof (induction a ts e rule: tiled.induct)
  case (2 a p' s' f' ts e)
  from 2(2) have le: "a + s' \<le> e" using tiled_le [of "a + s'" ts e] by simp
  show ?case
  proof (cases "(p, s, f) = (p', s', f')")
    case True
    with 2(2) le show ?thesis by simp
  next
    case False
    with 2 have ih: "a + s' \<le> p" "p + s \<le> e" "0 < s" "8 dvd s" "8 dvd p - (a + s')" "8 dvd s'" by auto
    have "8 dvd (p - (a + s')) + s'" using ih(5,6) by (rule dvd_add)
    moreover have "(p - (a + s')) + s' = p - a" using ih(1) by simp
    ultimately show ?thesis using ih by simp
  qed
qed simp

lemma tiled_apart:
  "tiled a ts e \<Longrightarrow> (p, s, f) \<in> set ts \<Longrightarrow> (p', s', f') \<in> set ts \<Longrightarrow>
    (p, s, f) = (p', s', f') \<or> p + s \<le> p' \<or> p' + s' \<le> p"
proof (induction a ts e rule: tiled.induct)
  case (2 a q t g ts e)
  from 2(2) have "tiled (a + t) ts e" "q = a" by auto
  with 2 tiled_within [OF this(1)] show ?case by fastforce
qed simp

lemma tiled_starts: "tiled a ts e \<Longrightarrow> distinct (map fst ts)"
proof (induction a ts e rule: tiled.induct)
  case (2 a q t g ts e)
  then have r: "tiled (a + t) ts e" "q = a" "0 < t" "distinct (map fst ts)" by auto
  have "q \<notin> fst ` set ts"
  proof
    assume "q \<in> fst ` set ts"
    then obtain s f where "(q, s, f) \<in> set ts" by auto
    from tiled_within [OF r(1) this] r(2,3) show False by simp
  qed
  with r(4) show ?case by simp
qed simp

definition free_bytes :: "tile list \<Rightarrow> nat" where
  "free_bytes ts = sum_list (map (\<lambda>(p, s, f). if f then s else 0) ts)"

lemma free_bytes_simps [simp]:
  "free_bytes [] = 0" "free_bytes ((p, s, f) # ts) = (if f then s else 0) + free_bytes ts"
  "free_bytes (us @ vs) = free_bytes us + free_bytes vs"
  by (simp_all add: free_bytes_def)

lemma free_bytes_le: "tiled a ts e \<Longrightarrow> free_bytes ts \<le> e - a"
  by (induction a ts e rule: tiled.induct) (use tiled_le in fastforce)+

definition heap_bytes :: nat where "heap_bytes = 17400"

lemma heap_constants:
  "unat configADJUSTED_HEAP_SIZE = heap_bytes" "configADJUSTED_HEAP_SIZE = 17400" "heapSTRUCT_SIZE = 8"
  "heapMINIMUM_BLOCK_SIZE = 16"
  by (simp_all add: prog_defs heap_bytes_def)

abbreviation addr :: "nat \<Rightarrow> u32" where "addr \<equiv> of_nat"

text \<open>
  The state \<open>h\<close> of a heap with the blocks \<open>ts\<close>: each block starts with its size, and the list has exactly
  the free ones, in the order of their sizes.
\<close>

definition heap_ok :: "heap \<Rightarrow> tile list \<Rightarrow> u32 list \<Rightarrow> bool" where
  "heap_ok h ts F \<longleftrightarrow> xHeapHasBeenInitialised h \<and> tiled 0 ts heap_bytes \<and>
     (\<forall>(p, s, f) \<in> set ts. xBlockSize h (At (addr p)) = addr s) \<and>
     linked h Start F \<and> pxNextFreeBlock h End = None \<and> xBlockSize h End = configADJUSTED_HEAP_SIZE \<and>
     distinct F \<and> set F = {addr p |p s. (p, s, True) \<in> set ts} \<and>
     sorted (map (\<lambda>p. xBlockSize h (At p)) F) \<and> unat (xFreeBytesRemaining h) = free_bytes ts"

lemma heap_okD:
  assumes "heap_ok h ts F"
  shows "xHeapHasBeenInitialised h" "tiled 0 ts heap_bytes"
    "(p, s, f) \<in> set ts \<Longrightarrow> xBlockSize h (At (addr p)) = addr s"
    "linked h Start F" "pxNextFreeBlock h End = None" "xBlockSize h End = configADJUSTED_HEAP_SIZE"
    "distinct F" "set F = {addr p |p s. (p, s, True) \<in> set ts}"
    "sorted (map (\<lambda>p. xBlockSize h (At p)) F)" "unat (xFreeBytesRemaining h) = free_bytes ts"
  using assms by (auto simp: heap_ok_def)

lemma tile_words:
  assumes "tiled 0 ts heap_bytes" "(p, s, f) \<in> set ts"
  shows "p + s \<le> heap_bytes" "0 < s" "8 dvd s" "8 dvd p" "unat (addr p) = p" "unat (addr s) = s"
proof -
  note W = tiled_within [OF assms]
  then show "p + s \<le> heap_bytes" "0 < s" "8 dvd s" "8 dvd p" by auto
  then have "p < 2 ^ 32" "s < 2 ^ 32" by (simp_all add: heap_bytes_def)
  then show "unat (addr p) = p" "unat (addr s) = s" by (simp_all add: unat_u32_of_nat)
qed

lemma addr_inject:
  assumes "tiled 0 ts heap_bytes" "(p, s, f) \<in> set ts" "(q, t, g) \<in> set ts" "addr p = addr q"
  shows "(p, s, f) = (q, t, g)"
proof -
  have "p = q" using tile_words(5) [OF assms(1,2)] tile_words(5) [OF assms(1,3)] assms(4) by metis
  moreover have "0 < s" "0 < t" using tile_words(2) [OF assms(1,2)] tile_words(2) [OF assms(1,3)] by simp_all
  ultimately have "\<not> p + s \<le> q" "\<not> q + t \<le> p" by simp_all
  with tiled_apart [OF assms(1-3)] show ?thesis by blast
qed

lemma init_ok:
  "heap_ok ((prvHeapInit (heap_reset nx sz))\<lparr>xHeapHasBeenInitialised := True\<rparr>) [(0, heap_bytes, True)] [0]"
proof -
  let ?h = "(prvHeapInit (heap_reset nx sz))\<lparr>xHeapHasBeenInitialised := True\<rparr>"
  have n: "pxNextFreeBlock ?h Start = Some (At 0)" "pxNextFreeBlock ?h (At 0) = Some End"
    "pxNextFreeBlock ?h End = None" "xBlockSize ?h End = configADJUSTED_HEAP_SIZE"
    "xBlockSize ?h (At 0) = configADJUSTED_HEAP_SIZE" "xFreeBytesRemaining ?h = configADJUSTED_HEAP_SIZE"
    by (simp_all add: prvHeapInit_def Let_def heap_reset_def)
  have d: "8 dvd heap_bytes" "0 < heap_bytes" "addr heap_bytes = configADJUSTED_HEAP_SIZE"
    unfolding heap_constants(2) by (simp_all add: heap_bytes_def)
  have f: "{addr p |p s. (p, s, True) \<in> set [(0, heap_bytes, True)]} = set [0]" by auto
  show ?thesis unfolding heap_ok_def f using n d heap_constants(1) by simp
qed

section \<open>Allocation and release\<close>

lemma insert_ok:
  assumes "linked h Start F" "distinct F" "b \<notin> set F" "xBlockSize h (At b) \<le> xBlockSize h End"
    and "pxNextFreeBlock h End = None" "sorted (map (\<lambda>p. xBlockSize h (At p)) F)"
  shows "\<exists>h' F'. prvInsertBlockIntoFreeList (At b) h = Some h' \<and> linked h' Start F' \<and> distinct F' \<and>
    set F' = insert b (set F) \<and> sorted (map (\<lambda>p. xBlockSize h' (At p)) F') \<and> xBlockSize h' = xBlockSize h \<and>
    pxNextFreeBlock h' End = None \<and> xHeapHasBeenInitialised h' = xHeapHasBeenInitialised h \<and>
    xFreeBytesRemaining h' = xFreeBytesRemaining h"
proof -
  let ?F = "place (\<lambda>p. xBlockSize h (At p)) b F"
  from insert_linked [OF assms(1) _ assms(3) _ assms(2) refl assms(4)] obtain it where
    it: "insert_walk h (xBlockSize h (At b)) Start = Some it" "it \<in> insert Start (At ` set F)"
      "linked (set_next it (Some (At b)) (set_next (At b) (pxNextFreeBlock h it) h)) Start ?F" by auto
  define h' where "h' = set_next it (Some (At b)) (set_next (At b) (pxNextFreeBlock h it) h)"
  have "prvInsertBlockIntoFreeList (At b) h = Some h'"
    using it(1) by (simp add: prvInsertBlockIntoFreeList_def h'_def)
  moreover have "pxNextFreeBlock h' End = None" using it(2) assms(5) by (auto simp: h'_def)
  moreover have "sorted (map (\<lambda>p. xBlockSize h (At p)) ?F)" by (rule sorted_place [OF assms(6)])
  moreover have "linked h' Start ?F" using it(3) by (simp add: h'_def)
  ultimately show ?thesis using distinct_place [OF assms(2,3)]
    by (intro exI [of _ h'] exI [of _ ?F]) (simp add: h'_def)
qed

definition starts :: "tile list \<Rightarrow> u32 set" where
  "starts ts = {addr p |p s. (p, s, True) \<in> set ts}"

lemma starts_simps [simp]:
  "starts (us @ vs) = starts us \<union> starts vs" "starts [] = {}"
  "starts ((p, s, f) # ts) = (if f then insert (addr p) (starts ts) else starts ts)"
  by (auto simp: starts_def)

lemma not_a_start:
  assumes "tiled 0 (us @ (p, s, f) # vs) heap_bytes"
  shows "addr p \<notin> starts us \<union> starts vs"
proof
  assume "addr p \<in> starts us \<union> starts vs"
  then obtain q t where q: "(q, t, True) \<in> set us \<union> set vs" "addr p = addr q"
    by (auto simp: starts_def)
  then have "(p, s, f) = (q, t, True)" by (intro addr_inject [OF assms]) auto
  then have "p \<in> fst ` (set us \<union> set vs)" using q(1) by force
  moreover have "p \<notin> fst ` (set us \<union> set vs)" using tiled_starts [OF assms] by auto
  ultimately show False by blast
qed

lemma tiled_change: "tiled a (us @ (p, s, f) # vs) e \<Longrightarrow> tiled a (us @ (p, s, g) # vs) e"
  by (auto simp: tiled_append)

lemma tiled_split:
  assumes "tiled a (us @ (p, s, f) # vs) e" "0 < n" "n < s" "8 dvd n"
  shows "tiled a (us @ (p, n, g) # (p + n, s - n, g') # vs) e"
proof -
  have "8 dvd s - n" if "8 dvd s" using that assms(4) by (rule dvd_diff_nat)
  with assms show ?thesis by (auto simp: tiled_append)
qed

lemma free_ok:
  assumes "heap_ok h (us @ (p, s, False) # vs) F"
  shows "\<exists>h' F'. free (addr p + heapSTRUCT_SIZE) h = Some h' \<and> heap_ok h' (us @ (p, s, True) # vs) F'"
proof -
  let ?ts = "us @ (p, s, False) # vs" and ?ts' = "us @ (p, s, True) # vs"
  note H = heap_okD [OF assms]
  have T': "tiled 0 ?ts' heap_bytes" by (rule tiled_change [OF H(2)])
  note W = tile_words [OF H(2), of p s False, simplified]
  have sz: "xBlockSize h (At (addr p)) = addr s" using H(3) [of p s False] by simp
  have le: "addr s \<le> configADJUSTED_HEAP_SIZE"
    using W(1,6) heap_constants(1) by (simp add: word_le_nat_alt)
  have nF: "addr p \<notin> set F"
    using not_a_start [OF H(2)] H(8) unfolding starts_def [symmetric] by simp
  from insert_ok [OF H(4,7) nF _ H(5,9)] sz le H(6) obtain h' F' where
    1: "prvInsertBlockIntoFreeList (At (addr p)) h = Some h'" "linked h' Start F'" "distinct F'"
      "set F' = insert (addr p) (set F)" "sorted (map (\<lambda>p. xBlockSize h' (At p)) F')"
      "xBlockSize h' = xBlockSize h" "pxNextFreeBlock h' End = None"
      "xHeapHasBeenInitialised h' = xHeapHasBeenInitialised h" "xFreeBytesRemaining h' = xFreeBytesRemaining h"
    by auto
  let ?h = "h'\<lparr>xFreeBytesRemaining := xFreeBytesRemaining h' + xBlockSize h' (At (addr p))\<rparr>"
  have "free_bytes ?ts' \<le> heap_bytes" using free_bytes_le [OF T'] by simp
  then have "unat (xFreeBytesRemaining h + addr s) = free_bytes ?ts'"
    using H(10) W(6) by (simp add: unat_word_ariths heap_bytes_def)
  moreover have "linked ?h Start F'" using 1(2) linked_cong [of ?h h'] by simp
  moreover have "set F' = {addr p |p s. (p, s, True) \<in> set ?ts'}"
    using 1(4) H(8) unfolding starts_def [symmetric] by simp
  moreover have "\<forall>(p, s, f) \<in> set ?ts'. xBlockSize ?h (At (addr p)) = addr s"
    using H(3) 1(6) by auto
  ultimately have "heap_ok ?h ?ts' F'"
    using H(1,6) T' 1(3,5-9) sz unfolding heap_ok_def by simp
  with 1(1) show ?thesis by (auto simp: free_def)
qed

text \<open>The block that is chosen, and the list without it.\<close>

lemma choose_ok:
  assumes ok: "heap_ok h ts F" and first: "pxNextFreeBlock h Start = Some first"
    and large: "(p0, s0, True) \<in> set ts" "sz \<le> addr s0"
  shows "\<exists>us p s vs prev F'. ts = us @ (p, s, True) # vs \<and>
    find_block h sz Start first = Some (prev, At (addr p)) \<and> sz \<le> addr s \<and>
    (\<forall>q t. (q, t, True) \<in> set ts \<longrightarrow> sz \<le> addr t \<longrightarrow> s \<le> t) \<and>
    linked (set_next prev (pxNextFreeBlock h (At (addr p))) h) Start F' \<and> prev \<noteq> End \<and> distinct F' \<and>
    set F' = starts us \<union> starts vs \<and> sorted (map (\<lambda>p. xBlockSize h (At p)) F')"
proof -
  note H = heap_okD [OF ok]
  let ?f = "\<lambda>p. xBlockSize h (At p)"
  have size: "?f (addr q) = addr t" if "(q, t, g) \<in> set ts" for q t g by (rule H(3) [OF that])
  define pre where "pre = takeWhile (\<lambda>p. ?f p < sz) F"
  have "addr p0 \<in> set F" "\<not> ?f (addr p0) < sz" using large H(8) size by auto
  then have "dropWhile (\<lambda>p. ?f p < sz) F \<noteq> []" by (auto simp: dropWhile_eq_Nil_conv)
  then obtain w qs where wq: "dropWhile (\<lambda>p. ?f p < sz) F = w # qs" by (cases "dropWhile (\<lambda>p. ?f p < sz) F") auto
  have F: "F = pre @ w # qs" unfolding pre_def wq [symmetric] by simp
  have w: "sz \<le> ?f w" using hd_dropWhile [of "\<lambda>p. ?f p < sz" F] wq by (simp add: not_less)
  have pre: "\<forall>q\<in>set pre. ?f q < sz" by (auto simp: pre_def dest: set_takeWhileD)
  have "w \<in> set F" using F by simp
  then obtain p s where ps: "(p, s, True) \<in> set ts" "w = addr p" unfolding H(8) by blast
  then obtain us vs where ts: "ts = us @ (p, s, True) # vs" by (metis split_list)
  from find_linked [of h Start pre w qs sz first] H(4,7) F pre w first obtain prev where
    1: "find_block h sz Start first = Some (prev, At w)" "prev \<in> insert Start (At ` set pre)"
      "linked (set_next prev (pxNextFreeBlock h (At w)) h) Start (pre @ qs)" by auto
  have best: "s \<le> t" if "(q, t, True) \<in> set ts" "sz \<le> addr t" for q t
  proof -
    have "addr q \<in> set (w # qs)" using that pre size H(8) F by fastforce
    then have "?f w \<le> ?f (addr q)" using H(9) unfolding F by (auto simp: sorted_append)
    then have "addr s \<le> addr t" using size [OF that(1)] size [OF ps(1)] ps(2) by simp
    then show ?thesis
      using tile_words(6) [OF H(2) that(1)] tile_words(6) [OF H(2) ps(1)] by (simp add: word_le_nat_alt)
  qed
  have "addr p \<notin> starts us \<union> starts vs" using not_a_start H(2) unfolding ts by blast
  moreover have "insert w (set (pre @ qs)) = insert (addr p) (starts us \<union> starts vs)"
    using H(8) unfolding F starts_def [symmetric] ts by simp
  moreover have "w \<notin> set (pre @ qs)" using H(7) F by auto
  ultimately have "set (pre @ qs) = starts us \<union> starts vs"
    using insert_ident [of w "set (pre @ qs)" "starts us \<union> starts vs"] ps(2) by simp
  moreover have "sorted (map ?f (pre @ qs))" using H(9) unfolding F by (auto simp: sorted_append)
  moreover have "distinct (pre @ qs)" using H(7) F by auto
  moreover have "prev \<noteq> End" using 1(2) by auto
  moreover have "sz \<le> addr s" using w ps size by simp
  ultimately show ?thesis using ts 1(1,3) best unfolding ps(2)
    by (intro exI [of _ us] exI [of _ p] exI [of _ s] exI [of _ vs] exI [of _ prev] exI [of _ "pre @ qs"]) blast
qed

definition cut :: "nat \<Rightarrow> nat \<Rightarrow> nat \<Rightarrow> tile list" where
  "cut p s n = (if s - n > 16 then [(p, n, False), (p + n, s - n, True)] else [(p, s, False)])"

lemma take_block_ok:
  assumes ok: "heap_ok h (us @ (p, s, True) # vs) F" and sz: "0 < sz" "8 dvd unat sz" "sz \<le> addr s"
    and l: "linked (set_next prev (pxNextFreeBlock h (At (addr p))) h) Start F'" "prev \<noteq> End" "distinct F'"
      "set F' = starts us \<union> starts vs" "sorted (map (\<lambda>p. xBlockSize h (At p)) F')"
  shows "\<exists>h' G. take_block sz prev (addr p) h = Some (addr p + heapSTRUCT_SIZE, h') \<and>
    heap_ok h' (us @ cut p s (unat sz) @ vs) G"
proof -
  let ?ts = "us @ (p, s, True) # vs" and ?n = "unat sz"
  note H = heap_okD [OF ok]
  have ps: "(p, s, True) \<in> set ?ts" by simp
  note W = tile_words [OF H(2) ps]
  have size: "xBlockSize h (At (addr p)) = addr s" by (rule H(3) [OF ps])
  have n: "0 < ?n" "?n \<le> s" using sz W(6) by (simp_all add: unat_gt_0 word_le_nat_alt)
  have sub: "unat (addr s - sz) = s - ?n" using sz(3) W(6) by (simp add: unat_sub)
  have split: "addr s - sz > heapMINIMUM_BLOCK_SIZE \<longleftrightarrow> s - ?n > 16"
    by (simp add: word_less_nat_alt sub heap_constants)
  define h1 where "h1 = set_next prev (pxNextFreeBlock h (At (addr p))) h"
  have h1: "xBlockSize h1 = xBlockSize h" "pxNextFreeBlock h1 End = None"
    "xHeapHasBeenInitialised h1" "xFreeBytesRemaining h1 = xFreeBytesRemaining h"
    using H(1,5) l(2) by (simp_all add: h1_def)
  have room: "s \<le> unat (xFreeBytesRemaining h)" using H(10) by simp
  show ?thesis
  proof (cases "s - ?n > 16")
    case False
    let ?h = "h1\<lparr>xFreeBytesRemaining := xFreeBytesRemaining h1 - xBlockSize h1 (At (addr p))\<rparr>"
    let ?ts' = "us @ (p, s, False) # vs"
    have "take_block sz prev (addr p) h = Some (addr p + heapSTRUCT_SIZE, ?h)"
      using False size split unfolding take_block_def Let_def h1_def [symmetric] by (simp add: h1(1))
    moreover have "unat (xFreeBytesRemaining h - addr s) = free_bytes ?ts'"
    proof -
      have "addr s \<le> xFreeBytesRemaining h" using room W(6) by (simp add: word_le_nat_alt)
      then show ?thesis using H(10) W(6) by (simp add: unat_sub)
    qed
    moreover have "linked ?h Start F'" using l(1) linked_cong [of ?h h1] by (simp add: h1_def)
    moreover have "set F' = {addr p |p s. (p, s, True) \<in> set ?ts'}"
      using l(4) unfolding starts_def [symmetric] by simp
    moreover have "\<forall>(p, s, f) \<in> set ?ts'. xBlockSize ?h (At (addr p)) = addr s"
      using H(3) h1(1) size by auto
    moreover have "tiled 0 ?ts' heap_bytes" by (rule tiled_change [OF H(2)])
    ultimately show ?thesis
      using False h1 H(6) l(3,5) size unfolding heap_ok_def cut_def
      by (intro exI [of _ ?h] exI [of _ F']) simp
  next
    case True
    let ?ts' = "us @ (p, ?n, False) # (p + ?n, s - ?n, True) # vs"
    have T': "tiled 0 ?ts' heap_bytes" by (rule tiled_split [OF H(2) n(1) _ sz(2)]) (use True in simp)
    have rest: "addr p + sz = addr (p + ?n)" by simp
    have in': "(p, ?n, False) \<in> set ?ts'" "(p + ?n, s - ?n, True) \<in> set ?ts'" by simp_all
    note W' = tile_words [OF T' in'(2)]
    have pr: "addr p \<noteq> addr (p + ?n)" using addr_inject [OF T' in'] n(1) by auto
    have nF: "addr p \<notin> set F'" using not_a_start [OF H(2)] l(4) by simp
    have "tiled 0 ((us @ [(p, ?n, False)]) @ (p + ?n, s - ?n, True) # vs) heap_bytes" using T' by simp
    from not_a_start [OF this] have rF: "addr (p + ?n) \<notin> set F'" using l(4) by simp
    define h2 where "h2 = set_size (At (addr p)) sz (set_size (At (addr (p + ?n))) (addr s - sz) h1)"
    have s2: "xBlockSize h2 (At q) = xBlockSize h (At q)" if "q \<noteq> addr p" "q \<noteq> addr (p + ?n)" for q
      using that by (simp add: h2_def h1(1))
    have s2p: "xBlockSize h2 (At (addr p)) = sz" "xBlockSize h2 (At (addr (p + ?n))) = addr s - sz"
      using pr by (simp_all add: h2_def)
    have m: "map (\<lambda>p. xBlockSize h2 (At p)) F' = map (\<lambda>p. xBlockSize h (At p)) F'"
    proof (rule map_cong [OF refl])
      fix x assume "x \<in> set F'"
      with nF rF have "x \<noteq> addr p" "x \<noteq> addr (p + ?n)" by blast+
      then show "xBlockSize h2 (At x) = xBlockSize h (At x)" by (rule s2)
    qed
    have e2: "xBlockSize h2 End = configADJUSTED_HEAP_SIZE" using H(6) by (simp add: h2_def h1(1))
    have le: "addr s - sz \<le> configADJUSTED_HEAP_SIZE"
      using W'(1) heap_constants(1) by (simp add: word_le_nat_alt sub)
    have l2: "linked h2 Start F'" using l(1) linked_cong [of h2 h1] by (simp add: h1_def h2_def)
    have le2: "xBlockSize h2 (At (addr (p + ?n))) \<le> xBlockSize h2 End" using le unfolding e2 s2p(2) .
    have h2: "pxNextFreeBlock h2 = pxNextFreeBlock h1" "xHeapHasBeenInitialised h2" "pxNextFreeBlock h2 End = None"
      "xFreeBytesRemaining h2 = xFreeBytesRemaining h" using h1 by (simp_all add: h2_def)
    have so: "sorted (map (\<lambda>p. xBlockSize h2 (At p)) F')" using l(5) unfolding m .
    from insert_ok [OF l2 l(3) rF le2 h2(3) so] obtain h3 G where
      3: "prvInsertBlockIntoFreeList (At (addr (p + ?n))) h2 = Some h3" "linked h3 Start G" "distinct G"
        "set G = insert (addr (p + ?n)) (set F')" "sorted (map (\<lambda>p. xBlockSize h3 (At p)) G)"
        "xBlockSize h3 = xBlockSize h2" "pxNextFreeBlock h3 End = None"
        "xHeapHasBeenInitialised h3 = xHeapHasBeenInitialised h2"
        "xFreeBytesRemaining h3 = xFreeBytesRemaining h2" by blast
    let ?h = "h3\<lparr>xFreeBytesRemaining := xFreeBytesRemaining h3 - xBlockSize h3 (At (addr p))\<rparr>"
    have "take_block sz prev (addr p) h = Some (addr p + heapSTRUCT_SIZE, ?h)"
    proof -
      have "xBlockSize h1 (At (addr p)) - sz > heapMINIMUM_BLOCK_SIZE" using True size split h1(1) by simp
      then show ?thesis
        unfolding take_block_def Let_def h1_def [symmetric] using 3(1)
        by (simp add: rest [simplified] h2_def h1(1) size)
    qed
    moreover have "unat (xFreeBytesRemaining ?h) = free_bytes ?ts'"
    proof -
      have "sz \<le> xFreeBytesRemaining h" using room n(2) by (simp add: word_le_nat_alt)
      then show ?thesis using H(10) n(2) 3(6,9) s2p(1) h2(4) by (simp add: unat_sub)
    qed
    moreover have "linked ?h Start G" using 3(2) linked_cong [of ?h h3] by simp
    moreover have "set G = {addr p |p s. (p, s, True) \<in> set ?ts'}"
      using 3(4) l(4) unfolding starts_def [symmetric] by simp
    moreover have "\<forall>(q, t, f) \<in> set ?ts'. xBlockSize ?h (At (addr q)) = addr t"
    proof clarify
      fix q t f assume q: "(q, t, f) \<in> set ?ts'"
      show "xBlockSize ?h (At (addr q)) = addr t"
      proof (cases "q = p \<or> q = p + ?n")
        case True
        then have "(q, t, f) = (p, ?n, False) \<or> (q, t, f) = (p + ?n, s - ?n, True)"
          using addr_inject [OF T' q in'(1)] addr_inject [OF T' q in'(2)] by auto
        then show ?thesis using 3(6) s2p n(2) by (auto simp: of_nat_diff)
      next
        case False
        then have "(q, t, f) \<in> set ?ts" using q by auto
        moreover have "addr q \<noteq> addr p" "addr q \<noteq> addr (p + ?n)"
          using addr_inject [OF T' q in'(1)] addr_inject [OF T' q in'(2)] False by auto
        ultimately show ?thesis using H(3) [of q t f] s2 [of "addr q"] 3(6) by simp
      qed
    qed
    ultimately show ?thesis
      using True T' 3 h2(2) e2 unfolding heap_ok_def cut_def
      by (intro exI [of _ ?h] exI [of _ G]) simp
  qed
qed

lemma low_bits: "unat (n AND 7 :: u32) = unat n mod 8" for n :: u32
proof -
  have "n AND 7 = take_bit 3 n" by (simp add: take_bit_eq_mask mask_eq_exp_minus_1)
  then show ?thesis by (simp add: take_bit_eq_mod unat_mod_distrib)
qed

lemma round_up_spec:
  "unat (round_up n) = (if unat n mod 8 = 0 then unat n else (unat n + 8 - unat n mod 8) mod 2 ^ 32)"
proof (cases "unat n mod 8 = 0")
  case True
  then have "n AND 7 = 0" using low_bits [of n] by (simp add: unat_eq_0)
  with True show ?thesis by (simp add: round_up_def portBYTE_ALIGNMENT_MASK_def)
next
  case False
  then have nz: "n AND 7 \<noteq> 0" using low_bits [of n] by (metis unat_0)
  have "(n AND 7) \<le> 8" using low_bits [of n] by (simp add: word_le_nat_alt)
  then have "unat (8 - (n AND 7)) = 8 - unat n mod 8" using low_bits [of n] by (simp add: unat_sub)
  then have "unat (n + (8 - (n AND 7))) = (unat n + (8 - unat n mod 8)) mod 2 ^ 32" by (simp add: unat_word_ariths)
  moreover have "unat n + (8 - unat n mod 8) = unat n + 8 - unat n mod 8"
    by (rule add_diff_assoc) (simp add: less_imp_le)
  ultimately show ?thesis using nz False
    by (simp add: round_up_def portBYTE_ALIGNMENT_MASK_def portBYTE_ALIGNMENT_def)
qed

lemma round_dvd: "8 dvd unat (round_up n)"
proof (cases "unat n mod 8 = 0")
  case False
  have "unat n + 8 - unat n mod 8 = 8 * (unat n div 8 + 1)"
    by presburger
  then have "8 dvd unat n + 8 - unat n mod 8" by simp
  moreover have "(8 :: nat) dvd 2 ^ 32" by simp
  ultimately show ?thesis using False by (simp add: round_up_spec dvd_mod)
qed (simp add: round_up_spec mod_eq_0_iff_dvd)

lemma wanted_dvd: "0 < wanted_size w \<Longrightarrow> 8 dvd unat (wanted_size w)"
  by (simp add: wanted_size_def round_dvd split: if_splits)

text \<open>A request that leaves room for the link and the rounding is met with at least as much.\<close>

lemma wanted_enough:
  assumes "0 < w" "unat w + 16 \<le> 2 ^ 32"
  shows "unat w + 8 \<le> unat (wanted_size w)" "unat (wanted_size w) < unat w + 16"
proof -
  have u: "unat (w + 8) = unat w + 8" using assms(2) by (simp add: unat_word_ariths)
  have m: "unat (w + 8) mod 8 < 8" by simp
  have "unat (round_up (w + 8)) = (if (unat w + 8) mod 8 = 0 then unat w + 8
      else unat w + 8 + 8 - (unat w + 8) mod 8)"
    using assms(2) by (simp add: round_up_spec u)
  with m u have "unat w + 8 \<le> unat (round_up (w + 8))" "unat (round_up (w + 8)) < unat w + 16"
    by (auto split: if_splits)
  then show "unat w + 8 \<le> unat (wanted_size w)" "unat (wanted_size w) < unat w + 16"
    using assms(1) by (simp_all add: wanted_size_def heap_constants(3))
qed

text \<open>The specification: the smallest free block that is large enough, or nothing.\<close>

definition fits :: "tile list \<Rightarrow> nat \<Rightarrow> bool" where
  "fits ts n \<longleftrightarrow> 0 < n \<and> n < heap_bytes \<and> (\<exists>p s. (p, s, True) \<in> set ts \<and> n \<le> s)"

definition best_fit :: "tile list \<Rightarrow> nat \<Rightarrow> u32 \<Rightarrow> tile list \<Rightarrow> bool" where
  "best_fit ts n a ts' \<longleftrightarrow> (\<exists>us p s vs. ts = us @ (p, s, True) # vs \<and> ts' = us @ cut p s n @ vs \<and>
     a = addr (p + 8) \<and> n \<le> s \<and> (\<forall>q t. (q, t, True) \<in> set ts \<longrightarrow> n \<le> t \<longrightarrow> s \<le> t))"

lemma malloc_ok:
  assumes ok: "heap_ok h ts F"
  shows "if fits ts (unat (wanted_size w))
    then \<exists>a h' ts' G. malloc w h = Some (Some a, h') \<and> heap_ok h' ts' G \<and> best_fit ts (unat (wanted_size w)) a ts'
    else malloc w h = Some (None, h)"
proof -
  note H = heap_okD [OF ok]
  let ?z = "wanted_size w"
  obtain first where first: "pxNextFreeBlock h Start = Some first" using H(4) by (cases F) auto
  have guard: "?z > 0 \<and> ?z < configADJUSTED_HEAP_SIZE \<longleftrightarrow> 0 < unat ?z \<and> unat ?z < heap_bytes"
    by (simp add: unat_gt_0 word_less_nat_alt heap_constants(1))
  have cmp: "?z \<le> addr t \<longleftrightarrow> unat ?z \<le> t" if "(q, t, g) \<in> set ts" for q t g
    using tile_words(6) [OF H(2) that] by (simp add: word_le_nat_alt)
  show ?thesis
  proof (cases "fits ts (unat ?z)")
    case False
    have "malloc w h = Some (None, h)"
    proof (cases "?z > 0 \<and> ?z < configADJUSTED_HEAP_SIZE")
      case True
      then have small: "t < unat ?z" if "(q, t, True) \<in> set ts" for q t
        using False that guard by (auto simp: fits_def not_le)
      have "\<forall>a\<in>set F. xBlockSize h (At a) < ?z"
      proof
        fix a assume "a \<in> set F"
        then obtain q t where q: "(q, t, True) \<in> set ts" "a = addr q" using H(8) by auto
        have "\<not> ?z \<le> addr t" using cmp [OF q(1)] small [OF q(1)] by simp
        then show "xBlockSize h (At a) < ?z" using H(3) [OF q(1)] q(2) by (simp add: not_le)
      qed
      from find_none [OF H(4) this first H(5)] show ?thesis
        using H(1) True first by (auto simp: malloc_def Let_def)
    next
      case False
      show ?thesis using H(1) False by (auto simp: malloc_def Let_def)
    qed
    with False show ?thesis by simp
  next
    case True
    then obtain p0 s0 where p0: "(p0, s0, True) \<in> set ts" "unat ?z \<le> s0" and g: "0 < ?z" "?z < configADJUSTED_HEAP_SIZE"
      using guard by (auto simp: fits_def)
    have "?z \<le> addr s0" using p0(2) cmp [OF p0(1)] by blast
    from choose_ok [OF ok first p0(1) this] obtain us p s vs prev F' where
      1: "ts = us @ (p, s, True) # vs" "find_block h ?z Start first = Some (prev, At (addr p))" "?z \<le> addr s"
        "\<forall>q t. (q, t, True) \<in> set ts \<longrightarrow> ?z \<le> addr t \<longrightarrow> s \<le> t"
        "linked (set_next prev (pxNextFreeBlock h (At (addr p))) h) Start F'" "prev \<noteq> End" "distinct F'"
        "set F' = starts us \<union> starts vs" "sorted (map (\<lambda>p. xBlockSize h (At p)) F')" by blast
    from take_block_ok [OF ok [unfolded 1(1)] g(1) wanted_dvd [OF g(1)] 1(3,5-9)] obtain h' G where
      2: "take_block ?z prev (addr p) h = Some (addr p + heapSTRUCT_SIZE, h')"
        "heap_ok h' (us @ cut p s (unat ?z) @ vs) G" by blast
    have "malloc w h = Some (Some (addr (p + 8)), h')"
      using H(1) g first 1(2) 2(1) heap_constants(3) by (simp add: malloc_def Let_def add.commute)
    moreover have "best_fit ts (unat ?z) (addr (p + 8)) (us @ cut p s (unat ?z) @ vs)"
      unfolding best_fit_def
    proof (intro exI conjI allI impI)
      show "unat ?z \<le> s" using cmp [of p s True] 1(1,3) by simp
      show "s \<le> t" if "(q, t, True) \<in> set ts" "unat ?z \<le> t" for q t
        using 1(4) that cmp [OF that(1)] by blast
    qed (rule 1(1) refl)+
    ultimately show ?thesis using 2(2) True by auto
  qed
qed

end
