(* ===== verification/Heap_Props.thy ===== *)
theory Heap_Props
  imports Heap_2 Kernel_Props
begin

text \<open>
  What the callers of the heap can rely on in every state that calls of \<open>pvPortMalloc\<close> and \<open>vPortFree\<close>
  reach, and what they cannot.
\<close>

section \<open>Reachable states\<close>

text \<open>
  The map \<open>L\<close> has the blocks in use: the pointer that was returned, and the size that was asked for.  A caller
  asks for a size that leaves room for the link, and frees what is in use.
\<close>

inductive heap_reach :: "heap \<Rightarrow> (u32 \<rightharpoonup> u32) \<Rightarrow> bool" where
  reach_start: "heap_reach (heap_reset nx sz) Map.empty"
| reach_malloc: "heap_reach h L \<Longrightarrow> unat w + 16 \<le> 2 ^ 32 \<Longrightarrow> malloc w h = Some (r, h') \<Longrightarrow>
    heap_reach h' (case r of None \<Rightarrow> L | Some p \<Rightarrow> L(p \<mapsto> w))"
| reach_free: "heap_reach h L \<Longrightarrow> L p = Some w \<Longrightarrow> free p h = Some h' \<Longrightarrow> heap_reach h' (L(p := None))"

text \<open>The blocks in use are those that are not free, each large enough.\<close>

definition in_use :: "tile list \<Rightarrow> (u32 \<rightharpoonup> u32) \<Rightarrow> bool" where
  "in_use ts L \<longleftrightarrow> (\<forall>a w. L a = Some w \<longrightarrow> (\<exists>p s. (p, s, False) \<in> set ts \<and> a = addr (p + 8) \<and> unat w + 8 \<le> s)) \<and>
     (\<forall>p s. (p, s, False) \<in> set ts \<longrightarrow> L (addr (p + 8)) \<noteq> None)"

lemma in_use_pointer:
  assumes "tiled 0 ts heap_bytes" "(p, s, f) \<in> set ts" "(q, t, g) \<in> set ts" "addr (p + 8) = addr (q + 8)"
  shows "(p, s, f) = (q, t, g)"
  using addr_inject [OF assms(1-3)] assms(4) by simp

lemma cut_free: "set (cut p s n) \<subseteq> {(p, s, False), (p, n, False), (p + n, s - n, True)}"
  by (simp add: cut_def)

lemma in_use_malloc:
  assumes u: "in_use (us @ (p, s, True) # vs) L" and n: "unat w + 8 \<le> n" "n \<le> s"
    and t: "tiled 0 (us @ cut p s n @ vs) heap_bytes"
  shows "in_use (us @ cut p s n @ vs) (L(addr (p + 8) \<mapsto> w))"
proof -
  let ?ts = "us @ cut p s n @ vs"
  define m where "m = (if s - n > 16 then n else s)"
  have m: "(p, m, False) \<in> set ?ts" "unat w + 8 \<le> m" using n by (simp_all add: cut_def m_def)
  have old: "(q, r, False) \<in> set ?ts \<Longrightarrow> q = p \<or> (q, r, False) \<in> set us \<union> set vs" for q r
    by (auto simp: cut_def split: if_splits)
  show ?thesis
    unfolding in_use_def
  proof (intro conjI allI impI)
    fix a x assume a: "(L(addr (p + 8) \<mapsto> w)) a = Some x"
    show "\<exists>p s. (p, s, False) \<in> set ?ts \<and> a = addr (p + 8) \<and> unat x + 8 \<le> s"
    proof (cases "a = addr (p + 8)")
      case True
      with a m show ?thesis by auto
    next
      case False
      with a u obtain q r where "(q, r, False) \<in> set (us @ (p, s, True) # vs)" "a = addr (q + 8)" "unat x + 8 \<le> r"
        unfolding in_use_def by (auto simp del: of_nat_add) blast
      then have "(q, r, False) \<in> set ?ts" by auto
      with \<open>a = addr (q + 8)\<close> \<open>unat x + 8 \<le> r\<close> show ?thesis by blast
    qed
  next
    fix q r assume "(q, r, False) \<in> set ?ts"
    from old [OF this] u show "(L(addr (p + 8) \<mapsto> w)) (addr (q + 8)) \<noteq> None" by (auto simp: in_use_def)
  qed
qed

lemma in_use_free:
  assumes u: "in_use (us @ (p, s, False) # vs) L" and t: "tiled 0 (us @ (p, s, False) # vs) heap_bytes"
  shows "in_use (us @ (p, s, True) # vs) (L(addr (p + 8) := None))"
proof -
  let ?ts = "us @ (p, s, False) # vs"
  have d: "(p, r, g) \<notin> set us \<union> set vs" for r g
    using tiled_starts [OF t] by (force dest: in_set_zipE)
  show ?thesis
    unfolding in_use_def
  proof (intro conjI allI impI)
    fix a x assume a: "(L(addr (p + 8) := None)) a = Some x"
    then have "a \<noteq> addr (p + 8)" "L a = Some x" by (auto split: if_splits)
    with u obtain q r where "(q, r, False) \<in> set ?ts" "a = addr (q + 8)" "unat x + 8 \<le> r"
      unfolding in_use_def by blast
    with \<open>a \<noteq> addr (p + 8)\<close> show "\<exists>q r. (q, r, False) \<in> set (us @ (p, s, True) # vs) \<and> a = addr (q + 8) \<and> unat x + 8 \<le> r"
      by auto
  next
    fix q r assume q: "(q, r, False) \<in> set (us @ (p, s, True) # vs)"
    then have i: "(q, r, False) \<in> set ?ts" "(q, r, False) \<in> set us \<union> set vs" by auto
    have "addr (q + 8) \<noteq> addr (p + 8)"
      using in_use_pointer [OF t i(1), of p s False] i(2) d by auto
    with u i(1) show "(L(addr (p + 8) := None)) (addr (q + 8)) \<noteq> None" by (auto simp: in_use_def)
  qed
qed

text \<open>The first call cuts out the single block; a reset heap behaves as one that is initialised.\<close>

definition started :: "heap \<Rightarrow> heap" where
  "started h = (if xHeapHasBeenInitialised h then h else (prvHeapInit h)\<lparr>xHeapHasBeenInitialised := True\<rparr>)"

lemma malloc_started: "malloc w h = malloc w (started h)"
  by (simp add: malloc_def started_def Let_def)

lemma heap_reach_ok:
  assumes "heap_reach h L"
  shows "\<exists>ts F. heap_ok (started h) ts F \<and> in_use ts L \<and> (\<not> xHeapHasBeenInitialised h \<longrightarrow> L = Map.empty)"
  using assms
proof induction
  case (reach_start nx sz)
  have "\<not> xHeapHasBeenInitialised (heap_reset nx sz)" by (simp add: heap_reset_def)
  then have "heap_ok (started (heap_reset nx sz)) [(0, heap_bytes, True)] [0]"
    using init_ok by (simp add: started_def)
  moreover have "in_use [(0, heap_bytes, True)] Map.empty" by (simp add: in_use_def)
  ultimately show ?case by blast
next
  case (reach_malloc h L w r h')
  from reach_malloc(4) obtain ts F where ok: "heap_ok (started h) ts F" "in_use ts L" by blast
  have s: "started (started h) = started h" by (simp add: started_def)
  show ?case
  proof (cases "fits ts (unat (wanted_size w))")
    case False
    with malloc_ok [OF ok(1), of w] reach_malloc(3) have "r = None" "h' = started h"
      unfolding malloc_started [of w h] by auto
    with ok s show ?thesis using heap_okD(1) [OF ok(1)] by auto
  next
    case True
    with malloc_ok [OF ok(1), of w] obtain a h1 ts' G where
      1: "malloc w (started h) = Some (Some a, h1)" "heap_ok h1 ts' G" "best_fit ts (unat (wanted_size w)) a ts'"
      by auto
    then have e: "r = Some a" "h' = h1" using reach_malloc(3) unfolding malloc_started [of w h] by auto
    from 1(3) obtain us p s vs where
      2: "ts = us @ (p, s, True) # vs" "ts' = us @ cut p s (unat (wanted_size w)) @ vs" "a = addr (p + 8)"
        "unat (wanted_size w) \<le> s" by (auto simp: best_fit_def)
    have "0 < w" using True by (auto simp: fits_def wanted_size_def word_gt_0 split: if_splits)
    from wanted_enough(1) [OF this reach_malloc(2)] ok(2) 2 heap_okD(2) [OF 1(2)]
    have "in_use ts' (L(a \<mapsto> w))" using in_use_malloc [of us p s vs L w] by simp
    moreover have "started h1 = h1" using heap_okD(1) [OF 1(2)] by (simp add: started_def)
    ultimately have "heap_ok (started h') ts' G" "in_use ts' (case r of None \<Rightarrow> L | Some p \<Rightarrow> L(p \<mapsto> w))"
      "xHeapHasBeenInitialised h'" using 1(2) heap_okD(1) [OF 1(2)] by (simp_all add: e)
    then show ?thesis by blast
  qed
next
  case (reach_free h L p w h')
  then obtain ts F where ok: "heap_ok (started h) ts F" "in_use ts L" "xHeapHasBeenInitialised h" by auto
  then have s: "started h = h" by (simp add: started_def)
  from ok(2) reach_free(2) obtain q t where q: "(q, t, False) \<in> set ts" "p = addr (q + 8)"
    unfolding in_use_def by blast
  then obtain us vs where ts: "ts = us @ (q, t, False) # vs" by (metis split_list)
  from free_ok [OF ok(1) [unfolded s ts]] obtain h1 F' where
    1: "free (addr q + heapSTRUCT_SIZE) h = Some h1" "heap_ok h1 (us @ (q, t, True) # vs) F'" by blast
  have "h' = h1" using 1(1) reach_free(3) q(2) heap_constants(3) by (simp add: add.commute)
  moreover have "in_use (us @ (q, t, True) # vs) (L(p := None))"
    using in_use_free [OF ok(2) [unfolded ts]] heap_okD(2) [OF ok(1)] q(2) unfolding ts by simp
  moreover have "started h1 = h1" "xHeapHasBeenInitialised h1"
    using heap_okD(1) [OF 1(2)] by (simp_all add: started_def)
  ultimately have "heap_ok (started h') (us @ (q, t, True) # vs) F'"
    "in_use (us @ (q, t, True) # vs) (L(p := None))" "xHeapHasBeenInitialised h'" using 1(2) by simp_all
  then show ?case by blast
qed

section \<open>Properties\<close>

lemma in_useD:
  assumes "heap_ok h ts F" "in_use ts L" "L a = Some w"
  obtains p s where "(p, s, False) \<in> set ts" "unat a = p + 8" "8 dvd p" "unat w + 8 \<le> s" "p + s \<le> heap_bytes"
    "a = addr p + heapSTRUCT_SIZE"
proof -
  from assms(2,3) obtain p s where 1: "(p, s, False) \<in> set ts" "a = addr (p + 8)" "unat w + 8 \<le> s"
    unfolding in_use_def by blast
  note W = tile_words [OF heap_okD(2) [OF assms(1)] 1(1)]
  have "p + 8 < 2 ^ 32" using W(1) 1(3) by (simp add: heap_bytes_def)
  then have "unat a = p + 8" using 1(2) unat_u32_of_nat by blast
  then show thesis using that 1 W(1,4) heap_constants(3) by (simp add: add.commute)
qed

text \<open>
  Claim C9.  Blocks in use never meet.  Whatever sequence of \<open>pvPortMalloc\<close> and \<open>vPortFree\<close> has led to them, with
  requests of at most \<open>2 ^ 32 - 16\<close> bytes (a larger one wraps, and breaks this: \<open>heap_request_wraps\<close>) and blocks freed
  once, while they are in use: each is aligned and inside the array, what was asked for and the link before
  it lie apart from every other block in use, and it can be freed.
\<close>

theorem heap_blocks_apart:
  assumes "heap_reach h L" "L a = Some w"
  shows "unat a mod 8 = 0 \<and> 8 \<le> unat a \<and> unat a + unat w \<le> heap_bytes \<and> (\<exists>h'. free a h = Some h') \<and>
    (\<forall>b v. L b = Some v \<longrightarrow> b \<noteq> a \<longrightarrow> unat a + unat w + 8 \<le> unat b \<or> unat b + unat v + 8 \<le> unat a)"
proof -
  from heap_reach_ok [OF assms(1)] assms(2) obtain ts F where
    ok: "heap_ok (started h) ts F" "in_use ts L" and i: "xHeapHasBeenInitialised h" by auto
  from i have st: "started h = h" by (simp add: started_def)
  from in_useD [OF ok assms(2)] obtain p s where
    1: "(p, s, False) \<in> set ts" "unat a = p + 8" "8 dvd p" "unat w + 8 \<le> s" "p + s \<le> heap_bytes"
      "a = addr p + heapSTRUCT_SIZE" .
  have "unat a + unat w + 8 \<le> unat b \<or> unat b + unat v + 8 \<le> unat a" if "L b = Some v" "b \<noteq> a" for b v
  proof -
    from in_useD [OF ok that(1)] obtain q t where
      2: "(q, t, False) \<in> set ts" "unat b = q + 8" "unat v + 8 \<le> t" .
    have "p \<noteq> q" using that(2) 1(2) 2(2) by (metis word_unat_eq_iff)
    with tiled_apart [OF heap_okD(2) [OF ok(1)] 1(1) 2(1)] have "p + s \<le> q \<or> q + t \<le> p" by auto
    with 1(2,4) 2(2,3) show ?thesis by auto
  qed
  moreover obtain us vs where ts: "ts = us @ (p, s, False) # vs" using 1(1) by (metis split_list)
  have "\<exists>h'. free a h = Some h'" using free_ok [OF ok(1) [unfolded st ts]] unfolding 1(6) by blast
  moreover have "unat a mod 8 = 0" using 1(2,3) by presburger
  ultimately show ?thesis using 1(2,4,5) by auto
qed

theorem heap_blocks_apart_witness:
  "\<exists>h L. heap_reach h L \<and> L 8 = Some 100 \<and> L 120 = Some 50 \<and>
    (unat (8 :: u32) + unat (100 :: u32) + 8 \<le> unat (120 :: u32) \<or>
     unat (120 :: u32) + unat (50 :: u32) + 8 \<le> unat (8 :: u32))"
proof -
  let ?h = "heap_reset (\<lambda>_. None) (\<lambda>_. 0)"
  have "map_option fst (do { (r, h) \<leftarrow> malloc 100 ?h; (q, h') \<leftarrow> malloc 50 h; Some ((r, q), h) }) =
    Some (Some 8, Some 120)" by code_simp
  then obtain h1 h2 where 1: "malloc 100 ?h = Some (Some 8, h1)" "malloc 50 h1 = Some (Some 120, h2)"
    by (auto split: Option.bind_splits)
  have r1: "heap_reach h1 [8 \<mapsto> 100]" using reach_malloc [OF reach_start _ 1(1)] by simp
  have r2: "heap_reach h2 [8 \<mapsto> 100, 120 \<mapsto> 50]" using reach_malloc [OF r1 _ 1(2)] by simp
  have "[8 \<mapsto> 100, 120 \<mapsto> 50] (8 :: u32) = Some (100 :: u32)"
    "[8 \<mapsto> 100, 120 \<mapsto> 50] (120 :: u32) = Some (50 :: u32)" "(120 :: u32) \<noteq> 8" by simp_all
  with heap_blocks_apart [OF r2 this(1)] r2 show ?thesis by blast
qed

text \<open>With the scheduler, which is suspended during the call.\<close>

lemma pvPortMalloc_ok:
  assumes "malloc w h = Some (r, h')" "run_inv late N z k" "uxSchedulerSuspended k \<noteq> - 1"
  shows "\<exists>k'. pvPortMalloc w (h, k) = Some (r, h', k') \<and> run_inv late N z k'"
proof -
  have r: "run_inv late N z (vTaskSuspendAll k)" using run_ok_step [OF assms(2), of SuspendAll] assms(3) by simp
  have "uxSchedulerSuspended (vTaskSuspendAll k) \<noteq> 0"
    using assms(3) unfolding vTaskSuspendAll_def by (simp add: add_eq_0_iff2)
  from resume_all_step [OF r this] assms(1) show ?thesis by (auto simp: pvPortMalloc_def)
qed

text \<open>
  The bytes a request takes: with the link of eight bytes, rounded up to the alignment of eight.
\<close>

definition need :: "u32 \<Rightarrow> nat" where
  "need w = (unat w + 15) div 8 * 8"

definition has_room :: "tile list \<Rightarrow> nat \<Rightarrow> bool" where
  "has_room ts n \<longleftrightarrow> (\<exists>p s. (p, s, True) \<in> set ts \<and> n \<le> s)"

lemma wanted_need:
  assumes "0 < w" "unat w + 16 \<le> 2 ^ 32"
  shows "unat (wanted_size w) = need w"
proof -
  note W = wanted_enough [OF assms]
  have "0 < wanted_size w" using W(1) by (metis add_gr_0 not_le unat_0 word_gt_0 zero_less_numeral)
  with wanted_dvd have "8 dvd unat (wanted_size w)" .
  then obtain m where m: "unat (wanted_size w) = 8 * m" ..
  from W [unfolded m] have "(unat w + 15) div 8 = m" by linarith
  then show ?thesis by (simp add: need_def m)
qed

lemma fits_need:
  assumes "w = 0 \<or> unat w + 16 \<le> 2 ^ 32"
  shows "fits ts (unat (wanted_size w)) \<longleftrightarrow> 0 < w \<and> unat w + 16 \<le> heap_bytes \<and> has_room ts (need w)"
proof (cases "w = 0")
  case False
  then have w: "0 < w" "unat w + 16 \<le> 2 ^ 32" using assms by (simp_all add: word_gt_0)
  have "0 < need w \<and> need w < heap_bytes \<longleftrightarrow> unat w + 16 \<le> heap_bytes"
    unfolding need_def heap_bytes_def by presburger
  then show ?thesis using w(1) by (auto simp: fits_def has_room_def wanted_need [OF w])
qed (simp add: fits_def wanted_size_def)

text \<open>
  Claim C10.  \<open>pvPortMalloc\<close> is a best fit: in every reachable state the array of 17400 bytes is cut into free blocks
  and the blocks in use, and for every request of at most \<open>2 ^ 32 - 16\<close> bytes the call returns and leaves the
  scheduler in order.  For a request of 1 to 17384 bytes it returns \<open>NULL\<close> exactly when no free block has room for
  the request with its link, rounded up to eight, and otherwise the smallest free block that has room, the rest
  of which stays free if it is larger than 16 bytes.  It refuses a request of 0 bytes, and one of more
  than 17384 bytes even where a block has room (17385 to 17392 bytes on a fresh heap).
\<close>

theorem heap_malloc_best_fit:
  assumes "heap_reach h L" "reach_late ps late k" "length ps + 1 < 2 ^ 32" "uxSchedulerSuspended k \<noteq> - 1"
  shows "\<exists>ts F. heap_ok (started h) ts F \<and> in_use ts L \<and>
    (\<forall>w. w = 0 \<or> unat w + 16 \<le> 2 ^ 32 \<longrightarrow> (\<exists>k'. run_inv late {..length ps} (length ps) k' \<and>
      (if 0 < w \<and> unat w + 16 \<le> heap_bytes \<and> has_room ts (need w)
       then \<exists>a h' ts' G. pvPortMalloc w (h, k) = Some (Some a, h', k') \<and> heap_ok h' ts' G \<and>
              best_fit ts (need w) a ts'
       else pvPortMalloc w (h, k) = Some (None, started h, k'))))"
proof -
  note r = late_run_inv [OF assms(2,3)]
  from heap_reach_ok [OF assms(1)] obtain ts F where ok: "heap_ok (started h) ts F" "in_use ts L" by blast
  have "\<exists>k'. run_inv late {..length ps} (length ps) k' \<and>
      (if 0 < w \<and> unat w + 16 \<le> heap_bytes \<and> has_room ts (need w)
       then \<exists>a h' ts' G. pvPortMalloc w (h, k) = Some (Some a, h', k') \<and> heap_ok h' ts' G \<and>
              best_fit ts (need w) a ts'
       else pvPortMalloc w (h, k) = Some (None, started h, k'))" if w: "w = 0 \<or> unat w + 16 \<le> 2 ^ 32" for w
  proof (cases "fits ts (unat (wanted_size w))")
    case True
    note room = True [unfolded fits_need [OF w]]
    then have n: "unat (wanted_size w) = need w" using w wanted_need by blast
    from malloc_ok [OF ok(1), of w] True obtain a h' ts' G where
      1: "malloc w h = Some (Some a, h')" "heap_ok h' ts' G" "best_fit ts (need w) a ts'"
      unfolding malloc_started [of w h] n by auto
    from pvPortMalloc_ok [OF 1(1) r assms(4)] obtain k' where
      "pvPortMalloc w (h, k) = Some (Some a, h', k')" "run_inv late {..length ps} (length ps) k'" by blast
    then show ?thesis unfolding if_P [OF room] using 1(2,3) by blast
  next
    case False
    with malloc_ok [OF ok(1), of w] have "malloc w h = Some (None, started h)"
      unfolding malloc_started [of w h] by simp
    from pvPortMalloc_ok [OF this r assms(4)] show ?thesis
      unfolding if_not_P [OF False [unfolded fits_need [OF w]]] by blast
  qed
  with ok show ?thesis by blast
qed

theorem heap_malloc_best_fit_witness:
  "\<exists>k ts F k' h'. reach_late [3, 2] False k \<and> heap_ok (started (heap_reset (\<lambda>_. None) (\<lambda>_. 0))) ts F \<and>
    in_use ts Map.empty \<and> pvPortMalloc 17385 (heap_reset (\<lambda>_. None) (\<lambda>_. 0), k) = Some (None, h', k')"
proof -
  from late_boot_example obtain k where k: "reach_late [3, 2] False k" "uxSchedulerSuspended k = 0" by blast
  have "length [3, 2 :: u32] + 1 < 2 ^ 32" "uxSchedulerSuspended k \<noteq> - 1" using k(2) by simp_all
  note T = heap_malloc_best_fit [OF reach_start [of "\<lambda>_. None" "\<lambda>_. 0"] k(1) this]
  let ?h = "heap_reset (\<lambda>_. None) (\<lambda>_. 0)" and ?n = "length [3, 2 :: u32]"
  obtain ts F where 1: "heap_ok (started ?h) ts F \<and> in_use ts Map.empty \<and>
    (\<forall>w. w = 0 \<or> unat w + 16 \<le> 2 ^ 32 \<longrightarrow> (\<exists>k'. run_inv False {..?n} ?n k' \<and>
      (if 0 < w \<and> unat w + 16 \<le> heap_bytes \<and> has_room ts (need w)
       then \<exists>a h' ts' G. pvPortMalloc w (?h, k) = Some (Some a, h', k') \<and> heap_ok h' ts' G \<and>
              best_fit ts (need w) a ts'
       else pvPortMalloc w (?h, k) = Some (None, started ?h, k'))))"
    using T by (elim exE) (rule that)
  have small: "\<not> unat (17385 :: u32) + 16 \<le> heap_bytes" by (simp add: heap_bytes_def)
  from 1 [THEN conjunct2, THEN conjunct2, THEN spec, of 17385] obtain k' where
    "pvPortMalloc 17385 (?h, k) = Some (None, started ?h, k')" using small by auto
  with k(1) 1 show ?thesis by blast
qed

definition used_bytes :: "tile list \<Rightarrow> nat" where
  "used_bytes ts = sum_list (map (\<lambda>(p, s, f). if f then 0 else s) ts)"

lemma tiled_total: "tiled a ts e \<Longrightarrow> a + free_bytes ts + used_bytes ts = e"
  by (induction a ts e rule: tiled.induct) (auto simp: used_bytes_def)

text \<open>
  No memory is lost: when everything that was allocated has been freed, whatever the order, all bytes
  of the heap are free again.
\<close>

theorem heap_no_leak:
  assumes "heap_reach h Map.empty"
  shows "xPortGetFreeHeapSize h = configADJUSTED_HEAP_SIZE"
proof -
  from heap_reach_ok [OF assms] obtain ts F where ok: "heap_ok (started h) ts F" "in_use ts Map.empty" by blast
  have "f" if "(p, s, f) \<in> set ts" for p s f using ok(2) that by (cases f) (auto simp: in_use_def)
  then have "\<forall>(p, s, f) \<in> set ts. f" by auto
  then have "used_bytes ts = 0" by (induction ts) (auto simp: used_bytes_def)
  with tiled_total [OF heap_okD(2) [OF ok(1)]] heap_okD(10) [OF ok(1)]
  have "unat (xFreeBytesRemaining (started h)) = heap_bytes" by simp
  moreover have "xFreeBytesRemaining (started h) = xFreeBytesRemaining h"
    by (simp add: started_def prvHeapInit_def Let_def)
  ultimately show ?thesis
    using heap_constants(1) by (simp add: xPortGetFreeHeapSize_def word_unat_eq_iff)
qed

theorem heap_no_leak_witness:
  "\<exists>h. heap_reach h Map.empty \<and> xHeapHasBeenInitialised h \<and> xPortGetFreeHeapSize h = 17400"
proof -
  let ?h = "heap_reset (\<lambda>_. None) (\<lambda>_. 0)"
  have "(do { (r, h) \<leftarrow> malloc 100 ?h; (q, h) \<leftarrow> malloc 50 h; h \<leftarrow> free 8 h; h \<leftarrow> free 120 h;
      Some (r, q, xHeapHasBeenInitialised h) }) = Some (Some 8, Some 120, True)" by code_simp
  then obtain h1 h2 h3 h4 where 1: "malloc 100 ?h = Some (Some 8, h1)" "malloc 50 h1 = Some (Some 120, h2)"
    "free 8 h2 = Some h3" "free 120 h3 = Some h4" "xHeapHasBeenInitialised h4"
    by (auto split: Option.bind_splits)
  have r1: "heap_reach h1 [8 \<mapsto> 100]" using reach_malloc [OF reach_start _ 1(1)] by simp
  have r2: "heap_reach h2 [8 \<mapsto> 100, 120 \<mapsto> 50]" using reach_malloc [OF r1 _ 1(2)] by simp
  have r3: "heap_reach h3 [120 \<mapsto> 50]" using reach_free [OF r2 _ 1(3), of 100] by (simp add: fun_upd_twist)
  have r4: "heap_reach h4 Map.empty" using reach_free [OF r3 _ 1(4), of 50] by simp
  from heap_no_leak [OF r4] r4 1(5) show ?thesis by (auto simp: heap_constants(2))
qed

section \<open>Where it goes wrong\<close>

text \<open>
  A request close to \<open>2 ^ 32\<close> is granted: the size with its link wraps round, and a block with no
  room at all is returned; the next block in use starts inside what was asked for.
\<close>

theorem heap_request_wraps:
  "do { (r, h) \<leftarrow> malloc (2 ^ 32 - 4) (heap_reset (\<lambda>_. None) (\<lambda>_. 0)); (q, h) \<leftarrow> malloc 1 h; Some (r, q) } =
   Some (Some 8, Some 16)"
  by code_simp

text \<open>
  Free blocks are never merged, as the file says: with the whole heap free again, a request that the first
  one would have got is refused.
\<close>

lemma heap_never_merges:
  "do { (r, h) \<leftarrow> malloc 8000 (heap_reset (\<lambda>_. None) (\<lambda>_. 0)); p \<leftarrow> r; h \<leftarrow> free p h;
     (q, h) \<leftarrow> malloc 10000 h; Some (xPortGetFreeHeapSize h, q) } = Some (17400, None)"
  by code_simp

end
