(* ===== verification/Hal_Uart.thy ===== *)
theory Hal_Uart
  imports Queue_Fifo
begin

text \<open>
  The serial port (\<open>hal/hal_uart.c\<close>) and what is built on it: the port of the command line
  (\<open>hal/hal_cli.c\<close>) and the log (\<open>mid/mid_dbg.c\<close>).

  Characters go out through one queue and come in through another; the interrupt handler empties the
  first and fills the second.  The peripheral is its state as the code uses it: whether the transmit
  interrupt is enabled, and the bytes handed to \<open>USART_SendData\<close>, newest last.  The wait for the
  transmission of a byte to complete is left out: the hardware ends it.  The line settings made by
  \<open>hal_uart_init\<close> are calls of the vendor library and are left out too.
\<close>

section \<open>State\<close>

definition configCOMMAND_INT_MAX_OUTPUT_SIZE :: u32 where "configCOMMAND_INT_MAX_OUTPUT_SIZE = 255"

record uart =
  xRxedChars :: queue
  xCharsForTx :: queue
  txe_enabled :: bool
  line :: "u8 list"

section \<open>Operations\<close>

text \<open>
  The queues are created; each allocation may fail, and the port is then not set up (\<open>None\<close> as the
  first result).  The value returned on success is never set by the code, so there is none here.
\<close>

definition hal_uart_init ::
    "nat option \<Rightarrow> nat option \<Rightarrow> (nat \<Rightarrow> u8) \<Rightarrow> kernel \<Rightarrow> (uart option \<times> kernel) option" where
  "hal_uart_init a b junk k = do {
     (rx, k) \<leftarrow> xQueueGenericCreate configCOMMAND_INT_MAX_OUTPUT_SIZE 1 a junk k;
     (tx, k) \<leftarrow> xQueueGenericCreate configCOMMAND_INT_MAX_OUTPUT_SIZE 1 b junk k;
     Some (case (rx, tx) of
         (Some rx, Some tx) \<Rightarrow> Some \<lparr>xRxedChars = rx, xCharsForTx = tx, txe_enabled = False, line = []\<rparr>
       | _ \<Rightarrow> None, k)
   }"

text \<open>One round of the wait for a character; the result is \<open>None\<close> when the task waits on.\<close>

definition hal_uart_get_char ::
    "u32 \<Rightarrow> time_out option \<Rightarrow> uart \<Rightarrow> kernel \<Rightarrow>
     (u8 list option option \<times> time_out option \<times> u32 \<times> uart \<times> kernel) option" where
  "hal_uart_get_char w to u k = do {
     (r, to, w, q, k) \<leftarrow> xQueueGenericReceive w False to (xRxedChars u) k;
     Some (r, to, w, u\<lparr>xRxedChars := q\<rparr>, k)
   }"

text \<open>
  With no time to wait, as all callers in the program have it, the send returns at once.  An interrupt can come
  between the send and the enabling, so the two are definitions of their own.
\<close>

definition put_send :: "u8 \<Rightarrow> uart \<Rightarrow> kernel \<Rightarrow> (bool \<times> uart \<times> kernel) option" where
  "put_send c u k = do {
     (r, to, w, q, k) \<leftarrow> xQueueGenericSend [c] 0 queueSEND_TO_BACK None (xCharsForTx u) k;
     r \<leftarrow> r;
     Some (r, u\<lparr>xCharsForTx := q\<rparr>, k)
   }"

definition put_enable :: "bool \<Rightarrow> uart \<Rightarrow> uart" where
  "put_enable r u = (if r then u\<lparr>txe_enabled := True\<rparr> else u)"

definition hal_uart_put_char :: "u8 \<Rightarrow> uart \<Rightarrow> kernel \<Rightarrow> (bool \<times> uart \<times> kernel) option" where
  "hal_uart_put_char c u k = do { (r, u, k) \<leftarrow> put_send c u k; Some (r, put_enable r u, k) }"

fun put_chars :: "u8 list \<Rightarrow> uart \<Rightarrow> kernel \<Rightarrow> (uart \<times> kernel) option" where
  "put_chars [] u k = Some (u, k)"
| "put_chars (c # cs) u k = do { (r, u, k) \<leftarrow> hal_uart_put_char c u k; put_chars cs u k }"

text \<open>The first \<open>len\<close> bytes at the pointer, which has the bytes \<open>mem\<close>.\<close>

definition hal_uart_put_string :: "u8 list \<Rightarrow> u16 \<Rightarrow> uart \<Rightarrow> kernel \<Rightarrow> (uart \<times> kernel) option" where
  "hal_uart_put_string mem len u k =
     (if unat len \<le> length mem then put_chars (take (unat len) mem) u k else None)"

text \<open>The handler; \<open>txe\<close> and \<open>rxne\<close> are the two status flags, the latter with the byte received.\<close>

partial_function (option) tx_loop :: "queue \<Rightarrow> kernel \<Rightarrow> bool \<Rightarrow> u8 list \<Rightarrow> (queue \<times> kernel \<times> bool \<times> u8 list) option" where
  [code]: "tx_loop q k hpw out = do {
     (x, w, q, k) \<leftarrow> xQueueReceiveFromISR q k;
     case x of
       None \<Rightarrow> Some (q, k, hpw, out)
     | Some c \<Rightarrow> tx_loop q k (hpw \<or> w) (out @ c)
   }"

definition USART1_IRQHandler :: "bool \<Rightarrow> u8 option \<Rightarrow> uart \<Rightarrow> kernel \<Rightarrow> (uart \<times> kernel) option" where
  "USART1_IRQHandler txe rxne u k = do {
     (u, k, hpw) \<leftarrow>
       (if txe then do {
          (q, k, hpw, out) \<leftarrow> tx_loop (xCharsForTx u) k False [];
          Some (u\<lparr>xCharsForTx := q, line := line u @ out, txe_enabled := False\<rparr>, k, hpw)
        }
        else Some (u, k, False));
     (u, k, hpw) \<leftarrow>
       (case rxne of
          None \<Rightarrow> Some (u, k, hpw)
        | Some c \<Rightarrow> do {
            (r, w, q, k) \<leftarrow> xQueueGenericSendFromISR [c] queueSEND_TO_BACK (xRxedChars u) k;
            Some (u\<lparr>xRxedChars := q\<rparr>, k, hpw \<or> w)
          });
     Some (u, if hpw then portYIELD k else k)
   }"

definition hal_cli_data_tx :: "u8 list \<Rightarrow> u16 \<Rightarrow> uart \<Rightarrow> kernel \<Rightarrow> (bool \<times> uart \<times> kernel) option" where
  "hal_cli_data_tx mem len u k = do { (u, k) \<leftarrow> hal_uart_put_string mem len u k; Some (True, u, k) }"

definition hal_cli_data_rx ::
    "time_out option \<Rightarrow> uart \<Rightarrow> kernel \<Rightarrow> (u8 list option option \<times> time_out option \<times> u32 \<times> uart \<times> kernel) option" where
  "hal_cli_data_rx to u k = hal_uart_get_char portMAX_DELAY to u k"

text \<open>
  The log: \<open>s\<close> is what \<open>vsprintf\<close> makes of the format and the arguments, written with its final zero into
  a buffer of 100 bytes.
\<close>

definition dbg_string :: "u8 list \<Rightarrow> uart \<Rightarrow> kernel \<Rightarrow> (uart \<times> kernel) option" where
  "dbg_string s u k =
     (if length s < 100 then hal_uart_put_string (s @ [0]) (of_nat (length s)) u k else None)"

section \<open>The line has what was sent\<close>

text \<open>
  A port whose transmit queue holds \<open>xs\<close>; no task waits at it, since none sends with a time.
\<close>

definition port_holds :: "u8 list \<Rightarrow> uart \<Rightarrow> kernel \<Rightarrow> bool" where
  "port_holds xs u k \<longleftrightarrow> queue_sim 255 1 (xCharsForTx u, k) (map (\<lambda>c. [c]) xs)"

lemma put_send_ok:
  assumes "port_holds xs u k"
  shows "\<exists>u'. put_send c u k = Some (length xs < 255, u', k) \<and>
    port_holds (if length xs < 255 then xs @ [c] else xs) u' k \<and> line u' = line u \<and> txe_enabled u' = txe_enabled u"
proof -
  let ?q = "xCharsForTx u" and ?xs = "map (\<lambda>c. [c]) xs"
  have q: "queue_sim 255 1 (?q, k) ?xs" using assms by (simp add: port_holds_def)
  show ?thesis
  proof (cases "length xs < 255")
    case True
    with copy_sim [OF q, of queueSEND_TO_BACK "[c]" "?xs @ [[c]]"] obtain q' where
      c: "uxMessagesWaiting ?q < uxLength ?q" "prvCopyDataToQueue [c] queueSEND_TO_BACK ?q k = Some (False, q', k)"
        "queue_sim 255 1 (q', k) (?xs @ [[c]])" by auto
    then have "xQueueGenericSend [c] 0 queueSEND_TO_BACK None ?q k = Some (Some True, None, 0, q', k)"
      using queue_simD(6) [OF c(3)] by (simp add: xQueueGenericSend_def send_try_def)
    then show ?thesis using True c(3) by (simp add: put_send_def port_holds_def)
  next
    case False
    with refuse_sim [OF q, of queueSEND_TO_BACK "[c]" ?xs]
    have "\<not> uxMessagesWaiting ?q < uxLength ?q" by auto
    then have "xQueueGenericSend [c] 0 queueSEND_TO_BACK None ?q k = Some (Some False, None, 0, ?q, k)"
      by (simp add: xQueueGenericSend_def send_try_def)
    then show ?thesis using False assms by (simp add: put_send_def port_holds_def)
  qed
qed

lemma port_holds_enable [simp]:
  "port_holds xs (u\<lparr>txe_enabled := e\<rparr>) k = port_holds xs u k" "port_holds xs (put_enable r u) k = port_holds xs u k"
  by (simp_all add: port_holds_def put_enable_def)

lemma tx_loop_ok:
  assumes "queue_sim 255 1 (q, k) (map (\<lambda>c. [c]) xs)"
  shows "\<exists>q'. tx_loop q k hpw out = Some (q', k, hpw, out @ xs) \<and> queue_sim 255 1 (q', k) []"
  using assms
proof (induction xs arbitrary: q out)
  case Nil
  then have "\<not> uxMessagesWaiting q > 0" using holds_count(2) [OF queue_simD(1) [OF Nil]] by simp
  then show ?case using Nil by (subst tx_loop.simps) (simp add: xQueueReceiveFromISR_def)
next
  case (Cons c xs)
  then have q: "queue_sim 255 1 (q, k) ([c] # map (\<lambda>c. [c]) xs)" by simp
  from take_sim [OF q] obtain p where
    p: "prvCopyDataFromQueue q = Some ([c], q\<lparr>pcReadFrom := p\<rparr>)"
      "queue_sim 255 1 (q\<lparr>pcReadFrom := p, uxMessagesWaiting := uxMessagesWaiting q - 1\<rparr>, k) (map (\<lambda>c. [c]) xs)" .
  note D = queue_simD [OF q]
  have "uxMessagesWaiting q > 0" using holds_count(2) [OF D(1)] by simp
  then have "xQueueReceiveFromISR q k = Some (Some [c], False,
      q\<lparr>pcReadFrom := p, uxMessagesWaiting := uxMessagesWaiting q - 1\<rparr>, k)"
    using p(1) D by (simp add: xQueueReceiveFromISR_def Let_def wake_def)
  with Cons.IH [OF p(2), of "out @ [c]"] show ?case by (subst tx_loop.simps) simp
qed

lemma transmit_ok:
  assumes "port_holds xs u k"
  shows "\<exists>u'. USART1_IRQHandler True None u k = Some (u', k) \<and> port_holds [] u' k \<and>
    line u' = line u @ xs \<and> \<not> txe_enabled u'"
proof -
  have "queue_sim 255 1 (xCharsForTx u, k) (map (\<lambda>c. [c]) xs)" using assms by (simp add: port_holds_def)
  from tx_loop_ok [OF this, of False "[]"] obtain q' where
    "tx_loop (xCharsForTx u) k False [] = Some (q', k, False, xs)" "queue_sim 255 1 (q', k) []" by auto
  then show ?thesis by (simp add: USART1_IRQHandler_def port_holds_def)
qed

section \<open>Characters and interrupts, interleaved\<close>

text \<open>
  The interrupt is served when it is enabled and the data register is empty; it does not come while the
  queue is being written, since the send is a critical section.  So it can come between any two characters
  (\<open>Irq\<close>), also inside a string, and between the send of a character and the enabling that follows
  (the flag of \<open>PutChar\<close>).
\<close>

datatype port_event = PutChar u8 bool | Irq

definition serve :: "uart \<Rightarrow> kernel \<Rightarrow> (uart \<times> kernel) option" where
  "serve u k = (if txe_enabled u then USART1_IRQHandler True None u k else Some (u, k))"

definition put_char_step :: "u8 \<Rightarrow> bool \<Rightarrow> uart \<Rightarrow> kernel \<Rightarrow> (bool \<times> uart \<times> kernel) option" where
  "put_char_step c irq u k = do {
     (r, u, k) \<leftarrow> put_send c u k;
     (u, k) \<leftarrow> (if irq then serve u k else Some (u, k));
     Some (r, put_enable r u, k)
   }"

text \<open>A run gives what each \<open>hal_uart_put_char\<close> returned.\<close>

fun port_run :: "port_event list \<Rightarrow> uart \<Rightarrow> kernel \<Rightarrow> (bool list \<times> uart \<times> kernel) option" where
  "port_run [] u k = Some ([], u, k)"
| "port_run (PutChar c irq # es) u k = do {
     (r, u, k) \<leftarrow> put_char_step c irq u k;
     (rs, u, k) \<leftarrow> port_run es u k;
     Some (r # rs, u, k) }"
| "port_run (Irq # es) u k = do { (u, k) \<leftarrow> serve u k; port_run es u k }"

text \<open>Without interrupts the run is the loop of \<open>hal_uart_put_string\<close>.\<close>

lemma put_chars_run:
  "put_chars cs u k = map_option snd (port_run (map (\<lambda>c. PutChar c False) cs) u k)"
proof (induction cs arbitrary: u k)
  case (Cons c cs)
  show ?case
    by (cases "put_send c u k")
      (simp_all add: Cons.IH hal_uart_put_char_def put_char_step_def case_prod_beta map_option_bind option.map_comp
        comp_def map_conv_bind_option)
qed simp

text \<open>The characters of a run, and those of them that were accepted, in the order of the calls.\<close>

fun chars :: "port_event list \<Rightarrow> u8 list" where
  "chars [] = []"
| "chars (PutChar c irq # es) = c # chars es"
| "chars (Irq # es) = chars es"

fun accepted :: "port_event list \<Rightarrow> bool list \<Rightarrow> u8 list" where
  "accepted (PutChar c irq # es) (r # rs) = (if r then c # accepted es rs else accepted es rs)"
| "accepted (Irq # es) rs = accepted es rs"
| "accepted _ _ = []"

text \<open>The port between two steps: characters that wait keep the interrupt enabled.\<close>

definition port_ok :: "u8 list \<Rightarrow> uart \<Rightarrow> kernel \<Rightarrow> bool" where
  "port_ok xs u k \<longleftrightarrow> port_holds xs u k \<and> (xs \<noteq> [] \<longrightarrow> txe_enabled u)"

lemma serve_ok:
  assumes "port_holds xs u k"
  shows "\<exists>u' xs'. serve u k = Some (u', k) \<and> port_holds xs' u' k \<and> line u' @ xs' = line u @ xs \<and>
    (if txe_enabled u then xs' = [] else xs' = xs)"
  using transmit_ok [OF assms] assms by (cases "txe_enabled u") (auto simp: serve_def)

lemma put_char_step_ok:
  assumes "port_ok xs u k"
  shows "\<exists>u' xs'. put_char_step c irq u k = Some (length xs < 255, u', k) \<and> port_ok xs' u' k \<and>
    line u' @ xs' = line u @ xs @ (if length xs < 255 then [c] else []) \<and> length xs' \<le> Suc (length xs)"
proof -
  let ?xs = "if length xs < 255 then xs @ [c] else xs"
  from assms have p: "port_holds xs u k" and t: "xs \<noteq> [] \<Longrightarrow> txe_enabled u" by (simp_all add: port_ok_def)
  from put_send_ok [OF p, of c] obtain u1 where
    1: "put_send c u k = Some (length xs < 255, u1, k)" "port_holds ?xs u1 k" "line u1 = line u"
      "txe_enabled u1 = txe_enabled u" by blast
  from serve_ok [OF 1(2)] obtain u2 xs2 where
    2: "serve u1 k = Some (u2, k)" "port_holds xs2 u2 k" "line u2 @ xs2 = line u1 @ ?xs"
      "if txe_enabled u1 then xs2 = [] else xs2 = ?xs" by blast
  show ?thesis
  proof (cases irq)
    case True
    have "port_ok xs2 (put_enable (length xs < 255) u2) k"
      using 2(2,4) 1(4) t by (auto simp: port_ok_def put_enable_def split: if_splits)
    moreover have "length xs2 \<le> Suc (length xs)" using 2(4) by (auto split: if_splits)
    ultimately show ?thesis using True 1 2 by (intro exI [of _ "put_enable (length xs < 255) u2"] exI [of _ xs2])
        (simp add: put_char_step_def put_enable_def)
  next
    case False
    have "port_ok ?xs (put_enable (length xs < 255) u1) k"
      using 1(2,4) t by (auto simp: port_ok_def put_enable_def)
    then show ?thesis using False 1 by (intro exI [of _ "put_enable (length xs < 255) u1"] exI [of _ ?xs])
        (simp add: put_char_step_def put_enable_def)
  qed
qed

lemma put_char_ok:
  assumes "port_ok xs u k"
  shows "\<exists>u'. hal_uart_put_char c u k = Some (length xs < 255, u', k)"
  using put_send_ok [of xs u k c] assms by (auto simp: port_ok_def hal_uart_put_char_def)

lemma port_run_ok:
  assumes "port_ok xs u k"
  shows "\<exists>rs u' xs'. port_run es u k = Some (rs, u', k) \<and> port_ok xs' u' k \<and>
    line u' @ xs' = line u @ xs @ accepted es rs \<and>
    (length xs + length (chars es) \<le> 255 \<longrightarrow> accepted es rs = chars es)"
  using assms
proof (induction es arbitrary: xs u)
  case (Cons e es)
  show ?case
  proof (cases e)
    case (PutChar c irq)
    from put_char_step_ok [OF Cons.prems, of c irq] obtain u1 xs1 where
      1: "put_char_step c irq u k = Some (length xs < 255, u1, k)" "port_ok xs1 u1 k"
        "line u1 @ xs1 = line u @ xs @ (if length xs < 255 then [c] else [])" "length xs1 \<le> Suc (length xs)" by blast
    from Cons.IH [OF 1(2)] obtain rs u' xs' where
      2: "port_run es u1 k = Some (rs, u', k)" "port_ok xs' u' k" "line u' @ xs' = (line u1 @ xs1) @ accepted es rs"
        "length xs1 + length (chars es) \<le> 255 \<longrightarrow> accepted es rs = chars es"
      by auto
    show ?thesis using 1(1,4) 2(1,2,4) 2(3) [unfolded 1(3)]
      by (intro exI [of _ "(length xs < 255) # rs"] exI [of _ u'] exI [of _ xs']) (simp add: PutChar)
  next
    case Irq
    have p: "port_holds xs u k" using Cons.prems by (simp add: port_ok_def)
    from serve_ok [OF p] obtain u1 xs1 where
      1: "serve u k = Some (u1, k)" "port_holds xs1 u1 k" "line u1 @ xs1 = line u @ xs"
        "if txe_enabled u then xs1 = [] else xs1 = xs" by blast
    then have "port_ok xs1 u1 k" using Cons.prems by (auto simp: port_ok_def split: if_splits)
    from Cons.IH [OF this] obtain rs u' xs' where
      2: "port_run es u1 k = Some (rs, u', k)" "port_ok xs' u' k" "line u' @ xs' = (line u1 @ xs1) @ accepted es rs"
        "length xs1 + length (chars es) \<le> 255 \<longrightarrow> accepted es rs = chars es"
      by auto
    have "length xs1 \<le> length xs" using 1(4) by (auto split: if_splits)
    then show ?thesis using 1(1) 2(1,2,4) 2(3) [unfolded 1(3)]
      by (intro exI [of _ rs] exI [of _ u'] exI [of _ xs']) (simp add: Irq)
  qed
qed simp

lemma init_port:
  assumes "a \<noteq> b"
  shows "\<exists>u k'. hal_uart_init (Some a) (Some b) junk k = Some (Some u, k') \<and> port_holds [] u k' \<and> line u = []"
proof -
  have c: "(0 :: u32) < configCOMMAND_INT_MAX_OUTPUT_SIZE" "(0 :: u32) < 1"
    "unat sizeof_Queue_t + unat configCOMMAND_INT_MAX_OUTPUT_SIZE * unat (1 :: u32) < 2 ^ 32" "unat configCOMMAND_INT_MAX_OUTPUT_SIZE = 255"
    "unat (1 :: u32) = 1"
    by (simp_all add: configCOMMAND_INT_MAX_OUTPUT_SIZE_def sizeof_Queue_t_def)
  from new_queue [OF c(1-3), of a junk k] obtain rx k1 where
    1: "xQueueGenericCreate configCOMMAND_INT_MAX_OUTPUT_SIZE 1 (Some a) junk k = Some (Some rx, k1)" by blast
  from new_queue [OF c(1-3), of b junk k1] obtain tx k2 where
    2: "xQueueGenericCreate configCOMMAND_INT_MAX_OUTPUT_SIZE 1 (Some b) junk k1 = Some (Some tx, k2)"
      "queue_sim 255 1 (tx, k2) []" unfolding c(4,5) by blast
  then show ?thesis using 1 by (simp add: hal_uart_init_def port_holds_def)
qed

section \<open>Property\<close>

text \<open>
  Claim C20.  The console's output reaches the line whole and in order: after the port has been set up, for every sequence of
  characters sent (a string is one \<open>hal_uart_put_char\<close> per character) and of transmit interrupts, which may
  come between any two characters and between a send and the enabling after it, but are served only while
  enabled: what has gone over the line followed by what waits in the queue is exactly the characters whose call
  returned pdPASS, in order, none twice or changed.  While a character waits the interrupt is enabled, and one more
  interrupt puts everything accepted on the line; the next character is refused exactly when 255 wait, so that of a run of at most
  255 none is.  Received
  characters use the other queue and are not part of the runs.
\<close>

theorem uart_output_in_order:
  assumes "a \<noteq> b"
  shows "\<exists>u k1 rs u' u'' xs. hal_uart_init (Some a) (Some b) junk k = Some (Some u, k1) \<and>
    port_run es u k1 = Some (rs, u', k1) \<and> port_holds xs u' k1 \<and> line u' @ xs = accepted es rs \<and>
    (xs \<noteq> [] \<longrightarrow> txe_enabled u') \<and>
    serve u' k1 = Some (u'', k1) \<and> line u'' = accepted es rs \<and>
    (length (chars es) \<le> 255 \<longrightarrow> accepted es rs = chars es) \<and>
    (\<exists>u3. hal_uart_put_char c u' k1 = Some (length xs < 255, u3, k1))"
proof -
  from init_port [OF assms] obtain u k1 where
    1: "hal_uart_init (Some a) (Some b) junk k = Some (Some u, k1)" "port_holds [] u k1" "line u = []" by blast
  from 1(2) have "port_ok [] u k1" by (simp add: port_ok_def)
  from port_run_ok [OF this] 1(3) obtain rs u' xs where
    2: "port_run es u k1 = Some (rs, u', k1)" "port_ok xs u' k1" "line u' @ xs = accepted es rs"
    "length (chars es) \<le> 255 \<longrightarrow> accepted es rs = chars es" by fastforce
  from 2(2) have p: "port_holds xs u' k1" and t: "xs \<noteq> [] \<longrightarrow> txe_enabled u'" by (simp_all add: port_ok_def)
  from serve_ok [OF p] obtain u'' xs' where
    3: "serve u' k1 = Some (u'', k1)" "line u'' @ xs' = line u' @ xs" "if txe_enabled u' then xs' = [] else xs' = xs"
    by blast
  have "xs' = []" using 3(3) t by (auto split: if_splits)
  then show ?thesis using 1(1) 2(1,3,4) p t 3(1,2) put_char_ok [OF 2(2), of c] by auto
qed

theorem uart_output_in_order_witness:
  "\<exists>u k1 rs u' u''. hal_uart_init (Some 0) (Some 1) (\<lambda>_. 0) reset_kernel = Some (Some u, k1) \<and>
    port_run [PutChar 72 False, Irq, PutChar 105 True, PutChar 33 True] u k1 = Some (rs, u', k1) \<and>
    serve u' k1 = Some (u'', k1) \<and> line u'' = [72, 105, 33]"
proof -
  let ?es = "[PutChar 72 False, Irq, PutChar 105 True, PutChar 33 True]"
  have "chars ?es = [72, 105, 33]" by simp
  then show ?thesis
    using uart_output_in_order [of 0 1 "\<lambda>_. 0" reset_kernel ?es] by fastforce
qed

text \<open>The log has no bound on the text it formats.\<close>

lemma dbg_string_overruns: "length s \<ge> 100 \<Longrightarrow> dbg_string s u k = None"
  by (simp add: dbg_string_def)

end
