(* ===== verification/App_Cli.thy ===== *)
theory App_Cli
  imports Mid_Cli App_Time App_Led Kernel_Boot
begin

text \<open>
  The commands of the console (\<open>app/app_cli.c\<close>).

  The state \<open>app\<close> is the part of the application that the handlers read and change; \<open>'d\<close> is the clock
  chip, reached through \<open>rd\<close> and \<open>wr\<close> as in \<open>Rtc\<close>.  A handler gets the memory of the arguments, in which
  \<open>argv\<close> finds them, and returns the text it leaves in \<open>dest\<close>, which is empty when it is called.
\<close>

section \<open>The standard library\<close>

text \<open>\<open>%d\<close> and \<open>%02d\<close> of a number that is not negative.\<close>

definition digit :: "nat \<Rightarrow> char" where
  "digit n = char_of (48 + n)"

fun dec :: "nat \<Rightarrow> string" where
  "dec n = (if n < 10 then [digit n] else dec (n div 10) @ [digit (n mod 10)])"

declare dec.simps [simp del]

definition dec2 :: "nat \<Rightarrow> string" where
  "dec2 n = (if n < 10 then CHR ''0'' # dec n else dec n)"

text \<open>\<open>%02X\<close> of a byte.\<close>

definition hex2 :: "u8 \<Rightarrow> string" where
  "hex2 b = map (\<lambda>n. if n < 10 then digit n else char_of (55 + n)) [unat b div 16, unat b mod 16]"

text \<open>\<open>%.1f\<close>: the nearest number of tenths, the even one of two.\<close>

definition tenths :: "real \<Rightarrow> nat" where
  "tenths x = (let n = nat \<lfloor>10 * x\<rfloor>; r = 10 * x - real n
     in if r > 1 / 2 \<or> r = 1 / 2 \<and> odd n then n + 1 else n)"

definition fixed1 :: "real \<Rightarrow> string" where
  "fixed1 x = (let n = tenths \<bar>x\<bar>
     in (if x < 0 then ''-'' else '''') @ dec (n div 10) @ ''.'' @ dec (n mod 10))"

definition isspace :: "char \<Rightarrow> bool" where
  "isspace ch \<longleftrightarrow> ch \<in> set ('' '' @ map char_of [9 :: nat, 10, 11, 12, 13])"

definition isdigit :: "char \<Rightarrow> bool" where
  "isdigit ch \<longleftrightarrow> 48 \<le> (of_char ch :: nat) \<and> (of_char ch :: nat) \<le> 57"

text \<open>\<open>atoi\<close>; undefined (\<open>None\<close>) when the number is not an \<open>int\<close>.\<close>

definition atoi :: "string \<Rightarrow> int option" where
  "atoi s =
     (let s = dropWhile isspace s;
          neg = (s \<noteq> [] \<and> hd s = CHR ''-'');
          s = (if s \<noteq> [] \<and> (hd s = CHR ''-'' \<or> hd s = CHR ''+'') then tl s else s);
          n = foldl (\<lambda>a ch. a * 10 + (of_char ch - 48)) 0 (takeWhile isdigit s);
          v = (if neg then - n else n)
      in if - (2 ^ 31) \<le> v \<and> v < 2 ^ 31 then Some v else None)"

text \<open>An argument as a number.\<close>

definition num_arg :: "string \<Rightarrow> nat \<Rightarrow> int option" where
  "num_arg v i = do { s \<leftarrow> argv v i; atoi s }"

section \<open>State\<close>

record 'd app =
  chip :: 'd
  disp :: display
  led_task :: led
  settings :: data_map
  clock :: time_mod
  readings :: th_data
  curr_task :: u8
  ptasks :: "task_status list"
  calls :: "action list"

text \<open>The calls of other tasks, in their order.\<close>

definition call_tasks :: "action list \<Rightarrow> 'd app \<Rightarrow> 'd app" where
  "call_tasks as s = s\<lparr>calls := calls s @ as\<rparr>"

type_synonym 's handler_fun = "string \<Rightarrow> 's \<Rightarrow> (string \<times> bool \<times> 's) option"

definition crlf :: string where "crlf = [CHR 0x0D, CHR 0x0A]"
definition tab :: string where "tab = [CHR 0x09]"

section \<open>The handlers\<close>

definition dev_info :: "string list" where
  "dev_info =
     ['' '' @ tab @ ''Dev:'' @ tab @ ''STM32F103RCT6 '' @ crlf,
      '' '' @ tab @ ''Cpu:'' @ tab @ ''ARM 32-bit Cortex-M3'' @ crlf,
      '' '' @ tab @ ''Freq: '' @ tab @ ''72 MHz max,1.25 DMIPS/MHz'' @ crlf,
      '' '' @ tab @ ''Mem:'' @ tab @ ''256 Kbytes of Flash memory'' @ crlf,
      '' '' @ tab @ ''Ram:'' @ tab @ ''64 Kbytes of SRAM'' @ crlf]"

definition info_main :: "'d app handler_fun" where
  "info_main v s = Some (concat dev_info, False, s)"

definition clear_main :: "'d app handler_fun" where
  "clear_main v s = Some (esc @ ''[H'' @ esc @ ''[J'', False, s)"

definition date_text :: "rtc_time \<Rightarrow> string" where
  "date_text tm = tab @ ''20'' @ dec2 (unat (year tm)) @ ''-'' @ dec2 (unat (mon tm)) @ ''-'' @
     dec2 (unat (mday tm)) @ '' '' @ dec (unat (wday tm)) @ '' '' @ dec2 (unat (hour tm)) @ '':'' @
     dec2 (unat (min' tm)) @ '':'' @ dec2 (unat (sec tm)) @ crlf"

definition date_main :: "'d rd \<Rightarrow> 'd app handler_fun" where
  "date_main rd v s = Some (date_text (mid_rtc_get_time rd (chip s)), False, s)"

text \<open>\<open>tm\<close> is not initialised, and \<open>junk\<close> is the uninitialised byte of the driver.\<close>

definition sdate_main :: "'d rd \<Rightarrow> 'd wr \<Rightarrow> rtc_time \<Rightarrow> u8 \<Rightarrow> 'd app handler_fun" where
  "sdate_main rd wr tm junk v s = do {
     y \<leftarrow> num_arg v 1;
     mo \<leftarrow> num_arg v 2;
     d \<leftarrow> num_arg v 3;
     w \<leftarrow> num_arg v 4;
     h \<leftarrow> num_arg v 5;
     mi \<leftarrow> num_arg v 6;
     se \<leftarrow> num_arg v 7;
     let tm = tm\<lparr>year := of_int y, mon := of_int mo, mday := of_int d, wday := of_int w,
       hour := of_int h, min' := of_int mi, sec := of_int se\<rparr>;
     valid \<leftarrow> rtc_valid_tm tm;
     if valid then do {
       let s = s\<lparr>chip := mid_rtc_set_time wr junk tm (chip s)\<rparr>;
       let tm = mid_rtc_get_time rd (chip s);
       Some (tab @ ''Set time success,current: 20'' @ dec (unat (year tm)) @ ''-'' @ dec (unat (mon tm)) @ ''-'' @
         dec (unat (mday tm)) @ '' '' @ dec (unat (wday tm)) @ '' '' @ dec (unat (hour tm)) @ '':'' @
         dec (unat (min' tm)) @ '':'' @ dec (unat (sec tm)) @ crlf, False, s)
     }
     else Some (tab @ ''Format incorrect,please try again!'' @ crlf, False, s)
   }"

definition th_main :: "'d app handler_fun" where
  "th_main v s =
     (let t = app_th_get_data (readings s) TEMP; h = app_th_get_data (readings s) HUM
      in Some (if t \<noteq> 0 \<or> h \<noteq> 0
           then tab @ ''Temperature '' @ fixed1 t @ ''(C)  Humidity '' @ fixed1 h @ ''(%)'' @ crlf
           else tab @ ''Error: read temperature and humidity timeout!'' @ crlf, False, s))"

definition led_main :: "'d app handler_fun" where
  "led_main v s = do {
     a \<leftarrow> argv v 1;
     let color = (if a = [] then NUL else hd a);
     n \<leftarrow> num_arg v 2;
     let state = (of_int n :: u8);
     if (color \<noteq> CHR ''R'' \<and> color \<noteq> CHR ''G'' \<and> color \<noteq> CHR ''B'') \<or> (state \<noteq> 1 \<and> state \<noteq> 0)
     then Some (tab @ ''Command of led control Format incorrect,please try again.'' @ crlf, False, s)
     else do {
       let k = (if color = CHR ''R'' then 0 else if color = CHR ''G'' then 1 else 2);
       let s = (case app_led_set_color k (led_task s) (settings s) of
           (l, d) \<Rightarrow> s\<lparr>led_task := l, settings := d\<rparr>);
       let s = call_tasks [if state = 1 then TaskResume TASK_HANDLE_LED else TaskSuspend TASK_HANDLE_LED] s;
       Some (tab @ ''Led task is '' @ (if state \<noteq> 0 then ''working.'' else ''stoped.'') @ crlf, False, s)
     }
   }"

definition reboot_main :: "'d app handler_fun" where
  "reboot_main v s = Some ('''', False, call_tasks [SystemReset] s)"

text \<open>
  What \<open>LwIP_get_network_info\<close> gives: the bytes of the address, the mask, the gateway and the hardware
  address.
\<close>

definition dotted :: "u8 list \<Rightarrow> string" where
  "dotted bs = dec (unat (bs ! 0)) @ ''.'' @ dec (unat (bs ! 1)) @ ''.'' @ dec (unat (bs ! 2)) @ ''.'' @ dec (unat (bs ! 3))"

definition ip_main :: "u8 list \<times> u8 list \<times> u8 list \<times> u8 list \<Rightarrow> 'd app handler_fun" where
  "ip_main net v s = (case net of (ipaddr, netmask, gw, mac) \<Rightarrow>
     Some (tab @ ''ip_addr: '' @ dotted ipaddr @ crlf @ tab @ ''netmask: '' @ dotted netmask @ crlf @
       tab @ ''gateway: '' @ dotted gw @ crlf @
       tab @ ''mac    : '' @ hex2 (mac ! 0) @ ''-'' @ hex2 (mac ! 1) @ ''-'' @ hex2 (mac ! 2) @ ''-'' @
       hex2 (mac ! 3) @ ''-'' @ hex2 (mac ! 4) @ ''-'' @ hex2 (mac ! 5) @ crlf, False, s))"

definition lcd_main :: "'d app handler_fun" where
  "lcd_main v s = do {
     n \<leftarrow> num_arg v 1;
     let state = (of_int n :: u8);
     if state \<noteq> 1 \<and> state \<noteq> 0
     then Some (tab @ ''Command of lcd control Format incorrect,please try again.'' @ crlf, False, s)
     else (case (if state = 1 then app_display_on (disp s) else app_display_off (disp s)) of (d, as) \<Rightarrow>
       Some (tab @ ''Lcd display task is '' @ (if state \<noteq> 0 then ''working.'' else ''stoped.'') @ crlf, False,
         call_tasks as (s\<lparr>disp := d\<rparr>)))
   }"

definition show_times :: "u16 \<Rightarrow> u16 \<Rightarrow> string" where
  "show_times on off = ''ON-'' @ dec2 (unat (on div 100)) @ '':'' @ dec2 (unat (on mod 100)) @ ''  OFF-'' @
     dec2 (unat (off div 100)) @ '':'' @ dec2 (unat (off mod 100)) @ crlf"

definition setlcd_main :: "'d app handler_fun" where
  "setlcd_main v s = do {
     a \<leftarrow> num_arg v 1;
     b \<leftarrow> num_arg v 2;
     let on = (of_int a :: u16);
     let off = (of_int b :: u16);
     if on div 100 \<noteq> 0 \<or> on mod 100 \<noteq> 0 \<or> off div 100 \<noteq> 0 \<or> off mod 100 \<noteq> 0 then do {
       (t, d) \<leftarrow> app_time_set_showtime on off (clock s) (settings s);
       Some (tab @ ''Set show time success,current: '' @ show_times on off, False,
         s\<lparr>clock := t, settings := d\<rparr>)
     }
     else (case app_time_get_showtime (clock s) of (on, off) \<Rightarrow>
       Some (tab @ ''Format incorrect,please try again! current: '' @ show_times on off, False, s))
   }"

text \<open>
  \<open>top\<close> shows one task on each call and asks to be called again.  The kernel is \<open>k0\<close> when the task
  count is read and \<open>k\<close> after \<open>vTaskDelay(10)\<close>; \<open>info\<close> gives the stack mark and the name of a task.  No
  run time is counted, so the share of a task is 0 divided by \<open>running_time\<close>: the tick count
  on the first call, the uninitialised \<open>stack\<close> on the others (0 divided by 0 is not a number,
  whose conversion is undefined).
\<close>

definition MAX_TASKS :: nat where "MAX_TASKS = 30"

definition state_text :: "task_state \<Rightarrow> string" where
  "state_text st = (case st of eRunning \<Rightarrow> ''run'' | eReady \<Rightarrow> ''ready'' | eBlocked \<Rightarrow> ''block''
     | eSuspended \<Rightarrow> ''suspend'' | eDeleted \<Rightarrow> ''deleted'')"

definition run_time :: "u32 \<Rightarrow> u32 option" where
  "run_time entering = (if entering = 0 then None else Some 0)"

definition top_row :: "(nat \<Rightarrow> u16 \<times> string) \<Rightarrow> u32 \<Rightarrow> task_status \<Rightarrow> string" where
  "top_row info r p = (case info (xHandle p) of (mark, name) \<Rightarrow>
     tab @ dec (unat (uxCurrentPriority p)) @ tab @ state_text (eCurrentState p) @
     tab @ dec (unat mark) @ tab @ (if r < 10 then ''<'' else '' '') @
     dec (unat (if r < 10 then 1 else r div 10)) @ tab @ name @ crlf)"

definition top_header :: string where
  "top_header = esc @ ''[32;49;7m        PRI     STATE   MEM(W)  %TIME   NAME            '' @ esc @ ''[32;49;0m'' @ crlf"

definition top_main ::
    "kernel \<Rightarrow> kernel \<Rightarrow> (nat \<Rightarrow> u16 \<times> string) \<Rightarrow> u32 \<Rightarrow> 'd app handler_fun" where
  "top_main k0 k info stack v s = do {
     let num_of_tasks = (ucast (uxCurrentNumberOfTasks k0) :: u8);
     (header, entering, s) \<leftarrow>
       (if curr_task s = 0 then do {
          (r, k') \<leftarrow> uxTaskGetSystemState (of_nat MAX_TASKS) k;
          Some (top_header, xTickCount k, s\<lparr>ptasks := r @ drop (length r) (ptasks s)\<rparr>)
        }
        else Some ([], stack, s));
     p \<leftarrow> get (ptasks s) (unat (curr_task s));
     r \<leftarrow> run_time entering;
     let cur = curr_task s + 1;
     Some (header @ top_row info r p, cur \<noteq> num_of_tasks,
       s\<lparr>curr_task := if cur = num_of_tasks then 0 else cur\<rparr>)
   }"

section \<open>Registering\<close>

text \<open>
  What the handlers find around them: the chip's bus, the network state, the kernel for \<open>top\<close>, and the
  contents of uninitialised variables.
\<close>

record 'd world =
  w_rd :: "'d rd"
  w_wr :: "'d wr"
  w_junk :: u8
  w_tm :: rtc_time
  w_net :: "u8 list \<times> u8 list \<times> u8 list \<times> u8 list"
  w_kernel :: "kernel \<times> kernel"
  w_info :: "nat \<Rightarrow> u16 \<times> string"
  w_stack :: u32

definition fmt :: string where "fmt = crlf @ tab @ tab @ ''format: ''"

definition build_vars :: "'d world \<Rightarrow> 'd app command list" where
  "build_vars w =
     [\<lparr>command_name = ''info'', help_info = ''Device information.'',
       handle = info_main, expect_parame_num = 0\<rparr>,
      \<lparr>command_name = ''clear'', help_info = ''Clear Terminal.'',
       handle = clear_main, expect_parame_num = 0\<rparr>,
      \<lparr>command_name = ''date'', help_info = ''Read system current time.'',
       handle = date_main (w_rd w), expect_parame_num = 0\<rparr>,
      \<lparr>command_name = ''sdate'', help_info = ''Set system current time,'' @ fmt @
         ''sdate Y[0,99] M[1,12] D[1,31] W[1-7] H[0-23] M[0-59] S[0-59]'',
       handle = sdate_main (w_rd w) (w_wr w) (w_tm w) (w_junk w), expect_parame_num = 7\<rparr>,
      \<lparr>command_name = ''th'', help_info = ''Read the ambient temperature(C) and humidity(%).'',
       handle = th_main, expect_parame_num = 0\<rparr>,
      \<lparr>command_name = ''led'', help_info = ''Turn ON/OFF led blink,'' @ fmt @
         ''led color[R,G,B] state[1:ON,0:OFF].'',
       handle = led_main, expect_parame_num = 2\<rparr>,
      \<lparr>command_name = ''reboot'', help_info = ''Reboot system.'',
       handle = reboot_main, expect_parame_num = 0\<rparr>,
      \<lparr>command_name = ''lcd'', help_info = ''Turn ON/OFF lcd display,'' @ fmt @ ''lcd state[1:ON,0:OFF].'',
       handle = lcd_main, expect_parame_num = 1\<rparr>,
      \<lparr>command_name = ''setlcd'', help_info = ''Time ON/OFF lcd display and led blink.'' @ fmt @
         ''setlcd on[800] off[1930]'',
       handle = setlcd_main, expect_parame_num = 2\<rparr>,
      \<lparr>command_name = ''ip'', help_info = ''Report network infomation of host.'' @ fmt @ ''ip'',
       handle = ip_main (w_net w), expect_parame_num = 0\<rparr>,
      \<lparr>command_name = ''top'', help_info = ''List all the tasks state.'',
       handle = (case w_kernel w of (k0, k) \<Rightarrow> top_main k0 k (w_info w) (w_stack w)), expect_parame_num = 0\<rparr>]"

text \<open>\<open>alloc\<close> tells which of the allocations succeed; the results are ignored.\<close>

fun register_all :: "bool list \<Rightarrow> 's command list \<Rightarrow> 's command list \<Rightarrow> 's command list" where
  "register_all (b # bs) (p # ps) cmds = register_all bs ps (snd (mid_cli_register b p cmds))"
| "register_all _ _ cmds = cmds"

definition app_cli_register :: "bool list \<Rightarrow> 'd world \<Rightarrow> 'd app command list" where
  "app_cli_register alloc w = register_all alloc (build_vars w) []"

section \<open>Numbers on the command line\<close>

lemma dec_small: "n < 10 \<Longrightarrow> dec n = [digit n]"
  by (simp add: dec.simps [of n])

lemma dec_big: "\<not> n < 10 \<Longrightarrow> dec n = dec (n div 10) @ [digit (n mod 10)]"
  by (simp add: dec.simps [of n])

lemma of_char_digit [simp]: "n < 10 \<Longrightarrow> (of_char (digit n) :: nat) = 48 + n"
  by (simp add: digit_def)

lemma of_char_digit_int: "n < 10 \<Longrightarrow> (of_char (digit n) :: int) = 48 + int n"
  using of_nat_of_char [of "digit n", where 'a = int] by simp

lemma digit_class:
  assumes "n < 10"
  shows "isdigit (digit n)" "printable (digit n)" "\<not> isspace (digit n)" "digit n \<noteq> SPACE" "digit n \<noteq> NUL"
    "digit n \<noteq> CHR ''-''" "digit n \<noteq> CHR ''+''"
proof -
  have e: "(of_char (digit n) :: nat) = 48 + n" using assms by simp
  then show "isdigit (digit n)" "printable (digit n)" using assms by (simp_all add: isdigit_def printable_def)
  have ne: "digit n \<noteq> x" if "(of_char x :: nat) < 48" for x
    using e that by (metis not_add_less1)
  have "isspace x \<Longrightarrow> (of_char x :: nat) < 48" for x by (auto simp: isspace_def)
  with ne show "\<not> isspace (digit n)" by blast
  show "digit n \<noteq> SPACE" "digit n \<noteq> NUL" "digit n \<noteq> CHR ''-''" "digit n \<noteq> CHR ''+''"
    by (rule ne; simp)+
qed

lemma dec_digits: "\<forall>x\<in>set (dec n). \<exists>d<10. x = digit d"
proof (induction n rule: dec.induct)
  case (1 n)
  show ?case
  proof (cases "n < 10")
    case True
    then show ?thesis by (auto simp: dec_small)
  next
    case False
    have "n mod 10 < 10" by simp
    then have "\<exists>d<10. digit (n mod 10) = digit d" by blast
    with 1 [OF False] show ?thesis by (simp add: dec_big [OF False])
  qed
qed

lemma dec_not_Nil [simp]: "dec n \<noteq> []"
  by (cases "n < 10") (simp_all add: dec_small dec_big)

lemma length_dec: "n < 10 ^ k \<Longrightarrow> 0 < k \<Longrightarrow> length (dec n) \<le> k"
proof (induction k arbitrary: n)
  case (Suc k)
  show ?case
  proof (cases "n < 10")
    case True
    then show ?thesis by (simp add: dec_small)
  next
    case False
    then have "0 < k" using Suc.prems(1) by (cases k) auto
    moreover have "n div 10 < 10 ^ k" using Suc.prems(1) by (simp add: less_mult_imp_div_less mult.commute)
    ultimately have "length (dec (n div 10)) \<le> k" using Suc.IH by blast
    with False show ?thesis by (simp add: dec_big)
  qed
qed simp

lemma dec_value: "foldl (\<lambda>a ch. a * 10 + (of_char ch - 48)) (0::int) (dec n) = int n"
proof (induction n rule: dec.induct)
  case (1 n)
  show ?case
  proof (cases "n < 10")
    case True
    then show ?thesis by (simp add: dec_small of_char_digit_int)
  next
    case False
    have m: "n mod 10 < 10" by simp
    have "int (n div 10) * 10 + int (n mod 10) = int n" by presburger
    with 1 [OF False] show ?thesis
      by (simp add: dec_big [OF False] of_char_digit_int [OF m])
  qed
qed

text \<open>What \<open>sprintf\<close> prints, \<open>atoi\<close> reads.\<close>

lemma dec_chars:
  assumes "x \<in> set (dec n)"
  shows "isdigit x" "printable x" "\<not> isspace x" "x \<noteq> SPACE" "x \<noteq> NUL" "x \<noteq> CHR ''-''" "x \<noteq> CHR ''+''"
proof -
  obtain d where d: "d < 10" "x = digit d" using bspec [OF dec_digits assms] by (elim exE conjE)
  show "isdigit x" "printable x" "\<not> isspace x" "x \<noteq> SPACE" "x \<noteq> NUL" "x \<noteq> CHR ''-''" "x \<noteq> CHR ''+''"
    unfolding d(2) by (rule digit_class [OF d(1)])+
qed

lemma dec_no_space: "dropWhile isspace (dec n) = dec n"
  using hd_in_set [OF dec_not_Nil [of n]] dec_chars(3) by (simp add: dropWhile_eq_self_iff)

lemma dec_no_sign: "hd (dec n) \<noteq> CHR ''-''" "hd (dec n) \<noteq> CHR ''+''"
  using dec_chars(6,7) [OF hd_in_set [OF dec_not_Nil [of n]]] .

lemma dec_all_digits: "takeWhile isdigit (dec n) = dec n"
  unfolding takeWhile_eq_all_conv using dec_chars(1) by (intro ballI)

lemma atoi_dec:
  assumes "n < 2 ^ 31"
  shows "atoi (dec n) = Some (int n)"
proof -
  have 3: "\<not> (dec n \<noteq> [] \<and> hd (dec n) = CHR ''-'')"
    "\<not> (dec n \<noteq> [] \<and> (hd (dec n) = CHR ''-'' \<or> hd (dec n) = CHR ''+''))"
    using dec_no_sign [of n] by blast+
  have "int n < 2 ^ 31" using assms by simp
  then have 4: "- (2 ^ 31) \<le> int n \<and> int n < 2 ^ 31" by simp
  show ?thesis
    unfolding atoi_def Let_def dec_no_space if_not_P [OF 3(1)] if_not_P [OF 3(2)] dec_all_digits dec_value
    by (rule if_P [OF 4])
qed

lemma dec_word: "n < 1000 \<Longrightarrow> word_ok (dec n) \<and> (\<forall>x\<in>set (dec n). printable x) \<and> length (dec n) \<le> 3"
proof (intro conjI)
  assume "n < 1000"
  then show l: "length (dec n) \<le> 3" using length_dec [of n 3] by simp
  show "word_ok (dec n)"
    unfolding word_ok_def
  proof (intro conjI)
    show "dec n \<noteq> []" by simp
    show "length (dec n) < 20" using l by simp
    show "SPACE \<notin> set (dec n)" "NUL \<notin> set (dec n)" using dec_chars(4,5) by metis+
  qed
  show "\<forall>x\<in>set (dec n). printable x" using dec_chars(2) by (intro ballI)
qed

section \<open>Setting the clock from the console\<close>

lemma register_all_ok: "length bs = length ps \<Longrightarrow> \<forall>b\<in>set bs. b \<Longrightarrow> register_all bs ps cmds = cmds @ ps"
  by (induction bs ps arbitrary: cmds rule: list_induct2) (auto simp: mid_cli_register_def)

lemma app_cli_registered: "app_cli_register (replicate 11 True) w = build_vars w"
proof -
  have "length (replicate 11 True) = length (build_vars w)" by (simp add: build_vars_def)
  from register_all_ok [OF this] show ?thesis by (simp add: app_cli_register_def)
qed

lemma build_vars_names:
  "map command_name (build_vars w) =
     [''info'', ''clear'', ''date'', ''sdate'', ''th'', ''led'', ''reboot'', ''lcd'', ''setlcd'', ''ip'', ''top'']"
  by (simp add: build_vars_def)

lemma build_vars_registry: "registry_ok (build_vars w)"
proof -
  have l: "length (build_vars w) = 11" by (simp add: build_vars_def)
  have n: "map (name_at (build_vars w)) [0..<12] = ''help'' # map command_name (build_vars w)"
    by (simp add: upt_rec name_at_def build_vars_def)
  let ?P = "\<lambda>x. SPACE \<notin> set x \<and> NUL \<notin> set x \<and> length x < 256"
  have "\<forall>x\<in>set (map (name_at (build_vars w)) [0..<12]). ?P x"
    unfolding n build_vars_names by simp
  then have "\<forall>k<12. ?P (name_at (build_vars w) k)" by (simp only: set_map ball_simps set_upt) simp
  moreover have "distinct (map (name_at (build_vars w)) [0..<12])" unfolding n build_vars_names by simp
  ultimately show ?thesis unfolding registry_ok_def l by simp
qed

lemma build_vars_sdate:
  "name_at (build_vars w) (Suc 3) = ''sdate''" "expect_at (build_vars w) (Suc 3) = 7"
  "handle (build_vars w ! 3) = sdate_main (w_rd w) (w_wr w) (w_tm w) (w_junk w)"
  "command_name (build_vars w ! 3) = ''sdate''" "length (build_vars w) = 11"
  "name_at (build_vars w) 4 = ''sdate''" "expect_at (build_vars w) 4 = 7"
  by (simp_all add: name_at_def expect_at_def build_vars_def)

lemma build_vars_date:
  "name_at (build_vars w) (Suc 2) = ''date''" "expect_at (build_vars w) (Suc 2) = 0"
  "handle (build_vars w ! 2) = date_main (w_rd w)" "command_name (build_vars w ! 2) = ''date''"
  "name_at (build_vars w) 3 = ''date''" "expect_at (build_vars w) 3 = 0"
  by (simp_all add: name_at_def expect_at_def build_vars_def)

lemma valid_ranges:
  assumes "rtc_valid_tm tm = Some True"
  shows "sec tm < 60" "min' tm < 60" "hour tm < 24" "wday tm < 8" "mday tm < 32" "mon tm < 13"
proof -
  have v: "mon tm \<noteq> 12" "mon tm \<le> 12" "wday tm \<le> 7" "hour tm < 24" "min' tm < 60" "sec tm < 60"
    "unat (mday tm) \<le> month_length (Suc (unat (mon tm))) (2000 + unat (year tm))"
    using assms unfolding rtc_valid_tm_spec by (auto split: if_splits)
  show "sec tm < 60" "min' tm < 60" "hour tm < 24" by (fact v)+
  show "wday tm < 8" "mon tm < 13" using v(2,3) by (simp_all add: word_less_nat_alt word_le_nat_alt)
  have "month_length m y \<le> 31" for m y by (simp add: month_length_def)
  from order_trans [OF v(7) this] show "mday tm < 32" by (simp add: word_less_nat_alt)
qed

text \<open>A time as the words that \<open>sdate\<close> reads.\<close>

definition sdate_words :: "rtc_time \<Rightarrow> string list" where
  "sdate_words tm = map (\<lambda>b. dec (unat b)) [year tm, mon tm, mday tm, wday tm, hour tm, min' tm, sec tm]"

lemma dec_u8: "word_ok (dec (unat (b::u8))) \<and> (\<forall>x\<in>set (dec (unat b)). printable x) \<and> length (dec (unat b)) \<le> 3"
proof -
  have "unat b < 1000" by (rule order_less_trans [OF unat_u8_lt]) simp
  then show ?thesis by (rule dec_word)
qed

lemma sdate_words_ok:
  "w \<in> set (sdate_words tm) \<Longrightarrow> word_ok w \<and> (\<forall>x\<in>set w. printable x) \<and> length w \<le> 3"
  using dec_u8 by (auto simp: sdate_words_def)

lemma num_arg_sdate:
  assumes "i < 7"
  shows "num_arg (rows (''sdate'' # sdate_words tm)) (Suc i) =
    Some (uint ([year tm, mon tm, mday tm, wday tm, hour tm, min' tm, sec tm] ! i))"
proof -
  let ?bs = "[year tm, mon tm, mday tm, wday tm, hour tm, min' tm, sec tm]"
  have w: "w \<in> set (''sdate'' # sdate_words tm) \<Longrightarrow> word_ok w" for w
    using sdate_words_ok [of w tm] by (auto simp: word_ok_def)
  have l: "Suc i < length (''sdate'' # sdate_words tm)" using assms by (simp add: sdate_words_def)
  have a: "argv (rows (''sdate'' # sdate_words tm)) (Suc i) = Some (dec (unat (?bs ! i)))"
    using argv_rows [OF w l] assms by (simp add: sdate_words_def nth_map del: nth_Cons_Suc list.map)
  have "unat (?bs ! i) < 2 ^ 31" by (rule order_less_trans [OF unat_u8_lt]) simp
  then show ?thesis using a atoi_dec [of "unat (?bs ! i)"] by (simp add: num_arg_def)
qed

lemma sdate_runs:
  fixes tm0 :: rtc_time
  assumes "rtc_valid_tm tm = Some True"
  defines "v \<equiv> rows (''sdate'' # sdate_words tm)"
  defines "t \<equiv> tm0\<lparr>year := year tm, mon := mon tm, mday := mday tm, wday := wday tm, hour := hour tm,
    min' := min' tm, sec := sec tm\<rparr>"
  shows "\<exists>out. sdate_main rd wr tm0 junk v s = Some (out, False, s\<lparr>chip := mid_rtc_set_time wr junk t (chip s)\<rparr>) \<and>
    length out < 256"
proof -
  have a: "num_arg v 1 = Some (uint (year tm))" "num_arg v 2 = Some (uint (mon tm))"
    "num_arg v 3 = Some (uint (mday tm))" "num_arg v 4 = Some (uint (wday tm))"
    "num_arg v 5 = Some (uint (hour tm))" "num_arg v 6 = Some (uint (min' tm))"
    "num_arg v 7 = Some (uint (sec tm))"
    using num_arg_sdate [of 0 tm] num_arg_sdate [of 1 tm] num_arg_sdate [of 2 tm] num_arg_sdate [of 3 tm]
      num_arg_sdate [of 4 tm] num_arg_sdate [of 5 tm] num_arg_sdate [of 6 tm]
    by (simp_all add: v_def numeral_eq_Suc)
  have "rtc_valid_tm t = rtc_valid_tm tm" by (simp add: rtc_valid_tm_def t_def)
  with assms(1) have v: "rtc_valid_tm t = Some True" by (simp only:)
  have l: "length (dec (unat (b::u8))) \<le> 3" for b using dec_u8 [of b] by blast
  let ?t = "mid_rtc_get_time rd (mid_rtc_set_time wr junk t (chip s))"
  define out where "out = tab @ ''Set time success,current: 20'' @ dec (unat (year ?t)) @ ''-'' @ dec (unat (mon ?t)) @ ''-'' @
         dec (unat (mday ?t)) @ '' '' @ dec (unat (wday ?t)) @ '' '' @ dec (unat (hour ?t)) @ '':'' @
         dec (unat (min' ?t)) @ '':'' @ dec (unat (sec ?t)) @ crlf"
  have "length out < 256"
    using l [of "year ?t"] l [of "mon ?t"] l [of "mday ?t"] l [of "wday ?t"] l [of "hour ?t"] l [of "min' ?t"]
      l [of "sec ?t"] by (simp add: out_def tab_def crlf_def)
  moreover have "sdate_main rd wr tm0 junk v s = Some (out, False, s\<lparr>chip := mid_rtc_set_time wr junk t (chip s)\<rparr>)"
    using v by (simp add: sdate_main_def a out_def Let_def del: One_nat_def flip: t_def)
  ultimately show ?thesis by blast
qed

lemma sdate_command_line:
  "command_line (build_vars w) (Suc 3) (sdate_words tm)"
  "length (join (''sdate'' # sdate_words tm)) < 256"
  "w' \<in> set (sdate_words tm) \<Longrightarrow> \<forall>x\<in>set w'. printable x"
proof -
  show "command_line (build_vars w) (Suc 3) (sdate_words tm)"
    using sdate_words_ok [of _ tm] build_vars_registry [of w]
    by (simp add: command_line_def build_vars_sdate word_ok_def sdate_words_def)
  have l: "length (dec (unat (b::u8))) \<le> 3" for b using dec_u8 [of b] by blast
  show "length (join (''sdate'' # sdate_words tm)) < 256"
    using l [of "year tm"] l [of "mon tm"] l [of "mday tm"] l [of "wday tm"] l [of "hour tm"] l [of "min' tm"]
      l [of "sec tm"] by (simp add: sdate_words_def)
  show "w' \<in> set (sdate_words tm) \<Longrightarrow> \<forall>x\<in>set w'. printable x" using sdate_words_ok by blast
qed

lemma length_date_text: "length (date_text tm) < 256"
proof -
  have l: "length (dec (unat (b::u8))) \<le> 3" for b using dec_u8 [of b] by blast
  have l2: "length (dec2 (unat (b::u8))) \<le> 4" for b using l [of b] by (simp add: dec2_def)
  show ?thesis
    using l2 [of "year tm"] l2 [of "mon tm"] l2 [of "mday tm"] l [of "wday tm"] l2 [of "hour tm"] l2 [of "min' tm"]
      l2 [of "sec tm"] by (simp add: date_text_def tab_def crlf_def)
qed

text \<open>
  Claim C19.  The clock can be set from the console: with the permission, the line \<open>sdate\<close> with a date
  that the firmware accepts (before 2100), and then the line \<open>date\<close>, make the console print that
  date and time, having gone through the line editor, the parser, the number conversions, the driver and
  the wires of the bus to the registers of the chip and back; the chip knows of both transfers only what the
  wires show (\<open>wr_regs\<close>, \<open>rd_regs\<close>), so a wrong address or register in either would fail.  The console is ready for the
  next line, and neither the uninitialised variables nor anything else the application keeps plays a part.\<close>

theorem cli_sdate_date:
  assumes "w_rd w = rd_regs" "w_wr w = wr_regs" "rtc_valid_tm tm = Some True" "year tm < 100"
    and "ready c []" "newline nl"
  shows "\<exists>c' s' out. mid_cli_console_task prefix (app_cli_register (replicate 11 True) w)
      (join (''sdate'' # sdate_words tm) @ [nl] @ ''date'' @ [nl]) (c, s) = Some (c', s') \<and>
    ready c' [] \<and> s' = s\<lparr>chip := chip s'\<rparr> \<and>
    tx c' = tx c @ join (''sdate'' # sdate_words tm) @ [nl] @ pcNewLine @ out @ prefix @
      ''date'' @ [nl] @ pcNewLine @ date_text tm @ prefix"
proof -
  let ?cmds = "build_vars w"
  define t where "t = (w_tm w)\<lparr>year := year tm, mon := mon tm, mday := mday tm, wday := wday tm,
    hour := hour tm, min' := min' tm, sec := sec tm\<rparr>"
  define s' where "s' = s\<lparr>chip := mid_rtc_set_time wr_regs (w_junk w) t (chip s)\<rparr>"
  obtain out where out: "handle (?cmds ! 3) (rows (name_at ?cmds (Suc 3) # sdate_words tm)) s = Some (out, False, s')"
    "length out < 256"
    using sdate_runs [OF assms(3), of rd_regs wr_regs "w_tm w" "w_junk w" s]
    by (auto simp: build_vars_sdate assms(1,2) s'_def t_def)
  have pr: "\<forall>x\<in>set (command_name (?cmds ! 3)). printable x" "\<forall>x\<in>set (command_name (?cmds ! 2)). printable x"
    by (simp_all add: build_vars_sdate build_vars_date printable_def)
  have ln: "length (join (name_at ?cmds (Suc 3) # sdate_words tm)) < 256"
    using sdate_command_line(2) [of tm] by (simp only: build_vars_sdate)
  obtain c1 where c1: "mid_cli_console_task prefix ?cmds (join (''sdate'' # sdate_words tm) @ [nl]) (c, s) = Some (c1, s')"
    "ready c1 []" "tx c1 = tx c @ join (''sdate'' # sdate_words tm) @ [nl] @ pcNewLine @ out @ prefix"
    using line_runs [OF assms(5) sdate_command_line(1) assms(6) sdate_command_line(3) [where tm = tm] pr(1) ln out, where prefix = prefix]
    unfolding build_vars_sdate by blast
  have r: "sec t < 60" "min' t < 60" "hour t < 24" "wday t < 8" "mday t < 32" "mon t < 13" "year t < 100"
    using valid_ranges [OF assms(3)] assms(4) by (simp_all add: t_def)
  have "date_text (mid_rtc_get_time rd_regs (chip s')) = date_text t"
    using ds3231.set_get_time [OF r, of "w_junk w" "chip s"] by (simp add: s'_def date_text_def)
  also have "\<dots> = date_text tm" by (simp add: date_text_def t_def)
  finally have h: "handle (?cmds ! 2) (rows (name_at ?cmds (Suc 2) # [])) s' = Some (date_text tm, False, s')"
    by (simp add: build_vars_date assms(1) date_main_def)
  have cl: "command_line ?cmds (Suc 2) []"
    by (simp add: command_line_def build_vars_registry build_vars_date build_vars_sdate(5) word_ok_def)
  have l2: "length (join (name_at ?cmds (Suc 2) # [])) < 256" by (simp add: build_vars_date)
  obtain c2 where c2: "mid_cli_console_task prefix ?cmds (''date'' @ [nl]) (c1, s') = Some (c2, s')"
    "ready c2 []" "tx c2 = tx c1 @ ''date'' @ [nl] @ pcNewLine @ date_text tm @ prefix"
    using line_runs [OF c1(2) cl assms(6) _ pr(2) l2 h length_date_text, where prefix = prefix]
    unfolding build_vars_date join.simps by auto
  have "mid_cli_console_task prefix ?cmds ((join (''sdate'' # sdate_words tm) @ [nl]) @ (''date'' @ [nl])) (c, s) = Some (c2, s')"
    using c1(1) c2(1) unfolding mid_cli_console_task_def fold_opt_append by simp
  moreover have "s' = s\<lparr>chip := chip s'\<rparr>" by (simp add: s'_def)
  ultimately show ?thesis
    using c1(3) c2(2,3) unfolding app_cli_registered append_assoc
    by (intro exI [of _ c2] exI [of _ s'] exI [of _ out] conjI) (simp_all only: append_assoc)
qed

text \<open>An application in some state, and what surrounds it.\<close>

definition sample_world :: "(u8 \<Rightarrow> u8) world" where
  "sample_world = \<lparr>w_rd = rd_regs, w_wr = wr_regs, w_junk = 0x55, w_tm = sample_time,
     w_net = ([192, 168, 1, 9], [255, 255, 255, 0], [192, 168, 1, 1], [1, 2, 3, 4, 5, 6]),
     w_kernel = (reset_kernel, reset_kernel), w_info = (\<lambda>_. (100, ''task'')), w_stack = 1\<rparr>"

theorem cli_sdate_date_witness:
  "\<forall>s. \<exists>c' s' out. mid_cli_console_task ''> '' (app_cli_register (replicate 11 True) sample_world)
      (''sdate 17 6 23 5 10 8 30'' @ [CHR 0x0D] @ ''date'' @ [CHR 0x0D]) (typed_cli [], s) = Some (c', s') \<and>
    tx c' = ''sdate 17 6 23 5 10 8 30'' @ [CHR 0x0D] @ pcNewLine @ out @ ''> '' @ ''date'' @ [CHR 0x0D] @ pcNewLine @
      tab @ ''2017-06-23 5 10:08:30'' @ crlf @ ''> ''"
proof
  fix s
  let ?tm = "\<lparr>sec = 30, min' = 8, hour = 10, wday = 5, mday = 23, mon = 6, year = 17, am_pm = 0, h12 = 0\<rparr>"
  have v: "rtc_valid_tm ?tm = Some True" by code_simp
  have w: "w_rd sample_world = rd_regs" "w_wr sample_world = wr_regs" by (simp_all add: sample_world_def)
  have j: "join (''sdate'' # sdate_words ?tm) = ''sdate 17 6 23 5 10 8 30''" by code_simp
  have d: "date_text ?tm = tab @ ''2017-06-23 5 10:08:30'' @ crlf" by code_simp
  have r: "ready (typed_cli []) []" "tx (typed_cli []) = []"
    by (rule typed_cli_ready; simp) (simp add: typed_cli_def cli_init_def)
  have nl: "newline (CHR 0x0D)" "year ?tm < 100" by (simp_all add: newline_def ascii_defs)
  from cli_sdate_date [OF w v nl(2) r(1) nl(1), of "''> ''" s] show "\<exists>c' s' out.
    mid_cli_console_task ''> '' (app_cli_register (replicate 11 True) sample_world)
      (''sdate 17 6 23 5 10 8 30'' @ [CHR 0x0D] @ ''date'' @ [CHR 0x0D]) (typed_cli [], s) = Some (c', s') \<and>
    tx c' = ''sdate 17 6 23 5 10 8 30'' @ [CHR 0x0D] @ pcNewLine @ out @ ''> '' @ ''date'' @ [CHR 0x0D] @ pcNewLine @
      tab @ ''2017-06-23 5 10:08:30'' @ crlf @ ''> ''"
    unfolding j d r(2) append_assoc append_Nil by blast
qed

text \<open>The two limits of what the number conversions refuse: show times of 25:75, and an LED switched off by 256.\<close>

lemma setlcd_unchecked:
  "map_option (\<lambda>(out, _). out) (setlcd_main (rows [''setlcd'', ''2575'', ''800'']) s) =
     map_option (\<lambda>_. tab @ ''Set show time success,current: ON-25:75  OFF-08:00'' @ crlf)
       (app_time_set_showtime 2575 800 (clock s) (settings s))"
proof -
  have n: "num_arg (rows [''setlcd'', ''2575'', ''800'']) 1 = Some 2575"
    "num_arg (rows [''setlcd'', ''2575'', ''800'']) 2 = Some 800" by code_simp+
  have t: "show_times 2575 800 = ''ON-25:75  OFF-08:00'' @ crlf" by code_simp
  show ?thesis
    by (cases "app_time_set_showtime 2575 800 (clock s) (settings s)") (auto simp add: setlcd_main_def n t simp del: One_nat_def)
qed

end
