(* ===== verification/Dm9000.thy ===== *)
theory Dm9000
  imports Prelude
begin

text \<open>
  The Ethernet controller (\<open>hal/dm9000x.c\<close>, \<open>hal/inc/dm9000x.h\<close>).

  The driver talks to the chip over a 16-bit port with four control pins.  \<open>dm9000_out_byte\<close> and
  \<open>dm9000_in_byte\<close> are lists of what they do to the pins.  The functions above them take the two accesses
  they call as arguments: \<open>rd d reg\<close> stands for \<open>ior(reg)\<close> on a device in state \<open>d\<close>, \<open>wr d reg v\<close> for
  \<open>iow(reg, v)\<close>.  The locale \<open>nic_port\<close> states what they rely on, that the accesses act on the registers of
  the chip, and holds their correctness; it is interpreted on the pins, decoded by a device that answers as the
  data sheet says.  Delays and the pin set-up of \<open>dm9000x_gpio_inital\<close> are left out.
\<close>

section \<open>The port\<close>

datatype nic_pin = CMD | CS | IOW | IOR

text \<open>A pin set high or low, the direction of the data port (\<open>True\<close> is output), its value, and a read of it.\<close>

datatype nic_act = Pin nic_pin bool | DataMode bool | DataOut u16 | Sample

definition DM9000_DATA :: bool where "DM9000_DATA = True"
definition DM9000_INDEX :: bool where "DM9000_INDEX = False"

definition dm9000_out_byte :: "u16 \<Rightarrow> bool \<Rightarrow> nic_act list" where
  "dm9000_out_byte outdata reg =
     [DataMode True, DataOut outdata, Pin CMD reg, Pin CS False, Pin IOR True, Pin IOW False,
      Pin IOW True, Pin CS True]"

definition dm9000_in_byte :: "bool \<Rightarrow> nic_act list" where
  "dm9000_in_byte reg =
     [DataMode False, Pin CMD reg, Pin CS False, Pin IOR False, Pin IOW True, Sample,
      Pin IOW True, Pin CS True]"

definition ior :: "u16 \<Rightarrow> nic_act list" where
  "ior reg = dm9000_out_byte reg DM9000_INDEX @ dm9000_in_byte DM9000_DATA"

definition iow :: "u16 \<Rightarrow> u16 \<Rightarrow> nic_act list" where
  "iow reg v = dm9000_out_byte reg DM9000_INDEX @ dm9000_out_byte v DM9000_DATA"

section \<open>The driver\<close>

definition DM9000_ID :: u32 where [prog_defs]: "DM9000_ID = 0x90000A46"
definition DM9000_NCR :: u16 where [prog_defs]: "DM9000_NCR = 0x00"
definition DM9000_NSR :: u16 where [prog_defs]: "DM9000_NSR = 0x01"
definition DM9000_TCR :: u16 where [prog_defs]: "DM9000_TCR = 0x02"
definition DM9000_RCR :: u16 where [prog_defs]: "DM9000_RCR = 0x05"
definition DM9000_BPTR :: u16 where [prog_defs]: "DM9000_BPTR = 0x08"
definition DM9000_FCTR :: u16 where [prog_defs]: "DM9000_FCTR = 0x09"
definition DM9000_FCR :: u16 where [prog_defs]: "DM9000_FCR = 0x0A"
definition DM9000_PAR :: u16 where [prog_defs]: "DM9000_PAR = 0x10"
definition DM9000_GPCR :: u16 where [prog_defs]: "DM9000_GPCR = 0x1e"
definition DM9000_GPR :: u16 where [prog_defs]: "DM9000_GPR = 0x1f"
definition DM9000_VIDL :: u16 where [prog_defs]: "DM9000_VIDL = 0x28"
definition DM9000_VIDH :: u16 where [prog_defs]: "DM9000_VIDH = 0x29"
definition DM9000_PIDL :: u16 where [prog_defs]: "DM9000_PIDL = 0x2A"
definition DM9000_PIDH :: u16 where [prog_defs]: "DM9000_PIDH = 0x2B"
definition DM9000_SMCR :: u16 where [prog_defs]: "DM9000_SMCR = 0x2F"
definition DM9000_MRCMDX :: u16 where [prog_defs]: "DM9000_MRCMDX = 0xF0"
definition DM9000_MRCMD :: u16 where [prog_defs]: "DM9000_MRCMD = 0xF2"
definition DM9000_MWCMD :: u16 where [prog_defs]: "DM9000_MWCMD = 0xF8"
definition DM9000_TXPLL :: u16 where [prog_defs]: "DM9000_TXPLL = 0xFC"
definition DM9000_TXPLH :: u16 where [prog_defs]: "DM9000_TXPLH = 0xFD"
definition DM9000_ISR :: u16 where [prog_defs]: "DM9000_ISR = 0xFE"
definition DM9000_IMR :: u16 where [prog_defs]: "DM9000_IMR = 0xFF"

definition NETIF_MAX_HWADDR_LEN :: nat where "NETIF_MAX_HWADDR_LEN = 6"

type_synonym 'd nrd = "'d \<Rightarrow> u16 \<Rightarrow> u16 \<times> 'd"
type_synonym 'd nwr = "'d \<Rightarrow> u16 \<Rightarrow> u16 \<Rightarrow> 'd"

definition dm9000x_read_id :: "'d nrd \<Rightarrow> 'd \<Rightarrow> u32 \<times> 'd" where
  "dm9000x_read_id rd d =
     (case rd d DM9000_VIDL of (a, d) \<Rightarrow>
      case rd d DM9000_VIDH of (b, d) \<Rightarrow>
      case rd d DM9000_PIDL of (c, d) \<Rightarrow>
      case rd d DM9000_PIDH of (e, d) \<Rightarrow>
        let byte = (\<lambda>v. ucast (v AND 0x00ff) :: u32);
            i = byte a OR push_bit 8 (byte b) OR push_bit 16 (byte c) OR push_bit 24 (byte e)
        in (if i = DM9000_ID then i else 0, d))"

text \<open>A sequence of writes.\<close>

definition iow_all :: "'d nwr \<Rightarrow> (u16 \<times> u16) list \<Rightarrow> 'd \<Rightarrow> 'd" where
  "iow_all wr xs d = foldl (\<lambda>d (r, v). wr d r v) d xs"

text \<open>The result has the address that \<open>dm9000_mac\<close> then holds.\<close>

definition dm9000x_inital :: "'d nrd \<Rightarrow> 'd nwr \<Rightarrow> u8 list \<Rightarrow> 'd \<Rightarrow> (u8 list \<times> 'd) option" where
  "dm9000x_inital rd wr macaddr d = do {
     let d = iow_all wr [(DM9000_GPCR, 0x01), (DM9000_GPR, 0x00), (DM9000_NCR, 0x03), (DM9000_NCR, 0x00),
       (DM9000_NCR, 0x03), (DM9000_NCR, 0x00), (DM9000_GPCR, 0x01), (DM9000_GPR, 0x00)] d;
     let d = snd (dm9000x_read_id rd d);
     let d = iow_all wr [(DM9000_NSR, 0x2c), (DM9000_ISR, 0x3f), (DM9000_RCR, 0x39), (DM9000_TCR, 0x00),
       (DM9000_BPTR, 0x3f), (DM9000_FCTR, 0x3a), (DM9000_FCR, 0xff), (DM9000_SMCR, 0x00)] d;
     (mac, d) \<leftarrow> fold_opt (\<lambda>i (mac, d). do {
         b \<leftarrow> get macaddr i;
         Some (mac @ [b], wr d (DM9000_PAR + of_nat i) (ucast b))
       }) [0..<NETIF_MAX_HWADDR_LEN] ([], d);
     Some (mac, iow_all wr [(DM9000_NSR, 0x2c), (DM9000_ISR, 0x3f), (DM9000_IMR, 0x81)] d)
   }"

text \<open>The loops of \<open>dm9000x_sendpacket\<close>, and its wait for the transmission.\<close>

fun send_bytes :: "'d nwr \<Rightarrow> u8 list \<Rightarrow> nat \<Rightarrow> nat \<Rightarrow> 'd \<Rightarrow> 'd option" where
  "send_bytes wr packet i 0 d = Some d"
| "send_bytes wr packet i (Suc n) d = do {
     b \<leftarrow> get packet i;
     send_bytes wr packet (Suc i) n (wr d DM9000_MWCMD (ucast b))
   }"

partial_function (option) send_words :: "'d nwr \<Rightarrow> u8 list \<Rightarrow> u16 \<Rightarrow> u16 \<Rightarrow> 'd \<Rightarrow> 'd option" where
  [code]: "send_words wr packet n i d =
     (if i < n then do {
        lo \<leftarrow> get packet (unat i);
        hi \<leftarrow> get packet (unat i + 1);
        send_words wr packet n (i + 2) (wr d DM9000_MWCMD (ucast lo OR push_bit 8 (ucast hi)))
      }
      else Some d)"

partial_function (option) wait_sent :: "'d nrd \<Rightarrow> 'd \<Rightarrow> 'd option" where
  [code]: "wait_sent rd d =
     (case rd d DM9000_NSR of (v, d) \<Rightarrow> if v AND 0x0C = 0 then wait_sent rd d else Some d)"

definition dm9000x_sendpacket :: "'d nrd \<Rightarrow> 'd nwr \<Rightarrow> u8 list \<Rightarrow> u16 \<Rightarrow> 'd \<Rightarrow> 'd option" where
  "dm9000x_sendpacket rd wr packet len d = do {
     let d = wr d DM9000_IMR 0x80;
     (v, d) \<leftarrow> Some (rd d DM9000_ISR);
     d \<leftarrow> (if drop_bit 7 v AND 0x01 = 0x01 then send_bytes wr packet 0 (unat len) d
          else send_words wr packet len 0 d);
     let d = iow_all wr [(DM9000_TXPLH, drop_bit 8 len AND 0xff), (DM9000_TXPLL, len AND 0xff),
       (DM9000_TCR, 0x01)] d;
     d \<leftarrow> wait_sent rd d;
     Some (iow_all wr [(DM9000_NSR, 0x2c), (DM9000_IMR, 0x81)] d)
   }"

text \<open>
  The loops of \<open>dm9000x_receivepacket\<close>.  In byte mode a number is the sum of two calls of
  \<open>ior\<close>, whose order C does not fix: \<open>ltr\<close> tells whether the left one is made first.
\<close>

definition read_pair :: "bool \<Rightarrow> 'd nrd \<Rightarrow> 'd \<Rightarrow> u32 \<times> 'd" where
  "read_pair ltr rd d =
     (case rd d DM9000_MRCMD of (a, d) \<Rightarrow>
      case rd d DM9000_MRCMD of (b, d) \<Rightarrow>
        (if ltr then ucast a + push_bit 8 (ucast b) else ucast b + push_bit 8 (ucast a), d))"

fun nic_read_bytes :: "'d nrd \<Rightarrow> nat \<Rightarrow> nat \<Rightarrow> u8 list \<Rightarrow> 'd \<Rightarrow> (u8 list \<times> 'd) option" where
  "nic_read_bytes rd i 0 packet d = Some (packet, d)"
| "nic_read_bytes rd i (Suc n) packet d =
     (case rd d DM9000_MRCMD of (v, d) \<Rightarrow> do {
        packet \<leftarrow> put packet i (ucast v);
        nic_read_bytes rd (Suc i) n packet d
      })"

partial_function (option) read_words ::
    "'d nrd \<Rightarrow> u32 \<Rightarrow> u32 \<Rightarrow> u8 list \<Rightarrow> 'd \<Rightarrow> (u8 list \<times> 'd) option" where
  [code]: "read_words rd rx_length i packet d =
     (if i < rx_length then
        (case rd d DM9000_MRCMD of (v, d) \<Rightarrow> do {
           packet \<leftarrow> put packet (unat i) (ucast (v AND 0xff));
           packet \<leftarrow> put packet (unat i + 1) (ucast (drop_bit 8 v AND 0xff));
           read_words rd rx_length (i + 2) packet d
         })
      else Some (packet, d))"

definition receive_bytes :: "bool \<Rightarrow> 'd nrd \<Rightarrow> u8 list \<Rightarrow> 'd \<Rightarrow> (u16 \<times> u8 list \<times> 'd) option" where
  "receive_bytes ltr rd packet d =
     (case read_pair ltr rd d of (rx_status, d) \<Rightarrow>
      case read_pair ltr rd d of (rx_length, d) \<Rightarrow>
        if rx_status AND 0xbf00 = 0 \<and> rx_length < 1522 then do {
          (packet, d) \<leftarrow> nic_read_bytes rd 0 (unat rx_length) packet d;
          Some (ucast rx_length, packet, d)
        }
        else Some (0, packet, d))"

definition receive_words :: "'d nrd \<Rightarrow> u8 list \<Rightarrow> 'd \<Rightarrow> (u16 \<times> u8 list \<times> 'd) option" where
  "receive_words rd packet d =
     (case rd d DM9000_MRCMD of (s, d) \<Rightarrow>
      case rd d DM9000_MRCMD of (n, d) \<Rightarrow>
        let rx_status = (ucast s :: u32); rx_length = (ucast n :: u32) in
        if rx_status AND 0xbf00 = 0 \<and> rx_length < 1522 then do {
          (packet, d) \<leftarrow> read_words rd rx_length 0 packet d;
          Some (ucast rx_length, packet, d)
        }
        else Some (0, packet, d))"

text \<open>The test for word mode, \<open>rx_io_mode & 0x00\<close>, always holds.\<close>

definition receive_frame :: "bool \<Rightarrow> 'd nrd \<Rightarrow> u8 list \<Rightarrow> 'd \<Rightarrow> (u16 \<times> u8 list \<times> 'd) option" where
  "receive_frame ltr rd packet d =
     (case rd d DM9000_ISR of (v, d) \<Rightarrow>
        if (ucast (drop_bit 7 v) :: u8) AND 0x01 = 0x01 then receive_bytes ltr rd packet d
        else receive_words rd packet d)"

text \<open>The last argument of the code, \<open>maxlen\<close>, is not used by it.\<close>

definition dm9000x_receivepacket ::
    "bool \<Rightarrow> 'd nrd \<Rightarrow> 'd nwr \<Rightarrow> u8 list \<Rightarrow> u8 list \<Rightarrow> u16 \<Rightarrow> 'd \<Rightarrow> (u16 \<times> u8 list \<times> 'd) option" where
  "dm9000x_receivepacket ltr rd wr dm9000_mac packet maxlen d = do {
     (v, d) \<leftarrow> Some (rd d DM9000_ISR);
     let d = (if v AND 0x01 \<noteq> 0 then wr d DM9000_ISR 0x01 else d);
     (v, d) \<leftarrow> Some (rd d DM9000_MRCMDX);
     if (ucast v :: u8) \<noteq> 0x01 then do {
       (v, d) \<leftarrow> Some (rd d DM9000_MRCMDX);
       let ready = (ucast v :: u8);
       if ready AND 0x01 \<noteq> 0x01 then
         (if ready AND 0x01 \<noteq> 0x00 then do {
            let d = wr d DM9000_IMR 0x80;
            (mac, d) \<leftarrow> dm9000x_inital rd wr dm9000_mac d;
            Some (0, packet, wr d DM9000_IMR 0x81)
          }
          else Some (0, packet, d))
       else receive_frame ltr rd packet d
     }
     else receive_frame ltr rd packet d
   }"

section \<open>The registers of the chip\<close>

text \<open>
  What the data sheet of the DM9000 says of the registers that the driver uses; it is the environment of the
  driver, not code of the repository.  \<open>tx_mem\<close> is the transmit memory from where it is
  written, \<open>sent\<close> the frames sent, \<open>rx_mem\<close> the receive memory from where it is read: for each frame a flag, a
  status, the length and the bytes.  A transmission takes \<open>latency\<close> reads of the status.  \<open>upper\<close> is the
  level of the upper data lines when the chip does not drive them.
\<close>

record nic =
  nregs :: "u8 \<Rightarrow> u8"
  byte_mode :: bool
  upper :: u8
  tx_mem :: "u8 list"
  sent :: "u8 list list"
  latency :: nat
  busy :: nat
  rx_mem :: "u8 list"

definition rx_byte :: "nic \<Rightarrow> nat \<Rightarrow> u8" where
  "rx_byte n i = (if i < length (rx_mem n) then rx_mem n ! i else 0)"

definition frame_mem :: "u8 \<Rightarrow> u8 list \<Rightarrow> u8 list \<Rightarrow> u8 list" where
  "frame_mem st f pad = [0x01, st, of_nat (length f), of_nat (length f div 256)] @ f @ pad"

definition on_lines :: "u8 \<Rightarrow> u8 \<Rightarrow> u16" where
  "on_lines hi lo = push_bit 8 (ucast hi) OR ucast lo"

definition reg_read :: "u8 \<Rightarrow> nic \<Rightarrow> u16 \<times> nic" where
  "reg_read r n =
     (if r = 0xF2 then
        (if byte_mode n then (on_lines (upper n) (rx_byte n 0), n\<lparr>rx_mem := drop 1 (rx_mem n)\<rparr>)
         else (on_lines (rx_byte n 1) (rx_byte n 0), n\<lparr>rx_mem := drop 2 (rx_mem n)\<rparr>))
      else if r = 0xF0 then (on_lines (upper n) (rx_byte n 0), n)
      else if r = 0xFE then
        (on_lines (upper n) ((if byte_mode n then 0x80 else 0) OR (nregs n r AND 0x3F)), n)
      else if r = 0x01 \<and> busy n > 0 then
        (on_lines (upper n) (nregs n r AND NOT 0x0C),
         n\<lparr>busy := busy n - 1, nregs := (nregs n)(r := (if busy n = 1 then nregs n r OR 0x04 else nregs n r))\<rparr>)
      else (on_lines (upper n) (nregs n r), n))"

definition start_sending :: "nic \<Rightarrow> nic" where
  "start_sending n =
     n\<lparr>sent := sent n @ [take (256 * unat (nregs n 0xFD) + unat (nregs n 0xFC)) (tx_mem n)], tx_mem := [],
       busy := Suc (latency n)\<rparr>"

definition reg_write :: "u8 \<Rightarrow> u16 \<Rightarrow> nic \<Rightarrow> nic" where
  "reg_write r v n =
     (let b = (ucast v :: u8) in
      if r = 0xF8 then
        n\<lparr>tx_mem := tx_mem n @ (if byte_mode n then [b] else [b, ucast (drop_bit 8 v)])\<rparr>
      else if r = 0x00 \<and> bit b 0 then n\<lparr>nregs := (\<lambda>_. 0), tx_mem := [], rx_mem := [], busy := 0\<rparr>
      else if r = 0x02 \<and> bit b 0 then start_sending n
      else if r = 0x01 \<or> r = 0xFE then n\<lparr>nregs := (nregs n)(r := nregs n r AND NOT b)\<rparr>
      else n\<lparr>nregs := (nregs n)(r := b)\<rparr>)"

lemma rx_byte_nregs [simp]: "rx_byte (n\<lparr>nregs := g\<rparr>) i = rx_byte n i"
  by (simp add: rx_byte_def)

lemma on_lines_low [simp]: "(ucast (on_lines hi lo) :: u8) = lo"
  unfolding on_lines_def
  by (rule bit_word_eqI) (auto simp: bit_ucast_iff bit_or_iff bit_push_bit_iff)

lemma on_lines_high [simp]: "(ucast (drop_bit 8 (on_lines hi lo)) :: u8) = hi"
proof (rule bit_word_eqI)
  fix k :: nat
  have "bit lo (8 + k) = False" using bit_imp_le_length [of lo "8 + k"] by auto
  then show "k < LENGTH(8) \<Longrightarrow> bit (ucast (drop_bit 8 (on_lines hi lo)) :: u8) k = bit hi k"
    by (simp add: on_lines_def bit_ucast_iff bit_or_iff bit_push_bit_iff bit_drop_bit_eq)
qed

lemma on_lines_and: "on_lines hi lo AND ucast (m :: u8) = ucast (lo AND m)"
proof (rule bit_word_eqI)
  fix k :: nat
  have "bit m k \<Longrightarrow> k < 8" using bit_imp_le_length by fastforce
  then show "bit (on_lines hi lo AND ucast m) k = bit (ucast (lo AND m) :: u16) k"
    by (auto simp: on_lines_def bit_ucast_iff bit_or_iff bit_and_iff bit_push_bit_iff)
qed

lemma ucast_u8_u16_u8 [simp]: "(ucast (ucast (x::u8) :: u16) :: u8) = x"
  by (rule bit_word_eqI) (auto simp: bit_ucast_iff)

lemma ucast_u8_u16_0 [simp]: "(ucast (x :: u8) :: u16) = 0 \<longleftrightarrow> x = 0"
  using ucast_u8_u16_u8 [of x] by (metis unsigned_0)

lemma on_lines_nsr: "on_lines hi lo AND 0x0C = 0 \<longleftrightarrow> lo AND 0x0C = 0"
  using on_lines_and [of hi lo "0x0C"] by simp

lemma mode_bit:
  "drop_bit 7 v AND 1 = (1 :: u16) \<longleftrightarrow> bit v 7" "(ucast (drop_bit 7 v) :: u8) AND 1 = 1 \<longleftrightarrow> bit (v :: u16) 7"
proof -
  have o: "w AND 1 = 1 \<longleftrightarrow> bit w 0" for w :: "'a::len word"
    by (simp add: and_one_eq bit_0 odd_iff_mod_2_eq_one)
  show "drop_bit 7 v AND 1 = (1 :: u16) \<longleftrightarrow> bit v 7" "(ucast (drop_bit 7 v) :: u8) AND 1 = 1 \<longleftrightarrow> bit v 7"
    unfolding o by (simp_all add: bit_drop_bit_eq bit_ucast_iff)
qed

lemma and_ff: "(n::nat) AND 255 = n mod 256"
  using take_bit_eq_mask [of 8 n] by (simp add: take_bit_eq_mod mask_eq_exp_minus_1)

lemma len_bytes:
  "256 * unat (ucast (drop_bit 8 len AND 0xff) :: u8) + unat (ucast (len AND 0xff) :: u8) = unat (len :: u16)"
proof -
  have "unat (ucast (len AND 0xff) :: u8) = unat len mod 256"
    by (simp add: unsigned_ucast_eq unsigned_and_eq and_ff take_bit_eq_mod)
  moreover have "unat (ucast (drop_bit 8 len AND 0xff) :: u8) = unat len div 256"
  proof -
    have "unat len div 256 < 256" using unat_u16_lt [of len] by (simp add: less_mult_imp_div_less)
    then show ?thesis
    by (simp add: unsigned_ucast_eq unsigned_and_eq and_ff take_bit_eq_mod unsigned_drop_bit_eq drop_bit_eq_div unat_div)
  qed
  ultimately show ?thesis by simp
qed

lemma ucast_and_ff: "(ucast (v AND 0xff) :: u8) = ucast (v :: u16)"
proof (rule bit_word_eqI)
  fix k :: nat
  assume "k < LENGTH(8)"
  moreover have m: "(255 :: u16) = mask 8" by (simp add: mask_eq_exp_minus_1)
  have "bit (255 :: u16) k \<longleftrightarrow> k < 8" unfolding m bit_mask_iff by auto
  ultimately show "bit (ucast (v AND 0xff) :: u8) k = bit (ucast v :: u8) k"
    by (simp add: bit_ucast_iff bit_and_iff)
qed

lemma take_two:
  assumes "i + 1 < length xs" "i + 1 < length ys" "take i ys = take i xs"
  shows "take (i + 2) (ys[i := xs ! i, i + 1 := xs ! (i + 1)]) = take (i + 2) xs"
proof (rule nth_equalityI)
  fix k assume "k < length (take (i + 2) (ys[i := xs ! i, i + 1 := xs ! (i + 1)]))"
  then have k: "k < i + 2" by simp
  have "ys ! k = xs ! k" if "k < i" using that arg_cong [OF assms(3), of "\<lambda>z. z ! k"] by simp
  with k assms(1,2) show "take (i + 2) (ys[i := xs ! i, i + 1 := xs ! (i + 1)]) ! k = take (i + 2) xs ! k"
    by (auto simp: nth_list_update less_Suc_eq)
qed (use assms in simp)

lemma on_lines_status: "(ucast (on_lines st lo) :: u32) AND push_bit 8 (ucast (m::u8)) = push_bit 8 (ucast (st AND m))"
proof (rule bit_word_eqI)
  fix k :: nat
  have "bit lo k \<Longrightarrow> k < 8" using bit_imp_le_length by fastforce
  then show "bit ((ucast (on_lines st lo) :: u32) AND push_bit 8 (ucast m)) k = bit (push_bit 8 (ucast (st AND m)) :: u32) k"
    by (auto simp: on_lines_def bit_ucast_iff bit_or_iff bit_and_iff bit_push_bit_iff dest: bit_imp_le_length) 
qed

lemma good_status:
  assumes "st AND 0xBF = 0"
  shows "(ucast (on_lines st lo) :: u32) AND 0xbf00 = 0"
  using on_lines_status [of st lo "0xBF"] assms by simp

lemma unat_on_lines: "unat (on_lines hi lo) = 256 * unat hi + unat lo"
  unfolding on_lines_def by (rule unat_two_bytes)

lemma on_lines_length: "n < 65536 \<Longrightarrow> on_lines (of_nat (n div 256)) (of_nat n) = of_nat n"
  by (simp add: word_unat_eq_iff unat_on_lines unat_of_nat take_bit_eq_mod)

text \<open>The registers by their numbers.\<close>

lemma reg_numbers [simp]:
  "(ucast DM9000_NCR :: u8) = 0x00" "(ucast DM9000_NSR :: u8) = 0x01" "(ucast DM9000_TCR :: u8) = 0x02"
  "(ucast DM9000_RCR :: u8) = 0x05" "(ucast DM9000_BPTR :: u8) = 0x08" "(ucast DM9000_FCTR :: u8) = 0x09"
  "(ucast DM9000_FCR :: u8) = 0x0A" "(ucast DM9000_PAR :: u8) = 0x10" "(ucast DM9000_GPCR :: u8) = 0x1e"
  "(ucast DM9000_GPR :: u8) = 0x1f" "(ucast DM9000_VIDL :: u8) = 0x28" "(ucast DM9000_VIDH :: u8) = 0x29"
  "(ucast DM9000_PIDL :: u8) = 0x2A" "(ucast DM9000_PIDH :: u8) = 0x2B" "(ucast DM9000_SMCR :: u8) = 0x2F"
  "(ucast DM9000_MRCMDX :: u8) = 0xF0" "(ucast DM9000_MRCMD :: u8) = 0xF2" "(ucast DM9000_MWCMD :: u8) = 0xF8"
  "(ucast DM9000_TXPLL :: u8) = 0xFC" "(ucast DM9000_TXPLH :: u8) = 0xFD" "(ucast DM9000_ISR :: u8) = 0xFE"
  "(ucast DM9000_IMR :: u8) = 0xFF"
  unfolding prog_defs by code_simp+

section \<open>What the driver relies on\<close>

locale nic_port =
  fixes rd :: "'d nrd" and wr :: "'d nwr" and idle :: "'d \<Rightarrow> bool" and chip :: "'d \<Rightarrow> nic"
  assumes rd_idle: "idle d \<Longrightarrow> idle (snd (rd d r))"
    and rd_reg: "idle d \<Longrightarrow> (fst (rd d r), chip (snd (rd d r))) = reg_read (ucast r) (chip d)"
    and wr_idle: "idle d \<Longrightarrow> idle (wr d r v)"
    and wr_reg: "idle d \<Longrightarrow> chip (wr d r v) = reg_write (ucast r) v (chip d)"
begin

lemma rd_ok:
  assumes "idle d" "reg_read (ucast r) (chip d) = (v, n)"
  obtains d' where "rd d r = (v, d')" "idle d'" "chip d' = n"
proof -
  from rd_reg [OF assms(1), of r] assms(2) have "rd d r = (v, snd (rd d r))" "chip (snd (rd d r)) = n"
    by (auto simp: prod_eq_iff)
  with rd_idle [OF assms(1), of r] show ?thesis using that by blast
qed

lemma iow_all_idle: "idle d \<Longrightarrow> idle (iow_all wr xs d)"
  by (induction xs arbitrary: d) (auto simp: iow_all_def wr_idle)

lemma iow_all_chip:
  "idle d \<Longrightarrow> chip (iow_all wr xs d) = foldl (\<lambda>n (r, v). reg_write (ucast r) v n) (chip d) xs"
proof (induction xs arbitrary: d)
  case (Cons x xs)
  obtain r v where x: "x = (r, v)" by fastforce
  from Cons.IH [OF wr_idle [OF Cons.prems, of r v]] show ?case by (simp add: iow_all_def x wr_reg [OF Cons.prems])
qed (simp add: iow_all_def)

lemma send_bytes_ok:
  assumes "idle d" "byte_mode (chip d)" "i + n \<le> length packet"
  shows "\<exists>d'. send_bytes wr packet i n d = Some d' \<and> idle d' \<and>
    chip d' = (chip d)\<lparr>tx_mem := tx_mem (chip d) @ take n (drop i packet)\<rparr>"
  using assms
proof (induction n arbitrary: i d)
  case (Suc n)
  let ?d = "wr d DM9000_MWCMD (ucast (packet ! i))"
  have i: "i < length packet" using Suc.prems(3) by simp
  have c: "chip ?d = (chip d)\<lparr>tx_mem := tx_mem (chip d) @ [packet ! i]\<rparr>"
    using Suc.prems(2) by (simp add: wr_reg [OF Suc.prems(1)] reg_write_def)
  have "byte_mode (chip ?d)" "Suc i + n \<le> length packet" using Suc.prems by (simp_all add: c)
  from Suc.IH [OF wr_idle [OF Suc.prems(1)] this] obtain d' where
    d': "send_bytes wr packet (Suc i) n ?d = Some d'" "idle d'"
      "chip d' = (chip ?d)\<lparr>tx_mem := tx_mem (chip ?d) @ take n (drop (Suc i) packet)\<rparr>" by blast
  moreover have "take (Suc n) (drop i packet) = packet ! i # take n (drop (Suc i) packet)"
    using i by (simp add: Cons_nth_drop_Suc [symmetric])
  ultimately show ?case using i c by (simp add: get_Some)
qed simp

lemma wait_sent_ok:
  assumes "idle d" "0 < busy (chip d) \<or> nregs (chip d) 1 AND 0x0C \<noteq> 0"
  shows "\<exists>d' v. wait_sent rd d = Some d' \<and> idle d' \<and>
    chip d' = (chip d)\<lparr>busy := 0, nregs := (nregs (chip d))(1 := v)\<rparr>"
  using assms
proof (induction "busy (chip d)" arbitrary: d)
  case 0
  have n: "nregs (chip d) 1 AND 0x0C \<noteq> 0" using 0 by simp
  obtain d' where d': "rd d DM9000_NSR = (on_lines (upper (chip d)) (nregs (chip d) 1), d')" "idle d'" "chip d' = chip d"
    by (rule rd_ok [OF 0(2), of DM9000_NSR "on_lines (upper (chip d)) (nregs (chip d) 1)" "chip d"])
      (use 0(1) in \<open>simp_all add: reg_read_def\<close>)
  then have "wait_sent rd d = Some d'" using n by (simp add: wait_sent.simps [of rd d] on_lines_nsr)
  moreover have "chip d' = (chip d)\<lparr>busy := 0, nregs := (nregs (chip d))(1 := nregs (chip d) 1)\<rparr>"
    using d'(3) 0(1) by simp
  ultimately show ?case using d'(2) by blast
next
  case (Suc n)
  define m where "m = (chip d)\<lparr>busy := n, nregs := (nregs (chip d))(1 := (if n = 0 then nregs (chip d) 1 OR 0x04
      else nregs (chip d) 1))\<rparr>"
  have b: "busy (chip d) = Suc n" using Suc.hyps(2) by simp
  obtain d' where d': "rd d DM9000_NSR = (on_lines (upper (chip d)) (nregs (chip d) 1 AND NOT 0x0C), d')" "idle d'"
    "chip d' = m"
    by (rule rd_ok [OF Suc.prems(1), of DM9000_NSR "on_lines (upper (chip d)) (nregs (chip d) 1 AND NOT 0x0C)" m])
      (use b in \<open>simp_all add: reg_read_def m_def\<close>)
  have "(nregs (chip d) 1 AND NOT 0x0C) AND 0x0C = 0" by (simp add: and.assoc)
  then have e: "wait_sent rd d = wait_sent rd d'"
    using d'(1) by (simp add: wait_sent.simps [of rd d] on_lines_nsr)
  have "(x OR 0x04) AND 0x0C \<noteq> (0::u8)" for x
  proof -
    have "bit ((x OR 0x04) AND 0x0C) 2" by (simp add: bit_and_iff bit_or_iff)
    then show ?thesis by (metis bit_0_eq bot_apply bot_bool_def)
  qed
  then have "0 < busy (chip d') \<or> nregs (chip d') 1 AND 0x0C \<noteq> 0" by (auto simp: d'(3) m_def)
  with Suc.hyps(1) [of d'] d'(2,3) obtain d'' v where
    "wait_sent rd d' = Some d''" "idle d''" "chip d'' = (chip d')\<lparr>busy := 0, nregs := (nregs (chip d'))(1 := v)\<rparr>"
    by (auto simp: m_def)
  then show ?case using e by (intro exI [of _ d''] exI [of _ v]) (simp add: d'(3) m_def)
qed

lemma send_words_ok:
  assumes "idle d" "\<not> byte_mode (chip d)" "m = (unat n - unat i + 1) div 2" "unat i + 2 * m \<le> length packet"
    "unat n < 65535" "unat i \<le> unat n \<or> m = 0"
  shows "\<exists>d'. send_words wr packet n i d = Some d' \<and> idle d' \<and>
    chip d' = (chip d)\<lparr>tx_mem := tx_mem (chip d) @ take (2 * m) (drop (unat i) packet)\<rparr>"
  using assms
proof (induction m arbitrary: i d)
  case 0
  then have "\<not> i < n" by (simp add: word_less_nat_alt)
  then show ?case using 0 by (simp add: send_words.simps [of wr packet n i d])
next
  case (Suc m)
  let ?i = "unat i"
  let ?d = "wr d DM9000_MWCMD (ucast (packet ! ?i) OR push_bit 8 (ucast (packet ! (?i + 1))))"
  have lt: "i < n" using Suc.prems(3) by (simp add: word_less_nat_alt)
  have "?i < unat n" using lt by (simp add: word_less_nat_alt)
  then have l: "?i < length packet" "?i + 1 < length packet" "?i + 2 < 65536" using Suc.prems(4,5) by simp_all
  have i2: "unat (i + 2) = ?i + 2" using l(3) by (simp add: unat_word_ariths)
  have b: "ucast lo OR push_bit 8 (ucast hi) = on_lines hi lo" for lo hi :: u8
    by (simp add: on_lines_def or.commute)
  have c: "chip ?d = (chip d)\<lparr>tx_mem := tx_mem (chip d) @ [packet ! ?i, packet ! (?i + 1)]\<rparr>"
    using Suc.prems(2) unfolding b wr_reg [OF Suc.prems(1)] by (simp add: reg_write_def)
  have "m = (unat n - unat (i + 2) + 1) div 2" "unat (i + 2) \<le> unat n \<or> m = 0"
    using Suc.prems(3) lt i2 by (auto simp: word_less_nat_alt)
  with Suc.IH [OF wr_idle [OF Suc.prems(1)], of DM9000_MWCMD "ucast (packet ! ?i) OR push_bit 8 (ucast (packet ! (?i + 1)))" "i + 2"]
    Suc.prems(2,4,5) c i2
  obtain d' where d': "send_words wr packet n (i + 2) ?d = Some d'" "idle d'"
    "chip d' = (chip ?d)\<lparr>tx_mem := tx_mem (chip ?d) @ take (2 * m) (drop (?i + 2) packet)\<rparr>" by auto
  have "take (2 * Suc m) (drop ?i packet) = packet ! ?i # packet ! (?i + 1) # take (2 * m) (drop (?i + 2) packet)"
    using l(1,2) by (simp add: Cons_nth_drop_Suc [symmetric])
  then show ?case
    using d' lt l(1,2) c by (simp add: send_words.simps [of wr packet n i d] get_Some)
qed

lemma isr_ok:
  assumes "idle d"
  shows "\<exists>v d'. rd d DM9000_ISR = (v, d') \<and> idle d' \<and> chip d' = chip d \<and>
    (drop_bit 7 v AND 1 = 1 \<longleftrightarrow> byte_mode (chip d)) \<and> ((ucast (drop_bit 7 v) :: u8) AND 1 = 1 \<longleftrightarrow> byte_mode (chip d))"
proof -
  define v where "v = on_lines (upper (chip d)) ((if byte_mode (chip d) then 0x80 else 0) OR (nregs (chip d) 0xFE AND 0x3F))"
  obtain d' where d': "rd d DM9000_ISR = (v, d')" "idle d'" "chip d' = chip d"
    by (rule rd_ok [OF assms, of DM9000_ISR v "chip d"]) (simp_all add: reg_read_def v_def)
  have "bit v 7 \<longleftrightarrow> byte_mode (chip d)"
    by (simp add: v_def on_lines_def bit_or_iff bit_and_iff bit_push_bit_iff bit_ucast_iff)
  then show ?thesis using d' mode_bit [of v] by simp
qed

lemma sendpacket_ok:
  assumes "idle d" "tx_mem (chip d) = []" "byte_mode (chip d) \<or> unat len < 65535"
    and "unat len + (if byte_mode (chip d) then 0 else unat len mod 2) \<le> length packet"
  shows "\<exists>d'. dm9000x_sendpacket rd wr packet len d = Some d' \<and> idle d' \<and>
    (\<exists>g. chip d' = (chip d)\<lparr>nregs := g, sent := sent (chip d) @ [take (unat len) packet], busy := 0\<rparr>)"
proof -
  let ?n = "chip d"
  let ?d1 = "wr d DM9000_IMR 0x80"
  have c1: "chip ?d1 = ?n\<lparr>nregs := (nregs ?n)(0xFF := 0x80)\<rparr>" and i1: "idle ?d1"
    using wr_idle [OF assms(1)] by (simp_all add: wr_reg [OF assms(1)] reg_write_def)
  obtain v d2 where d2: "rd ?d1 DM9000_ISR = (v, d2)" "idle d2" "chip d2 = chip ?d1"
    and md: "drop_bit 7 v AND 1 = 1 \<longleftrightarrow> byte_mode ?n"
    using isr_ok [OF i1] by (auto simp: c1)
  obtain d3 xs where d3: "(if drop_bit 7 v AND 1 = 1 then send_bytes wr packet 0 (unat len) d2
      else send_words wr packet len 0 d2) = Some d3" "idle d3" "chip d3 = (chip d2)\<lparr>tx_mem := xs\<rparr>"
    "take (unat len) xs = take (unat len) packet"
  proof (cases "byte_mode ?n")
    case True
    with send_bytes_ok [OF d2(2), of 0 "unat len" packet] assms(2,4) c1 d2(3) that md show ?thesis by auto
  next
    case False
    let ?m = "(unat len + 1) div 2"
    have "2 * ?m = unat len + unat len mod 2" by presburger
    with send_words_ok [OF d2(2), of ?m len 0 packet] assms(2-4) c1 d2(3) that md False show ?thesis
      by (auto simp: min_def)
  qed
  let ?d4 = "iow_all wr [(DM9000_TXPLH, drop_bit 8 len AND 0xff), (DM9000_TXPLL, len AND 0xff),
       (DM9000_TCR, 0x01)] d3"
  define g where "g = (nregs (chip d3))(0xFD := ucast (drop_bit 8 len AND 0xff), 0xFC := ucast (len AND 0xff))"
  have i4: "idle ?d4" by (rule iow_all_idle [OF d3(2)])
  have "256 * unat (g 0xFD) + unat (g 0xFC) = unat len" by (simp add: g_def len_bytes)
  then have c4: "chip ?d4 = ?n\<lparr>nregs := g, sent := sent ?n @ [take (unat len) packet], tx_mem := [], busy := Suc (latency ?n)\<rparr>"
    unfolding iow_all_chip [OF d3(2)]
    by (simp add: reg_write_def Let_def start_sending_def d3(3,4) d2(3) c1 g_def)
  then have "0 < busy (chip ?d4) \<or> nregs (chip ?d4) 1 AND 0x0C \<noteq> 0" by simp
  from wait_sent_ok [OF i4 this] obtain d5 v' where d5: "wait_sent rd ?d4 = Some d5" "idle d5"
    "chip d5 = (chip ?d4)\<lparr>busy := 0, nregs := (nregs (chip ?d4))(1 := v')\<rparr>" by blast
  let ?d6 = "iow_all wr [(DM9000_NSR, 0x2c), (DM9000_IMR, 0x81)] d5"
  have "dm9000x_sendpacket rd wr packet len d = Some ?d6"
    using d2(1) d3(1) d5(1) by (simp add: dm9000x_sendpacket_def)
  moreover have "idle ?d6" by (rule iow_all_idle [OF d5(2)])
  moreover have "\<exists>g. chip ?d6 = ?n\<lparr>nregs := g, sent := sent ?n @ [take (unat len) packet], busy := 0\<rparr>"
    unfolding iow_all_chip [OF d5(2)]
    by (intro exI nic.equality) (simp_all add: reg_write_def Let_def d5(3) c4 assms(2))
  ultimately show ?thesis by blast
qed

text \<open>
  A received frame in the receive memory: a flag, a status, the length, the bytes; in word mode it is
  padded to an even length.
\<close>

lemma read_words_ok:
  assumes "idle d" "\<not> byte_mode (chip d)" "rx_mem (chip d) = drop (unat i) xs @ rest"
    and "even (length xs)" "unat n \<le> length xs" "length xs \<le> unat n + 1" "length xs < 65534"
    and "even (unat i)" "unat i \<le> length xs" "length xs \<le> length packet" "take (unat i) packet = take (unat i) xs"
  shows "\<exists>d'. read_words rd n i packet d = Some (xs @ drop (length xs) packet, d') \<and> idle d' \<and>
    chip d' = (chip d)\<lparr>rx_mem := rest\<rparr>"
  using assms
proof (induction "length xs - unat i" arbitrary: i d packet rule: less_induct)
  case less
  let ?i = "unat i"
  note p = less.prems
  show ?case
  proof (cases "i < n")
    case False
    then have e: "?i = length xs" using p(4,6,8,9) by (auto simp: word_less_nat_alt not_less elim!: evenE)
    have "packet = xs @ drop (length xs) packet" using p(11) e append_take_drop_id [of ?i packet] by simp
    with False show ?thesis using p(1,3) e by (simp add: read_words.simps [of rd n i packet d])
  next
    case True
    then have "?i < length xs" using p(5) by (simp add: word_less_nat_alt)
    then have l: "?i + 1 < length xs" using p(4,8) by presburger
    have i2: "unat (i + 2) = ?i + 2" using l p(7) by (simp add: unat_word_ariths)
    have dr: "drop ?i xs = xs ! ?i # xs ! (?i + 1) # drop (?i + 2) xs"
      using l by (simp add: Cons_nth_drop_Suc)
    let ?v = "on_lines (xs ! (?i + 1)) (xs ! ?i)"
    obtain d' where d': "rd d DM9000_MRCMD = (?v, d')" "idle d'" "chip d' = (chip d)\<lparr>rx_mem := drop (?i + 2) xs @ rest\<rparr>"
      by (rule rd_ok [OF p(1), of DM9000_MRCMD ?v "(chip d)\<lparr>rx_mem := drop (?i + 2) xs @ rest\<rparr>"])
        (use p(2,3) dr in \<open>simp_all add: reg_read_def rx_byte_def\<close>)
    let ?p = "packet[?i := xs ! ?i, ?i + 1 := xs ! (?i + 1)]"
    have lo: "ucast (?v AND 0xff) = xs ! ?i" "ucast (drop_bit 8 ?v AND 0xff) = xs ! (?i + 1)"
      by (simp_all add: ucast_and_ff)
    have s: "read_words rd n i packet d = read_words rd n (i + 2) ?p d'"
      using True l p(10) d'(1) lo by (simp add: read_words.simps [of rd n i packet d] put_Some)
    have t: "take (unat (i + 2)) ?p = take (unat (i + 2)) xs"
      unfolding i2 by (rule take_two) (use l p(10,11) in simp_all)
    have "\<exists>d''. read_words rd n (i + 2) ?p d' = Some (xs @ drop (length xs) ?p, d'') \<and> idle d'' \<and>
      chip d'' = (chip d')\<lparr>rx_mem := rest\<rparr>"
      by (rule less.hyps) (use l i2 d'(2,3) p t in simp_all)
    then show ?thesis unfolding s using l d'(3) by simp
  qed
qed

lemma read_words_fail:
  assumes "idle d" "\<not> byte_mode (chip d)" "length packet < unat n" "unat n < 65534" "unat i \<le> length packet"
  shows "read_words rd n i packet d = None"
  using assms
proof (induction "length packet - unat i" arbitrary: i d packet rule: less_induct)
  case less
  note p = less.prems
  let ?i = "unat i" and ?n = "chip d"
  have lt: "i < n" using p(3,5) by (simp add: word_less_nat_alt)
  obtain v d' where d': "rd d DM9000_MRCMD = (v, d')" "idle d'" "chip d' = ?n\<lparr>rx_mem := drop 2 (rx_mem ?n)\<rparr>"
    by (rule rd_ok [OF p(1), of DM9000_MRCMD "on_lines (rx_byte ?n 1) (rx_byte ?n 0)" "?n\<lparr>rx_mem := drop 2 (rx_mem ?n)\<rparr>"])
      (use p(2) in \<open>simp_all add: reg_read_def\<close>)
  show ?case
  proof (cases "?i + 1 < length packet")
    case True
    have i2: "unat (i + 2) = ?i + 2" using True p(3,4) by (simp add: unat_word_ariths)
    let ?p = "packet[?i := ucast (v AND 0xff), ?i + 1 := ucast (drop_bit 8 v AND 0xff)]"
    have "read_words rd n (i + 2) ?p d' = None"
      by (rule less.hyps) (use True i2 p d'(2,3) in simp_all)
    then show ?thesis using lt True d'(1) by (simp add: read_words.simps [of rd n i packet d] put_Some)
  next
    case False
    then show ?thesis using lt d'(1)
      by (cases "?i < length packet") (simp_all add: read_words.simps [of rd n i packet d] put_Some put_None)
  qed
qed

text \<open>The first part of \<open>dm9000x_receivepacket\<close>: with a frame waiting, it goes on to read it.\<close>

lemma receive_check:
  assumes "idle d"
  shows "\<exists>d' g. idle d' \<and> chip d' = (chip d)\<lparr>nregs := g\<rparr> \<and>
    dm9000x_receivepacket ltr rd wr mac packet maxlen d =
      (if rx_byte (chip d) 0 \<noteq> 0x01 then
         (case rd d' DM9000_MRCMDX of (v, d) \<Rightarrow>
            let ready = (ucast v :: u8) in
            if ready AND 0x01 \<noteq> 0x01 then
              (if ready AND 0x01 \<noteq> 0x00 then do {
                 let d = wr d DM9000_IMR 0x80;
                 (mac, d) \<leftarrow> dm9000x_inital rd wr mac d;
                 Some (0, packet, wr d DM9000_IMR 0x81)
               }
               else Some (0, packet, d))
            else receive_frame ltr rd packet d)
       else receive_frame ltr rd packet d')"
proof -
  obtain x d1 where d1: "rd d DM9000_ISR = (x, d1)" "idle d1" "chip d1 = chip d"
    using isr_ok [OF assms(1)] by blast
  define d2 where "d2 = (if x AND 0x01 \<noteq> 0 then wr d1 DM9000_ISR 0x01 else d1)"
  have d2: "idle d2" "\<exists>g. chip d2 = (chip d)\<lparr>nregs := g\<rparr>"
    using wr_idle [OF d1(2)] d1(2,3) by (auto simp: d2_def wr_reg reg_write_def Let_def intro: exI [of _ "nregs (chip d)"])
  then obtain g where g: "chip d2 = (chip d)\<lparr>nregs := g\<rparr>" by blast
  let ?v = "on_lines (upper (chip d)) (rx_byte (chip d) 0)"
  obtain d3 where d3: "rd d2 DM9000_MRCMDX = (?v, d3)" "idle d3" "chip d3 = chip d2"
    by (rule rd_ok [OF d2(1), of DM9000_MRCMDX ?v "chip d2"]) (use g in \<open>simp_all add: reg_read_def\<close>)
  show ?thesis
    by (intro exI [of _ d3] exI [of _ g]) (use d1(1) d2(1) g d3 in \<open>simp add: dm9000x_receivepacket_def d2_def\<close>)
qed

text \<open>The first part of \<open>dm9000x_receivepacket\<close>: with a frame waiting, it goes on to read it.\<close>

lemma receive_starts:
  assumes "idle d" "rx_byte (chip d) 0 = 0x01"
  shows "\<exists>d' g. dm9000x_receivepacket ltr rd wr mac packet maxlen d =
      (if byte_mode (chip d) then receive_bytes ltr rd packet d' else receive_words rd packet d') \<and> idle d' \<and>
    chip d' = (chip d)\<lparr>nregs := g\<rparr>"
proof -
  from receive_check [OF assms(1), of ltr mac packet maxlen] assms(2) obtain d3 g where
    d: "chip d3 = (chip d)\<lparr>nregs := g\<rparr>" "idle d3"
      "dm9000x_receivepacket ltr rd wr mac packet maxlen d = receive_frame ltr rd packet d3"
    by auto
  obtain w d4 where d4: "rd d3 DM9000_ISR = (w, d4)" "idle d4" "chip d4 = chip d3"
    "(ucast (drop_bit 7 w) :: u8) AND 1 = 1 \<longleftrightarrow> byte_mode (chip d3)"
    using isr_ok [OF d(2)] by blast
  have "receive_frame ltr rd packet d3 =
      (if byte_mode (chip d) then receive_bytes ltr rd packet d4 else receive_words rd packet d4)"
    using d4(1,4) d(1) by (simp add: receive_frame_def)
  then show ?thesis using d d4(2,3) by metis
qed

lemma receive_none:
  assumes "idle d" "rx_byte (chip d) 0 = 0"
  shows "\<exists>d' g. dm9000x_receivepacket ltr rd wr mac packet maxlen d = Some (0, packet, d') \<and> idle d' \<and>
    chip d' = (chip d)\<lparr>nregs := g\<rparr>"
proof -
  from receive_check [OF assms(1), of ltr mac packet maxlen] assms(2) obtain d3 g where
    d: "chip d3 = (chip d)\<lparr>nregs := g\<rparr>" "idle d3"
      "dm9000x_receivepacket ltr rd wr mac packet maxlen d =
       (case rd d3 DM9000_MRCMDX of (v, d) \<Rightarrow>
            let ready = (ucast v :: u8) in
            if ready AND 0x01 \<noteq> 0x01 then
              (if ready AND 0x01 \<noteq> 0x00 then do {
                 let d = wr d DM9000_IMR 0x80;
                 (mac, d) \<leftarrow> dm9000x_inital rd wr mac d;
                 Some (0, packet, wr d DM9000_IMR 0x81)
               }
               else Some (0, packet, d))
            else receive_frame ltr rd packet d)"
    by auto
  let ?v = "on_lines (upper (chip d)) 0"
  obtain d4 where d4: "rd d3 DM9000_MRCMDX = (?v, d4)" "idle d4" "chip d4 = chip d3"
    by (rule rd_ok [OF d(2), of DM9000_MRCMDX ?v "chip d3"]) (use assms(2) d(1) in \<open>simp_all add: reg_read_def\<close>)
  then show ?thesis using d by (intro exI [of _ d4] exI [of _ g]) simp
qed

text \<open>In word mode the frame that waits is put in the buffer and leaves the receive memory.\<close>

lemma receive_words_ok:
  assumes "idle d" "\<not> byte_mode (chip d)" "rx_mem (chip d) = frame_mem st f pad @ rest"
    and "st AND 0xBF = 0" "length pad = length f mod 2" "length f < 1522"
  shows "\<exists>d'. idle d' \<and> chip d' = (chip d)\<lparr>rx_mem := f @ pad @ rest\<rparr> \<and>
    receive_words rd packet d = do {
      (packet, d) \<leftarrow> read_words rd (of_nat (length f)) 0 packet d';
      Some (of_nat (length f), packet, d)
    }"
proof -
  let ?n = "chip d" and ?m1 = "(chip d)\<lparr>rx_mem := [of_nat (length f), of_nat (length f div 256)] @ f @ pad @ rest\<rparr>"
  let ?m2 = "(chip d)\<lparr>rx_mem := f @ pad @ rest\<rparr>"
  obtain d1 where d1: "rd d DM9000_MRCMD = (on_lines st 0x01, d1)" "idle d1" "chip d1 = ?m1"
    by (rule rd_ok [OF assms(1), of DM9000_MRCMD "on_lines st 0x01" ?m1])
      (use assms(2,3) in \<open>simp_all add: reg_read_def rx_byte_def frame_mem_def\<close>)
  let ?l = "on_lines (of_nat (length f div 256)) (of_nat (length f))"
  have l: "?l = of_nat (length f)" using assms(6) by (intro on_lines_length) simp
  obtain d2 where d2: "rd d1 DM9000_MRCMD = (?l, d2)" "idle d2" "chip d2 = ?m2"
    by (rule rd_ok [OF d1(2), of DM9000_MRCMD ?l ?m2])
      (use assms(2) d1(3) in \<open>simp_all add: reg_read_def rx_byte_def numeral_2_eq_2\<close>)
  have u: "(ucast (of_nat (length f) :: u16) :: u32) = of_nat (length f)"
    using assms(6) by (simp add: word_unat_eq_iff unat_of_nat unsigned_ucast_eq take_bit_eq_mod)
  have u': "(ucast (of_nat (length f) :: u32) :: u16) = of_nat (length f)"
    using assms(6) by (simp add: word_unat_eq_iff unat_of_nat unsigned_ucast_eq take_bit_eq_mod)
  have lt: "(of_nat (length f) :: u32) < 1522" using assms(6)
    by (simp add: word_less_nat_alt unat_of_nat take_bit_eq_mod)
  have "receive_words rd packet d = do {
      (packet, d) \<leftarrow> read_words rd (of_nat (length f)) 0 packet d2;
      Some (of_nat (length f), packet, d)
    }"
    using d1(1) d2(1) u u' lt good_status [OF assms(4)]
    by (simp add: receive_words_def l Let_def)
  then show ?thesis using d2(2,3) by blast
qed

lemma receive_frame_ok:
  assumes "idle d" "\<not> byte_mode (chip d)" "rx_mem (chip d) = frame_mem st f pad @ rest"
    and "st AND 0xBF = 0" "length pad = length f mod 2" "length f < 1522" "length (f @ pad) \<le> length packet"
  shows "\<exists>d' g. dm9000x_receivepacket ltr rd wr mac packet maxlen d =
      Some (of_nat (length f), (f @ pad) @ drop (length (f @ pad)) packet, d') \<and> idle d' \<and>
    chip d' = (chip d)\<lparr>nregs := g, rx_mem := rest\<rparr>"
proof -
  have "rx_byte (chip d) 0 = 0x01" by (simp add: rx_byte_def assms(3) frame_mem_def)
  from receive_starts [OF assms(1) this, of ltr mac packet maxlen] assms(2) obtain d1 g where
    d1: "dm9000x_receivepacket ltr rd wr mac packet maxlen d = receive_words rd packet d1" "idle d1"
      "chip d1 = (chip d)\<lparr>nregs := g\<rparr>" by auto
  have "\<not> byte_mode (chip d1)" "rx_mem (chip d1) = frame_mem st f pad @ rest" using assms(2,3) d1(3) by simp_all
  from receive_words_ok [OF d1(2) this assms(4-6)] obtain d2 where
    d2: "idle d2" "chip d2 = (chip d1)\<lparr>rx_mem := f @ pad @ rest\<rparr>"
      "receive_words rd packet d1 = do {
        (packet, d) \<leftarrow> read_words rd (of_nat (length f)) 0 packet d2;
        Some (of_nat (length f), packet, d)
      }" by blast
  have n: "unat (of_nat (length f) :: u32) = length f" using assms(6) by (simp add: unat_of_nat take_bit_eq_mod)
  have "even (length (f @ pad))" using assms(5) by simp
  moreover have "length (f @ pad) \<le> length f + 1" using assms(5) by simp
  ultimately have "\<exists>d'. read_words rd (of_nat (length f)) 0 packet d2 =
      Some ((f @ pad) @ drop (length (f @ pad)) packet, d') \<and> idle d' \<and> chip d' = (chip d2)\<lparr>rx_mem := rest\<rparr>"
    using assms(2,5,6,7) d1(3) d2(2) n by (intro read_words_ok [OF d2(1)]) simp_all
  then show ?thesis unfolding d1(1) d2(3) by (auto simp: d2(2) d1(3))
qed

lemma receive_frame_fails:
  assumes "idle d" "\<not> byte_mode (chip d)" "rx_mem (chip d) = frame_mem st f pad @ rest"
    and "st AND 0xBF = 0" "length pad = length f mod 2" "length f < 1522" "length packet < length f"
  shows "dm9000x_receivepacket ltr rd wr mac packet maxlen d = None"
proof -
  have "rx_byte (chip d) 0 = 0x01" by (simp add: rx_byte_def assms(3) frame_mem_def)
  from receive_starts [OF assms(1) this, of ltr mac packet maxlen] assms(2) obtain d1 g where
    d1: "dm9000x_receivepacket ltr rd wr mac packet maxlen d = receive_words rd packet d1" "idle d1"
      "chip d1 = (chip d)\<lparr>nregs := g\<rparr>" by auto
  have "\<not> byte_mode (chip d1)" "rx_mem (chip d1) = frame_mem st f pad @ rest" using assms(2,3) d1(3) by simp_all
  from receive_words_ok [OF d1(2) this assms(4-6), of packet] obtain d2 where
    d2: "idle d2" "\<not> byte_mode (chip d2)"
      "receive_words rd packet d1 = do {
        (packet, d) \<leftarrow> read_words rd (of_nat (length f)) 0 packet d2;
        Some (of_nat (length f), packet, d)
      }" using assms(2) d1(3) by auto
  have n: "unat (of_nat (length f) :: u32) = length f" using assms(6) by (simp add: unat_of_nat take_bit_eq_mod)
  have "read_words rd (of_nat (length f)) 0 packet d2 = None"
    using assms(6,7) n by (intro read_words_fail [OF d2(1,2)]) simp_all
  then show ?thesis unfolding d1(1) d2(3) by simp
qed

end

section \<open>The device behind the pins\<close>

text \<open>
  What the chip sees of the pins: a write is the end of a low level of \<open>IOW\<close> while \<open>CS\<close> is low, a read the
  beginning of a low level of \<open>IOR\<close> while \<open>CS\<close> is low; \<open>CMD\<close> tells the register number from its contents.
  \<open>contended\<close> becomes true when the chip and the processor drive the data lines at the same time.
\<close>

record device =
  cmd :: bool
  cs :: bool
  iow_pin :: bool
  ior_pin :: bool
  out_mode :: bool
  port_value :: u16
  driven :: u16
  sampled :: u16
  contended :: bool
  reg_no :: u8
  core :: nic

definition port_write :: "device \<Rightarrow> device" where
  "port_write d =
     (if cmd d then d\<lparr>core := reg_write (reg_no d) (port_value d) (core d)\<rparr> else d\<lparr>reg_no := ucast (port_value d)\<rparr>)"

definition port_read :: "device \<Rightarrow> device" where
  "port_read d =
     (if cmd d then (case reg_read (reg_no d) (core d) of (v, n) \<Rightarrow> d\<lparr>driven := v, core := n\<rparr>)
      else d\<lparr>driven := ucast (reg_no d)\<rparr>)"

definition writing :: "device \<Rightarrow> bool" where "writing d \<longleftrightarrow> \<not> cs d \<and> \<not> iow_pin d"
definition reading :: "device \<Rightarrow> bool" where "reading d \<longleftrightarrow> \<not> cs d \<and> \<not> ior_pin d"

fun set_pin :: "nic_pin \<Rightarrow> bool \<Rightarrow> device \<Rightarrow> device" where
  "set_pin CMD b d = d\<lparr>cmd := b\<rparr>"
| "set_pin CS b d = d\<lparr>cs := b\<rparr>"
| "set_pin IOW b d = d\<lparr>iow_pin := b\<rparr>"
| "set_pin IOR b d = d\<lparr>ior_pin := b\<rparr>"

definition clash :: "device \<Rightarrow> device" where
  "clash d = (if reading d \<and> out_mode d then d\<lparr>contended := True\<rparr> else d)"

fun device_step :: "nic_act \<Rightarrow> device \<Rightarrow> device" where
  "device_step (Pin p b) d =
     (let e = set_pin p b d;
          e = (if writing d \<and> \<not> writing e then port_write e else e);
          e = (if \<not> reading d \<and> reading e then port_read e else e)
      in clash e)"
| "device_step (DataMode b) d = clash (d\<lparr>out_mode := b\<rparr>)"
| "device_step (DataOut v) d = d\<lparr>port_value := v\<rparr>"
| "device_step Sample d = d\<lparr>sampled := driven d\<rparr>"

definition run_pins :: "nic_act list \<Rightarrow> device \<Rightarrow> device" where
  "run_pins as d = foldl (\<lambda>d a. device_step a d) d as"

text \<open>The two accesses of the driver on this device, and the state of the pins between them.\<close>

definition rd_pins :: "device nrd" where
  "rd_pins d reg = (let d = run_pins (ior reg) d in (sampled d, d))"

definition wr_pins :: "device nwr" where
  "wr_pins d reg v = run_pins (iow reg v) d"

definition idle_pins :: "device \<Rightarrow> bool" where
  "idle_pins d \<longleftrightarrow> cs d \<and> iow_pin d"

text \<open>The steps that occur.\<close>

lemma device_steps:
  "device_step (DataOut v) d = d\<lparr>port_value := v\<rparr>"
  "device_step Sample d = d\<lparr>sampled := driven d\<rparr>"
  "cs d \<Longrightarrow> device_step (DataMode b) d = d\<lparr>out_mode := b\<rparr>"
  "cs d \<Longrightarrow> device_step (Pin CMD b) d = d\<lparr>cmd := b\<rparr>"
  "cs d \<Longrightarrow> iow_pin d \<Longrightarrow> ior_pin d \<Longrightarrow> device_step (Pin CS False) d = d\<lparr>cs := False\<rparr>"
  "cs d \<Longrightarrow> iow_pin d \<Longrightarrow> \<not> ior_pin d \<Longrightarrow> device_step (Pin CS False) d = clash (port_read (d\<lparr>cs := False\<rparr>))"
  "\<not> cs d \<Longrightarrow> iow_pin d \<Longrightarrow> device_step (Pin IOR True) d = d\<lparr>ior_pin := True\<rparr>"
  "\<not> cs d \<Longrightarrow> iow_pin d \<Longrightarrow> ior_pin d \<Longrightarrow> device_step (Pin IOR False) d = clash (port_read (d\<lparr>ior_pin := False\<rparr>))"
  "\<not> cs d \<Longrightarrow> ior_pin d \<Longrightarrow> device_step (Pin IOW False) d = d\<lparr>iow_pin := False\<rparr>"
  "\<not> cs d \<Longrightarrow> ior_pin d \<Longrightarrow> \<not> iow_pin d \<Longrightarrow> device_step (Pin IOW True) d = port_write (d\<lparr>iow_pin := True\<rparr>)"
  "\<not> cs d \<Longrightarrow> iow_pin d \<Longrightarrow> device_step (Pin IOW True) d = clash d"
  "iow_pin d \<Longrightarrow> device_step (Pin CS True) d = d\<lparr>cs := True\<rparr>"
  by (simp_all add: device_step.simps writing_def reading_def clash_def port_write_def port_read_def Let_def split: prod.splits)

declare device_step.simps [simp del]

lemma run_pins_simps [simp]:
  "run_pins [] d = d" "run_pins (a # as) d = run_pins as (device_step a d)"
  "run_pins (as @ bs) d = run_pins bs (run_pins as d)"
  by (simp_all add: run_pins_def)

lemma clash_simps [simp]:
  "cmd (clash d) = cmd d" "cs (clash d) = cs d" "iow_pin (clash d) = iow_pin d" "ior_pin (clash d) = ior_pin d"
  "out_mode (clash d) = out_mode d" "port_value (clash d) = port_value d" "driven (clash d) = driven d"
  "sampled (clash d) = sampled d" "reg_no (clash d) = reg_no d" "core (clash d) = core d"
  by (simp_all add: clash_def)

lemma port_simps [simp]:
  "cs (port_read d) = cs d" "iow_pin (port_read d) = iow_pin d" "ior_pin (port_read d) = ior_pin d"
  "reg_no (port_read d) = reg_no d" "cs (port_write d) = cs d" "iow_pin (port_write d) = iow_pin d"
  "ior_pin (port_write d) = ior_pin d" "port_value (port_read d) = port_value d"
  by (simp_all add: port_read_def port_write_def split: prod.splits)


lemma out_high:
  assumes "cs d" "iow_pin d" "ior_pin d"
  shows "run_pins (dm9000_out_byte v r) d =
    (port_write (d\<lparr>out_mode := True, port_value := v, cmd := r, cs := False, ior_pin := True, iow_pin := True\<rparr>))\<lparr>cs := True\<rparr>"
  using assms unfolding dm9000_out_byte_def by (simp add: device_steps)

lemma out_index_low:
  assumes "cs d" "iow_pin d" "\<not> ior_pin d"
  shows "run_pins (dm9000_out_byte v False) d =
    d\<lparr>out_mode := True, port_value := v, cmd := False, driven := ucast (reg_no d), contended := True, ior_pin := True, reg_no := ucast v\<rparr>"
proof -
  have "run_pins [DataMode True, DataOut v, Pin CMD False, Pin CS False] d =
    d\<lparr>out_mode := True, port_value := v, cmd := False, cs := False, driven := ucast (reg_no d), contended := True\<rparr>"
    using assms by (simp add: device_steps port_read_def clash_def reading_def)
  then have "run_pins (dm9000_out_byte v False) d =
    run_pins [Pin IOR True, Pin IOW False, Pin IOW True, Pin CS True] (d\<lparr>out_mode := True, port_value := v, cmd := False,
      cs := False, driven := ucast (reg_no d), contended := True\<rparr>)"
    by (simp add: dm9000_out_byte_def)
  also have "\<dots> = d\<lparr>out_mode := True, port_value := v, cmd := False, driven := ucast (reg_no d), contended := True,
      ior_pin := True, reg_no := ucast v\<rparr>"
    using assms by (simp add: device_steps port_write_def)
  finally show ?thesis .
qed

text \<open>After an access of the index port every strobe is high, wherever the last access left IOR.\<close>

lemma out_index:
  assumes "idle_pins d"
  obtains e where "run_pins (dm9000_out_byte v False) d = e" "cs e" "iow_pin e" "ior_pin e" "out_mode e"
    "reg_no e = ucast v" "core e = core d" "contended e \<longleftrightarrow> contended d \<or> \<not> ior_pin d"
proof (cases "ior_pin d")
  case True
  with assms show ?thesis
    by (intro that [of "run_pins (dm9000_out_byte v False) d"]) (simp_all add: out_high idle_pins_def port_write_def)
next
  case False
  with assms show ?thesis
    by (intro that [of "run_pins (dm9000_out_byte v False) d"]) (simp_all add: out_index_low idle_pins_def)
qed

lemma in_data:
  assumes "cs e" "iow_pin e" "ior_pin e"
  shows "run_pins (dm9000_in_byte True) e = (case reg_read (reg_no e) (core e) of (v, n) \<Rightarrow>
    e\<lparr>out_mode := False, cmd := True, ior_pin := False, driven := v, sampled := v, core := n\<rparr>)"
proof -
  obtain v n where vn: "reg_read (reg_no e) (core e) = (v, n)" by fastforce
  have "run_pins [DataMode False, Pin CMD True, Pin CS False, Pin IOR False] e =
    e\<lparr>out_mode := False, cmd := True, cs := False, ior_pin := False, driven := v, core := n\<rparr>"
    using assms by (simp add: device_steps port_read_def clash_def vn)
  then have "run_pins (dm9000_in_byte True) e = run_pins [Pin IOW True, Sample, Pin IOW True, Pin CS True]
    (e\<lparr>out_mode := False, cmd := True, cs := False, ior_pin := False, driven := v, core := n\<rparr>)"
    by (simp add: dm9000_in_byte_def)
  also have "\<dots> = e\<lparr>out_mode := False, cmd := True, ior_pin := False, driven := v, sampled := v, core := n\<rparr>"
    using assms by (simp add: device_steps clash_def)
  finally show ?thesis by (simp add: vn)
qed

text \<open>So a read of the driver reads the register it names, and leaves IOR low.\<close>

lemma run_ior:
  assumes "idle_pins d"
  shows "idle_pins (run_pins (ior r) d)" "\<not> ior_pin (run_pins (ior r) d)"
    "(sampled (run_pins (ior r) d), core (run_pins (ior r) d)) = reg_read (ucast r) (core d)"
    "contended (run_pins (ior r) d) \<longleftrightarrow> contended d \<or> \<not> ior_pin d"
proof -
  from assms obtain e where e: "run_pins (dm9000_out_byte r False) d = e" "cs e" "iow_pin e" "ior_pin e"
    "reg_no e = ucast r" "core e = core d" "contended e \<longleftrightarrow> contended d \<or> \<not> ior_pin d"
    by (rule out_index)
  obtain v n where vn: "reg_read (ucast r) (core d) = (v, n)" by fastforce
  have run: "run_pins (ior r) d =
      e\<lparr>out_mode := False, cmd := True, ior_pin := False, driven := v, sampled := v, core := n\<rparr>"
    using e vn by (simp add: ior_def DM9000_INDEX_def DM9000_DATA_def in_data)
  show "idle_pins (run_pins (ior r) d)" "\<not> ior_pin (run_pins (ior r) d)"
    "(sampled (run_pins (ior r) d), core (run_pins (ior r) d)) = reg_read (ucast r) (core d)"
    "contended (run_pins (ior r) d) \<longleftrightarrow> contended d \<or> \<not> ior_pin d"
    using e vn by (simp_all add: run idle_pins_def)
qed

lemma run_iow:
  assumes "idle_pins d"
  shows "idle_pins (run_pins (iow r v) d)" "ior_pin (run_pins (iow r v) d)"
    "core (run_pins (iow r v) d) = reg_write (ucast r) v (core d)"
    "contended (run_pins (iow r v) d) \<longleftrightarrow> contended d \<or> \<not> ior_pin d"
proof -
  from assms obtain e where e: "run_pins (dm9000_out_byte r False) d = e" "cs e" "iow_pin e" "ior_pin e"
    "reg_no e = ucast r" "core e = core d" "contended e \<longleftrightarrow> contended d \<or> \<not> ior_pin d"
    by (rule out_index)
  have run: "run_pins (iow r v) d =
      (port_write (e\<lparr>out_mode := True, port_value := v, cmd := True, cs := False, ior_pin := True, iow_pin := True\<rparr>))\<lparr>cs := True\<rparr>"
    using e by (simp add: iow_def DM9000_INDEX_def DM9000_DATA_def out_high)
  show "idle_pins (run_pins (iow r v) d)" "ior_pin (run_pins (iow r v) d)"
    "core (run_pins (iow r v) d) = reg_write (ucast r) v (core d)"
    "contended (run_pins (iow r v) d) \<longleftrightarrow> contended d \<or> \<not> ior_pin d"
    using e by (simp_all add: run idle_pins_def port_write_def)
qed

interpretation nic: nic_port rd_pins wr_pins idle_pins core
  by unfold_locales (simp_all add: rd_pins_def wr_pins_def Let_def run_ior run_iow)

section \<open>The driver on the pins\<close>

text \<open>A device to try the driver on: word mode, nothing sent, \<open>rx\<close> in the receive memory, IOR low as a read leaves it.\<close>

definition nic_demo :: "u8 list \<Rightarrow> device" where
  "nic_demo rx =
     \<lparr>cmd = False, cs = True, iow_pin = True, ior_pin = False, out_mode = False, port_value = 0, driven = 0,
      sampled = 0, contended = False, reg_no = 0,
      core = \<lparr>nregs = (\<lambda>_. 0), byte_mode = False, upper = 0xFF, tx_mem = [], sent = [], latency = 1, busy = 0,
              rx_mem = rx\<rparr>\<rparr>"

text \<open>
  Claim C35.  On the pins, \<open>ior(reg)\<close> reads the register that it names and \<open>iow(reg, v)\<close> writes it, from any state
  that either leaves the pins in; a read leaves IOR low, which makes the next access of either kind begin
  with the processor and the chip driving the data lines at the same time.\<close>

theorem nic_accesses:
  assumes "idle_pins d"
  shows "(sampled (run_pins (ior r) d), core (run_pins (ior r) d)) = reg_read (ucast r) (core d) \<and>
    core (run_pins (iow r v) d) = reg_write (ucast r) v (core d) \<and>
    idle_pins (run_pins (ior r) d) \<and> idle_pins (run_pins (iow r v) d) \<and>
    contended (run_pins (iow r v) (run_pins (ior q) d)) \<and> contended (run_pins (ior r) (run_pins (ior q) d))"
  using assms by (simp add: run_ior run_iow)

theorem nic_accesses_witness:
  "core (run_pins (iow 0xFE 0x01) (nic_demo [])) = reg_write 0xFE 0x01 (core (nic_demo []))"
proof -
  have "idle_pins (nic_demo [])" by (simp add: idle_pins_def nic_demo_def)
  from nic_accesses [OF this, of "0xFE" "0x01"] show ?thesis by simp
qed

text \<open>
  In word mode the loop over a packet of 65535 bytes does not end: the index, 16 bits wide, goes from 65534 to 0.
\<close>

lemma send_words_endless: "send_words wr packet n i d = Some r \<Longrightarrow> n = - 1 \<Longrightarrow> odd (unat i)"
proof (induction rule: send_words.raw_induct [rotated, consumes 1, case_names body])
  case (body f wr packet n i d r)
  show ?case
  proof (rule ccontr)
    assume e: "\<not> odd (unat i)"
    have "i \<noteq> - 1"
    proof
      assume "i = - 1"
      then have "unat i = 65535" by (simp add: unsigned_minus_1_eq_mask mask_eq_exp_minus_1)
      then show False using e by simp
    qed
    then have "i < n" using body(3) by (simp add: word_order.not_eq_extremum)
    with body(2) obtain d' where "f wr packet n (i + 2) d' = Some r" by (auto split: Option.bind_splits)
    from body(1) [OF this body(3)] e show False by (simp add: unat_word_ariths dvd_mod_iff)
  qed
qed

theorem nic_send_endless:
  assumes "idle_pins d" "\<not> byte_mode (core d)" "65536 \<le> length packet"
  shows "dm9000x_sendpacket rd_pins wr_pins packet (- 1) d = None"
proof -
  let ?d1 = "wr_pins d DM9000_IMR 0x80"
  from nic.isr_ok [OF nic.wr_idle [OF assms(1)], of DM9000_IMR "0x80"] obtain v d' where
    v: "rd_pins ?d1 DM9000_ISR = (v, d')" "drop_bit 7 v AND 1 = 1 \<longleftrightarrow> byte_mode (core ?d1)" by blast
  have "byte_mode (core ?d1) = byte_mode (core d)"
    by (simp add: nic.wr_reg [OF assms(1)] reg_write_def)
  then have "drop_bit 7 v AND 1 \<noteq> 1" using v(2) assms(2) by simp
  moreover have "send_words wr_pins packet (- 1) 0 d' = None"
    using send_words_endless [of wr_pins packet "- 1" 0 d'] by (cases "send_words wr_pins packet (- 1) 0 d'") auto
  ultimately show ?thesis using v(1) by (simp add: dm9000x_sendpacket_def)
qed

theorem nic_send_endless_witness:
  "dm9000x_sendpacket rd_pins wr_pins (replicate 65536 0) (- 1) (nic_demo []) = None"
  by (rule nic_send_endless) (simp_all add: idle_pins_def nic_demo_def)

text \<open>
  Claim C34.  \<open>dm9000x_sendpacket\<close> returns, and what the chip has then put on the wire is one frame more, the first
  \<open>len\<close> bytes of the packet, in byte mode and in word mode, for every length but 65535 in word mode (for that one the
  loop never ends: \<open>nic_send_endless\<close>).  The packet has \<open>len\<close> bytes, in word mode one readable byte more behind
  it when \<open>len\<close> is odd; the pins are idle and the transmit memory is empty, as the call leaves them; and the chip
  finishes each transmission after some number of reads of its status.\<close>

theorem nic_sends_packet:
  assumes "idle_pins d" "tx_mem (core d) = []" "byte_mode (core d) \<or> len \<noteq> - 1"
    and "unat len + (if byte_mode (core d) then 0 else unat len mod 2) \<le> length packet"
  shows "\<exists>d'. dm9000x_sendpacket rd_pins wr_pins packet len d = Some d' \<and> idle_pins d' \<and>
    sent (core d') = sent (core d) @ [take (unat len) packet] \<and> tx_mem (core d') = [] \<and> rx_mem (core d') = rx_mem (core d)"
proof -
  have "unat len < 65535" if "len \<noteq> - 1"
  proof -
    from that have "len < - 1" by (simp add: word_order.not_eq_extremum)
    then show ?thesis by (simp add: word_less_nat_alt unsigned_minus_1_eq_mask mask_eq_exp_minus_1)
  qed
  with assms(3) have "byte_mode (core d) \<or> unat len < 65535" by blast
  from nic.sendpacket_ok [OF assms(1,2) this assms(4)] obtain d' g where
    "dm9000x_sendpacket rd_pins wr_pins packet len d = Some d'" "idle_pins d'"
    "core d' = (core d)\<lparr>nregs := g, sent := sent (core d) @ [take (unat len) packet], busy := 0\<rparr>" by blast
  then show ?thesis using assms(2) by simp
qed

theorem nic_sends_packet_witness:
  "\<exists>d'. dm9000x_sendpacket rd_pins wr_pins [1, 2, 3, 4] 3 (nic_demo []) = Some d' \<and> sent (core d') = [[1, 2, 3]]"
  using nic_sends_packet [of "nic_demo []" 3 "[1, 2, 3, 4]"]
  by (auto simp: idle_pins_def nic_demo_def)

text \<open>
  In word mode \<open>dm9000x_receivepacket\<close> takes the frame that waits first out of the chip: its
  result is the length of the frame, its bytes are at the start of the buffer, and the receive memory goes on with the
  next frame.\<close>

theorem nic_receives_frame:
  assumes "idle_pins d" "\<not> byte_mode (core d)" "rx_mem (core d) = frame_mem st f pad @ rest"
    and "st AND 0xBF = 0" "length pad = length f mod 2" "length f < 1522" "length (f @ pad) \<le> length packet"
  shows "\<exists>d'. dm9000x_receivepacket ltr rd_pins wr_pins mac packet maxlen d =
      Some (of_nat (length f), (f @ pad) @ drop (length (f @ pad)) packet, d') \<and> idle_pins d' \<and>
    rx_mem (core d') = rest \<and> sent (core d') = sent (core d)"
proof -
  from nic.receive_frame_ok [OF assms, of ltr mac maxlen] obtain d' g where
    "dm9000x_receivepacket ltr rd_pins wr_pins mac packet maxlen d =
      Some (of_nat (length f), (f @ pad) @ drop (length (f @ pad)) packet, d')" "idle_pins d'"
    "core d' = (core d)\<lparr>nregs := g, rx_mem := rest\<rparr>" by blast
  then show ?thesis by simp
qed

theorem nic_receives_frame_witness:
  "\<exists>d'. dm9000x_receivepacket True rd_pins wr_pins [] [0, 0, 0, 0, 0] 5 (nic_demo (frame_mem 0x40 [7, 8, 9] [0])) =
    Some (3, [7, 8, 9, 0, 0], d') \<and> rx_mem (core d') = []"
  using nic_receives_frame [of "nic_demo (frame_mem 0x40 [7, 8, 9] [0])" "0x40" "[7, 8, 9]" "[0]" "[]"
      "[0, 0, 0, 0, 0]" True "[]" 5]
  by (auto simp: idle_pins_def nic_demo_def)

text \<open>
  The size of the buffer, \<open>maxlen\<close>, is not looked at: a frame of up to 1521 bytes that is longer than the
  buffer is accepted and written past its end.\<close>

theorem nic_overruns_buffer:
  assumes "idle_pins d" "\<not> byte_mode (core d)" "rx_mem (core d) = frame_mem st f pad @ rest"
    and "st AND 0xBF = 0" "length pad = length f mod 2" "length f < 1522" "length packet < length f"
  shows "dm9000x_receivepacket ltr rd_pins wr_pins mac packet maxlen d = None"
  using assms by (rule nic.receive_frame_fails)

theorem nic_overruns_buffer_witness:
  "dm9000x_receivepacket True rd_pins wr_pins [] (replicate 1516 0) 1516
     (nic_demo (frame_mem 0x40 (replicate 1518 5) [])) = None"
  by (rule nic_overruns_buffer [of _ "0x40" "replicate 1518 5" "[]" "[]"])
    (simp_all add: idle_pins_def nic_demo_def)

end
