(* ===== verification/Lwip_Mem.thy ===== *)
theory Lwip_Mem
  imports Prelude
begin

text \<open>
  The heap of the TCP/IP stack (\<open>Lwip-1.3.2/src/core/mem.c\<close>), as \<open>lwipopts.h\<close> configures it: 4096 bytes, from
  which the pools of \<open>memp.c\<close> are served too, and no assertions.

  The heap is cut into blocks that each start with a \<open>struct mem\<close>; a pointer into it is its offset from \<open>ram\<close>.
  \<open>None\<close> as the result of a function is undefined behaviour or a loop that does not end.  The semaphore
  around the operations and the statistics are left out.
\<close>

section \<open>State\<close>

definition MEM_ALIGNMENT :: u16 where [prog_defs]: "MEM_ALIGNMENT = 4"

definition LWIP_MEM_ALIGN_SIZE :: "u16 \<Rightarrow> u16" where
  "LWIP_MEM_ALIGN_SIZE n = (n + MEM_ALIGNMENT - 1) AND NOT (MEM_ALIGNMENT - 1)"

text \<open>The struct has two 16-bit offsets and a byte.\<close>

definition SIZEOF_STRUCT_MEM :: u16 where [prog_defs]: "SIZEOF_STRUCT_MEM = LWIP_MEM_ALIGN_SIZE 6"
definition MIN_SIZE_ALIGNED :: u16 where [prog_defs]: "MIN_SIZE_ALIGNED = LWIP_MEM_ALIGN_SIZE 12"
definition MEM_SIZE_ALIGNED :: u16 where [prog_defs]: "MEM_SIZE_ALIGNED = LWIP_MEM_ALIGN_SIZE (4 * 1024)"

record lwip_heap =
  mem_next :: "u16 \<Rightarrow> u16"
  mem_prev :: "u16 \<Rightarrow> u16"
  mem_used :: "u16 \<Rightarrow> bool"
  lfree :: u16

definition set_mem_next :: "u16 \<Rightarrow> u16 \<Rightarrow> lwip_heap \<Rightarrow> lwip_heap" where
  "set_mem_next p v h = h\<lparr>mem_next := (mem_next h)(p := v)\<rparr>"
definition set_mem_prev :: "u16 \<Rightarrow> u16 \<Rightarrow> lwip_heap \<Rightarrow> lwip_heap" where
  "set_mem_prev p v h = h\<lparr>mem_prev := (mem_prev h)(p := v)\<rparr>"
definition set_mem_used :: "u16 \<Rightarrow> bool \<Rightarrow> lwip_heap \<Rightarrow> lwip_heap" where
  "set_mem_used p v h = h\<lparr>mem_used := (mem_used h)(p := v)\<rparr>"

section \<open>Operations\<close>

definition mem_init :: "lwip_heap \<Rightarrow> lwip_heap" where
  "mem_init h =
     (let h = set_mem_next 0 MEM_SIZE_ALIGNED h;
          h = set_mem_prev 0 0 h;
          h = set_mem_used 0 False h;
          h = set_mem_used MEM_SIZE_ALIGNED True h;
          h = set_mem_next MEM_SIZE_ALIGNED MEM_SIZE_ALIGNED h;
          h = set_mem_prev MEM_SIZE_ALIGNED MEM_SIZE_ALIGNED h
      in h\<lparr>lfree := 0\<rparr>)"

definition plug_forward :: "u16 \<Rightarrow> lwip_heap \<Rightarrow> lwip_heap" where
  "plug_forward mem h =
     (let nmem = mem_next h mem in
      if mem \<noteq> nmem \<and> \<not> mem_used h nmem \<and> nmem \<noteq> MEM_SIZE_ALIGNED then
        let h = (if lfree h = nmem then h\<lparr>lfree := mem\<rparr> else h);
            h = set_mem_next mem (mem_next h nmem) h
        in set_mem_prev (mem_next h nmem) mem h
      else h)"

definition plug_backward :: "u16 \<Rightarrow> lwip_heap \<Rightarrow> lwip_heap" where
  "plug_backward mem h =
     (let pmem = mem_prev h mem in
      if pmem \<noteq> mem \<and> \<not> mem_used h pmem then
        let h = (if lfree h = mem then h\<lparr>lfree := pmem\<rparr> else h);
            h = set_mem_next pmem (mem_next h mem) h
        in set_mem_prev (mem_next h mem) pmem h
      else h)"

definition plug_holes :: "u16 \<Rightarrow> lwip_heap \<Rightarrow> lwip_heap" where
  "plug_holes mem h = plug_backward mem (plug_forward mem h)"

definition mem_free :: "u16 option \<Rightarrow> lwip_heap \<Rightarrow> lwip_heap option" where
  "mem_free rmem h = (case rmem of
     None \<Rightarrow> Some h
   | Some rmem \<Rightarrow>
       if rmem \<ge> MEM_SIZE_ALIGNED then Some h
       else if rmem < SIZEOF_STRUCT_MEM then None
       else
         let mem = rmem - SIZEOF_STRUCT_MEM;
             h = set_mem_used mem False h;
             h = (if mem < lfree h then h\<lparr>lfree := mem\<rparr> else h)
         in Some (plug_holes mem h))"

text \<open>The size that is asked for, made a size of a block.\<close>

definition block_size :: "u16 \<Rightarrow> u16" where
  "block_size n = (let n = LWIP_MEM_ALIGN_SIZE n in if n < MIN_SIZE_ALIGNED then MIN_SIZE_ALIGNED else n)"

text \<open>The link from a block to a new one at \<open>ptr2\<close> inside it.\<close>

definition put_after :: "u16 \<Rightarrow> u16 \<Rightarrow> u16 \<Rightarrow> lwip_heap \<Rightarrow> lwip_heap" where
  "put_after mem ptr2 nx h =
     (let h = set_mem_used ptr2 False h;
          h = set_mem_next ptr2 nx h;
          h = set_mem_prev ptr2 mem h;
          h = set_mem_next mem ptr2 h
      in if nx \<noteq> MEM_SIZE_ALIGNED then set_mem_prev nx ptr2 h else h)"

definition mem_realloc :: "u16 \<Rightarrow> u16 \<Rightarrow> lwip_heap \<Rightarrow> (u16 option \<times> lwip_heap) option" where
  "mem_realloc rmem newsize h =
     (let newsize = block_size newsize in
      if newsize > MEM_SIZE_ALIGNED then Some (None, h)
      else if rmem \<ge> MEM_SIZE_ALIGNED then Some (Some rmem, h)
      else if rmem < SIZEOF_STRUCT_MEM then None
      else
        let ptr = rmem - SIZEOF_STRUCT_MEM;
            sz = mem_next h ptr - ptr - SIZEOF_STRUCT_MEM;
            ptr2 = ptr + SIZEOF_STRUCT_MEM + newsize;
            mem2 = mem_next h ptr
        in if newsize > sz then Some (None, h)
        else if newsize = sz then Some (Some rmem, h)
        else if \<not> mem_used h mem2 then
          let nx = mem_next h mem2;
              h = (if lfree h = mem2 then h\<lparr>lfree := ptr2\<rparr> else h)
          in Some (Some rmem, put_after ptr ptr2 nx h)
        else if (ucast newsize :: u32) + ucast SIZEOF_STRUCT_MEM + ucast MIN_SIZE_ALIGNED \<le> ucast sz then
          let h = (if ptr2 < lfree h then h\<lparr>lfree := ptr2\<rparr> else h)
          in Some (Some rmem, put_after ptr ptr2 mem2 h)
        else Some (Some rmem, h))"

text \<open>The size of a block without its struct: the code computes it in 32 bits without sign.\<close>

definition user_size :: "lwip_heap \<Rightarrow> u16 \<Rightarrow> u32" where
  "user_size h ptr = ucast (mem_next h ptr) - (ucast ptr + ucast SIZEOF_STRUCT_MEM)"

partial_function (option) mem_scan :: "lwip_heap \<Rightarrow> u16 \<Rightarrow> u16 \<Rightarrow> u16 option option" where
  [code]: "mem_scan h sz ptr =
     (if unat ptr < unat MEM_SIZE_ALIGNED - unat sz then
        if \<not> mem_used h ptr \<and> user_size h ptr \<ge> ucast sz then Some (Some ptr)
        else mem_scan h sz (mem_next h ptr)
      else Some None)"

partial_function (option) next_free :: "lwip_heap \<Rightarrow> u16 \<Rightarrow> u16 option" where
  [code]: "next_free h p =
     (if mem_used h p \<and> p \<noteq> MEM_SIZE_ALIGNED then next_free h (mem_next h p) else Some p)"

definition take_mem :: "u16 \<Rightarrow> u16 \<Rightarrow> lwip_heap \<Rightarrow> lwip_heap" where
  "take_mem sz ptr h =
     (if user_size h ptr \<ge> ucast sz + ucast SIZEOF_STRUCT_MEM + ucast MIN_SIZE_ALIGNED
      then set_mem_used ptr True (put_after ptr (ptr + SIZEOF_STRUCT_MEM + sz) (mem_next h ptr) h)
      else set_mem_used ptr True h)"

definition mem_malloc :: "u16 \<Rightarrow> lwip_heap \<Rightarrow> (u16 option \<times> lwip_heap) option" where
  "mem_malloc sz h =
     (let n = block_size sz in
      if sz = 0 \<or> n > MEM_SIZE_ALIGNED then Some (None, h)
      else do {
        r \<leftarrow> mem_scan h n (lfree h);
        case r of
          None \<Rightarrow> Some (None, h)
        | Some ptr \<Rightarrow> do {
            let h = take_mem n ptr h;
            l \<leftarrow> (if ptr = lfree h then next_free h (lfree h) else Some (lfree h));
            Some (Some (ptr + SIZEOF_STRUCT_MEM), h\<lparr>lfree := l\<rparr>)
          }
      })"

text \<open>\<open>mem_calloc\<close> with the number of bytes that it then sets to zero.\<close>

definition mem_calloc :: "u16 \<Rightarrow> u16 \<Rightarrow> lwip_heap \<Rightarrow> ((u16 \<times> nat) option \<times> lwip_heap) option" where
  "mem_calloc count sz h = do {
     (r, h) \<leftarrow> mem_malloc (count * sz) h;
     Some (map_option (\<lambda>p. (p, unat count * unat sz)) r, h)
   }"

section \<open>The blocks\<close>

text \<open>
  What the heap stands for: the sizes of its blocks, struct included, in the order of their addresses, and whether each
  is in use.
\<close>

type_synonym blocks = "(nat \<times> bool) list"

definition at :: "nat \<Rightarrow> u16" where "at p = of_nat p"

definition total :: "blocks \<Rightarrow> nat" where "total bl = sum_list (map fst bl)"

fun layout :: "lwip_heap \<Rightarrow> nat \<Rightarrow> nat \<Rightarrow> blocks \<Rightarrow> bool" where
  "layout h prev p [] \<longleftrightarrow> True"
| "layout h prev p ((n, u) # bl) \<longleftrightarrow> 20 \<le> n \<and> 4 dvd n \<and> mem_used h (at p) = u \<and> mem_prev h (at p) = at prev \<and>
     mem_next h (at p) = at (p + n) \<and> layout h p (p + n) bl"

fun first_free :: "nat \<Rightarrow> blocks \<Rightarrow> nat" where
  "first_free p [] = p"
| "first_free p ((n, u) # bl) = (if u then first_free (p + n) bl else p)"

text \<open>No two free blocks are neighbours.\<close>

fun plugged :: "blocks \<Rightarrow> bool" where
  "plugged ((n, u) # (m, v) # bl) \<longleftrightarrow> (u \<or> v) \<and> plugged ((m, v) # bl)"
| "plugged bl \<longleftrightarrow> True"

definition mem_ok :: "lwip_heap \<Rightarrow> blocks \<Rightarrow> bool" where
  "mem_ok h bl \<longleftrightarrow> layout h 0 0 bl \<and> total bl = 4096 \<and> plugged bl \<and> lfree h = at (first_free 0 bl) \<and> mem_used h 4096"

lemma mem_constants [simp]:
  "MEM_SIZE_ALIGNED = 4096" "SIZEOF_STRUCT_MEM = 8" "MIN_SIZE_ALIGNED = 12"
  by (simp_all add: prog_defs LWIP_MEM_ALIGN_SIZE_def)

lemma mem_sel [simp]:
  "mem_next (set_mem_next p v h) = (mem_next h)(p := v)" "mem_prev (set_mem_next p v h) = mem_prev h"
  "mem_used (set_mem_next p v h) = mem_used h" "lfree (set_mem_next p v h) = lfree h"
  "mem_next (set_mem_prev p v h) = mem_next h" "mem_prev (set_mem_prev p v h) = (mem_prev h)(p := v)"
  "mem_used (set_mem_prev p v h) = mem_used h" "lfree (set_mem_prev p v h) = lfree h"
  "mem_next (set_mem_used p u h) = mem_next h" "mem_prev (set_mem_used p u h) = mem_prev h"
  "mem_used (set_mem_used p u h) = (mem_used h)(p := u)" "lfree (set_mem_used p u h) = lfree h"
  by (simp_all add: set_mem_next_def set_mem_prev_def set_mem_used_def)

lemma total_simps [simp]: "total [] = 0" "total (b # bl) = fst b + total bl" "total (us @ vs) = total us + total vs"
  by (simp_all add: total_def)

lemma le_total: "b \<in> set bl \<Longrightarrow> fst b \<le> total bl"
  by (induction bl) auto

lemma unat_at [simp]: "p < 65536 \<Longrightarrow> unat (at p) = p"
  by (simp add: at_def unat_of_nat take_bit_eq_mod)

lemma at_eq [simp]: "p < 65536 \<Longrightarrow> q < 65536 \<Longrightarrow> at p = at q \<longleftrightarrow> p = q"
  by (metis unat_at)

lemma at_less [simp]: "p < 65536 \<Longrightarrow> q < 65536 \<Longrightarrow> at p < at q \<longleftrightarrow> p < q"
  by (simp add: word_less_nat_alt)

lemma at_numbers [simp]: "at 0 = 0" "at 4096 = 4096"
  by (simp_all add: at_def)

lemma at_eq_numbers [simp]:
  "p < 65536 \<Longrightarrow> at p = 4096 \<longleftrightarrow> p = 4096" "p < 65536 \<Longrightarrow> 4096 = at p \<longleftrightarrow> p = 4096"
  "p < 65536 \<Longrightarrow> at p = 0 \<longleftrightarrow> p = 0"
  using at_eq [of p 4096] at_eq [of p 0] by auto

lemma at_plus: "at p + at q = at (p + q)" "at p + 8 = at (p + 8)" "8 \<le> p \<Longrightarrow> at p - 8 = at (p - 8)"
  by (simp_all add: at_def of_nat_diff)

lemma layout_append:
  "layout h prev p (us @ vs) \<longleftrightarrow> layout h prev p us \<and>
     layout h (if us = [] then prev else p + total (butlast us)) (p + total us) vs"
  by (induction h prev p us rule: layout.induct) (auto simp: add.assoc)

lemma layout_sizes: "layout h prev p bl \<Longrightarrow> (n, u) \<in> set bl \<Longrightarrow> 20 \<le> n \<and> 4 dvd n"
  by (induction h prev p bl rule: layout.induct) auto

text \<open>A layout reads the structs of its blocks only, and the first link back only when there is a block.\<close>

lemma layout_tail:
  assumes "layout h prev p bl"
    and "\<And>q. p \<le> q \<Longrightarrow> q < p + total bl \<Longrightarrow> mem_next h' (at q) = mem_next h (at q) \<and> mem_used h' (at q) = mem_used h (at q)"
    and "\<And>q. p < q \<Longrightarrow> q < p + total bl \<Longrightarrow> mem_prev h' (at q) = mem_prev h (at q)"
    and "bl \<noteq> [] \<Longrightarrow> mem_prev h' (at p) = at prev'"
  shows "layout h' prev' p bl"
  using assms
proof (induction bl arbitrary: prev prev' p)
  case (Cons b bl)
  obtain n u where b: "b = (n, u)" by (cases b)
  have l: "20 \<le> n" "layout h p (p + n) bl" using Cons.prems(1) b by auto
  have "layout h' p (p + n) bl"
  proof (rule Cons.IH [OF l(2)])
    assume "bl \<noteq> []"
    then obtain m v bl' where bl: "bl = (m, v) # bl'" by (cases bl) auto
    then have "20 \<le> m" "mem_prev h (at (p + n)) = at p" using l(2) by auto
    then show "mem_prev h' (at (p + n)) = at p" using Cons.prems(3) [of "p + n"] b bl l(1) by simp
  qed (use Cons.prems(2,3) b l(1) in auto)
  then show ?case using Cons.prems(1) Cons.prems(2) [of p] Cons.prems(4) b by simp
qed simp

lemma layout_cong:
  assumes "layout h prev p bl"
    and "\<And>q. p \<le> q \<Longrightarrow> q < p + total bl \<Longrightarrow>
      mem_next h' (at q) = mem_next h (at q) \<and> mem_used h' (at q) = mem_used h (at q) \<and> mem_prev h' (at q) = mem_prev h (at q)"
  shows "layout h' prev p bl"
proof (rule layout_tail [OF assms(1)])
  assume "bl \<noteq> []"
  then obtain n u bl' where "bl = (n, u) # bl'" by (cases bl) auto
  then show "mem_prev h' (at p) = at prev" using assms(1) assms(2) [of p] by simp
qed (use assms(2) in auto)

lemma first_free_append:
  "first_free p (us @ vs) = (if \<forall>b\<in>set us. snd b then first_free (p + total us) vs else first_free p us)"
  by (induction p us rule: first_free.induct) (auto simp: add.assoc)

lemma first_free_bounds: "p \<le> first_free p bl \<and> first_free p bl \<le> p + total bl"
  by (induction p bl rule: first_free.induct) auto

lemma plugged_append:
  "plugged (us @ vs) \<longleftrightarrow> plugged us \<and> plugged vs \<and> (us \<noteq> [] \<and> vs \<noteq> [] \<longrightarrow> snd (last us) \<or> snd (hd vs))"
proof (induction us)
  case (Cons a us)
  then show ?case by (cases a; cases us; cases vs) auto
qed auto

lemma plugged_tl: "plugged (b # bl) \<Longrightarrow> plugged bl"
  by (cases b; cases bl) auto

lemma mem_init_ok: "mem_ok (mem_init h) [(4096, False)]"
  by (simp add: mem_ok_def mem_init_def Let_def)

section \<open>Allocation\<close>

text \<open>First fit.  A block is cut when the rest can hold a struct and twelve bytes.\<close>

definition block_fits :: "nat \<Rightarrow> nat \<times> bool \<Rightarrow> bool" where
  "block_fits n b \<longleftrightarrow> \<not> snd b \<and> n + 8 \<le> fst b"

definition take_from :: "nat \<Rightarrow> nat \<Rightarrow> blocks" where
  "take_from n s = (if n + 28 \<le> s then [(n + 8, True), (s - (n + 8), False)] else [(s, True)])"

fun first_fit :: "nat \<Rightarrow> nat \<Rightarrow> blocks \<Rightarrow> (nat \<times> blocks) option" where
  "first_fit n p [] = None"
| "first_fit n p ((s, u) # bl) =
     (if block_fits n (s, u) then Some (p + 8, take_from n s @ bl)
      else map_option (apsnd ((#) (s, u))) (first_fit n (p + s) bl))"

lemma first_fit_None: "first_fit n p bl = None \<longleftrightarrow> (\<forall>b\<in>set bl. \<not> block_fits n b)"
  by (induction n p bl rule: first_fit.induct) auto

lemma first_fit_Some:
  "first_fit n p bl = Some (q, bl') \<Longrightarrow> \<exists>us s vs. bl = us @ (s, False) # vs \<and> n + 8 \<le> s \<and>
     (\<forall>b\<in>set us. \<not> block_fits n b) \<and> q = p + total us + 8 \<and> bl' = us @ take_from n s @ vs"
proof (induction n p bl arbitrary: q bl' rule: first_fit.induct)
  case (2 n p s u bl)
  show ?case
  proof (cases "block_fits n (s, u)")
    case True
    with 2 show ?thesis by (intro exI [of _ "[]"] exI [of _ s] exI [of _ bl]) (auto simp: block_fits_def)
  next
    case False
    with 2 obtain bl2 where b2: "first_fit n (p + s) bl = Some (q, bl2)" "bl' = (s, u) # bl2" by auto
    from 2(1) [OF False b2(1)] obtain us t vs where
      "bl = us @ (t, False) # vs" "n + 8 \<le> t" "\<forall>b\<in>set us. \<not> block_fits n b" "q = p + s + total us + 8"
      "bl2 = us @ take_from n t @ vs" by blast
    with False b2(2) show ?thesis
      by (intro exI [of _ "(s, u) # us"] exI [of _ t] exI [of _ vs]) auto
  qed
qed simp

lemma first_fit_at:
  "\<forall>b\<in>set us. \<not> block_fits n b \<Longrightarrow> n + 8 \<le> s \<Longrightarrow>
    first_fit n p (us @ (s, False) # vs) = Some (p + total us + 8, us @ take_from n s @ vs)"
  by (induction us arbitrary: p) (auto simp: block_fits_def add.assoc)

lemma user_size_ok:
  assumes "layout h prev p ((s, u) # bl)" "p + s \<le> 4096"
  shows "unat (user_size h (at p)) = s - 8"
proof -
  from assms have n: "mem_next h (at p) = at (p + s)" "20 \<le> s" by auto
  have "unat (ucast (at p) + ucast SIZEOF_STRUCT_MEM :: u32) = p + 8"
    using assms(2) n(2) by (simp add: unat_word_ariths)
  then show ?thesis using n assms(2) unfolding user_size_def by (subst unat_sub) (simp_all add: word_le_nat_alt)
qed

lemma scan_ok:
  assumes "layout h prev p bl" "p + total bl = 4096" "n \<le> 4096"
  shows "mem_scan h (at n) (at p) =
    Some (case first_fit n p bl of None \<Rightarrow> None | Some (q, _) \<Rightarrow> Some (at (q - 8)))"
  using assms
proof (induction bl arbitrary: prev p)
  case Nil
  then show ?case by (subst mem_scan.simps) auto
next
  case (Cons b bl)
  obtain s u where b: "b = (s, u)" by (cases b)
  have s: "20 \<le> s" "p + s \<le> 4096" "mem_used h (at p) = u" "mem_next h (at p) = at (p + s)"
    using Cons.prems(1,2) b by auto
  have us: "unat (user_size h (at p)) = s - 8" using user_size_ok Cons.prems(1) s(2) b by blast
  show ?case
  proof (cases "p < 4096 - n")
    case False
    have "\<not> block_fits n c" if "c \<in> set (b # bl)" for c
    proof -
      have "fst c \<le> total (b # bl)" using that by (rule le_total)
      then show ?thesis using False Cons.prems(2,3) by (auto simp: block_fits_def)
    qed
    then have "first_fit n p (b # bl) = None" by (simp add: first_fit_None)
    then show ?thesis using False s Cons.prems(3) by (subst mem_scan.simps) simp
  next
    case True
    have "ucast (at n) \<le> user_size h (at p) \<longleftrightarrow> n + 8 \<le> s"
      using us s(1) Cons.prems(3) by (auto simp: word_le_nat_alt)
    then have "mem_scan h (at n) (at p) =
        (if block_fits n (s, u) then Some (Some (at p)) else mem_scan h (at n) (at (p + s)))"
      using True s Cons.prems(3) by (subst mem_scan.simps) (auto simp: block_fits_def)
    moreover have "mem_scan h (at n) (at (p + s)) =
        Some (case first_fit n (p + s) bl of None \<Rightarrow> None | Some (q, _) \<Rightarrow> Some (at (q - 8)))"
      using Cons.prems b by (intro Cons.IH) auto
    ultimately show ?thesis by (auto simp: b split: option.splits)
  qed
qed

lemma next_free_ok:
  assumes "layout h prev p bl" "p + total bl = 4096" "mem_used h 4096"
  shows "next_free h (at p) = Some (at (first_free p bl))"
  using assms
proof (induction bl arbitrary: prev p)
  case Nil
  then show ?case by (subst next_free.simps) simp
next
  case (Cons b bl)
  obtain s u where b: "b = (s, u)" by (cases b)
  have "at p \<noteq> 4096" using Cons.prems(1,2) b at_eq [of p 4096] by auto
  then have "next_free h (at p) = (if u then next_free h (at (p + s)) else Some (at p))"
    using Cons.prems(1,2) b by (subst next_free.simps) auto
  moreover have "next_free h (at (p + s)) = Some (at (first_free (p + s) bl))"
    using Cons.prems b by (intro Cons.IH) auto
  ultimately show ?case by (simp add: b)
qed

text \<open>Cutting a block in two.\<close>

lemma put_after_sel:
  "mem_used (put_after m p2 nx h) = (mem_used h)(p2 := False)"
  "mem_next (put_after m p2 nx h) = (mem_next h)(p2 := nx, m := p2)"
  "mem_prev (put_after m p2 nx h) = (if nx \<noteq> 4096 then (mem_prev h)(p2 := m, nx := p2) else (mem_prev h)(p2 := m))"
  "lfree (put_after m p2 nx h) = lfree h"
  by (simp_all add: put_after_def Let_def)

lemma put_after_layout:
  assumes "layout h 0 0 (us @ (s, u) # ws @ vs)" "total (us @ (s, u) # ws @ vs) = 4096"
    and "20 \<le> a" "20 \<le> b" "4 dvd a" "4 dvd b" "a + b = s + total ws"
    and "p = total us" "nx = at (p + a + b)"
  shows "layout (put_after (at p) (at (p + a)) nx h) 0 0 (us @ (a, u) # (b, False) # vs)"
proof -
  let ?prev = "if us = [] then 0 else total (butlast us)"
  let ?h = "put_after (at p) (at (p + a)) nx h"
  have L: "layout h 0 0 us" "layout h ?prev p ((s, u) # ws @ vs)"
    using assms(1,8) by (simp_all add: layout_append)
  have vs: "\<exists>q. layout h q (p + a + b) vs" 
    using L(2) assms(7) by (auto simp: layout_append add.assoc)
  then obtain q where vs: "layout h q (p + a + b) vs" by blast
  have t: "p + a + b + total vs = 4096" using assms(2,7,8) by simp
  have nx: "nx = 4096 \<longleftrightarrow> vs = []"
  proof (cases vs)
    case (Cons c cs)
    then have "20 \<le> fst c" using vs by (cases c) auto
    then show ?thesis using Cons t assms(9) at_eq [of "p + a + b" 4096] by auto
  qed (use t assms(9) in simp)
  have n3: "at (p + a) \<noteq> at p" "at (p + a) \<noteq> nx" "at p \<noteq> nx" using assms(3,4,9) t by simp_all
  have "layout ?h 0 0 us"
    by (rule layout_cong [OF L(1)]) (use assms(3,4,8,9) t in \<open>auto simp: put_after_sel\<close>)
  moreover have "layout ?h (p + a) (p + a + b) vs"
    by (rule layout_tail [OF vs]) (use assms(3,4,9) t nx in \<open>auto simp: put_after_sel\<close>)
  moreover have "mem_used ?h (at p) = u" "mem_prev ?h (at p) = at ?prev" "mem_next ?h (at p) = at (p + a)"
    "\<not> mem_used ?h (at (p + a))" "mem_prev ?h (at (p + a)) = at p" "mem_next ?h (at (p + a)) = nx"
    using L(2) n3 by (auto simp: put_after_sel)
  ultimately show ?thesis using assms(3-6,8,9) by (simp add: layout_append add.assoc)
qed

text \<open>The block sizes that occur.\<close>

lemma align_ok: "unat m < 65533 \<Longrightarrow> unat (LWIP_MEM_ALIGN_SIZE m) = 4 * ((unat m + 3) div 4)"
proof -
  assume m: "unat m < 65533"
  have "LWIP_MEM_ALIGN_SIZE m = push_bit 2 (drop_bit 2 (m + 3))"
  proof (rule bit_word_eqI)
    fix n assume n: "n < LENGTH(16)"
    have e: "Suc (Suc (n - 2)) = n" if "2 \<le> n" using that by simp
    have "LWIP_MEM_ALIGN_SIZE m = (m + 3) AND NOT (mask 2)"
      by (simp add: LWIP_MEM_ALIGN_SIZE_def MEM_ALIGNMENT_def mask_eq_exp_minus_1 add.commute)
    then show "bit (LWIP_MEM_ALIGN_SIZE m) n = bit (push_bit 2 (drop_bit 2 (m + 3))) n" using n
      by (cases "n < 2") (auto simp: bit_and_iff bit_not_iff bit_mask_iff bit_push_bit_iff bit_drop_bit_eq e)
  qed
  moreover have k: "unat (m + 3) = unat m + 3" using m by (simp add: unat_word_ariths)
  moreover have "unat m + 3 < 65536" using m by simp
  then have "(unat m + 3) div 4 * 4 < 65536" by presburger
  ultimately show ?thesis by (simp add: push_bit_eq_mult drop_bit_eq_div unat_word_ariths(2) unat_div)
qed

definition bsize :: "nat \<Rightarrow> nat" where "bsize n = max 12 (4 * ((n + 3) div 4))"

lemma bsize: "n \<le> bsize n" "4 dvd bsize n" "12 \<le> bsize n" "bsize n \<le> n + 12"
  by (simp_all add: bsize_def max_def) presburger+

lemma block_size_ok: "unat m < 65533 \<Longrightarrow> block_size m = at (bsize (unat m))"
proof -
  assume m: "unat m < 65533"
  have lt: "4 * ((unat m + 3) div 4) < 65536" using m by presburger
  have "LWIP_MEM_ALIGN_SIZE m = at (4 * ((unat m + 3) div 4))"
    unfolding word_unat_eq_iff unat_at [OF lt] by (rule align_ok [OF m])
  moreover have "at 12 = 12" by (simp add: at_def)
  ultimately show ?thesis using at_less [OF lt, of 12]
    by (simp add: block_size_def Let_def bsize_def max_def)
qed

lemma take_mem_lfree [simp]: "lfree (take_mem n p h) = lfree h"
  by (simp add: take_mem_def put_after_sel)

lemma layout_mid:
  assumes "layout h 0 0 (us @ (s, u) # vs)"
  shows "layout h 0 0 us" "layout h (if us = [] then 0 else total (butlast us)) (total us) ((s, u) # vs)"
    "layout h (total us) (total us + s) vs"
  using assms by (auto simp: layout_append)

lemma room_ok:
  assumes "layout h prev p ((s, u) # bl)" "p + s \<le> 4096" "n + 8 \<le> s"
  shows "ucast (at n) + ucast SIZEOF_STRUCT_MEM + ucast MIN_SIZE_ALIGNED \<le> user_size h (at p) \<longleftrightarrow> n + 28 \<le> s"
proof -
  have "unat (ucast (at n) + ucast SIZEOF_STRUCT_MEM + ucast MIN_SIZE_ALIGNED :: u32) = n + 20"
    using assms(2,3) by (simp add: unat_word_ariths)
  moreover have "unat (user_size h (at p)) = s - 8" using assms(1,2) by (rule user_size_ok)
  moreover have "20 \<le> s" using assms(1) by simp
  ultimately show ?thesis by (auto simp: word_le_nat_alt)
qed

text \<open>The block that is found is taken.\<close>

lemma take_mem_layout:
  assumes "layout h 0 0 (us @ (s, False) # vs)" "total (us @ (s, False) # vs) = 4096"
    and "n + 8 \<le> s" "4 dvd n" "12 \<le> n"
  shows "layout (take_mem (at n) (at (total us)) h) 0 0 (us @ take_from n s @ vs)"
proof -
  let ?p = "total us" and ?h = "take_mem (at n) (at (total us)) h"
  note M = layout_mid [OF assms(1)]
  have s: "?p + s \<le> 4096" "20 \<le> s" "4 dvd s" "mem_next h (at ?p) = at (?p + s)" using assms(2) M(2) by auto
  note big = room_ok [OF M(2) s(1) assms(3)]
  show ?thesis
  proof (cases "n + 28 \<le> s")
    case False
    then have "?h = set_mem_used (at ?p) True h" "take_from n s = [(s, True)]"
      using big by (simp_all add: take_mem_def take_from_def)
    moreover have "layout (set_mem_used (at ?p) True h) 0 0 us"
      by (rule layout_cong [OF M(1)]) (use s(1,2) in auto)
    moreover have "layout (set_mem_used (at ?p) True h) ?p (?p + s) vs"
      by (rule layout_cong [OF M(3)]) (use s(1,2) assms(2) in auto)
    ultimately show ?thesis using M(2) by (simp add: layout_append)
  next
    case True
    let ?h1 = "put_after (at ?p) (at (?p + (n + 8))) (at (?p + s)) h"
    have e: "at ?p + SIZEOF_STRUCT_MEM + at n = at (?p + (n + 8))" by (simp add: at_plus ac_simps)
    have h: "?h = set_mem_used (at ?p) True ?h1" using True big s(4)
      unfolding take_mem_def e by simp
    have L: "layout ?h1 0 0 (us @ (n + 8, False) # (s - (n + 8), False) # vs)"
      by (rule put_after_layout [where ws = "[]" and s = s])
        (use assms s True in \<open>simp_all add: dvd_diff_nat\<close>)
    note M1 = layout_mid [OF L]
    have "layout ?h 0 0 us" unfolding h
      by (rule layout_cong [OF M1(1)]) (use s(1,2) in auto)
    moreover have "layout ?h ?p (?p + (n + 8)) ((s - (n + 8), False) # vs)" unfolding h
      by (rule layout_cong [OF M1(3)]) (use s(1,2) assms(2) True in auto)
    ultimately show ?thesis using M1(2) True unfolding h by (simp add: layout_append take_from_def)
  qed
qed

lemma take_from_total [simp]: "n + 8 \<le> s \<Longrightarrow> total (take_from n s) = s"
  by (simp add: take_from_def)

text \<open>Allocation is first fit on the blocks.\<close>

lemma lwip_malloc_ok:
  assumes "mem_ok h bl" "0 < unat n" "unat n < 65533"
  shows "case first_fit (bsize (unat n)) 0 bl of
      None \<Rightarrow> mem_malloc n h = Some (None, h)
    | Some (q, bl') \<Rightarrow> \<exists>h'. mem_malloc n h = Some (Some (at q), h') \<and> mem_ok h' bl'"
proof (cases "bsize (unat n) \<le> 4096")
  case False
  have n: "block_size n = at (bsize (unat n))" "bsize (unat n) < 65536"
    using block_size_ok [OF assms(3)] assms(3) by (simp_all add: bsize_def max_def) presburger
  have "\<not> block_fits (bsize (unat n)) b" if "b \<in> set bl" for b
    using le_total [OF that] assms(1) False by (auto simp: mem_ok_def block_fits_def)
  then have "first_fit (bsize (unat n)) 0 bl = None" by (simp add: first_fit_None)
  moreover have "4096 < block_size n" using n False at_less [of 4096 "bsize (unat n)"] by simp
  ultimately show ?thesis by (simp add: mem_malloc_def Let_def)
next
  case True
  let ?n = "bsize (unat n)" and ?us = "takeWhile snd bl" and ?vs = "dropWhile snd bl"
  let ?p = "total ?us"
  note b = block_size_ok [OF assms(3)]
  from assms(1) have H: "layout h 0 0 bl" "total bl = 4096" "plugged bl" "lfree h = at (first_free 0 bl)" "mem_used h 4096"
    by (simp_all add: mem_ok_def)
  have ff: "first_free 0 bl = ?p"
  proof -
    have "first_free 0 (?us @ ?vs) = first_free ?p ?vs"
      by (subst first_free_append) (auto dest: set_takeWhileD)
    also have "\<dots> = ?p"
    proof (cases ?vs)
      case Nil
      show ?thesis unfolding Nil by simp
    next
      case (Cons b bs)
      moreover have "\<not> snd b" using hd_dropWhile [of snd bl] Cons by simp
      ultimately show ?thesis by (cases b) simp
    qed
    finally show ?thesis by simp
  qed
  have L: "layout h 0 0 (?us @ ?vs)" "total (?us @ ?vs) = 4096" using H by simp_all
  have tv: "?p + total ?vs = 4096" using L(2) by (simp only: total_simps)
  from L(1) have Lv: "layout h (if ?us = [] then 0 else total (butlast ?us)) ?p ?vs"
    by (simp only: layout_append add_0)
  have used: "\<forall>b\<in>set ?us. \<not> block_fits ?n b" by (auto simp: block_fits_def dest: set_takeWhileD)
  have scan: "mem_scan h (at ?n) (lfree h) = Some (case first_fit ?n ?p ?vs of None \<Rightarrow> None | Some (q, _) \<Rightarrow> Some (at (q - 8)))"
    unfolding H(4) ff by (rule scan_ok [OF Lv tv True])
  have lt: "\<not> 4096 < block_size n" "n \<noteq> 0" using True b assms(2) at_less [of 4096 ?n] by auto
  show ?thesis
  proof (cases "first_fit ?n ?p ?vs")
    case None
    then have "first_fit ?n 0 bl = None"
      using used by (metis (mono_tags, lifting) Un_iff first_fit_None set_append takeWhile_dropWhile_id)
    then show ?thesis using None scan lt b by (simp add: mem_malloc_def Let_def)
  next
    case (Some r)
    then obtain q vs' where r: "first_fit ?n ?p ?vs = Some (q, vs')" by (cases r) auto
    from first_fit_Some [OF r] obtain ws s vs where
      w: "?vs = ws @ (s, False) # vs" "?n + 8 \<le> s" "\<forall>b\<in>set ws. \<not> block_fits ?n b" "q = ?p + total ws + 8" by blast
    define us where "us = ?us @ ws"
    have bl: "bl = us @ (s, False) # vs" using w(1) by (metis append.assoc takeWhile_dropWhile_id us_def)
    have q: "q = total us + 8" using w(4) by (simp add: us_def)
    have fit: "first_fit ?n 0 bl = Some (q, us @ take_from ?n s @ vs)"
      unfolding bl q using first_fit_at [of us ?n s 0 vs] used w(2,3) by (auto simp: us_def)
    let ?h = "take_mem (at ?n) (at (total us)) h"
    have L': "layout ?h 0 0 (us @ take_from ?n s @ vs)"
      by (rule take_mem_layout) (use H(1,2) bl w(2) bsize in auto)
    have s: "total us + s \<le> 4096" using H(2) bl by simp
    have e: "mem_used ?h 4096"
    proof (cases "?n + 28 \<le> s")
      case True
      then have "total us + 8 + ?n < 4096" using s by simp
      moreover have "at (total us) + SIZEOF_STRUCT_MEM + at ?n = at (total us + 8 + ?n)" by (simp add: at_plus)
      ultimately show ?thesis using H(5) unfolding take_mem_def by (simp add: put_after_sel)
    next
      case False
      then show ?thesis using H(5) room_ok [OF layout_mid(2) [OF H(1) [unfolded bl]] s w(2)] by (simp add: take_mem_def)
    qed
    have t: "total (us @ take_from ?n s @ vs) = 4096" using H(2) bl w(2) by simp
    have pl: "plugged (us @ take_from ?n s @ vs)"
      using H(3) unfolding bl by (cases vs) (auto simp: plugged_append take_from_def)
    let ?bl = "us @ take_from ?n s @ vs"
    have lf: "(if at (total us) = lfree h then next_free ?h (lfree h) else Some (lfree h)) = Some (at (first_free 0 ?bl))"
    proof (cases ws)
      case Nil
      then have us: "us = ?us" "total us = ?p" by (simp_all add: us_def)
      have "next_free ?h (at (total us)) = Some (at (first_free (total us) (take_from ?n s @ vs)))"
        by (rule next_free_ok) (use L' t e in \<open>auto simp: layout_append\<close>)
      moreover have "first_free 0 ?bl = first_free (total us) (take_from ?n s @ vs)"
        unfolding us(1) by (subst first_free_append) (auto dest: set_takeWhileD)
      ultimately show ?thesis using H(4) ff us(2) by simp
    next
      case (Cons c cs)
      obtain m v where c: "c = (m, v)" by (cases c)
      have "hd ?vs = c" "?vs \<noteq> []" using w(1) Cons by auto
      then have v: "\<not> v" using hd_dropWhile [of snd bl] c by simp
      have "(m, v) \<in> set us" using Cons c by (simp add: us_def)
      then have "(m, v) \<in> set bl" unfolding bl by simp
      then have "20 \<le> m" using layout_sizes [OF H(1)] by blast
      then have "total us \<noteq> ?p" using Cons c by (simp add: us_def)
      moreover have "total us < 65536" "?p < 65536" using s tv by simp_all
      moreover have "first_free 0 ?bl = ?p"
        unfolding us_def append.assoc
        by (subst first_free_append) (use Cons c v in \<open>auto dest: set_takeWhileD\<close>)
      ultimately show ?thesis using H(4) ff by simp
    qed
    have "mem_malloc n h = Some (Some (at q), ?h\<lparr>lfree := at (first_free 0 ?bl)\<rparr>)"
    proof -
      have "q - 8 = total us" unfolding q by simp
      then have "mem_scan h (at ?n) (lfree h) = Some (Some (at (total us)))" using scan unfolding r by simp
      moreover have "at (total us) + SIZEOF_STRUCT_MEM = at q" unfolding q by (simp add: at_plus)
      moreover have "\<not> (n = 0 \<or> MEM_SIZE_ALIGNED < at ?n)" using lt b by simp
      ultimately show ?thesis using lf unfolding mem_malloc_def b Let_def
        by (cases "at (total us) = lfree h") (simp_all del: mem_constants)
    qed
    moreover have "layout (?h\<lparr>lfree := at (first_free 0 ?bl)\<rparr>) 0 0 ?bl" using L' by (rule layout_cong) simp_all
    ultimately show ?thesis using fit t pl e by (simp add: mem_ok_def)
  qed
qed

section \<open>Release\<close>

text \<open>Free neighbours become one block.\<close>

fun join_blocks :: "blocks \<Rightarrow> blocks" where
  "join_blocks ((s, u) # (t, v) # bl) = (if u \<or> v then (s, u) # join_blocks ((t, v) # bl) else join_blocks ((s + t, False) # bl))"
| "join_blocks bl = bl"

lemma join_blocks_hd: "\<exists>n r. join_blocks ((s, u) # bl) = (n, u) # r"
proof (induction "length bl" arbitrary: s u bl)
  case (Suc k)
  then obtain t v bl' where bl: "bl = (t, v) # bl'" by (cases bl) auto
  with Suc(1) [of bl' "s + t" False] Suc(2) show ?case by auto
qed simp

lemma plugged_join: "plugged (join_blocks bl)"
proof (induction bl rule: join_blocks.induct)
  case (1 s u t v bl)
  obtain n r where "join_blocks ((t, v) # bl) = (n, v) # r" using join_blocks_hd by blast
  with 1 show ?case by auto
qed simp_all

lemma total_join [simp]: "total (join_blocks bl) = total bl"
  by (induction bl rule: join_blocks.induct) auto

lemma join_blocks_plugged: "plugged bl \<Longrightarrow> join_blocks bl = bl"
  by (induction bl rule: plugged.induct) auto

lemma join_blocks_append: "plugged us \<Longrightarrow> us = [] \<or> snd (last us) \<Longrightarrow> join_blocks (us @ vs) = us @ join_blocks vs"
proof (induction us)
  case (Cons a us)
  then show ?case by (cases a; cases us; cases vs) auto
qed auto

text \<open>The two steps of \<open>plug_holes\<close> on blocks.\<close>

fun merge_next :: "nat \<Rightarrow> blocks \<Rightarrow> blocks" where
  "merge_next s ((t, u) # bl) = (if u then (s, False) # (t, u) # bl else (s + t, False) # bl)"
| "merge_next s [] = [(s, False)]"

lemma merge_next_Cons: "\<exists>s' vs'. merge_next s vs = (s', False) # vs'"
  by (induction s vs rule: merge_next.induct) auto

lemma join_blocks_next: "plugged vs \<Longrightarrow> join_blocks ((s, False) # vs) = merge_next s vs"
proof (cases vs)
  case (Cons b bl)
  obtain t u where b: "b = (t, u)" by (cases b)
  assume p: "plugged vs"
  show ?thesis
  proof (cases u)
    case True
    with p Cons b show ?thesis by (simp add: join_blocks_plugged)
  next
    case False
    with p Cons b have "join_blocks ((s + t, False) # bl) = (s + t, False) # bl"
      by (cases bl) (auto simp: join_blocks_plugged)
    with Cons b False show ?thesis by simp
  qed
qed simp

definition heap_shape :: "lwip_heap \<Rightarrow> blocks \<Rightarrow> bool" where
  "heap_shape h bl \<longleftrightarrow> layout h 0 0 bl \<and> total bl = 4096 \<and> lfree h = at (first_free 0 bl) \<and> mem_used h 4096"

lemma mem_ok_shape: "mem_ok h bl \<longleftrightarrow> heap_shape h bl \<and> plugged bl"
  by (auto simp: mem_ok_def heap_shape_def)

lemma merge_layout:
  assumes "layout h 0 0 (us @ (s, u) # (t, v) # vs)" "total (us @ (s, u) # (t, v) # vs) = 4096"
    and "p = total us" "h' = set_mem_prev (at (p + s + t)) (at p) (set_mem_next (at p) (at (p + s + t)) h)"
  shows "layout h' 0 0 (us @ (s + t, u) # vs)"
proof -
  let ?prev = "if us = [] then 0 else total (butlast us)"
  note M = layout_mid [OF assms(1), folded assms(3)]
  from M(2) have L: "20 \<le> s" "20 \<le> t" "4 dvd s" "4 dvd t" "mem_used h (at p) = u" "mem_prev h (at p) = at ?prev"
    "layout h (p + s) (p + s + t) vs" by auto
  have t: "p + s + t + total vs = 4096" using assms(2,3) by simp
  have "layout h' 0 0 us"
    by (rule layout_cong [OF M(1)]) (use t L assms(3) in \<open>auto simp: assms(4)\<close>)
  moreover have "layout h' p (p + s + t) vs"
    by (rule layout_tail [OF L(7)]) (use t L in \<open>auto simp: assms(4)\<close>)
  moreover have "mem_used h' (at p) = u" "mem_prev h' (at p) = at ?prev" "mem_next h' (at p) = at (p + s + t)"
    using L t by (simp_all add: assms(4))
  ultimately show ?thesis using L assms(3) by (simp add: layout_append add.assoc)
qed

lemma lfree_before:
  assumes "heap_shape h (us @ (s, False) # vs)"
  shows "first_free 0 (us @ (s, False) # vs) \<le> total us"
  using first_free_bounds [of 0 us] by (auto simp: first_free_append)

lemma forward_ok:
  assumes "heap_shape h (us @ (s, False) # vs)"
  shows "heap_shape (plug_forward (at (total us)) h) (us @ merge_next s vs)"
proof -
  let ?p = "total us"
  from assms have H: "layout h 0 0 (us @ (s, False) # vs)" "total (us @ (s, False) # vs) = 4096"
    "lfree h = at (first_free 0 (us @ (s, False) # vs))" "mem_used h 4096" by (simp_all add: heap_shape_def)
  note M = layout_mid [OF H(1)]
  have s: "?p + s + total vs = 4096" "20 \<le> s" "mem_next h (at ?p) = at (?p + s)" using H(2) M(2) by auto
  show ?thesis
  proof (cases "\<exists>t bl. vs = (t, False) # bl")
    case False
    then have "merge_next s vs = (s, False) # vs" by (cases vs) auto
    moreover have "plug_forward (at ?p) h = h"
    proof (cases vs)
      case Nil
      with s H(4) show ?thesis by (simp add: plug_forward_def Let_def)
    next
      case (Cons b bl)
      with False have "mem_used h (at (?p + s))" using M(3) by (cases b) auto
      with s(3) show ?thesis by (simp add: plug_forward_def Let_def)
    qed
    ultimately show ?thesis using assms by simp
  next
    case True
    then obtain t bl where vs: "vs = (t, False) # bl" by blast
    have t: "20 \<le> t" "\<not> mem_used h (at (?p + s))" "mem_next h (at (?p + s)) = at (?p + s + t)"
      using M(3) vs by auto
    have lf: "first_free 0 (us @ (s, False) # vs) \<noteq> ?p + s" "first_free 0 (us @ (s, False) # vs) < 65536"
      using lfree_before [OF assms] s by simp_all
    let ?h = "set_mem_prev (at (?p + s + t)) (at ?p) (set_mem_next (at ?p) (at (?p + s + t)) h)"
    have "plug_forward (at ?p) h = ?h"
      using s t lf vs H(3) by (simp add: plug_forward_def Let_def)
    moreover have "layout ?h 0 0 (us @ (s + t, False) # bl)"
      by (rule merge_layout [OF _ _ refl refl]) (use H(1,2) vs in auto)
    moreover have "first_free 0 (us @ (s + t, False) # bl) = first_free 0 (us @ (s, False) # vs)"
      by (simp add: first_free_append)
    ultimately show ?thesis using H vs by (simp add: heap_shape_def)
  qed
qed

definition merge_prev :: "blocks \<Rightarrow> nat \<Rightarrow> blocks \<Rightarrow> blocks" where
  "merge_prev us s vs =
     (if us \<noteq> [] \<and> \<not> snd (last us) then butlast us @ (fst (last us) + s, False) # vs else us @ (s, False) # vs)"

lemma backward_ok:
  assumes "heap_shape h (us @ (s, False) # vs)"
  shows "heap_shape (plug_backward (at (total us)) h) (merge_prev us s vs)"
proof -
  let ?p = "total us"
  from assms have H: "layout h 0 0 (us @ (s, False) # vs)" "total (us @ (s, False) # vs) = 4096"
    "lfree h = at (first_free 0 (us @ (s, False) # vs))" "mem_used h 4096" by (simp_all add: heap_shape_def)
  note M = layout_mid [OF H(1)]
  show ?thesis
  proof (cases us rule: rev_cases)
    case Nil
    with M(2) have "mem_prev h (at ?p) = at ?p" by simp
    with Nil show ?thesis using assms by (simp add: plug_backward_def Let_def merge_prev_def)
  next
    case (snoc us' b)
    obtain r u where b: "b = (r, u)" by (cases b)
    let ?q = "total us'"
    from M(1) snoc b have q: "mem_used h (at ?q) = u" "20 \<le> r" by (auto simp: layout_append)
    have p: "?p = ?q + r" "mem_prev h (at ?p) = at ?q" "mem_next h (at ?p) = at (?q + r + s)"
      using M(2) snoc b by (auto simp: add.assoc)
    have t: "?q + r + s + total vs = 4096" using H(2) snoc b by simp
    show ?thesis
    proof (cases u)
      case True
      with p q have "plug_backward (at ?p) h = h" by (simp add: plug_backward_def Let_def)
      with True snoc b assms show ?thesis by (simp add: merge_prev_def)
    next
      case False
      let ?h = "set_mem_prev (at (?q + r + s)) (at ?q) (set_mem_next (at ?q) (at (?q + r + s)) h)"
      have "first_free 0 (us @ (s, False) # vs) \<le> ?q" using first_free_bounds [of 0 us'] snoc b False
        by (auto simp: first_free_append)
      then have lf: "lfree h \<noteq> at ?p" using H(3) p(1) q(2) t by simp
      have "plug_backward (at ?p) h = ?h"
        using p q t lf False by (simp add: plug_backward_def Let_def)
      moreover have "layout ?h 0 0 (us' @ (r + s, False) # vs)"
        by (rule merge_layout [OF _ _ refl refl]) (use H(1,2) snoc b False in auto)
      moreover have "first_free 0 (us' @ (r + s, False) # vs) = first_free 0 (us @ (s, False) # vs)"
        using snoc b False by (simp add: first_free_append)
      ultimately show ?thesis using H snoc b False by (simp add: heap_shape_def merge_prev_def)
    qed
  qed
qed

lemma join_blocks_both:
  assumes "plugged us" "plugged vs"
  shows "join_blocks (us @ (s, False) # vs) = (case merge_next s vs of (s', _) # vs' \<Rightarrow> merge_prev us s' vs')"
proof (cases "us = [] \<or> snd (last us)")
  case True
  then have "join_blocks (us @ (s, False) # vs) = us @ merge_next s vs"
    using assms by (simp add: join_blocks_append join_blocks_next)
  moreover obtain s' vs' where "merge_next s vs = (s', False) # vs'" using merge_next_Cons by blast
  ultimately show ?thesis using True by (auto simp: merge_prev_def)
next
  case False
  then obtain us' r where us: "us = us' @ [(r, False)]" by (cases us rule: rev_cases) auto
  from assms(1) have "plugged us'" "us' = [] \<or> snd (last us')" by (auto simp: us plugged_append)
  then have "join_blocks (us @ (s, False) # vs) = us' @ join_blocks ((r + s, False) # vs)" by (simp add: us join_blocks_append)
  also have "\<dots> = us' @ merge_next (r + s) vs" using assms(2) by (simp add: join_blocks_next)
  finally show ?thesis using us by (cases "(s, vs)" rule: merge_next.cases) (auto simp: merge_prev_def add.assoc)
qed

lemma lwip_free_ok:
  assumes "mem_ok h (us @ (s, True) # vs)" "rmem = at (total us + 8)"
  shows "\<exists>h'. mem_free (Some rmem) h = Some h' \<and> mem_ok h' (join_blocks (us @ (s, False) # vs))"
proof -
  let ?p = "total us"
  from assms(1) have H: "layout h 0 0 (us @ (s, True) # vs)" "total (us @ (s, True) # vs) = 4096"
    "lfree h = at (first_free 0 (us @ (s, True) # vs))" "mem_used h 4096" "plugged us" "plugged vs"
    by (auto simp: mem_ok_def plugged_append dest: plugged_tl)
  note M = layout_mid [OF H(1)]
  have s: "?p + s + total vs = 4096" "20 \<le> s" using H(2) M(2) by auto
  let ?h0 = "set_mem_used (at ?p) False h"
  let ?h1 = "if at ?p < lfree ?h0 then ?h0\<lparr>lfree := at ?p\<rparr> else ?h0"
  have "layout ?h0 0 0 us" by (rule layout_cong [OF M(1)]) (use s in auto)
  moreover have "layout ?h0 ?p (?p + s) vs" by (rule layout_cong [OF M(3)]) (use s in auto)
  ultimately have "layout ?h0 0 0 (us @ (s, False) # vs)" using M(2) by (simp add: layout_append)
  then have L: "layout ?h1 0 0 (us @ (s, False) # vs)" by (rule layout_cong) simp
  have lf: "lfree ?h1 = at (first_free 0 (us @ (s, False) # vs))"
  proof (cases "\<forall>b\<in>set us. snd b")
    case True
    then have "first_free 0 (us @ (s, True) # vs) = first_free (?p + s) vs" by (simp add: first_free_append)
    then show ?thesis using H(3) s first_free_bounds [of "?p + s" vs] True
      by (simp add: first_free_append)
  next
    case False
    then have "first_free 0 (us @ (s, True) # vs) \<le> ?p" "first_free 0 (us @ (s, True) # vs) = first_free 0 (us @ (s, False) # vs)"
      using first_free_bounds [of 0 us] by (auto simp: first_free_append)
    then show ?thesis using H(3) s by simp
  qed
  have "heap_shape ?h1 (us @ (s, False) # vs)" using L lf H(2,4) s by (auto simp: heap_shape_def)
  from forward_ok [OF this] obtain s' vs' where
    f: "merge_next s vs = (s', False) # vs'" "heap_shape (plug_forward (at ?p) ?h1) (us @ (s', False) # vs')"
    using merge_next_Cons by metis
  from backward_ok [OF f(2)] have "heap_shape (plug_holes (at ?p) ?h1) (join_blocks (us @ (s, False) # vs))"
    using f(1) H(5,6) by (simp add: plug_holes_def join_blocks_both)
  moreover have "mem_free (Some rmem) h = Some (plug_holes (at ?p) ?h1)"
  proof -
    have "\<not> rmem \<ge> 4096" "\<not> rmem < 8" "rmem - 8 = at ?p" using s assms(2) at_less [of "?p + 8" 4096] at_less [of "?p + 8" 8]
      by (simp_all add: at_plus at_def not_le)
    then show ?thesis by (simp add: mem_free_def Let_def)
  qed
  ultimately show ?thesis by (simp add: mem_ok_shape plugged_join)
qed

section \<open>Shrinking\<close>

definition shrink :: "nat \<Rightarrow> nat \<Rightarrow> blocks \<Rightarrow> blocks" where
  "shrink n s vs =
     (if n + 8 = s then (s, True) # vs
      else case vs of
        (t, False) # vs' \<Rightarrow> (n + 8, True) # (s - (n + 8) + t, False) # vs'
      | _ \<Rightarrow> if n + 28 \<le> s then (n + 8, True) # (s - (n + 8), False) # vs else (s, True) # vs)"

lemma shrink_total [simp]: "n + 8 \<le> s \<Longrightarrow> total (shrink n s vs) = s + total vs"
  by (cases vs) (auto simp: shrink_def split: bool.splits)

lemma shrink_plugged: "plugged (us @ (s, True) # vs) \<Longrightarrow> plugged (us @ shrink n s vs)"
  by (cases vs rule: plugged.cases) (auto simp: shrink_def plugged_append split: bool.splits)

lemma put_after_shape:
  assumes "heap_shape h (us @ (s, True) # ws @ vs)" "20 \<le> a" "20 \<le> b" "4 dvd a" "4 dvd b" "a + b = s + total ws"
    and "p = total us" "lfree h' = at (first_free 0 (us @ (a, True) # (b, False) # vs))"
    and "mem_next h' = mem_next h" "mem_prev h' = mem_prev h" "mem_used h' = mem_used h"
  shows "heap_shape (put_after (at p) (at (p + a)) (at (p + a + b)) h') (us @ (a, True) # (b, False) # vs)"
proof -
  from assms(1) have H: "layout h 0 0 (us @ (s, True) # ws @ vs)" "total (us @ (s, True) # ws @ vs) = 4096" "mem_used h 4096"
    by (simp_all add: heap_shape_def)
  have "layout h' 0 0 (us @ (s, True) # ws @ vs)" using H(1) by (rule layout_cong) (simp add: assms(9-11))
  then have "layout (put_after (at p) (at (p + a)) (at (p + a + b)) h') 0 0 (us @ (a, True) # (b, False) # vs)"
    by (rule put_after_layout) (use H(2) assms(2-7) in simp_all)
  moreover have t: "p + a + b + total vs = 4096" using H(2) assms(6,7) by simp
  ultimately show ?thesis using H(3) assms(3,7,8,11) by (simp add: heap_shape_def put_after_sel)
qed

lemma realloc_eq:
  assumes "mem_ok h (us @ (s, True) # vs)" "rmem = at (total us + 8)" "unat m < 65533" "bsize (unat m) + 8 \<le> s"
  shows "mem_realloc rmem m h =
      (if bsize (unat m) + 8 = s then Some (Some rmem, h)
       else if \<not> mem_used h (at (total us + s)) then
         Some (Some rmem, put_after (at (total us)) (at (total us + (bsize (unat m) + 8))) (mem_next h (at (total us + s)))
           (if lfree h = at (total us + s) then h\<lparr>lfree := at (total us + (bsize (unat m) + 8))\<rparr> else h))
       else if bsize (unat m) + 28 \<le> s then
         Some (Some rmem, put_after (at (total us)) (at (total us + (bsize (unat m) + 8))) (at (total us + s))
           (if at (total us + (bsize (unat m) + 8)) < lfree h then h\<lparr>lfree := at (total us + (bsize (unat m) + 8))\<rparr> else h))
       else Some (Some rmem, h))"
proof -
  let ?p = "total us" and ?n = "bsize (unat m)"
  from assms(1) have H: "heap_shape h (us @ (s, True) # vs)" "layout h 0 0 (us @ (s, True) # vs)"
    "total (us @ (s, True) # vs) = 4096" "lfree h = at (first_free 0 (us @ (s, True) # vs))" "mem_used h 4096"
    "plugged (us @ (s, True) # vs)"
    by (simp_all add: mem_ok_shape heap_shape_def)
  note M = layout_mid [OF H(2)]
  have s: "?p + s + total vs = 4096" "20 \<le> s" "4 dvd s" "mem_next h (at ?p) = at (?p + s)" using H(3) M(2) by auto
  note n = bsize(2,3) [of "unat m"] assms(4)
  have "at (?p + s) - at ?p - 8 = at (s - 8)" using s(2) by (simp add: at_def of_nat_diff)
  note size' = this
  have r: "\<not> rmem \<ge> 4096" "\<not> rmem < 8" "rmem - 8 = at ?p"
    using s assms(2) at_less [of "?p + 8" 4096] at_less [of "?p + 8" 8] by (simp_all add: at_plus at_def not_le)
  have nb: "block_size m = at ?n" using assms(3) by (rule block_size_ok)
  have c: "\<not> at ?n > 4096" "\<not> at ?n > at (s - 8)" "at ?n = at (s - 8) \<longleftrightarrow> ?n + 8 = s"
    using n s(1,2) at_less [of 4096 ?n] by auto
  have p2: "at ?p + SIZEOF_STRUCT_MEM + at ?n = at (?p + (?n + 8))" by (simp add: at_plus ac_simps)
  have sum: "unat (ucast (at ?n) + ucast SIZEOF_STRUCT_MEM + ucast MIN_SIZE_ALIGNED :: u32) = ?n + 20"
    using n s(1) by (simp add: unat_word_ariths)
  have room: "ucast (at ?n) + ucast SIZEOF_STRUCT_MEM + ucast MIN_SIZE_ALIGNED \<le> (ucast (at (s - 8)) :: u32) \<longleftrightarrow> ?n + 28 \<le> s"
    using sum s(1,2) by (auto simp: word_le_nat_alt)
  show ?thesis
    unfolding mem_realloc_def Let_def nb mem_constants r(3) s(4) size' p2 [unfolded mem_constants]
      room [unfolded mem_constants] by (simp only: r c if_False not_False_eq_True simp_thms if_cancel)
qed

lemma lwip_realloc_ok:
  assumes "mem_ok h (us @ (s, True) # vs)" "rmem = at (total us + 8)" "unat m < 65533" "bsize (unat m) + 8 \<le> s"
  shows "\<exists>h'. mem_realloc rmem m h = Some (Some rmem, h') \<and> mem_ok h' (us @ shrink (bsize (unat m)) s vs)"
proof -
  let ?p = "total us" and ?n = "bsize (unat m)"
  from assms(1) have H: "heap_shape h (us @ (s, True) # vs)" "layout h 0 0 (us @ (s, True) # vs)"
    "total (us @ (s, True) # vs) = 4096" "lfree h = at (first_free 0 (us @ (s, True) # vs))" "mem_used h 4096"
    "plugged (us @ (s, True) # vs)"
    by (simp_all add: mem_ok_shape heap_shape_def)
  note M = layout_mid [OF H(2)]
  note pl = shrink_plugged [OF H(6), of ?n]
  have s: "?p + s + total vs = 4096" "20 \<le> s" "4 dvd s" "mem_next h (at ?p) = at (?p + s)" using H(3) M(2) by auto
  note n = bsize(2,3) [of "unat m"] assms(4) and e = realloc_eq [OF assms]
  show ?thesis
  proof (cases "?n + 8 = s")
    case True
    then have "us @ shrink ?n s vs = us @ (s, True) # vs" by (simp add: shrink_def)
    then show ?thesis using True e assms(1) by simp
  next
    case False
    then have lt: "?n + 8 < s" "4 dvd s - (?n + 8)" "20 \<le> ?n + 8" "4 dvd ?n + 8"
      using n s(3) by (simp_all add: dvd_diff_nat)
    show ?thesis
    proof (cases "\<exists>t vs'. vs = (t, False) # vs'")
      case True
      then obtain t vs' where vs: "vs = (t, False) # vs'" by blast
      from M(3) vs have t: "\<not> mem_used h (at (?p + s))" "mem_next h (at (?p + s)) = at (?p + s + t)" "20 \<le> t" "4 dvd t"
        by auto
      let ?b = "s - (?n + 8) + t" and ?h = "if lfree h = at (?p + s) then h\<lparr>lfree := at (?p + (?n + 8))\<rparr> else h"
      have w: "?p + (?n + 8) + ?b = ?p + s + t" using lt(1) by simp
      have "mem_realloc rmem m h = Some (Some rmem,
          put_after (at ?p) (at (?p + (?n + 8))) (at (?p + (?n + 8) + ?b)) ?h)"
        unfolding e w using False t by simp
      moreover have "heap_shape (put_after (at ?p) (at (?p + (?n + 8))) (at (?p + (?n + 8) + ?b)) ?h)
          (us @ (?n + 8, True) # (?b, False) # vs')"
      proof (rule put_after_shape [where ws = "[(t, False)]"])
        show "heap_shape h (us @ (s, True) # [(t, False)] @ vs')" using H(1) vs by simp
        show "lfree ?h = at (first_free 0 (us @ (?n + 8, True) # (?b, False) # vs'))"
        proof (cases "\<forall>b\<in>set us. snd b")
          case True
          then show ?thesis using H(4) vs by (simp add: first_free_append)
        next
          case False
          then have "first_free 0 (us @ (s, True) # vs) \<le> ?p" using first_free_bounds [of 0 us] by (auto simp: first_free_append)
          then show ?thesis using H(4) s(1,2) False by (auto simp: first_free_append)
        qed
        show "4 dvd ?b" using lt(2) t(4) by (rule dvd_add)
      qed (use lt t in auto)
      ultimately show ?thesis using pl False by (simp add: mem_ok_shape shrink_def vs)
    next
      case no: False
      have u: "mem_used h (at (?p + s))"
      proof (cases vs)
        case Nil
        then show ?thesis using s(1) H(5) by simp
      next
        case (Cons b bl)
        then show ?thesis using no M(3) by (cases b) auto
      qed
      have sh: "shrink ?n s vs = (if ?n + 28 \<le> s then (?n + 8, True) # (s - (?n + 8), False) # vs else (s, True) # vs)"
        using no False by (cases vs) (auto simp: shrink_def split: bool.splits)
      show ?thesis
      proof (cases "?n + 28 \<le> s")
        case False
        then show ?thesis using e u sh assms(1) \<open>?n + 8 \<noteq> s\<close> by simp
      next
        case True
        let ?b = "s - (?n + 8)"
        let ?h = "if at (?p + (?n + 8)) < lfree h then h\<lparr>lfree := at (?p + (?n + 8))\<rparr> else h"
        have w: "?p + (?n + 8) + ?b = ?p + s" using lt(1) by simp
        have "mem_realloc rmem m h = Some (Some rmem,
            put_after (at ?p) (at (?p + (?n + 8))) (at (?p + (?n + 8) + ?b)) ?h)"
          unfolding e w using False u True by simp
        moreover have "heap_shape (put_after (at ?p) (at (?p + (?n + 8))) (at (?p + (?n + 8) + ?b)) ?h)
            (us @ (?n + 8, True) # (?b, False) # vs)"
        proof (rule put_after_shape [where ws = "[]"])
          show "heap_shape h (us @ (s, True) # [] @ vs)" using H(1) by simp
          show "lfree ?h = at (first_free 0 (us @ (?n + 8, True) # (?b, False) # vs))"
          proof (cases "\<forall>b\<in>set us. snd b")
            case all: True
            then have "first_free 0 (us @ (s, True) # vs) = first_free (?p + s) vs" by (simp add: first_free_append)
            then show ?thesis using H(4) s(1) first_free_bounds [of "?p + s" vs] lt(1) all
              by (simp add: first_free_append)
          next
            case False
            then have "first_free 0 (us @ (s, True) # vs) \<le> ?p" using first_free_bounds [of 0 us] by (auto simp: first_free_append)
            then show ?thesis using H(4) s(1,2) False lt(1) by (auto simp: first_free_append)
          qed
        qed (use lt True in auto)
        ultimately show ?thesis using pl sh True by (simp add: mem_ok_shape)
      qed
    qed
  qed
qed

end
