(* ===== verification/Lwip_Mem_Props.thy ===== *)
theory Lwip_Mem_Props
  imports Lwip_Mem
begin

text \<open>
  Runs of the heap of the TCP/IP stack from \<open>mem_init\<close>: the blocks that are in use stay apart and keep their size, no
  operation reads outside of the heap, and memory that is given back is joined again.
\<close>

section \<open>The blocks in use\<close>

fun in_use_at :: "nat \<Rightarrow> blocks \<Rightarrow> (nat \<times> nat) list" where
  "in_use_at p [] = []"
| "in_use_at p ((s, u) # bl) = (if u then (p, s) # in_use_at (p + s) bl else in_use_at (p + s) bl)"

lemma in_use_append [simp]: "in_use_at p (us @ vs) = in_use_at p us @ in_use_at (p + total us) vs"
  by (induction p us rule: in_use_at.induct) (auto simp: add.assoc)

lemma in_use_join [simp]: "in_use_at p (join_blocks bl) = in_use_at p bl"
  by (induction bl arbitrary: p rule: join_blocks.induct) (auto simp: add.assoc)

lemma in_use_split:
  "(q, s) \<in> set (in_use_at p bl) \<Longrightarrow> \<exists>us vs. bl = us @ (s, True) # vs \<and> q = p + total us"
proof (induction p bl rule: in_use_at.induct)
  case (2 p t u bl)
  show ?case
  proof (cases "u \<and> (q, s) = (p, t)")
    case True
    then show ?thesis by (intro exI [of _ "[]"] exI [of _ bl]) simp
  next
    case False
    with 2 have "(q, s) \<in> set (in_use_at (p + t) bl)" by (auto split: if_splits)
    with 2 False obtain us vs where "bl = us @ (s, True) # vs" "q = p + t + total us" by (cases u) auto
    then show ?thesis by (intro exI [of _ "(t, u) # us"] exI [of _ vs]) simp
  qed
qed simp

lemma in_use_bounds: "(q, s) \<in> set (in_use_at p bl) \<Longrightarrow> p \<le> q \<and> q + s \<le> p + total bl"
  by (induction p bl rule: in_use_at.induct) (auto split: if_splits)

lemma in_use_apart:
  "(q, s) \<in> set (in_use_at p bl) \<Longrightarrow> (r, t) \<in> set (in_use_at p bl) \<Longrightarrow> (q, s) = (r, t) \<or> q + s \<le> r \<or> r + t \<le> q"
  by (induction p bl rule: in_use_at.induct) (auto split: if_splits dest: in_use_bounds)

lemma in_use_aligned:
  "layout h prev p bl \<Longrightarrow> (q, s) \<in> set (in_use_at p bl) \<Longrightarrow> 4 dvd q - p \<and> 20 \<le> s"
proof (induction p bl arbitrary: prev rule: in_use_at.induct)
  case (2 p t u bl)
  then have l: "layout h p (p + t) bl" "4 dvd t" "20 \<le> t" by auto
  show ?case
  proof (cases "(q, s) \<in> set (in_use_at (p + t) bl)")
    case True
    then have "4 dvd q - (p + t)" "20 \<le> s" using 2 l(1) by (cases u; blast)+
    have "p + t \<le> q" using in_use_bounds [OF True] by simp
    then have "(q - (p + t)) + t = q - p" by simp
    moreover have "4 dvd (q - (p + t)) + t" using \<open>4 dvd q - (p + t)\<close> l(2) by (rule dvd_add)
    ultimately show ?thesis using \<open>20 \<le> s\<close> by simp
  next
    case False
    with 2 l show ?thesis by (auto split: if_splits)
  qed
qed simp

section \<open>Runs\<close>

text \<open>
  \<open>M\<close> holds the pointers that were handed out and not given back, each with the size that was asked for last.  A
  request is at least one byte and at most 65532, the largest size that the alignment does not wrap.
\<close>

inductive lwip_run :: "lwip_heap \<Rightarrow> (u16 \<rightharpoonup> nat) \<Rightarrow> bool" where
  start: "lwip_run (mem_init h) Map.empty"
| got: "lwip_run h M \<Longrightarrow> 0 < unat n \<Longrightarrow> unat n < 65533 \<Longrightarrow> mem_malloc n h = Some (Some q, h') \<Longrightarrow>
    lwip_run h' (M(q \<mapsto> unat n))"
| refused: "lwip_run h M \<Longrightarrow> unat n < 65533 \<Longrightarrow> mem_malloc n h = Some (None, h') \<Longrightarrow> lwip_run h' M"
| gave: "lwip_run h M \<Longrightarrow> M q = Some n \<Longrightarrow> mem_free (Some q) h = Some h' \<Longrightarrow> lwip_run h' (M(q := None))"
| shrunk: "lwip_run h M \<Longrightarrow> M q = Some n \<Longrightarrow> unat m \<le> n \<Longrightarrow> mem_realloc q m h = Some (Some q, h') \<Longrightarrow>
    lwip_run h' (M(q \<mapsto> unat m))"

definition stands_for :: "(u16 \<rightharpoonup> nat) \<Rightarrow> (nat \<times> nat) set \<Rightarrow> bool" where
  "stands_for M U \<longleftrightarrow>
     dom M = {at (p + 8) |p s. (p, s) \<in> U} \<and>
     (\<forall>(p, s) \<in> U. \<exists>n. M (at (p + 8)) = Some n \<and> n < 65533 \<and> bsize n + 8 \<le> s)"

lemma stands_other:
  assumes "stands_for M U" "\<forall>(r, t) \<in> U. at (r + 8) \<noteq> q"
  shows "\<forall>(r, t) \<in> U. \<exists>n. (M(q := v)) (at (r + 8)) = Some n \<and> n < 65533 \<and> bsize n + 8 \<le> t"
  using assms unfolding stands_for_def by auto

lemma stands_add:
  assumes "stands_for M U" "\<forall>(r, t) \<in> U. at (r + 8) \<noteq> at (p + 8)" "n < 65533" "bsize n + 8 \<le> s"
  shows "stands_for (M(at (p + 8) \<mapsto> n)) (insert (p, s) U)"
proof -
  have "dom (M(at (p + 8) \<mapsto> n)) = insert (at (p + 8)) {at (r + 8) |r t. (r, t) \<in> U}"
    using assms(1) by (simp add: stands_for_def)
  also have "\<dots> = {at (r + 8) |r t. (r, t) \<in> insert (p, s) U}" by auto
  finally show ?thesis using stands_other [OF assms(1,2)] assms(3,4) by (simp add: stands_for_def)
qed

lemma stands_del:
  assumes "stands_for M (insert (p, s) U)" "\<forall>(r, t) \<in> U. at (r + 8) \<noteq> at (p + 8)"
  shows "stands_for (M(at (p + 8) := None)) U"
proof -
  have "dom M = insert (at (p + 8)) {at (r + 8) |r t. (r, t) \<in> U}"
    using assms(1) unfolding stands_for_def by auto
  moreover have "at (p + 8) \<notin> {at (r + 8) |r t. (r, t) \<in> U}" using assms(2) by fastforce
  ultimately have "dom (M(at (p + 8) := None)) = {at (r + 8) |r t. (r, t) \<in> U}" by simp
  moreover have "\<forall>(r, t) \<in> U. \<exists>n. (M(at (p + 8) := None)) (at (r + 8)) = Some n \<and> n < 65533 \<and> bsize n + 8 \<le> t"
    using assms unfolding stands_for_def by auto
  ultimately show ?thesis by (simp add: stands_for_def)
qed

lemma stands_split:
  assumes "stands_for M (set (in_use_at 0 bl))" "M q = Some n"
  shows "\<exists>us s vs. bl = us @ (s, True) # vs \<and> q = at (total us + 8) \<and> bsize n + 8 \<le> s \<and> n < 65533"
proof -
  from assms obtain p s where "(p, s) \<in> set (in_use_at 0 bl)" "q = at (p + 8)"
    unfolding stands_for_def by blast
  moreover from this assms have "bsize n + 8 \<le> s" "n < 65533" unfolding stands_for_def by fastforce+
  ultimately show ?thesis using in_use_split [of p s 0 bl] by auto
qed

text \<open>The other blocks start elsewhere.\<close>

abbreviation others :: "blocks \<Rightarrow> nat \<Rightarrow> blocks \<Rightarrow> (nat \<times> nat) set" where
  "others us t vs \<equiv> set (in_use_at 0 us) \<union> set (in_use_at (total us + t) vs)"

lemma others_apart:
  assumes "layout h 0 0 (us @ (t, u) # vs)" "total us + t + total vs = 4096"
  shows "\<forall>(p, s) \<in> others us t vs. at (p + 8) \<noteq> at (total us + 8)"
proof safe
  fix p s
  note L = layout_mid [OF assms(1)]
  assume e: "at (p + 8) = at (total us + 8)"
  show False if "(p, s) \<in> set (in_use_at 0 us)"
  proof -
    have "20 \<le> s" using in_use_aligned [OF L(1)] that by blast
    then show False using in_use_bounds [OF that] e assms(2) by simp
  qed
  show False if "(p, s) \<in> set (in_use_at (total us + t) vs)"
    using in_use_bounds [OF that] e assms(2) L(2) by simp
qed

lemma mem_okD: "mem_ok h bl \<Longrightarrow> layout h 0 0 bl \<and> total bl = 4096"
  by (simp add: mem_ok_def)

lemma run_got:
  assumes "mem_ok h bl" "stands_for M (set (in_use_at 0 bl))" "0 < unat n" "unat n < 65533"
    and "mem_malloc n h = Some (Some q, h')"
  shows "\<exists>bl'. mem_ok h' bl' \<and> stands_for (M(q \<mapsto> unat n)) (set (in_use_at 0 bl'))"
proof -
  let ?n = "bsize (unat n)"
  from lwip_malloc_ok [OF assms(1,3,4)] assms(5) obtain q' bl' where
    1: "first_fit ?n 0 bl = Some (q', bl')" "q = at q'" "mem_ok h' bl'"
    by (auto split: option.splits)
  from first_fit_Some [OF 1(1)] obtain us s vs where
    w: "bl = us @ (s, False) # vs" "?n + 8 \<le> s" "q' = total us + 8" "bl' = us @ take_from ?n s @ vs" by auto
  have t: "total us + s + total vs = 4096" using mem_okD [OF assms(1)] w(1) by simp
  obtain s' where s': "in_use_at (total us) (take_from ?n s) = [(total us, s')]" "?n + 8 \<le> s'"
    using w(2) by (cases "?n + 28 \<le> s") (auto simp: take_from_def)
  have "set (in_use_at 0 bl) = others us s vs" by (simp add: w(1))
  moreover have "set (in_use_at 0 bl') = insert (total us, s') (others us s vs)"
    using w(2) s'(1) by (auto simp: w(4))
  moreover have "\<forall>(p, s) \<in> others us s vs. at (p + 8) \<noteq> at (total us + 8)"
    using mem_okD [OF assms(1)] t unfolding w(1) by (intro others_apart) auto
  ultimately show ?thesis
    using stands_add [OF _ _ assms(4) s'(2), of M "others us s vs" "total us"] assms(2) 1(2,3) w(3) by auto
qed

lemma run_gave:
  assumes "mem_ok h bl" "stands_for M (set (in_use_at 0 bl))" "M q = Some n"
  shows "\<exists>h' bl'. mem_free (Some q) h = Some h' \<and> mem_ok h' bl' \<and> stands_for (M(q := None)) (set (in_use_at 0 bl'))"
proof -
  from stands_split [OF assms(2,3)] obtain us s vs where
    w: "bl = us @ (s, True) # vs" "q = at (total us + 8)" by blast
  have t: "total us + s + total vs = 4096" using mem_okD [OF assms(1)] w(1) by simp
  from lwip_free_ok [OF assms(1) [unfolded w(1)] w(2)] obtain h' where
    h': "mem_free (Some q) h = Some h'" "mem_ok h' (join_blocks (us @ (s, False) # vs))" by blast
  have "set (in_use_at 0 bl) = insert (total us, s) (others us s vs)" by (simp add: w(1))
  moreover have "set (in_use_at 0 (join_blocks (us @ (s, False) # vs))) = others us s vs" by simp
  moreover have "\<forall>(p, s) \<in> others us s vs. at (p + 8) \<noteq> at (total us + 8)"
    using mem_okD [OF assms(1)] t unfolding w(1) by (intro others_apart) auto
  ultimately show ?thesis using stands_del assms(2) h' w(2) by metis
qed

lemma shrink_in_use:
  assumes "n + 8 \<le> s"
  obtains s' where "n + 8 \<le> s'" "in_use_at p (shrink n s vs) = (p, s') # in_use_at (p + s) vs"
proof (cases "\<exists>t vs'. vs = (t, False) # vs'")
  case True
  with assms that show thesis by (cases "n + 8 = s") (auto simp: shrink_def add.assoc)
next
  case False
  then have "shrink n s vs = (if n + 8 \<noteq> s \<and> n + 28 \<le> s then (n + 8, True) # (s - (n + 8), False) # vs else (s, True) # vs)"
    by (cases vs) (auto simp: shrink_def split: bool.splits)
  with assms that show thesis by (auto split: if_splits)
qed

lemma bsize_mono: "m \<le> n \<Longrightarrow> bsize m \<le> bsize n"
  by (auto simp: bsize_def max_def)

lemma run_shrunk:
  assumes "mem_ok h bl" "stands_for M (set (in_use_at 0 bl))" "M q = Some n" "unat m \<le> n"
  shows "\<exists>h' bl'. mem_realloc q m h = Some (Some q, h') \<and> mem_ok h' bl' \<and>
    stands_for (M(q \<mapsto> unat m)) (set (in_use_at 0 bl'))"
proof -
  let ?m = "bsize (unat m)"
  from stands_split [OF assms(2,3)] obtain us s vs where
    w: "bl = us @ (s, True) # vs" "q = at (total us + 8)" "bsize n + 8 \<le> s" "n < 65533" by blast
  have m: "unat m < 65533" "?m + 8 \<le> s" using assms(4) w(3,4) bsize_mono [OF assms(4)] by simp_all
  have t: "total us + s + total vs = 4096" using mem_okD [OF assms(1)] w(1) by simp
  from lwip_realloc_ok [OF assms(1) [unfolded w(1)] w(2) m] obtain h' where
    h': "mem_realloc q m h = Some (Some q, h')" "mem_ok h' (us @ shrink ?m s vs)" by blast
  obtain s' where s': "?m + 8 \<le> s'" "in_use_at (total us) (shrink ?m s vs) = (total us, s') # in_use_at (total us + s) vs"
    using m(2) by (rule shrink_in_use)
  have "set (in_use_at 0 bl) = insert (total us, s) (others us s vs)" by (simp add: w(1))
  moreover have "set (in_use_at 0 (us @ shrink ?m s vs)) = insert (total us, s') (others us s vs)" by (simp add: s'(2))
  moreover have o: "\<forall>(p, s) \<in> others us s vs. at (p + 8) \<noteq> at (total us + 8)"
    using mem_okD [OF assms(1)] t unfolding w(1) by (intro others_apart) auto
  moreover have "stands_for M (insert (total us, s) (others us s vs))" using assms(2) calculation(1) by simp
  from stands_add [OF stands_del [OF this o] o m(1) s'(1)]
  have "stands_for (M(q \<mapsto> unat m)) (insert (total us, s') (others us s vs))" by (simp add: w(2))
  ultimately have "stands_for (M(q \<mapsto> unat m)) (set (in_use_at 0 (us @ shrink ?m s vs)))" by simp
  then show ?thesis using h' by auto
qed

text \<open>Every state of a run stands for a list of blocks.\<close>

lemma run_ok: "lwip_run h M \<Longrightarrow> \<exists>bl. mem_ok h bl \<and> stands_for M (set (in_use_at 0 bl))"
proof (induction rule: lwip_run.induct)
  case (start h)
  have "stands_for Map.empty (set (in_use_at 0 [(4096, False)]))" by (simp add: stands_for_def)
  with mem_init_ok show ?case by blast
next
  case (got h M n q h')
  then show ?case using run_got by blast
next
  case (refused h M n h')
  then obtain bl where bl: "mem_ok h bl" "stands_for M (set (in_use_at 0 bl))" by blast
  have "h' = h"
  proof (cases "n = 0")
    case True
    with refused(3) show ?thesis by (simp add: mem_malloc_def Let_def)
  next
    case False
    then have "0 < unat n" by (simp add: unat_gt_0)
    from lwip_malloc_ok [OF bl(1) this refused(2)] refused(3) show ?thesis by (auto split: option.splits)
  qed
  with bl show ?case by blast
next
  case (gave h M q n h')
  then show ?case using run_gave by fastforce
next
  case (shrunk h M q n m h')
  then show ?case using run_shrunk by fastforce
qed

lemma stands_at:
  assumes "stands_for M U" "M q = Some n"
  shows "\<exists>p s. (p, s) \<in> U \<and> q = at (p + 8) \<and> bsize n + 8 \<le> s"
proof -
  from assms obtain p s where "(p, s) \<in> U" "q = at (p + 8)" unfolding stands_for_def by blast
  with assms show ?thesis unfolding stands_for_def by fastforce
qed

lemma all_freed:
  assumes "plugged bl" "\<forall>b\<in>set bl. \<not> snd b" "total bl = 4096"
  shows "bl = [(4096, False)]"
  using assms by (cases bl rule: plugged.cases) auto

lemma in_use_none: "in_use_at p bl = [] \<Longrightarrow> \<forall>b\<in>set bl. \<not> snd b"
  by (induction p bl rule: in_use_at.induct) (auto split: if_splits)

text \<open>What the users of the heap rely on.\<close>

lemma run_apart:
  assumes "lwip_run h M" "M q = Some n"
  shows "4 dvd unat q \<and> 8 \<le> unat q \<and> unat q + n \<le> 4096 \<and>
    (\<exists>h'. mem_free (Some q) h = Some h') \<and> (\<forall>m. unat m \<le> n \<longrightarrow> (\<exists>h'. mem_realloc q m h = Some (Some q, h'))) \<and>
    (\<forall>r m. M r = Some m \<longrightarrow> r = q \<or> unat q + n \<le> unat r \<or> unat r + m \<le> unat q)"
proof -
  from run_ok [OF assms(1)] obtain bl where bl: "mem_ok h bl" "stands_for M (set (in_use_at 0 bl))" by blast
  from bl(1) have L: "layout h 0 0 bl" "total bl = 4096" by (simp_all add: mem_ok_def)
  from stands_at [OF bl(2) assms(2)] obtain p s where
    p: "(p, s) \<in> set (in_use_at 0 bl)" "q = at (p + 8)" "bsize n + 8 \<le> s" by blast
  have b: "p + s \<le> 4096" "n \<le> bsize n" using in_use_bounds [OF p(1)] L(2) bsize(1) by simp_all
  have a: "4 dvd p" using in_use_aligned [OF L(1) p(1)] by simp
  have "r = q \<or> unat q + n \<le> unat r \<or> unat r + m \<le> unat q" if r: "M r = Some m" for r m
  proof -
    from stands_at [OF bl(2) r] obtain p' s' where
      p': "(p', s') \<in> set (in_use_at 0 bl)" "r = at (p' + 8)" "bsize m + 8 \<le> s'" by blast
    have "p' + s' \<le> 4096" "m \<le> bsize m" using in_use_bounds [OF p'(1)] L(2) bsize(1) by simp_all
    then show ?thesis using in_use_apart [OF p(1) p'(1)] p(2,3) p'(2,3) b by auto
  qed
  moreover have "\<exists>h'. mem_realloc q m h = Some (Some q, h')" if "unat m \<le> n" for m
    using run_shrunk [OF bl assms(2) that] by blast
  moreover have "unat q = p + 8" using b p(2,3) by simp
  moreover have "4 dvd p + 8" using a by simp
  ultimately show ?thesis
    using run_gave [OF bl assms(2)] b p(3) by auto
qed

lemma run_malloc:
  assumes "lwip_run h M" "0 < unat n" "unat n < 65533"
  shows "\<exists>r h'. mem_malloc n h = Some (r, h') \<and>
    (case r of None \<Rightarrow> h' = h | Some q \<Rightarrow> M q = None \<and> lwip_run h' (M(q \<mapsto> unat n)))"
proof -
  from run_ok [OF assms(1)] obtain bl where bl: "mem_ok h bl" "stands_for M (set (in_use_at 0 bl))" by blast
  show ?thesis
  proof (cases "first_fit (bsize (unat n)) 0 bl")
    case None
    then show ?thesis using lwip_malloc_ok [OF bl(1) assms(2,3)] by auto
  next
    case (Some r)
    then obtain q' bl' where r: "first_fit (bsize (unat n)) 0 bl = Some (q', bl')" by (cases r) auto
    with lwip_malloc_ok [OF bl(1) assms(2,3)] obtain h' where h': "mem_malloc n h = Some (Some (at q'), h')" by auto
    from first_fit_Some [OF r] obtain us s vs where w: "bl = us @ (s, False) # vs" "q' = total us + 8" by auto
    have "\<forall>(p, s) \<in> others us s vs. at (p + 8) \<noteq> at (total us + 8)"
      using mem_okD [OF bl(1)] unfolding w(1) by (intro others_apart) auto
    then have o: "at (p + 8) \<noteq> at q'" if "(p, s') \<in> others us s vs" for p s' using that by (auto simp: w(2))
    have "dom M = {at (p + 8) |p s'. (p, s') \<in> others us s vs}" using bl(2) by (simp add: stands_for_def w(1))
    have "at q' \<notin> dom M"
    proof
      assume "at q' \<in> dom M"
      then obtain p s' where "at q' = at (p + 8)" "(p, s') \<in> others us s vs"
        unfolding \<open>dom M = _\<close> by blast
      then show False using o [of p s'] by simp
    qed
    then show ?thesis using h' lwip_run.got [OF assms h'] by auto
  qed
qed

section \<open>Properties\<close>

definition heap_demo :: lwip_heap where
  "heap_demo = \<lparr>mem_next = (\<lambda>_. 0), mem_prev = (\<lambda>_. 0), mem_used = (\<lambda>_. False), lfree = 0\<rparr>"

text \<open>
  Claim C14.  \<open>mem_malloc\<close> is first fit: the first free block, in the order of addresses, that has the rounded
  size is cut or taken whole, and the result points behind its struct; \<open>NULL\<close> means that there is none, and then nothing
  has changed.  The search from \<open>lfree\<close> and the bound of the loop leave out no block that fits.\<close>

theorem lwip_malloc_first_fit:
  assumes "mem_ok h bl" "0 < unat n" "unat n < 65533"
  shows "case first_fit (bsize (unat n)) 0 bl of
      None \<Rightarrow> mem_malloc n h = Some (None, h)
    | Some (q, bl') \<Rightarrow> \<exists>h'. mem_malloc n h = Some (Some (at q), h') \<and> mem_ok h' bl'"
  using assms by (rule lwip_malloc_ok)

theorem lwip_malloc_first_fit_witness:
  "\<exists>h'. mem_malloc 100 (mem_init heap_demo) = Some (Some (at 8), h') \<and> mem_ok h' [(108, True), (3988, False)]"
  using lwip_malloc_first_fit [OF mem_init_ok [of heap_demo], of 100] by (simp add: bsize_def block_fits_def take_from_def)

lemma run_gap:
  assumes "lwip_run h M" "M q = Some n" "M r = Some m"
  shows "r = q \<or> unat q + n + 8 \<le> unat r \<or> unat r + m + 8 \<le> unat q"
proof -
  from run_ok [OF assms(1)] obtain bl where bl: "mem_ok h bl" "stands_for M (set (in_use_at 0 bl))" by blast
  from bl(1) have t: "total bl = 4096" by (simp add: mem_ok_def)
  from stands_at [OF bl(2) assms(2)] obtain p s where
    p: "(p, s) \<in> set (in_use_at 0 bl)" "q = at (p + 8)" "bsize n + 8 \<le> s" by blast
  from stands_at [OF bl(2) assms(3)] obtain p' s' where
    p': "(p', s') \<in> set (in_use_at 0 bl)" "r = at (p' + 8)" "bsize m + 8 \<le> s'" by blast
  have b: "p + s \<le> 4096" "n \<le> bsize n" "p' + s' \<le> 4096" "m \<le> bsize m"
    using in_use_bounds [OF p(1)] in_use_bounds [OF p'(1)] t bsize(1) by simp_all
  then have "unat q = p + 8" "unat r = p' + 8" using p(2,3) p'(2,3) by simp_all
  with in_use_apart [OF p(1) p'(1)] p(2,3) p'(2,3) b show ?thesis by auto
qed

lemma run_malloc_any:
  assumes "lwip_run h M" "unat n < 65533"
  shows "\<exists>r h'. mem_malloc n h = Some (r, h') \<and> (r = None \<longrightarrow> h' = h) \<and> (\<forall>q. r = Some q \<longrightarrow> M q = None)"
proof (cases "n = 0")
  case False
  then have "0 < unat n" by (simp add: unat_gt_0)
  from run_malloc [OF assms(1) this assms(2)] show ?thesis by (auto split: option.splits)
qed (simp add: mem_malloc_def Let_def)

text \<open>
  Claim C13.  Along any run of allocations of less than 65533 bytes (larger requests wrap, see \<open>lwip_size_wraps\<close>),
  releases of memory in use and shrinkings, each call returns: an allocation with \<open>NULL\<close> and nothing changed, or with
  memory that was not in use; a release; a shrinking with the same pointer.  The memory handed out is aligned,
  lies inside the heap behind a struct of its own (eight bytes), and no two pieces of it or their structs overlap.\<close>

theorem lwip_heap_apart:
  assumes "lwip_run h M"
  shows "(\<forall>n. unat n < 65533 \<longrightarrow> (\<exists>r h'. mem_malloc n h = Some (r, h') \<and> (r = None \<longrightarrow> h' = h) \<and>
      (\<forall>q. r = Some q \<longrightarrow> M q = None))) \<and>
    (\<forall>q n. M q = Some n \<longrightarrow> 4 dvd unat q \<and> 8 \<le> unat q \<and> unat q + n \<le> 4096 \<and>
      (\<exists>h'. mem_free (Some q) h = Some h') \<and> (\<forall>m. unat m \<le> n \<longrightarrow> (\<exists>h'. mem_realloc q m h = Some (Some q, h'))) \<and>
      (\<forall>r m. M r = Some m \<longrightarrow> r = q \<or> unat q + n + 8 \<le> unat r \<or> unat r + m + 8 \<le> unat q))"
proof (intro conjI allI impI)
  fix q n assume q: "M q = Some n"
  from run_apart [OF assms q] show "4 dvd unat q" "8 \<le> unat q" "unat q + n \<le> 4096"
    "\<exists>h'. mem_free (Some q) h = Some h'" by blast+
  show "\<exists>h'. mem_realloc q m h = Some (Some q, h')" if "unat m \<le> n" for m
    using run_apart [OF assms q] that by blast
  show "r = q \<or> unat q + n + 8 \<le> unat r \<or> unat r + m + 8 \<le> unat q" if "M r = Some m" for r m
    by (rule run_gap [OF assms q that])
qed (rule run_malloc_any [OF assms])

theorem lwip_heap_apart_witness:
  "\<exists>h' q M. lwip_run h' M \<and> M q = Some 100 \<and> 4 dvd unat q \<and> unat q + 100 \<le> 4096"
proof -
  obtain h' where "mem_malloc 100 (mem_init heap_demo) = Some (Some (at 8), h')"
    using lwip_malloc_ok [OF mem_init_ok, of 100] by (auto simp: bsize_def block_fits_def take_from_def)
  from lwip_run.got [OF lwip_run.start _ _ this] have r: "lwip_run h' (Map.empty(at 8 \<mapsto> 100))" by simp
  from lwip_heap_apart [OF r, THEN conjunct2, THEN spec, THEN spec, of "at 8" 100] r show ?thesis
    by (intro exI [of _ h'] exI [of _ "at 8"] exI [of _ "Map.empty(at 8 \<mapsto> 100)"]) simp
qed

text \<open>
  Claim C15.  When everything has been given back, in whatever order, the heap is one free block again: the next request
  of up to 4088 bytes is met.\<close>

theorem lwip_heap_heals:
  assumes "lwip_run h Map.empty" "0 < unat n" "unat n \<le> 4088"
  shows "mem_ok h [(4096, False)] \<and> (\<exists>h'. mem_malloc n h = Some (Some 8, h'))"
proof -
  from run_ok [OF assms(1)] obtain bl where bl: "mem_ok h bl" "stands_for Map.empty (set (in_use_at 0 bl))" by blast
  then have none: "(p, s) \<notin> set (in_use_at 0 bl)" for p s unfolding stands_for_def by auto
  have "in_use_at 0 bl = []"
  proof (cases "in_use_at 0 bl")
    case (Cons x xs)
    then show ?thesis using none [of "fst x" "snd x"] by simp
  qed
  from in_use_none [OF this] bl(1) have "bl = [(4096, False)]" by (intro all_freed) (simp_all add: mem_ok_def)
  with bl(1) have h: "mem_ok h [(4096, False)]" by simp
  have "4 * ((unat n + 3) div 4) \<le> 4088" using assms(3) by presburger
  then have "block_fits (bsize (unat n)) (4096, False)" by (auto simp: block_fits_def bsize_def)
  then show ?thesis using lwip_malloc_ok [OF h assms(2)] assms(3) h by (auto simp: at_def)
qed

theorem lwip_heap_heals_witness: "\<exists>h'. mem_malloc 4088 (mem_init heap_demo) = Some (Some 8, h')"
  using lwip_heap_heals [OF lwip_run.start, of 4088 heap_demo] by simp

text \<open>
  Claim C36.  The 16 bits of \<open>mem_size_t\<close> are not guarded: a request of 65533 bytes or more is rounded to
  nothing and served with twelve bytes, and \<open>mem_calloc\<close> of 257 elements of 256 bytes gets a block of 256 bytes and then
  clears 65792, sixteen times the whole heap.\<close>

theorem lwip_size_wraps:
  "mem_malloc 65533 h = mem_malloc 12 h \<and> mem_malloc 65534 h = mem_malloc 12 h \<and> mem_malloc 65535 h = mem_malloc 12 h \<and>
   (\<exists>h'. mem_calloc 257 256 (mem_init h) = Some (Some (8, 65792), h') \<and> mem_ok h' [(264, True), (3832, False)])"
proof -
  have b: "block_size 65533 = 12" "block_size 65534 = 12" "block_size 65535 = 12" "block_size 12 = 12"
    by (simp_all add: block_size_def LWIP_MEM_ALIGN_SIZE_def MEM_ALIGNMENT_def)
  obtain h' where "mem_malloc 256 (mem_init h) = Some (Some (at 8), h')" "mem_ok h' [(264, True), (3832, False)]"
    using lwip_malloc_ok [OF mem_init_ok, of 256 h] by (auto simp: bsize_def block_fits_def take_from_def)
  moreover have "(257::u16) * 256 = 256" by simp
  ultimately have "\<exists>h'. mem_calloc 257 256 (mem_init h) = Some (Some (8, 65792), h') \<and> mem_ok h' [(264, True), (3832, False)]"
    unfolding mem_calloc_def by (simp only:) (simp add: at_def)
  then show ?thesis by (simp add: mem_malloc_def [of 65533] mem_malloc_def [of 65534] mem_malloc_def [of 65535]
      mem_malloc_def [of 12] b)
qed

end
