(* ===== verification/Pbuf.thy ===== *)
theory Pbuf
  imports Lwip_Mem_Props
begin

text \<open>
  The packet buffers of the TCP/IP stack (\<open>Lwip-1.3.2/src/core/pbuf.c\<close>).

  Every \<open>struct pbuf\<close> lies in a piece of memory from \<open>mem_malloc\<close>, the pools included (\<open>MEMP_MEM_MALLOC\<close> in
  \<open>lwipopts.h\<close>), and is named by the offset that \<open>mem_malloc\<close> returned.  The structs are kept apart from the bytes of
  the memory, which \<open>payload\<close> points into.  \<open>lwipopts.h\<close> defines \<open>LWIP_NOASSERT\<close> and \<open>LWIP_NOERROR\<close>, so the
  assertions and the checks written as \<open>LWIP_ERROR\<close> are not there.  \<open>None\<close> as the result of a function is the use of
  \<open>NULL\<close> or of a pbuf that has been freed, or a loop that does not end.
\<close>

section \<open>State\<close>

datatype pbuf_type = PBUF_RAM | PBUF_ROM | PBUF_REF | PBUF_POOL
datatype pbuf_layer = PBUF_TRANSPORT | PBUF_IP | PBUF_LINK | PBUF_RAW

text \<open>\<open>p_payload\<close> is an offset into the memory, 0 for \<open>NULL\<close>.\<close>

record pbuf =
  p_next :: "u16 option"
  p_payload :: nat
  p_tot_len :: u16
  p_len :: u16
  p_type :: pbuf_type
  p_flags :: u8
  p_ref :: u16

record netmem =
  heap_of :: lwip_heap
  bufs :: "u16 \<rightharpoonup> pbuf"
  bytes_of :: "nat \<Rightarrow> u8"

definition SIZEOF_STRUCT_PBUF :: u16 where [prog_defs]: "SIZEOF_STRUCT_PBUF = LWIP_MEM_ALIGN_SIZE 16"
definition PBUF_POOL_BUFSIZE_ALIGNED :: u16 where [prog_defs]: "PBUF_POOL_BUFSIZE_ALIGNED = LWIP_MEM_ALIGN_SIZE 512"
definition PBUF_TRANSPORT_HLEN :: u16 where [prog_defs]: "PBUF_TRANSPORT_HLEN = 20"
definition PBUF_IP_HLEN :: u16 where [prog_defs]: "PBUF_IP_HLEN = 20"
definition PBUF_LINK_HLEN :: u16 where [prog_defs]: "PBUF_LINK_HLEN = 16"

text \<open>The sizes of the elements of the two pools, from \<open>memp_std.h\<close>.\<close>

definition MEMP_PBUF_POOL_size :: u16 where [prog_defs]:
  "MEMP_PBUF_POOL_size = LWIP_MEM_ALIGN_SIZE (LWIP_MEM_ALIGN_SIZE 16 + LWIP_MEM_ALIGN_SIZE 512)"
definition MEMP_PBUF_size :: u16 where [prog_defs]:
  "MEMP_PBUF_size = LWIP_MEM_ALIGN_SIZE (LWIP_MEM_ALIGN_SIZE 16 + LWIP_MEM_ALIGN_SIZE 0)"

definition ERR_OK :: int where [prog_defs]: "ERR_OK = 0"
definition ERR_ARG :: int where [prog_defs]: "ERR_ARG = - 10"

definition set_buf :: "u16 \<Rightarrow> pbuf \<Rightarrow> netmem \<Rightarrow> netmem" where
  "set_buf p b m = m\<lparr>bufs := (bufs m)(p \<mapsto> b)\<rparr>"

definition load_data :: "netmem \<Rightarrow> nat \<Rightarrow> nat \<Rightarrow> u8 list" where
  "load_data m a n = map (\<lambda>i. bytes_of m (a + i)) [0..<n]"

definition store_data :: "nat \<Rightarrow> u8 list \<Rightarrow> netmem \<Rightarrow> netmem" where
  "store_data a xs m =
     m\<lparr>bytes_of := (\<lambda>i. if a \<le> i \<and> i < a + length xs then xs ! (i - a) else bytes_of m i)\<rparr>"

section \<open>Operations\<close>

definition alloc_mem :: "u16 \<Rightarrow> netmem \<Rightarrow> (u16 option \<times> netmem) option" where
  "alloc_mem n m = do { (q, h) \<leftarrow> mem_malloc n (heap_of m); Some (q, m\<lparr>heap_of := h\<rparr>) }"

text \<open>\<open>memp_free\<close> and \<open>mem_free\<close> of a pbuf.\<close>

definition release :: "u16 \<Rightarrow> netmem \<Rightarrow> netmem option" where
  "release p m = do { h \<leftarrow> mem_free (Some p) (heap_of m); Some (m\<lparr>heap_of := h, bufs := (bufs m)(p := None)\<rparr>) }"

partial_function (option) free_loop :: "u8 \<Rightarrow> u16 option \<Rightarrow> netmem \<Rightarrow> (u8 \<times> netmem) option" where
  [code]: "free_loop count q m = (case q of
     None \<Rightarrow> Some (count, m)
   | Some p \<Rightarrow> do {
       b \<leftarrow> bufs m p;
       let ref = p_ref b - 1;
       if ref = 0 then do { m \<leftarrow> release p m; free_loop (count + 1) (p_next b) m }
       else Some (count, set_buf p (b\<lparr>p_ref := ref\<rparr>) m)
     })"

definition pbuf_free :: "u16 option \<Rightarrow> netmem \<Rightarrow> (u8 \<times> netmem) option" where
  "pbuf_free p m = free_loop 0 p m"

definition pbuf_ref :: "u16 option \<Rightarrow> netmem \<Rightarrow> netmem option" where
  "pbuf_ref q m = (case q of
     None \<Rightarrow> Some m
   | Some p \<Rightarrow> do { b \<leftarrow> bufs m p; Some (set_buf p (b\<lparr>p_ref := p_ref b + 1\<rparr>) m) })"

partial_function (option) clen_loop :: "u8 \<Rightarrow> u16 option \<Rightarrow> netmem \<Rightarrow> u8 option" where
  [code]: "clen_loop n q m = (case q of None \<Rightarrow> Some n | Some p \<Rightarrow> do { b \<leftarrow> bufs m p; clen_loop (n + 1) (p_next b) m })"

definition pbuf_clen :: "u16 option \<Rightarrow> netmem \<Rightarrow> u8 option" where
  "pbuf_clen p m = clen_loop 0 p m"

fun layer_offset :: "pbuf_layer \<Rightarrow> u16" where
  "layer_offset PBUF_TRANSPORT = PBUF_TRANSPORT_HLEN + PBUF_IP_HLEN + PBUF_LINK_HLEN"
| "layer_offset PBUF_IP = PBUF_IP_HLEN + PBUF_LINK_HLEN"
| "layer_offset PBUF_LINK = PBUF_LINK_HLEN"
| "layer_offset PBUF_RAW = 0"

definition align_addr :: "nat \<Rightarrow> nat" where
  "align_addr a = (a + 3) div 4 * 4"

text \<open>The loop that allocates the rest of a chain behind \<open>r\<close>; the chain starts with \<open>p\<close>.\<close>

partial_function (option) alloc_tail :: "u16 \<Rightarrow> u16 \<Rightarrow> nat \<Rightarrow> netmem \<Rightarrow> (u16 option \<times> netmem) option" where
  [code]: "alloc_tail p r rem_len m =
     (if rem_len > 0 then do {
        (q, m) \<leftarrow> alloc_mem MEMP_PBUF_POOL_size m;
        case q of
          None \<Rightarrow> do { (n, m) \<leftarrow> pbuf_free (Some p) m; Some (None, m) }
        | Some q \<Rightarrow> do {
            let len = min (of_nat rem_len) PBUF_POOL_BUFSIZE_ALIGNED;
            let m = set_buf q \<lparr>p_next = None, p_payload = unat q + unat SIZEOF_STRUCT_PBUF, p_tot_len = of_nat rem_len,
              p_len = len, p_type = PBUF_POOL, p_flags = 0, p_ref = 1\<rparr> m;
            b \<leftarrow> bufs m r;
            let m = set_buf r (b\<lparr>p_next := Some q\<rparr>) m;
            alloc_tail p q (rem_len - unat len) m
          }
      }
      else Some (Some p, m))"

definition pbuf_alloc :: "pbuf_layer \<Rightarrow> u16 \<Rightarrow> pbuf_type \<Rightarrow> netmem \<Rightarrow> (u16 option \<times> netmem) option" where
  "pbuf_alloc layer n type m =
     (let offset = layer_offset layer in
      if type = PBUF_POOL then do {
        (q, m) \<leftarrow> alloc_mem MEMP_PBUF_POOL_size m;
        case q of
          None \<Rightarrow> Some (None, m)
        | Some p \<Rightarrow> do {
            let len = min n (PBUF_POOL_BUFSIZE_ALIGNED - LWIP_MEM_ALIGN_SIZE offset);
            let m = set_buf p \<lparr>p_next = None, p_payload = align_addr (unat p + unat (SIZEOF_STRUCT_PBUF + offset)),
              p_tot_len = n, p_len = len, p_type = PBUF_POOL, p_flags = 0, p_ref = 1\<rparr> m;
            alloc_tail p p (unat n - unat len) m
          }
      }
      else if type = PBUF_RAM then do {
        (q, m) \<leftarrow> alloc_mem (LWIP_MEM_ALIGN_SIZE (SIZEOF_STRUCT_PBUF + offset) + LWIP_MEM_ALIGN_SIZE n) m;
        case q of
          None \<Rightarrow> Some (None, m)
        | Some p \<Rightarrow> Some (Some p, set_buf p \<lparr>p_next = None,
            p_payload = align_addr (unat p + unat (SIZEOF_STRUCT_PBUF + offset)), p_tot_len = n, p_len = n,
            p_type = PBUF_RAM, p_flags = 0, p_ref = 1\<rparr> m)
      }
      else do {
        (q, m) \<leftarrow> alloc_mem MEMP_PBUF_size m;
        case q of
          None \<Rightarrow> Some (None, m)
        | Some p \<Rightarrow> Some (Some p, set_buf p \<lparr>p_next = None, p_payload = 0, p_tot_len = n, p_len = n, p_type = type,
            p_flags = 0, p_ref = 1\<rparr> m)
      })"

text \<open>The first loop of \<open>pbuf_realloc\<close>: the last pbuf that stays, and what it keeps.\<close>

partial_function (option) trim_loop :: "u16 \<Rightarrow> u16 \<Rightarrow> u16 \<Rightarrow> netmem \<Rightarrow> (u16 \<times> u16 \<times> netmem) option" where
  [code]: "trim_loop q rem_len grow m = do {
     b \<leftarrow> bufs m q;
     if rem_len > p_len b then do {
       let m = set_buf q (b\<lparr>p_tot_len := p_tot_len b + grow\<rparr>) m;
       nx \<leftarrow> p_next b;
       trim_loop nx (rem_len - p_len b) grow m
     }
     else Some (q, rem_len, m)
   }"

definition pbuf_realloc :: "u16 \<Rightarrow> u16 \<Rightarrow> netmem \<Rightarrow> netmem option" where
  "pbuf_realloc p new_len m = do {
     b \<leftarrow> bufs m p;
     if new_len \<ge> p_tot_len b then Some m
     else do {
       (q, rem_len, m) \<leftarrow> trim_loop p new_len (new_len - p_tot_len b) m;
       b \<leftarrow> bufs m q;
       m \<leftarrow> (if p_type b = PBUF_RAM \<and> rem_len \<noteq> p_len b then do {
              (q', h) \<leftarrow> mem_realloc q (of_nat (p_payload b - unat q) + rem_len) (heap_of m);
              if q' = Some q then Some (m\<lparr>heap_of := h\<rparr>) else None
            }
            else Some m);
       let m = set_buf q (b\<lparr>p_len := rem_len, p_tot_len := rem_len\<rparr>) m;
       m \<leftarrow> (case p_next b of None \<Rightarrow> Some m | Some nx \<Rightarrow> do { (n, m) \<leftarrow> pbuf_free (Some nx) m; Some m });
       b \<leftarrow> bufs m q;
       Some (set_buf q (b\<lparr>p_next := None\<rparr>) m)
     }
   }"

text \<open>\<open>pbuf_header\<close>: the second result is the value that it returns.\<close>

definition pbuf_header :: "u16 option \<Rightarrow> 16 word \<Rightarrow> netmem \<Rightarrow> (netmem \<times> u8) option" where
  "pbuf_header p inc m = (case p of
     None \<Rightarrow> Some (m, 0)
   | Some p \<Rightarrow>
       if inc = 0 then Some (m, 0)
       else do {
         b \<leftarrow> bufs m p;
         let increment_magnitude = (if sint inc < 0 then - inc else inc);
         let payload = int (p_payload b) - sint inc;
         let lengths = (\<lambda>b. b\<lparr>p_len := p_len b + inc, p_tot_len := p_tot_len b + inc\<rparr>);
         if p_type b = PBUF_RAM \<or> p_type b = PBUF_POOL then
           (if payload < int (unat p + unat SIZEOF_STRUCT_PBUF) then Some (m, 1)
            else Some (set_buf p (lengths (b\<lparr>p_payload := nat payload\<rparr>)) m, 0))
         else if sint inc < 0 \<and> increment_magnitude \<le> p_len b then
           Some (set_buf p (lengths (b\<lparr>p_payload := nat payload\<rparr>)) m, 0)
         else Some (m, 1)
       })"

text \<open>The loop of \<open>pbuf_cat\<close> adds the length \<open>n\<close> of the second chain up to the last pbuf, which it returns.\<close>

partial_function (option) cat_loop :: "u16 \<Rightarrow> u16 \<Rightarrow> netmem \<Rightarrow> (u16 \<times> netmem) option" where
  [code]: "cat_loop p t m = do {
     b \<leftarrow> bufs m p;
     case p_next b of
       None \<Rightarrow> Some (p, m)
     | Some nx \<Rightarrow> do {
         tb \<leftarrow> bufs m t;
         cat_loop nx t (set_buf p (b\<lparr>p_tot_len := p_tot_len b + p_tot_len tb\<rparr>) m)
       }
   }"

definition pbuf_cat :: "u16 \<Rightarrow> u16 \<Rightarrow> netmem \<Rightarrow> netmem option" where
  "pbuf_cat h t m = do {
     (p, m) \<leftarrow> cat_loop h t m;
     b \<leftarrow> bufs m p;
     tb \<leftarrow> bufs m t;
     Some (set_buf p (b\<lparr>p_tot_len := p_tot_len b + p_tot_len tb, p_next := Some t\<rparr>) m)
   }"

definition pbuf_chain :: "u16 \<Rightarrow> u16 \<Rightarrow> netmem \<Rightarrow> netmem option" where
  "pbuf_chain h t m = do { m \<leftarrow> pbuf_cat h t m; pbuf_ref (Some t) m }"

definition pbuf_dechain :: "u16 \<Rightarrow> netmem \<Rightarrow> (u16 option \<times> netmem) option" where
  "pbuf_dechain p m = do {
     b \<leftarrow> bufs m p;
     case p_next b of
       None \<Rightarrow> Some (None, m)
     | Some q \<Rightarrow> do {
         qb \<leftarrow> bufs m q;
         let m = set_buf q (qb\<lparr>p_tot_len := p_tot_len b - p_len b\<rparr>) m;
         b \<leftarrow> bufs m p;
         let m = set_buf p (b\<lparr>p_next := None, p_tot_len := p_len b\<rparr>) m;
         (tail_gone, m) \<leftarrow> pbuf_free (Some q) m;
         Some (if tail_gone > 0 then None else Some q, m)
       }
   }"

text \<open>The loop of \<open>pbuf_copy_partial\<close>; the result is what has been copied to \<open>dataptr\<close>.\<close>

partial_function (option) copy_out :: "u16 option \<Rightarrow> u16 \<Rightarrow> u16 \<Rightarrow> netmem \<Rightarrow> u8 list option" where
  [code]: "copy_out p len offset m =
     (if len = 0 then Some []
      else case p of
        None \<Rightarrow> Some []
      | Some p \<Rightarrow> do {
          b \<leftarrow> bufs m p;
          if offset \<noteq> 0 \<and> offset \<ge> p_len b then copy_out (p_next b) len (offset - p_len b) m
          else do {
            let n = min (p_len b - offset) len;
            rest \<leftarrow> copy_out (p_next b) (len - n) 0 m;
            Some (load_data m (p_payload b + unat offset) (unat n) @ rest)
          }
        })"

definition pbuf_copy_partial :: "u16 option \<Rightarrow> u16 \<Rightarrow> u16 \<Rightarrow> netmem \<Rightarrow> (u16 \<times> u8 list) option" where
  "pbuf_copy_partial buf len offset m =
     (case buf of
        None \<Rightarrow> Some (0, [])
      | Some p \<Rightarrow> do { xs \<leftarrow> copy_out (Some p) len offset m; Some (of_nat (length xs), xs) })"

partial_function (option) copy_in :: "u16 option \<Rightarrow> u8 list \<Rightarrow> u16 \<Rightarrow> netmem \<Rightarrow> netmem option" where
  [code]: "copy_in p data left m =
     (if left = 0 then Some m
      else do {
        p \<leftarrow> p;
        b \<leftarrow> bufs m p;
        let n = (if left > p_len b then p_len b else left);
        if unat n \<le> length data
        then copy_in (p_next b) (drop (unat n) data) (left - n) (store_data (p_payload b) (take (unat n) data) m)
        else None
      })"

definition pbuf_take :: "u16 option \<Rightarrow> u8 list \<Rightarrow> u16 \<Rightarrow> netmem \<Rightarrow> (int \<times> netmem) option" where
  "pbuf_take buf data n m =
     (case buf of
        None \<Rightarrow> Some (ERR_ARG, m)
      | Some p \<Rightarrow> do {
          b \<leftarrow> bufs m p;
          if p_tot_len b < n then Some (ERR_ARG, m)
          else do { m \<leftarrow> copy_in (Some p) data n m; Some (ERR_OK, m) }
        })"

partial_function (option) copy_loop :: "u16 option \<Rightarrow> u16 option \<Rightarrow> u16 \<Rightarrow> u16 \<Rightarrow> netmem \<Rightarrow> netmem option" where
  [code]: "copy_loop p_to p_from offset_to offset_from m = do {
     t \<leftarrow> p_to;
     f \<leftarrow> p_from;
     tb \<leftarrow> bufs m t;
     fb \<leftarrow> bufs m f;
     let len = (if int (unat (p_len tb)) - int (unat offset_to) \<ge> int (unat (p_len fb)) - int (unat offset_from)
       then p_len fb - offset_from else p_len tb - offset_to);
     let m = store_data (p_payload tb + unat offset_to) (load_data m (p_payload fb + unat offset_from) (unat len)) m;
     let offset_to = offset_to + len;
     let offset_from = offset_from + len;
     let (p_to, offset_to) = (if offset_to = p_len tb then (p_next tb, 0) else (Some t, offset_to));
     let (p_from, offset_from) = (if offset_from \<ge> p_len fb then (p_next fb, 0) else (Some f, offset_from));
     if p_from = None then Some m else copy_loop p_to p_from offset_to offset_from m
   }"

definition pbuf_copy :: "u16 \<Rightarrow> u16 \<Rightarrow> netmem \<Rightarrow> (int \<times> netmem) option" where
  "pbuf_copy p_to p_from m = do { m \<leftarrow> copy_loop (Some p_to) (Some p_from) 0 0 m; Some (ERR_OK, m) }"

definition pbuf_coalesce :: "u16 \<Rightarrow> pbuf_layer \<Rightarrow> netmem \<Rightarrow> (u16 \<times> netmem) option" where
  "pbuf_coalesce p layer m = do {
     b \<leftarrow> bufs m p;
     case p_next b of
       None \<Rightarrow> Some (p, m)
     | Some _ \<Rightarrow> do {
         (q, m) \<leftarrow> pbuf_alloc layer (p_tot_len b) PBUF_RAM m;
         case q of
           None \<Rightarrow> Some (p, m)
         | Some q \<Rightarrow> do {
             (err, m) \<leftarrow> pbuf_copy q p m;
             (n, m) \<leftarrow> pbuf_free (Some p) m;
             Some (q, m)
           }
       }
   }"

section \<open>Chains\<close>

text \<open>\<open>chain f q ps\<close>: from \<open>q\<close> the links of the pbufs \<open>f\<close> lead through \<open>ps\<close> to \<open>NULL\<close>.\<close>

primrec chain :: "(u16 \<rightharpoonup> pbuf) \<Rightarrow> u16 option \<Rightarrow> u16 list \<Rightarrow> bool" where
  "chain f q [] \<longleftrightarrow> q = None"
| "chain f q (p # ps) \<longleftrightarrow> q = Some p \<and> (\<exists>b. f p = Some b \<and> chain f (p_next b) ps)"

lemma chain_None [simp]: "chain f None ps \<longleftrightarrow> ps = []"
  by (cases ps) auto

lemma chain_Some: "chain f (Some p) ps \<longleftrightarrow> (\<exists>b qs. ps = p # qs \<and> f p = Some b \<and> chain f (p_next b) qs)"
  by (cases ps) auto

lemma chain_unique: "chain f q ps \<Longrightarrow> chain f q qs \<Longrightarrow> ps = qs"
proof (induction ps arbitrary: q qs)
  case (Cons p ps)
  then show ?case by (cases qs) auto
qed auto

lemma chain_dom: "chain f q ps \<Longrightarrow> p \<in> set ps \<Longrightarrow> \<exists>b. f p = Some b"
  by (induction ps arbitrary: q) auto

lemma chain_suffix: "chain f q (ps @ p # qs) \<Longrightarrow> chain f (Some p) (p # qs)"
  by (induction ps arbitrary: q) auto

lemma chain_distinct: "chain f q ps \<Longrightarrow> distinct ps"
proof (induction ps arbitrary: q)
  case (Cons p ps)
  then obtain b where b: "f p = Some b" "chain f (p_next b) ps" by auto
  have "p \<notin> set ps"
  proof
    assume "p \<in> set ps"
    then obtain as bs where ps: "ps = as @ p # bs" by (auto simp: in_set_conv_decomp)
    from chain_suffix b(2) ps have "chain f (Some p) (p # bs)" by blast
    with b have "ps = bs" using chain_unique by auto
    then show False using ps by (simp add: append_eq_Cons_conv)
  qed
  with Cons b show ?case by auto
qed simp

text \<open>Only the links of the pbufs in the chain matter.\<close>

lemma chain_cong:
  assumes "chain f q ps" "\<And>p b. p \<in> set ps \<Longrightarrow> f p = Some b \<Longrightarrow> \<exists>b'. g p = Some b' \<and> p_next b' = p_next b"
  shows "chain g q ps"
  using assms
proof (induction ps arbitrary: q)
  case (Cons p ps)
  then obtain b where b: "q = Some p" "f p = Some b" "chain f (p_next b) ps" by auto
  from Cons.prems(2) [of p b] b obtain b' where "g p = Some b'" "p_next b' = p_next b" by auto
  with b Cons show ?case by auto
qed simp

text \<open>The memory behind the pbufs: each has a piece of the heap of its own, and its data lie in that.\<close>

definition own_data :: "u16 \<Rightarrow> nat \<Rightarrow> pbuf \<Rightarrow> bool" where
  "own_data p n b \<longleftrightarrow> (p_type b = PBUF_RAM \<or> p_type b = PBUF_POOL \<longrightarrow>
     unat p + 16 \<le> p_payload b \<and> p_payload b + unat (p_len b) \<le> unat p + n)"

definition net_inv :: "netmem \<Rightarrow> (u16 \<rightharpoonup> nat) \<Rightarrow> bool" where
  "net_inv m M \<longleftrightarrow> lwip_run (heap_of m) M \<and>
     (\<forall>p b. bufs m p = Some b \<longrightarrow> (\<exists>n. M p = Some n \<and> own_data p n b))"

lemma net_sel [simp]:
  "bufs (set_buf p b m) = (bufs m)(p \<mapsto> b)" "heap_of (set_buf p b m) = heap_of m" "bytes_of (set_buf p b m) = bytes_of m"
  "bufs (store_data a xs m) = bufs m" "heap_of (store_data a xs m) = heap_of m"
  by (simp_all add: set_buf_def store_data_def)

lemma net_inv_dom: "net_inv m M \<Longrightarrow> bufs m p = Some b \<Longrightarrow> \<exists>n. M p = Some n \<and> own_data p n b"
  by (simp add: net_inv_def)

lemma net_inv_fresh: "net_inv m M \<Longrightarrow> M p = None \<Longrightarrow> bufs m p = None"
  using net_inv_dom [of m M p] by (cases "bufs m p") auto

lemma net_inv_set_buf:
  assumes "net_inv m M" "M p = Some n" "own_data p n b"
  shows "net_inv (set_buf p b m) M"
  using assms by (auto simp: net_inv_def)

lemma net_inv_keep:
  assumes "net_inv m M" "bufs m p = Some b" "p_payload b' = p_payload b" "p_len b' = p_len b" "p_type b' = p_type b"
  shows "net_inv (set_buf p b' m) M"
proof -
  from assms obtain n where "M p = Some n" "own_data p n b" unfolding net_inv_def by blast
  with assms show ?thesis by (intro net_inv_set_buf) (auto simp: own_data_def)
qed

section \<open>Release\<close>

lemma release_ok:
  assumes "net_inv m M" "bufs m p = Some b"
  shows "\<exists>h. release p m = Some (m\<lparr>heap_of := h, bufs := (bufs m)(p := None)\<rparr>) \<and>
    net_inv (m\<lparr>heap_of := h, bufs := (bufs m)(p := None)\<rparr>) (M(p := None))"
proof -
  from assms obtain n where n: "M p = Some n" and run: "lwip_run (heap_of m) M" unfolding net_inv_def by blast
  from run_apart [OF run n] obtain h where h: "mem_free (Some p) (heap_of m) = Some h" by blast
  then have "lwip_run h (M(p := None))" using lwip_run.gave [OF run n] by blast
  then show ?thesis using assms h by (auto simp: release_def net_inv_def)
qed

text \<open>
  What \<open>pbuf_free\<close> does to a chain: the pbufs at its front that nobody else refers to go, the first other one loses a
  reference.
\<close>

definition last_ref :: "netmem \<Rightarrow> u16 \<Rightarrow> bool" where
  "last_ref m p \<longleftrightarrow> (\<exists>b. bufs m p = Some b \<and> p_ref b = 1)"

definition gone :: "netmem \<Rightarrow> u16 list \<Rightarrow> u16 list" where "gone m ps = takeWhile (last_ref m) ps"
definition kept :: "netmem \<Rightarrow> u16 list \<Rightarrow> u16 list" where "kept m ps = dropWhile (last_ref m) ps"

definition drop_ref :: "u16 list \<Rightarrow> (u16 \<rightharpoonup> pbuf) \<Rightarrow> (u16 \<rightharpoonup> pbuf)" where
  "drop_ref ps f = (case ps of [] \<Rightarrow> f | p # _ \<Rightarrow> f(p := map_option (\<lambda>b. b\<lparr>p_ref := p_ref b - 1\<rparr>) (f p)))"

lemma restrict_UNIV [simp]: "f |` UNIV = f"
  by (simp add: restrict_map_def)

lemma free_loop_ok:
  assumes "net_inv m M" "chain (bufs m) q ps"
  shows "\<exists>m'. free_loop c q m = Some (c + of_nat (length (gone m ps)), m') \<and>
    bufs m' = drop_ref (kept m ps) (bufs m) |` (- set (gone m ps)) \<and> bytes_of m' = bytes_of m \<and>
    net_inv m' (M |` (- set (gone m ps)))"
  using assms
proof (induction ps arbitrary: q m M c)
  case Nil
  then show ?case by (subst free_loop.simps) (simp add: gone_def kept_def drop_ref_def)
next
  case (Cons p ps)
  then obtain b where b: "q = Some p" "bufs m p = Some b" "chain (bufs m) (p_next b) ps" by auto
  have p: "p \<notin> set ps" using chain_distinct [OF Cons.prems(2)] by simp
  show ?case
  proof (cases "p_ref b = 1")
    case False
    then have g: "gone m (p # ps) = []" "kept m (p # ps) = p # ps" using b(2) by (simp_all add: gone_def kept_def last_ref_def)
    let ?m = "set_buf p (b\<lparr>p_ref := p_ref b - 1\<rparr>) m"
    have "free_loop c q m = Some (c, ?m)" using b False by (subst free_loop.simps) (simp add: Let_def)
    moreover have "net_inv ?m M" using Cons.prems(1) b(2) by (rule net_inv_keep) simp_all
    ultimately show ?thesis using b(2) by (simp add: g drop_ref_def fun_eq_iff)
  next
    case True
    from release_ok [OF Cons.prems(1) b(2)] obtain h where
      h: "release p m = Some (m\<lparr>heap_of := h, bufs := (bufs m)(p := None)\<rparr>)"
        "net_inv (m\<lparr>heap_of := h, bufs := (bufs m)(p := None)\<rparr>) (M(p := None))" by blast
    let ?m = "m\<lparr>heap_of := h, bufs := (bufs m)(p := None)\<rparr>"
    have c: "chain (bufs ?m) (p_next b) ps" by (rule chain_cong [OF b(3)]) (use p in auto)
    have same: "last_ref ?m x = last_ref m x" if "x \<in> set ps" for x using that p by (auto simp: last_ref_def)
    have g: "gone ?m ps = gone m ps" "kept ?m ps = kept m ps"
      using same by (auto simp: gone_def kept_def intro: takeWhile_cong dropWhile_cong)
    have g': "gone m (p # ps) = p # gone m ps" "kept m (p # ps) = kept m ps"
      using b(2) True by (simp_all add: gone_def kept_def last_ref_def)
    from Cons.IH [OF h(2) c, of "c + 1"] obtain m' where m':
      "free_loop (c + 1) (p_next b) ?m = Some (c + 1 + of_nat (length (gone m ps)), m')"
      "bufs m' = drop_ref (kept m ps) (bufs ?m) |` (- set (gone m ps))" "bytes_of m' = bytes_of ?m"
      "net_inv m' (M(p := None) |` (- set (gone m ps)))" unfolding g by blast
    have "free_loop c q m = free_loop (c + 1) (p_next b) ?m"
      using b True h(1) by (subst free_loop.simps) (simp add: Let_def)
    moreover have "drop_ref (kept m ps) (bufs ?m) |` (- set (gone m ps)) =
        drop_ref (kept m ps) (bufs m) |` (- set (p # gone m ps))"
    proof -
      have "x \<in> set ps" if "kept m ps = x # xs" for x xs
        using that set_dropWhileD [of x "last_ref m" ps] by (simp add: kept_def)
      then show ?thesis using p
        by (fastforce simp: drop_ref_def restrict_map_def fun_eq_iff split: list.splits)
    qed
    moreover have "M(p := None) |` (- set (gone m ps)) = M |` (- set (p # gone m ps))"
      by (auto simp: restrict_map_def fun_eq_iff)
    ultimately show ?thesis using m' by (simp add: g' add.assoc)
  qed
qed

lemma free_all:
  assumes "net_inv m M" "chain (bufs m) q ps" "\<And>p. p \<in> set ps \<Longrightarrow> last_ref m p"
  shows "\<exists>m'. pbuf_free q m = Some (of_nat (length ps), m') \<and> bufs m' = bufs m |` (- set ps) \<and>
    bytes_of m' = bytes_of m \<and> net_inv m' (M |` (- set ps))"
proof -
  have "gone m ps = ps" "kept m ps = []" using assms(3) by (auto simp: gone_def kept_def takeWhile_all dropWhile_none)
  with free_loop_ok [OF assms(1,2), of 0] show ?thesis by (simp add: pbuf_free_def drop_ref_def)
qed

section \<open>Allocation\<close>

definition data_size :: "(u16 \<rightharpoonup> pbuf) \<Rightarrow> u16 list \<Rightarrow> nat" where
  "data_size f ps = sum_list (map (\<lambda>p. unat (p_len (the (f p)))) ps)"

text \<open>The invariant of \<open>pbuf.h\<close>: \<open>tot_len\<close> counts the bytes from a pbuf to the end of its chain.\<close>

primrec lengths_ok :: "(u16 \<rightharpoonup> pbuf) \<Rightarrow> u16 list \<Rightarrow> bool" where
  "lengths_ok f [] \<longleftrightarrow> True"
| "lengths_ok f (p # ps) \<longleftrightarrow> unat (p_tot_len (the (f p))) = data_size f (p # ps) \<and> lengths_ok f ps"

lemma data_size_simps [simp]:
  "data_size f [] = 0" "data_size f (p # ps) = unat (p_len (the (f p))) + data_size f ps"
  "data_size f (ps @ qs) = data_size f ps + data_size f qs"
  by (simp_all add: data_size_def)

lemma data_size_cong: "(\<And>p. p \<in> set ps \<Longrightarrow> p_len (the (g p)) = p_len (the (f p))) \<Longrightarrow> data_size g ps = data_size f ps"
  by (induction ps) auto

lemma lengths_ok_cong:
  "(\<And>p. p \<in> set ps \<Longrightarrow> p_len (the (g p)) = p_len (the (f p)) \<and> p_tot_len (the (g p)) = p_tot_len (the (f p))) \<Longrightarrow>
    lengths_ok g ps = lengths_ok f ps"
proof (induction ps)
  case (Cons p ps)
  moreover have "data_size g ps = data_size f ps" using Cons.prems by (intro data_size_cong) simp
  ultimately show ?case by simp
qed simp

lemma pbuf_constants [simp]:
  "SIZEOF_STRUCT_PBUF = 16" "PBUF_POOL_BUFSIZE_ALIGNED = 512" "MEMP_PBUF_POOL_size = 528" "MEMP_PBUF_size = 16"
  by (simp_all add: prog_defs LWIP_MEM_ALIGN_SIZE_def)

lemma alloc_mem_ok:
  assumes "net_inv m M" "0 < unat n" "unat n < 65533"
  shows "\<exists>r m'. alloc_mem n m = Some (r, m') \<and> bufs m' = bufs m \<and> bytes_of m' = bytes_of m \<and>
    (case r of None \<Rightarrow> m' = m | Some q \<Rightarrow> M q = None \<and> net_inv m' (M(q \<mapsto> unat n)))"
proof -
  from assms(1) have run: "lwip_run (heap_of m) M" by (simp add: net_inv_def)
  from run_malloc [OF this assms(2,3)] obtain r h where
    r: "mem_malloc n (heap_of m) = Some (r, h)"
      "case r of None \<Rightarrow> h = heap_of m | Some q \<Rightarrow> M q = None \<and> lwip_run h (M(q \<mapsto> unat n))" by blast
  have "net_inv (m\<lparr>heap_of := h\<rparr>) (M(q \<mapsto> unat n))" if "r = Some q" for q
    using r(2) that assms(1) by (fastforce simp: net_inv_def)
  then show ?thesis using r by (auto simp: alloc_mem_def split: option.splits)
qed

text \<open>A chain that the loop of \<open>pbuf_alloc\<close> makes: new pbufs, each referred to once.\<close>

definition pool_chain :: "netmem \<Rightarrow> u16 \<Rightarrow> u16 list \<Rightarrow> bool" where
  "pool_chain m p ps \<longleftrightarrow> chain (bufs m) (Some p) ps \<and>
     (\<forall>q\<in>set ps. \<exists>b. bufs m q = Some b \<and> p_ref b = 1 \<and> p_type b = PBUF_POOL \<and> unat (p_len b) \<le> 512)"

lemma pool_chain_last_ref: "pool_chain m p ps \<Longrightarrow> q \<in> set ps \<Longrightarrow> last_ref m q"
  unfolding pool_chain_def last_ref_def by blast

lemma chain_snoc:
  assumes "chain f q (ps @ [r])" "f r = Some b" "f s = None"
  shows "chain (f(s \<mapsto> c, r \<mapsto> b\<lparr>p_next := Some s\<rparr>)) q (ps @ [r, s]) \<longleftrightarrow> p_next c = None"
proof -
  have d: "distinct (ps @ [r])" "s \<notin> set (ps @ [r])"
    using chain_distinct [OF assms(1)] chain_dom [OF assms(1), of s] assms(3) by auto
  show ?thesis using assms(1,2) d
  proof (induction ps arbitrary: q)
    case (Cons p ps)
    then obtain b' where "q = Some p" "f p = Some b'" "chain f (p_next b') (ps @ [r])" by auto
    with Cons show ?case by auto
  qed auto
qed

lemma pool_chain_extend:
  assumes "pool_chain m p (ps @ [r])" "bufs m r = Some b" "bufs m q = None"
    and "p_next c = None" "p_ref c = 1" "p_type c = PBUF_POOL" "unat (p_len c) \<le> 512"
  shows "pool_chain (set_buf r (b\<lparr>p_next := Some q\<rparr>) (set_buf q c m)) p ((ps @ [r]) @ [q])"
proof -
  from assms(1) have c: "chain (bufs m) (Some p) (ps @ [r])" by (simp add: pool_chain_def)
  from chain_snoc [OF this assms(2,3)] assms(4)
  have "chain (bufs (set_buf r (b\<lparr>p_next := Some q\<rparr>) (set_buf q c m))) (Some p) ((ps @ [r]) @ [q])" by simp
  moreover have "r \<noteq> q" using assms(2,3) by auto
  ultimately show ?thesis using assms unfolding pool_chain_def by auto
qed

lemma alloc_tail_ok:
  assumes "net_inv m M" "pool_chain m p (ps @ [r])" "n < 65536"
  shows "\<exists>x m'. alloc_tail p r n m = Some (x, m') \<and> bytes_of m' = bytes_of m \<and>
    (case x of
      None \<Rightarrow> bufs m' = bufs m |` (- set (ps @ [r])) \<and> net_inv m' (M |` (- set (ps @ [r])))
    | Some x \<Rightarrow> x = p \<and> (\<exists>qs M' nx. pool_chain m' p ((ps @ [r]) @ qs) \<and> (\<forall>x\<in>set qs. M x = None) \<and>
        (\<forall>y. y \<notin> set qs \<and> y \<noteq> r \<longrightarrow> bufs m' y = bufs m y) \<and>
        bufs m' r = map_option (\<lambda>b. b\<lparr>p_next := nx\<rparr>) (bufs m r) \<and>
        data_size (bufs m') qs = n \<and> lengths_ok (bufs m') qs \<and> net_inv m' M' \<and> M \<subseteq>\<^sub>m M' \<and> dom M' = dom M \<union> set qs))"
  using assms
proof (induction n arbitrary: m M ps r rule: less_induct)
  case (less n)
  from less.prems(2) have c: "chain (bufs m) (Some p) (ps @ [r])" by (simp add: pool_chain_def)
  from chain_dom [OF c] obtain b where b: "bufs m r = Some b" by auto
  show ?case
  proof (cases "n = 0")
    case True
    have "alloc_tail p r n m = Some (Some p, m)" using True by (subst alloc_tail.simps) simp
    then show ?thesis using less.prems b True
      by (intro exI [of _ "Some p"] exI [of _ m]) (auto intro!: exI [of _ "[]"] exI [of _ M] exI [of _ "p_next b"])
  next
    case False
    have u: "unat MEMP_PBUF_POOL_size = 528" by simp
    from alloc_mem_ok [OF less.prems(1), of MEMP_PBUF_POOL_size, unfolded u] obtain x m0 where
      x: "alloc_mem MEMP_PBUF_POOL_size m = Some (x, m0)" "bufs m0 = bufs m" "bytes_of m0 = bytes_of m"
        "case x of None \<Rightarrow> m0 = m | Some q \<Rightarrow> M q = None \<and> net_inv m0 (M(q \<mapsto> 528))" by auto
    show ?thesis
    proof (cases x)
      case None
      with x have m0: "m0 = m" by simp
      from free_all [OF less.prems(1) c pool_chain_last_ref [OF less.prems(2)]] obtain m' where
        "pbuf_free (Some p) m = Some (of_nat (length (ps @ [r])), m')" "bufs m' = bufs m |` (- set (ps @ [r]))"
        "bytes_of m' = bytes_of m" "net_inv m' (M |` (- set (ps @ [r])))" by blast
      moreover from this have "alloc_tail p r n m = Some (None, m')"
        using False x None m0 by (subst alloc_tail.simps) simp
      ultimately show ?thesis by simp
    next
      case (Some q)
      let ?len = "min (of_nat n) PBUF_POOL_BUFSIZE_ALIGNED"
      let ?c = "\<lparr>p_next = None, p_payload = unat q + unat SIZEOF_STRUCT_PBUF, p_tot_len = of_nat n,
              p_len = ?len, p_type = PBUF_POOL, p_flags = 0, p_ref = 1\<rparr>"
      let ?m = "set_buf r (b\<lparr>p_next := Some q\<rparr>) (set_buf q ?c m0)"
      have len: "unat ?len = min n 512" using less.prems(3)
        by (simp add: min_def word_le_nat_alt unat_of_nat take_bit_eq_mod)
      from x Some have q: "M q = None" "net_inv m0 (M(q \<mapsto> 528))" by simp_all
      have nq: "bufs m q = None" using less.prems(1) q(1) by (rule net_inv_fresh)
      then have rq: "r \<noteq> q" using b by auto
      have "own_data q 528 ?c" using len by (simp add: own_data_def)
      then have "net_inv (set_buf q ?c m0) (M(q \<mapsto> 528))" by (intro net_inv_set_buf [OF q(2)]) simp_all
      then have inv: "net_inv ?m (M(q \<mapsto> 528))" by (rule net_inv_keep) (use b x(2) rq in simp_all)
      have "pool_chain m0 p (ps @ [r])" using less.prems(2) x(2) by (simp add: pool_chain_def)
      then have pc: "pool_chain ?m p ((ps @ [r]) @ [q])"
        by (rule pool_chain_extend) (use b nq x(2) len in simp_all)
      have step: "alloc_tail p r n m = alloc_tail p q (n - unat ?len) ?m"
        using False x(1,2) Some b rq by (subst alloc_tail.simps) (simp add: Let_def)
      have lt: "n - unat ?len < n" "n - unat ?len < 65536" using False len less.prems(3) by auto
      from less.IH [OF lt(1) inv pc lt(2)] obtain y m' where
        y: "alloc_tail p q (n - unat ?len) ?m = Some (y, m')" "bytes_of m' = bytes_of m"
          "case y of
            None \<Rightarrow> bufs m' = bufs ?m |` (- set ((ps @ [r]) @ [q])) \<and> net_inv m' (M(q \<mapsto> 528) |` (- set ((ps @ [r]) @ [q])))
          | Some y \<Rightarrow> y = p \<and> (\<exists>qs M' nx. pool_chain m' p (((ps @ [r]) @ [q]) @ qs) \<and> (\<forall>x\<in>set qs. (M(q \<mapsto> 528)) x = None) \<and>
              (\<forall>z. z \<notin> set qs \<and> z \<noteq> q \<longrightarrow> bufs m' z = bufs ?m z) \<and>
              bufs m' q = map_option (\<lambda>b. b\<lparr>p_next := nx\<rparr>) (bufs ?m q) \<and>
              data_size (bufs m') qs = n - unat ?len \<and> lengths_ok (bufs m') qs \<and> net_inv m' M' \<and>
              M(q \<mapsto> 528) \<subseteq>\<^sub>m M' \<and> dom M' = dom (M(q \<mapsto> 528)) \<union> set qs)"
        using x(3) by auto
      show ?thesis
      proof (cases y)
        case None
        have d: "bufs ?m |` (- set ((ps @ [r]) @ [q])) = bufs m |` (- set (ps @ [r]))"
          using nq x(2) by (auto simp: fun_eq_iff restrict_map_def)
        have "M(q \<mapsto> 528) |` (- set ((ps @ [r]) @ [q])) = M |` (- set (ps @ [r]))"
          using q(1) by (auto simp: fun_eq_iff restrict_map_def)
        with None y d step show ?thesis by (intro exI [of _ None] exI [of _ m']) simp
      next
        case (Some z)
        with y(3) obtain qs M' nx where s: "z = p" "pool_chain m' p (((ps @ [r]) @ [q]) @ qs)" "(\<forall>x\<in>set qs. (M(q \<mapsto> 528)) x = None)"
          "\<forall>z. z \<notin> set qs \<and> z \<noteq> q \<longrightarrow> bufs m' z = bufs ?m z"
          "bufs m' q = map_option (\<lambda>b. b\<lparr>p_next := nx\<rparr>) (bufs ?m q)" "data_size (bufs m') qs = n - unat ?len"
          "lengths_ok (bufs m') qs" "net_inv m' M'" "M(q \<mapsto> 528) \<subseteq>\<^sub>m M'" "dom M' = dom (M(q \<mapsto> 528)) \<union> set qs" by auto
        have r: "r \<in> dom M" using net_inv_dom [OF less.prems(1) b] by auto
        have bq: "bufs m' q = Some (?c\<lparr>p_next := nx\<rparr>)" using s(5) rq by simp
        have br: "bufs m' r = map_option (\<lambda>b. b\<lparr>p_next := Some q\<rparr>) (bufs m r)"
        proof -
          have "r \<notin> set qs" using s(3) r rq by auto
          with s(4) rq have "bufs m' r = bufs ?m r" by blast
          then show ?thesis using b by simp
        qed
        have sz: "data_size (bufs m') (q # qs) = n" using bq s(6) len by simp
        have "lengths_ok (bufs m') (q # qs)" using sz bq s(7) less.prems(3) by (simp add: unat_of_nat take_bit_eq_mod)
        moreover have "M \<subseteq>\<^sub>m M(q \<mapsto> 528)" using q(1) by (auto simp: map_le_def)
        then have "M \<subseteq>\<^sub>m M'" using s(9) by (rule map_le_trans)
        moreover have "(\<forall>x\<in>set (q # qs). M x = None)" using s(3) q(1) by (auto split: if_splits)
        moreover have "\<forall>z. z \<notin> set (q # qs) \<and> z \<noteq> r \<longrightarrow> bufs m' z = bufs m z" using s(4) x(2) by auto
        moreover have "dom M' = dom M \<union> set (q # qs)" using s(10) by auto
        moreover have "pool_chain m' p ((ps @ [r]) @ (q # qs))" using s(2) by simp
        ultimately show ?thesis using step y(1,2) Some s(1,8) sz br
          by (intro exI [of _ "Some p"] exI [of _ m']) (auto intro!: exI [of _ "q # qs"] exI [of _ M'] exI [of _ "Some q"])
      qed
    qed
  qed
qed

text \<open>\<open>pbuf_alloc\<close> from the pool: all or nothing.\<close>

lemma alloc_pool_ok:
  assumes "net_inv m M"
  shows "\<exists>x m'. pbuf_alloc layer n PBUF_POOL m = Some (x, m') \<and> bytes_of m' = bytes_of m \<and>
    (case x of
      None \<Rightarrow> bufs m' = bufs m \<and> net_inv m' M
    | Some p \<Rightarrow> \<exists>ps M'. pool_chain m' p ps \<and> (\<forall>x\<in>set ps. M x = None) \<and> (\<forall>y. y \<notin> set ps \<longrightarrow> bufs m' y = bufs m y) \<and>
        data_size (bufs m') ps = unat n \<and> lengths_ok (bufs m') ps \<and> net_inv m' M' \<and> M \<subseteq>\<^sub>m M')"
proof -
  have u: "unat MEMP_PBUF_POOL_size = 528" by simp
  from alloc_mem_ok [OF assms, of MEMP_PBUF_POOL_size, unfolded u] obtain x m0 where
    x: "alloc_mem MEMP_PBUF_POOL_size m = Some (x, m0)" "bufs m0 = bufs m" "bytes_of m0 = bytes_of m"
      "case x of None \<Rightarrow> m0 = m | Some q \<Rightarrow> M q = None \<and> net_inv m0 (M(q \<mapsto> 528))" by auto
  show ?thesis
  proof (cases x)
    case None
    then show ?thesis using x assms by (auto simp: pbuf_alloc_def Let_def)
  next
    case (Some p)
    with x have p: "M p = None" "net_inv m0 (M(p \<mapsto> 528))" by simp_all
    let ?off = "layer_offset layer"
    let ?len = "min n (PBUF_POOL_BUFSIZE_ALIGNED - LWIP_MEM_ALIGN_SIZE ?off)"
    let ?c = "\<lparr>p_next = None, p_payload = align_addr (unat p + unat (SIZEOF_STRUCT_PBUF + ?off)),
              p_tot_len = n, p_len = ?len, p_type = PBUF_POOL, p_flags = 0, p_ref = 1\<rparr>"
    let ?m = "set_buf p ?c m0"
    have "4 dvd unat p" using run_apart [of "heap_of m0" "M(p \<mapsto> 528)" p 528] p(2) by (simp add: net_inv_def)
    moreover obtain k where k: "LWIP_MEM_ALIGN_SIZE ?off = ?off" "unat ?off = 4 * k" "4 * k \<le> 56"
      "unat (SIZEOF_STRUCT_PBUF + ?off) = 4 * k + 16"
    proof (cases layer)
      case PBUF_TRANSPORT
      then show thesis by (intro that [of 14]) (simp_all add: prog_defs LWIP_MEM_ALIGN_SIZE_def)
    next
      case PBUF_IP
      then show thesis by (intro that [of 9]) (simp_all add: prog_defs LWIP_MEM_ALIGN_SIZE_def)
    next
      case PBUF_LINK
      then show thesis by (intro that [of 4]) (simp_all add: prog_defs LWIP_MEM_ALIGN_SIZE_def)
    next
      case PBUF_RAW
      then show thesis by (intro that [of 0]) (simp_all add: prog_defs LWIP_MEM_ALIGN_SIZE_def)
    qed
    ultimately have pay: "p_payload ?c = unat p + (4 * k + 16)" unfolding pbuf.select_convs k(4) align_addr_def by presburger
    have "unat (PBUF_POOL_BUFSIZE_ALIGNED - ?off) = 512 - 4 * k"
      using k(2,3) by (subst unat_sub) (simp_all add: word_le_nat_alt)
    then have len: "unat ?len = min (unat n) (512 - 4 * k)" unfolding k(1) by (simp add: min_def word_le_nat_alt)
    have "own_data p 528 ?c" using pay len k(3) by (simp add: own_data_def)
    then have inv: "net_inv ?m (M(p \<mapsto> 528))" by (intro net_inv_set_buf [OF p(2)]) simp_all
    have pc: "pool_chain ?m p ([] @ [p])" using len by (simp add: pool_chain_def)
    have step: "pbuf_alloc layer n PBUF_POOL m = alloc_tail p p (unat n - unat ?len) ?m"
      using x(1) Some by (simp add: pbuf_alloc_def Let_def)
    have "unat n - unat ?len < 65536" using unat_u16_lt [of n] by linarith
    from alloc_tail_ok [OF inv pc this] obtain y m' where
      y: "pbuf_alloc layer n PBUF_POOL m = Some (y, m')" "bytes_of m' = bytes_of m"
        "case y of
          None \<Rightarrow> bufs m' = bufs ?m |` (- set ([] @ [p])) \<and> net_inv m' (M(p \<mapsto> 528) |` (- set ([] @ [p])))
        | Some y \<Rightarrow> y = p \<and> (\<exists>qs M' nx. pool_chain m' p (([] @ [p]) @ qs) \<and> (\<forall>x\<in>set qs. (M(p \<mapsto> 528)) x = None) \<and>
            (\<forall>z. z \<notin> set qs \<and> z \<noteq> p \<longrightarrow> bufs m' z = bufs ?m z) \<and>
            bufs m' p = map_option (\<lambda>b. b\<lparr>p_next := nx\<rparr>) (bufs ?m p) \<and>
            data_size (bufs m') qs = unat n - unat ?len \<and> lengths_ok (bufs m') qs \<and> net_inv m' M' \<and>
            M(p \<mapsto> 528) \<subseteq>\<^sub>m M' \<and> dom M' = dom (M(p \<mapsto> 528)) \<union> set qs)"
      unfolding step using x(3) by auto
    show ?thesis
    proof (cases y)
      case None
      have "bufs m p = None" using assms p(1) by (rule net_inv_fresh)
      then have "bufs ?m |` (- set ([] @ [p])) = bufs m" using x(2) by (auto simp: fun_eq_iff restrict_map_def)
      moreover have "M(p \<mapsto> 528) |` (- set ([] @ [p])) = M" using p(1) by (auto simp: fun_eq_iff restrict_map_def)
      ultimately show ?thesis using y None by (intro exI [of _ None] exI [of _ m']) simp
    next
      case (Some z)
      with y(3) obtain qs M' nx where s: "z = p" "pool_chain m' p (([] @ [p]) @ qs)" "(\<forall>x\<in>set qs. (M(p \<mapsto> 528)) x = None)"
        "\<forall>z. z \<notin> set qs \<and> z \<noteq> p \<longrightarrow> bufs m' z = bufs ?m z" "bufs m' p = map_option (\<lambda>b. b\<lparr>p_next := nx\<rparr>) (bufs ?m p)"
        "data_size (bufs m') qs = unat n - unat ?len" "lengths_ok (bufs m') qs" "net_inv m' M'" "M(p \<mapsto> 528) \<subseteq>\<^sub>m M'" by auto
      have bp: "bufs m' p = Some (?c\<lparr>p_next := nx\<rparr>)" using s(5) by simp
      have sz: "data_size (bufs m') (p # qs) = unat n" using bp s(6) len by simp
      moreover have "lengths_ok (bufs m') (p # qs)" using sz bp s(7) by simp
      moreover have "M \<subseteq>\<^sub>m M(p \<mapsto> 528)" using p(1) by (auto simp: map_le_def)
      then have "M \<subseteq>\<^sub>m M'" using s(9) by (rule map_le_trans)
      moreover have "(\<forall>x\<in>set (p # qs). M x = None)" using s(3) p(1) by (auto split: if_splits)
      moreover have "\<forall>y. y \<notin> set (p # qs) \<longrightarrow> bufs m' y = bufs m y" using s(4) x(2) by auto
      moreover have "pool_chain m' p (p # qs)" using s(2) by simp
      ultimately show ?thesis using y(1,2) Some s(1,8)
        by (intro exI [of _ "Some p"] exI [of _ m']) (auto intro!: exI [of _ "p # qs"] exI [of _ M'])
    qed
  qed
qed

section \<open>Contents\<close>

definition piece :: "netmem \<Rightarrow> u16 \<Rightarrow> u8 list" where
  "piece m p = (case bufs m p of None \<Rightarrow> [] | Some b \<Rightarrow> load_data m (p_payload b) (unat (p_len b)))"

definition contents :: "netmem \<Rightarrow> u16 list \<Rightarrow> u8 list" where
  "contents m ps = concat (map (piece m) ps)"

definition writable :: "netmem \<Rightarrow> u16 \<Rightarrow> bool" where
  "writable m p \<longleftrightarrow> (\<exists>b. bufs m p = Some b \<and> (p_type b = PBUF_RAM \<or> p_type b = PBUF_POOL))"

lemma length_load [simp]: "length (load_data m a n) = n"
  by (simp add: load_data_def)

lemma load_split: "load_data m a (j + k) = load_data m a j @ load_data m (a + j) k"
  by (rule nth_equalityI) (auto simp: load_data_def nth_append)

lemma load_part: "j + k \<le> n \<Longrightarrow> load_data m (a + j) k = take k (drop j (load_data m a n))"
  by (rule nth_equalityI) (simp_all add: load_data_def add.assoc)

lemma load_store_same: "load_data (store_data a xs m) a (length xs) = xs"
  by (rule nth_equalityI) (simp_all add: load_data_def store_data_def)

lemma load_store_other:
  "a + n \<le> b \<or> b + length xs \<le> a \<Longrightarrow> load_data (store_data b xs m) a n = load_data m a n"
  by (rule nth_equalityI) (auto simp: load_data_def store_data_def)

lemma load_store_part:
  "length xs \<le> n \<Longrightarrow> load_data (store_data a xs m) a n = xs @ drop (length xs) (load_data m a n)"
proof -
  assume le: "length xs \<le> n"
  let ?m = "store_data a xs m"
  from le obtain k where k: "n = length xs + k" by (auto simp: le_iff_add)
  have "load_data ?m (a + length xs) k = load_data m (a + length xs) k" by (rule load_store_other) simp
  then show ?thesis by (simp add: k load_split load_store_same)
qed

lemma contents_simps [simp]: "contents m [] = []" "contents m (p # ps) = piece m p @ contents m ps"
  "contents m (ps @ qs) = contents m ps @ contents m qs"
  by (simp_all add: contents_def)

lemma contents_cong: "(\<And>p. p \<in> set ps \<Longrightarrow> piece m' p = piece m p) \<Longrightarrow> contents m' ps = contents m ps"
  by (induction ps) (auto simp: contents_def)

lemma length_piece: "bufs m p = Some b \<Longrightarrow> length (piece m p) = unat (p_len b)"
  by (simp add: piece_def)

lemma length_contents: "chain (bufs m) q ps \<Longrightarrow> length (contents m ps) = data_size (bufs m) ps"
  by (induction ps arbitrary: q) (auto simp: length_piece)

text \<open>The data of different pbufs lie apart.\<close>

lemma apart:
  assumes "net_inv m M" "bufs m p = Some b" "bufs m q = Some c" "p \<noteq> q" "writable m p" "writable m q"
  shows "p_payload b + unat (p_len b) \<le> p_payload c \<or> p_payload c + unat (p_len c) \<le> p_payload b"
proof -
  from net_inv_dom [OF assms(1,2)] obtain i where i: "M p = Some i" "own_data p i b" by blast
  from net_inv_dom [OF assms(1,3)] obtain j where j: "M q = Some j" "own_data q j c" by blast
  have "lwip_run (heap_of m) M" using assms(1) by (simp add: net_inv_def)
  from run_apart [OF this i(1)] j(1) assms(4) have "unat p + i \<le> unat q \<or> unat q + j \<le> unat p" by auto
  then show ?thesis using i(2) j(2) assms(2,3,5,6) by (auto simp: own_data_def writable_def)
qed

lemma store_piece:
  assumes "net_inv m M" "bufs m p = Some b" "writable m p" "length xs \<le> unat (p_len b)"
  shows "piece (store_data (p_payload b) xs m) p = xs @ drop (length xs) (piece m p)"
    "q \<noteq> p \<Longrightarrow> writable m q \<Longrightarrow> piece (store_data (p_payload b) xs m) q = piece m q"
proof -
  show "piece (store_data (p_payload b) xs m) p = xs @ drop (length xs) (piece m p)"
    using assms(2,4) by (simp add: piece_def load_store_part)
  assume q: "q \<noteq> p" "writable m q"
  then obtain c where c: "bufs m q = Some c" by (auto simp: writable_def)
  from apart [OF assms(1,2) c] q assms(3,4)
  have "p_payload c + unat (p_len c) \<le> p_payload b \<or> p_payload b + length xs \<le> p_payload c" by auto
  then show "piece (store_data (p_payload b) xs m) q = piece m q" using c by (simp add: piece_def load_store_other)
qed

lemma net_inv_store [simp]: "net_inv (store_data a xs m) M = net_inv m M"
  by (simp add: net_inv_def)

lemma writable_store [simp]: "writable (store_data a xs m) p = writable m p"
  by (simp add: writable_def)

lemma pbuf_copy_in_ok:
  assumes "net_inv m M" "chain (bufs m) q ps" "\<forall>p\<in>set ps. writable m p" "unat n \<le> data_size (bufs m) ps" "unat n \<le> length data"
  shows "\<exists>m'. copy_in q data n m = Some m' \<and> bufs m' = bufs m \<and> heap_of m' = heap_of m \<and>
    contents m' ps = take (unat n) data @ drop (unat n) (contents m ps) \<and>
    (\<forall>p. p \<notin> set ps \<longrightarrow> writable m p \<longrightarrow> piece m' p = piece m p)"
  using assms
proof (induction ps arbitrary: q m n data)
  case Nil
  then have "n = 0" by (simp add: unat_eq_0)
  then show ?case by (subst copy_in.simps) simp
next
  case (Cons p ps)
  show ?case
  proof (cases "n = 0")
    case True
    then show ?thesis by (subst copy_in.simps) simp
  next
    case False
    from Cons.prems(2) obtain b where b: "q = Some p" "bufs m p = Some b" "chain (bufs m) (p_next b) ps" by auto
    have p: "p \<notin> set ps" using chain_distinct [OF Cons.prems(2)] by simp
    let ?k = "if n > p_len b then p_len b else n"
    let ?m = "store_data (p_payload b) (take (unat ?k) data) m"
    have k: "unat ?k = min (unat n) (unat (p_len b))" by (auto simp: word_less_nat_alt)
    then have kn: "?k \<le> n" by (simp add: word_le_nat_alt)
    have lk: "length (take (unat ?k) data) = unat ?k" using k Cons.prems(5) by simp
    have n': "unat (n - ?k) = unat n - unat ?k" using kn by (rule unat_sub)
    have w: "writable m p" and kl: "unat ?k \<le> unat (p_len b)" using Cons.prems(3) k by simp_all
    note S = store_piece [OF Cons.prems(1) b(2) w, of "take (unat ?k) data", unfolded lk, OF kl]
    have "\<exists>m'. copy_in (p_next b) (drop (unat ?k) data) (n - ?k) ?m = Some m' \<and> bufs m' = bufs ?m \<and> heap_of m' = heap_of ?m \<and>
        contents m' ps = take (unat (n - ?k)) (drop (unat ?k) data) @ drop (unat (n - ?k)) (contents ?m ps) \<and>
        (\<forall>p. p \<notin> set ps \<longrightarrow> writable ?m p \<longrightarrow> piece m' p = piece ?m p)"
    proof (rule Cons.IH)
      show "unat (n - ?k) \<le> data_size (bufs ?m) ps" using Cons.prems(4) b(2) k n' by auto
      show "unat (n - ?k) \<le> length (drop (unat ?k) data)" using Cons.prems(5) n' by auto
    qed (use Cons.prems(1,3) b(3) in simp_all)
    then obtain m' where m': "copy_in (p_next b) (drop (unat ?k) data) (n - ?k) ?m = Some m'" "bufs m' = bufs m"
      "heap_of m' = heap_of m"
      "contents m' ps = take (unat (n - ?k)) (drop (unat ?k) data) @ drop (unat (n - ?k)) (contents ?m ps)"
      "\<forall>p. p \<notin> set ps \<longrightarrow> writable m p \<longrightarrow> piece m' p = piece ?m p" by auto
    have step: "copy_in q data n m = Some m'"
      using m'(1) False b lk by (subst copy_in.simps) (simp add: Let_def)
    have c1: "contents ?m ps = contents m ps"
      by (rule contents_cong, rule S(2)) (use p Cons.prems(3) in auto)
    have c2: "piece m' p = take (unat ?k) data @ drop (unat ?k) (piece m p)"
      using m'(5) p w S(1) by simp
    have c3: "length (piece m p) = unat (p_len b)" using b(2) by (rule length_piece)
    have "contents m' (p # ps) = take (unat n) data @ drop (unat n) (contents m (p # ps))"
    proof (cases "unat n \<le> unat (p_len b)")
      case True
      then have "unat ?k = unat n" using k by simp
      then show ?thesis using m'(4) c1 c2 c3 n' True by simp
    next
      case False
      then have e: "unat ?k = unat (p_len b)" "unat n = unat (p_len b) + (unat n - unat (p_len b))" using k by simp_all
      have "take (unat n) data = take (unat (p_len b)) data @ take (unat n - unat (p_len b)) (drop (unat (p_len b)) data)"
        by (subst e(2)) (rule take_add)
      then show ?thesis using m'(4) c1 c2 c3 n' e(1) False by simp
    qed
    moreover have "piece m' x = piece m x" if "x \<notin> set (p # ps)" "writable m x" for x
      using m'(5) S(2) [of x] that by simp
    ultimately show ?thesis using step m'(2,3) by auto
  qed
qed

lemma pbuf_copy_out_ok:
  assumes "chain (bufs m) q ps"
  shows "copy_out q n off m = Some (take (unat n) (drop (unat off) (contents m ps)))"
  using assms
proof (induction ps arbitrary: q n off)
  case Nil
  then show ?case by (subst copy_out.simps) simp
next
  case (Cons p ps)
  then obtain b where b: "q = Some p" "bufs m p = Some b" "chain (bufs m) (p_next b) ps" by auto
  have l: "length (piece m p) = unat (p_len b)" using b(2) by (rule length_piece)
  show ?case
  proof (cases "n = 0")
    case True
    then show ?thesis by (subst copy_out.simps) simp
  next
    case False
    show ?thesis
    proof (cases "off \<noteq> 0 \<and> off \<ge> p_len b")
      case True
      then have "unat (off - p_len b) = unat off - unat (p_len b)" by (simp add: unat_sub)
      then have "drop (unat off) (contents m (p # ps)) = drop (unat (off - p_len b)) (contents m ps)"
        using l True by (simp add: word_le_nat_alt)
      then show ?thesis using False True b Cons.IH [OF b(3)] by (subst copy_out.simps) simp
    next
      case no: False
      let ?k = "min (p_len b - off) n"
      have o: "unat off \<le> unat (p_len b)" using no by (cases "off = 0") (auto simp: word_le_nat_alt not_le)
      then have d: "unat (p_len b - off) = unat (p_len b) - unat off" by (simp add: unat_sub word_le_nat_alt)
      then have k: "unat ?k = min (unat (p_len b) - unat off) (unat n)" by (auto simp: min_def word_le_nat_alt)
      have n: "unat (n - ?k) = unat n - unat ?k" by (rule unat_sub) simp
      have "copy_out q n off m = Some (load_data m (p_payload b + unat off) (unat ?k) @ take (unat (n - ?k)) (contents m ps))"
        using False no b Cons.IH [OF b(3), of "n - ?k" 0] by (subst copy_out.simps) (auto simp: Let_def)
      moreover have "load_data m (p_payload b + unat off) (unat ?k) = take (unat ?k) (drop (unat off) (piece m p))"
        using b(2) k o by (simp add: piece_def load_part)
      moreover have "take (unat ?k) (drop (unat off) (piece m p)) @ take (unat (n - ?k)) (contents m ps) =
          take (unat n) (drop (unat off) (contents m (p # ps)))"
        using l k n o by (simp add: min_def)
      ultimately show ?thesis by simp
    qed
  qed
qed

section \<open>Concatenation\<close>

definition longer :: "u16 \<Rightarrow> pbuf \<Rightarrow> pbuf" where
  "longer n b = b\<lparr>p_tot_len := p_tot_len b + n\<rparr>"

lemma longer_sel [simp]:
  "p_next (longer n b) = p_next b" "p_payload (longer n b) = p_payload b" "p_len (longer n b) = p_len b"
  "p_tot_len (longer n b) = p_tot_len b + n" "p_type (longer n b) = p_type b"
  by (simp_all add: longer_def)

lemma cat_loop_ok:
  assumes "chain (bufs m) (Some h) (ps @ [r])" "t \<notin> set (ps @ [r])" "bufs m t = Some tb"
  shows "\<exists>m'. cat_loop h t m = Some (r, m') \<and> heap_of m' = heap_of m \<and> bytes_of m' = bytes_of m \<and>
    bufs m' = (\<lambda>x. if x \<in> set ps then map_option (longer (p_tot_len tb)) (bufs m x) else bufs m x)"
  using assms
proof (induction ps arbitrary: h m)
  case Nil
  then show ?case by (subst cat_loop.simps) auto
next
  case (Cons p ps)
  then obtain b where b: "h = p" "bufs m p = Some b" "chain (bufs m) (p_next b) (ps @ [r])" by auto
  from b(3) obtain nx where nx: "p_next b = Some nx" by (cases "ps") auto
  have d: "p \<notin> set ps" "p \<noteq> r" "t \<noteq> p" using chain_distinct [OF Cons.prems(1)] Cons.prems(2) by auto
  let ?m = "set_buf p (longer (p_tot_len tb) b) m"
  have "chain (bufs ?m) (p_next b) (ps @ [r])" by (rule chain_cong [OF b(3)]) (use d in auto)
  from Cons.IH [OF this [unfolded nx]] Cons.prems(2,3) d obtain m' where
    m': "cat_loop nx t ?m = Some (r, m')" "heap_of m' = heap_of m" "bytes_of m' = bytes_of m"
      "bufs m' = (\<lambda>x. if x \<in> set ps then map_option (longer (p_tot_len tb)) (bufs ?m x) else bufs ?m x)" by auto
  have "cat_loop h t m = Some (r, m')"
    using b nx m'(1) Cons.prems(3) by (subst cat_loop.simps) (simp add: longer_def)
  moreover have "bufs m' = (\<lambda>x. if x \<in> set (p # ps) then map_option (longer (p_tot_len tb)) (bufs m x) else bufs m x)"
    using m'(4) b(2) d by (auto simp: fun_eq_iff)
  ultimately show ?case using m'(2,3) by blast
qed

lemma chain_link:
  assumes "chain f q (ps @ [r])" "f r = Some b" "chain f (Some t) qs" "set (ps @ [r]) \<inter> set qs = {}"
  shows "chain (f(r \<mapsto> b\<lparr>p_next := Some t\<rparr>)) q (ps @ [r] @ qs)"
proof -
  have d: "distinct (ps @ [r])" using chain_distinct [OF assms(1)] .
  have qs: "chain (f(r \<mapsto> b\<lparr>p_next := Some t\<rparr>)) (Some t) qs"
    by (rule chain_cong [OF assms(3)]) (use assms(4) in auto)
  show ?thesis using assms(1) d
  proof (induction ps arbitrary: q)
    case Nil
    then show ?case using qs by (simp add: fun_upd_def)
  qed (use assms(2) in auto)
qed

lemma lengths_ok_head: "lengths_ok f ps \<Longrightarrow> ps \<noteq> [] \<Longrightarrow> unat (p_tot_len (the (f (hd ps)))) = data_size f ps"
  by (cases ps) auto

lemma lengths_ok_longer:
  assumes "lengths_ok f ps" "lengths_ok f qs" "unat n = data_size f qs" "data_size f ps + data_size f qs < 65536"
    and "\<And>p. p \<in> set ps \<Longrightarrow> \<exists>b c. f p = Some b \<and> g p = Some c \<and> p_len c = p_len b \<and> p_tot_len c = p_tot_len b + n"
    and "\<And>p. p \<in> set qs \<Longrightarrow> g p = f p"
  shows "lengths_ok g (ps @ qs)"
  using assms
proof (induction ps)
  case Nil
  then show ?case using lengths_ok_cong [of qs g f] by simp
next
  case (Cons p ps)
  from Cons.prems(5) [of p] obtain b c where bc: "f p = Some b" "g p = Some c" "p_len c = p_len b" "p_tot_len c = p_tot_len b + n"
    by auto
  have same: "p_len (the (g x)) = p_len (the (f x))" if "x \<in> set (ps @ qs)" for x
    using that Cons.prems(5) [of x] Cons.prems(6) [of x] by auto
  have "lengths_ok g (ps @ qs)" using Cons.prems by (intro Cons.IH) auto
  moreover have "data_size g (ps @ qs) = data_size f (ps @ qs)" by (rule data_size_cong) (rule same)
  ultimately show ?case using Cons.prems(1,3,4) bc by (simp add: unat_word_ariths)
qed

lemma cat_ok:
  assumes "chain (bufs m) (Some h) ps" "chain (bufs m) (Some t) qs" "set ps \<inter> set qs = {}"
    and "lengths_ok (bufs m) ps" "lengths_ok (bufs m) qs" "data_size (bufs m) ps + data_size (bufs m) qs < 65536"
  shows "\<exists>m'. pbuf_cat h t m = Some m' \<and> chain (bufs m') (Some h) (ps @ qs) \<and> lengths_ok (bufs m') (ps @ qs) \<and>
    contents m' (ps @ qs) = contents m ps @ contents m qs \<and> heap_of m' = heap_of m"
proof -
  from assms(1) have "ps \<noteq> []" by auto
  then obtain us r where ps: "ps = us @ [r]" by (cases ps rule: rev_cases) auto
  from assms(2) obtain tb where tb: "bufs m t = Some tb" "t \<in> set qs" "hd qs = t" by (auto simp: chain_Some)
  have t: "t \<notin> set ps" using assms(3) tb(2) by auto
  from cat_loop_ok [OF assms(1) [unfolded ps] t [unfolded ps] tb(1)] obtain m1 where
    m1: "cat_loop h t m = Some (r, m1)" "heap_of m1 = heap_of m" "bytes_of m1 = bytes_of m"
      "bufs m1 = (\<lambda>x. if x \<in> set us then map_option (longer (p_tot_len tb)) (bufs m x) else bufs m x)" by blast
  have d: "r \<notin> set us" using chain_distinct [OF assms(1)] ps by simp
  from chain_dom [OF assms(1)] ps obtain b where b: "bufs m r = Some b" by auto
  have b1: "bufs m1 r = Some b" "bufs m1 t = Some tb" using m1(4) b tb(1) d t ps by auto
  let ?m = "set_buf r (b\<lparr>p_tot_len := p_tot_len b + p_tot_len tb, p_next := Some t\<rparr>) m1"
  have cat: "pbuf_cat h t m = Some ?m" using m1(1) b1 by (simp add: pbuf_cat_def)
  have g: "bufs ?m p = map_option (longer (p_tot_len tb)) (((bufs m)(r \<mapsto> b\<lparr>p_next := Some t\<rparr>)) p)" if "p \<in> set ps" for p
    using that b d by (auto simp: ps m1(4) longer_def)
  have gq: "bufs ?m p = bufs m p" if "p \<in> set qs" for p using that assms(3) ps by (auto simp: m1(4))
  have "chain ((bufs m)(r \<mapsto> b\<lparr>p_next := Some t\<rparr>)) (Some h) (us @ [r] @ qs)"
    using assms(1,3) b assms(2) unfolding ps by (intro chain_link) auto
  then have "chain (bufs ?m) (Some h) (us @ [r] @ qs)"
  proof (rule chain_cong)
    fix p c assume p: "p \<in> set (us @ [r] @ qs)" "((bufs m)(r \<mapsto> b\<lparr>p_next := Some t\<rparr>)) p = Some c"
    show "\<exists>b'. bufs ?m p = Some b' \<and> p_next b' = p_next c"
    proof (cases "p \<in> set ps")
      case True
      with g [OF this] p(2) show ?thesis by simp
    next
      case False
      with p have "p \<in> set qs" "p \<noteq> r" by (auto simp: ps)
      with gq [of p] p(2) show ?thesis by simp
    qed
  qed
  moreover have "lengths_ok (bufs ?m) (ps @ qs)"
  proof (rule lengths_ok_longer [OF assms(4,5) _ assms(6) _ gq])
    show "unat (p_tot_len tb) = data_size (bufs m) qs" using lengths_ok_head [OF assms(5)] tb by (cases qs) auto
    fix p assume "p \<in> set ps"
    moreover from chain_dom [OF assms(1) this] obtain c where "bufs m p = Some c" by blast
    ultimately show "\<exists>b c. bufs m p = Some b \<and> bufs ?m p = Some c \<and> p_len c = p_len b \<and> p_tot_len c = p_tot_len b + p_tot_len tb"
      using g [of p] b by (cases "p = r") auto
  qed
  moreover have "piece ?m p = piece m p" if "p \<in> set ps \<union> set qs" for p
  proof -
    have same: "piece ?m p = piece m p" if "bufs ?m p = Some c" "bufs m p = Some c'" "p_payload c = p_payload c'" "p_len c = p_len c'" for c c'
      using that m1(3) by (simp add: piece_def load_data_def)
    show ?thesis
    proof (cases "p \<in> set qs")
      case True
      with chain_dom [OF assms(2)] gq same show ?thesis by metis
    next
      case False
      then have p: "p \<in> set ps" using that by simp
      with chain_dom [OF assms(1)] obtain c where c: "bufs m p = Some c" by blast
      show ?thesis
      proof (cases "p = r")
        case True
        then show ?thesis using g [OF p] c b by (intro same [of "longer (p_tot_len tb) (b\<lparr>p_next := Some t\<rparr>)" c]) auto
      next
        case False
        then show ?thesis using g [OF p] c by (intro same [of "longer (p_tot_len tb) c" c]) auto
      qed
    qed
  qed
  then have "contents ?m (ps @ qs) = contents m (ps @ qs)" by (intro contents_cong) auto
  ultimately show ?thesis using cat m1(2) by (auto simp: ps)
qed

section \<open>Properties\<close>

text \<open>Memory for the examples: a heap after \<open>mem_init\<close>, without pbufs.\<close>

definition net_demo :: netmem where
  "net_demo = \<lparr>heap_of = mem_init \<lparr>mem_next = (\<lambda>_. 0), mem_prev = (\<lambda>_. 0), mem_used = (\<lambda>_. False), lfree = 0\<rparr>,
     bufs = Map.empty, bytes_of = (\<lambda>_. 0)\<rparr>"

lemma net_demo_inv: "net_inv net_demo Map.empty"
  by (simp add: net_inv_def net_demo_def lwip_run.start)

lemma demo_chain:
  "\<exists>m M ps. net_inv m M \<and> pool_chain m 8 ps \<and> data_size (bufs m) ps = 100 \<and> lengths_ok (bufs m) ps"
proof -
  have run: "lwip_run (heap_of net_demo) Map.empty" using net_demo_inv by (simp add: net_inv_def)
  obtain h where "mem_malloc 528 (heap_of net_demo) = Some (Some 8, h)"
    using lwip_malloc_ok [OF mem_init_ok, of 528] by (fastforce simp: net_demo_def bsize_def block_fits_def at_def)
  then obtain m where m: "pbuf_alloc PBUF_RAW 100 PBUF_POOL net_demo = Some (Some 8, m)"
    by (simp add: pbuf_alloc_def Let_def alloc_mem_def LWIP_MEM_ALIGN_SIZE_def MEM_ALIGNMENT_def alloc_tail.simps [of _ _ 0])
  with alloc_pool_ok [OF net_demo_inv, of PBUF_RAW 100] obtain ps M' where
    "pool_chain m 8 ps" "data_size (bufs m) ps = 100" "lengths_ok (bufs m) ps" "net_inv m M'" by auto
  then show ?thesis by blast
qed

text \<open>
  Claim C16.  \<open>pbuf_alloc\<close> of \<open>PBUF_POOL\<close> is all or nothing and always returns: the result is a chain of new pbufs with
  one reference each, whose lengths add up to the request and whose \<open>tot_len\<close> fields are right; or \<open>NULL\<close>, and then
  every pbuf that was allocated on the way has been given back.  No other pbuf is touched.\<close>

theorem pbuf_alloc_all_or_nothing:
  assumes "net_inv m M"
  shows "\<exists>x m'. pbuf_alloc layer n PBUF_POOL m = Some (x, m') \<and> bytes_of m' = bytes_of m \<and>
    (case x of
      None \<Rightarrow> bufs m' = bufs m \<and> net_inv m' M
    | Some p \<Rightarrow> \<exists>ps M'. pool_chain m' p ps \<and> (\<forall>x\<in>set ps. M x = None) \<and> (\<forall>y. y \<notin> set ps \<longrightarrow> bufs m' y = bufs m y) \<and>
        data_size (bufs m') ps = unat n \<and> lengths_ok (bufs m') ps \<and> net_inv m' M' \<and> M \<subseteq>\<^sub>m M')"
  using alloc_pool_ok [OF assms] .

theorem pbuf_alloc_all_or_nothing_witness:
  "\<exists>x m'. pbuf_alloc PBUF_RAW 1514 PBUF_POOL net_demo = Some (x, m') \<and> bytes_of m' = bytes_of net_demo"
  using pbuf_alloc_all_or_nothing [OF net_demo_inv, of PBUF_RAW 1514] by blast

text \<open>
  Claim C17.  \<open>pbuf_free\<close> frees the pbufs at the front of a chain that have no other reference, takes one reference from
  the first pbuf that has, and leaves the rest alone: \<open>1 \<rightarrow> 1 \<rightarrow> 2\<close> becomes \<open>1\<close>.  It returns how many were freed.\<close>

theorem pbuf_free_drops_front:
  assumes "net_inv m M" "chain (bufs m) q ps"
  shows "\<exists>m'. pbuf_free q m = Some (of_nat (length (gone m ps)), m') \<and>
    bufs m' = drop_ref (kept m ps) (bufs m) |` (- set (gone m ps)) \<and> bytes_of m' = bytes_of m \<and>
    net_inv m' (M |` (- set (gone m ps)))"
  using free_loop_ok [OF assms, of 0] by (simp add: pbuf_free_def)

theorem pbuf_free_drops_front_witness: "\<exists>m c m'. pbuf_free (Some 8) m = Some (c, m') \<and> bufs m 8 \<noteq> None \<and> bufs m' 8 = None"
proof -
  from demo_chain obtain m M ps where m: "net_inv m M" "pool_chain m 8 ps" by blast
  then have c: "chain (bufs m) (Some 8) ps" by (simp add: pool_chain_def)
  then obtain qs where ps: "ps = 8 # qs" by (auto simp: chain_Some)
  from pool_chain_last_ref [OF m(2)] have "gone m ps = ps" by (auto simp: gone_def takeWhile_all)
  with pbuf_free_drops_front [OF m(1) c] ps obtain m' where
    "pbuf_free (Some 8) m = Some (of_nat (length ps), m')" "bufs m' 8 = None" by auto
  moreover have "bufs m 8 \<noteq> None" using c ps by auto
  ultimately show ?thesis by blast
qed

text \<open>
  Claim C18.  What \<open>pbuf_take\<close> puts into a chain, \<open>pbuf_copy_partial\<close> gets out again: every
  slice that it copies is the slice of the data, across the borders of the pbufs.\<close>

theorem pbuf_take_copy_roundtrip:
  assumes "net_inv m M" "chain (bufs m) (Some p) ps" "\<forall>p\<in>set ps. writable m p" "lengths_ok (bufs m) ps"
    and "unat n \<le> data_size (bufs m) ps" "length data = unat n"
  shows "\<exists>m'. pbuf_take (Some p) data n m = Some (ERR_OK, m') \<and>
    (\<forall>k off. unat off + unat k \<le> unat n \<longrightarrow>
      pbuf_copy_partial (Some p) k off m' = Some (k, take (unat k) (drop (unat off) data)))"
proof -
  from assms(2) obtain b where b: "bufs m p = Some b" "ps \<noteq> []" "hd ps = p" by (auto simp: chain_Some)
  from pbuf_copy_in_ok [OF assms(1-3,5), of data] assms(6) obtain m' where
    m': "copy_in (Some p) data n m = Some m'" "bufs m' = bufs m"
      "contents m' ps = data @ drop (unat n) (contents m ps)" by auto
  have "\<not> p_tot_len b < n" using lengths_ok_head [OF assms(4) b(2)] b assms(5) by (simp add: word_less_nat_alt)
  then have "pbuf_take (Some p) data n m = Some (ERR_OK, m')" using b m'(1) by (simp add: pbuf_take_def)
  moreover have "pbuf_copy_partial (Some p) k off m' = Some (k, take (unat k) (drop (unat off) data))"
    if "unat off + unat k \<le> unat n" for k off
    using pbuf_copy_out_ok [of m' "Some p" ps k off] assms(2,6) m'(2,3) that by (simp add: pbuf_copy_partial_def)
  ultimately show ?thesis by blast
qed

theorem pbuf_take_copy_roundtrip_witness:
  "\<exists>m m'. pbuf_take (Some 8) [1, 2, 3] 3 m = Some (ERR_OK, m') \<and> pbuf_copy_partial (Some 8) 2 1 m' = Some (2, [2, 3])"
proof -
  from demo_chain obtain m M ps where
    m: "net_inv m M" "pool_chain m 8 ps" "data_size (bufs m) ps = 100" "lengths_ok (bufs m) ps" by blast
  have "\<exists>m'. pbuf_take (Some 8) [1, 2, 3] 3 m = Some (ERR_OK, m') \<and>
    (\<forall>k off. unat off + unat k \<le> unat (3::u16) \<longrightarrow>
      pbuf_copy_partial (Some 8) k off m' = Some (k, take (unat k) (drop (unat off) [1, 2, 3])))"
    by (rule pbuf_take_copy_roundtrip [OF m(1) _ _ m(4)]) (use m(2,3) in \<open>auto simp: pool_chain_def writable_def\<close>)
  then obtain m' where m': "pbuf_take (Some 8) [1, 2, 3] 3 m = Some (ERR_OK, m')"
    "\<forall>k off. unat off + unat k \<le> unat (3::u16) \<longrightarrow>
      pbuf_copy_partial (Some 8) k off m' = Some (k, take (unat k) (drop (unat off) [1, 2, 3]))" by blast
  have "pbuf_copy_partial (Some 8) 2 1 m' = Some (2, [2, 3])"
    using m'(2) [rule_format, of 1 2] by simp
  with m'(1) show ?thesis by blast
qed

text \<open>
  \<open>pbuf_cat\<close> of two chains is one chain with the data of both, and its \<open>tot_len\<close> fields are right as long
  as the sum fits 16 bits.\<close>

theorem pbuf_cat_appends:
  assumes "chain (bufs m) (Some h) ps" "chain (bufs m) (Some t) qs" "set ps \<inter> set qs = {}"
    and "lengths_ok (bufs m) ps" "lengths_ok (bufs m) qs" "data_size (bufs m) ps + data_size (bufs m) qs < 65536"
  shows "\<exists>m'. pbuf_cat h t m = Some m' \<and> chain (bufs m') (Some h) (ps @ qs) \<and> lengths_ok (bufs m') (ps @ qs) \<and>
    contents m' (ps @ qs) = contents m ps @ contents m qs"
  using cat_ok [OF assms] by blast

theorem pbuf_cat_appends_witness:
  "\<exists>m m'. pbuf_cat 8 600 m = Some m' \<and> contents m' [8, 600] = contents m [8] @ contents m [600]"
proof -
  define b where "b = (\<lambda>a n. \<lparr>p_next = None, p_payload = a, p_tot_len = n, p_len = n, p_type = PBUF_RAM, p_flags = 0, p_ref = 1\<rparr>)"
  define m where "m = net_demo\<lparr>bufs := [8 \<mapsto> b 24 40, 600 \<mapsto> b 616 2]\<rparr>"
  have "\<exists>m'. pbuf_cat 8 600 m = Some m' \<and> chain (bufs m') (Some 8) ([8] @ [600]) \<and> lengths_ok (bufs m') ([8] @ [600]) \<and>
    contents m' ([8] @ [600]) = contents m [8] @ contents m [600]"
    by (rule pbuf_cat_appends) (simp_all add: m_def b_def)
  then show ?thesis by auto
qed

text \<open>
  A check that \<open>LWIP_NOERROR\<close> removes: \<open>pbuf_header\<close> may hide more than the pbuf has, and then its length
  wraps.
\<close>

lemma pbuf_header_wraps:
  assumes "bufs m p = Some b" "p_type b = PBUF_RAM" "p_len b = 10" "unat p + 16 \<le> p_payload b"
  shows "\<exists>m' b'. pbuf_header (Some p) (- 20) m = Some (m', 0) \<and> bufs m' p = Some b' \<and> p_len b' = 65526"
proof -
  have "unat p \<le> p_payload b" using assms(4) by simp
  then have "int (unat p) \<le> int (p_payload b)" by (simp only: of_nat_le_iff)
  then show ?thesis using assms(1-3) by (simp add: pbuf_header_def Let_def)
qed

end
