(* ===== verification/Ethernetif.thy ===== *)
theory Ethernetif
  imports Dm9000 Pbuf
begin

text \<open>
  The network interface (\<open>Lwip-1.3.2/src/netif/ethernetif.c\<close>): frames between the packet buffers of the TCP/IP stack
  and the Ethernet controller, through two static buffers.

  The accesses \<open>rd\<close> and \<open>wr\<close> of the controller are arguments, as in \<open>Dm9000\<close>; the theorems are about the pins
  (\<open>rd_pins\<close>, \<open>wr_pins\<close>).  \<open>None\<close> as the result of a function is undefined behaviour, here an access past
  the end of a static buffer above all, or a loop that does not end.  The task that \<open>ethernetif_init\<close> creates, its
  delay and the critical sections are left out; \<open>netif->input\<close>, a function pointer, is an argument.
\<close>

section \<open>State\<close>

definition IP_FRAG_MAX_MTU :: nat where [prog_defs]: "IP_FRAG_MAX_MTU = 1500"
definition BUFFER_MAX_LENGTH :: nat where [prog_defs]: "BUFFER_MAX_LENGTH = IP_FRAG_MAX_MTU + 16"
definition NETIF_FLAG_BROADCAST :: u8 where [prog_defs]: "NETIF_FLAG_BROADCAST = 0x02"
definition NETIF_FLAG_LINK_UP :: u8 where [prog_defs]: "NETIF_FLAG_LINK_UP = 0x10"
definition NETIF_FLAG_ETHARP :: u8 where [prog_defs]: "NETIF_FLAG_ETHARP = 0x20"

text \<open>The memory of the stack, the static buffers, the address in the driver, and the device.\<close>

record 'd ether =
  netm :: netmem
  Rx_Data_Buf :: "u8 list"
  Tx_Data_Buf :: "u8 list"
  dm9000_mac :: "u8 list"
  device_of :: 'd

record netif =
  if_mtu :: u16
  if_flags :: u8
  if_hwaddr :: "u8 list"
  if_name :: "u8 \<times> u8"

text \<open>\<open>memcpy\<close> into a buffer from \<open>i\<close> on, and out of it.\<close>

definition put_bytes :: "u8 list \<Rightarrow> nat \<Rightarrow> u8 list \<Rightarrow> u8 list option" where
  "put_bytes buf i xs = (if i + length xs \<le> length buf then Some (take i buf @ xs @ drop (i + length xs) buf) else None)"

definition get_bytes :: "u8 list \<Rightarrow> nat \<Rightarrow> nat \<Rightarrow> u8 list option" where
  "get_bytes buf i n = (if i + n \<le> length buf then Some (take n (drop i buf)) else None)"

section \<open>Operations\<close>

definition low_level_init :: "'d nrd \<Rightarrow> 'd nwr \<Rightarrow> netif \<Rightarrow> 'd ether \<Rightarrow> (netif \<times> 'd ether) option" where
  "low_level_init rd wr netif e = do {
     let netif = netif\<lparr>if_mtu := of_nat IP_FRAG_MAX_MTU,
       if_flags := NETIF_FLAG_BROADCAST OR NETIF_FLAG_ETHARP OR NETIF_FLAG_LINK_UP\<rparr>;
     (mac, d) \<leftarrow> dm9000x_inital rd wr (if_hwaddr netif) (device_of e);
     Some (netif, e\<lparr>dm9000_mac := mac, device_of := d\<rparr>)
   }"

definition ethernetif_init :: "'d nrd \<Rightarrow> 'd nwr \<Rightarrow> netif \<Rightarrow> 'd ether \<Rightarrow> (int \<times> netif \<times> 'd ether) option" where
  "ethernetif_init rd wr netif e = do {
     (netif, e) \<leftarrow> low_level_init rd wr (netif\<lparr>if_name := (83, 84)\<rparr>) e;
     Some (ERR_OK, netif, e)
   }"

partial_function (option) copy_chain :: "u16 option \<Rightarrow> nat \<Rightarrow> u8 list \<Rightarrow> netmem \<Rightarrow> (u8 list \<times> nat) option" where
  [code]: "copy_chain q n buf m = (case q of
     None \<Rightarrow> Some (buf, n)
   | Some q \<Rightarrow>
       if n \<ge> BUFFER_MAX_LENGTH then Some (buf, BUFFER_MAX_LENGTH)
       else do {
         b \<leftarrow> bufs m q;
         buf \<leftarrow> put_bytes buf n (load_data m (p_payload b) (unat (p_len b)));
         copy_chain (p_next b) (n + unat (p_len b)) buf m
       })"

definition low_level_output :: "'d nrd \<Rightarrow> 'd nwr \<Rightarrow> u16 option \<Rightarrow> 'd ether \<Rightarrow> (int \<times> 'd ether) option" where
  "low_level_output rd wr p e = do {
     (tx, n) \<leftarrow> copy_chain p 0 (Tx_Data_Buf e) (netm e);
     d \<leftarrow> dm9000x_sendpacket rd wr tx (of_nat n) (device_of e);
     Some (ERR_OK, e\<lparr>Tx_Data_Buf := tx, device_of := d\<rparr>)
   }"

partial_function (option) fill_chain :: "u16 option \<Rightarrow> nat \<Rightarrow> u8 list \<Rightarrow> netmem \<Rightarrow> (nat \<times> netmem) option" where
  [code]: "fill_chain q i rx m = (case q of
     None \<Rightarrow> Some (i, m)
   | Some q \<Rightarrow> do {
       b \<leftarrow> bufs m q;
       xs \<leftarrow> get_bytes rx i (unat (p_len b));
       fill_chain (p_next b) (i + unat (p_len b)) rx (store_data (p_payload b) xs m)
     })"

definition low_level_input :: "bool \<Rightarrow> 'd nrd \<Rightarrow> 'd nwr \<Rightarrow> 'd ether \<Rightarrow> (u16 option \<times> 'd ether) option" where
  "low_level_input ltr rd wr e = do {
     (Len, rx, d) \<leftarrow> dm9000x_receivepacket ltr rd wr (dm9000_mac e) (Rx_Data_Buf e) (of_nat BUFFER_MAX_LENGTH) (device_of e);
     let e = e\<lparr>Rx_Data_Buf := rx, device_of := d\<rparr>;
     if Len = 0 then Some (None, e)
     else do {
       (p, m) \<leftarrow> pbuf_alloc PBUF_RAW Len PBUF_POOL (netm e);
       case p of
         None \<Rightarrow> Some (None, e\<lparr>netm := m\<rparr>)
       | Some p \<Rightarrow> do {
           (i, m) \<leftarrow> fill_chain (Some p) 0 rx m;
           b \<leftarrow> bufs m p;
           if i \<noteq> unat (p_tot_len b) then do {
             (n, m) \<leftarrow> pbuf_free (Some p) m;
             Some (None, e\<lparr>netm := m\<rparr>)
           }
           else Some (Some p, e\<lparr>netm := m\<rparr>)
         }
     }
   }"

text \<open>One round of the loop of \<open>ethernetif_input\<close>.\<close>

definition ethernetif_round ::
    "bool \<Rightarrow> 'd nrd \<Rightarrow> 'd nwr \<Rightarrow> (u16 \<Rightarrow> netmem \<Rightarrow> (int \<times> netmem) option) \<Rightarrow> 'd ether \<Rightarrow> 'd ether option" where
  "ethernetif_round ltr rd wr input e = do {
     (p, e) \<leftarrow> low_level_input ltr rd wr e;
     case p of
       None \<Rightarrow> Some e
     | Some p \<Rightarrow> do {
         (err, m) \<leftarrow> input p (netm e);
         if err \<noteq> ERR_OK then do { (n, m) \<leftarrow> pbuf_free (Some p) m; Some (e\<lparr>netm := m\<rparr>) }
         else Some (e\<lparr>netm := m\<rparr>)
       }
   }"

section \<open>Sending\<close>

lemma BUFFER_MAX_LENGTH [simp]: "BUFFER_MAX_LENGTH = 1516"
  by (simp add: prog_defs)

lemma data_size_0: "data_size f ps = 0 \<longleftrightarrow> (\<forall>p\<in>set ps. unat (p_len (the (f p))) = 0)"
  by (induction ps) auto

text \<open>The loop puts the data of the chain behind the first \<open>n\<close> bytes of the buffer.\<close>

lemma copy_chain_ok:
  assumes "chain (bufs m) q ps" "n + data_size (bufs m) ps \<le> 1516" "length buf = 1516"
  shows "\<exists>buf'. copy_chain q n buf m = Some (buf', n + data_size (bufs m) ps) \<and> length buf' = 1516 \<and>
    take (n + data_size (bufs m) ps) buf' = take n buf @ contents m ps"
  using assms
proof (induction ps arbitrary: q n buf)
  case Nil
  then show ?case by (subst copy_chain.simps) simp
next
  case (Cons p ps)
  then obtain b where b: "q = Some p" "bufs m p = Some b" "chain (bufs m) (p_next b) ps" by auto
  let ?k = "unat (p_len b)"
  have pc: "piece m p = load_data m (p_payload b) ?k" "length (piece m p) = ?k" using b(2) by (simp_all add: piece_def)
  show ?case
  proof (cases "n \<ge> 1516")
    case True
    then have "n = 1516" "data_size (bufs m) (p # ps) = 0" using Cons.prems(2) by simp_all
    moreover from this have "length (contents m (p # ps)) = 0" using length_contents [OF Cons.prems(1)] by simp
    then have "contents m (p # ps) = []" by (simp only: length_0_conv)
    moreover have "copy_chain q n buf m = Some (buf, 1516)" using True b(1) by (subst copy_chain.simps) simp
    ultimately show ?thesis using Cons.prems(3) by simp
  next
    case False
    let ?buf = "take n buf @ piece m p @ drop (n + ?k) buf"
    have le: "n + ?k \<le> 1516" using Cons.prems(2) b(2) by simp
    have "length ?buf = 1516" using le Cons.prems(3) pc(2) by simp
    with Cons.IH [OF b(3), of "n + ?k" ?buf] Cons.prems(2) b(2) obtain buf' where
      1: "copy_chain (p_next b) (n + ?k) ?buf m = Some (buf', n + ?k + data_size (bufs m) ps)" "length buf' = 1516"
        "take (n + ?k + data_size (bufs m) ps) buf' = take (n + ?k) ?buf @ contents m ps" by auto
    have "put_bytes buf n (piece m p) = Some ?buf" using le Cons.prems(3) pc(2) by (simp add: put_bytes_def)
    then have "copy_chain q n buf m = copy_chain (p_next b) (n + ?k) ?buf m"
      using False b(1,2) pc(1) by (subst copy_chain.simps) simp
    moreover have "take (n + ?k) ?buf = take n buf @ piece m p" using le Cons.prems(3) pc(2) by simp
    ultimately show ?thesis using 1 b(2) by (simp add: add.assoc)
  qed
qed

lemma copy_chain_overrun:
  assumes "bufs m p = Some b" "unat (p_len b) > 1516" "length buf = 1516"
  shows "copy_chain (Some p) 0 buf m = None"
  using assms by (subst copy_chain.simps) (simp add: put_bytes_def)

section \<open>Receiving\<close>

lemma fill_chain_ok:
  assumes "net_inv m M" "chain (bufs m) q ps" "\<forall>p\<in>set ps. writable m p" "i + data_size (bufs m) ps \<le> length rx"
  shows "\<exists>m'. fill_chain q i rx m = Some (i + data_size (bufs m) ps, m') \<and> bufs m' = bufs m \<and> heap_of m' = heap_of m \<and>
    contents m' ps = take (data_size (bufs m) ps) (drop i rx) \<and>
    (\<forall>p. p \<notin> set ps \<longrightarrow> writable m p \<longrightarrow> piece m' p = piece m p)"
  using assms
proof (induction ps arbitrary: q m i)
  case Nil
  then show ?case by (subst fill_chain.simps) simp
next
  case (Cons p ps)
  from Cons.prems(2) obtain b where b: "q = Some p" "bufs m p = Some b" "chain (bufs m) (p_next b) ps" by auto
  have p: "p \<notin> set ps" using chain_distinct [OF Cons.prems(2)] by simp
  let ?k = "unat (p_len b)" and ?s = "data_size (bufs m) ps"
  let ?xs = "take ?k (drop i rx)"
  let ?m = "store_data (p_payload b) ?xs m"
  have le: "i + ?k + ?s \<le> length rx" using Cons.prems(4) b(2) by simp
  then have lk: "length ?xs = ?k" by simp
  have w: "writable m p" using Cons.prems(3) by simp
  note S = store_piece [OF Cons.prems(1) b(2) w, of ?xs, unfolded lk, OF le_refl]
  have "\<exists>m'. fill_chain (p_next b) (i + ?k) rx ?m = Some (i + ?k + data_size (bufs ?m) ps, m') \<and> bufs m' = bufs ?m \<and>
      heap_of m' = heap_of ?m \<and> contents m' ps = take (data_size (bufs ?m) ps) (drop (i + ?k) rx) \<and>
      (\<forall>p. p \<notin> set ps \<longrightarrow> writable ?m p \<longrightarrow> piece m' p = piece ?m p)"
    using Cons.prems(1,3) b(3) le by (intro Cons.IH) simp_all
  then obtain m' where m': "fill_chain (p_next b) (i + ?k) rx ?m = Some (i + ?k + ?s, m')" "bufs m' = bufs m"
    "heap_of m' = heap_of m" "contents m' ps = take ?s (drop (i + ?k) rx)"
    "\<forall>p. p \<notin> set ps \<longrightarrow> writable m p \<longrightarrow> piece m' p = piece ?m p" by auto
  have "get_bytes rx i ?k = Some ?xs" using le by (simp add: get_bytes_def)
  then have step: "fill_chain q i rx m = Some (i + ?k + ?s, m')"
    using m'(1) b(1,2) by (subst fill_chain.simps) simp
  have "length (piece m p) = ?k" using b(2) by (rule length_piece)
  then have "piece m' p = ?xs" using m'(5) p w S(1) by simp
  moreover have "take (?k + ?s) (drop i rx) = ?xs @ take ?s (drop (i + ?k) rx)" by (simp add: take_add ac_simps)
  ultimately have "contents m' (p # ps) = take (?k + ?s) (drop i rx)" using m'(4) by simp
  moreover have "piece m' x = piece m x" if "x \<notin> set (p # ps)" "writable m x" for x
    using m'(5) S(2) [of x] that by simp
  ultimately show ?case using step m'(2,3) b(2) by (auto simp: add.assoc)
qed

lemma pool_chain_writable: "pool_chain m p ps \<Longrightarrow> \<forall>q\<in>set ps. writable m q"
  unfolding pool_chain_def writable_def by blast

section \<open>Properties\<close>

definition ether_demo :: "netmem \<Rightarrow> u8 list \<Rightarrow> device ether" where
  "ether_demo m rx = \<lparr>netm = m, Rx_Data_Buf = replicate 1516 0, Tx_Data_Buf = replicate 1516 0, dm9000_mac = [],
     device_of = nic_demo rx\<rparr>"

text \<open>
  Claim C12.  \<open>low_level_output\<close> puts one frame on the wire, in byte mode and in word mode: the data of the whole chain of
  pbufs, joined, as long as they fit the static buffer of 1516 bytes.\<close>

theorem ethernet_sends_chain:
  assumes "chain (bufs (netm e)) p ps" "data_size (bufs (netm e)) ps \<le> 1516" "length (Tx_Data_Buf e) = 1516"
    and "idle_pins (device_of e)" "tx_mem (core (device_of e)) = []"
  shows "\<exists>e'. low_level_output rd_pins wr_pins p e = Some (ERR_OK, e') \<and>
    sent (core (device_of e')) = sent (core (device_of e)) @ [contents (netm e) ps] \<and>
    netm e' = netm e \<and> length (Tx_Data_Buf e') = 1516 \<and> idle_pins (device_of e') \<and> tx_mem (core (device_of e')) = []"
proof -
  let ?n = "data_size (bufs (netm e)) ps" and ?d = "device_of e"
  from copy_chain_ok [OF assms(1) _ assms(3), of 0] assms(2) obtain tx where
    tx: "copy_chain p 0 (Tx_Data_Buf e) (netm e) = Some (tx, ?n)" "length tx = 1516" "take ?n tx = contents (netm e) ps"
    by auto
  have u: "unat (of_nat ?n :: u16) = ?n" using assms(2) by (simp add: unat_of_nat take_bit_eq_mod)
  have "?n + ?n mod 2 \<le> 1516" using assms(2) by presburger
  then have "unat (of_nat ?n :: u16) + (if byte_mode (core ?d) then 0 else unat (of_nat ?n :: u16) mod 2) \<le> length tx"
    using tx(2) u by simp
  moreover have "byte_mode (core ?d) \<or> unat (of_nat ?n :: u16) < 65535" using u assms(2) by simp
  ultimately obtain d' g where
    d': "dm9000x_sendpacket rd_pins wr_pins tx (of_nat ?n) ?d = Some d'" "idle_pins d'"
      "core d' = (core ?d)\<lparr>nregs := g, sent := sent (core ?d) @ [take (unat (of_nat ?n :: u16)) tx], busy := 0\<rparr>"
    using nic.sendpacket_ok [OF assms(4,5), of "of_nat ?n" tx] by auto
  then show ?thesis using tx u assms(5) by (simp add: low_level_output_def)
qed

theorem ethernet_sends_chain_witness:
  "\<exists>m e'. low_level_output rd_pins wr_pins (Some 8) (ether_demo m []) = Some (ERR_OK, e') \<and>
    sent (core (device_of e')) = [[0, 0, 0, 0, 0]]"
proof -
  define b where "b = (\<lambda>q a n. \<lparr>p_next = q, p_payload = a, p_tot_len = n, p_len = n, p_type = PBUF_RAM, p_flags = 0, p_ref = 1\<rparr>)"
  define m where "m = net_demo\<lparr>bufs := [8 \<mapsto> b (Some 600) 24 3, 600 \<mapsto> b None 616 2]\<rparr>"
  have z: "load_data m a n = replicate n 0" for a n
    by (rule nth_equalityI) (simp_all add: load_data_def m_def net_demo_def)
  have bf: "bufs m 8 = Some (b (Some 600) 24 3)" "bufs m 600 = Some (b None 616 2)" by (simp_all add: m_def)
  have "\<exists>e'. low_level_output rd_pins wr_pins (Some 8) (ether_demo m []) = Some (ERR_OK, e') \<and>
      sent (core (device_of e')) = sent (core (device_of (ether_demo m []))) @ [contents (netm (ether_demo m [])) [8, 600]] \<and>
      netm e' = netm (ether_demo m []) \<and> length (Tx_Data_Buf e') = 1516 \<and> idle_pins (device_of e') \<and>
      tx_mem (core (device_of e')) = []"
    by (rule ethernet_sends_chain) (simp_all add: ether_demo_def nic_demo_def idle_pins_def m_def b_def)
  moreover have "contents m [8, 600] = [0, 0, 0, 0, 0]"
    by (simp add: piece_def bf z) (simp add: b_def, simp add: numeral_eq_Suc)
  ultimately show ?thesis by (intro exI [of _ m]) (auto simp: ether_demo_def nic_demo_def)
qed

text \<open>
  Claim C11.  In word mode, for a frame of 1 to 1516 bytes that was received without error (status bits 0xBF clear),
  \<open>low_level_input\<close> takes the frame that waits first and delivers it in new pbufs exactly when \<open>pbuf_alloc\<close> has the memory
  for them: it returns the chain that \<open>pbuf_alloc\<close> made, and its data are the bytes of the frame.  If \<open>pbuf_alloc\<close>
  returns \<open>NULL\<close>, the frame is dropped and nothing is leaked.  The next frame is then first.\<close>

theorem ethernet_receives_frame:
  assumes "net_inv (netm e) M" "length (Rx_Data_Buf e) = 1516" "idle_pins (device_of e)" "\<not> byte_mode (core (device_of e))"
    and "rx_mem (core (device_of e)) = frame_mem st f pad @ rest"
    and "st AND 0xBF = 0" "length pad = length f mod 2" "f \<noteq> []" "length f \<le> 1516"
  shows "\<exists>x m e'. pbuf_alloc PBUF_RAW (of_nat (length f)) PBUF_POOL (netm e) = Some (x, m) \<and>
    low_level_input ltr rd_pins wr_pins e = Some (x, e') \<and> rx_mem (core (device_of e')) = rest \<and>
    length (Rx_Data_Buf e') = 1516 \<and> idle_pins (device_of e') \<and>
    (case x of
      None \<Rightarrow> bufs (netm e') = bufs (netm e) \<and> net_inv (netm e') M
    | Some p \<Rightarrow> \<exists>ps M'. chain (bufs (netm e')) (Some p) ps \<and> contents (netm e') ps = f \<and>
        lengths_ok (bufs (netm e')) ps \<and> net_inv (netm e') M' \<and> M \<subseteq>\<^sub>m M')"
proof -
  let ?d = "device_of e" and ?n = "of_nat (length f) :: u16"
  have le: "length (f @ pad) \<le> 1516" using assms(7,9) unfolding length_append by presburger
  from nic.receive_frame_ok [OF assms(3-7), of "Rx_Data_Buf e" ltr "dm9000_mac e" "of_nat BUFFER_MAX_LENGTH"] assms(2,9) le
  obtain d' g where
    d': "dm9000x_receivepacket ltr rd_pins wr_pins (dm9000_mac e) (Rx_Data_Buf e) (of_nat BUFFER_MAX_LENGTH) ?d =
        Some (?n, (f @ pad) @ drop (length (f @ pad)) (Rx_Data_Buf e), d')" "idle_pins d'"
      "core d' = (core ?d)\<lparr>nregs := g, rx_mem := rest\<rparr>" by auto
  let ?rx = "(f @ pad) @ drop (length (f @ pad)) (Rx_Data_Buf e)"
  have rx: "length ?rx = 1516" using le assms(2) by simp
  have u: "unat ?n = length f" using assms(9) by (simp add: unat_of_nat take_bit_eq_mod)
  then have n0: "?n \<noteq> 0" using assms(8) by (metis length_0_conv unat_0)
  let ?e = "e\<lparr>Rx_Data_Buf := ?rx, device_of := d'\<rparr>"
  from alloc_pool_ok [OF assms(1), of PBUF_RAW ?n] obtain x m where
    x: "pbuf_alloc PBUF_RAW ?n PBUF_POOL (netm e) = Some (x, m)"
      "case x of None \<Rightarrow> bufs m = bufs (netm e) \<and> net_inv m M
       | Some p \<Rightarrow> \<exists>ps M'. pool_chain m p ps \<and> (\<forall>x\<in>set ps. M x = None) \<and> (\<forall>y. y \<notin> set ps \<longrightarrow> bufs m y = bufs (netm e) y) \<and>
        data_size (bufs m) ps = unat ?n \<and> lengths_ok (bufs m) ps \<and> net_inv m M' \<and> M \<subseteq>\<^sub>m M'" by auto
  show ?thesis
  proof (cases x)
    case None
    then have "low_level_input ltr rd_pins wr_pins e = Some (None, ?e\<lparr>netm := m\<rparr>)"
      using d'(1) n0 x(1) by (simp add: low_level_input_def Let_def)
    then show ?thesis using None x rx d'(2,3)
      by (intro exI [of _ None] exI [of _ m] exI [of _ "?e\<lparr>netm := m\<rparr>"]) simp
  next
    case (Some p)
    with x(2) obtain ps M' where p: "pool_chain m p ps" "data_size (bufs m) ps = length f" "lengths_ok (bufs m) ps"
      "net_inv m M'" "M \<subseteq>\<^sub>m M'" using u by auto
    from p(1) have c: "chain (bufs m) (Some p) ps" by (simp add: pool_chain_def)
    from fill_chain_ok [OF p(4) c pool_chain_writable [OF p(1)], of 0 ?rx] p(2) rx assms(9) obtain m' where
      m': "fill_chain (Some p) 0 ?rx m = Some (length f, m')" "bufs m' = bufs m" "heap_of m' = heap_of m"
        "contents m' ps = f" by auto
    from c obtain b where b: "bufs m p = Some b" "ps \<noteq> []" "hd ps = p" by (auto simp: chain_Some)
    then have "unat (p_tot_len b) = length f" using lengths_ok_head [OF p(3)] p(2) by auto
    then have "low_level_input ltr rd_pins wr_pins e = Some (Some p, ?e\<lparr>netm := m'\<rparr>)"
      using d'(1) n0 x(1) Some m'(1,2) b(1) by (simp add: low_level_input_def Let_def)
    moreover have "net_inv m' M'" using p(4) m'(2,3) by (simp add: net_inv_def)
    ultimately show ?thesis using Some x(1) rx d'(2,3) c p(3,5) m'(2,4)
      by (intro exI [of _ "Some p"] exI [of _ m] exI [of _ "?e\<lparr>netm := m'\<rparr>"]) auto
  qed
qed

lemma alloc_demo: "map_option (\<lambda>(x, m). x \<noteq> None) (pbuf_alloc PBUF_RAW 3 PBUF_POOL net_demo) = Some True"
  by code_simp

theorem ethernet_receives_frame_witness:
  "\<exists>p ps e'. low_level_input True rd_pins wr_pins (ether_demo net_demo (frame_mem 0 [1, 2, 3] [0])) = Some (Some p, e') \<and>
    rx_mem (core (device_of e')) = [] \<and> chain (bufs (netm e')) (Some p) ps \<and> contents (netm e') ps = [1, 2, 3]"
proof -
  let ?e = "ether_demo net_demo (frame_mem 0 [1, 2, 3] [0])"
  have "\<exists>x m e'. pbuf_alloc PBUF_RAW (of_nat (length [1, 2, 3 :: u8])) PBUF_POOL (netm ?e) = Some (x, m) \<and>
    low_level_input True rd_pins wr_pins ?e = Some (x, e') \<and> rx_mem (core (device_of e')) = [] \<and>
    length (Rx_Data_Buf e') = 1516 \<and> idle_pins (device_of e') \<and>
    (case x of
      None \<Rightarrow> bufs (netm e') = bufs (netm ?e) \<and> net_inv (netm e') Map.empty
    | Some p \<Rightarrow> \<exists>ps M'. chain (bufs (netm e')) (Some p) ps \<and> contents (netm e') ps = [1, 2, 3] \<and>
        lengths_ok (bufs (netm e')) ps \<and> net_inv (netm e') M' \<and> Map.empty \<subseteq>\<^sub>m M')"
    by (rule ethernet_receives_frame [where st = 0 and pad = "[0]"])
      (simp_all add: ether_demo_def nic_demo_def idle_pins_def net_demo_inv)
  moreover have "netm ?e = net_demo" "(of_nat (length [1, 2, 3 :: u8]) :: u16) = 3" by (simp_all add: ether_demo_def)
  ultimately show ?thesis using alloc_demo by (auto split: option.splits)
qed

text \<open>
  Claim C37.  A frame of 1517 to 1521 bytes, which a full-size frame with its check sum is, is written past the end of the
  receive buffer of 1516 bytes.\<close>

theorem ethernet_overruns_buffer:
  assumes "length (Rx_Data_Buf e) = 1516" "idle_pins (device_of e)" "\<not> byte_mode (core (device_of e))"
    and "rx_mem (core (device_of e)) = frame_mem st f pad @ rest"
    and "st AND 0xBF = 0" "length pad = length f mod 2" "1516 < length f" "length f < 1522"
  shows "low_level_input ltr rd_pins wr_pins e = None"
  using nic.receive_frame_fails [OF assms(2-6,8), of "Rx_Data_Buf e" ltr "dm9000_mac e" "of_nat BUFFER_MAX_LENGTH"]
    assms(1,7) by (simp add: low_level_input_def)

theorem ethernet_overruns_buffer_witness:
  "low_level_input True rd_pins wr_pins (ether_demo net_demo (frame_mem 0 (replicate 1518 1) [])) = None"
  by (rule ethernet_overruns_buffer [where st = 0 and f = "replicate 1518 1" and pad = "[]" and rest = "[]"])
    (simp_all add: ether_demo_def nic_demo_def idle_pins_def)

end
