(* ===== verification/Inet.thy ===== *)
theory Inet
  imports Prelude
begin

text \<open>
  \<open>Lwip-1.3.2/src/core/ipv4/inet.c\<close>: addresses as text, and the byte order.  A C string is the list of its characters; what
  is read at its end is the terminator.
\<close>

unbundle bit_operations_syntax

section \<open>Byte order\<close>

definition htons :: "u16 \<Rightarrow> u16" where
  "htons n = push_bit 8 (n AND 0xff) OR drop_bit 8 (n AND 0xff00)"

definition ntohs :: "u16 \<Rightarrow> u16" where "ntohs n = htons n"

definition htonl :: "u32 \<Rightarrow> u32" where
  "htonl n = push_bit 24 (n AND 0xff) OR push_bit 8 (n AND 0xff00) OR drop_bit 8 (n AND 0xff0000) OR drop_bit 24 (n AND 0xff000000)"

definition ntohl :: "u32 \<Rightarrow> u32" where "ntohl n = htonl n"

section \<open>Characters\<close>

definition in_range :: "char \<Rightarrow> char \<Rightarrow> char \<Rightarrow> bool" where
  "in_range c lo up \<longleftrightarrow> (of_char c :: nat) \<ge> of_char lo \<and> (of_char c :: nat) \<le> of_char up"

definition isdigit :: "char \<Rightarrow> bool" where "isdigit c = in_range c (CHR ''0'') (CHR ''9'')"
definition islower :: "char \<Rightarrow> bool" where "islower c = in_range c (CHR ''a'') (CHR ''z'')"
definition isxdigit :: "char \<Rightarrow> bool" where
  "isxdigit c \<longleftrightarrow> isdigit c \<or> in_range c (CHR ''a'') (CHR ''f'') \<or> in_range c (CHR ''A'') (CHR ''F'')"
definition isspace :: "char \<Rightarrow> bool" where
  "isspace c \<longleftrightarrow> c = CHR '' '' \<or> c = CHR 0x0C \<or> c = CHR 0x0A \<or> c = CHR 0x0D \<or> c = CHR 0x09 \<or> c = CHR 0x0B"

section \<open>Text to address\<close>

definition cur :: "string \<Rightarrow> char" where
  "cur cs = (case cs of [] \<Rightarrow> CHR 0x00 | c # cs \<Rightarrow> c)"

fun digits :: "u32 \<Rightarrow> u32 \<Rightarrow> string \<Rightarrow> u32 \<times> string" where
  "digits base val [] = (val, [])"
| "digits base val (c # cs) =
     (if isdigit c then digits base (val * base + of_nat (of_char c - of_char (CHR ''0''))) cs
      else if base = 16 \<and> isxdigit c
      then digits base (push_bit 4 val OR of_nat (of_char c + 10 - of_char (if islower c then CHR ''a'' else CHR ''A''))) cs
      else (val, c # cs))"

text \<open>A number with its base: decimal, \<open>0x\<close> hexadecimal, \<open>0\<close> octal.\<close>

definition number :: "string \<Rightarrow> u32 \<times> string" where
  "number cs =
     (if cur cs = CHR ''0'' then
        (if cur (tl cs) = CHR ''x'' \<or> cur (tl cs) = CHR ''X'' then digits 16 0 (tl (tl cs)) else digits 8 0 (tl cs))
      else digits 10 0 cs)"

function parts_loop :: "u32 list \<Rightarrow> string \<Rightarrow> (u32 list \<times> u32 \<times> string) option" where
  "parts_loop ps cs =
     (if \<not> isdigit (cur cs) then None
      else let (val, cs) = number cs in
        if cur cs = CHR ''.'' then
          (if length ps \<ge> 3 then None else parts_loop (ps @ [val]) (tl cs))
        else Some (ps, val, cs))"
  by pat_completeness auto
termination by (relation "measure (\<lambda>(ps, cs). 4 - length ps)") auto

text \<open>The result is \<open>None\<close> for 0, and the address that is stored for 1.\<close>

definition inet_aton :: "string \<Rightarrow> u32 option" where
  "inet_aton cp = (case parts_loop [] cp of
     None \<Rightarrow> None
   | Some (ps, val, cs) \<Rightarrow>
       if cur cs \<noteq> CHR 0x00 \<and> \<not> isspace (cur cs) then None
       else (case ps of
           [] \<Rightarrow> Some (htonl val)
         | [a] \<Rightarrow> if val > 0xffffff then None else Some (htonl (val OR push_bit 24 a))
         | [a, b] \<Rightarrow> if val > 0xffff then None else Some (htonl (val OR (push_bit 24 a OR push_bit 16 b)))
         | a # b # c # ps \<Rightarrow>
             if val > 0xff then None else Some (htonl (val OR (push_bit 24 a OR push_bit 16 b OR push_bit 8 c)))))"

definition INADDR_NONE :: u32 where "INADDR_NONE = 0xffffffff"

definition inet_addr :: "string \<Rightarrow> u32" where
  "inet_addr cp = (case inet_aton cp of Some a \<Rightarrow> a | None \<Rightarrow> INADDR_NONE)"

section \<open>Address to text\<close>

text \<open>\<open>inv\<close>: the digits of a byte, the last one first.\<close>

function inv_digits :: "u8 \<Rightarrow> string" where
  "inv_digits b = char_of (48 + unat (b mod 10)) # (if b div 10 = 0 then [] else inv_digits (b div 10))"
  by pat_completeness auto
termination
proof (relation "measure unat")
  fix b :: u8
  assume "b div 10 \<noteq> 0"
  then have "b \<noteq> 0" by auto
  then have "0 < unat b" by (simp add: unat_gt_0)
  then show "(b div 10, b) \<in> measure unat" by (simp add: unat_div)
qed simp

text \<open>\<open>n\<close> walks over the bytes of the address, the least significant one first, as they lie in memory; the last point is
  replaced by the terminator.\<close>

definition inet_ntoa :: "u32 \<Rightarrow> string" where
  "inet_ntoa addr =
     butlast (concat (map (\<lambda>n. rev (inv_digits (ucast (drop_bit (8 * n) addr))) @ [CHR ''.'']) [0..<4]))"

section \<open>Properties\<close>

declare parts_loop.simps [simp del] inv_digits.simps [simp del]

lemma cur_append: "cs \<noteq> [] \<Longrightarrow> cur (cs @ ds) = cur cs"
  by (cases cs) (simp_all add: cur_def)

definition decimal :: "u8 \<Rightarrow> string" where "decimal b = rev (inv_digits b)"

lemma digit_char: "(n::nat) < 10 \<Longrightarrow> of_char (char_of (48 + n) :: char) = 48 + n"
  by (simp add: of_char_of)

lemma isdigit_digit: "(n::nat) < 10 \<Longrightarrow> isdigit (char_of (48 + n))"
  by (simp add: isdigit_def in_range_def digit_char)

lemma unat_mod_10: "unat (b mod 10 :: u8) < 10"
  by (simp add: unat_mod)

lemma inv_digits_all: "list_all isdigit (inv_digits b)"
proof (induction b rule: inv_digits.induct)
  case (1 b)
  then show ?case by (subst inv_digits.simps) (simp add: isdigit_digit unat_mod_10)
qed

lemma digits_snoc:
  "list_all isdigit cs \<Longrightarrow> n < 10 \<Longrightarrow>
   digits 10 v (cs @ [char_of (48 + n)]) = (fst (digits 10 v cs) * 10 + of_nat n, [])"
  by (induction cs arbitrary: v) (simp_all add: isdigit_digit digit_char)

lemma byte_div_mod: "ucast (b div 10 :: u8) * 10 + of_nat (unat (b mod 10)) = (ucast b :: u32)"
proof -
  have "unat (b div 10) * 10 + unat (b mod 10) = unat b" by (simp add: unat_div unat_mod)
  then have "of_nat (unat (b div 10) * 10 + unat (b mod 10)) = (of_nat (unat b) :: u32)" by (rule arg_cong)
  then show ?thesis by (simp only: of_nat_add of_nat_mult of_nat_unat of_nat_numeral)
qed

lemma digits_decimal: "digits 10 0 (decimal b) = (ucast b, [])"
proof (induction b rule: inv_digits.induct)
  case (1 b)
  show ?case
  proof (cases "b div 10 = 0")
    case True
    then show ?thesis using digits_snoc [of "[]" _ 0, OF _ unat_mod_10 [of b]] byte_div_mod [of b]
      by (simp add: decimal_def inv_digits.simps [of b])
  next
    case False
    have "list_all isdigit (decimal (b div 10))" using inv_digits_all [of "b div 10"] by (simp add: decimal_def list_all_rev)
    from digits_snoc [OF this unat_mod_10 [of b], of 0] show ?thesis
      using False 1 byte_div_mod [of b] by (simp add: decimal_def inv_digits.simps [of b])
  qed
qed

lemma last_inv: "b \<noteq> 0 \<Longrightarrow> last (inv_digits b) \<noteq> CHR ''0''"
proof (induction b rule: inv_digits.induct)
  case (1 b)
  show ?case
  proof (cases "b div 10 = 0")
    case True
    have "unat (b mod 10) \<noteq> 0" using True 1(2) by (auto simp: word_unat_eq_iff unat_div unat_mod)
    then have "of_char (char_of (48 + unat (b mod 10)) :: char) \<noteq> (of_char (CHR ''0'') :: nat)"
      using digit_char [OF unat_mod_10 [of b]] by simp
    then have "char_of (48 + unat (b mod 10)) \<noteq> CHR ''0''" by metis
    then show ?thesis using True by (simp add: inv_digits.simps [of b])
  next
    case False
    moreover have "inv_digits (b div 10) \<noteq> []" by (subst inv_digits.simps) simp
    ultimately show ?thesis using 1 by (subst inv_digits.simps) simp
  qed
qed

lemma length_inv: "length (inv_digits b) \<le> 3"
proof -
  have "unat b div 1000 = 0" using unat_u8_lt [of b] by (intro div_less) linarith
  moreover have "unat b div 10 div 10 div 10 = unat b div 1000" by (simp only: div_mult2_eq [symmetric]) simp
  ultimately have "unat b div 10 div 10 div 10 = 0" by (simp only:)
  then have "b div 10 div 10 div 10 = 0" by (simp add: word_unat_eq_iff unat_div)
  then show ?thesis
    by (simp add: inv_digits.simps [of b] inv_digits.simps [of "b div 10"] inv_digits.simps [of "b div 10 div 10"])
qed

lemma decimal_facts:
  "decimal b \<noteq> []" "length (decimal b) \<le> 3" "list_all isdigit (decimal b)" "b \<noteq> 0 \<Longrightarrow> hd (decimal b) \<noteq> CHR ''0''" "decimal 0 = ''0''"
proof -
  have ne: "inv_digits b \<noteq> []" by (subst inv_digits.simps) simp
  then show "decimal b \<noteq> []" by (simp add: decimal_def)
  show "length (decimal b) \<le> 3" by (simp add: decimal_def length_inv)
  show "list_all isdigit (decimal b)" by (simp add: decimal_def list_all_rev inv_digits_all)
  show "hd (decimal b) \<noteq> CHR ''0''" if "b \<noteq> 0" using last_inv [OF that] ne by (simp add: decimal_def hd_rev)
  show "decimal 0 = ''0''" by code_simp
qed

lemma digits_append:
  "list_all isdigit cs \<Longrightarrow> ds = [] \<or> \<not> isdigit (hd ds) \<and> (base = 16 \<longrightarrow> \<not> isxdigit (hd ds)) \<Longrightarrow>
   digits base v (cs @ ds) = (fst (digits base v cs), ds)"
  by (induction cs arbitrary: v) (cases ds; auto)+

lemma number_decimal:
  assumes "ds = [] \<or> \<not> isdigit (hd ds) \<and> hd ds \<noteq> CHR ''x'' \<and> hd ds \<noteq> CHR ''X''"
  shows "number (decimal b @ ds) = (ucast b, ds)"
proof (cases "b = 0")
  case True
  then show ?thesis using assms decimal_facts(5) by (cases ds) (auto simp: number_def cur_def)
next
  case False
  have "cur (decimal b @ ds) \<noteq> CHR ''0''"
    using decimal_facts(1) [of b] decimal_facts(4) [OF False] by (cases "decimal b") (simp_all add: cur_def)
  then show ?thesis using digits_append [OF decimal_facts(3), where ds = ds and base = 10 and v = 0] assms by (auto simp: number_def digits_decimal)
qed

lemma decimal_first: "isdigit (cur (decimal b @ ds))"
  using decimal_facts(1,3) [of b] by (cases "decimal b") (auto simp: cur_def)

lemma point: "\<not> isdigit (CHR ''.'')"
  by code_simp

lemma parts_point: "length ps < 3 \<Longrightarrow> parts_loop ps (decimal b @ CHR ''.'' # ds) = parts_loop (ps @ [ucast b]) ds"
  by (subst parts_loop.simps) (simp add: decimal_first number_decimal point, simp add: cur_def)

lemma parts_end: "parts_loop ps (decimal b) = Some (ps, ucast b, [])"
  using decimal_first [of b "[]"] number_decimal [of "[]" b] by (subst parts_loop.simps) (simp add: cur_def)

lemma masks: "(0xff :: u32) = mask 8" "(0xff00 :: u32) = push_bit 8 (mask 8)"
  "(0xff0000 :: u32) = push_bit 16 (mask 8)" "(0xff000000 :: u32) = push_bit 24 (mask 8)"
  by (simp_all add: mask_eq_exp_minus_1 push_bit_eq_mult)

lemma bit_htonl:
  "bit (htonl x) n \<longleftrightarrow> n < 32 \<and> bit x (if n < 8 then 24 + n else if n < 16 then 8 + n else if n < 24 then n - 8 else n - 24)"
  by (auto simp: htonl_def masks bit_simps)

lemma htonl_htonl: "htonl (htonl x) = x"
  by (rule bit_word_eqI) (auto simp: bit_htonl)

lemma htonl_bytes:
  fixes x :: u32
  shows "ucast (ucast (drop_bit 24 x) :: u8) OR (push_bit 24 (ucast (ucast x :: u8)) OR push_bit 16 (ucast (ucast (drop_bit 8 x) :: u8)) OR
    push_bit 8 (ucast (ucast (drop_bit 16 x) :: u8))) = htonl x"
  by (rule bit_word_eqI) (auto simp: bit_htonl bit_simps)

lemma ntoa_parts:
  "inet_ntoa x = decimal (ucast x) @ CHR ''.'' # decimal (ucast (drop_bit 8 x)) @ CHR ''.'' #
     decimal (ucast (drop_bit 16 x)) @ CHR ''.'' # decimal (ucast (drop_bit 24 x))"
  by (simp add: inet_ntoa_def decimal_def upt_rec butlast_append)

lemma ucast_le_ff: "ucast (b :: u8) \<le> (0xff :: u32)"
  using unat_u8_lt [of b] by (simp add: word_le_nat_alt del: unat_u8_lt)

text \<open>
  Claim C33.  \<open>inet_ntoa\<close> fits its buffer of 16 characters, and \<open>inet_aton\<close> reads back the address that it was given.
\<close>

theorem inet_text_roundtrip: "length (inet_ntoa x) < 16 \<and> inet_aton (inet_ntoa x) = Some x"
proof -
  have "parts_loop [] (inet_ntoa x) =
      Some ([ucast (ucast x :: u8), ucast (ucast (drop_bit 8 x) :: u8), ucast (ucast (drop_bit 16 x) :: u8)],
        ucast (ucast (drop_bit 24 x) :: u8), [])"
    by (simp add: ntoa_parts parts_point parts_end)
  moreover have "length (inet_ntoa x) < 16"
    using decimal_facts(2) [of "ucast x"] decimal_facts(2) [of "ucast (drop_bit 8 x)"]
      decimal_facts(2) [of "ucast (drop_bit 16 x)"] decimal_facts(2) [of "ucast (drop_bit 24 x)"]
    by (simp add: ntoa_parts)
  ultimately show ?thesis
    by (simp add: inet_aton_def cur_def not_less ucast_le_ff htonl_bytes htonl_htonl)
qed

text \<open>Only the last number is checked against its range: the others lose their high bits, and a number that starts with
  0 may have the digits 8 and 9.\<close>

lemma inet_aton_unchecked:
  "inet_aton ''300.168.1.10'' = inet_aton ''44.168.1.10'' \<and> inet_aton ''10.0.0.09'' = inet_aton ''10.0.0.9''"
  by code_simp

end
