(* ===== verification/Inet_Chksum.thy ===== *)
theory Inet_Chksum
  imports Inet Pbuf
begin

text \<open>
  \<open>Lwip-1.3.2/src/core/ipv4/inet_chksum.c\<close>, with the algorithm that the configuration selects (version 1): the sum of a
  run of bytes, of a chain of pbufs, and of a chain with the pseudo header of UDP and TCP.  They are proved equal to one
  reference, the ones' complement sum of the bytes.
\<close>

section \<open>Operations\<close>

fun sum_words :: "u8 list \<Rightarrow> u32 \<Rightarrow> u32" where
  "sum_words (a # b # xs) acc = sum_words xs (acc + ucast (push_bit 8 (ucast a) OR ucast b :: u16))"
| "sum_words [a] acc = acc + ucast (push_bit 8 (ucast a) :: u16)"
| "sum_words [] acc = acc"

text \<open>The list is the \<open>len\<close> bytes at \<open>dataptr\<close>.\<close>

definition lwip_standard_chksum :: "u8 list \<Rightarrow> u16" where
  "lwip_standard_chksum xs =
     (let acc = sum_words xs 0;
          acc = drop_bit 16 acc + (acc AND 0xffff);
          acc = (if acc AND 0xffff0000 \<noteq> 0 then drop_bit 16 acc + (acc AND 0xffff) else acc)
      in htons (ucast acc))"

definition FOLD_U32T :: "u32 \<Rightarrow> u32" where
  "FOLD_U32T u = drop_bit 16 u + (u AND 0xffff)"

definition SWAP_BYTES_IN_WORD :: "u32 \<Rightarrow> u32" where
  "SWAP_BYTES_IN_WORD w = push_bit 8 (w AND 0xff) OR drop_bit 8 (w AND 0xff00)"

definition inet_chksum :: "u8 list \<Rightarrow> u16" where
  "inet_chksum xs = NOT (lwip_standard_chksum xs)"

text \<open>The loop over a chain, which \<open>inet_chksum_pbuf\<close> and \<open>inet_chksum_pseudo\<close> share.\<close>

partial_function (option) chksum_loop :: "u32 \<Rightarrow> bool \<Rightarrow> u16 option \<Rightarrow> netmem \<Rightarrow> (u32 \<times> bool) option" where
  [code]: "chksum_loop acc swapped q m = (case q of
     None \<Rightarrow> Some (acc, swapped)
   | Some q \<Rightarrow> do {
       b \<leftarrow> bufs m q;
       let acc = FOLD_U32T (acc + ucast (lwip_standard_chksum (load_data m (p_payload b) (unat (p_len b)))));
       (if p_len b mod 2 \<noteq> 0 then chksum_loop (SWAP_BYTES_IN_WORD acc) (\<not> swapped) (p_next b) m
        else chksum_loop acc swapped (p_next b) m)
     })"

definition inet_chksum_pbuf :: "u16 option \<Rightarrow> netmem \<Rightarrow> u16 option" where
  "inet_chksum_pbuf p m = do {
     (acc, swapped) \<leftarrow> chksum_loop 0 False p m;
     let acc = (if swapped then SWAP_BYTES_IN_WORD acc else acc);
     Some (ucast (NOT (acc AND 0xffff)))
   }"

definition inet_chksum_pseudo :: "u16 option \<Rightarrow> u32 \<Rightarrow> u32 \<Rightarrow> u8 \<Rightarrow> u16 \<Rightarrow> netmem \<Rightarrow> u16 option" where
  "inet_chksum_pseudo p src dest proto proto_len m = do {
     (acc, swapped) \<leftarrow> chksum_loop 0 False p m;
     let acc = (if swapped then SWAP_BYTES_IN_WORD acc else acc);
     let acc = acc + (src AND 0xffff);
     let acc = acc + (drop_bit 16 src AND 0xffff);
     let acc = acc + (dest AND 0xffff);
     let acc = acc + (drop_bit 16 dest AND 0xffff);
     let acc = acc + ucast (htons (ucast proto));
     let acc = acc + ucast (htons proto_len);
     let acc = FOLD_U32T (FOLD_U32T acc);
     Some (ucast (NOT (acc AND 0xffff)))
   }"

section \<open>The ones' complement sum\<close>

text \<open>The sum of the bytes as 16-bit words, the first byte the low one, as the words lie in memory.\<close>

fun le_sum :: "u8 list \<Rightarrow> nat" where
  "le_sum (a # b # xs) = unat a + 256 * unat b + le_sum xs"
| "le_sum [a] = unat a"
| "le_sum [] = 0"

text \<open>End-around carry: a number from 1 to 65535, or 0 for 0.\<close>

definition ones :: "nat \<Rightarrow> nat" where
  "ones n = (if n = 0 then 0 else (n - 1) mod 65535 + 1)"

definition cong :: "nat \<Rightarrow> nat \<Rightarrow> bool" where
  "cong a b \<longleftrightarrow> a mod 65535 = b mod 65535 \<and> (a = 0 \<longleftrightarrow> b = 0)"

lemma ones_le: "ones n \<le> 65535"
proof -
  have "(n - 1) mod 65535 < 65535" by (rule mod_less_divisor) simp
  then have "(n - 1) mod 65535 + 1 \<le> 65535" by linarith
  then show ?thesis by (simp only: ones_def split: if_splits) simp
qed

lemma cong_refl [simp]: "cong a a" and cong_sym: "cong a b \<Longrightarrow> cong b a"
  and cong_trans [trans]: "cong a b \<Longrightarrow> cong b c \<Longrightarrow> cong a c"
  by (auto simp: cong_def)

lemma cong_add: "cong a b \<Longrightarrow> cong c d \<Longrightarrow> cong (a + c) (b + d)"
  by (auto simp: cong_def intro: mod_add_cong)

lemma cong_mult: "cong a b \<Longrightarrow> 0 < k \<Longrightarrow> cong (k * a) (k * b)"
  by (auto simp: cong_def intro: mod_mult_cong)

lemma cong_ones: "cong (ones n) n"
  by (cases n) (auto simp: cong_def ones_def mod_Suc_eq)

lemma cong_eq:
  assumes "cong a b" "a \<le> 65535" "b \<le> 65535"
  shows "a = b"
proof -
  have m: "a mod 65535 = b mod 65535" "a = 0 \<longleftrightarrow> b = 0" using assms(1) by (auto simp: cong_def)
  consider "a < 65535" "b < 65535" | "a = 65535" | "b = 65535" using assms(2,3) by linarith
  then show ?thesis
  proof cases
    case 1
    then show ?thesis using m by simp
  next
    case 2
    then have "b mod 65535 = 0" "b \<noteq> 0" using m by auto
    then show ?thesis using 2 assms(3) by (auto elim!: dvdE simp: mod_eq_0_iff_dvd)
  next
    case 3
    then have "a mod 65535 = 0" "a \<noteq> 0" using m by auto
    then show ?thesis using 3 assms(2) by (auto elim!: dvdE simp: mod_eq_0_iff_dvd)
  qed
qed

lemma ones_cong: "cong a b \<Longrightarrow> a \<le> 65535 \<Longrightarrow> a = ones b"
  using cong_eq [of a "ones b"] cong_trans [of a b "ones b"] cong_sym [OF cong_ones [of b]] ones_le by blast

lemma cong_65536: "cong (65536 * a) a"
proof -
  have "65536 * a mod 65535 = (a + 65535 * a) mod 65535" by simp
  also have "\<dots> = a mod 65535" by (rule mod_mult_self2)
  finally show ?thesis by (simp add: cong_def)
qed

section \<open>The word operations\<close>

lemma cong_carry: "cong (n div 65536 + n mod 65536) n"
proof -
  have "cong (n div 65536 + n mod 65536) (65536 * (n div 65536) + n mod 65536)"
    by (rule cong_add [OF cong_sym [OF cong_65536] cong_refl])
  then show ?thesis by simp
qed

lemma cong_swap: "cong (256 * (n mod 256) + n div 256) (256 * n)"
proof -
  have "cong (256 * (n mod 256) + n div 256) (256 * (n mod 256) + 65536 * (n div 256))"
    by (rule cong_add [OF cong_refl cong_sym [OF cong_65536]])
  also have "256 * (n mod 256) + 65536 * (n div 256) = 256 * (256 * (n div 256) + n mod 256)"
    by (simp only: distrib_left)
  finally show ?thesis by (simp only: mult_div_mod_eq)
qed

lemma fold_cong: "cong (unat (FOLD_U32T u)) (unat u)"
  by (simp add: FOLD_U32T_def unat_carry cong_carry)

lemma carry_le: "n \<le> 131070 \<Longrightarrow> n div 65536 + n mod 65536 \<le> (65535 :: nat)"
proof (cases "n < 65536")
  case False
  assume "n \<le> 131070"
  moreover from False obtain k where "n = k + 65536" by (metis le_add_diff_inverse2 not_less)
  ultimately show ?thesis by simp
qed simp

lemma fold_le: "unat u \<le> 131070 \<Longrightarrow> unat (FOLD_U32T u) \<le> 65535"
  by (simp add: FOLD_U32T_def unat_carry carry_le)

lemma htons_cong: "cong (unat (htons n)) (256 * unat n)"
  unfolding htons_def unat_swap16 by (rule cong_swap)

lemma masks16: "(0xff :: u16) = mask 8" "(0xff00 :: u16) = push_bit 8 (mask 8)"
  by (simp_all add: mask_eq_exp_minus_1 push_bit_eq_mult)

lemma swap_htons: "unat w \<le> 65535 \<Longrightarrow> SWAP_BYTES_IN_WORD w = ucast (htons (ucast w))"
  by (rule bit_word_eqI) (auto simp: SWAP_BYTES_IN_WORD_def htons_def masks masks16 bit_simps)

lemma swap_cong: "unat w \<le> 65535 \<Longrightarrow> cong (unat (SWAP_BYTES_IN_WORD w)) (256 * unat w)"
  using htons_cong [of "ucast w"] by (simp add: swap_htons unsigned_ucast_eq take_bit_eq_mod)

lemma swap_le: "unat w \<le> 65535 \<Longrightarrow> unat (SWAP_BYTES_IN_WORD w) \<le> 65535"
  using unat_u16_lt [of "htons (ucast w)"] by (simp add: swap_htons del: unat_u16_lt)

section \<open>The sum of a run of bytes\<close>

text \<open>The sum that the loop computes, the first byte of a word the high one.\<close>

fun be_sum :: "u8 list \<Rightarrow> nat" where
  "be_sum (a # b # xs) = 256 * unat a + unat b + be_sum xs"
| "be_sum [a] = 256 * unat a"
| "be_sum [] = 0"

lemma be_sum_bound: "be_sum xs \<le> 65535 * length xs"
proof (induction xs rule: be_sum.induct)
  case (1 a b xs)
  have "unat a < 256" "unat b < 256" by (rule unat_u8_lt)+
  with 1 show ?case by (simp del: unat_u8_lt)
next
  case (2 a)
  have "unat a < 256" by (rule unat_u8_lt)
  then show ?case by (simp del: unat_u8_lt)
qed simp

lemma be_le_sum: "cong (be_sum xs) (256 * le_sum xs)"
proof (induction xs rule: be_sum.induct)
  case (1 a b xs)
  have "cong (256 * unat a + unat b + be_sum xs) (256 * unat a + 65536 * unat b + 256 * le_sum xs)"
    by (intro cong_add cong_refl cong_sym [OF cong_65536] 1)
  then show ?case by (simp add: algebra_simps)
qed simp_all

lemma unat_high_byte: "unat (push_bit 8 (ucast (a :: u8)) :: u16) = 256 * unat a"
  using unat_two_bytes [of a 0] by simp

lemma sum_words_step:
  "unat acc + n < 2 ^ 32 \<Longrightarrow> unat (w :: u16) \<le> n \<Longrightarrow> unat (acc + ucast w :: u32) = unat acc + unat w"
  by (simp add: unat_word_ariths)

lemma sum_words_ok: "unat acc + be_sum xs < 2 ^ 32 \<Longrightarrow> unat (sum_words xs acc) = unat acc + be_sum xs"
proof (induction xs acc rule: sum_words.induct)
  case (1 a b xs acc)
  let ?w = "push_bit 8 (ucast a) OR ucast b :: u16"
  have "unat (acc + ucast ?w) = unat acc + unat ?w"
    by (rule sum_words_step [of _ "unat ?w"]) (use 1(2) in \<open>simp_all add: unat_two_bytes\<close>)
  then show ?case using 1 by (simp add: unat_two_bytes)
next
  case (2 a acc)
  then show ?case using sum_words_step [of acc "256 * unat a" "push_bit 8 (ucast a)"] by (simp add: unat_high_byte)
qed simp

lemma carry_mask: "acc AND 0xffff0000 = 0 \<longleftrightarrow> unat (acc :: u32) < 65536"
proof -
  have m: "(0xffff0000 :: u32) = push_bit 16 (mask 16)" by (simp add: mask_eq_exp_minus_1 push_bit_eq_mult)
  have "acc AND 0xffff0000 = push_bit 16 (drop_bit 16 acc)" by (rule bit_word_eqI) (auto simp: m bit_simps)
  moreover have "drop_bit 16 (push_bit 16 (drop_bit 16 acc)) = drop_bit 16 acc"
  proof (rule bit_word_eqI)
    fix n
    show "bit (drop_bit 16 (push_bit 16 (drop_bit 16 acc))) n = bit (drop_bit 16 acc) n"
      using bit_imp_le_length [of acc "16 + n"] by (auto simp: bit_simps)
  qed
  ultimately have "acc AND 0xffff0000 = 0 \<longleftrightarrow> drop_bit 16 acc = 0" by (metis drop_bit_of_0 push_bit_of_0)
  also have "\<dots> \<longleftrightarrow> unat acc div 65536 = 0" using unat_halves(2) [of acc] by (metis unat_0 unat_eq_0)
  finally show ?thesis by (simp add: div_eq_0_iff)
qed

lemma fold_once: "unat (FOLD_U32T u) \<le> 131070"
proof -
  have "unat u < 65536 * 65536" using unsigned_less [of u] by simp
  then have "unat u div 65536 < 65536" by (rule less_mult_imp_div_less)
  moreover have "unat u mod 65536 < 65536" by (rule mod_less_divisor) simp
  ultimately show ?thesis unfolding FOLD_U32T_def unat_carry by linarith
qed

lemma fold_twice:
  assumes "r = (if FOLD_U32T u AND 0xffff0000 \<noteq> 0 then FOLD_U32T (FOLD_U32T u) else FOLD_U32T u)"
  shows "unat r \<le> 65535" "cong (unat r) (unat u)"
proof -
  show "unat r \<le> 65535" using fold_le [OF fold_once [of u]] carry_mask [of "FOLD_U32T u"] by (simp add: assms)
  show "cong (unat r) (unat u)" using fold_cong [of u] cong_trans [OF fold_cong [of "FOLD_U32T u"] fold_cong] by (simp add: assms)
qed

lemma cong_65536_256: "cong (256 * (256 * n)) n"
  using cong_65536 [of n] by simp

lemma standard_chksum:
  assumes "length xs \<le> 65535"
  shows "unat (lwip_standard_chksum xs) = ones (le_sum xs)"
proof -
  define acc where "acc = sum_words xs 0"
  define r where "r = (if FOLD_U32T acc AND 0xffff0000 \<noteq> 0 then FOLD_U32T (FOLD_U32T acc) else FOLD_U32T acc)"
  note R = fold_twice [OF r_def]
  have "be_sum xs \<le> 65535 * 65535" using be_sum_bound [of xs] assms by linarith
  then have "unat acc = be_sum xs" using sum_words_ok [of 0 xs] by (simp add: acc_def)
  with R(2) have "cong (unat r) (256 * le_sum xs)" using cong_trans [OF _ be_le_sum [of xs]] by simp
  then have "cong (256 * unat r) (256 * (256 * le_sum xs))" by (rule cong_mult) simp
  then have "cong (256 * unat r) (le_sum xs)" using cong_65536_256 by (rule cong_trans)
  moreover have "unat (ucast r :: u16) = unat r" using R(1) by (simp add: unsigned_ucast_eq take_bit_eq_mod)
  ultimately have "cong (unat (htons (ucast r))) (le_sum xs)" using cong_trans [OF htons_cong [of "ucast r"]] by simp
  then have "unat (htons (ucast r)) = ones (le_sum xs)"
    using unat_u16_lt [of "htons (ucast r)"] by (intro ones_cong) (simp_all del: unat_u16_lt)
  moreover have "lwip_standard_chksum xs = htons (ucast r)"
    unfolding lwip_standard_chksum_def Let_def r_def acc_def FOLD_U32T_def by (rule refl)
  ultimately show ?thesis by simp
qed

section \<open>Chains\<close>

lemma le_sum_Cons: "cong (le_sum (a # xs)) (unat a + 256 * le_sum xs)"
proof (induction xs arbitrary: a rule: le_sum.induct)
  case (1 b c xs)
  have "cong (unat a + 256 * unat b + le_sum (c # xs)) (unat a + 256 * unat b + (65536 * unat c + 256 * le_sum xs))"
    using cong_trans [OF 1 cong_add [OF cong_sym [OF cong_65536] cong_refl]] by (rule cong_add [OF cong_refl])
  then show ?case by (simp add: algebra_simps)
qed simp_all

definition byte_scale :: "bool \<Rightarrow> nat" where "byte_scale s = (if s then 256 else 1)"

lemma scale_twice: "cong (byte_scale s * (byte_scale t * n)) (byte_scale (s \<noteq> t) * n)"
  using cong_65536 [of n] by (cases s; cases t) (simp_all add: byte_scale_def)

lemma le_sum_append: "cong (le_sum (xs @ ys)) (le_sum xs + byte_scale (odd (length xs)) * le_sum ys)"
proof (induction xs)
  case (Cons x xs)
  let ?k = "byte_scale (odd (length xs))"
  have "cong (le_sum (x # xs @ ys)) (unat x + 256 * (le_sum xs + ?k * le_sum ys))"
    using le_sum_Cons by (rule cong_trans) (intro cong_add cong_refl cong_mult Cons, simp)
  also have "unat x + 256 * (le_sum xs + ?k * le_sum ys) = unat x + 256 * le_sum xs + byte_scale True * (?k * le_sum ys)"
    by (simp add: byte_scale_def algebra_simps)
  also have "cong \<dots> (le_sum (x # xs) + byte_scale (odd (length (x # xs))) * le_sum ys)"
    using scale_twice [of True "odd (length xs)" "le_sum ys"] by (intro cong_add cong_sym [OF le_sum_Cons]) simp
  finally show ?case by simp
qed (simp add: byte_scale_def)

lemma chksum_loop_ok:
  "chain (bufs m) q ps \<Longrightarrow> unat acc \<le> 65535 \<Longrightarrow>
   \<exists>acc' s'. chksum_loop acc s q m = Some (acc', s') \<and> unat acc' \<le> 65535 \<and>
     cong (byte_scale s' * unat acc') (byte_scale s * (unat acc + le_sum (contents m ps)))"
proof (induction ps arbitrary: q acc s)
  case Nil
  then show ?case by (subst chksum_loop.simps) simp
next
  case (Cons p ps)
  then obtain b where b: "q = Some p" "bufs m p = Some b" "chain (bufs m) (p_next b) ps" by auto
  define y where "y = load_data m (p_payload b) (unat (p_len b))"
  have y: "length y \<le> 65535" using unat_u16_lt [of "p_len b"] by (simp add: y_def del: unat_u16_lt)
  have odd: "p_len b mod 2 \<noteq> 0 \<longleftrightarrow> odd (length y)"
    by (simp add: y_def odd_iff_mod_2_eq_one word_unat_eq_iff unat_mod)
  define a1 where "a1 = FOLD_U32T (acc + ucast (lwip_standard_chksum y))"
  have "unat (acc + ucast (lwip_standard_chksum y)) = unat acc + ones (le_sum y)"
    using sum_words_step [of acc 65535 "lwip_standard_chksum y"] Cons.prems(2) ones_le [of "le_sum y"]
    by (simp add: standard_chksum [OF y])
  then have a1: "unat a1 \<le> 65535" "cong (unat a1) (unat acc + le_sum y)"
    using fold_le [of "acc + ucast (lwip_standard_chksum y)"] fold_cong [of "acc + ucast (lwip_standard_chksum y)"]
      Cons.prems(2) ones_le [of "le_sum y"] cong_trans [OF _ cong_add [OF cong_refl cong_ones]] by (auto simp: a1_def)
  define a2 where "a2 = (if odd (length y) then SWAP_BYTES_IN_WORD a1 else a1)"
  define t where "t = (s \<noteq> odd (length y))"
  have a2: "unat a2 \<le> 65535" "cong (unat a2) (byte_scale (odd (length y)) * unat a1)"
    using a1(1) swap_le swap_cong by (auto simp: a2_def byte_scale_def)
  from Cons.IH [OF b(3) a2(1), of t] obtain acc' s' where
    r: "chksum_loop a2 t (p_next b) m = Some (acc', s')" "unat acc' \<le> 65535"
      "cong (byte_scale s' * unat acc') (byte_scale t * (unat a2 + le_sum (contents m ps)))" by blast
  have "chksum_loop acc s q m = Some (acc', s')"
    using b odd r(1) by (subst chksum_loop.simps) (auto simp: Let_def a2_def a1_def t_def y_def split: if_splits)
  moreover have "cong (byte_scale s' * unat acc') (byte_scale s * (unat acc + le_sum (y @ contents m ps)))"
  proof -
    let ?r = "le_sum (contents m ps)" and ?o = "odd (length y)"
    have pos: "0 < byte_scale x" for x by (simp add: byte_scale_def)
    have "cong (unat a2) (byte_scale ?o * (unat acc + le_sum y))"
      by (rule cong_trans [OF a2(2) cong_mult [OF a1(2) pos]])
    from cong_trans [OF cong_mult [OF this pos [of t]] scale_twice]
    have "cong (byte_scale t * unat a2) (byte_scale (t \<noteq> ?o) * (unat acc + le_sum y))" .
    moreover have "(t \<noteq> ?o) = s" by (auto simp: t_def)
    ultimately have "cong (byte_scale t * unat a2) (byte_scale s * (unat acc + le_sum y))" by (simp only:)
    moreover have "cong (byte_scale t * ?r) (byte_scale s * (byte_scale ?o * ?r))"
      using cong_sym [OF scale_twice [of s ?o ?r]] by (simp add: t_def)
    ultimately have "cong (byte_scale t * unat a2 + byte_scale t * ?r)
        (byte_scale s * (unat acc + le_sum y) + byte_scale s * (byte_scale ?o * ?r))" by (rule cong_add)
    also have "\<dots> = byte_scale s * (unat acc + (le_sum y + byte_scale ?o * ?r))" by (simp add: algebra_simps)
    also have "cong \<dots> (byte_scale s * (unat acc + le_sum (y @ contents m ps)))"
      by (intro cong_mult cong_add cong_refl cong_sym [OF le_sum_append] pos)
    finally show ?thesis using cong_trans [OF r(3)] by (simp only: distrib_left)
  qed
  moreover have "contents m (p # ps) = y @ contents m ps" using b(2) by (simp add: contents_def piece_def y_def)
  ultimately show ?case using r(2) by auto
qed

section \<open>The results\<close>

lemma unat_not16: "unat (NOT (w :: u16)) = 65535 - unat w"
proof -
  have "NOT w = - 1 - w" by (simp add: not_eq_complement)
  moreover have "w \<le> - 1" by simp
  then have "unat (- 1 - w) = unat (- 1 :: u16) - unat w" by (rule unat_sub)
  ultimately show ?thesis by (simp add: unsigned_minus_1_eq_mask mask_eq_exp_minus_1)
qed

lemma inet_chksum_eq: "length xs \<le> 65535 \<Longrightarrow> unat (inet_chksum xs) = 65535 - ones (le_sum xs)"
  by (simp add: inet_chksum_def unat_not16 standard_chksum)

lemma swapped_sum:
  assumes "unat acc \<le> 65535" "cong (byte_scale s * unat acc) n"
  shows "unat (if s then SWAP_BYTES_IN_WORD acc else acc) \<le> 65535" "cong (unat (if s then SWAP_BYTES_IN_WORD acc else acc)) n"
  using assms swap_le cong_trans [OF swap_cong] by (auto simp: byte_scale_def)

lemma not_low_half:
  assumes "unat (acc :: u32) \<le> 65535" "cong (unat acc) n"
  shows "unat (ucast (NOT (acc AND 0xffff)) :: u16) = 65535 - ones n"
proof -
  have "(ucast (NOT (acc AND 0xffff)) :: u16) = NOT (ucast acc)" by (rule bit_word_eqI) (auto simp: and_low_half bit_simps)
  moreover have "unat (ucast acc :: u16) = unat acc" using assms(1) by (simp add: unsigned_ucast_eq take_bit_eq_mod)
  ultimately show ?thesis using ones_cong [OF assms(2,1)] by (simp add: unat_not16)
qed

text \<open>The pseudo header as it lies in memory: the addresses, a zero, the protocol and the length.\<close>

definition word_bytes :: "u32 \<Rightarrow> u8 list" where
  "word_bytes w = [ucast w, ucast (drop_bit 8 w), ucast (drop_bit 16 w), ucast (drop_bit 24 w)]"

definition pseudo_header :: "u32 \<Rightarrow> u32 \<Rightarrow> u8 \<Rightarrow> u16 \<Rightarrow> u8 list" where
  "pseudo_header src dest proto n = word_bytes src @ word_bytes dest @ [0, proto, ucast (drop_bit 8 n), ucast n]"

lemma unat_plus: "unat a + unat b < 2 ^ 32 \<Longrightarrow> unat (a + b :: u32) = unat a + unat b"
  by (simp add: unat_word_ariths)

lemma low_half_bytes: "unat (w AND 0xffff :: u32) = unat (ucast w :: u8) + 256 * unat (ucast (drop_bit 8 w) :: u8)"
proof -
  have "w AND 0xffff = ucast (push_bit 8 (ucast (ucast (drop_bit 8 w) :: u8)) OR ucast (ucast w :: u8) :: u16)"
    by (rule bit_word_eqI) (auto simp: and_low_half bit_simps)
  then show ?thesis by (simp add: unat_two_bytes)
qed

lemma le_sum_word: "le_sum (word_bytes w @ xs) = unat (w AND 0xffff) + unat (drop_bit 16 w AND 0xffff) + le_sum xs"
  using low_half_bytes [of w] low_half_bytes [of "drop_bit 16 w"] by (simp add: word_bytes_def)

lemma htons_bytes: "unat (htons n) = unat (ucast (drop_bit 8 n) :: u8) + 256 * unat (ucast n :: u8)"
proof -
  have "htons n = push_bit 8 (ucast (ucast n :: u8)) OR ucast (ucast (drop_bit 8 n) :: u8)"
    by (rule bit_word_eqI) (auto simp: htons_def masks16 bit_simps dest: bit_imp_le_length)
  then show ?thesis by (simp add: unat_two_bytes)
qed

lemma htons_proto: "unat (htons (ucast proto)) = 256 * unat (proto :: u8)"
proof -
  have "(ucast (drop_bit 8 (ucast proto :: u16)) :: u8) = 0"
    by (rule bit_word_eqI) (auto simp: bit_simps dest: bit_imp_le_length)
  moreover have "(ucast (ucast proto :: u16) :: u8) = proto" by (rule bit_word_eqI) (simp add: bit_simps)
  ultimately show ?thesis using htons_bytes [of "ucast proto"] by simp
qed

lemma unat_low_half_le: "unat (w AND 0xffff :: u32) \<le> 65535"
  unfolding unat_halves by (rule less_Suc_eq_le [THEN iffD1]) simp

lemma chksum_pbuf_ok:
  assumes "chain (bufs m) p ps" "length (contents m ps) \<le> 65535"
  shows "inet_chksum_pbuf p m = Some (inet_chksum (contents m ps))"
proof -
  from chksum_loop_ok [OF assms(1), of 0 False] obtain acc s where
    l: "chksum_loop 0 False p m = Some (acc, s)" "unat acc \<le> 65535" "cong (byte_scale s * unat acc) (le_sum (contents m ps))"
    by (auto simp: byte_scale_def)
  note S = swapped_sum [OF l(2,3)]
  let ?x = "ucast (NOT ((if s then SWAP_BYTES_IN_WORD acc else acc) AND 0xffff)) :: u16"
  have "unat ?x = unat (inet_chksum (contents m ps))" using not_low_half [OF S] inet_chksum_eq [OF assms(2)] by simp
  then have "?x = inet_chksum (contents m ps)" by (simp only: word_unat_eq_iff)
  then show ?thesis by (simp add: inet_chksum_pbuf_def l(1) Let_def)
qed

lemma sum_six:
  assumes "unat a \<le> 65535" "unat b \<le> 65535" "unat c \<le> 65535" "unat d \<le> 65535" "unat e \<le> 65535" "unat f \<le> 65535" "unat g \<le> 65535"
  shows "unat (a + b + c + d + e + f + g :: u32) = unat a + unat b + unat c + unat d + unat e + unat f + unat g"
  using assms by (simp add: unat_plus)

lemma chksum_pseudo_ok:
  assumes "chain (bufs m) p ps" "length (contents m ps) + 12 \<le> 65535"
  shows "inet_chksum_pseudo p src dest proto n m = Some (inet_chksum (pseudo_header src dest proto n @ contents m ps))"
proof -
  let ?data = "le_sum (contents m ps)" and ?all = "pseudo_header src dest proto n @ contents m ps"
  from chksum_loop_ok [OF assms(1), of 0 False] obtain acc s where
    l: "chksum_loop 0 False p m = Some (acc, s)" "unat acc \<le> 65535" "cong (byte_scale s * unat acc) ?data"
    by (auto simp: byte_scale_def)
  define a where "a = (if s then SWAP_BYTES_IN_WORD acc else acc)"
  note S = swapped_sum [OF l(2,3), folded a_def]
  define t where "t = a + (src AND 0xffff) + (drop_bit 16 src AND 0xffff) + (dest AND 0xffff) + (drop_bit 16 dest AND 0xffff) +
    ucast (htons (ucast proto)) + ucast (htons n)"
  have h: "unat (ucast (htons x) :: u32) \<le> 65535" for x using unat_u16_lt [of "htons x"] by (simp del: unat_u16_lt)
  have t: "unat t = unat a + (le_sum ?all - ?data)"
    unfolding t_def using sum_six [OF S(1) unat_low_half_le unat_low_half_le unat_low_half_le unat_low_half_le h h,
        of src "drop_bit 16 src" dest "drop_bit 16 dest" "ucast proto" n]
    by (simp add: pseudo_header_def le_sum_word htons_proto htons_bytes [of n])
  have "le_sum ?all = ?data + (le_sum ?all - ?data)" by (simp add: pseudo_header_def le_sum_word)
  then have "cong (unat t) (le_sum ?all)" using cong_add [OF S(2) cong_refl [of "le_sum ?all - ?data"]] t by simp
  then have "cong (unat (FOLD_U32T (FOLD_U32T t))) (le_sum ?all)"
    using cong_trans [OF fold_cong [of "FOLD_U32T t"]] cong_trans [OF fold_cong [of t]] by blast
  from not_low_half [OF fold_le [OF fold_once] this]
  have "unat (ucast (NOT (FOLD_U32T (FOLD_U32T t) AND 0xffff)) :: u16) = unat (inet_chksum ?all)"
    using inet_chksum_eq [of ?all] assms(2) by (simp add: pseudo_header_def word_bytes_def)
  then have "ucast (NOT (FOLD_U32T (FOLD_U32T t) AND 0xffff)) = inet_chksum ?all" by (simp only: word_unat_eq_iff)
  then show ?thesis by (simp add: inet_chksum_pseudo_def l(1) Let_def flip: a_def t_def)
qed

lemma verifies:
  assumes "even (length us)" "length (us @ vs) + 2 \<le> 65535" "c = inet_chksum (us @ [0, 0] @ vs)"
  shows "inet_chksum (us @ [ucast c, ucast (drop_bit 8 c)] @ vs) = 0"
proof -
  let ?old = "us @ [0, 0] @ vs" and ?new = "us @ [ucast c, ucast (drop_bit 8 c)] @ vs"
  have app: "cong (le_sum (us @ [a, b] @ vs)) (le_sum us + le_sum vs + (unat a + 256 * unat b))" for a b
    using le_sum_append [of us "[a, b] @ vs"] assms(1) by (simp add: byte_scale_def algebra_simps)
  have "c = push_bit 8 (ucast (ucast (drop_bit 8 c) :: u8)) OR ucast (ucast c :: u8)"
    by (rule bit_word_eqI) (auto simp: bit_simps dest: bit_imp_le_length)
  then have "unat c = unat (ucast c :: u8) + 256 * unat (ucast (drop_bit 8 c) :: u8)" using unat_two_bytes by (metis add.commute)
  then have "cong (le_sum ?new) (le_sum us + le_sum vs + unat c)" using app by simp
  also have "cong \<dots> (ones (le_sum ?old) + unat c)"
    using cong_trans [OF cong_sym [OF app [of 0 0]] cong_sym [OF cong_ones]] by (intro cong_add) simp_all
  also have "ones (le_sum ?old) + unat c = 65535"
    using inet_chksum_eq [of ?old] assms(2,3) ones_le [of "le_sum ?old"] by simp
  finally have "cong 65535 (le_sum ?new)" by (rule cong_sym)
  then have "65535 = ones (le_sum ?new)" by (rule ones_cong) (rule order_refl)
  moreover have "length ?new \<le> 65535" using assms(2) by simp
  note inet_chksum_eq [OF this]
  ultimately have "unat (inet_chksum ?new) = 0" by (metis diff_self_eq_0)
  then show ?thesis by (simp only: unat_eq_0)
qed

lemma scaled_byte_inject:
  assumes "cong (n + byte_scale s * unat x) (n + byte_scale s * unat (y :: u8))"
  shows "x = y"
proof -
  have le: "byte_scale s * unat z \<le> 65280" for z :: u8
    using unat_u8_lt [of z] by (simp add: byte_scale_def del: unat_u8_lt)
  have m: "(n + byte_scale s * unat x) mod 65535 = (n + byte_scale s * unat y) mod 65535" using assms by (simp add: cong_def)
  have "byte_scale s * unat u \<le> byte_scale s * unat v"
    if "(n + byte_scale s * unat u) mod 65535 = (n + byte_scale s * unat v) mod 65535" for u v :: u8
  proof (rule ccontr)
    assume less: "\<not> byte_scale s * unat u \<le> byte_scale s * unat v"
    then have "65535 dvd byte_scale s * unat u - byte_scale s * unat v"
      using that mod_eq_dvd_iff_nat [of "n + byte_scale s * unat v" "n + byte_scale s * unat u" 65535] by simp
    then have "65535 \<le> byte_scale s * unat u - byte_scale s * unat v" using less by (intro dvd_imp_le) simp_all
    then show False using le [of u] by linarith
  qed
  from this [OF m] this [OF m [symmetric]] have "byte_scale s * unat x = byte_scale s * unat y" by (rule order_antisym)
  then show ?thesis by (simp add: byte_scale_def word_unat_eq_iff split: if_splits)
qed

lemma detects:
  assumes "length (us @ vs) + 1 \<le> 65535" "inet_chksum (us @ [x] @ vs) = inet_chksum (us @ [y] @ vs)"
  shows "x = y"
proof -
  let ?s = "odd (length us)"
  have app: "cong (le_sum (us @ [z] @ vs)) (le_sum us + byte_scale ?s * (256 * le_sum vs) + byte_scale ?s * unat z)" for z
  proof -
    have "cong (le_sum (us @ z # vs)) (le_sum us + byte_scale ?s * (unat z + 256 * le_sum vs))"
      by (rule cong_trans [OF le_sum_append]) (intro cong_add cong_refl cong_mult le_sum_Cons, simp add: byte_scale_def)
    then show ?thesis by (simp add: algebra_simps)
  qed
  have le: "length (us @ [z] @ vs) \<le> 65535" for z using assms(1) by simp
  have "ones (le_sum (us @ [x] @ vs)) = ones (le_sum (us @ [y] @ vs))"
    using inet_chksum_eq [OF le [of x]] inet_chksum_eq [OF le [of y]] assms(2) ones_le by (metis diff_diff_cancel)
  then have "cong (le_sum (us @ [x] @ vs)) (le_sum (us @ [y] @ vs))"
    using cong_ones cong_sym cong_trans by metis
  from cong_trans [OF cong_trans [OF cong_sym [OF app] this] app] show "x = y" by (rule scaled_byte_inject)
qed

text \<open>
  Claim C31.  The checksum of a chain of pbufs, with or without the pseudo header of UDP and TCP, is the checksum of the
  bytes one after the other, however they are cut into pbufs, odd lengths included.
\<close>

theorem chksum_of_chain:
  assumes "chain (bufs m) p ps" "length (contents m ps) + 12 \<le> 65535"
  shows "inet_chksum_pbuf p m = Some (inet_chksum (contents m ps)) \<and>
    inet_chksum_pseudo p src dest proto n m = Some (inet_chksum (pseudo_header src dest proto n @ contents m ps))"
  using chksum_pbuf_ok [OF assms(1)] chksum_pseudo_ok [OF assms] assms(2) by simp

theorem chksum_of_chain_witness:
  "\<exists>m. inet_chksum_pbuf (Some 8) m = Some (inet_chksum [24, 25, 26, 104, 105]) \<and>
    inet_chksum_pseudo (Some 8) 0x0A01A8C0 0x0101A8C0 17 5 m =
      Some (inet_chksum [192, 168, 1, 10, 192, 168, 1, 1, 0, 17, 0, 5, 24, 25, 26, 104, 105])"
proof -
  define b where "b = (\<lambda>q a n. \<lparr>p_next = q, p_payload = a, p_tot_len = n, p_len = n, p_type = PBUF_RAM, p_flags = 0, p_ref = 1\<rparr>)"
  define m where "m = net_demo\<lparr>bufs := [8 \<mapsto> b (Some 600) 24 3, 600 \<mapsto> b None 616 2], bytes_of := of_nat\<rparr>"
  have bf: "bufs m 8 = Some (b (Some 600) 24 3)" "bufs m 600 = Some (b None 616 2)" by (simp_all add: m_def)
  have "contents m [8, 600] = [24, 25, 26, 104, 105]"
    by (simp add: piece_def bf) (simp add: b_def load_data_def m_def upt_rec)
  moreover have "pseudo_header 0x0A01A8C0 0x0101A8C0 17 5 = [192, 168, 1, 10, 192, 168, 1, 1, 0, 17, 0, 5]" by code_simp
  moreover have "chain (bufs m) (Some 8) [8, 600]" by (simp add: m_def b_def)
  ultimately show ?thesis
    using chksum_of_chain [of m "Some 8" "[8, 600]" "0x0A01A8C0" "0x0101A8C0" 17 5] by (intro exI [of _ m]) simp
qed

text \<open>
  Claim C32.  A packet of up to 65535 bytes with its checksum in it, at an even offset, sums to zero, which is the test on
  receipt; and the checksum of any run of up to 65535 bytes detects every change of one byte, at an even and at
  an odd offset alike.
\<close>

theorem chksum_verifies:
  assumes "even (length us)" "length (us @ vs) + 2 \<le> 65535" "c = inet_chksum (us @ [0, 0] @ vs)"
    and "length (before @ after) + 1 \<le> 65535"
  shows "inet_chksum (us @ [ucast c, ucast (drop_bit 8 c)] @ vs) = 0 \<and>
    (inet_chksum (before @ [x] @ after) = inet_chksum (before @ [y] @ after) \<longleftrightarrow> x = y)"
  using verifies [OF assms(1-3)] detects [OF assms(4), of x y] by auto

theorem chksum_verifies_witness:
  "inet_chksum [0x45, 0x00, 0x8A, 0xFB, 0x30, 0x04] = 0 \<and> inet_chksum [0x45, 1, 0x30] \<noteq> inet_chksum [0x45, 2, 0x30]"
proof -
  have "0xFB8A = inet_chksum ([0x45, 0x00] @ [0, 0] @ [0x30, 0x04])" by code_simp
  moreover have b: "(0xFB8A :: u8) = 0x8A" by code_simp
  ultimately show ?thesis
    using chksum_verifies [of "[0x45, 0x00]" "[0x30, 0x04]" "0xFB8A" "[0x45]" "[0x30]" 1 2] by (simp add: b)
qed

end
