(* ===== verification/Board.thy ===== *)
theory Board
  imports I2c_Bus App_Led
begin

text \<open>
  The pins of the board.  \<open>GPIO_Init\<close> of the vendor library (\<open>STMLIB/src/stm32f10x_gpio.c\<close>) on the configuration registers
  of a port, and the start-up that configures the pins with it: \<open>hal/bsp.c\<close>, \<open>hal/common/i2c_bus.c\<close>, \<open>hal/hal_uart.c\<close>,
  \<open>app/app_led.c\<close> and \<open>hal/dm9000x.c\<close>, in the order in which \<open>app/main.c\<close> calls them.
\<close>

section \<open>A port\<close>

datatype GPIO_Mode = GPIO_Mode_AIN | GPIO_Mode_IN_FLOATING | GPIO_Mode_IPD | GPIO_Mode_IPU
  | GPIO_Mode_Out_OD | GPIO_Mode_Out_PP | GPIO_Mode_AF_OD | GPIO_Mode_AF_PP

fun mode_code :: "GPIO_Mode \<Rightarrow> u32" where
  "mode_code GPIO_Mode_AIN = 0x0" | "mode_code GPIO_Mode_IN_FLOATING = 0x04"
| "mode_code GPIO_Mode_IPD = 0x28" | "mode_code GPIO_Mode_IPU = 0x48"
| "mode_code GPIO_Mode_Out_OD = 0x14" | "mode_code GPIO_Mode_Out_PP = 0x10"
| "mode_code GPIO_Mode_AF_OD = 0x1C" | "mode_code GPIO_Mode_AF_PP = 0x18"

datatype GPIO_Speed = GPIO_Speed_10MHz | GPIO_Speed_2MHz | GPIO_Speed_50MHz

fun speed_code :: "GPIO_Speed \<Rightarrow> u32" where
  "speed_code GPIO_Speed_10MHz = 1" | "speed_code GPIO_Speed_2MHz = 2" | "speed_code GPIO_Speed_50MHz = 3"

record gpio =
  CRL :: u32
  CRH :: u32
  ODR :: u16

text \<open>One turn of a loop of \<open>GPIO_Init\<close>: the low pins have \<open>off = 0\<close>, the high ones \<open>off = 8\<close>.  A write to \<open>BRR\<close> or
  \<open>BSRR\<close> changes \<open>ODR\<close>.\<close>

definition init_pin :: "u32 \<Rightarrow> GPIO_Mode \<Rightarrow> u16 \<Rightarrow> nat \<Rightarrow> u32 \<times> u16 \<Rightarrow> nat \<Rightarrow> u32 \<times> u16" where
  "init_pin currentmode mode pins off s pinpos =
     (let (tmpreg, odr) = s; pos = push_bit (pinpos + off) 1 :: u32 in
      if ucast pins AND pos = pos then
        let tmpreg = tmpreg AND NOT (push_bit (4 * pinpos) 0x0F);
            tmpreg = tmpreg OR push_bit (4 * pinpos) currentmode;
            odr = (if mode = GPIO_Mode_IPD then odr AND NOT (push_bit (pinpos + off) 1)
                   else if mode = GPIO_Mode_IPU then odr OR push_bit (pinpos + off) 1 else odr)
        in (tmpreg, odr)
      else (tmpreg, odr))"

definition GPIO_Init :: "u16 \<Rightarrow> GPIO_Mode \<Rightarrow> GPIO_Speed \<Rightarrow> gpio \<Rightarrow> gpio" where
  "GPIO_Init pins mode speed g =
     (let currentmode = mode_code mode AND 0x0F;
          currentmode = (if mode_code mode AND 0x10 \<noteq> 0 then currentmode OR speed_code speed else currentmode);
          g = (if pins AND 0x00FF \<noteq> 0
               then let (tmpreg, odr) = foldl (init_pin currentmode mode pins 0) (CRL g, ODR g) [0..<8]
                    in g\<lparr>CRL := tmpreg, ODR := odr\<rparr> else g)
      in if pins > 0x00FF
         then let (tmpreg, odr) = foldl (init_pin currentmode mode pins 8) (CRH g, ODR g) [0..<8]
              in g\<lparr>CRH := tmpreg, ODR := odr\<rparr> else g)"

section \<open>What it does to a pin\<close>

definition nibble :: "nat \<Rightarrow> u32 \<Rightarrow> u32" where
  "nibble j t = take_bit 4 (drop_bit (4 * j) t)"

text \<open>The four configuration bits of a pin, and the bits that a mode and a speed stand for.\<close>

definition pin_field :: "gpio \<Rightarrow> nat \<Rightarrow> u32" where
  "pin_field g n = nibble (n mod 8) (if n < 8 then CRL g else CRH g)"

fun field_of :: "GPIO_Mode \<Rightarrow> GPIO_Speed \<Rightarrow> u32" where
  "field_of GPIO_Mode_AIN s = 0" | "field_of GPIO_Mode_IN_FLOATING s = 4"
| "field_of GPIO_Mode_IPD s = 8" | "field_of GPIO_Mode_IPU s = 8"
| "field_of GPIO_Mode_Out_PP s = speed_code s" | "field_of GPIO_Mode_Out_OD s = 4 + speed_code s"
| "field_of GPIO_Mode_AF_PP s = 8 + speed_code s" | "field_of GPIO_Mode_AF_OD s = 12 + speed_code s"

lemma currentmode:
  "(if mode_code m AND 0x10 \<noteq> 0 then (mode_code m AND 0x0F) OR speed_code s else mode_code m AND 0x0F) = field_of m s"
  by (cases m; cases s) simp_all

lemma field_of_nibble: "take_bit 4 (field_of m s) = field_of m s"
  by (cases m; cases s) simp_all

lemma mask4: "(0xF :: u32) = mask 4"
  by (simp add: mask_eq_exp_minus_1)

lemma nibble_put:
  assumes "take_bit 4 c = c" "j < 8" "k < 8"
  shows "nibble j ((t AND NOT (push_bit (4 * k) 0x0F)) OR push_bit (4 * k) c) = (if j = k then c else nibble j t)"
proof (rule bit_word_eqI)
  fix i
  assume "i < LENGTH(32)"
  have c: "bit c i \<longleftrightarrow> i < 4 \<and> bit c i" for i using assms(1) by (metis bit_take_bit_iff)
  have "4 * k \<le> 4 * j + i \<and> 4 * j + i - 4 * k < 4 \<longleftrightarrow> j = k" if "i < 4" using that by auto
  then show "bit (nibble j ((t AND NOT (push_bit (4 * k) 0x0F)) OR push_bit (4 * k) c)) i =
      bit (if j = k then c else nibble j t) i"
    using c [of i] c [of "4 * j + i - 4 * k"] assms(2) by (auto simp: nibble_def mask4 bit_simps)
qed

lemma pin_selected: "n < 16 \<Longrightarrow> (ucast (pins :: u16) AND push_bit n 1 = (push_bit n 1 :: u32)) \<longleftrightarrow> bit pins n"
proof
  assume n: "n < 16" and e: "ucast pins AND push_bit n 1 = (push_bit n 1 :: u32)"
  from e have "bit (ucast pins AND push_bit n 1 :: u32) n = bit (push_bit n 1 :: u32) n" by simp
  then show "bit pins n" using n by (simp add: bit_simps)
next
  assume "bit pins n"
  then show "ucast pins AND push_bit n 1 = (push_bit n 1 :: u32)"
    by (intro bit_word_eqI) (auto simp: bit_simps bit_1_iff dest: bit_imp_le_length)
qed

lemma init_pin_eq:
  "k + off < 16 \<Longrightarrow> init_pin c m pins off (t, r) k =
     (if bit pins (k + off)
      then (t AND NOT (push_bit (4 * k) 0x0F) OR push_bit (4 * k) c,
        if m = GPIO_Mode_IPD then r AND NOT (push_bit (k + off) 1) else if m = GPIO_Mode_IPU then r OR push_bit (k + off) 1 else r)
      else (t, r))"
  using pin_selected [of "k + off" pins] by (simp add: init_pin_def Let_def)

definition pulled :: "GPIO_Mode \<Rightarrow> bool \<Rightarrow> bool" where
  "pulled m b \<longleftrightarrow> m = GPIO_Mode_IPU \<or> m \<noteq> GPIO_Mode_IPD \<and> b"

lemma init_pins:
  assumes "take_bit 4 c = c" "off \<le> 8"
  shows "n \<le> 8 \<Longrightarrow> foldl (init_pin c m pins off) (t, r) [0..<n] = (t', r') \<Longrightarrow>
    (\<forall>j<8. nibble j t' = (if j < n \<and> bit pins (j + off) then c else nibble j t)) \<and>
    (\<forall>i<16. bit r' i = (if off \<le> i \<and> i < off + n \<and> bit pins i then pulled m (bit r i) else bit r i))"
proof (induction n arbitrary: t' r')
  case (Suc n)
  obtain t1 r1 where 1: "foldl (init_pin c m pins off) (t, r) [0..<n] = (t1, r1)" by (rule prod.exhaust)
  note IH = Suc.IH [OF _ 1]
  have n: "n + off < 16" "n < 8" using Suc.prems(1) assms(2) by auto
  have tr: "(t', r') = init_pin c m pins off (t1, r1) n" using Suc.prems(2) 1 by simp
  show ?case
  proof (cases "bit pins (n + off)")
    case True
    then have e: "t' = t1 AND NOT (push_bit (4 * n) 0x0F) OR push_bit (4 * n) c"
      "r' = (if m = GPIO_Mode_IPD then r1 AND NOT (push_bit (n + off) 1)
         else if m = GPIO_Mode_IPU then r1 OR push_bit (n + off) 1 else r1)"
      using tr n(1) by (simp_all add: init_pin_eq)
    have "nibble j t' = (if j < Suc n \<and> bit pins (j + off) then c else nibble j t)" if "j < 8" for j
      using IH n(2) that True by (auto simp: e(1) nibble_put [OF assms(1) that n(2)] less_Suc_eq)
    moreover have "bit r' i = (if off \<le> i \<and> i < off + Suc n \<and> bit pins i then pulled m (bit r i) else bit r i)"
      if i: "i < 16" for i
    proof -
      have "bit r' i = (if i = n + off then pulled m (bit r1 i) else bit r1 i)"
        using i n(1) by (auto simp: e(2) pulled_def bit_simps bit_1_iff)
      moreover have "off \<le> i \<and> i < off + Suc n \<longleftrightarrow> off \<le> i \<and> i < off + n \<or> i = n + off" by auto
      ultimately show ?thesis using IH n(2) i True by auto
    qed
    ultimately show ?thesis by blast
  next
    case False
    then have "t' = t1" "r' = r1" using tr n(1) by (simp_all add: init_pin_eq)
    moreover have "bit pins i \<Longrightarrow> off \<le> i \<and> i < off + Suc n \<longleftrightarrow> off \<le> i \<and> i < off + n" for i
      using False by (auto simp: less_Suc_eq add.commute)
    ultimately show ?thesis using IH n(2) False by (auto simp: less_Suc_eq add.commute)
  qed
qed auto

lemma low_pins: "pins AND 0x00FF \<noteq> 0 \<longleftrightarrow> (\<exists>n<8. bit (pins :: u16) n)"
proof -
  have "pins AND 0x00FF = 0 \<longleftrightarrow> (\<forall>n. \<not> bit (pins AND 0x00FF) n)" by (metis bit_0_eq bit_word_eqI bot_apply bot_bool_def)
  then show ?thesis by (auto simp: and_low_byte bit_simps)
qed

lemma high_pins: "\<not> pins > 0x00FF \<Longrightarrow> bit (pins :: u16) n \<Longrightarrow> n < 8"
proof -
  assume "\<not> pins > 0x00FF" and b: "bit pins n"
  then have "unat pins < 256" by (simp add: word_less_nat_alt)
  then have "unat (take_bit 8 pins) = unat pins" by (simp only: unsigned_take_bit_eq, simp add: take_bit_eq_mod)
  then have "take_bit 8 pins = pins" by (simp only: word_unat_eq_iff)
  then show "n < 8" using b by (metis bit_take_bit_iff)
qed

lemma init_low:
  assumes "n < 16" "take_bit 4 c = c"
    and "g' = (if pins AND 0x00FF \<noteq> 0
       then let (t, r) = foldl (init_pin c m pins 0) (CRL g, ODR g) [0..<8] in g\<lparr>CRL := t, ODR := r\<rparr> else g)"
  shows "pin_field g' n = (if n < 8 \<and> bit pins n then c else pin_field g n) \<and> CRH g' = CRH g \<and>
    bit (ODR g') n = (if n < 8 \<and> bit pins n then pulled m (bit (ODR g) n) else bit (ODR g) n)"
proof (cases "pins AND 0x00FF \<noteq> 0")
  case True
  obtain t r where 1: "foldl (init_pin c m pins 0) (CRL g, ODR g) [0..<8] = (t, r)" by (rule prod.exhaust)
  from init_pins [OF assms(2) _ _ 1] show ?thesis using assms(1,3) True 1 by (auto simp: pin_field_def)
next
  case False
  then show ?thesis using assms(1,3) low_pins [of pins] by auto
qed

lemma init_high:
  assumes "n < 16" "take_bit 4 c = c"
    and "g' = (if pins > 0x00FF
       then let (t, r) = foldl (init_pin c m pins 8) (CRH g, ODR g) [0..<8] in g\<lparr>CRH := t, ODR := r\<rparr> else g)"
  shows "pin_field g' n = (if 8 \<le> n \<and> bit pins n then c else pin_field g n) \<and>
    bit (ODR g') n = (if 8 \<le> n \<and> bit pins n then pulled m (bit (ODR g) n) else bit (ODR g) n)"
proof (cases "pins > 0x00FF")
  case True
  obtain t r where 1: "foldl (init_pin c m pins 8) (CRH g, ODR g) [0..<8] = (t, r)" by (rule prod.exhaust)
  have "n mod 8 + 8 = n" if "8 \<le> n" using that assms(1) by (auto simp: le_iff_add)
  with init_pins [OF assms(2) _ _ 1] show ?thesis using assms(1,3) True 1 by (auto simp: pin_field_def)
next
  case False
  then show ?thesis using assms(1,3) high_pins [of pins n] by auto
qed

lemma init_all_pins:
  assumes "n < 16"
  shows "pin_field (GPIO_Init pins m s g) n = (if bit pins n then field_of m s else pin_field g n) \<and>
    bit (ODR (GPIO_Init pins m s g)) n = (if bit pins n then pulled m (bit (ODR g) n) else bit (ODR g) n)"
proof -
  let ?c = "field_of m s"
  define g1 where "g1 = (if pins AND 0x00FF \<noteq> 0
       then let (t, r) = foldl (init_pin ?c m pins 0) (CRL g, ODR g) [0..<8] in g\<lparr>CRL := t, ODR := r\<rparr> else g)"
  have "GPIO_Init pins m s g = (if pins > 0x00FF
       then let (t, r) = foldl (init_pin ?c m pins 8) (CRH g1, ODR g1) [0..<8] in g1\<lparr>CRH := t, ODR := r\<rparr> else g1)"
    using currentmode [of m s] unfolding GPIO_Init_def g1_def by (simp only: Let_def)
  from init_high [OF assms field_of_nibble this] init_low [OF assms field_of_nibble g1_def]
  show ?thesis by auto
qed

section \<open>Start-up\<close>

text \<open>The ports and the clock enable register.  A port whose clock is off does not take a write.\<close>

record board =
  ports :: "port \<Rightarrow> gpio"
  APB2ENR :: u32

fun RCC_APB2Periph :: "port \<Rightarrow> u32" where
  "RCC_APB2Periph GPIOA = 0x04" | "RCC_APB2Periph GPIOB = 0x08" | "RCC_APB2Periph GPIOC = 0x10" | "RCC_APB2Periph GPIOD = 0x20"

definition RCC_APB2Periph_AFIO :: u32 where "RCC_APB2Periph_AFIO = 0x01"
definition RCC_APB2Periph_TIM1 :: u32 where "RCC_APB2Periph_TIM1 = 0x0800"
definition RCC_APB2Periph_USART1 :: u32 where "RCC_APB2Periph_USART1 = 0x4000"

datatype board_op = ClockCmd u32 | Init port u16 GPIO_Mode GPIO_Speed | Act action

definition on_port :: "port \<Rightarrow> (gpio \<Rightarrow> gpio) \<Rightarrow> board \<Rightarrow> board" where
  "on_port p f b = (if APB2ENR b AND RCC_APB2Periph p \<noteq> 0 then b\<lparr>ports := (ports b)(p := f (ports b p))\<rparr> else b)"

fun act_step :: "action \<Rightarrow> board \<Rightarrow> board" where
  "act_step (BSRR p m) b = on_port p (\<lambda>g. g\<lparr>ODR := ODR g OR m\<rparr>) b"
| "act_step (BRR p m) b = on_port p (\<lambda>g. g\<lparr>ODR := ODR g AND NOT m\<rparr>) b"
| "act_step (PinMode p m Out_PP) b = on_port p (GPIO_Init m GPIO_Mode_Out_PP GPIO_Speed_50MHz) b"
| "act_step (PinMode p m In_IPU) b = on_port p (GPIO_Init m GPIO_Mode_IPU GPIO_Speed_50MHz) b"
| "act_step _ b = b"

fun board_step :: "board \<Rightarrow> board_op \<Rightarrow> board" where
  "board_step b (ClockCmd m) = b\<lparr>APB2ENR := APB2ENR b OR m\<rparr>"
| "board_step b (Init p pins m s) = on_port p (GPIO_Init pins m s) b"
| "board_step b (Act a) = act_step a b"

definition bsp_hv_io_init :: "board_op list" where
  "bsp_hv_io_init =
     [ClockCmd (RCC_APB2Periph GPIOC), Init GPIOC HV_PIN GPIO_Mode_Out_PP GPIO_Speed_50MHz, Act (BRR GPIOC HV_PIN)]"

definition bsp_74hc595_io_init :: "board_op list" where
  "bsp_74hc595_io_init =
     [ClockCmd (RCC_APB2Periph GPIOA OR RCC_APB2Periph GPIOC),
      Init GPIOA (HC595_LOCK_PIN OR HC595_OFFSET_PIN OR HC595_DATA_PIN) GPIO_Mode_Out_PP GPIO_Speed_50MHz,
      Init GPIOC HC595_OE_PIN GPIO_Mode_Out_PP GPIO_Speed_50MHz, Act (BSRR GPIOC HC595_OE_PIN)]"

text \<open>\<open>i2c_bus_init\<close> with its clock calls.\<close>

definition i2c_bus_clocked_init :: "board_op list" where
  "i2c_bus_clocked_init =
     concat (map (\<lambda>c. [ClockCmd (RCC_APB2Periph (fst (scl_pin c)) OR rcc_sda c),
       Act (PinMode (fst (scl_pin c)) (pin_mask (snd (scl_pin c)) OR ucast (rcc_sda c)) Out_PP),
       Act (BRR (fst (scl_pin c)) (pin_mask (snd (scl_pin c))))]) [ds, sht]) @
     map Act (i2c_bus_chip_reset ds @ i2c_bus_chip_reset sht)"

definition bsp_point_io_init :: "board_op list" where
  "bsp_point_io_init =
     [ClockCmd (RCC_APB2Periph GPIOA OR RCC_APB2Periph GPIOD OR RCC_APB2Periph GPIOA OR RCC_APB2Periph GPIOA),
      Init GPIOA (POINT_LTOP_PIN OR POINT_RTOP_PIN OR POINT_RBOT_PIN) GPIO_Mode_Out_PP GPIO_Speed_50MHz,
      Init GPIOD POINT_LBOT_PIN GPIO_Mode_Out_PP GPIO_Speed_50MHz,
      Act (BRR GPIOA (POINT_LTOP_PIN OR POINT_RTOP_PIN OR POINT_RBOT_PIN)), Act (BRR GPIOD POINT_LBOT_PIN)]"

text \<open>The speed of the next pin is an uninitialised field, which an input does not use.\<close>

definition bsp_ds3231_irq_init :: "board_op list" where
  "bsp_ds3231_irq_init =
     [ClockCmd (RCC_APB2Periph GPIOC OR RCC_APB2Periph_AFIO), Init GPIOC 0x0001 GPIO_Mode_IPU GPIO_Speed_10MHz]"

definition bsp_TIM1_CH4_io_init :: "board_op list" where
  "bsp_TIM1_CH4_io_init =
     [ClockCmd (RCC_APB2Periph_TIM1 OR RCC_APB2Periph GPIOA OR RCC_APB2Periph_AFIO),
      Init GPIOA 0x1000 GPIO_Mode_IN_FLOATING GPIO_Speed_10MHz, Init GPIOA 0x0800 GPIO_Mode_AF_PP GPIO_Speed_50MHz]"

text \<open>The pins of \<open>bsp_init\<close>; the clock tree, the interrupt controller and the timer are left out.\<close>

definition bsp_init :: "board_op list" where
  "bsp_init = bsp_hv_io_init @ bsp_74hc595_io_init @ i2c_bus_clocked_init @ bsp_point_io_init @ bsp_ds3231_irq_init @
     bsp_TIM1_CH4_io_init"

definition uart_io_init :: "board_op list" where
  "uart_io_init =
     [ClockCmd (RCC_APB2Periph_USART1 OR RCC_APB2Periph GPIOA),
      Init GPIOA 0x0400 GPIO_Mode_IN_FLOATING GPIO_Speed_10MHz, Init GPIOA 0x0200 GPIO_Mode_AF_PP GPIO_Speed_50MHz]"

definition led_io_init :: "board_op list" where
  "led_io_init = ClockCmd (RCC_APB2Periph GPIOC) # map Act app_led_init"

definition hardware_init :: "board_op list" where
  "hardware_init = bsp_init @ uart_io_init @ led_io_init"

text \<open>\<open>CONTROL_PORT\<close> is port C, where pin 3 is not \<open>CMD\<close> but the green LED.  The release of the debug pins
  (\<open>GPIO_PinRemapConfig\<close>) is left out.\<close>

definition dm9000x_gpio_inital :: "board_op list" where
  "dm9000x_gpio_inital =
     [ClockCmd (RCC_APB2Periph GPIOA), ClockCmd (RCC_APB2Periph GPIOB), ClockCmd (RCC_APB2Periph GPIOC),
      Init GPIOC (0x0008 OR 0x0010 OR 0x0080 OR 0x0040) GPIO_Mode_Out_PP GPIO_Speed_50MHz,
      Init GPIOA 0x0008 GPIO_Mode_Out_PP GPIO_Speed_50MHz,
      Init GPIOB 0xFFFF GPIO_Mode_Out_PP GPIO_Speed_50MHz,
      Init GPIOB 0x0001 GPIO_Mode_IN_FLOATING GPIO_Speed_10MHz]"

definition reset_board :: board where
  "reset_board = \<lparr>ports = (\<lambda>_. \<lparr>CRL = 0x44444444, CRH = 0x44444444, ODR = 0\<rparr>), APB2ENR = 0\<rparr>"

definition run_board :: "board_op list \<Rightarrow> board" where
  "run_board ops = foldl board_step reset_board ops"

section \<open>Properties\<close>

text \<open>The operations that can make the level of a pin high.\<close>

fun can_raise :: "port \<Rightarrow> nat \<Rightarrow> board_op \<Rightarrow> bool" where
  "can_raise p n (Init q m GPIO_Mode_IPU s) \<longleftrightarrow> p = q \<and> bit m n"
| "can_raise p n (Act (BSRR q m)) \<longleftrightarrow> p = q \<and> bit m n"
| "can_raise p n (Act (PinMode q m In_IPU)) \<longleftrightarrow> p = q \<and> bit m n"
| "can_raise p n _ \<longleftrightarrow> False"

lemma init_low_kept:
  "n < 16 \<Longrightarrow> \<not> (m = GPIO_Mode_IPU \<and> bit pins n) \<Longrightarrow> \<not> bit (ODR g) n \<Longrightarrow> \<not> bit (ODR (GPIO_Init pins m s g)) n"
  using init_all_pins [of n pins m s g] by (auto simp: pulled_def)

lemma step_low_kept:
  assumes "n < 16" "\<not> can_raise p n a" "\<not> bit (ODR (ports b p)) n"
  shows "\<not> bit (ODR (ports (board_step b a) p)) n"
proof (cases a)
  case (Init q m mode s)
  then show ?thesis using assms init_low_kept [OF assms(1), of mode m "ports b q"] by (cases mode) (auto simp: on_port_def)
next
  case (Act x)
  show ?thesis
  proof (cases x)
    case (PinMode q m mode)
    then show ?thesis using Act assms init_low_kept [OF assms(1), of _ m "ports b q"]
      by (cases mode) (auto simp: on_port_def)
  qed (use Act assms in \<open>auto simp: on_port_def bit_simps\<close>)
qed (use assms in auto)

lemma run_low_kept:
  "n < 16 \<Longrightarrow> \<not> bit (ODR (ports b p)) n \<Longrightarrow> list_all (\<lambda>a. \<not> can_raise p n a) ops \<Longrightarrow>
   \<not> bit (ODR (ports (foldl board_step b ops) p)) n"
  by (induction ops arbitrary: b) (simp_all add: step_low_kept)

text \<open>
  Claim C38.  \<open>GPIO_Init\<close> gives the selected pins the mode, sets or clears the output bit of those with a pull-up or
  pull-down, and leaves every other pin as it is.
\<close>

theorem gpio_init_pins:
  assumes "n < 16"
  shows "pin_field (GPIO_Init pins m s g) n = (if bit pins n then field_of m s else pin_field g n) \<and>
    bit (ODR (GPIO_Init pins m s g)) n = (if bit pins n then pulled m (bit (ODR g) n) else bit (ODR g) n)"
  using assms by (rule init_all_pins)

theorem gpio_init_pins_witness:
  "pin_field (GPIO_Init 0x0104 GPIO_Mode_Out_PP GPIO_Speed_50MHz \<lparr>CRL = 0x44444444, CRH = 0x44444444, ODR = 0\<rparr>) 8 = 3"
  by (subst gpio_init_pins [THEN conjunct1], simp, code_simp)

text \<open>
  Claim C39.  The start-up configures every pin that a driver uses, with the clock of its port on, and no pin but those: the
  fields are 3 for a push-pull output, 11 for one of the serial port and the timer, 8 for the input with a pull-up, and 4
  for the inputs left floating.  At no point of it is the pin of the high voltage high.
\<close>

theorem board_start_pins:
  "(let b = run_board (hardware_init @ dm9000x_gpio_inital); fields = (\<lambda>p. map (pin_field (ports b p)) [0..<16]) in
    fields GPIOA = [4, 3, 3, 3, 3, 3, 3, 3, 3, 11, 4, 11, 4, 4, 4, 4] \<and>
    fields GPIOB = [4, 3, 3, 3, 3, 3, 3, 3, 3, 3, 3, 3, 3, 3, 3, 3] \<and>
    fields GPIOC = [8, 3, 3, 3, 3, 3, 3, 3, 3, 4, 3, 4, 4, 4, 3, 3] \<and>
    fields GPIOD = [4, 4, 3, 4, 4, 4, 4, 4, 4, 4, 4, 4, 4, 4, 4, 4] \<and> bit (ODR (ports b GPIOC)) 1) \<and>
   (\<forall>k. \<not> bit (ODR (ports (run_board (take k (hardware_init @ dm9000x_gpio_inital))) GPIOC)) 8)"
proof
  show "let b = run_board (hardware_init @ dm9000x_gpio_inital); fields = (\<lambda>p. map (pin_field (ports b p)) [0..<16]) in
    fields GPIOA = [4, 3, 3, 3, 3, 3, 3, 3, 3, 11, 4, 11, 4, 4, 4, 4] \<and>
    fields GPIOB = [4, 3, 3, 3, 3, 3, 3, 3, 3, 3, 3, 3, 3, 3, 3, 3] \<and>
    fields GPIOC = [8, 3, 3, 3, 3, 3, 3, 3, 3, 4, 3, 4, 4, 4, 3, 3] \<and>
    fields GPIOD = [4, 4, 3, 4, 4, 4, 4, 4, 4, 4, 4, 4, 4, 4, 4, 4] \<and> bit (ODR (ports b GPIOC)) 1"
    by code_simp
  have "list_all (\<lambda>a. \<not> can_raise GPIOC 8 a) (hardware_init @ dm9000x_gpio_inital)" by code_simp
  then have "list_all (\<lambda>a. \<not> can_raise GPIOC 8 a) (take k (hardware_init @ dm9000x_gpio_inital))" for k
    by (auto simp: list_all_iff dest: in_set_takeD)
  then show "\<forall>k. \<not> bit (ODR (ports (run_board (take k (hardware_init @ dm9000x_gpio_inital))) GPIOC)) 8"
    unfolding run_board_def by (intro allI run_low_kept) (simp_all add: reset_board_def)
qed

text \<open>The chip select and the two strobes of the Ethernet controller, active when low, are low from their configuration
  until the first access: the chip is selected and told to read and to write at once, through the delay that follows.  The
  chip select is so already after the set-up of the two-wire buses, whose pin mask has it by mistake.\<close>

lemma board_selects_nic:
  "let g = ports (run_board (hardware_init @ dm9000x_gpio_inital)) GPIOC in
     map (pin_field g) [4, 6, 7] = [3, 3, 3] \<and> map (bit (ODR g)) [4, 6, 7] = [False, False, False]"
  "pin_field (ports (run_board bsp_init) GPIOC) 4 = 3" "\<not> bit (ODR (ports (run_board bsp_init) GPIOC)) 4"
  by code_simp+

lemma clocked_init_actions: "[a. Act a \<leftarrow> i2c_bus_clocked_init] = i2c_bus_init"
  by (simp add: i2c_bus_clocked_init_def i2c_bus_init_def comp_def)

end
