(* ===== verification/Spec2Isabelle.thy ===== *)
theory Spec2Isabelle
  imports Prelude Hardware Kernel_List Kernel_Items Kernel_Tasks Kernel_Sched Kernel_Frame Kernel_Run
    Kernel_Prio Kernel_Calls Kernel_System Kernel_Boot Kernel_Props Kernel_Queue Queue_Fifo
    Queue_Safe Queue_Props App_Display I2c_Bus Rtc App_Buz
    App_Data App_Led Hal_Sht10 Mid_Kalman App_Th App_Time Mid_Cli Heap_2 Heap_Props
    Hal_Uart App_Cli Dm9000 Lwip_Mem Lwip_Mem_Props Pbuf Ethernetif Inet Inet_Chksum Board
begin

text \<open>
  A glow-tube clock: the firmware of an STM32F103 that drives six nixie tubes from a DS3231
  clock chip, with a temperature and humidity sensor, a buzzer, a colour LED, a serial command
  line and settings kept in flash, on the FreeRTOS kernel.  All paths are under
  \<open>src/software/src/\<close>.

  How the parts interact.  The clock task (\<open>app/app_time.c\<close>) wakes on the chip's interrupt each
  second, reads the chip over a bit-banged bus (\<open>hal/hal_ds3231.c\<close>, \<open>hal/common/i2c_bus.c\<close>) and
  fires the events of its table (kept in a kernel list, \<open>FreeRTOS/list.c\<close>): the beep on the hour
  (\<open>app/app_buz.c\<close>) and the display on and off (\<open>app/app_display.c\<close>).  Every half second it hands
  seven bytes to the display: the time, or the readings of the sensor task (\<open>app/app_th.c\<close>, on
  \<open>mid/mid_th.c\<close> and \<open>hal/hal_sht10.c\<close>).  The command line (\<open>mid/mid_cli.c\<close>) runs commands that set
  the show times, the LED (\<open>app/app_led.c\<close>) and, through \<open>app/app_data.c\<close>, the flash.  A network stack receives and sends
  Ethernet frames through a controller on the processor's pins.

  The theories, in the order of the imports:
  \<^item> \<open>Prelude\<close>: integer types of the C code as words, checked array access (\<open>get\<close>, \<open>put\<close>), loops that
    can fail (\<open>fold_opt\<close>), bits of bytes.
  \<^item> \<open>Hardware\<close>: the trace of actions that replaces the registers; pins of \<open>hal/inc/bsp.h\<close>.
  \<^item> \<open>Kernel_List\<close>: \<open>FreeRTOS/list.c\<close> and \<open>list.h\<close> on a memory of nodes with pointers.  Its operations are
    proved to refine operations on HOL lists; the locale \<open>ordered_list\<close> is the contract its clients use.
  \<^item> \<open>Kernel_Items\<close>: the same lists as sequences of items, for the code that works on many lists at once;
    a simulation (locale \<open>simulation\<close>) shows that any run of list operations on the pointers has the effect
    and the results it has on the sequences.
  \<^item> \<open>Kernel_Tasks\<close>: the scheduler, \<open>FreeRTOS/tasks.c\<close>, one definition per function, on a record of its statics.
    \<open>Kernel_Sched\<close>: the invariant of its lists and times, the context switch, the tick and delays.
    \<open>Kernel_Frame\<close>: what each operation leaves alone.  \<open>Kernel_Run\<close>, \<open>Kernel_Prio\<close>, \<open>Kernel_Calls\<close>: each
    operation succeeds and keeps the invariant (moves of tasks and the resumed scheduler; priorities;
    suspension and events).  \<open>Kernel_System\<close>: the calls as steps, and the invariant of all of them;
    \<open>Kernel_Boot\<close>: the start and the reachable states; \<open>Kernel_Props\<close>: the properties of those.
  \<^item> \<open>Kernel_Queue\<close>: \<open>FreeRTOS/queue.c\<close>, one definition per function and per critical section.  \<open>Queue_Fifo\<close>: a
    queue refines a bounded list (the locale \<open>simulation\<close> again).  \<open>Queue_Safe\<close>: a queue and the kernel as one
    system, whose steps keep the invariants of both; \<open>Queue_Props\<close>: the properties of its reachable states.  Giving back a
    mutex can lose the switch that is due (\<open>mutex_give_drops_switch\<close>); both systems count such a give as one of
    their steps (\<open>Disinherit\<close>), and their reachable states carry a flag that a switch is late, until the next one.
    That the highest ready task runs is claimed for the states in which none is late, everything else for all.
  \<^item> \<open>App_Display\<close>: the shift registers, the map of digits to cathodes, the display task, and the
    step relation of the task and its callers.
  \<^item> \<open>I2c_Bus\<close>: the two-wire driver as a trace, in which every read of the data pin is a mark, and the frames a
    slave sees.
  \<^item> \<open>Rtc\<close>: the DS3231 driver on the locale \<open>register_bus\<close>, which is interpreted on the driver and a
    slave that sees the wires alone: it takes its address and the register from them and drives the data line, and the
    driver reads that line; \<open>mid/mid_rtc.c\<close>.
  \<^item> \<open>App_Buz\<close>, \<open>App_Led\<close>: the buzzer and LED tasks.
  \<^item> \<open>App_Data\<close>: the settings; the flash is a parameter with the laws of a NOR flash (locale \<open>nor_flash\<close>,
    interpreted on an array of cells with its end).  The settings are kept on a device whose flash reaches past the
    address the code uses, and lost on one with 256 KB.
  \<^item> \<open>Hal_Sht10\<close>, \<open>Mid_Kalman\<close>, \<open>App_Th\<close>: the sensor, the filters, the readings on the tubes.  A float is a
    real number and every operation is followed by an arbitrary rounding function.
  \<^item> \<open>App_Time\<close>: the event table and the clock task, on \<open>Kernel_List\<close>, \<open>Rtc\<close>, \<open>App_Display\<close>, \<open>App_Buz\<close>.
  \<^item> \<open>Mid_Cli\<close>: the console task, its line editor, password, parser and \<open>help\<close>.
  \<^item> \<open>Heap_2\<close>: \<open>FreeRTOS/portable/MemMang/heap_2.c\<close>, with the free list and the tiling of the array by
    blocks; \<open>Heap_Props\<close>: the heaps that calls reach with requests whose size does not wrap, and their properties; the
    wrap is \<open>heap_request_wraps\<close>.
  \<^item> \<open>Hal_Uart\<close>: the serial port on two queues, its interrupt handler, which interleaves with the characters sent, and the
    log.
  \<^item> \<open>App_Cli\<close>: the commands (\<open>app/app_cli.c\<close>) on the state of the application, and a session at the console
    that goes through the parser, the handlers and the driver to the chip and back.
  \<^item> \<open>Dm9000\<close>: the Ethernet controller, \<open>hal/dm9000x.c\<close>, as actions on its pins.  The locale \<open>nic_port\<close> states what
    a register access does to the chip; it is interpreted on the pins and a model of the chip's registers and memories.
  \<^item> \<open>Lwip_Mem\<close>: the heap of the network stack, \<open>Lwip-1.3.2/src/core/mem.c\<close>, whose structs are proved to represent a
    list of blocks; \<open>Lwip_Mem_Props\<close>: the heaps that calls reach, and their properties.
  \<^item> \<open>Pbuf\<close>: \<open>Lwip-1.3.2/src/core/pbuf.c\<close> on that heap: chains of buffers, their references and their data.
  \<^item> \<open>Ethernetif\<close>: \<open>Lwip-1.3.2/src/netif/ethernetif.c\<close>, which moves frames between the controller and the chains.
  \<^item> \<open>Inet\<close>, \<open>Inet_Chksum\<close>: \<open>Lwip-1.3.2/src/core/ipv4/inet.c\<close> and \<open>inet_chksum.c\<close>: addresses as text, byte order, and the
    Internet checksum, which is proved to be the ones' complement sum of the bytes of a chain.

  \<^item> \<open>Board\<close>: \<open>GPIO_Init\<close> of the vendor library on the registers of a port, and the pins that the start-up configures
    with it.

  Conventions.  A result \<open>None\<close> stands for undefined behaviour of the C code (an access out of bounds,
  a null pointer read) or for a loop that never ends; a theorem that the code works therefore says that
  the result is \<open>Some\<close>.  Integers keep their width.  Loops without a bound in the code (the wait for the
  sensor, the walk of the list insertion, the loop that repeats a command) are
  \<open>partial_function (option)\<close>; nothing uses fuel.  Tasks that interleave are step relations, and the
  invariants are proved by rule induction over the reachable states.

  Properties that do not hold are stated as such: the theorems whose text names a fault show the input
  on which the code goes wrong.

  Not modelled: the clock tree, the interrupt controller and the timer (\<open>hal/bsp.c\<close>, \<open>hal_ds3231_init\<close>), task creation
  (\<open>app/main.c\<close>, \<open>mid_cli_init\<close>), the processor port and the rest of the vendor library, which are register-level
  or assembly code; the kernel's timers, event groups and co-routines and its other heaps, which the application does not use; and
  the protocols of the TCP/IP stack (\<open>Lwip-1.3.2\<close> above the buffers), which are third-party code.
\<close>

end
